(* ===== verification/Xinu_Prelude.thy ===== *)
theory Xinu_Prelude
  imports Main
begin

text \<open>
  Shared vocabulary of the development: the fixed-width integer conversions of the C code,
  the lemma collections, the type \<open>step\<close> of kernel operations that may switch the processor
  to another process, and the predicate \<open>okk\<close> used to state what such an operation guarantees.
\<close>

named_theorems xdefs \<open>definitions of kernel operations, unfolded on demand\<close>
named_theorems kok_intros \<open>rules for the operations that preserve the kernel invariant\<close>

section \<open>Fixed-width integers\<close>

text \<open>
  \<open>int32\<close> and friends are HOL integers; every arithmetic result that the code stores is passed
  through the conversion of its C type, so wrap-around is explicit.
\<close>

definition i32 :: "int \<Rightarrow> int" where "i32 x = (x + 2147483648) mod 4294967296 - 2147483648"
definition u32 :: "int \<Rightarrow> int" where "u32 x = x mod 4294967296"
definition i16 :: "int \<Rightarrow> int" where "i16 x = (x + 32768) mod 65536 - 32768"
definition u16 :: "int \<Rightarrow> int" where "u16 x = x mod 65536"

lemma i32_id [simp]: "- 2147483648 \<le> x \<Longrightarrow> x < 2147483648 \<Longrightarrow> i32 x = x"
  by (simp add: i32_def)

lemma u32_id [simp]: "0 \<le> x \<Longrightarrow> x < 4294967296 \<Longrightarrow> u32 x = x"
  by (simp add: u32_def)

lemma i16_id [simp]: "- 32768 \<le> x \<Longrightarrow> x < 32768 \<Longrightarrow> i16 x = x"
  by (simp add: i16_def)

lemma u16_id [simp]: "0 \<le> x \<Longrightarrow> x < 65536 \<Longrightarrow> u16 x = x"
  by (simp add: u16_def)

lemma i32_range: "- 2147483648 \<le> i32 x" "i32 x < 2147483648"
  by (simp_all add: i32_def)

lemma u32_range: "0 \<le> u32 x" "u32 x < 4294967296"
  by (simp_all add: u32_def)

lemma i16_range: "- 32768 \<le> i16 x" "i16 x < 32768"
  by (simp_all add: i16_def)

lemma i32_shift: "i32 (x + q * 4294967296) = i32 x"
proof -
  have "x + q * 4294967296 + 2147483648 = x + 2147483648 + q * 4294967296" by simp
  then show ?thesis unfolding i32_def by (metis mod_mult_self1)
qed

lemma i32_quot: "\<exists>q. i32 x = x + q * 4294967296"
proof -
  have "i32 x = x + (- ((x + 2147483648) div 4294967296)) * 4294967296"
    using div_mult_mod_eq[of "x + 2147483648" 4294967296] unfolding i32_def by linarith
  then show ?thesis by blast
qed

section \<open>Kernel operations that may switch processes\<close>

text \<open>
  An operation started in some process ends in one of three ways. \<open>Return a s\<close>: it has come back
  to its caller with value \<open>a\<close> in state \<open>s\<close>. \<open>Switch s k\<close>: it called \<open>ctxsw\<close>, the processor now
  belongs to another process and the state is \<open>s\<close>; when the caller is switched in again, in a
  state \<open>s'\<close> that other processes have produced, the operation goes on as \<open>k s'\<close>. \<open>Fault\<close>: the
  code would leave the area of defined behaviour or never return to anyone (an index outside a
  table, a panic, a halt, a loop that does not end).
\<close>

datatype (dead 's, 'a) step =
    Fault
  | Return 'a 's
  | Switch 's "'s \<Rightarrow> ('s, 'a) step"

primrec bindk :: "('s, 'a) step \<Rightarrow> ('a \<Rightarrow> 's \<Rightarrow> ('s, 'b) step) \<Rightarrow> ('s, 'b) step" where
  "bindk Fault f = Fault"
| "bindk (Return a s) f = f a s"
| "bindk (Switch s k) f = Switch s (\<lambda>s'. bindk (k s') f)"

lemma bindk_assoc: "bindk (bindk t f) g = bindk t (\<lambda>a s. bindk (f a s) g)"
  by (induction t) auto

lemma bindk_Return [simp]: "bindk t Return = t"
  by (induction t) auto

text \<open>An operation that never switches, given as a partial function on the state.\<close>

definition liftk :: "('a \<times> 's) option \<Rightarrow> ('s, 'a) step" where
  "liftk r = (case r of None \<Rightarrow> Fault | Some (a, s) \<Rightarrow> Return a s)"

lemma liftk_simps [simp]: "liftk None = Fault" "liftk (Some (a, s)) = Return a s"
  by (simp_all add: liftk_def)

text \<open>
  What an operation guarantees: it does not fault; at every switch it leaves a state satisfying
  \<open>G\<close>; if the caller can be resumed at all (\<open>E\<close>), then from every state satisfying \<open>R\<close> the rest of
  the operation is fine; and when it returns, \<open>Q\<close> holds.
\<close>

primrec okk :: "('s \<Rightarrow> bool) \<Rightarrow> ('s \<Rightarrow> bool) \<Rightarrow> ('s \<Rightarrow> bool) \<Rightarrow> ('a \<Rightarrow> 's \<Rightarrow> bool) \<Rightarrow>
    ('s, 'a) step \<Rightarrow> bool" where
  "okk G E R Q Fault = False"
| "okk G E R Q (Return a s) = Q a s"
| "okk G E R Q (Switch s k) = (G s \<and> (E s \<longrightarrow> (\<forall>s'. R s' \<longrightarrow> okk G E R Q (k s'))))"

lemma okk_bindk [simp]:
  "okk G E R Q (bindk t f) = okk G E R (\<lambda>a s. okk G E R Q (f a s)) t"
  by (induction t) auto

lemma okk_mono: "okk G E R Q t \<Longrightarrow> (\<And>a s. Q a s \<Longrightarrow> Q' a s) \<Longrightarrow> okk G E R Q' t"
  by (induction t) auto

end
