(* ===== verification/Kernel_State.thy ===== *)
theory Kernel_State
  imports Xinu_Prelude "HOL-Library.Monad_Syntax"
begin

text \<open>
  The data of the kernel: the structures of \<^verbatim>\<open>include/process.h\<close>, \<^verbatim>\<open>queue.h\<close>, \<^verbatim>\<open>semaphore.h\<close>,
  \<^verbatim>\<open>memory.h\<close>, \<^verbatim>\<open>bufpool.h\<close>, \<^verbatim>\<open>ports.h\<close>, \<^verbatim>\<open>mark.h\<close> as records, the state constants as datatypes, and
  the global variables of the kernel as the fields of one record \<open>kstate\<close>. A table of the C
  code is a function from indices; every access that the code makes with a computed index goes
  through a reader or writer that is undefined (\<open>None\<close>) outside the table's bounds.
\<close>

section \<open>Constants\<close>

definition NPROC :: int where [simp]: "NPROC = 100"
definition NSEM :: int where [simp]: "NSEM = 100"
definition NQENT :: int where [simp]: "NQENT = NPROC + 4 + NSEM + NSEM"
definition EMPTY :: int where [simp]: "EMPTY = -1"
definition MAXKEY :: int where [simp]: "MAXKEY = 0x7FFFFFFF"
definition MINKEY :: int where "MINKEY = i32 0x80000000"
definition QUANTUM :: int where [simp]: "QUANTUM = 2"
definition NULLPROC :: int where [simp]: "NULLPROC = 0"
definition OK :: int where [simp]: "OK = 1"
definition SYSERR :: int where [simp]: "SYSERR = -1"
definition EOF :: int where [simp]: "EOF = -2"
definition TIMEOUT :: int where [simp]: "TIMEOUT = -3"

lemma MINKEY_val [simp]: "MINKEY = - 2147483648"
  by (simp add: MINKEY_def i32_def)

section \<open>Structures\<close>

text \<open>The constants \<^verbatim>\<open>PR_FREE\<close> \dots \<^verbatim>\<open>PR_RECTIM\<close> and \<^verbatim>\<open>S_FREE\<close>, \<^verbatim>\<open>S_USED\<close>.\<close>

datatype pstate = PR_FREE | PR_CURR | PR_READY | PR_RECV | PR_SLEEP | PR_SUSP | PR_WAIT | PR_RECTIM

datatype semstate = S_FREE | S_USED

datatype ptstate_t = PT_FREE | PT_LIMBO | PT_ALLOC

record procent =
  prstate :: pstate
  prprio :: int
  prstkptr :: int
  prstkbase :: int
  prstklen :: int
  prname :: string
  prsem :: int
  prparent :: int
  prmsg :: int
  prhasmsg :: bool
  prdesc :: "int list"

record qentry =
  qkey :: int
  qnext :: int
  qprev :: int

record sentry =
  sstate :: semstate
  scount :: int
  squeue :: int

record bpentry =
  bpnext :: int
  bpsem :: int
  bpsize :: int

record ptentry =
  ptssem :: int
  ptrsem :: int
  ptstate :: ptstate_t
  ptmaxcnt :: int
  ptseq :: int
  pthead :: int
  pttail :: int

text \<open>
  The storage that \<^verbatim>\<open>getmem\<close> hands out, as 32-bit words by address. \<open>memlist_at\<close> is the address
  of the global \<^verbatim>\<open>memlist\<close>; a \<^verbatim>\<open>struct memblk\<close> at address \<open>a\<close> has \<^verbatim>\<open>mnext\<close> at \<open>a\<close> and
  \<^verbatim>\<open>mlength\<close> at \<open>a + 4\<close>, a \<^verbatim>\<open>struct ptnode\<close> has \<^verbatim>\<open>ptmsg\<close> at \<open>a\<close> and \<^verbatim>\<open>ptnext\<close> at \<open>a + 4\<close>, and a
  free buffer has \<^verbatim>\<open>bpnext\<close> at \<open>a\<close>.
\<close>

record heap =
  mem :: "int \<Rightarrow> int"
  memlist_at :: int
  minheap :: int
  maxheap :: int

record kstate =
  queuetab :: "int \<Rightarrow> qentry"
  nextqid :: int
  proctab :: "int \<Rightarrow> procent"
  prcount :: int
  currpid :: int
  nextpid :: int
  readylist :: int
  ndefers :: int
  attempt :: bool
  preempt :: int
  semtab :: "int \<Rightarrow> sentry"
  nextsem :: int
  sleepq :: int
  clktime :: int
  count1000 :: int
  hp :: heap
  buftab :: "int \<Rightarrow> bpentry"
  nbpools :: int
  ptfree :: int
  porttab :: "int \<Rightarrow> ptentry"
  ptnextid :: int
  marks :: "int \<Rightarrow> int"
  nmarks :: int
  mkmutex :: int

section \<open>Table access\<close>

definition inq :: "int \<Rightarrow> bool" where
  "inq i \<longleftrightarrow> 0 \<le> i \<and> i < NQENT"

definition rdq :: "int \<Rightarrow> kstate \<Rightarrow> qentry option" where
  "rdq i s = (if inq i then Some (queuetab s i) else None)"

definition upq :: "int \<Rightarrow> (qentry \<Rightarrow> qentry) \<Rightarrow> kstate \<Rightarrow> kstate option" where
  "upq i f s = (if inq i then Some (s\<lparr>queuetab := (queuetab s)(i := f (queuetab s i))\<rparr>) else None)"

definition isbadpid :: "kstate \<Rightarrow> int \<Rightarrow> bool" where
  "isbadpid s x \<longleftrightarrow> x < 0 \<or> x \<ge> NPROC \<or> prstate (proctab s x) = PR_FREE"

definition isbadqid :: "int \<Rightarrow> bool" where
  "isbadqid x \<longleftrightarrow> x < NPROC \<or> x \<ge> NQENT - 1"

definition isbadsem :: "int \<Rightarrow> bool" where
  "isbadsem x \<longleftrightarrow> x < 0 \<or> x \<ge> NSEM"

definition upp :: "int \<Rightarrow> (procent \<Rightarrow> procent) \<Rightarrow> kstate \<Rightarrow> kstate" where
  "upp i f s = s\<lparr>proctab := (proctab s)(i := f (proctab s i))\<rparr>"

definition upsem :: "int \<Rightarrow> (sentry \<Rightarrow> sentry) \<Rightarrow> kstate \<Rightarrow> kstate" where
  "upsem i f s = s\<lparr>semtab := (semtab s)(i := f (semtab s i))\<rparr>"

definition set_prstate :: "int \<Rightarrow> pstate \<Rightarrow> kstate \<Rightarrow> kstate" where
  "set_prstate p st = upp p (prstate_update (\<lambda>_. st))"

end
