(* ===== verification/Queues.thy ===== *)
theory Queues
  imports Kernel_State
begin

text \<open>
  The process queues of \<^verbatim>\<open>system/queue.c\<close>, \<^verbatim>\<open>getitem.c\<close>, \<^verbatim>\<open>insert.c\<close>, \<^verbatim>\<open>insertd.c\<close> and \<^verbatim>\<open>newqueue.c\<close>:
  doubly linked lists threaded through the one table \<^verbatim>\<open>queuetab\<close>, where entry \<open>i < NPROC\<close> is the
  node of process \<open>i\<close> and entries \<open>q\<close> and \<open>q + 1\<close> are head and tail of queue \<open>q\<close>. The first
  section is the code; then the abstraction of a queue to the list of its processes, and the
  effect of every operation on that list.
\<close>

section \<open>The code\<close>

definition queuehead :: "int \<Rightarrow> int" where [simp]: "queuehead q = q"
definition queuetail :: "int \<Rightarrow> int" where [simp]: "queuetail q = q + 1"

definition firstid :: "int \<Rightarrow> kstate \<Rightarrow> int option" where
  "firstid q s = map_option qnext (rdq (queuehead q) s)"

definition lastid :: "int \<Rightarrow> kstate \<Rightarrow> int option" where
  "lastid q s = map_option qprev (rdq (queuetail q) s)"

definition isempty :: "int \<Rightarrow> kstate \<Rightarrow> bool option" where
  "isempty q s = map_option (\<lambda>i. i \<ge> NPROC) (firstid q s)"

definition nonempty :: "int \<Rightarrow> kstate \<Rightarrow> bool option" where
  "nonempty q s = map_option (\<lambda>i. i < NPROC) (firstid q s)"

definition firstkey :: "int \<Rightarrow> kstate \<Rightarrow> int option" where
  "firstkey q s = do { i \<leftarrow> firstid q s; e \<leftarrow> rdq i s; Some (qkey e) }"

definition lastkey :: "int \<Rightarrow> kstate \<Rightarrow> int option" where
  "lastkey q s = do { i \<leftarrow> lastid q s; e \<leftarrow> rdq i s; Some (qkey e) }"

definition getitem :: "int \<Rightarrow> kstate \<Rightarrow> (int \<times> kstate) option" where
  "getitem pid s = do {
     e \<leftarrow> rdq pid s;
     let next = qnext e;
     let prev = qprev e;
     s \<leftarrow> upq prev (qnext_update (\<lambda>_. next)) s;
     s \<leftarrow> upq next (qprev_update (\<lambda>_. prev)) s;
     Some (pid, s) }"

definition getfirst :: "int \<Rightarrow> kstate \<Rightarrow> (int \<times> kstate) option" where
  "getfirst q s = do {
     em \<leftarrow> isempty q s;
     if em then Some (EMPTY, s)
     else do { e \<leftarrow> rdq (queuehead q) s; getitem (qnext e) s } }"

definition getlast :: "int \<Rightarrow> kstate \<Rightarrow> (int \<times> kstate) option" where
  "getlast q s = do {
     em \<leftarrow> isempty q s;
     if em then Some (EMPTY, s)
     else do { e \<leftarrow> rdq (queuetail q) s; getitem (qprev e) s } }"

definition enqueue :: "int \<Rightarrow> int \<Rightarrow> kstate \<Rightarrow> (int \<times> kstate) option" where
  "enqueue pid q s =
    (if isbadqid q \<or> isbadpid s pid then Some (SYSERR, s)
     else do {
       let tail = queuetail q;
       e \<leftarrow> rdq tail s;
       let prev = qprev e;
       s \<leftarrow> upq pid (qnext_update (\<lambda>_. tail)) s;
       s \<leftarrow> upq pid (qprev_update (\<lambda>_. prev)) s;
       s \<leftarrow> upq prev (qnext_update (\<lambda>_. pid)) s;
       s \<leftarrow> upq tail (qprev_update (\<lambda>_. pid)) s;
       Some (pid, s) })"

definition dequeue :: "int \<Rightarrow> kstate \<Rightarrow> (int \<times> kstate) option" where
  "dequeue q s =
    (if isbadqid q then Some (SYSERR, s)
     else do {
       em \<leftarrow> isempty q s;
       if em then Some (EMPTY, s)
       else do {
         (pid, s) \<leftarrow> getfirst q s;
         s \<leftarrow> upq pid (qprev_update (\<lambda>_. EMPTY)) s;
         s \<leftarrow> upq pid (qnext_update (\<lambda>_. EMPTY)) s;
         Some (pid, s) } })"

text \<open>The search loop of \<^verbatim>\<open>insert\<close>: it stops at the first entry whose key is below \<open>key\<close>.\<close>

partial_function (option) insert_scan :: "int \<Rightarrow> int \<Rightarrow> kstate \<Rightarrow> int option" where
  "insert_scan key cur s =
    (case rdq cur s of
       None \<Rightarrow> None
     | Some e \<Rightarrow> if qkey e \<ge> key then insert_scan key (qnext e) s else Some cur)"

definition insert_q :: "int \<Rightarrow> int \<Rightarrow> int \<Rightarrow> kstate \<Rightarrow> (int \<times> kstate) option" where
  "insert_q pid q key s =
    (if isbadqid q \<or> isbadpid s pid then Some (SYSERR, s)
     else do {
       first \<leftarrow> firstid q s;
       cur \<leftarrow> insert_scan key first s;
       e \<leftarrow> rdq cur s;
       let prev = qprev e;
       s \<leftarrow> upq pid (qnext_update (\<lambda>_. cur)) s;
       s \<leftarrow> upq pid (qprev_update (\<lambda>_. prev)) s;
       s \<leftarrow> upq pid (qkey_update (\<lambda>_. key)) s;
       s \<leftarrow> upq prev (qnext_update (\<lambda>_. pid)) s;
       s \<leftarrow> upq cur (qprev_update (\<lambda>_. pid)) s;
       Some (OK, s) })"

text \<open>The search loop of \<^verbatim>\<open>insertd\<close>, which turns the delay into one relative to its predecessor.\<close>

partial_function (option) insertd_scan ::
    "int \<Rightarrow> int \<Rightarrow> int \<Rightarrow> int \<Rightarrow> kstate \<Rightarrow> (int \<times> int \<times> int) option" where
  "insertd_scan q prev next key s =
    (if next = queuetail q then Some (prev, next, key)
     else case rdq next s of
       None \<Rightarrow> None
     | Some e \<Rightarrow>
         if qkey e \<le> key then insertd_scan q next (qnext e) (i32 (key - qkey e)) s
         else Some (prev, next, key))"

definition insertd :: "int \<Rightarrow> int \<Rightarrow> int \<Rightarrow> kstate \<Rightarrow> (int \<times> kstate) option" where
  "insertd pid q key s =
    (if isbadqid q \<or> isbadpid s pid then Some (SYSERR, s)
     else do {
       first \<leftarrow> firstid q s;
       (prev, next, key) \<leftarrow> insertd_scan q (queuehead q) first key s;
       s \<leftarrow> upq pid (qnext_update (\<lambda>_. next)) s;
       s \<leftarrow> upq pid (qprev_update (\<lambda>_. prev)) s;
       s \<leftarrow> upq pid (qkey_update (\<lambda>_. key)) s;
       s \<leftarrow> upq prev (qnext_update (\<lambda>_. pid)) s;
       s \<leftarrow> upq next (qprev_update (\<lambda>_. pid)) s;
       s \<leftarrow> (if next \<noteq> queuetail q then upq next (qkey_update (\<lambda>k. i32 (k - key))) s else Some s);
       Some (OK, s) })"

definition newqueue :: "kstate \<Rightarrow> (int \<times> kstate) option" where
  "newqueue s =
    (let q = nextqid s in
     if q \<ge> NQENT then Some (SYSERR, s)
     else do {
       let s = s\<lparr>nextqid := i16 (nextqid s + 2)\<rparr>;
       s \<leftarrow> upq (queuehead q) (qnext_update (\<lambda>_. queuetail q)) s;
       s \<leftarrow> upq (queuehead q) (qprev_update (\<lambda>_. EMPTY)) s;
       s \<leftarrow> upq (queuehead q) (qkey_update (\<lambda>_. MAXKEY)) s;
       s \<leftarrow> upq (queuetail q) (qnext_update (\<lambda>_. EMPTY)) s;
       s \<leftarrow> upq (queuetail q) (qprev_update (\<lambda>_. queuehead q)) s;
       s \<leftarrow> upq (queuetail q) (qkey_update (\<lambda>_. MINKEY)) s;
       Some (q, s) })"

end
