(* ===== verification/Queue_Lists.thy ===== *)
theory Queue_Lists
  imports Queues
begin

text \<open>
  A queue of \<^verbatim>\<open>queuetab\<close> as a list of process numbers: \<open>wfq Q q xs\<close> says that the links of queue
  \<open>q\<close> run through exactly \<open>xs\<close>, forwards and backwards, and \<open>qcontents\<close> reads the list off the
  table. Two lemmas on relinking a node (\<open>wfq_link\<close>, \<open>wfq_unlink\<close>) carry the correctness of all
  the queue operations.
\<close>

section \<open>Linked segments\<close>

fun seg :: "(int \<Rightarrow> qentry) \<Rightarrow> int \<Rightarrow> int list \<Rightarrow> int \<Rightarrow> bool" where
  "seg Q a [] b \<longleftrightarrow> qnext (Q a) = b \<and> qprev (Q b) = a"
| "seg Q a (x # xs) b \<longleftrightarrow> qnext (Q a) = x \<and> qprev (Q x) = a \<and> seg Q x xs b"

lemma seg_append [simp]: "seg Q a (xs @ y # ys) b \<longleftrightarrow> seg Q a xs y \<and> seg Q y ys b"
  by (induction xs arbitrary: a) auto

lemma seg_frame:
  assumes "\<And>i. i = a \<or> i \<in> set xs \<Longrightarrow> qnext (Q' i) = qnext (Q i)"
    and "\<And>i. i = b \<or> i \<in> set xs \<Longrightarrow> qprev (Q' i) = qprev (Q i)"
  shows "seg Q' a xs b = seg Q a xs b"
  using assms by (induction xs arbitrary: a) auto

lemma seg_first: "seg Q a xs b \<Longrightarrow> qnext (Q a) = hd (xs @ [b])"
  by (cases xs) auto

lemma seg_last: "seg Q a xs b \<Longrightarrow> qprev (Q b) = last (a # xs)"
  by (induction xs arbitrary: a) auto

lemma seg_mid:
  "seg Q a (us @ p # vs) b \<Longrightarrow> qnext (Q p) = hd (vs @ [b]) \<and> qprev (Q p) = last (a # us)"
  using seg_first[of Q p vs b] seg_last[of Q a us p] by simp

section \<open>Well-formed queues\<close>

definition procs :: "int set" where
  "procs = {0..<NPROC}"

lemma in_procs [simp]: "p \<in> procs \<longleftrightarrow> 0 \<le> p \<and> p < 100"
  by (simp add: procs_def)

lemma finite_procs [simp]: "finite procs"
  by (simp add: procs_def)

definition wfq :: "(int \<Rightarrow> qentry) \<Rightarrow> int \<Rightarrow> int list \<Rightarrow> bool" where
  "wfq Q q xs \<longleftrightarrow> NPROC \<le> q \<and> q + 1 < NQENT \<and> seg Q q xs (q + 1) \<and> distinct xs \<and>
     set xs \<subseteq> procs \<and> qkey (Q (q + 1)) = MINKEY"

lemma wfqD:
  assumes "wfq Q q xs"
  shows "100 \<le> q" "q < 303" "seg Q q xs (q + 1)" "distinct xs" "set xs \<subseteq> procs"
    "qkey (Q (q + 1)) = MINKEY"
  using assms by (auto simp: wfq_def)

lemma wfq_length: "wfq Q q xs \<Longrightarrow> length xs \<le> 100"
proof -
  assume "wfq Q q xs"
  then have "card (set xs) \<le> card procs" and "distinct xs"
    using wfqD[of Q q xs] by (auto intro!: card_mono)
  then show ?thesis by (simp add: distinct_card procs_def)
qed

lemma wfq_empty_iff: "wfq Q q xs \<Longrightarrow> qnext (Q q) \<ge> 100 \<longleftrightarrow> xs = []"
  by (cases xs) (auto simp: wfq_def)

lemma wfq_nempty_iff: "wfq Q q xs \<Longrightarrow> qnext (Q q) < 100 \<longleftrightarrow> xs \<noteq> []"
  by (cases xs) (auto simp: wfq_def)

text \<open>Changes to other entries, or to keys of members only, leave a queue as it is.\<close>

lemma wfq_frame:
  assumes "wfq Q q xs"
    and "\<And>i. i = q \<or> i \<in> set xs \<Longrightarrow> qnext (Q' i) = qnext (Q i)"
    and "\<And>i. i = q + 1 \<or> i \<in> set xs \<Longrightarrow> qprev (Q' i) = qprev (Q i)"
    and "qkey (Q' (q + 1)) = qkey (Q (q + 1))"
  shows "wfq Q' q xs"
  using assms seg_frame[of q xs Q' Q "q + 1"] by (simp add: wfq_def)

fun walk :: "nat \<Rightarrow> (int \<Rightarrow> qentry) \<Rightarrow> int \<Rightarrow> int list" where
  "walk 0 Q i = []"
| "walk (Suc n) Q i = (if 0 \<le> i \<and> i < NPROC then i # walk n Q (qnext (Q i)) else [])"

definition qcontents :: "kstate \<Rightarrow> int \<Rightarrow> int list" where
  "qcontents s q = walk (nat NPROC) (queuetab s) (qnext (queuetab s q))"

lemma walk_seg:
  assumes "seg Q a xs b" "set xs \<subseteq> procs" "b \<ge> 100" "length xs \<le> n"
  shows "walk n Q (qnext (Q a)) = xs"
  using assms
proof (induction n arbitrary: a xs)
  case 0
  then show ?case by simp
next
  case (Suc n)
  then show ?case by (cases xs) auto
qed

lemma qcontents_eq: "wfq (queuetab s) q xs \<Longrightarrow> qcontents s q = xs"
  using wfq_length[of "queuetab s" q xs] wfqD[of "queuetab s" q xs]
  by (auto simp: qcontents_def intro!: walk_seg[where b = "q + 1"])

section \<open>Relinking\<close>

lemma seg_link:
  assumes "seg Q a (us @ vs) b" "distinct (a # us @ vs)" "b \<notin> set (a # us @ vs)"
    and "p \<notin> set (a # us @ vs)" "p \<noteq> b"
    and n: "\<And>i. qnext (Q' i) = (if i = p then hd (vs @ [b]) else if i = last (a # us) then p else qnext (Q i))"
    and v: "\<And>i. qprev (Q' i) = (if i = p then last (a # us) else if i = hd (vs @ [b]) then p else qprev (Q i))"
  shows "seg Q' a (us @ p # vs) b"
  using assms
proof (induction us arbitrary: a)
  case Nil
  note n = Nil.prems(6) and v = Nil.prems(7)
  show ?case
  proof (cases vs)
    case Nil
    then show ?thesis using Nil.prems(1-5) by (simp add: n v)
  next
    case (Cons v1 vs')
    moreover have "seg Q' v1 vs' b = seg Q v1 vs' b"
      by (intro seg_frame) (use Nil.prems(1-5) Cons in \<open>auto simp: n v\<close>)
    ultimately show ?thesis using Nil.prems(1-5) by (simp add: n v)
  qed
next
  case (Cons u us)
  note n = Cons.prems(6) and v = Cons.prems(7)
  have l: "last (u # us) \<in> set (u # us)" by (rule last_in_set) simp
  have h: "hd (vs @ [b]) \<in> set (vs @ [b])" by (rule hd_in_set) simp
  have "seg Q' u (us @ p # vs) b"
    using Cons.prems(1-5) by (intro Cons.IH) (auto simp: n v)
  moreover have "a \<noteq> p" "u \<noteq> p" "a \<noteq> last (u # us)" "u \<noteq> hd (vs @ [b])"
    using l h Cons.prems(2-5) by auto
  then have "qnext (Q' a) = u" "qprev (Q' u) = a"
    using n[of a] v[of u] Cons.prems(1) by simp_all
  ultimately show ?case by simp
qed

lemma seg_unlink:
  assumes "seg Q a (us @ p # vs) b" "distinct (a # us @ p # vs)" "b \<notin> set (a # us @ p # vs)"
    and n: "\<And>i. i \<noteq> p \<Longrightarrow> qnext (Q' i) = (if i = last (a # us) then hd (vs @ [b]) else qnext (Q i))"
    and v: "\<And>i. i \<noteq> p \<Longrightarrow> qprev (Q' i) = (if i = hd (vs @ [b]) then last (a # us) else qprev (Q i))"
  shows "seg Q' a (us @ vs) b"
  using assms
proof (induction us arbitrary: a)
  case Nil
  note n = Nil.prems(4) and v = Nil.prems(5)
  have ap: "a \<noteq> p" and bp: "b \<noteq> p" using Nil.prems(2,3) by auto
  show ?case
  proof (cases vs)
    case Nil
    then show ?thesis using ap bp by (simp add: n v)
  next
    case (Cons v1 vs')
    have ne: "i \<noteq> p \<and> i \<noteq> a" if "i \<in> set (v1 # vs')" for i
      using that Nil.prems(2) Cons by auto
    have ne2: "i \<noteq> p \<and> i \<noteq> v1" if "i = b \<or> i \<in> set vs'" for i
      using that Nil.prems(2,3) Cons by auto
    have "seg Q' v1 vs' b = seg Q v1 vs' b"
      by (intro seg_frame) (use ne ne2 Cons in \<open>auto simp: n v\<close>)
    moreover have "seg Q v1 vs' b" using Nil.prems(1) Cons by simp
    moreover have "qnext (Q' a) = v1" using n[OF ap] Cons by simp
    moreover have "qprev (Q' v1) = a" using v[of v1] ne[of v1] Cons by simp
    ultimately show ?thesis using Cons by simp
  qed
next
  case (Cons u us)
  note n = Cons.prems(4) and v = Cons.prems(5)
  have l: "last (u # us) \<in> set (u # us)" by (rule last_in_set) simp
  have h: "hd (vs @ [b]) \<in> set (vs @ [b])" by (rule hd_in_set) simp
  have ne: "a \<noteq> p" "u \<noteq> p" "a \<noteq> last (u # us)" "u \<noteq> hd (vs @ [b])"
    using l h Cons.prems(2,3) by auto
  have "seg Q' u (us @ vs) b"
  proof (rule Cons.IH)
    show "seg Q u (us @ p # vs) b" using Cons.prems(1) by simp
    show "distinct (u # us @ p # vs)" using Cons.prems(2) by simp
    show "b \<notin> set (u # us @ p # vs)" using Cons.prems(3) by simp
  qed (simp_all add: n v)
  moreover have "qnext (Q' a) = u" using n[OF ne(1)] ne(3) Cons.prems(1) by simp
  moreover have "qprev (Q' u) = a" using v[OF ne(2)] ne(4) Cons.prems(1) by simp
  ultimately show ?case by simp
qed

lemma wfq_out: "wfq Q q xs \<Longrightarrow> q \<notin> set xs \<and> q + 1 \<notin> set xs"
  by (auto simp: wfq_def)

lemma wfq_link:
  assumes wf: "wfq Q q (us @ vs)" and p: "p \<in> procs" "p \<notin> set (us @ vs)"
    and n: "\<And>i. qnext (Q' i) = (if i = p then hd (vs @ [q + 1]) else if i = last (q # us) then p else qnext (Q i))"
    and v: "\<And>i. qprev (Q' i) = (if i = p then last (q # us) else if i = hd (vs @ [q + 1]) then p else qprev (Q i))"
    and k: "qkey (Q' (q + 1)) = qkey (Q (q + 1))"
  shows "wfq Q' q (us @ p # vs)"
proof -
  note w = wfqD[OF wf] wfq_out[OF wf]
  have "seg Q' q (us @ p # vs) (q + 1)"
  proof (rule seg_link[OF w(3)])
    show "distinct (q # us @ vs)" "q + 1 \<notin> set (q # us @ vs)" "p \<notin> set (q # us @ vs)" "p \<noteq> q + 1"
      using w p by auto
  qed (rule n v)+
  then show ?thesis using w p k unfolding wfq_def by auto
qed

lemma wfq_unlink:
  assumes wf: "wfq Q q (us @ p # vs)"
    and n: "\<And>i. i \<noteq> p \<Longrightarrow> qnext (Q' i) = (if i = last (q # us) then hd (vs @ [q + 1]) else qnext (Q i))"
    and v: "\<And>i. i \<noteq> p \<Longrightarrow> qprev (Q' i) = (if i = hd (vs @ [q + 1]) then last (q # us) else qprev (Q i))"
    and k: "qkey (Q' (q + 1)) = qkey (Q (q + 1))"
  shows "wfq Q' q (us @ vs)"
proof -
  note w = wfqD[OF wf] wfq_out[OF wf]
  have "seg Q' q (us @ vs) (q + 1)"
  proof (rule seg_unlink[OF w(3)])
    show "distinct (q # us @ p # vs)" "q + 1 \<notin> set (q # us @ p # vs)"
      using w by auto
  qed (erule n v)+
  then show ?thesis using w k unfolding wfq_def by auto
qed

section \<open>The family of queues\<close>

text \<open>
  The queues that \<^verbatim>\<open>sysinit\<close> and \<^verbatim>\<open>clkinit\<close> allocate have the even identifiers from \<open>NPROC\<close> on; \<open>wfqs Q L\<close>
  says that all of them are well formed, hold the lists \<open>L\<close>, and that no process is on two of them.
\<close>

definition qids :: "int set" where
  "qids = {q. NPROC \<le> q \<and> q + 1 < NQENT \<and> even q}"

lemma in_qids: "q \<in> qids \<longleftrightarrow> 100 \<le> q \<and> q < 303 \<and> even q"
  by (auto simp: qids_def)

lemma qids_apart: "q \<in> qids \<Longrightarrow> r \<in> qids \<Longrightarrow> q \<noteq> r \<Longrightarrow> q \<noteq> r + 1 \<and> r \<noteq> q + 1"
  unfolding in_qids by presburger

lemma qids_bounds: "q \<in> qids \<Longrightarrow> inq q \<and> inq (q + 1) \<and> \<not> isbadqid q"
  by (auto simp: in_qids inq_def isbadqid_def)

lemma procs_inq: "p \<in> procs \<Longrightarrow> inq p"
  by (simp add: inq_def)

definition wfqs :: "(int \<Rightarrow> qentry) \<Rightarrow> (int \<Rightarrow> int list) \<Rightarrow> bool" where
  "wfqs Q L \<longleftrightarrow> (\<forall>q\<in>qids. wfq Q q (L q)) \<and>
     (\<forall>q\<in>qids. \<forall>r\<in>qids. q \<noteq> r \<longrightarrow> set (L q) \<inter> set (L r) = {})"

lemma wfqs_wfq: "wfqs Q L \<Longrightarrow> q \<in> qids \<Longrightarrow> wfq Q q (L q)"
  by (simp add: wfqs_def)

lemma wfqs_disjoint: "wfqs Q L \<Longrightarrow> q \<in> qids \<Longrightarrow> r \<in> qids \<Longrightarrow> q \<noteq> r \<Longrightarrow> p \<in> set (L q) \<Longrightarrow> p \<notin> set (L r)"
  by (auto simp: wfqs_def)

lemma wfqs_procs: "wfqs Q L \<Longrightarrow> q \<in> qids \<Longrightarrow> p \<in> set (L q) \<Longrightarrow> p \<in> procs"
  using wfqD(5)[OF wfqs_wfq, of Q L q] by auto

lemma wfqs_cong: "wfqs Q L \<Longrightarrow> (\<And>q. q \<in> qids \<Longrightarrow> L' q = L q) \<Longrightarrow> wfqs Q L'"
  by (simp add: wfqs_def)

definition relinked :: "int set \<Rightarrow> (int \<Rightarrow> qentry) \<Rightarrow> (int \<Rightarrow> qentry) \<Rightarrow> bool" where
  "relinked A Q Q' \<longleftrightarrow> (\<forall>i. i \<notin> A \<longrightarrow> Q' i = Q i)"

lemma wfqs_update:
  assumes wf: "wfqs Q L" and q: "q \<in> qids"
    and new: "wfq Q' q ys"
    and sub: "set ys \<subseteq> {p} \<union> set (L q)"
    and fresh: "\<And>r. r \<in> qids \<Longrightarrow> r \<noteq> q \<Longrightarrow> p \<notin> set (L r)"
    and p: "p \<in> procs"
    and rel: "relinked ({p, q, q + 1} \<union> set (L q)) Q Q'"
  shows "wfqs Q' (L(q := ys))"
proof -
  have "wfq Q' r (L r)" if r: "r \<in> qids" "r \<noteq> q" for r
  proof -
    have "set (L r) \<inter> set (L q) = {}" using wf q r by (auto simp: wfqs_def)
    moreover have "r \<notin> set (L q)" "r + 1 \<notin> set (L q)" "q \<notin> set (L r)" "q + 1 \<notin> set (L r)"
      using wfqs_procs[OF wf q] wfqs_procs[OF wf r(1)] q r by (force simp: in_qids)+
    moreover have "p \<notin> set (L r)" "r \<noteq> p" "r + 1 \<noteq> p"
      using fresh r p by (auto simp: in_qids)
    ultimately have same: "i = r \<or> i = r + 1 \<or> i \<in> set (L r) \<Longrightarrow> Q' i = Q i" for i
      using qids_apart[OF q r(1)] r rel by (auto simp: relinked_def)
    show ?thesis by (rule wfq_frame[OF wfqs_wfq[OF wf r(1)]]) (auto simp: same)
  qed
  moreover have "set (L r) \<inter> set ys = {}" if "r \<in> qids" "r \<noteq> q" for r
    using that sub fresh wf q unfolding wfqs_def by blast
  ultimately show ?thesis using wf new by (auto simp: wfqs_def)
qed

section \<open>What the operations do\<close>

lemma link_nodes:
  assumes "wfqs (queuetab s) L" "q \<in> qids" "L q = us @ vs"
  shows "inq (last (q # us))" "inq (hd (vs @ [q + 1]))"
    "last (q # us) \<noteq> hd (vs @ [q + 1])"
    "last (q # us) \<in> {q} \<union> set us" "hd (vs @ [q + 1]) \<in> {q + 1} \<union> set vs"
proof -
  note wf = wfqs_wfq[OF assms(1,2), unfolded assms(3)]
  note w = wfqD[OF wf] wfq_out[OF wf]
  show l: "last (q # us) \<in> {q} \<union> set us" by (cases us rule: rev_cases) auto
  show h: "hd (vs @ [q + 1]) \<in> {q + 1} \<union> set vs" by (cases vs) auto
  show "inq (last (q # us))" "inq (hd (vs @ [q + 1]))"
    using l h w procs_inq qids_bounds[OF assms(2)] by auto
  show "last (q # us) \<noteq> hd (vs @ [q + 1])" using l h w by auto
qed

text \<open>Linking process \<open>p\<close> in between \<open>us\<close> and \<open>vs\<close>, as all the insertions do.\<close>

lemma wfqs_link:
  assumes wf: "wfqs Q L" and q: "q \<in> qids" and split: "L q = us @ vs"
    and p: "p \<in> procs" and fresh: "\<And>r. r \<in> qids \<Longrightarrow> p \<notin> set (L r)"
    and n: "\<And>i. qnext (Q' i) = (if i = p then hd (vs @ [q + 1]) else if i = last (q # us) then p else qnext (Q i))"
    and v: "\<And>i. qprev (Q' i) = (if i = p then last (q # us) else if i = hd (vs @ [q + 1]) then p else qprev (Q i))"
    and k: "qkey (Q' (q + 1)) = qkey (Q (q + 1))"
    and rel: "relinked ({p, q, q + 1} \<union> set (L q)) Q Q'"
  shows "wfqs Q' (L(q := us @ p # vs))"
proof (rule wfqs_update[OF wf q _ _ fresh p rel])
  show "wfq Q' q (us @ p # vs)"
    using wfqs_wfq[OF wf q] p fresh[OF q] by (intro wfq_link[OF _ p _ n v k]) (simp_all add: split)
  show "set (us @ p # vs) \<subseteq> {p} \<union> set (L q)" by (auto simp: split)
qed

lemma wfqs_unlink:
  assumes wf: "wfqs Q L" and q: "q \<in> qids" and split: "L q = us @ p # vs"
    and n: "\<And>i. i \<noteq> p \<Longrightarrow> qnext (Q' i) = (if i = last (q # us) then hd (vs @ [q + 1]) else qnext (Q i))"
    and v: "\<And>i. i \<noteq> p \<Longrightarrow> qprev (Q' i) = (if i = hd (vs @ [q + 1]) then last (q # us) else qprev (Q i))"
    and k: "qkey (Q' (q + 1)) = qkey (Q (q + 1))"
    and rel: "relinked ({q, q + 1} \<union> set (L q)) Q Q'"
  shows "wfqs Q' (L(q := us @ vs))"
proof (rule wfqs_update[OF wf q])
  show "wfq Q' q (us @ vs)"
    using wfqs_wfq[OF wf q] by (intro wfq_unlink[OF _ n v k]) (simp_all add: split)
  show "set (us @ vs) \<subseteq> {p} \<union> set (L q)" by (auto simp: split)
  show "p \<in> procs" using wfqs_procs[OF wf q] by (simp add: split)
  show "p \<notin> set (L r)" if "r \<in> qids" "r \<noteq> q" for r
    using wfqs_disjoint[OF wf q that(1), of p] that by (simp add: split)
  show "relinked ({p, q, q + 1} \<union> set (L q)) Q Q'" using rel by (auto simp: relinked_def)
qed

lemma enqueue_spec:
  assumes wf: "wfqs (queuetab s) L" and q: "q \<in> qids"
    and p: "\<not> isbadpid s p" and fresh: "\<And>r. r \<in> qids \<Longrightarrow> p \<notin> set (L r)"
  shows "\<exists>Q'. enqueue p q s = Some (p, s\<lparr>queuetab := Q'\<rparr>) \<and> wfqs Q' (L(q := L q @ [p])) \<and>
    (\<forall>i. qkey (Q' i) = qkey (queuetab s i))"
proof -
  let ?Q = "queuetab s"
  let ?l = "last (q # L q)"
  let ?Q' = "?Q(p := (?Q p)\<lparr>qnext := q + 1, qprev := ?l\<rparr>, ?l := (?Q ?l)\<lparr>qnext := p\<rparr>,
    q + 1 := (?Q (q + 1))\<lparr>qprev := p\<rparr>)"
  have pp: "p \<in> procs" using p by (auto simp: isbadpid_def)
  note nd = link_nodes[OF wf q, of "L q" "[]", simplified]
  have ne: "p \<noteq> ?l" "p \<noteq> q + 1" using nd fresh[OF q] pp q by (auto simp: in_qids)
  have last: "qprev (?Q (q + 1)) = ?l" using wfqD(3)[OF wfqs_wfq[OF wf q]] by (rule seg_last)
  have "enqueue p q s = Some (p, s\<lparr>queuetab := ?Q'\<rparr>)"
    using ne nd qids_bounds[OF q] procs_inq[OF pp] p last
    by (simp add: enqueue_def rdq_def upq_def Let_def fun_upd_twist)
  moreover have "wfqs ?Q' (L(q := L q @ p # []))"
    by (rule wfqs_link[OF wf q _ pp fresh]) (use ne nd in \<open>auto simp: relinked_def\<close>)
  ultimately show ?thesis using ne nd by (intro exI[of _ ?Q']) auto
qed

lemma getitem_spec:
  assumes wf: "wfqs (queuetab s) L" and q: "q \<in> qids" and split: "L q = us @ p # vs"
  shows "\<exists>Q'. getitem p s = Some (p, s\<lparr>queuetab := Q'\<rparr>) \<and> wfqs Q' (L(q := us @ vs)) \<and>
    (\<forall>i. qkey (Q' i) = qkey (queuetab s i))"
proof -
  let ?Q = "queuetab s"
  let ?l = "last (q # us)" and ?h = "hd (vs @ [q + 1])"
  let ?Q' = "?Q(?l := (?Q ?l)\<lparr>qnext := ?h\<rparr>, ?h := (?Q ?h)\<lparr>qprev := ?l\<rparr>)"
  have pp: "p \<in> procs" using wfqs_procs[OF wf q] split by auto
  note w = wfqs_wfq[OF wf q, unfolded split]
  have l: "?l \<in> {q} \<union> set us" by (cases us rule: rev_cases) auto
  have h: "?h \<in> {q + 1} \<union> set vs" by (cases vs) auto
  have nd: "inq ?l" "inq ?h" "?l \<noteq> ?h" "?h \<noteq> ?l" "?l \<noteq> p" "?h \<noteq> p"
    using l h wfqD[OF w] wfq_out[OF w] procs_inq qids_bounds[OF q] by auto
  have pn: "qnext (?Q p) = ?h" "qprev (?Q p) = ?l" using seg_mid[OF wfqD(3)[OF w]] by auto
  have "getitem p s = Some (p, s\<lparr>queuetab := ?Q'\<rparr>)"
    using nd procs_inq[OF pp] pn by (simp add: getitem_def rdq_def upq_def Let_def)
  moreover have "wfqs ?Q' (L(q := us @ vs))"
    using nd l h by (intro wfqs_unlink[OF wf q split]) (auto simp: relinked_def split)
  ultimately show ?thesis using nd by (intro exI[of _ ?Q']) auto
qed

lemma firstid_spec:
  assumes "wfqs (queuetab s) L" "q \<in> qids"
  shows "firstid q s = Some (hd (L q @ [q + 1]))"
  using seg_first[OF wfqD(3)[OF wfqs_wfq[OF assms]]] qids_bounds[OF assms(2)]
  by (simp add: firstid_def rdq_def)

lemma isempty_spec:
  assumes "wfqs (queuetab s) L" "q \<in> qids"
  shows "isempty q s = Some (L q = [])" "nonempty q s = Some (L q \<noteq> [])"
  using wfq_empty_iff[OF wfqs_wfq[OF assms]] wfq_nempty_iff[OF wfqs_wfq[OF assms]] qids_bounds[OF assms(2)]
  by (simp_all add: isempty_def nonempty_def firstid_def rdq_def)

lemma firstkey_spec:
  assumes "wfqs (queuetab s) L" "q \<in> qids"
  shows "firstkey q s = Some (case L q of [] \<Rightarrow> MINKEY | p # _ \<Rightarrow> qkey (queuetab s p))"
proof (cases "L q")
  case Nil
  then show ?thesis
    using firstid_spec[OF assms] wfqD(6)[OF wfqs_wfq[OF assms]] qids_bounds[OF assms(2)]
    by (simp add: firstkey_def rdq_def)
next
  case (Cons p xs)
  then show ?thesis
    using firstid_spec[OF assms] wfqs_procs[OF assms, of p] by (simp add: firstkey_def rdq_def inq_def)
qed

lemma getfirst_empty:
  "wfqs (queuetab s) L \<Longrightarrow> q \<in> qids \<Longrightarrow> L q = [] \<Longrightarrow> getfirst q s = Some (EMPTY, s)"
  by (simp add: getfirst_def isempty_spec)

lemma getfirst_spec:
  assumes wf: "wfqs (queuetab s) L" and q: "q \<in> qids" and split: "L q = p # vs"
  shows "\<exists>Q'. getfirst q s = Some (p, s\<lparr>queuetab := Q'\<rparr>) \<and> wfqs Q' (L(q := vs)) \<and>
    (\<forall>i. qkey (Q' i) = qkey (queuetab s i))"
  using getitem_spec[OF wf q, of "[]" p vs] firstid_spec[OF wf q] isempty_spec[OF wf q] split
    qids_bounds[OF q]
  by (simp add: getfirst_def firstid_def rdq_def)

lemma getlast_spec:
  assumes wf: "wfqs (queuetab s) L" and q: "q \<in> qids" and split: "L q = us @ [p]"
  shows "\<exists>Q'. getlast q s = Some (p, s\<lparr>queuetab := Q'\<rparr>) \<and> wfqs Q' (L(q := us)) \<and>
    (\<forall>i. qkey (Q' i) = qkey (queuetab s i))"
  using getitem_spec[OF wf q, of us p "[]"] seg_last[OF wfqD(3)[OF wfqs_wfq[OF wf q]]]
    isempty_spec[OF wf q] split qids_bounds[OF q]
  by (simp add: getlast_def rdq_def)

lemma dequeue_empty:
  "wfqs (queuetab s) L \<Longrightarrow> q \<in> qids \<Longrightarrow> L q = [] \<Longrightarrow> dequeue q s = Some (EMPTY, s)"
  using qids_bounds[of q] by (simp add: dequeue_def isempty_spec)

text \<open>Entries of processes that are on no queue may hold anything.\<close>

lemma wfqs_free_entry:
  assumes wf: "wfqs Q L" and p: "p \<in> procs" and fresh: "\<And>r. r \<in> qids \<Longrightarrow> p \<notin> set (L r)"
  shows "wfqs (Q(p := e)) L"
proof -
  have "wfq (Q(p := e)) r (L r)" if "r \<in> qids" for r
    using fresh[OF that] p that
    by (intro wfq_frame[OF wfqs_wfq[OF wf that]]) (auto simp: in_qids)
  then show ?thesis using wf by (simp add: wfqs_def)
qed

lemma dequeue_spec:
  assumes wf: "wfqs (queuetab s) L" and q: "q \<in> qids" and split: "L q = p # vs"
  shows "\<exists>Q'. dequeue q s = Some (p, s\<lparr>queuetab := Q'\<rparr>) \<and> wfqs Q' (L(q := vs)) \<and>
    (\<forall>i. qkey (Q' i) = qkey (queuetab s i))"
proof -
  from getfirst_spec[OF assms] obtain Q1 where Q1: "getfirst q s = Some (p, s\<lparr>queuetab := Q1\<rparr>)"
    "wfqs Q1 (L(q := vs))" "\<And>i. qkey (Q1 i) = qkey (queuetab s i)" by auto
  have p: "p \<in> procs" using wfqs_procs[OF wf q] split by simp
  let ?Q' = "Q1(p := (Q1 p)\<lparr>qprev := EMPTY, qnext := EMPTY\<rparr>)"
  have "p \<notin> set ((L(q := vs)) r)" if "r \<in> qids" for r
    using that wfqD(4)[OF wfqs_wfq[OF wf q]] wfqs_disjoint[OF wf q that, of p] split by auto
  then have "wfqs ?Q' (L(q := vs))" by (rule wfqs_free_entry[OF Q1(2) p])
  moreover have "dequeue q s = Some (p, s\<lparr>queuetab := ?Q'\<rparr>)"
    using Q1(1) split isempty_spec[OF wf q] qids_bounds[OF q] procs_inq[OF p]
    by (simp add: dequeue_def upq_def)
  ultimately show ?thesis using Q1(3) by (intro exI[of _ ?Q']) auto
qed

lemma insert_scan_spec:
  assumes "seg (queuetab s) a xs b" "set xs \<subseteq> procs" "inq b" "qkey (queuetab s b) < key"
  shows "insert_scan key (hd (xs @ [b])) s =
    Some (hd (dropWhile (\<lambda>p. key \<le> qkey (queuetab s p)) xs @ [b]))"
  using assms
proof (induction xs arbitrary: a)
  case Nil
  then show ?case by (simp add: insert_scan.simps[of key b] rdq_def)
next
  case (Cons x xs)
  then have "inq x" "qnext (queuetab s x) = hd (xs @ [b])"
    using seg_first[of "queuetab s" x xs b] by (auto intro: procs_inq)
  then show ?case using Cons.IH[of x] Cons.prems by (simp add: insert_scan.simps[of key x] rdq_def)
qed

text \<open>The list after an insertion by descending keys, behind equal keys.\<close>

definition ins_desc :: "(int \<Rightarrow> int) \<Rightarrow> int \<Rightarrow> int \<Rightarrow> int list \<Rightarrow> int list" where
  "ins_desc K key p xs = takeWhile (\<lambda>x. key \<le> K x) xs @ p # dropWhile (\<lambda>x. key \<le> K x) xs"

lemma set_ins_desc [simp]: "set (ins_desc K key p xs) = {p} \<union> set xs"
  using set_append[of "takeWhile (\<lambda>x. key \<le> K x) xs" "dropWhile (\<lambda>x. key \<le> K x) xs"]
  by (simp add: ins_desc_def del: set_append) auto

lemma insert_spec:
  assumes wf: "wfqs (queuetab s) L" and q: "q \<in> qids"
    and p: "\<not> isbadpid s p" and fresh: "\<And>r. r \<in> qids \<Longrightarrow> p \<notin> set (L r)"
    and key: "MINKEY < key"
  shows "\<exists>Q'. insert_q p q key s = Some (OK, s\<lparr>queuetab := Q'\<rparr>) \<and>
    wfqs Q' (L(q := ins_desc (\<lambda>i. qkey (queuetab s i)) key p (L q))) \<and>
    (\<forall>i. qkey (Q' i) = (if i = p then key else qkey (queuetab s i)))"
proof -
  let ?Q = "queuetab s" and ?P = "\<lambda>x. key \<le> qkey (queuetab s x)"
  define us where "us = takeWhile ?P (L q)"
  define vs where "vs = dropWhile ?P (L q)"
  have split: "L q = us @ vs" by (simp add: us_def vs_def)
  define l where "l = last (q # us)"
  define h where "h = hd (vs @ [q + 1])"
  let ?Q' = "?Q(p := (?Q p)\<lparr>qnext := h, qprev := l, qkey := key\<rparr>, l := (?Q l)\<lparr>qnext := p\<rparr>,
    h := (?Q h)\<lparr>qprev := p\<rparr>)"
  have pp: "p \<in> procs" using p by (auto simp: isbadpid_def)
  note w = wfqD[OF wfqs_wfq[OF wf q]]
  note nd = link_nodes[OF wf q split, folded l_def h_def]
  have ne: "p \<noteq> l" "p \<noteq> h" using nd(4,5) fresh[OF q] pp q split by (auto simp: in_qids)
  have scan: "insert_scan key (hd (L q @ [q + 1])) s = Some h"
    using insert_scan_spec[OF w(3,5), of key] w(6) key qids_bounds[OF q] by (simp add: vs_def h_def)
  have prev: "qprev (?Q h) = l"
  proof (cases vs)
    case Nil
    then show ?thesis using seg_last[OF w(3)] split by (simp add: l_def h_def)
  next
    case (Cons v vs')
    then show ?thesis using w(3) seg_last[of ?Q q us v] split by (simp add: l_def h_def)
  qed
  have "insert_q p q key s = Some (OK, s\<lparr>queuetab := ?Q'\<rparr>)"
    using scan prev ne nd(1-3) qids_bounds[OF q] procs_inq[OF pp] p firstid_spec[OF wf q]
    by (simp add: insert_q_def rdq_def upq_def Let_def)
  moreover have "wfqs ?Q' (L(q := us @ p # vs))"
  proof (rule wfqs_link[OF wf q split pp fresh, folded l_def h_def])
    show "qkey (?Q' (q + 1)) = qkey (?Q (q + 1))" using pp q by (auto simp: in_qids)
    show "relinked ({p, q, q + 1} \<union> set (L q)) ?Q ?Q'"
      using nd(4,5) split by (auto simp: relinked_def)
  qed (use ne nd(3) in auto)
  moreover have "\<forall>i. qkey (?Q' i) = (if i = p then key else qkey (?Q i))"
    using ne by auto
  ultimately show ?thesis
    unfolding ins_desc_def us_def[symmetric] vs_def[symmetric] by blast
qed

text \<open>
  The position and the relative key that \<^verbatim>\<open>insertd\<close> computes: keys that do not exceed the
  remaining delay are passed over and subtracted from it.
\<close>

fun dsplit :: "(int \<Rightarrow> int) \<Rightarrow> int \<Rightarrow> int list \<Rightarrow> int list \<times> int list \<times> int" where
  "dsplit K key [] = ([], [], key)"
| "dsplit K key (x # xs) =
     (if K x \<le> key then (case dsplit K (i32 (key - K x)) xs of (us, vs, k) \<Rightarrow> (x # us, vs, k))
      else ([], x # xs, key))"

lemma dsplit_append: "dsplit K key xs = (us, vs, k) \<Longrightarrow> xs = us @ vs"
  by (induction xs arbitrary: key us) (auto split: if_splits prod.splits)

lemma insertd_scan_spec:
  assumes "seg (queuetab s) a xs (q + 1)" "set xs \<subseteq> procs" "q \<ge> 100"
    and "dsplit (\<lambda>i. qkey (queuetab s i)) key xs = (us, vs, k)"
  shows "insertd_scan q a (hd (xs @ [q + 1])) key s = Some (last (a # us), hd (vs @ [q + 1]), k)"
  using assms
proof (induction xs arbitrary: a key us)
  case Nil
  then show ?case by (simp add: insertd_scan.simps[of q a])
next
  case (Cons x xs)
  have x: "inq x" "x \<noteq> q + 1" "qnext (queuetab s x) = hd (xs @ [q + 1])"
    using Cons.prems(1-3) seg_first[of "queuetab s" x xs "q + 1"] by (auto intro: procs_inq)
  show ?case
  proof (cases "qkey (queuetab s x) \<le> key")
    case True
    then obtain us' where us': "us = x # us'"
      "dsplit (\<lambda>i. qkey (queuetab s i)) (i32 (key - qkey (queuetab s x))) xs = (us', vs, k)"
      using Cons.prems(4) by (auto split: prod.splits)
    then show ?thesis
      using Cons.IH[of x "i32 (key - qkey (queuetab s x))" us'] Cons.prems(1-3) x True
      by (simp add: insertd_scan.simps[of q a x] rdq_def)
  next
    case False
    then have "us = []" "vs = x # xs" "k = key" using Cons.prems(4) by auto
    then show ?thesis using x False
      by (simp add: insertd_scan.simps[of q a x] rdq_def)
  qed
qed

lemma insertd_spec:
  assumes wf: "wfqs (queuetab s) L" and q: "q \<in> qids"
    and p: "\<not> isbadpid s p" and fresh: "\<And>r. r \<in> qids \<Longrightarrow> p \<notin> set (L r)"
    and ds: "dsplit (\<lambda>i. qkey (queuetab s i)) key (L q) = (us, vs, k)"
  shows "\<exists>Q'. insertd p q key s = Some (OK, s\<lparr>queuetab := Q'\<rparr>) \<and>
    wfqs Q' (L(q := us @ p # vs)) \<and>
    (\<forall>i. qkey (Q' i) = (if i = p then k else if vs \<noteq> [] \<and> i = hd vs then i32 (qkey (queuetab s i) - k)
       else qkey (queuetab s i)))"
proof -
  let ?Q = "queuetab s"
  note split = dsplit_append[OF ds]
  define l where "l = last (q # us)"
  define h where "h = hd (vs @ [q + 1])"
  let ?Q1 = "?Q(p := (?Q p)\<lparr>qnext := h, qprev := l, qkey := k\<rparr>, l := (?Q l)\<lparr>qnext := p\<rparr>,
    h := (?Q h)\<lparr>qprev := p\<rparr>)"
  let ?Q' = "if h = q + 1 then ?Q1 else ?Q1(h := qkey_update (\<lambda>c. i32 (c - k)) (?Q1 h))"
  have pp: "p \<in> procs" using p by (auto simp: isbadpid_def)
  note w = wfqD[OF wfqs_wfq[OF wf q]]
  note nd = link_nodes[OF wf q split, folded l_def h_def]
  have ne: "p \<noteq> l" "p \<noteq> h" using nd(4,5) fresh[OF q] pp q split by (auto simp: in_qids)
  have scan: "insertd_scan q q (hd (L q @ [q + 1])) key s = Some (l, h, k)"
    using w(1) insertd_scan_spec[OF w(3,5) _ ds] by (simp add: l_def h_def)
  have "insertd p q key s = Some (OK, s\<lparr>queuetab := ?Q'\<rparr>)"
    using scan ne nd(1-3) qids_bounds[OF q] procs_inq[OF pp] p firstid_spec[OF wf q]
    by (simp add: insertd_def rdq_def upq_def Let_def)
  moreover have "wfqs ?Q' (L(q := us @ p # vs))"
  proof (rule wfqs_link[OF wf q split pp fresh, folded l_def h_def])
    show "qkey (?Q' (q + 1)) = qkey (?Q (q + 1))" using pp q by (auto simp: in_qids)
    show "relinked ({p, q, q + 1} \<union> set (L q)) ?Q ?Q'"
      using nd(4,5) split by (auto simp: relinked_def)
  qed (use ne nd(3) in auto)
  moreover have "h = q + 1 \<longleftrightarrow> vs = []" "vs \<noteq> [] \<Longrightarrow> h = hd vs"
    using w(1,5) split by (cases vs; force simp: h_def)+
  then have "\<forall>i. qkey (?Q' i) = (if i = p then k else if vs \<noteq> [] \<and> i = hd vs then i32 (qkey (?Q i) - k)
       else qkey (?Q i))"
    using ne nd(3) by auto
  ultimately show ?thesis by blast
qed

lemma newqueue_spec:
  assumes "100 \<le> nextqid s" "nextqid s + 1 < NQENT"
  shows "\<exists>Q'. newqueue s = Some (nextqid s, s\<lparr>queuetab := Q', nextqid := nextqid s + 2\<rparr>) \<and>
    wfq Q' (nextqid s) [] \<and> relinked {nextqid s, nextqid s + 1} (queuetab s) Q'"
proof -
  let ?q = "nextqid s"
  let ?Q' = "(queuetab s)(?q := (queuetab s ?q)\<lparr>qnext := ?q + 1, qprev := EMPTY, qkey := MAXKEY\<rparr>,
    ?q + 1 := (queuetab s (?q + 1))\<lparr>qnext := EMPTY, qprev := ?q, qkey := MINKEY\<rparr>)"
  have "newqueue s = Some (?q, s\<lparr>queuetab := ?Q', nextqid := ?q + 2\<rparr>)"
    using assms by (simp add: newqueue_def Let_def upq_def inq_def)
  then show ?thesis using assms
    by (intro exI[of _ ?Q']) (auto simp: wfq_def relinked_def)
qed

end
