(* ===== verification/Sched.thy ===== *)
theory Sched
  imports Queues
begin

text \<open>
  The scheduler and the operations on single processes: \<^verbatim>\<open>system/resched.c\<close>, \<^verbatim>\<open>ready.c\<close>, \<^verbatim>\<open>yield.c\<close>,
  \<^verbatim>\<open>suspend.c\<close>, \<^verbatim>\<open>resume.c\<close>, \<^verbatim>\<open>chprio.c\<close>, \<^verbatim>\<open>getprio.c\<close>, \<^verbatim>\<open>getpid.c\<close>. Interrupts are disabled inside
  every one of them, so an operation runs without interference except where \<^verbatim>\<open>resched\<close> calls
  \<^verbatim>\<open>ctxsw\<close>; there it is a \<open>Switch\<close>.
\<close>

definition DEFER_START :: int where "DEFER_START = 1"
definition DEFER_STOP :: int where "DEFER_STOP = 2"

text \<open>
  The second half of \<^verbatim>\<open>resched\<close>: force a switch to the first process of the ready list. A value
  outside the process table (the list was empty) would index \<^verbatim>\<open>proctab\<close> out of bounds.
\<close>

definition resched_force :: "kstate \<Rightarrow> (kstate, unit) step" where
  "resched_force s =
     bindk (liftk (dequeue (readylist s) s)) (\<lambda>new s.
       if new < 0 \<or> new \<ge> NPROC then Fault
       else let s = (set_prstate new PR_CURR (s\<lparr>currpid := new\<rparr>))\<lparr>preempt := QUANTUM\<rparr>
            in Switch s (\<lambda>s'. Return () s'))"

definition resched :: "kstate \<Rightarrow> (kstate, unit) step" where
  "resched s =
    (if ndefers s > 0 then Return () (s\<lparr>attempt := True\<rparr>)
     else let old = currpid s in
       if prstate (proctab s old) = PR_CURR then
         (case firstkey (readylist s) s of
            None \<Rightarrow> Fault
          | Some k \<Rightarrow>
              if prprio (proctab s old) > k then Return () s
              else let s = set_prstate old PR_READY s in
                bindk (liftk (insert_q old (readylist s) (prprio (proctab s old)) s))
                  (\<lambda>_ s. resched_force s))
       else resched_force s)"

definition resched_cntl :: "int \<Rightarrow> kstate \<Rightarrow> (kstate, int) step" where
  "resched_cntl defer s =
    (if defer = DEFER_START then
       let s' = s\<lparr>ndefers := i32 (ndefers s + 1)\<rparr> in
       Return OK (if ndefers s = 0 then s'\<lparr>attempt := False\<rparr> else s')
     else if defer = DEFER_STOP then
       (if ndefers s \<le> 0 then Return SYSERR s
        else let s = s\<lparr>ndefers := ndefers s - 1\<rparr> in
          if ndefers s = 0 \<and> attempt s then bindk (resched s) (\<lambda>_ s. Return OK s)
          else Return OK s)
     else Return SYSERR s)"

definition ready :: "int \<Rightarrow> kstate \<Rightarrow> (kstate, int) step" where
  "ready pid s =
    (if isbadpid s pid then Return SYSERR s
     else let s = set_prstate pid PR_READY s in
       bindk (liftk (insert_q pid (readylist s) (prprio (proctab s pid)) s)) (\<lambda>_ s.
       bindk (resched s) (\<lambda>_ s.
       Return OK s)))"

definition yield :: "kstate \<Rightarrow> (kstate, int) step" where
  "yield s = bindk (resched s) (\<lambda>_ s. Return OK s)"

definition suspend :: "int \<Rightarrow> kstate \<Rightarrow> (kstate, int) step" where
  "suspend pid s =
    (if isbadpid s pid \<or> pid = NULLPROC then Return SYSERR s
     else if prstate (proctab s pid) \<noteq> PR_CURR \<and> prstate (proctab s pid) \<noteq> PR_READY
     then Return SYSERR s
     else bindk
       (if prstate (proctab s pid) = PR_READY
        then bindk (liftk (getitem pid s)) (\<lambda>_ s. Return () (set_prstate pid PR_SUSP s))
        else resched (set_prstate pid PR_SUSP s))
       (\<lambda>_ s. Return (prprio (proctab s pid)) s))"

definition resume :: "int \<Rightarrow> kstate \<Rightarrow> (kstate, int) step" where
  "resume pid s =
    (if isbadpid s pid then Return (i16 SYSERR) s
     else if prstate (proctab s pid) \<noteq> PR_SUSP then Return (i16 SYSERR) s
     else let prio = prprio (proctab s pid) in
       bindk (ready pid s) (\<lambda>_ s. Return prio s))"

definition chprio :: "int \<Rightarrow> int \<Rightarrow> kstate \<Rightarrow> (kstate, int) step" where
  "chprio pid newprio s =
    (if isbadpid s pid then Return (i16 SYSERR) s
     else let oldprio = prprio (proctab s pid) in
       Return oldprio (upp pid (prprio_update (\<lambda>_. newprio)) s))"

definition getprio :: "int \<Rightarrow> kstate \<Rightarrow> (kstate, int) step" where
  "getprio pid s =
    (if isbadpid s pid then Return SYSERR s
     else Return (i32 (u32 (prprio (proctab s pid)))) s)"

definition getpid :: "kstate \<Rightarrow> (kstate, int) step" where
  "getpid s = Return (currpid s) s"

end
