(* ===== verification/Memory.thy ===== *)
theory Memory
  imports Kernel_State
begin

text \<open>
  The heap: \<^verbatim>\<open>system/getmem.c\<close>, \<^verbatim>\<open>freemem.c\<close>, \<^verbatim>\<open>getstk.c\<close>, \<^verbatim>\<open>meminit.c\<close> and the macros \<^verbatim>\<open>roundmb\<close>,
  \<^verbatim>\<open>truncmb\<close>, \<^verbatim>\<open>freestk\<close> of \<^verbatim>\<open>include/memory.h\<close>. Free blocks form a singly linked list that lives in
  the free storage itself, in address order. The first section is the code on the word-addressed
  memory; then the free list as a list of (address, length) pairs, the allocators on such
  lists, and the proof that the code implements them.
\<close>

section \<open>The code\<close>

definition NULL :: int where [simp]: "NULL = 0"

definition roundmb :: "int \<Rightarrow> int" where
  "roundmb x = (let y = u32 (7 + x) in y - y mod 8)"

definition truncmb :: "int \<Rightarrow> int" where
  "truncmb x = (let y = u32 x in y - y mod 8)"

definition mnext :: "heap \<Rightarrow> int \<Rightarrow> int" where "mnext h a = mem h a"
definition mlength :: "heap \<Rightarrow> int \<Rightarrow> int" where "mlength h a = mem h (a + 4)"

definition set_mnext :: "int \<Rightarrow> int \<Rightarrow> heap \<Rightarrow> heap" where
  "set_mnext a v h = h\<lparr>mem := (mem h)(a := v)\<rparr>"

definition set_mlength :: "int \<Rightarrow> int \<Rightarrow> heap \<Rightarrow> heap" where
  "set_mlength a v h = h\<lparr>mem := (mem h)(a + 4 := v)\<rparr>"

definition heap_meminit :: "int \<Rightarrow> int \<Rightarrow> heap \<Rightarrow> heap" where
  "heap_meminit end_addr MAXADDR h =
    (let h = h\<lparr>minheap := end_addr, maxheap := MAXADDR\<rparr>;
         h = set_mnext (memlist_at h) (minheap h) h;
         memptr = mnext h (memlist_at h);
         h = set_mnext memptr NULL h;
         h = set_mlength memptr (u32 (maxheap h - minheap h)) h
     in set_mlength (memlist_at h) (mlength h memptr) h)"

partial_function (option) getmem_loop :: "int \<Rightarrow> int \<Rightarrow> int \<Rightarrow> heap \<Rightarrow> (int \<times> heap) option" where
  "getmem_loop prev cur nbytes h =
    (if cur = NULL then Some (u32 SYSERR, h)
     else if mlength h cur = nbytes then
       (let h = set_mnext prev (mnext h cur) h;
            h = set_mlength (memlist_at h) (u32 (mlength h (memlist_at h) - nbytes)) h
        in Some (cur, h))
     else if mlength h cur > nbytes then
       (let leftover = u32 (cur + nbytes);
            h = set_mnext prev leftover h;
            h = set_mnext leftover (mnext h cur) h;
            h = set_mlength leftover (u32 (mlength h cur - nbytes)) h;
            h = set_mlength (memlist_at h) (u32 (mlength h (memlist_at h) - nbytes)) h
        in Some (cur, h))
     else getmem_loop cur (mnext h cur) nbytes h)"

definition heap_getmem :: "int \<Rightarrow> heap \<Rightarrow> (int \<times> heap) option" where
  "heap_getmem nbytes h =
    (if nbytes = 0 then Some (u32 SYSERR, h)
     else getmem_loop (memlist_at h) (mnext h (memlist_at h)) (roundmb nbytes) h)"

partial_function (option) getstk_scan ::
    "int \<Rightarrow> int \<Rightarrow> int \<Rightarrow> int \<Rightarrow> int \<Rightarrow> heap \<Rightarrow> (int \<times> int) option" where
  "getstk_scan prev cur fits fitsprev nbytes h =
    (if cur = NULL then Some (fits, fitsprev)
     else if mlength h cur \<ge> nbytes then getstk_scan cur (mnext h cur) cur prev nbytes h
     else getstk_scan cur (mnext h cur) fits fitsprev nbytes h)"

definition heap_getstk :: "int \<Rightarrow> heap \<Rightarrow> (int \<times> heap) option" where
  "heap_getstk nbytes h =
    (if nbytes = 0 then Some (u32 SYSERR, h)
     else let nbytes = roundmb nbytes in
       case getstk_scan (memlist_at h) (mnext h (memlist_at h)) NULL NULL nbytes h of
         None \<Rightarrow> None
       | Some (fits, fitsprev) \<Rightarrow>
           if fits = NULL then Some (u32 SYSERR, h)
           else let (fits, h) =
                  (if nbytes = mlength h fits then (fits, set_mnext fitsprev (mnext h fits) h)
                   else let h = set_mlength fits (u32 (mlength h fits - nbytes)) h
                        in (u32 (fits + mlength h fits), h));
                  h = set_mlength (memlist_at h) (u32 (mlength h (memlist_at h) - nbytes)) h
                in Some (u32 (fits + nbytes - 4), h))"

partial_function (option) freemem_scan :: "int \<Rightarrow> int \<Rightarrow> int \<Rightarrow> heap \<Rightarrow> (int \<times> int) option" where
  "freemem_scan prev nxt block h =
    (if nxt \<noteq> NULL \<and> nxt < block then freemem_scan nxt (mnext h nxt) block h
     else Some (prev, nxt))"

text \<open>
  The stores of \<^verbatim>\<open>freemem\<close> once the place of the block (between \<open>prev\<close> and \<open>nxt\<close>) and the end
  \<open>ptop\<close> of the previous block are known.
\<close>

definition freemem_join :: "int \<Rightarrow> int \<Rightarrow> heap \<Rightarrow> heap" where
  "freemem_join block nxt h =
    (if u32 (block + mlength h block) = nxt then
       let h = set_mlength block (u32 (mlength h block + mlength h nxt)) h
       in set_mnext block (mnext h nxt) h
     else h)"

definition freemem_link :: "int \<Rightarrow> int \<Rightarrow> int \<Rightarrow> int \<Rightarrow> int \<Rightarrow> heap \<Rightarrow> heap" where
  "freemem_link prev nxt ptop block nbytes h =
    (let h = set_mlength (memlist_at h) (u32 (mlength h (memlist_at h) + nbytes)) h in
     if ptop = block then freemem_join prev nxt (set_mlength prev (u32 (mlength h prev + nbytes)) h)
     else freemem_join block nxt (set_mnext prev block (set_mlength block nbytes (set_mnext block nxt h))))"

definition heap_freemem :: "int \<Rightarrow> int \<Rightarrow> heap \<Rightarrow> (int \<times> heap) option" where
  "heap_freemem blkaddr nbytes h =
    (if nbytes = 0 \<or> blkaddr < minheap h \<or> blkaddr > maxheap h then Some (SYSERR, h)
     else let nbytes = roundmb nbytes; block = blkaddr in
       case freemem_scan (memlist_at h) (mnext h (memlist_at h)) block h of
         None \<Rightarrow> None
       | Some (prev, nxt) \<Rightarrow>
          let ptop = (if prev = memlist_at h then NULL else u32 (prev + mlength h prev)) in
          if (prev \<noteq> memlist_at h \<and> block < ptop) \<or> (nxt \<noteq> NULL \<and> u32 (block + nbytes) > nxt)
          then Some (SYSERR, h)
          else Some (OK, freemem_link prev nxt ptop block nbytes h))"

definition heap_freestk :: "int \<Rightarrow> int \<Rightarrow> heap \<Rightarrow> (int \<times> heap) option" where
  "heap_freestk p len h = heap_freemem (u32 (p - roundmb len + 4)) (roundmb len) h"

section \<open>Free lists\<close>

type_synonym flist = "(int \<times> int) list"

text \<open>
  \<open>chain h p xs\<close>: the links starting in the \<^verbatim>\<open>mnext\<close> field at \<open>p\<close> lead through the blocks \<open>xs\<close> to
  \<^verbatim>\<open>NULL\<close>. \<open>apart lo xs hi\<close>: the blocks are aligned, not empty, in address order between \<open>lo\<close> and
  \<open>hi\<close>, and between two of them there is a gap.
\<close>

fun chain :: "heap \<Rightarrow> int \<Rightarrow> flist \<Rightarrow> bool" where
  "chain h p [] \<longleftrightarrow> mem h p = 0"
| "chain h p ((a, l) # xs) \<longleftrightarrow> mem h p = a \<and> mem h (a + 4) = l \<and> chain h a xs"

fun apart :: "int \<Rightarrow> flist \<Rightarrow> int \<Rightarrow> bool" where
  "apart lo [] hi \<longleftrightarrow> lo \<le> hi + 8"
| "apart lo ((a, l) # xs) hi \<longleftrightarrow> lo \<le> a \<and> 0 < l \<and> a mod 8 = 0 \<and> l mod 8 = 0 \<and> apart (a + l + 8) xs hi"

definition total :: "flist \<Rightarrow> int" where
  "total xs = sum_list (map snd xs)"

definition frame_ok :: "heap \<Rightarrow> bool" where
  "frame_ok h \<longleftrightarrow> 0 < memlist_at h \<and> memlist_at h mod 4 = 0 \<and> memlist_at h + 8 \<le> minheap h \<and>
     minheap h \<le> maxheap h \<and> maxheap h < 4294967280 \<and> minheap h mod 8 = 0"

definition heap_rep :: "heap \<Rightarrow> flist \<Rightarrow> bool" where
  "heap_rep h xs \<longleftrightarrow> frame_ok h \<and> chain h (memlist_at h) xs \<and> apart (minheap h) xs (maxheap h) \<and>
     mem h (memlist_at h + 4) = total xs"

definition heap_ok :: "heap \<Rightarrow> bool" where
  "heap_ok h \<longleftrightarrow> (\<exists>xs. heap_rep h xs)"

text \<open>The bytes that are free.\<close>

definition bytes :: "flist \<Rightarrow> int set" where
  "bytes xs = (\<Union>(a, l)\<in>set xs. {a..<a + l})"

lemma bytes_simps [simp]: "bytes [] = {}" "bytes ((a, l) # xs) = {a..<a + l} \<union> bytes xs"
  "bytes (xs @ ys) = bytes xs \<union> bytes ys"
  by (auto simp: bytes_def)

section \<open>The allocators on lists\<close>

text \<open>First fit from the bottom of a block, last fit from the top of a block, and giving back.\<close>

fun first_fit :: "int \<Rightarrow> flist \<Rightarrow> (int \<times> flist) option" where
  "first_fit n [] = None"
| "first_fit n ((a, l) # xs) =
    (if l = n then Some (a, xs)
     else if l > n then Some (a, (a + n, l - n) # xs)
     else map_option (\<lambda>(b, ys). (b, (a, l) # ys)) (first_fit n xs))"

fun last_fit :: "int \<Rightarrow> flist \<Rightarrow> (int \<times> flist) option" where
  "last_fit n [] = None"
| "last_fit n ((a, l) # xs) =
    (case last_fit n xs of
       Some (b, ys) \<Rightarrow> Some (b, (a, l) # ys)
     | None \<Rightarrow> if l = n then Some (a, xs) else if l > n then Some (a + l - n, (a, l - n) # xs) else None)"

definition join_next :: "int \<Rightarrow> int \<Rightarrow> flist \<Rightarrow> flist" where
  "join_next a l xs = (case xs of
     (b, m) # ys \<Rightarrow> if a + l = b then (a, l + m) # ys else (a, l) # xs
   | [] \<Rightarrow> [(a, l)])"

definition below :: "int \<Rightarrow> flist \<Rightarrow> flist" where
  "below b = takeWhile (\<lambda>(a, _). a < b)"

definition above :: "int \<Rightarrow> flist \<Rightarrow> flist" where
  "above b = dropWhile (\<lambda>(a, _). a < b)"

definition top_of :: "flist \<Rightarrow> int" where
  "top_of us = (if us = [] then 0 else fst (last us) + snd (last us))"

definition give_back :: "int \<Rightarrow> int \<Rightarrow> flist \<Rightarrow> flist option" where
  "give_back b n xs =
    (let us = below b xs; vs = above b xs in
     if (us \<noteq> [] \<and> b < top_of us) \<or> (vs \<noteq> [] \<and> b + n > fst (hd vs)) then None
     else if us \<noteq> [] \<and> b = top_of us
     then Some (butlast us @ join_next (fst (last us)) (snd (last us) + n) vs)
     else Some (us @ join_next b n vs))"

section \<open>Walking the list\<close>

lemma mem_simps [simp]:
  "mnext (set_mnext a v h) b = (if b = a then v else mnext h b)"
  "mlength (set_mlength a v h) b = (if b = a then v else mlength h b)"
  "memlist_at (set_mnext a v h) = memlist_at h" "memlist_at (set_mlength a v h) = memlist_at h"
  "minheap (set_mnext a v h) = minheap h" "minheap (set_mlength a v h) = minheap h"
  "maxheap (set_mnext a v h) = maxheap h" "maxheap (set_mlength a v h) = maxheap h"
  "mem (set_mnext a v h) = (mem h)(a := v)" "mem (set_mlength a v h) = (mem h)(a + 4 := v)"
  by (simp_all add: mnext_def mlength_def set_mnext_def set_mlength_def)

lemma mlength_set_mnext: "mlength (set_mnext a v h) b = (if b + 4 = a then v else mlength h b)"
  by (simp add: mlength_def)

lemma mnext_set_mlength: "mnext (set_mlength a v h) b = (if b = a + 4 then v else mnext h b)"
  by (simp add: mnext_def)

lemma frame_ok_cong:
  "memlist_at h' = memlist_at h \<Longrightarrow> minheap h' = minheap h \<Longrightarrow> maxheap h' = maxheap h \<Longrightarrow> frame_ok h' = frame_ok h"
  by (simp add: frame_ok_def)

text \<open>A part of the list: the links from \<open>p\<close> through \<open>us\<close>, and the addresses they are read from.\<close>

fun part :: "heap \<Rightarrow> int \<Rightarrow> flist \<Rightarrow> bool" where
  "part h p [] \<longleftrightarrow> True"
| "part h p ((a, l) # xs) \<longleftrightarrow> mem h p = a \<and> mem h (a + 4) = l \<and> part h a xs"

fun rd :: "int \<Rightarrow> flist \<Rightarrow> int set" where
  "rd p [] = {}"
| "rd p ((a, l) # xs) = {p, a + 4} \<union> rd a xs"

definition lastp :: "int \<Rightarrow> flist \<Rightarrow> int" where
  "lastp p us = last (p # map fst us)"

lemma lastp_simps [simp]: "lastp p [] = p" "lastp p ((a, l) # us) = lastp a us"
  "lastp p (us @ [(a, l)]) = a"
  by (simp_all add: lastp_def)

lemma chain_append: "chain h p (us @ vs) \<longleftrightarrow> part h p us \<and> chain h (lastp p us) vs"
  by (induction us arbitrary: p) auto

lemma part_append: "part h p (us @ vs) \<longleftrightarrow> part h p us \<and> part h (lastp p us) vs"
  by (induction us arbitrary: p) auto

lemma part_cong: "(\<And>w. w \<in> rd p us \<Longrightarrow> mem h' w = mem h w) \<Longrightarrow> part h' p us = part h p us"
  by (induction us arbitrary: p) auto

lemma chain_cong:
  "(\<And>w. w \<in> rd p us \<or> w = lastp p us \<Longrightarrow> mem h' w = mem h w) \<Longrightarrow> chain h' p us = chain h p us"
  by (induction us arbitrary: p) auto

lemma apart_mono: "apart lo xs hi \<Longrightarrow> lo' \<le> lo \<Longrightarrow> apart lo' xs hi"
  by (cases xs) auto

lemma apart_append:
  "apart lo (us @ (a, l) # vs) hi \<Longrightarrow>
    lo \<le> a \<and> 0 < l \<and> a mod 8 = 0 \<and> l mod 8 = 0 \<and> apart (a + l + 8) vs hi \<and> a + l \<le> hi"
proof (induction us arbitrary: lo)
  case Nil
  have "lo' \<le> hi + 8" if "apart lo' vs hi" for lo' using that
    by (induction vs arbitrary: lo') (auto, fastforce)
  then show ?case using Nil by fastforce
next
  case (Cons x us)
  then show ?case by (cases x) fastforce
qed

lemma apart_le: "apart lo xs hi \<Longrightarrow> lo \<le> hi + 8"
  by (induction xs arbitrary: lo) (auto, fastforce)

lemma apart_prefix: "apart lo (us @ vs) hi \<Longrightarrow> apart lo us hi"
proof (induction us arbitrary: lo)
  case (Cons x us)
  then show ?case by (cases x) auto
qed (simp add: apart_le)

lemma rd_bounds:
  assumes "apart lo (us @ vs) hi" "p + 8 \<le> lo" "w \<in> rd p us"
  shows "(w = p \<or> lo \<le> w) \<and> (w < lastp p us \<or> w = lastp p us + 4)"
  using assms
proof (induction us arbitrary: p lo)
  case (Cons x us)
  obtain a l where x: "x = (a, l)" by (cases x)
  have ap: "apart (a + l + 8) (us @ vs) hi" and al: "lo \<le> a" "0 < l" using Cons.prems(1) x by auto
  have le: "a \<le> lastp a us"
  proof (cases us rule: rev_cases)
    case (snoc us' y)
    then show ?thesis using apart_append[of "a + l + 8" us' "fst y" "snd y" vs hi] ap al
      by (cases y) (simp add: lastp_def)
  qed simp
  have next_: "a + 4 < lastp a us \<or> us = []"
  proof (cases us rule: rev_cases)
    case (snoc us' y)
    then show ?thesis using apart_append[of "a + l + 8" us' "fst y" "snd y" vs hi] ap al
      by (cases y) (simp add: lastp_def)
  qed simp
  show ?case
  proof (cases "w \<in> rd a us")
    case True
    then show ?thesis using Cons.IH[OF ap _ True] al Cons.prems(2) x by auto
  next
    case False
    then show ?thesis using Cons.prems(2,3) x al le next_ by auto
  qed
qed simp

lemma lastp_bounds:
  assumes "apart lo (us @ vs) hi" "p + 8 \<le> lo"
  shows "lastp p us = p \<and> us = [] \<or> lo \<le> lastp p us \<and> us \<noteq> []"
proof (cases us rule: rev_cases)
  case (snoc us' y)
  then show ?thesis using assms(1) apart_append[of lo us' "fst y" "snd y" vs hi] by (cases y) simp
qed simp

text \<open>The place in the list where a block lies: everything read before it stays readable.\<close>

lemma part_frame:
  assumes "apart lo (us @ vs) hi" "p + 8 \<le> lo" "part h p us"
    and "\<And>w. w = p \<or> lo \<le> w \<Longrightarrow> w < lastp p us \<or> w = lastp p us + 4 \<and> us \<noteq> [] \<Longrightarrow> mem h' w = mem h w"
  shows "part h' p us"
proof -
  have "mem h' w = mem h w" if "w \<in> rd p us" for w
    using rd_bounds[OF assms(1,2) that] that by (intro assms(4)) (cases us; auto)+
  then show ?thesis using assms(3) part_cong[of p us h' h] by blast
qed

lemma heap_rep_total: "apart lo xs hi \<Longrightarrow> lo \<le> hi \<Longrightarrow> 0 \<le> total xs \<and> total xs \<le> hi - lo"
proof (induction xs arbitrary: lo)
  case (Cons x xs)
  obtain a l where x: "x = (a, l)" by (cases x)
  show ?case
  proof (cases "a + l + 8 \<le> hi")
    case True
    then show ?thesis using Cons x by (fastforce simp: total_def)
  next
    case False
    have "xs = []"
    proof (cases xs)
      case (Cons y ys)
      then show ?thesis using Cons.prems x False apart_append[of lo "[x]" "fst y" "snd y" ys hi] by (cases y) auto
    qed
    then show ?thesis using Cons.prems x by (auto simp: total_def)
  qed
qed (simp add: total_def)

lemma total_simps [simp]: "total [] = 0" "total ((a, l) # xs) = l + total xs"
  "total (xs @ ys) = total xs + total ys"
  by (simp_all add: total_def)

lemma roundmb_nat:
  assumes "0 \<le> n" "n < 4294967288"
  shows "roundmb n mod 8 = 0" "n \<le> roundmb n" "roundmb n < n + 8" "roundmb n < 4294967296"
proof -
  have "u32 (7 + n) = 7 + n" using assms by simp
  then show "roundmb n mod 8 = 0" "n \<le> roundmb n" "roundmb n < n + 8" "roundmb n < 4294967296"
    using assms pos_mod_bound[of 8 "7 + n"] pos_mod_sign[of 8 "7 + n"]
    by (simp_all add: roundmb_def Let_def minus_mod_eq_mult_div)
qed

lemma roundmb_range: "0 \<le> roundmb n" "roundmb n < 4294967296" "roundmb n mod 8 = 0"
  using u32_range[of "7 + n"] pos_mod_bound[of 8 "u32 (7 + n)"] pos_mod_sign[of 8 "u32 (7 + n)"]
    mod_mult_div_eq[of "u32 (7 + n)" 8] 
  by (simp_all add: roundmb_def Let_def minus_mod_eq_mult_div)

lemma roundmb_idem [simp]: "0 \<le> n \<Longrightarrow> n < 4294967288 \<Longrightarrow> n mod 8 = 0 \<Longrightarrow> roundmb n = n"
  by (simp add: roundmb_def Let_def) presburger

section \<open>Splitting and rebuilding\<close>

fun pre :: "int \<Rightarrow> flist \<Rightarrow> bool" where
  "pre lo [] \<longleftrightarrow> True"
| "pre lo ((a, l) # xs) \<longleftrightarrow> lo \<le> a \<and> 0 < l \<and> a mod 8 = 0 \<and> l mod 8 = 0 \<and> pre (a + l + 8) xs"

fun ends :: "int \<Rightarrow> flist \<Rightarrow> int" where
  "ends lo [] = lo"
| "ends lo ((a, l) # xs) = ends (a + l + 8) xs"

lemma apart_split: "apart lo (us @ vs) hi \<longleftrightarrow> pre lo us \<and> apart (ends lo us) vs hi"
  by (induction us arbitrary: lo) auto

lemma pre_append: "pre lo (us @ vs) \<longleftrightarrow> pre lo us \<and> pre (ends lo us) vs"
  by (induction us arbitrary: lo) auto

lemma ends_snoc [simp]: "ends lo (us @ [(a, l)]) = a + l + 8"
  by (induction us arbitrary: lo) auto

lemma pre_ends: "pre lo us \<Longrightarrow> lo \<le> ends lo us"
  by (induction us arbitrary: lo) fastforce+

lemma lastp_ends:
  assumes "pre lo us" "p + 8 \<le> lo"
  shows "lastp p us + 8 \<le> ends lo us" "us \<noteq> [] \<Longrightarrow> lo \<le> lastp p us"
proof -
  have "lastp p us + 8 \<le> ends lo us \<and> (us \<noteq> [] \<longrightarrow> lo \<le> lastp p us)"
  proof (cases us rule: rev_cases)
    case (snoc us' y)
    then show ?thesis using assms(1) pre_ends[of lo us'] by (cases y) (auto simp: pre_append)
  qed (use assms in simp)
  then show "lastp p us + 8 \<le> ends lo us" "us \<noteq> [] \<Longrightarrow> lo \<le> lastp p us" by auto
qed

lemma chain_tail:
  assumes "apart lo vs hi" "mem h' q = mem h a" "\<And>w. lo \<le> w \<Longrightarrow> mem h' w = mem h w" "chain h a vs"
  shows "chain h' q vs"
proof (cases vs)
  case (Cons v vs')
  obtain b m where v: "v = (b, m)" by (cases v)
  have ap: "apart (b + m + 8) vs' hi" and b: "lo \<le> b" "0 < m" using assms(1) Cons v by auto
  have "mem h' w = mem h w" if "w \<in> rd b vs' \<or> w = lastp b vs'" for w
    using that rd_bounds[of "b + m + 8" vs' "[]" hi b w] lastp_bounds[of "b + m + 8" vs' "[]" hi b] ap b
    by (intro assms(3)) auto
  then show ?thesis using assms(2-4) Cons v b chain_cong[of b vs' h' h] by auto
qed (use assms in simp)

text \<open>
  The list after a change at one place: the part before is untouched except for the link out of
  it, and what follows is \<open>ws\<close>.
\<close>

lemma heap_rep_rebuild:
  assumes rep: "heap_rep h (us @ vs)" and h': "memlist_at h' = memlist_at h" "minheap h' = minheap h" "maxheap h' = maxheap h"
    and same: "\<And>w. w = memlist_at h \<or> minheap h \<le> w \<Longrightarrow>
      w < lastp (memlist_at h) us \<or> w = lastp (memlist_at h) us + 4 \<Longrightarrow> mem h' w = mem h w"
    and tail: "chain h' (lastp (memlist_at h) us) ws" "apart (ends (minheap h) us) ws (maxheap h)"
    and tot: "mem h' (memlist_at h + 4) = total (us @ ws)"
  shows "heap_rep h' (us @ ws)"
proof -
  note r = rep[unfolded heap_rep_def frame_ok_def]
  have "part h' (memlist_at h) us"
    using part_frame[of "minheap h" us vs "maxheap h" "memlist_at h" h h'] r same
    by (auto simp: chain_append)
  then show ?thesis
    using rep h' tail tot by (auto simp: heap_rep_def chain_append apart_split frame_ok_cong[of h' h])
qed

lemma total_nonneg: "pre lo us \<Longrightarrow> 0 \<le> total us" "apart lo us hi \<Longrightarrow> 0 \<le> total us"
  by (induction us arbitrary: lo) (fastforce simp: total_def)+

lemma heap_repD:
  assumes "heap_rep h (us @ (a, l) # vs)"
  shows "mem h (lastp (memlist_at h) us) = a" "mem h (a + 4) = l" "chain h a vs" "0 < l" "l mod 8 = 0"
    "apart (a + l + 8) vs (maxheap h)" "a mod 8 = 0" "minheap h \<le> a" "a + l \<le> maxheap h"
    "lastp (memlist_at h) us + 8 \<le> a" "ends (minheap h) us \<le> a" "pre (minheap h) us"
    "part h (memlist_at h) us" "memlist_at h + 8 \<le> a"
proof -
  have r: "frame_ok h" "part h (memlist_at h) us" "chain h (lastp (memlist_at h) us) ((a, l) # vs)"
    "pre (minheap h) us" "apart (ends (minheap h) us) ((a, l) # vs) (maxheap h)"
    "apart (minheap h) (us @ (a, l) # vs) (maxheap h)"
    using assms by (simp_all add: heap_rep_def chain_append apart_split)
  show "mem h (lastp (memlist_at h) us) = a" "mem h (a + 4) = l" "chain h a vs" using r(3) by simp_all
  show "0 < l" "l mod 8 = 0" "apart (a + l + 8) vs (maxheap h)" "a mod 8 = 0"
    "ends (minheap h) us \<le> a" using r(5) by simp_all
  show "pre (minheap h) us" "part h (memlist_at h) us" by (rule r)+
  show m: "minheap h \<le> a" and "a + l \<le> maxheap h" using apart_append[OF r(6)] by simp_all
  have f: "memlist_at h + 8 \<le> minheap h" using r(1) by (simp add: frame_ok_def)
  show "memlist_at h + 8 \<le> a" using m f by simp
  show "lastp (memlist_at h) us + 8 \<le> a"
    using lastp_ends(1)[OF r(4) f] \<open>ends (minheap h) us \<le> a\<close> by simp
qed

lemma heap_rep_u32:
  assumes "heap_rep h xs"
  shows "0 < memlist_at h" "memlist_at h + 8 \<le> minheap h" "minheap h \<le> maxheap h" "maxheap h < 4294967280"
    "0 \<le> total xs" "total xs < 4294967280" "mem h (memlist_at h + 4) = total xs"
  using assms heap_rep_total[of "minheap h" xs "maxheap h"] by (auto simp: heap_rep_def frame_ok_def)

section \<open>\<^verbatim>\<open>getmem\<close>\<close>

lemma getmem_loop_skip:
  assumes "part h p us" "\<forall>(a, l)\<in>set us. a \<noteq> 0 \<and> l < n"
  shows "getmem_loop p (mem h p) n h = getmem_loop (lastp p us) (mem h (lastp p us)) n h"
  using assms
proof (induction us arbitrary: p)
  case (Cons x us)
  obtain a l where x: "x = (a, l)" by (cases x)
  have "getmem_loop p (mem h p) n h = getmem_loop a (mem h a) n h"
    by (subst getmem_loop.simps) (use Cons.prems x in \<open>simp add: mlength_def mnext_def\<close>)
  then show ?case using Cons x by simp
qed simp

lemma first_fit_Some:
  "first_fit n xs = Some (b, ys) \<Longrightarrow> \<exists>us l vs. xs = us @ (b, l) # vs \<and> (\<forall>(a, l)\<in>set us. l < n) \<and> n \<le> l \<and>
     ys = us @ (if l = n then vs else (b + n, l - n) # vs)"
proof (induction xs arbitrary: ys)
  case (Cons x xs)
  obtain a l where x: "x = (a, l)" by (cases x)
  show ?case
  proof (cases "n \<le> l")
    case True
    then show ?thesis using Cons.prems x by (intro exI[of _ "[]"]) (auto split: if_splits)
  next
    case False
    then obtain zs where z: "first_fit n xs = Some (b, zs)" "ys = (a, l) # zs" using Cons.prems x by auto
    from Cons.IH[OF z(1)] obtain us m vs where
      u: "xs = us @ (b, m) # vs" "\<forall>(a, l)\<in>set us. l < n" "n \<le> m"
      "zs = us @ (if m = n then vs else (b + n, m - n) # vs)" by blast
    show ?thesis
      by (rule exI[of _ "(a, l) # us"], rule exI[of _ m], rule exI[of _ vs]) (use u z x False in auto)
  qed
qed simp

lemma first_fit_None: "first_fit n xs = None \<Longrightarrow> \<forall>(a, l)\<in>set xs. l < n"
  by (induction xs) (auto split: if_splits)

lemma heap_rep_nonnull:
  assumes "heap_rep h xs" "(a, l) \<in> set xs"
  shows "0 < a"
proof -
  obtain us vs where "xs = us @ (a, l) # vs" using assms(2) by (meson split_list)
  then show ?thesis using heap_repD(8) heap_rep_u32(1,2) assms(1) by fastforce
qed

lemma heap_getmem_eq:
  assumes rep: "heap_rep h xs" and n: "0 < n" "n < 4294967288"
  shows "case first_fit (roundmb n) xs of
      None \<Rightarrow> heap_getmem n h = Some (u32 SYSERR, h)
    | Some (b, ys) \<Rightarrow> \<exists>h'. heap_getmem n h = Some (b, h') \<and> heap_rep h' ys \<and>
        memlist_at h' = memlist_at h \<and> minheap h' = minheap h \<and> maxheap h' = maxheap h"
proof (cases "first_fit (roundmb n) xs")
  case None
  have "\<forall>(a, l)\<in>set xs. a \<noteq> 0 \<and> l < roundmb n"
    using first_fit_None[OF None] heap_rep_nonnull[OF rep] by fastforce
  then have "getmem_loop (memlist_at h) (mem h (memlist_at h)) (roundmb n) h =
      getmem_loop (lastp (memlist_at h) xs) (mem h (lastp (memlist_at h) xs)) (roundmb n) h"
    using rep chain_append[of h "memlist_at h" xs "[]"] by (intro getmem_loop_skip) (auto simp: heap_rep_def)
  moreover have "mem h (lastp (memlist_at h) xs) = 0"
    using rep chain_append[of h "memlist_at h" xs "[]"] by (auto simp: heap_rep_def)
  ultimately show ?thesis using None n by (simp add: heap_getmem_def mnext_def getmem_loop.simps)
next
  case (Some r)
  obtain b ys where r: "r = (b, ys)" by (cases r)
  let ?n = "roundmb n" and ?M = "memlist_at h"
  obtain us l vs where d: "xs = us @ (b, l) # vs" "\<forall>(a, l)\<in>set us. l < ?n" "?n \<le> l"
    "ys = us @ (if l = ?n then vs else (b + ?n, l - ?n) # vs)"
    using first_fit_Some[OF Some[unfolded r]] by blast
  note D = heap_repD[OF rep[unfolded d(1)]] and U = heap_rep_u32[OF rep]
  have nn: "n \<le> ?n" "?n mod 8 = 0" "0 < ?n" using roundmb_nat[of n] n by auto
  define p where "p = lastp ?M us"
  have p: "p + 8 \<le> b" "p = ?M \<or> minheap h \<le> p"
    using D(10) lastp_ends(2)[OF D(12), of ?M] U(2) by (cases us; simp add: p_def)+
  have pM: "?M + 4 \<noteq> p" using p(2) U(2) by auto
  have skip: "heap_getmem n h = getmem_loop p b ?n h"
    using getmem_loop_skip[OF D(13), of ?n] heap_rep_nonnull[OF rep] d(1,2) D(1) n
    by (fastforce simp: heap_getmem_def mnext_def p_def)
  have bound: "b < 4294967280" "l < 4294967280" "0 < b" using D(4,8,9,14) U by auto
  have tot: "total xs = total us + l + total vs" by (simp add: d(1))
  have tr: "u32 (total xs - ?n) = total xs - ?n"
    using U(6) d(3) nn tot total_nonneg(1)[OF D(12)] total_nonneg(2)[OF D(6)] by simp
  show ?thesis
  proof (cases "l = ?n")
    case True
    let ?h = "set_mlength ?M (total xs - ?n) (set_mnext p (mem h b) h)"
    have "heap_rep ?h (us @ vs)"
    proof (rule heap_rep_rebuild[OF rep[unfolded d(1)]])
      show "chain ?h (lastp ?M us) vs"
        by (rule chain_tail[OF D(6) _ _ D(3)]) (use p D(4,14) U p_def in auto)
      show "apart (ends (minheap h) us) vs (maxheap h)"
        using apart_mono[OF D(6), of "ends (minheap h) us"] D(4,11) by simp
    qed (use p p_def U True tot in auto)
    moreover have "heap_getmem n h = Some (b, ?h)"
      unfolding skip by (subst getmem_loop.simps)
        (use True D(2) bound p pM U tr in \<open>simp add: mlength_def mnext_def Let_def\<close>)
    ultimately show ?thesis using Some r d(4) True by simp
  next
    case False
    then have gt: "l > ?n" using d(3) by simp
    then have le: "?n + 8 \<le> l" using nn(2) D(5) by presburger
    let ?h = "set_mlength ?M (total xs - ?n) (set_mlength (b + ?n) (l - ?n)
        (set_mnext (b + ?n) (mem h b) (set_mnext p (b + ?n) h)))"
    have n8: "8 \<le> ?n" using nn(2,3) by presburger
    have ne: "u32 (b + ?n) = b + ?n" "u32 (l - ?n) = l - ?n" "b + 4 \<noteq> b + ?n" "?M + 4 \<noteq> b + ?n" "?M \<noteq> b + ?n"
      using le bound n8 D(9,14) U by simp_all
    have "heap_rep ?h (us @ (b + ?n, l - ?n) # vs)"
    proof (rule heap_rep_rebuild[OF rep[unfolded d(1)]])
      have "chain ?h (b + ?n) vs"
        by (rule chain_tail[OF D(6) _ _ D(3)]) (use p pM D(4,14) U le nn in auto)
      then show "chain ?h (lastp ?M us) ((b + ?n, l - ?n) # vs)"
        using p D(14) U nn p_def by auto
      show "apart (ends (minheap h) us) ((b + ?n, l - ?n) # vs) (maxheap h)"
        using D gt nn by (auto simp: mod_add_eq)
    qed (use p p_def U tot nn D(14) in auto)
    moreover have "heap_getmem n h = Some (b, ?h)"
      unfolding skip by (subst getmem_loop.simps)
        (use gt D(2) bound(3) p(1) pM ne U(7) tr nn(3) in \<open>simp add: mlength_def mnext_def Let_def\<close>)
    ultimately show ?thesis using Some r d(4) False by simp
  qed
qed

section \<open>\<^verbatim>\<open>getstk\<close>\<close>

lemma last_fit_append:
  "last_fit n (us @ vs) = (case last_fit n vs of
     Some (b, ys) \<Rightarrow> Some (b, us @ ys)
   | None \<Rightarrow> map_option (\<lambda>(b, ys). (b, ys @ vs)) (last_fit n us))"
  by (induction us) (auto split: option.splits)

lemma last_fit_None: "last_fit n xs = None \<longleftrightarrow> (\<forall>(a, l)\<in>set xs. l < n)"
  by (induction xs) (auto split: option.splits if_splits)

lemma last_fit_Some:
  "last_fit n xs = Some (b, ys) \<Longrightarrow> \<exists>us a l vs. xs = us @ (a, l) # vs \<and> (\<forall>(a, l)\<in>set vs. l < n) \<and>
     n \<le> l \<and> b = a + l - n \<and> ys = us @ (if l = n then vs else (a, l - n) # vs)"
proof (induction xs arbitrary: ys)
  case (Cons x xs)
  obtain a l where x: "x = (a, l)" by (cases x)
  show ?case
  proof (cases "last_fit n xs")
    case None
    then show ?thesis
      using Cons.prems x last_fit_None[of n xs]
      by (intro exI[of _ "[]"] exI[of _ a] exI[of _ l] exI[of _ xs]) (auto split: if_splits)
  next
    case (Some r)
    then obtain zs where z: "last_fit n xs = Some (b, zs)" "ys = (a, l) # zs"
      using Cons.prems x Some by (cases r) auto
    from Cons.IH[OF z(1)] obtain us c m vs where
      u: "xs = us @ (c, m) # vs" "\<forall>(a, l)\<in>set vs. l < n" "n \<le> m" "b = c + m - n"
      "zs = us @ (if m = n then vs else (c, m - n) # vs)" by blast
    show ?thesis
      by (rule exI[of _ "(a, l) # us"], rule exI[of _ c], rule exI[of _ m], rule exI[of _ vs])
        (use u z x in auto)
  qed
qed simp

lemma getstk_scan_part:
  assumes "part h p us" "\<forall>(a, l)\<in>set us. a \<noteq> 0"
  shows "\<exists>f fp. getstk_scan p (mem h p) fits fitsprev n h =
    getstk_scan (lastp p us) (mem h (lastp p us)) f fp n h"
  using assms
proof (induction us arbitrary: p fits fitsprev)
  case (Cons x us)
  obtain a l where x: "x = (a, l)" by (cases x)
  have "\<exists>f fp. getstk_scan p (mem h p) fits fitsprev n h = getstk_scan a (mem h a) f fp n h"
    by (subst getstk_scan.simps) (use Cons.prems x in \<open>auto simp: mlength_def mnext_def\<close>)
  then obtain f fp where "getstk_scan p (mem h p) fits fitsprev n h = getstk_scan a (mem h a) f fp n h" by blast
  moreover have "\<exists>f' fp'. getstk_scan a (mem h a) f fp n h =
      getstk_scan (lastp a us) (mem h (lastp a us)) f' fp' n h"
    using Cons.prems x by (intro Cons.IH) auto
  ultimately show ?case using x by auto
qed auto

lemma getstk_scan_skip:
  assumes "chain h p vs" "\<forall>(a, l)\<in>set vs. a \<noteq> 0 \<and> l < n"
  shows "getstk_scan p (mem h p) fits fitsprev n h = Some (fits, fitsprev)"
  using assms
proof (induction vs arbitrary: p)
  case Nil
  then show ?case by (simp add: getstk_scan.simps)
next
  case (Cons x vs)
  then show ?case
    by (cases x) (subst getstk_scan.simps, auto simp: mlength_def mnext_def)
qed

lemma heap_getstk_eq:
  assumes rep: "heap_rep h xs" and n: "0 < n" "n < 4294967288"
  shows "case last_fit (roundmb n) xs of
      None \<Rightarrow> heap_getstk n h = Some (u32 SYSERR, h)
    | Some (b, ys) \<Rightarrow> \<exists>h'. heap_getstk n h = Some (b + roundmb n - 4, h') \<and> heap_rep h' ys \<and>
        memlist_at h' = memlist_at h \<and> minheap h' = minheap h \<and> maxheap h' = maxheap h"
proof (cases "last_fit (roundmb n) xs")
  case None
  have "\<forall>(a, l)\<in>set xs. a \<noteq> 0 \<and> l < roundmb n"
    using None[unfolded last_fit_None] heap_rep_nonnull[OF rep] by fastforce
  then have "getstk_scan (memlist_at h) (mem h (memlist_at h)) NULL NULL (roundmb n) h = Some (NULL, NULL)"
    using rep by (intro getstk_scan_skip) (auto simp: heap_rep_def)
  then show ?thesis using None n by (simp add: heap_getstk_def mnext_def Let_def)
next
  case (Some r)
  obtain b ys where r: "r = (b, ys)" by (cases r)
  let ?n = "roundmb n" and ?M = "memlist_at h"
  obtain us a l vs where d: "xs = us @ (a, l) # vs" "\<forall>(a, l)\<in>set vs. l < ?n" "?n \<le> l" "b = a + l - ?n"
    "ys = us @ (if l = ?n then vs else (a, l - ?n) # vs)"
    using last_fit_Some[OF Some[unfolded r]] by blast
  note D = heap_repD[OF rep[unfolded d(1)]] and U = heap_rep_u32[OF rep]
  have nn: "n \<le> ?n" "?n mod 8 = 0" "0 < ?n" using roundmb_nat[of n] n by auto
  define p where "p = lastp ?M us"
  have p: "p + 8 \<le> a" "p = ?M \<or> minheap h \<le> p"
    using D(10) lastp_ends(2)[OF D(12), of ?M] U(2) by (cases us; simp add: p_def)+
  have pM: "?M + 4 \<noteq> p" using p(2) U(2) by auto
  have bound: "a < 4294967280" "l < 4294967280" "0 < a" "a + l < 4294967280" using D(4,8,9,14) U by auto
  have nz: "\<forall>(a, l)\<in>set xs. a \<noteq> 0" using heap_rep_nonnull[OF rep] by fastforce
  have "\<exists>f fp. getstk_scan ?M (mem h ?M) NULL NULL ?n h = getstk_scan p a f fp ?n h"
    using getstk_scan_part[OF D(13), of NULL NULL ?n] nz d(1) D(1) by (auto simp: p_def)
  moreover have "getstk_scan p a f fp ?n h = Some (a, p)" for f fp
    by (subst getstk_scan.simps)
      (use D(2) bound d(3) getstk_scan_skip[OF D(3), of ?n a p] d(1,2) nz in \<open>auto simp: mlength_def mnext_def\<close>)
  ultimately have scan: "getstk_scan ?M (mnext h ?M) NULL NULL ?n h = Some (a, p)" by (auto simp: mnext_def)
  have tot: "total xs = total us + l + total vs" by (simp add: d(1))
  have tr: "u32 (total xs - ?n) = total xs - ?n"
    using U(6) d(3) nn tot total_nonneg(1)[OF D(12)] total_nonneg(2)[OF D(6)] by simp
  show ?thesis
  proof (cases "l = ?n")
    case True
    let ?h = "set_mlength ?M (total xs - ?n) (set_mnext p (mem h a) h)"
    have "heap_rep ?h (us @ vs)"
    proof (rule heap_rep_rebuild[OF rep[unfolded d(1)]])
      show "chain ?h (lastp ?M us) vs"
        by (rule chain_tail[OF D(6) _ _ D(3)]) (use p D(4,14) U p_def in auto)
      show "apart (ends (minheap h) us) vs (maxheap h)"
        using apart_mono[OF D(6), of "ends (minheap h) us"] D(4,11) by simp
    qed (use p p_def U True tot in auto)
    moreover have "heap_getstk n h = Some (b + ?n - 4, ?h)"
    proof -
      have "u32 (a + ?n - 4) = a + ?n - 4" "a \<noteq> 0" using bound True nn(3) D(14) U(1) by simp_all
      moreover have "mem h (a + 4) = ?n" "b = a" using D(2) True d(4) by simp_all
      ultimately show ?thesis using scan n(1) pM tr U(7)
        by (simp add: heap_getstk_def mlength_def mnext_def Let_def)
    qed
    ultimately show ?thesis using Some r d(5) True by simp
  next
    case False
    then have gt: "l > ?n" using d(3) by simp
    then have le: "?n + 8 \<le> l" using nn(2) D(5) by presburger
    let ?h = "set_mlength ?M (total xs - ?n) (set_mlength a (l - ?n) h)"
    have "heap_rep ?h (us @ (a, l - ?n) # vs)"
    proof (rule heap_rep_rebuild[OF rep[unfolded d(1)]])
      have "chain ?h a vs"
        by (rule chain_tail[OF D(6) _ _ D(3)]) (use p D(4,5,14) U p_def gt nn in auto)
      then show "chain ?h (lastp ?M us) ((a, l - ?n) # vs)"
        using p pM D(1,14) U nn p_def by auto
      show "apart (ends (minheap h) us) ((a, l - ?n) # vs) (maxheap h)"
        using D gt nn apart_mono[OF D(6), of "a + (l - ?n) + 8"] by (auto simp: mod_diff_eq)
    qed (use p p_def U tot nn D(14) in auto)
    moreover have "heap_getstk n h = Some (b + ?n - 4, ?h)"
    proof -
      have e: "u32 (l - ?n) = l - ?n" "u32 (a + (l - ?n)) = b" "u32 (b + ?n - 4) = b + ?n - 4"
        using bound gt nn(3) D(14) U(1) d(4) by simp_all
      have "a \<noteq> 0" "?M + 4 \<noteq> a + 4" "?M \<noteq> a" using bound D(14) by simp_all
      with e show ?thesis using scan n(1) D(2) False tr U(7)
        by (simp add: heap_getstk_def mlength_def mnext_def Let_def)
    qed
    ultimately show ?thesis using Some r d(5) False by simp
  qed
qed

section \<open>\<^verbatim>\<open>freemem\<close>\<close>

lemma rebuild_block:
  assumes rep: "heap_rep h (us @ vs0)" and h': "memlist_at h' = memlist_at h" "minheap h' = minheap h" "maxheap h' = maxheap h"
    and q: "ends (minheap h) us \<le> q" "q mod 8 = 0" "0 < k" "k mod 8 = 0" "apart (q + k + 8) vs (maxheap h)"
    and link: "mem h' (lastp (memlist_at h) us) = q" "mem h' (q + 4) = k" "mem h' q = mem h src" "chain h src vs"
    and same: "\<And>w. q + k + 8 \<le> w \<Longrightarrow> mem h' w = mem h w"
      "\<And>w. w = memlist_at h \<or> minheap h \<le> w \<Longrightarrow>
        w < lastp (memlist_at h) us \<or> w = lastp (memlist_at h) us + 4 \<Longrightarrow> mem h' w = mem h w"
    and tot: "mem h' (memlist_at h + 4) = total (us @ (q, k) # vs)"
  shows "heap_rep h' (us @ (q, k) # vs)"
proof (rule heap_rep_rebuild[OF rep h' same(2)])
  have "chain h' q vs" by (rule chain_tail[OF q(5) link(3) same(1) link(4)])
  then show "chain h' (lastp (memlist_at h) us) ((q, k) # vs)" using link(1,2) by simp
  show "apart (ends (minheap h) us) ((q, k) # vs) (maxheap h)" using q by simp
qed (use tot in auto)

lemma freemem_scan_skip:
  assumes "part h p us" "\<forall>(a, l)\<in>set us. a \<noteq> 0 \<and> a < b"
  shows "freemem_scan p (mem h p) b h = freemem_scan (lastp p us) (mem h (lastp p us)) b h"
  using assms
proof (induction us arbitrary: p)
  case (Cons x us)
  obtain a l where x: "x = (a, l)" by (cases x)
  have "freemem_scan p (mem h p) b h = freemem_scan a (mem h a) b h"
    by (subst freemem_scan.simps) (use Cons.prems x in \<open>simp add: mnext_def\<close>)
  then show ?case using Cons x by simp
qed simp

lemma below_above: "below b xs @ above b xs = xs" "\<forall>(a, l)\<in>set (below b xs). a < b"
  "above b xs \<noteq> [] \<Longrightarrow> b \<le> fst (hd (above b xs))"
  using hd_dropWhile[of "\<lambda>(a, _). a < b" xs]
  by (auto simp: below_def above_def split_beta dest: set_takeWhileD)

lemma heap_freemem_split:
  assumes rep: "heap_rep h xs" and n: "0 < n" and b: "minheap h \<le> b" "b \<le> maxheap h"
  defines "us \<equiv> below b xs" and "vs \<equiv> above b xs"
  defines "prev \<equiv> lastp (memlist_at h) us" and "nxt \<equiv> (if vs = [] then 0 else fst (hd vs))"
  shows "heap_freemem b n h =
    (if us \<noteq> [] \<and> b < top_of us \<or> vs \<noteq> [] \<and> u32 (b + roundmb n) > nxt then Some (SYSERR, h)
     else Some (OK, freemem_link prev nxt (if us = [] then 0 else top_of us) b (roundmb n) h))"
    "mem h prev = nxt"
    "us \<noteq> [] \<Longrightarrow> prev \<noteq> memlist_at h \<and> u32 (prev + mlength h prev) = top_of us"
proof -
  have xs: "xs = us @ vs" using below_above(1)[of b xs] by (simp add: us_def vs_def)
  note r = rep[unfolded xs heap_rep_def chain_append apart_split frame_ok_def]
  show nx: "mem h prev = nxt"
    using r by (cases vs) (auto simp: prev_def nxt_def)
  have "freemem_scan (memlist_at h) (mem h (memlist_at h)) b h = freemem_scan prev (mem h prev) b h"
    unfolding prev_def
  proof (rule freemem_scan_skip)
    show "part h (memlist_at h) us" using r by simp
    have "set us \<subseteq> set xs" using xs by (metis set_append Un_upper1)
    then show "\<forall>(a, l)\<in>set us. a \<noteq> 0 \<and> a < b"
      using heap_rep_nonnull[OF rep] below_above(2)[of b xs, folded us_def] by fastforce
  qed
  moreover have "freemem_scan prev nxt b h = Some (prev, nxt)"
    using below_above(3)[of b xs] by (subst freemem_scan.simps) (auto simp: nxt_def vs_def)
  ultimately have scan: "freemem_scan (memlist_at h) (mnext h (memlist_at h)) b h = Some (prev, nxt)"
    by (simp add: nx mnext_def)
  have tp: "prev \<noteq> memlist_at h \<and> u32 (prev + mlength h prev) = top_of us" if ne: "us \<noteq> []"
  proof -
    obtain us' a l where us: "us = us' @ [(a, l)]" using ne by (cases us rule: rev_cases) auto
    have rep': "heap_rep h (us' @ (a, l) # vs)" using rep unfolding xs us by simp
    note D = heap_repD(2,4,9,14)[OF rep']
    have "u32 (a + l) = a + l" using D heap_rep_u32(1,4)[OF rep] by simp
    then show ?thesis using D(1,4) us by (simp add: prev_def top_of_def mlength_def)
  qed
  then show "us \<noteq> [] \<Longrightarrow> prev \<noteq> memlist_at h \<and> u32 (prev + mlength h prev) = top_of us" by simp
  have pm: "prev = memlist_at h" if "us = []" using that by (simp add: prev_def)
  have nn: "nxt \<noteq> 0 \<longleftrightarrow> vs \<noteq> []"
  proof (cases vs)
    case (Cons v vs')
    then have "v \<in> set xs" using xs by (metis in_set_conv_decomp)
    then show ?thesis using Cons heap_rep_nonnull[OF rep, of "fst v" "snd v"] by (simp add: nxt_def)
  qed (simp add: nxt_def)
  show "heap_freemem b n h =
    (if us \<noteq> [] \<and> b < top_of us \<or> vs \<noteq> [] \<and> u32 (b + roundmb n) > nxt then Some (SYSERR, h)
     else Some (OK, freemem_link prev nxt (if us = [] then 0 else top_of us) b (roundmb n) h))"
    using n b scan tp pm nn
    by (cases "us = []") (simp_all add: heap_freemem_def Let_def)
qed

text \<open>Joining the block at \<open>q\<close> with its successor, in the four situations of \<^verbatim>\<open>freemem\<close>.\<close>

lemma heap_rep_join:
  assumes rep: "heap_rep h (us @ vs0)"
    and h1: "memlist_at h1 = memlist_at h" "minheap h1 = minheap h" "maxheap h1 = maxheap h"
    and q: "ends (minheap h) us \<le> q" "q mod 8 = 0" "0 < k" "k mod 8 = 0" "q + k \<le> maxheap h"
    and vs: "chain h src vs" "apart (q + k) vs (maxheap h)"
    and link: "mem h1 (lastp (memlist_at h) us) = q" "mem h1 (q + 4) = k" "mem h1 q = mem h src"
    and same: "\<And>w. q + k \<le> w \<Longrightarrow> mem h1 w = mem h w"
      "\<And>w. w = memlist_at h \<or> minheap h \<le> w \<Longrightarrow>
        w < lastp (memlist_at h) us \<or> w = lastp (memlist_at h) us + 4 \<Longrightarrow> mem h1 w = mem h w"
    and tot: "mem h1 (memlist_at h + 4) = total us + k + total vs"
    and nxt: "nxt = (if vs = [] then 0 else fst (hd vs))"
  shows "heap_rep (freemem_join q nxt h1) (us @ join_next q k vs) \<and>
    memlist_at (freemem_join q nxt h1) = memlist_at h \<and> minheap (freemem_join q nxt h1) = minheap h \<and>
    maxheap (freemem_join q nxt h1) = maxheap h"
proof -
  have pre: "pre (minheap h) us" and M: "0 < memlist_at h" "memlist_at h + 8 \<le> minheap h" "maxheap h < 4294967280"
    using rep by (auto simp: heap_rep_def apart_split frame_ok_def)
  have lp: "lastp (memlist_at h) us + 8 \<le> q" using lastp_ends(1)[OF pre M(2)] q(1) by simp
  have qm: "minheap h \<le> q" using pre_ends[OF pre] q(1) by simp
  have u: "u32 (q + k) = q + k" using qm q M by simp
  have f: "memlist_at (freemem_join q nxt h1) = memlist_at h" "minheap (freemem_join q nxt h1) = minheap h"
    "maxheap (freemem_join q nxt h1) = maxheap h"
    by (simp_all add: freemem_join_def Let_def h1)
  have "heap_rep (freemem_join q nxt h1) (us @ join_next q k vs)"
  proof (cases "vs \<noteq> [] \<and> q + k = fst (hd vs)")
    case False
    have "freemem_join q nxt h1 = h1"
      using False u link(2) nxt q qm M by (auto simp: freemem_join_def mlength_def)
    moreover have "join_next q k vs = (q, k) # vs" using False by (auto simp: join_next_def split: list.split)
    moreover have "apart (q + k + 8) vs (maxheap h)"
    proof (cases vs)
      case (Cons v vs')
      then have "q + k < fst v" "fst v mod 8 = 0" using vs(2) False by (cases v; simp)+
      then have "q + k + 8 \<le> fst v" using q by presburger
      then show ?thesis using Cons vs(2) by (cases v) simp
    qed (use q in simp)
    ultimately show ?thesis
      using rebuild_block[OF rep h1 q(1-4) _ link vs(1) same] tot by (simp add: total_def)
  next
    case True
    then obtain c m vs' where v: "vs = (c, m) # vs'" "c = q + k" by (cases vs) auto
    have c: "mem h (c + 4) = m" "chain h c vs'" "0 < m" "m mod 8 = 0" "apart (c + m + 8) vs' (maxheap h)"
      using vs v by simp_all
    have cm: "c + m \<le> maxheap h" using apart_le[OF c(5)] by simp
    have mm: "m = mem h1 (c + 4)" "mem h1 c = mem h c" using same(1) v c by simp_all
    let ?h = "set_mnext q (mem h c) (set_mlength q (k + m) h1)"
    have k4: "k \<noteq> 4" using q(4) by auto
    have "u32 (k + m) = k + m" using q c v cm M qm by simp
    then have j: "freemem_join q nxt h1 = ?h"
      using u link(2) nxt v mm q(3) k4
      by (simp add: freemem_join_def mlength_def mnext_def Let_def)
    have "heap_rep ?h (us @ (q, k + m) # vs')"
    proof (rule rebuild_block[OF rep _ _ _ q(1,2)])
      show "mem ?h (lastp (memlist_at h) us) = q" using link(1) lp by simp
      show "mem ?h w = mem h w" if "w = memlist_at h \<or> minheap h \<le> w"
        "w < lastp (memlist_at h) us \<or> w = lastp (memlist_at h) us + 4" for w
        using same(2)[OF that] that(2) lp by auto
      show "mem ?h w = mem h w" if "q + (k + m) + 8 \<le> w" for w using same(1)[of w] that q(3) c(3) by simp
      show "mem ?h (memlist_at h + 4) = total (us @ (q, k + m) # vs')" using tot v qm M by simp
      show "chain h c vs'" by (rule c)
    qed (use h1 q c v in \<open>auto simp: add.assoc\<close>)
    moreover have "join_next q k vs = (q, k + m) # vs'" using v by (simp add: join_next_def)
    ultimately show ?thesis by (simp add: j)
  qed
  then show ?thesis using f by simp
qed

lemma heap_freemem_eq:
  assumes rep: "heap_rep h xs" and n: "0 < n" "n < 4294967288" and b: "b mod 8 = 0"
    and room: "b + roundmb n \<le> maxheap h"
  shows "if b < minheap h then heap_freemem b n h = Some (SYSERR, h)
    else case give_back b (roundmb n) xs of
      None \<Rightarrow> heap_freemem b n h = Some (SYSERR, h)
    | Some ys \<Rightarrow> \<exists>h'. heap_freemem b n h = Some (OK, h') \<and> heap_rep h' ys \<and>
        memlist_at h' = memlist_at h \<and> minheap h' = minheap h \<and> maxheap h' = maxheap h"
proof (cases "b < minheap h")
  case True
  then show ?thesis by (simp add: heap_freemem_def)
next
  case False
  let ?n = "roundmb n" and ?M = "memlist_at h"
  have nn: "0 < ?n" "?n mod 8 = 0" using roundmb_nat[of n] n by auto
  define us vs where "us = below b xs" and "vs = above b xs"
  define prev nxt where "prev = lastp ?M us" and "nxt = (if vs = [] then 0 else fst (hd vs))"
  have xs: "xs = us @ vs" using below_above(1)[of b xs] by (simp add: us_def vs_def)
  have rep': "heap_rep h (us @ vs)" using rep unfolding xs .
  note U = heap_rep_u32[OF rep]
  have bm: "minheap h \<le> b" "b \<le> maxheap h" using False room nn(1) by simp_all
  note S = heap_freemem_split[OF rep n(1) bm, folded us_def vs_def, folded prev_def nxt_def]
  have u: "u32 (b + ?n) = b + ?n" using bm room U(1-4) nn(1) by simp
  have G: "give_back b ?n xs =
    (if us \<noteq> [] \<and> b < top_of us \<or> vs \<noteq> [] \<and> b + ?n > nxt then None
     else if us \<noteq> [] \<and> b = top_of us
     then Some (butlast us @ join_next (fst (last us)) (snd (last us) + ?n) vs)
     else Some (us @ join_next b ?n vs))"
    by (simp add: give_back_def Let_def us_def[symmetric] vs_def[symmetric] nxt_def)
  show ?thesis
  proof (cases "us \<noteq> [] \<and> b < top_of us \<or> vs \<noteq> [] \<and> b + ?n > nxt")
    case True
    then show ?thesis using False S(1) G u by simp
  next
    case ok: False
    let ?h1 = "set_mlength ?M (u32 (mlength h ?M + ?n)) h"
    have r: "chain h prev vs" "apart (ends (minheap h) us) vs (maxheap h)" "pre (minheap h) us"
      using rep' by (simp_all add: heap_rep_def chain_append apart_split prev_def)
    have ap: "apart (b + ?n) vs (maxheap h)"
      using ok r(2) room apart_le[of "b + ?n"] by (cases vs) (auto simp: nxt_def)
    have nv: "total vs \<le> maxheap h - (b + ?n)" using heap_rep_total[OF ap room] by simp
    have tu: "total us \<le> b - minheap h"
    proof (cases us rule: rev_cases)
      case (snoc us' x)
      obtain a l where x: "x = (a, l)" by (cases x)
      have "a + l \<le> b" using ok snoc x by (auto simp: top_of_def)
      moreover have "apart (minheap h) us (a + l)" using r(3) snoc x
        by (simp add: apart_split pre_append)
      ultimately show ?thesis using heap_rep_total[of "minheap h" us "a + l"] pre_ends[OF r(3)] r(3) snoc x
          pre_ends[of "minheap h" us'] by (simp add: pre_append)
    qed (use bm in simp)
    have T: "mem h (?M + 4) = total us + total vs" using U(7) by (simp add: xs)
    have Tu: "u32 (mem h (?M + 4) + ?n) = total us + ?n + total vs"
      using T nv tu U(1-4) total_nonneg(1)[OF r(3)] total_nonneg(2)[OF ap] nn(1) by simp
    show ?thesis
    proof (cases "us \<noteq> [] \<and> b = top_of us")
      case True
      obtain us' a l where us: "us = us' @ [(a, l)]" using True by (cases us rule: rev_cases) auto
      have rep2: "heap_rep h (us' @ (a, l) # vs)" using rep' unfolding us by simp
      note D = heap_repD(1,2,4,5,7,10,11,14)[OF rep2]
      have al: "a + l = b" using True us by (simp add: top_of_def)
      have pa: "prev = a" by (simp add: prev_def us)
      let ?h2 = "set_mlength a (u32 (mlength ?h1 a + ?n)) ?h1"
      have la: "mlength ?h1 a = l" using D(2,8) by (simp add: mlength_def)
      have lu: "u32 (l + ?n) = l + ?n" using al D(3,8) room U(1-4) nn(1) bm by simp
      have "heap_rep (freemem_join a nxt ?h2) (us' @ join_next a (l + ?n) vs) \<and>
        memlist_at (freemem_join a nxt ?h2) = ?M \<and> minheap (freemem_join a nxt ?h2) = minheap h \<and>
        maxheap (freemem_join a nxt ?h2) = maxheap h"
      proof (rule heap_rep_join[OF rep2])
        show "chain h a vs" using r(1) pa by simp
        show "apart (a + (l + ?n)) vs (maxheap h)" using ap al by (simp add: add.assoc[symmetric])
        have "?M + 4 \<noteq> lastp ?M us'"
          using lastp_ends(2)[OF heap_repD(12)[OF rep2] U(2)] U(2) by (cases us') auto
        then show "mem ?h2 (lastp ?M us') = a" using D(1,6,8) U(2) by simp
        show "mem ?h2 (a + 4) = l + ?n" using la lu by simp
        show "mem ?h2 a = mem h a" using D(8) by simp
        show "mem ?h2 w = mem h w" if "a + (l + ?n) \<le> w" for w
          using that D(3,4,8) nn by simp presburger
        show "mem ?h2 w = mem h w" if "w = ?M \<or> minheap h \<le> w"
          "w < lastp ?M us' \<or> w = lastp ?M us' + 4" for w using that D(6) U(2) by auto
        show "mem ?h2 (?M + 4) = total us' + (l + ?n) + total vs"
          using Tu us D(8) by (simp add: mlength_def)
        show "(l + ?n) mod 8 = 0" using D(4) nn(2) by presburger
      qed (use D nn al room nxt_def in simp_all)
      then show ?thesis
        using False ok True S(1) G u us pa by (simp add: freemem_link_def Let_def)
    next
      case no: False
      let ?h2 = "set_mnext prev b (set_mlength b ?n (set_mnext b nxt ?h1))"
      have eb: "ends (minheap h) us \<le> b"
      proof (cases us rule: rev_cases)
        case (snoc us' x)
        obtain a l where x: "x = (a, l)" by (cases x)
        have "a + l < b" using ok no snoc x by (auto simp: top_of_def)
        moreover have "a mod 8 = 0" "l mod 8 = 0" using r(3) snoc x by (simp_all add: pre_append)
        ultimately show ?thesis using b snoc x by simp presburger
      qed (use bm in simp)
      have lp: "prev + 8 \<le> b" "prev = ?M \<or> minheap h \<le> prev" "?M + 4 \<noteq> prev"
        using lastp_ends[OF r(3) U(2)] eb U(2) prev_def by (cases us; auto)+
      have ub: "mem h prev = nxt" by (rule S(2))
      have "heap_rep (freemem_join b nxt ?h2) (us @ join_next b ?n vs) \<and>
        memlist_at (freemem_join b nxt ?h2) = ?M \<and> minheap (freemem_join b nxt ?h2) = minheap h \<and>
        maxheap (freemem_join b nxt ?h2) = maxheap h"
      proof (rule heap_rep_join[OF rep'])
        show "chain h prev vs" by (rule r)
        show "mem ?h2 (lastp ?M us) = b" using prev_def by simp
        show "mem ?h2 (b + 4) = ?n" using lp by simp
        show "mem ?h2 b = mem h prev" using lp ub by simp
        show "mem ?h2 w = mem h w" if "b + ?n \<le> w" for w
          using that nn lp bm U(2) by simp presburger
        show "mem ?h2 w = mem h w" if "w = ?M \<or> minheap h \<le> w"
          "w < lastp ?M us \<or> w = lastp ?M us + 4" for w using that lp U(2) prev_def by auto
        show "mem ?h2 (?M + 4) = total us + ?n + total vs"
          using Tu lp bm U(2) by (simp add: mlength_def)
      qed (use eb b nn room ap nxt_def in simp_all)
      then show ?thesis
        using False ok no S(1) G u nn bm U(1,2) by (cases "us = []") (simp_all add: freemem_link_def Let_def)
    qed
  qed
qed

section \<open>What the allocators guarantee\<close>

definition region :: "int \<Rightarrow> int \<Rightarrow> int set" where
  "region a n = {a..<a + n}"

lemma bytes_apart: "apart lo xs hi \<Longrightarrow> bytes xs \<subseteq> {lo..<hi}"
proof (induction xs arbitrary: lo)
  case (Cons x xs)
  obtain a l where x: "x = (a, l)" by (cases x)
  have "bytes xs \<subseteq> {a + l + 8..<hi}" using Cons x by auto
  moreover have "a + l \<le> hi" using Cons.prems x apart_le[of "a + l + 8" xs hi] by auto
  ultimately show ?case using Cons.prems x by fastforce
qed simp

lemma pre_apart: "pre lo us \<Longrightarrow> ends lo us \<le> hi + 8 \<Longrightarrow> apart lo us hi"
  by (induction us arbitrary: lo) auto

text \<open>A free list is determined by its bytes.\<close>

lemma apart_unique:
  "apart lo xs hi \<Longrightarrow> apart lo' ys hi' \<Longrightarrow> bytes xs = bytes ys \<Longrightarrow> xs = ys"
proof (induction xs arbitrary: lo lo' ys)
  case Nil
  then show ?case by (cases ys) auto
next
  case (Cons x xs)
  obtain a l where x: "x = (a, l)" by (cases x)
  have A: "0 < l" "apart (a + l + 8) xs hi" "bytes xs \<subseteq> {a + l + 8..<hi}"
    using Cons.prems(1) x bytes_apart[of "a + l + 8" xs hi] by auto
  obtain c m zs where y: "ys = (c, m) # zs"
    using Cons.prems(3) x A(1) by (cases ys) auto
  have C: "0 < m" "apart (c + m + 8) zs hi'" "bytes zs \<subseteq> {c + m + 8..<hi'}"
    using Cons.prems(2) y bytes_apart[of "c + m + 8" zs hi'] by auto
  have E: "{a..<a + l} \<union> bytes xs = {c..<c + m} \<union> bytes zs" using Cons.prems(3) x y by simp
  have "a \<in> {c..<c + m} \<union> bytes zs" "c \<in> {a..<a + l} \<union> bytes xs" using E A(1) C(1) by auto
  then have "c \<le> a" "a \<le> c" using A(1,3) C(1,3) by (fastforce, fastforce)
  then have ac: "a = c" by simp
  have "a + l \<notin> {a..<a + l} \<union> bytes xs" "c + m \<notin> {c..<c + m} \<union> bytes zs" using A(3) C(3) by auto
  then have "a + l \<notin> {c..<c + m}" "c + m \<notin> {a..<a + l}" using E by auto
  then have lm: "l = m" using ac A(1) C(1) by auto
  have "{a..<a + l} \<inter> bytes xs = {}" "{a..<a + l} \<inter> bytes zs = {}" using A(3) C(3) ac lm by auto
  then have "bytes xs = bytes zs" using E ac lm by auto
  then show ?case using Cons.IH[OF A(2) C(2)] x y ac lm by simp
qed

lemma first_fit_bytes:
  assumes "apart lo xs hi" "first_fit n xs = Some (b, ys)" "0 < n"
  shows "region b n \<union> bytes ys = bytes xs" "region b n \<inter> bytes ys = {}" "b mod 8 = 0" "lo \<le> b" "b + n \<le> hi"
proof -
  obtain us l vs where d: "xs = us @ (b, l) # vs" "n \<le> l" "ys = us @ (if l = n then vs else (b + n, l - n) # vs)"
    using first_fit_Some[OF assms(2)] by blast
  have e: "pre lo us" "ends lo us \<le> b" "apart (b + l + 8) vs hi" "b mod 8 = 0"
    using assms(1) by (auto simp: d(1) apart_split)
  then have "apart lo us b" using pre_apart[of lo us b] by simp
  then have s: "bytes us \<subseteq> {lo..<b}" "bytes vs \<subseteq> {b + l + 8..<hi}" using e(3) by (auto dest: bytes_apart)
  show "region b n \<union> bytes ys = bytes xs" using d(2) assms(3) by (auto simp: region_def d(1,3))
  show "region b n \<inter> bytes ys = {}"
  proof (rule equals0I)
    fix x assume "x \<in> region b n \<inter> bytes ys"
    then have "b \<le> x" "x < b + n" "x \<in> bytes us \<or> x \<in> bytes vs \<or> b + n \<le> x"
      by (auto simp: region_def d(3) split: if_splits)
    then show False using s d(2) by auto
  qed
  show "b mod 8 = 0" by (rule e)
  show "lo \<le> b" "b + n \<le> hi" using apart_append[OF assms(1)[unfolded d(1)]] d(2) by auto
qed

lemma last_fit_bytes:
  assumes "apart lo xs hi" "last_fit n xs = Some (b, ys)" "0 < n" "n mod 8 = 0"
  shows "region b n \<union> bytes ys = bytes xs" "region b n \<inter> bytes ys = {}" "b mod 8 = 0" "lo \<le> b" "b + n \<le> hi"
proof -
  obtain us a l vs where d: "xs = us @ (a, l) # vs" "n \<le> l" "b = a + l - n"
      "ys = us @ (if l = n then vs else (a, l - n) # vs)"
    using last_fit_Some[OF assms(2)] by blast
  have e: "pre lo us" "ends lo us \<le> a" "apart (a + l + 8) vs hi" "a mod 8 = 0" "l mod 8 = 0"
    using assms(1) by (auto simp: d(1) apart_split)
  then have "apart lo us a" using pre_apart[of lo us a] by simp
  then have s: "bytes us \<subseteq> {lo..<a}" "bytes vs \<subseteq> {a + l + 8..<hi}" using e(3) by (auto dest: bytes_apart)
  show "region b n \<union> bytes ys = bytes xs" using d(2) assms(3) by (auto simp: region_def d(1,3,4))
  show "region b n \<inter> bytes ys = {}"
  proof (rule equals0I)
    fix x assume "x \<in> region b n \<inter> bytes ys"
    then have "b \<le> x" "x < b + n" "x \<in> bytes us \<or> x \<in> bytes vs \<or> x < b"
      by (auto simp: region_def d(3,4) split: if_splits)
    then show False using s d(2,3) assms(3) by auto
  qed
  show "b mod 8 = 0" using e(4,5) assms(4) d(3) by presburger
  show "lo \<le> b" "b + n \<le> hi" using apart_append[OF assms(1)[unfolded d(1)]] d(2,3) by auto
qed

lemma bytes_join_next: "0 < m \<Longrightarrow> apart (a + m) vs hi \<Longrightarrow> bytes (join_next a m vs) = region a m \<union> bytes vs"
  by (auto simp: join_next_def region_def split: list.split)

lemma give_back_bytes:
  assumes ap: "apart lo xs hi" and n: "0 < n" "n mod 8 = 0" and b: "b mod 8 = 0" "b + n \<le> hi" "lo \<le> b"
  shows "case give_back b n xs of
      None \<Rightarrow> region b n \<inter> bytes xs \<noteq> {}
    | Some ys \<Rightarrow> region b n \<inter> bytes xs = {} \<and> bytes ys = bytes xs \<union> region b n"
proof -
  define us vs where "us = below b xs" and "vs = above b xs"
  have xs: "xs = us @ vs" using below_above(1)[of b xs] by (simp add: us_def vs_def)
  have ub: "\<forall>(a, l)\<in>set us. a < b" and va: "vs \<noteq> [] \<Longrightarrow> b \<le> fst (hd vs)"
    using below_above(2,3)[of b xs] by (simp_all add: us_def vs_def)
  have r: "pre lo us" "apart (ends lo us) vs hi" using ap by (simp_all add: xs apart_split)
  have v_over: "region b n \<inter> bytes vs \<noteq> {}" if "vs \<noteq> []" "b + n > fst (hd vs)"
  proof -
    obtain c m vs' where v: "vs = (c, m) # vs'" using \<open>vs \<noteq> []\<close> by (cases vs) auto
    have "c \<in> region b n \<inter> bytes vs" using v va r(2) that by (auto simp: region_def)
    then show ?thesis by blast
  qed
  have v_ok: "apart (b + n) vs hi \<and> region b n \<inter> bytes vs = {}" if "vs = [] \<or> b + n \<le> fst (hd vs)"
  proof -
    have "apart (b + n) vs hi" using that r(2) b(2) by (cases vs) auto
    then show ?thesis using bytes_apart[of "b + n" vs hi] by (auto simp: region_def)
  qed
  have G: "give_back b n xs =
    (if us \<noteq> [] \<and> b < top_of us \<or> vs \<noteq> [] \<and> b + n > fst (hd vs) then None
     else if us \<noteq> [] \<and> b = top_of us
     then Some (butlast us @ join_next (fst (last us)) (snd (last us) + n) vs)
     else Some (us @ join_next b n vs))"
    by (simp add: give_back_def Let_def us_def[symmetric] vs_def[symmetric])
  show ?thesis
  proof (cases us rule: rev_cases)
    case Nil
    then have "bytes xs = bytes vs" by (simp add: xs)
    then show ?thesis
      using Nil v_over v_ok bytes_join_next[OF n(1), of b vs hi] G by auto
  next
    case (snoc us' x)
    obtain a l where x: "x = (a, l)" by (cases x)
    have al: "0 < l" "ends lo us' \<le> a" "pre lo us'" "a < b" "a mod 8 = 0" "l mod 8 = 0"
      using r(1) ub snoc x by (auto simp: pre_append)
    have "apart lo us' a" using al pre_apart[of lo us' a] by simp
    then have u': "bytes us' \<subseteq> {lo..<a}" by (rule bytes_apart)
    have t: "us \<noteq> []" "top_of us = a + l" "butlast us = us'" "last us = (a, l)"
      using snoc x by (auto simp: top_of_def)
    have bx: "bytes xs = bytes us' \<union> {a..<a + l} \<union> bytes vs" by (simp add: xs snoc x Un_assoc)
    show ?thesis
    proof (cases "b < a + l")
      case True
      then have "b \<in> region b n \<inter> bytes xs" using bx al n by (auto simp: region_def)
      then show ?thesis using True t by (auto simp: G Un_assoc)
    next
      case False
      have dis: "region b n \<inter> (bytes us' \<union> {a..<a + l}) = {}" using u' False al by (auto simp: region_def)
      show ?thesis
      proof (cases "vs = [] \<or> b + n \<le> fst (hd vs)")
        case ok: True
        note V = v_ok[OF ok]
        show ?thesis
        proof (cases "b = a + l")
          case True
          have "bytes (join_next a (l + n) vs) = region a (l + n) \<union> bytes vs"
            using V True al n by (intro bytes_join_next[of _ _ _ hi]) (auto simp: add.assoc)
          moreover have "region a (l + n) = {a..<a + l} \<union> region b n"
            using True al n by (auto simp: region_def)
          moreover have "give_back b n xs = Some (us' @ join_next a (l + n) vs)"
            unfolding G using True ok t by auto
          ultimately show ?thesis using V dis bx by (simp add: Un_ac Int_Un_distrib)
        next
          case neq: False
          have "bytes (join_next b n vs) = region b n \<union> bytes vs"
            using V by (intro bytes_join_next[OF n(1)]) auto
          then show ?thesis
            using neq False ok t V dis bx snoc x
            by (auto simp: G Un_assoc)
        qed
      next
        case no: False
        then have "region b n \<inter> bytes xs \<noteq> {}" using v_over bx by auto
        then show ?thesis
          using no False t by (auto simp: G Un_assoc)
      qed
    qed
  qed
qed

lemma roundmb_le:
  assumes "0 \<le> n" "n < 4294967288" "l mod 8 = 0" "n \<le> l"
  shows "roundmb n \<le> l"
  using roundmb_nat[OF assms(1,2)] assms(3,4) by presburger

section \<open>Properties\<close>

text \<open>C5: \<^verbatim>\<open>getmem\<close> either fails, leaving the heap as it is, and then no free block has the
  requested size; or it returns an aligned block inside the heap whose bytes were free, are no longer
  free, and are the only ones whose status has changed; the free list stays sorted and coalesced.\<close>

theorem getmem_correct:
  assumes "heap_rep h xs" "0 < n" "n < 4294967288"
  shows "heap_getmem n h = Some (u32 SYSERR, h) \<and> (\<forall>(a, l)\<in>set xs. l < n) \<or>
    (\<exists>b h' ys. heap_getmem n h = Some (b, h') \<and> heap_rep h' ys \<and> b mod 8 = 0 \<and>
      minheap h \<le> b \<and> b + roundmb n \<le> maxheap h \<and> n \<le> roundmb n \<and>
      region b (roundmb n) \<union> bytes ys = bytes xs \<and> region b (roundmb n) \<inter> bytes ys = {})"
proof (cases "first_fit (roundmb n) xs")
  case None
  have "l < n" if "(a, l) \<in> set xs" for a l
  proof -
    obtain us vs where "xs = us @ (a, l) # vs" using \<open>(a, l) \<in> set xs\<close> by (meson split_list)
    then have "l mod 8 = 0" using heap_repD(5) assms(1) by blast
    moreover have "l < roundmb n" using first_fit_None[OF None] that by auto
    ultimately show ?thesis using roundmb_le[of n l] assms(2,3) by linarith
  qed
  then show ?thesis using heap_getmem_eq[OF assms] None by auto
next
  case (Some r)
  obtain b ys where r: "r = (b, ys)" by (cases r)
  have ap: "apart (minheap h) xs (maxheap h)" using assms(1) by (simp add: heap_rep_def)
  have n: "0 < roundmb n" "n \<le> roundmb n" using roundmb_nat[of n] assms(2,3) by auto
  show ?thesis
    using heap_getmem_eq[OF assms] first_fit_bytes[OF ap Some[unfolded r] n(1)] n(2) Some r
    by fastforce
qed

text \<open>C6: \<^verbatim>\<open>freemem\<close> of an aligned block inside the heap gives back exactly the bytes of the block
  if none of them is free, and otherwise returns \<^verbatim>\<open>SYSERR\<close> with the heap as it was; the free list
  stays sorted and coalesced.\<close>

theorem freemem_correct:
  assumes "heap_rep h xs" "0 < n" "n < 4294967288" "b mod 8 = 0" "minheap h \<le> b" "b + roundmb n \<le> maxheap h"
  shows "if region b (roundmb n) \<inter> bytes xs = {}
    then \<exists>h' ys. heap_freemem b n h = Some (OK, h') \<and> heap_rep h' ys \<and>
      bytes ys = bytes xs \<union> region b (roundmb n)
    else heap_freemem b n h = Some (SYSERR, h)"
proof -
  have ap: "apart (minheap h) xs (maxheap h)" using assms(1) by (simp add: heap_rep_def)
  have n: "0 < roundmb n" "roundmb n mod 8 = 0" using roundmb_nat[of n] assms(2,3) by auto
  show ?thesis
    using heap_freemem_eq[OF assms(1-4,6)] give_back_bytes[OF ap n assms(4,6,5)] assms(5)
    by (cases "give_back b (roundmb n) xs") fastforce+
qed

lemma heap_rep_unique:
  "heap_rep h xs \<Longrightarrow> heap_rep h' ys \<Longrightarrow> bytes xs = bytes ys \<Longrightarrow> xs = ys"
  using apart_unique by (fastforce simp: heap_rep_def)

lemma freemem_restores:
  assumes rep: "heap_rep h1 ys" and b: "b mod 8 = 0" "minheap h1 \<le> b" "b + roundmb n \<le> maxheap h1"
    and n: "0 < n" "n < 4294967288" and rep0: "heap_rep h xs"
    and B: "region b (roundmb n) \<union> bytes ys = bytes xs" "region b (roundmb n) \<inter> bytes ys = {}"
  shows "\<exists>h2. heap_freemem b n h1 = Some (OK, h2) \<and> heap_rep h2 xs"
proof -
  have ap: "apart (minheap h1) ys (maxheap h1)" using rep by (simp add: heap_rep_def)
  have rn: "0 < roundmb n" "roundmb n mod 8 = 0" using roundmb_nat[of n] n by auto
  obtain h2 zs where "heap_freemem b n h1 = Some (OK, h2)" "heap_rep h2 zs"
    "bytes zs = bytes ys \<union> region b (roundmb n)"
    using heap_freemem_eq[OF rep n b(1,3)] give_back_bytes[OF ap rn b(1,3,2)] b(2) B(2)
    by (cases "give_back b (roundmb n) ys") fastforce+
  then show ?thesis using heap_rep_unique[OF _ rep0, of h2 zs] B(1) by (auto simp: Un_commute)
qed

text \<open>C24: Allocating with \<^verbatim>\<open>getmem\<close> and freeing the block again restores the free list exactly.\<close>

theorem getmem_freemem:
  assumes "heap_rep h xs" "0 < n" "n < 4294967288" "heap_getmem n h = Some (b, h1)" "b \<noteq> u32 SYSERR"
  shows "\<exists>h2. heap_freemem b n h1 = Some (OK, h2) \<and> heap_rep h2 xs"
proof -
  have ap: "apart (minheap h) xs (maxheap h)" using assms(1) by (simp add: heap_rep_def)
  have n: "0 < roundmb n" using roundmb_nat[of n] assms(2,3) by auto
  obtain ys where F: "first_fit (roundmb n) xs = Some (b, ys)"
    using heap_getmem_eq[OF assms(1-3)] assms(4,5) by (auto split: option.splits)
  then have h1: "heap_rep h1 ys" "minheap h1 = minheap h" "maxheap h1 = maxheap h"
    using heap_getmem_eq[OF assms(1-3)] assms(4) by auto
  note B = first_fit_bytes[OF ap F n]
  show ?thesis
    by (rule freemem_restores[OF h1(1) B(3) _ _ assms(2,3,1) B(1,2)]) (use B h1 in auto)
qed

text \<open>Allocating a stack with \<^verbatim>\<open>getstk\<close> and freeing it with \<^verbatim>\<open>freestk\<close> restores the free list
  exactly; the stack lies inside the heap, its highest word at the returned address.\<close>

theorem getstk_freestk:
  assumes "heap_rep h xs" "0 < n" "n < 4294967288" "heap_getstk n h = Some (p, h1)" "p \<noteq> u32 SYSERR"
  shows "\<exists>h2. heap_freestk p n h1 = Some (OK, h2) \<and> heap_rep h2 xs \<and>
    region (p + 4 - roundmb n) (roundmb n) \<subseteq> bytes xs \<and> p + 4 \<le> maxheap h"
proof -
  have ap: "apart (minheap h) xs (maxheap h)" using assms(1) by (simp add: heap_rep_def)
  note rn = roundmb_nat[of n] and U = heap_rep_u32[OF assms(1)]
  have n: "0 < roundmb n" "roundmb n mod 8 = 0" using rn assms(2,3) by auto
  obtain b ys where F: "last_fit (roundmb n) xs = Some (b, ys)" "p = b + roundmb n - 4"
    using heap_getstk_eq[OF assms(1-3)] assms(4,5) by (fastforce split: option.splits)
  then have h1: "heap_rep h1 ys" "minheap h1 = minheap h" "maxheap h1 = maxheap h"
    using heap_getstk_eq[OF assms(1-3)] assms(4) by auto
  note B = last_fit_bytes[OF ap F(1) n]
  have small: "roundmb n < 4294967280" using B(4,5) U by simp
  have "roundmb (roundmb n) = roundmb n" using n small by simp
  moreover have "p - roundmb n + 4 = b" "u32 b = b" using F(2) B(4,5) U n by simp_all
  ultimately have e: "heap_freestk p n h1 = heap_freemem b (roundmb n) h1" by (simp add: heap_freestk_def)
  have rr: "roundmb (roundmb n) = roundmb n" using n small by simp
  have "\<exists>h2. heap_freemem b (roundmb n) h1 = Some (OK, h2) \<and> heap_rep h2 xs"
    by (rule freemem_restores[OF h1(1) B(3) _ _ _ _ assms(1)]) (use B h1 n small rr in auto)
  moreover have "region (p + 4 - roundmb n) (roundmb n) \<subseteq> bytes xs" using B(1) F(2) by auto
  moreover have "p + 4 \<le> maxheap h" using F(2) B(5) by simp
  ultimately show ?thesis using e by auto
qed

text \<open>A request so large that rounding it up wraps around to zero is granted: \<^verbatim>\<open>getmem\<close> returns
  the address of the first free block and leaves the block on the free list, so the next caller
  gets the same storage.\<close>

theorem getmem_wraps:
  assumes "heap_rep h ((a, l) # xs)" "4294967289 \<le> n" "n < 4294967296"
  shows "\<exists>h'. heap_getmem n h = Some (a, h') \<and> heap_rep h' ((a, l) # xs)"
proof -
  have rep: "heap_rep h ([] @ (a, l) # xs)" using assms(1) by simp
  note D = heap_repD[OF rep] and U = heap_rep_u32[OF assms(1)]
  have r: "roundmb n = 0"
  proof -
    have "u32 (7 + n) = (7 + n - 4294967296) mod 4294967296" unfolding u32_def minus_mod_self2 ..
    also have "... = n - 4294967289" using assms(2,3) by simp
    finally have "u32 (7 + n) = n - 4294967289" .
    then show ?thesis using assms(2,3) by (simp add: roundmb_def Let_def)
  qed
  have e: "set_mlength (memlist_at h) (total ((a, l) # xs)) (set_mlength a l (set_mnext a (mem h a)
      (set_mnext (memlist_at h) a h))) = h"
    using D(1,2,14) U(7) by (cases h) (auto simp: set_mnext_def set_mlength_def fun_eq_iff)
  have u: "u32 a = a" "u32 l = l" "u32 (total ((a, l) # xs)) = total ((a, l) # xs)" "a \<noteq> 0" "memlist_at h \<noteq> a"
      "memlist_at h + 4 \<noteq> a" "a + 4 \<noteq> memlist_at h"
    using D(4,8,9,14) U by simp_all
  have "heap_getmem n h = Some (a, set_mlength (memlist_at h) (total ((a, l) # xs)) (set_mlength a l
      (set_mnext a (mem h a) (set_mnext (memlist_at h) a h))))"
    using assms(2) D(1,2,4) r u U(7)
    by (simp add: heap_getmem_def mnext_def getmem_loop.simps mlength_def Let_def)
  then show ?thesis using e assms(1) by auto
qed

end
