(* ===== verification/Kernel_Inv.thy ===== *)
theory Kernel_Inv
  imports Queue_Lists Sched Memory
begin

text \<open>
  The invariant of the kernel at the points where one process can take over from another, in
  layers: \<open>kbase\<close> relates the queues to the process states (processes in a set \<open>X\<close> are in
  transit and on no queue), \<open>ksems\<close> relates semaphore counts to queue lengths, \<open>kcur\<close> says that
  at most the current process has state \<^verbatim>\<open>PR_CURR\<close>. \<open>kok p Q t\<close> says that operation \<open>t\<close>, run by
  process \<open>p\<close>, never faults, hands over only states satisfying the invariant, can be resumed in
  any such state, and returns only with \<open>Q\<close>.
\<close>

section \<open>The invariant\<close>

definition where_q :: "kstate \<Rightarrow> int \<Rightarrow> int option" where
  "where_q s p = (case prstate (proctab s p) of
     PR_READY \<Rightarrow> Some (readylist s)
   | PR_SLEEP \<Rightarrow> Some (sleepq s)
   | PR_RECTIM \<Rightarrow> Some (sleepq s)
   | PR_WAIT \<Rightarrow> Some (squeue (semtab s (prsem (proctab s p))))
   | _ \<Rightarrow> None)"

definition qlayout :: "kstate \<Rightarrow> bool" where
  "qlayout s \<longleftrightarrow> readylist s = NPROC + 2 * NSEM \<and> sleepq s = NPROC + 2 * NSEM + 2 \<and>
     (\<forall>i. \<not> isbadsem i \<longrightarrow> squeue (semtab s i) = NPROC + 2 * i)"

definition kbase :: "int set \<Rightarrow> (int \<Rightarrow> int list) \<Rightarrow> kstate \<Rightarrow> bool" where
  "kbase X L s \<longleftrightarrow> qlayout s \<and> wfqs (queuetab s) L \<and>
     (\<forall>p\<in>procs. \<forall>q\<in>qids. p \<in> set (L q) \<longleftrightarrow> p \<notin> X \<and> where_q s p = Some q) \<and>
     (\<forall>p\<in>procs. prstate (proctab s p) = PR_WAIT \<longrightarrow> \<not> isbadsem (prsem (proctab s p))) \<and>
     (\<forall>p\<in>procs. - 32768 \<le> prprio (proctab s p) \<and> prprio (proctab s p) < 32768) \<and>
     sorted_wrt (\<lambda>a b. qkey (queuetab s b) \<le> qkey (queuetab s a)) (L (readylist s)) \<and>
     prstate (proctab s NULLPROC) \<in> {PR_READY, PR_CURR}"

definition ksem_at :: "(int \<Rightarrow> int list) \<Rightarrow> kstate \<Rightarrow> int \<Rightarrow> bool" where
  "ksem_at L s i \<longleftrightarrow> (case sstate (semtab s i) of
     S_FREE \<Rightarrow> L (squeue (semtab s i)) = []
   | S_USED \<Rightarrow> length (L (squeue (semtab s i))) = nat (- scount (semtab s i)) \<and>
       scount (semtab s i) < 2147483648)"

definition ksems :: "(int \<Rightarrow> int list) \<Rightarrow> kstate \<Rightarrow> bool" where
  "ksems L s \<longleftrightarrow> (\<forall>i. \<not> isbadsem i \<longrightarrow> ksem_at L s i)"

definition kcur :: "kstate \<Rightarrow> bool" where
  "kcur s \<longleftrightarrow> currpid s \<in> procs \<and> (\<forall>p\<in>procs. prstate (proctab s p) = PR_CURR \<longrightarrow> p = currpid s)"

text \<open>The stack recorded in a process table entry can be given back with \<^verbatim>\<open>freestk\<close>.\<close>

definition stk_ok :: "heap \<Rightarrow> procent \<Rightarrow> bool" where
  "stk_ok h e \<longleftrightarrow> prstklen e = 0 \<or>
     0 < prstklen e \<and> prstklen e < 4294967272 \<and> (prstkbase e + 4) mod 8 = 0 \<and>
     roundmb (prstklen e) \<le> prstkbase e + 4 \<and> prstkbase e + 4 \<le> maxheap h"

definition kranges :: "kstate \<Rightarrow> bool" where
  "kranges s \<longleftrightarrow> 0 \<le> nextsem s \<and> nextsem s < NSEM \<and> 0 \<le> nextpid s \<and> nextpid s \<le> NPROC \<and>
     heap_ok (hp s) \<and> (\<forall>p\<in>procs. stk_ok (hp s) (proctab s p))"

lemma stk_ok_prstate [simp]: "stk_ok h (e\<lparr>prstate := x\<rparr>) = stk_ok h e" "stk_ok h (e\<lparr>prsem := y\<rparr>) = stk_ok h e"
  "stk_ok h (e\<lparr>prmsg := z\<rparr>) = stk_ok h e" "stk_ok h (e\<lparr>prhasmsg := w\<rparr>) = stk_ok h e"
  "stk_ok h (e\<lparr>prprio := v\<rparr>) = stk_ok h e"
  by (simp_all add: stk_ok_def)

text \<open>
  \<open>kpre L s\<close>: everything but the current process having state \<^verbatim>\<open>PR_CURR\<close>, which holds again once
  \<^verbatim>\<open>resched\<close> has run.
\<close>

definition kpre :: "(int \<Rightarrow> int list) \<Rightarrow> kstate \<Rightarrow> bool" where
  "kpre L s \<longleftrightarrow> kbase {} L s \<and> ksems L s \<and> kcur s \<and> kranges s"

definition kinv :: "kstate \<Rightarrow> bool" where
  "kinv s \<longleftrightarrow> kpre (qcontents s) s \<and> prstate (proctab s (currpid s)) = PR_CURR \<and> ndefers s = 0"

abbreviation alive :: "int \<Rightarrow> kstate \<Rightarrow> bool" where
  "alive p s \<equiv> prstate (proctab s p) \<noteq> PR_FREE"

definition kok :: "int \<Rightarrow> ('a \<Rightarrow> kstate \<Rightarrow> bool) \<Rightarrow> (kstate, 'a) step \<Rightarrow> bool" where
  "kok p Q t \<longleftrightarrow> okk kinv (alive p) (\<lambda>s. kinv s \<and> currpid s = p) Q t"

text \<open>A call that keeps the invariant, whoever makes it, and comes back to its caller.\<close>

definition kcall :: "(kstate \<Rightarrow> (kstate, 'a) step) \<Rightarrow> kstate \<Rightarrow> bool" where
  "kcall f s \<longleftrightarrow> kok (currpid s) (\<lambda>_ s'. kinv s' \<and> currpid s' = currpid s) (f s)"

section \<open>Rules for \<open>kok\<close>\<close>

lemma kok_Return [simp]: "kok p Q (Return a s) = Q a s"
  by (simp add: kok_def)

lemma kok_Fault [simp]: "\<not> kok p Q Fault"
  by (simp add: kok_def)

lemma kok_Switch [simp]:
  "kok p Q (Switch s k) \<longleftrightarrow> kinv s \<and> (alive p s \<longrightarrow> (\<forall>s'. kinv s' \<longrightarrow> currpid s' = p \<longrightarrow> kok p Q (k s')))"
  by (auto simp: kok_def)

lemma kok_bindk [simp]: "kok p Q (bindk t f) = kok p (\<lambda>a s. kok p Q (f a s)) t"
  by (simp add: kok_def)

lemma kok_mono: "kok p Q t \<Longrightarrow> (\<And>a s. Q a s \<Longrightarrow> Q' a s) \<Longrightarrow> kok p Q' t"
  unfolding kok_def by (rule okk_mono)

section \<open>Reading the invariant\<close>

lemma kbaseD:
  assumes "kbase X L s"
  shows "qlayout s" "wfqs (queuetab s) L"
    "\<And>p q. p \<in> procs \<Longrightarrow> q \<in> qids \<Longrightarrow> p \<in> set (L q) \<longleftrightarrow> p \<notin> X \<and> where_q s p = Some q"
    "\<And>p. p \<in> procs \<Longrightarrow> prstate (proctab s p) = PR_WAIT \<Longrightarrow> \<not> isbadsem (prsem (proctab s p))"
    "\<And>p. p \<in> procs \<Longrightarrow> - 32768 \<le> prprio (proctab s p)"
    "\<And>p. p \<in> procs \<Longrightarrow> prprio (proctab s p) < 32768"
    "sorted_wrt (\<lambda>a b. qkey (queuetab s b) \<le> qkey (queuetab s a)) (L (readylist s))"
    "prstate (proctab s NULLPROC) \<in> {PR_READY, PR_CURR}"
  using assms unfolding kbase_def by blast+

lemma qlayoutD:
  assumes "qlayout s"
  shows "readylist s = 300" "sleepq s = 302" "\<not> isbadsem i \<Longrightarrow> squeue (semtab s i) = 100 + 2 * i"
  using assms by (auto simp: qlayout_def)

lemma qids_300 [simp]: "300 \<in> qids" "302 \<in> qids"
  by (auto simp: in_qids)

lemma sem_qids: "\<not> isbadsem i \<Longrightarrow> 100 + 2 * i \<in> qids"
  by (auto simp: in_qids isbadsem_def)

lemma isbadpid_iff: "isbadpid s p \<longleftrightarrow> p \<notin> procs \<or> prstate (proctab s p) = PR_FREE"
  by (auto simp: isbadpid_def)

lemma wfqs_qcontents: "wfqs (queuetab s) L \<Longrightarrow> q \<in> qids \<Longrightarrow> qcontents s q = L q"
  by (rule qcontents_eq) (rule wfqs_wfq)

lemma kbase_cong:
  assumes "\<And>q. q \<in> qids \<Longrightarrow> L' q = L q"
  shows "kbase X L' s = kbase X L s"
proof -
  have "wfqs (queuetab s) L' = wfqs (queuetab s) L"
    using assms by (auto simp: wfqs_def)
  moreover have "qlayout s \<Longrightarrow> L' (readylist s) = L (readylist s)"
    using assms[of 300] by (simp add: qlayoutD)
  ultimately show ?thesis using assms unfolding kbase_def by auto
qed

lemma ksems_cong:
  assumes "qlayout s" "\<And>q. q \<in> qids \<Longrightarrow> L' q = L q"
  shows "ksems L' s = ksems L s"
  using assms(2)[OF sem_qids] qlayoutD(3)[OF assms(1)] by (auto simp: ksems_def ksem_at_def split: semstate.split)

lemma kpre_qcontents: "kpre L s \<Longrightarrow> kpre (qcontents s) s"
  using kbase_cong[of "qcontents s" L "{}" s] ksems_cong[of s "qcontents s" L]
    wfqs_qcontents[OF kbaseD(2), of "{}" L s] kbaseD(1)[of "{}" L s]
  by (auto simp: kpre_def)

lemma kinvI:
  "kpre L s \<Longrightarrow> prstate (proctab s (currpid s)) = PR_CURR \<Longrightarrow> ndefers s = 0 \<Longrightarrow> kinv s"
  by (simp add: kinv_def kpre_qcontents)

lemma kinvE:
  assumes "kinv s"
  obtains L where "kbase {} L s" "ksems L s" "kcur s" "kranges s"
    "prstate (proctab s (currpid s)) = PR_CURR" "ndefers s = 0" "L = qcontents s"
  using assms by (auto simp: kinv_def kpre_def)

section \<open>The invariant under updates\<close>

lemma set_prstate_fields [simp]:
  "queuetab (set_prstate p st s) = queuetab s" "semtab (set_prstate p st s) = semtab s"
  "readylist (set_prstate p st s) = readylist s" "sleepq (set_prstate p st s) = sleepq s"
  "currpid (set_prstate p st s) = currpid s" "ndefers (set_prstate p st s) = ndefers s"
  "nextsem (set_prstate p st s) = nextsem s" "hp (set_prstate p st s) = hp s" "nextpid (set_prstate p st s) = nextpid s"
  "attempt (set_prstate p st s) = attempt s"
  "proctab (set_prstate p st s) = (proctab s)(p := (proctab s p)\<lparr>prstate := st\<rparr>)"
  by (simp_all add: set_prstate_def upp_def)

lemma upp_fields [simp]:
  "queuetab (upp p f s) = queuetab s" "semtab (upp p f s) = semtab s"
  "readylist (upp p f s) = readylist s" "sleepq (upp p f s) = sleepq s"
  "currpid (upp p f s) = currpid s" "ndefers (upp p f s) = ndefers s"
  "nextsem (upp p f s) = nextsem s" "hp (upp p f s) = hp s" "nextpid (upp p f s) = nextpid s"
  "attempt (upp p f s) = attempt s"
  "proctab (upp p f s) = (proctab s)(p := f (proctab s p))"
  by (simp_all add: upp_def)

lemma upsem_fields [simp]:
  "queuetab (upsem p f s) = queuetab s" "proctab (upsem p f s) = proctab s"
  "readylist (upsem p f s) = readylist s" "sleepq (upsem p f s) = sleepq s"
  "currpid (upsem p f s) = currpid s" "ndefers (upsem p f s) = ndefers s"
  "nextsem (upsem p f s) = nextsem s" "hp (upsem p f s) = hp s" "nextpid (upsem p f s) = nextpid s"
  "attempt (upsem p f s) = attempt s" "clktime (upsem p f s) = clktime s"
  "count1000 (upsem p f s) = count1000 s" "preempt (upsem p f s) = preempt s"
  "semtab (upsem p f s) = (semtab s)(p := f (semtab s p))"
  by (simp_all add: upsem_def)

lemma where_q_cong:
  assumes "prstate (proctab s' r) = prstate (proctab s r)" "prsem (proctab s' r) = prsem (proctab s r)"
    "squeue (semtab s' (prsem (proctab s r))) = squeue (semtab s (prsem (proctab s r)))"
    "readylist s' = readylist s" "sleepq s' = sleepq s"
  shows "where_q s' r = where_q s r"
  using assms by (simp add: where_q_def split: pstate.split)

lemma where_q_other [simp]: "r \<noteq> p \<Longrightarrow> where_q (set_prstate p st s) r = where_q s r"
  by (rule where_q_cong) simp_all

text \<open>The invariant only reads the queues, the process table, the semaphores and the two list heads.\<close>

lemma kbase_fields:
  assumes "queuetab s' = queuetab s" "proctab s' = proctab s" "semtab s' = semtab s"
    "readylist s' = readylist s" "sleepq s' = sleepq s"
  shows "kbase X L s' = kbase X L s"
proof -
  have "where_q s' r = where_q s r" for r using assms by (intro where_q_cong) simp_all
  then show ?thesis using assms by (simp add: kbase_def qlayout_def)
qed

lemma ksems_fields: assumes "semtab s' = semtab s" shows "ksems L s' = ksems L s"
  unfolding ksems_def ksem_at_def assms ..

text \<open>A process that is on no queue may change its state, and is then in transit.\<close>

lemma kbase_upp_transit:
  assumes kb: "kbase X L s" and p: "p \<in> procs" and off: "p \<in> X \<or> where_q s p = None"
    and null: "p = 0 \<Longrightarrow> prstate (f (proctab s p)) \<in> {PR_READY, PR_CURR}"
    and wait: "prstate (f (proctab s p)) = PR_WAIT \<Longrightarrow> \<not> isbadsem (prsem (f (proctab s p)))"
    and prio: "- 32768 \<le> prprio (f (proctab s p))" "prprio (f (proctab s p)) < 32768"
  shows "kbase (X \<union> {p}) L (upp p f s)"
proof -
  have w: "where_q (upp p f s) r = where_q s r" if "r \<noteq> p" for r
    using that by (intro where_q_cong) simp_all
  have "r \<in> set (L q) \<longleftrightarrow> r \<notin> X \<union> {p} \<and> where_q (upp p f s) r = Some q"
    if "r \<in> procs" "q \<in> qids" for r q
    using kbaseD(3)[OF kb that] off w[of r] by (cases "r = p") auto
  then show ?thesis
    using kbaseD(1,2,4-8)[OF kb] p null wait prio unfolding kbase_def qlayout_def by auto
qed

lemma kbase_set_prstate:
  assumes kb: "kbase X L s" and p: "p \<in> procs" and off: "p \<in> X \<or> where_q s p = None"
    and null: "p = 0 \<Longrightarrow> st \<in> {PR_READY, PR_CURR}"
    and wait: "st = PR_WAIT \<Longrightarrow> \<not> isbadsem (prsem (proctab s p))"
  shows "kbase (X \<union> {p}) L (set_prstate p st s)"
  unfolding set_prstate_def
  by (rule kbase_upp_transit[OF kb p off]) (use null wait kbaseD(5,6)[OF kb p] in auto)

lemma kbase_upsem:
  assumes f: "\<And>e. squeue (f e) = squeue e"
  shows "kbase X L (upsem i f s) = kbase X L s"
proof -
  have "where_q (upsem i f s) r = where_q s r" for r by (intro where_q_cong) (simp_all add: f)
  moreover have "qlayout (upsem i f s) = qlayout s" by (auto simp: qlayout_def f)
  ultimately show ?thesis by (simp add: kbase_def)
qed

text \<open>A process in transit whose state asks for no queue has arrived.\<close>

lemma kbase_arrive:
  assumes kb: "kbase X L s" and X: "\<And>p. p \<in> X \<Longrightarrow> p \<in> procs \<Longrightarrow> where_q s p = None \<or> p \<in> Y"
    and Y: "Y \<subseteq> X"
  shows "kbase Y L s"
proof -
  have "p \<in> set (L q) \<longleftrightarrow> p \<notin> Y \<and> where_q s p = Some q" if "p \<in> procs" "q \<in> qids" for p q
    using kbaseD(3)[OF kb that] X[of p] Y that(1) by (cases "p \<in> X") auto
  then show ?thesis using kbaseD(1,2,4-8)[OF kb] unfolding kbase_def by auto
qed

lemma sorted_ins_desc:
  assumes "sorted_wrt (\<lambda>a b. K b \<le> K a) xs" "p \<notin> set xs"
  shows "sorted_wrt (\<lambda>a b. (if b = p then key else K b) \<le> (if a = p then key else (K a::int)))
    (ins_desc K key p xs)"
  using assms
proof (induction xs)
  case Nil
  then show ?case by (simp add: ins_desc_def)
next
  case (Cons x xs)
  show ?case
  proof (cases "key \<le> K x")
    case True
    then have "ins_desc K key p (x # xs) = x # ins_desc K key p xs" by (simp add: ins_desc_def)
    then show ?thesis using Cons True by auto
  next
    case False
    then have "ins_desc K key p (x # xs) = p # x # xs" by (simp add: ins_desc_def)
    moreover have "sorted_wrt (\<lambda>a b. (if b = p then key else K b) \<le> (if a = p then key else K a)) xs"
      by (rule sorted_wrt_mono_rel[of xs "\<lambda>a b. K b \<le> K a"]) (use Cons.prems in auto)
    ultimately show ?thesis using Cons.prems False by fastforce
  qed
qed

lemma kbase_insert_ready:
  assumes kb: "kbase (X \<union> {p}) L s" and p: "\<not> isbadpid s p" and st: "prstate (proctab s p) = PR_READY"
    and X: "p \<notin> X"
  shows "\<exists>Q'. insert_q p (readylist s) (prprio (proctab s p)) s = Some (OK, s\<lparr>queuetab := Q'\<rparr>) \<and>
    kbase X (L(300 := ins_desc (\<lambda>i. qkey (queuetab s i)) (prprio (proctab s p)) p (L 300))) (s\<lparr>queuetab := Q'\<rparr>) \<and>
    (\<forall>i. qkey (Q' i) = (if i = p then prprio (proctab s p) else qkey (queuetab s i)))"
proof -
  let ?k = "prprio (proctab s p)" and ?K = "\<lambda>i. qkey (queuetab s i)"
  let ?L = "L(300 := ins_desc ?K ?k p (L 300))"
  note k = kbaseD[OF kb] and ly = qlayoutD[OF kbaseD(1)[OF kb]]
  have pp: "p \<in> procs" using p by (simp add: isbadpid_iff)
  have fresh: "p \<notin> set (L r)" if "r \<in> qids" for r using k(3)[OF pp that] by simp
  obtain Q' where Q': "insert_q p 300 ?k s = Some (OK, s\<lparr>queuetab := Q'\<rparr>)" "wfqs Q' ?L"
      "\<And>i. qkey (Q' i) = (if i = p then ?k else ?K i)"
    using insert_spec[OF k(2) qids_300(1) p fresh, of ?k] k(5)[OF pp] by auto
  have wq: "where_q (s\<lparr>queuetab := Q'\<rparr>) r = where_q s r" for r by (intro where_q_cong) simp_all
  have mem: "r \<in> set (?L q) \<longleftrightarrow> r \<notin> X \<and> where_q s r = Some q" if "r \<in> procs" "q \<in> qids" for r q
    using k(3)[OF that] X st ly(1) by (auto simp: where_q_def)
  have "kbase X ?L (s\<lparr>queuetab := Q'\<rparr>)"
    unfolding kbase_def
  proof (intro conjI)
    show "sorted_wrt (\<lambda>a b. qkey (queuetab (s\<lparr>queuetab := Q'\<rparr>) b) \<le> qkey (queuetab (s\<lparr>queuetab := Q'\<rparr>) a))
        (?L (readylist (s\<lparr>queuetab := Q'\<rparr>)))"
      using sorted_ins_desc[of ?K "L 300" p ?k] k(7) fresh[of 300] ly(1) by (simp add: Q'(3))
  qed (use k(1,4,5,6,8) Q'(2) mem wq in \<open>simp_all add: qlayout_def\<close>)
  then show ?thesis using Q' ly(1) by auto
qed

lemma kbase_enqueue:
  assumes kb: "kbase (X \<union> {p}) L s" and p: "\<not> isbadpid s p" and X: "p \<notin> X"
    and q: "q \<in> qids" "q \<noteq> 300" and w: "where_q s p = Some q"
  shows "\<exists>Q'. enqueue p q s = Some (p, s\<lparr>queuetab := Q'\<rparr>) \<and>
    kbase X (L(q := L q @ [p])) (s\<lparr>queuetab := Q'\<rparr>)"
proof -
  note k = kbaseD[OF kb] and ly = qlayoutD[OF kbaseD(1)[OF kb]]
  have pp: "p \<in> procs" using p by (simp add: isbadpid_iff)
  have fresh: "p \<notin> set (L r)" if "r \<in> qids" for r using k(3)[OF pp that] by simp
  obtain Q' where Q': "enqueue p q s = Some (p, s\<lparr>queuetab := Q'\<rparr>)" "wfqs Q' (L(q := L q @ [p]))"
      "\<And>i. qkey (Q' i) = qkey (queuetab s i)"
    using enqueue_spec[OF k(2) q(1) p fresh] by auto
  have wq: "where_q (s\<lparr>queuetab := Q'\<rparr>) r = where_q s r" for r by (intro where_q_cong) simp_all
  have mem: "r \<in> set ((L(q := L q @ [p])) q') \<longleftrightarrow> r \<notin> X \<and> where_q s r = Some q'"
    if "r \<in> procs" "q' \<in> qids" for r q'
    using k(3)[OF that] X w by auto
  have "kbase X (L(q := L q @ [p])) (s\<lparr>queuetab := Q'\<rparr>)"
    unfolding kbase_def
  proof (intro conjI)
    show "sorted_wrt (\<lambda>a b. qkey (queuetab (s\<lparr>queuetab := Q'\<rparr>) b) \<le> qkey (queuetab (s\<lparr>queuetab := Q'\<rparr>) a))
        ((L(q := L q @ [p])) (readylist (s\<lparr>queuetab := Q'\<rparr>)))"
      using k(7) ly(1) q(2) by (simp add: Q'(3))
  qed (use k(1,4,5,6,8) Q'(2) mem wq in \<open>simp_all add: qlayout_def\<close>)
  then show ?thesis using Q'(1) by auto
qed

lemma kbase_remove:
  assumes kb: "kbase X L s" and q: "q \<in> qids" and split: "L q = us @ p # vs"
    and wf: "wfqs Q' (L(q := us @ vs))" and K: "\<And>i. qkey (Q' i) = qkey (queuetab s i)"
  shows "kbase (X \<union> {p}) (L(q := us @ vs)) (s\<lparr>queuetab := Q'\<rparr>)"
proof -
  note k = kbaseD[OF kb]
  have d: "distinct (us @ p # vs)" using wfqD(4)[OF wfqs_wfq[OF k(2) q]] split by simp
  have wq: "where_q (s\<lparr>queuetab := Q'\<rparr>) r = where_q s r" for r by (intro where_q_cong) simp_all
  have "r \<in> set ((L(q := us @ vs)) q') \<longleftrightarrow> r \<notin> X \<union> {p} \<and> where_q s r = Some q'"
    if "r \<in> procs" "q' \<in> qids" for r q'
    using k(3)[OF that] d split wfqs_disjoint[OF k(2) q that(2), of p]
    by (cases "q' = q"; cases "r = p") auto
  then have mem: "\<forall>r\<in>procs. \<forall>q'\<in>qids. r \<in> set ((L(q := us @ vs)) q') \<longleftrightarrow>
      r \<notin> X \<union> {p} \<and> where_q (s\<lparr>queuetab := Q'\<rparr>) r = Some q'"
    by (simp add: wq)
  have "sorted_wrt (\<lambda>a b. qkey (queuetab s b) \<le> qkey (queuetab s a)) ((L(q := us @ vs)) (readylist s))"
    using k(7) split by (auto simp: sorted_wrt_append)
  then have srt: "sorted_wrt (\<lambda>a b. qkey (queuetab (s\<lparr>queuetab := Q'\<rparr>) b) \<le> qkey (queuetab (s\<lparr>queuetab := Q'\<rparr>) a))
      ((L(q := us @ vs)) (readylist (s\<lparr>queuetab := Q'\<rparr>)))"
    by (simp add: K)
  show ?thesis
    unfolding kbase_def
    by (intro conjI; (rule mem srt)?) (use k(1,4,5,6,8) wf in \<open>simp_all add: qlayout_def\<close>)
qed

lemma ksems_other:
  "qlayout s \<Longrightarrow> ksems (L(300 := xs)) s = ksems L s" "qlayout s \<Longrightarrow> ksems (L(302 := xs)) s = ksems L s"
  unfolding ksems_def ksem_at_def by (auto simp: qlayout_def isbadsem_def split: semstate.split)

lemma ksems_agree:
  assumes ly: "qlayout s" and L: "\<And>r. r \<noteq> 300 \<Longrightarrow> r \<noteq> 302 \<Longrightarrow> L' r = L r"
  shows "ksems L' s = ksems L s"
proof -
  have "L' (squeue (semtab s i)) = L (squeue (semtab s i))" if "\<not> isbadsem i" for i
    using ly that by (intro L) (auto simp: qlayout_def isbadsem_def)
  then show ?thesis unfolding ksems_def ksem_at_def by (auto split: semstate.split)
qed

section \<open>Rescheduling\<close>

lemma null_ready:
  assumes kb: "kbase {} L s" and nocur: "\<And>p. p \<in> procs \<Longrightarrow> prstate (proctab s p) \<noteq> PR_CURR"
  shows "0 \<in> set (L 300)"
proof -
  have "prstate (proctab s 0) = PR_READY" using kbaseD(8)[OF kb] nocur[of 0] by simp
  then have "where_q s 0 = Some 300" using qlayoutD(1)[OF kbaseD(1)[OF kb]] by (simp add: where_q_def)
  then show ?thesis using kbaseD(3)[OF kb, of 0 300] by simp
qed

definition switched :: "int \<Rightarrow> (int \<Rightarrow> qentry) \<Rightarrow> kstate \<Rightarrow> kstate" where
  "switched n Q s = (set_prstate n PR_CURR (s\<lparr>queuetab := Q, currpid := n\<rparr>))\<lparr>preempt := QUANTUM\<rparr>"

lemma switched_fields [simp]:
  "queuetab (switched n Q s) = Q" "semtab (switched n Q s) = semtab s"
  "readylist (switched n Q s) = readylist s" "sleepq (switched n Q s) = sleepq s"
  "currpid (switched n Q s) = n" "ndefers (switched n Q s) = ndefers s"
  "nextsem (switched n Q s) = nextsem s" "hp (switched n Q s) = hp s" "nextpid (switched n Q s) = nextpid s"
  "proctab (switched n Q s) = (proctab s)(n := (proctab s n)\<lparr>prstate := PR_CURR\<rparr>)"
  by (simp_all add: switched_def)

text \<open>
  A forced switch goes to the head of the ready list, which exists because the null process is
  ready when nobody is current.
\<close>

lemma resched_force_eq:
  assumes kb: "kbase {} L s" and sems: "ksems L s" and rg: "kranges s" and nd: "ndefers s = 0"
    and nocur: "\<And>p. p \<in> procs \<Longrightarrow> prstate (proctab s p) \<noteq> PR_CURR"
  obtains n rest Q' k where "L 300 = n # rest"
    "resched_force s = Switch (switched n Q' s) k" "\<And>t. k t = Return () t" "kinv (switched n Q' s)"
    "kbase {} (L(300 := rest)) (switched n Q' s)" "\<And>i. qkey (Q' i) = qkey (queuetab s i)"
proof -
  note ly = qlayoutD[OF kbaseD(1)[OF kb]]
  obtain n rest where L: "L 300 = n # rest"
    using null_ready[OF kb nocur] by (cases "L 300") auto
  have n: "n \<in> procs" using wfqs_procs[OF kbaseD(2)[OF kb] qids_300(1)] L by simp
  obtain Q' where Q': "dequeue 300 s = Some (n, s\<lparr>queuetab := Q'\<rparr>)" "wfqs Q' (L(300 := rest))"
      "\<And>i. qkey (Q' i) = qkey (queuetab s i)"
    using dequeue_spec[OF kbaseD(2)[OF kb] qids_300(1) L] by auto
  let ?s1 = "s\<lparr>queuetab := Q'\<rparr>"
  have "kbase {n} (L(300 := rest)) ?s1"
    using kbase_remove[OF kb qids_300(1), of "[]" n rest Q'] L Q' by simp
  from kbase_set_prstate[OF this n, of PR_CURR]
  have "kbase {n} (L(300 := rest)) (set_prstate n PR_CURR ?s1)" by simp
  then have "kbase {n} (L(300 := rest)) (switched n Q' s)"
    by (subst kbase_fields[where s = "set_prstate n PR_CURR ?s1"]) simp_all
  then have kb': "kbase {} (L(300 := rest)) (switched n Q' s)"
    by (rule kbase_arrive) (auto simp: where_q_def)
  have "ksems (L(300 := rest)) (switched n Q' s)"
    using sems ksems_other(1)[OF kbaseD(1)[OF kb]] by (simp add: ksems_fields[of "switched n Q' s" s])
  moreover have "kcur (switched n Q' s)" using n nocur by (auto simp: kcur_def)
  moreover have "kranges (switched n Q' s)" using rg by (simp add: kranges_def)
  ultimately have "kinv (switched n Q' s)"
    using kb' nd by (intro kinvI[of "L(300 := rest)"]) (simp_all add: kpre_def)
  moreover have "resched_force s = Switch (switched n Q' s) (\<lambda>s'. Return () s')"
    using Q'(1) n ly(1) by (simp add: resched_force_def Let_def switched_def set_prstate_def upp_def)
  ultimately show ?thesis using that L kb' Q'(3) by blast
qed

text \<open>
  What \<^verbatim>\<open>resched\<close> decides: the current process, if it is still eligible, takes its place on the
  ready list, behind the processes of at least its priority, and the head of that list gets the
  processor.
\<close>

definition contenders :: "(int \<Rightarrow> int list) \<Rightarrow> kstate \<Rightarrow> int list" where
  "contenders L s =
    (if prstate (proctab s (currpid s)) = PR_CURR
     then ins_desc (\<lambda>i. qkey (queuetab s i)) (prprio (proctab s (currpid s))) (currpid s) (L 300)
     else L 300)"

definition unseated :: "kstate \<Rightarrow> kstate" where
  "unseated s = (if prstate (proctab s (currpid s)) = PR_CURR then set_prstate (currpid s) PR_READY s else s)"

lemma ins_desc_hd: "xs \<noteq> [] \<Longrightarrow> key \<le> K (hd xs) \<Longrightarrow> hd (ins_desc K key p xs) = hd xs"
  by (cases xs) (auto simp: ins_desc_def)

lemma ins_desc_first: "xs = [] \<or> K (hd xs) < key \<Longrightarrow> ins_desc K key p xs = p # xs"
  by (cases xs) (auto simp: ins_desc_def)

lemma qcontents_kbase: "kbase X L s \<Longrightarrow> q \<in> qids \<Longrightarrow> qcontents s q = L q"
  by (rule qcontents_eq) (rule wfqs_wfq[OF kbaseD(2)])

definition handed_over :: "(int \<Rightarrow> int list) \<Rightarrow> kstate \<Rightarrow> kstate \<Rightarrow> bool" where
  "handed_over L s s' \<longleftrightarrow> kinv s' \<and>
     s' = switched (hd (contenders L s)) (queuetab s') (unseated s) \<and>
     (\<forall>i. qkey (queuetab s' i) = (if i = currpid s \<and> prstate (proctab s i) = PR_CURR
        then prprio (proctab s i) else qkey (queuetab s i))) \<and>
     (\<forall>q\<in>qids. qcontents s' q = (L(300 := tl (contenders L s))) q)"

lemma resched_eq:
  assumes pre: "kpre L s" and nd: "ndefers s = 0"
  shows "contenders L s \<noteq> [] \<and>
    (if hd (contenders L s) = currpid s \<and> prstate (proctab s (currpid s)) = PR_CURR
     then resched s = Return () s
     else \<exists>s' k. resched s = Switch s' k \<and> (\<forall>t. k t = Return () t) \<and> handed_over L s s')"
proof -
  have kb: "kbase {} L s" and sems: "ksems L s" and cur: "kcur s" and rg: "kranges s"
    using pre by (auto simp: kpre_def)
  note ly = qlayoutD[OF kbaseD(1)[OF kb]]
  let ?o = "currpid s" and ?K = "\<lambda>i. qkey (queuetab s i)"
  have o: "?o \<in> procs" using cur by (simp add: kcur_def)
  show ?thesis
  proof (cases "prstate (proctab s ?o) = PR_CURR")
    case False
    then have nocur: "prstate (proctab s p) \<noteq> PR_CURR" if "p \<in> procs" for p
      using cur that by (auto simp: kcur_def)
    obtain n rest Q' k where F: "L 300 = n # rest" "resched_force s = Switch (switched n Q' s) k"
      "\<And>t. k t = Return () t" "kinv (switched n Q' s)" "kbase {} (L(300 := rest)) (switched n Q' s)" "\<And>i. qkey (Q' i) = ?K i"
      using resched_force_eq[OF kb sems rg nd nocur] by blast
    have "handed_over L s (switched n Q' s)"
      using False F(1,4,6) qcontents_kbase[OF F(5)] by (simp add: handed_over_def contenders_def unseated_def)
    moreover have "resched s = resched_force s" using False nd by (simp add: resched_def)
    ultimately show ?thesis using False F(1-3) by (auto simp: contenders_def)
  next
    case True
    have key: "firstkey 300 s = Some (case L 300 of [] \<Rightarrow> MINKEY | p # _ \<Rightarrow> ?K p)" (is "_ = Some ?key")
      by (rule firstkey_spec[OF kbaseD(2)[OF kb] qids_300(1)])
    show ?thesis
    proof (cases "prprio (proctab s ?o) > ?key")
      case True
      then have "contenders L s = ?o # L 300"
        using ins_desc_first[of "L 300" ?K] \<open>prstate (proctab s ?o) = PR_CURR\<close>
        by (auto simp: contenders_def split: list.splits)
      then show ?thesis
        using True key nd ly(1) \<open>prstate (proctab s ?o) = PR_CURR\<close> by (simp add: resched_def Let_def)
    next
      case False
      let ?s1 = "set_prstate ?o PR_READY s"
      have "kbase ({} \<union> {?o}) L ?s1"
        using True by (intro kbase_set_prstate[OF kb o]) (auto simp: where_q_def)
      moreover have "\<not> isbadpid ?s1 ?o" using o by (simp add: isbadpid_def)
      ultimately obtain Q' where Q': "insert_q ?o (readylist ?s1) (prprio (proctab ?s1 ?o)) ?s1 = Some (OK, ?s1\<lparr>queuetab := Q'\<rparr>)"
         and kb2: "kbase {} (L(300 := ins_desc (\<lambda>i. qkey (queuetab ?s1 i)) (prprio (proctab ?s1 ?o)) ?o (L 300))) (?s1\<lparr>queuetab := Q'\<rparr>)"
           (is "kbase {} ?L ?s2")
         and K: "\<And>i. qkey (Q' i) = (if i = ?o then prprio (proctab s ?o) else ?K i)"
        using kbase_insert_ready[of "{}" ?o L ?s1] by auto
      have con: "?L 300 = contenders L s" using True by (simp add: contenders_def)
      have sr: "ksems ?L ?s2" "kranges ?s2" "ndefers ?s2 = 0"
        using sems ksems_other(1)[OF kbaseD(1)[OF kb]] rg nd
        by (simp_all add: ksems_fields[of ?s2 s] kranges_def)
      have nc: "prstate (proctab ?s2 p) \<noteq> PR_CURR" if "p \<in> procs" for p
        using cur that by (auto simp: kcur_def)
      obtain n rest Q2 k where F: "?L 300 = n # rest"
        "resched_force ?s2 = Switch (switched n Q2 ?s2) k" "\<And>t. k t = Return () t"
        "kinv (switched n Q2 ?s2)" "kbase {} (?L(300 := rest)) (switched n Q2 ?s2)" "\<And>i. qkey (Q2 i) = qkey (Q' i)"
        by (rule resched_force_eq[OF kb2 sr nc]) (assumption, rule that, assumption+, simp)
      have hc: "hd (contenders L s) = n" "tl (contenders L s) = rest" using F(1) unfolding con by simp_all
      have sw: "switched n Q2 ?s2 = switched n Q2 (unseated s)"
        using True by (simp add: switched_def unseated_def set_prstate_def upp_def)
      have "L 300 \<noteq> []" "prprio (proctab s ?o) \<le> ?K (hd (L 300))"
        using False kbaseD(5)[OF kb o] by (auto split: list.splits)
      then have "hd (contenders L s) = hd (L 300)" using True by (simp add: contenders_def ins_desc_hd)
      moreover have "?o \<notin> set (L 300)" using True kbaseD(3)[OF kb o qids_300(1)] by (simp add: where_q_def)
      ultimately have "hd (contenders L s) \<noteq> ?o" using \<open>L 300 \<noteq> []\<close> hd_in_set by metis
      moreover have "handed_over L s (switched n Q2 ?s2)"
        unfolding handed_over_def
      proof (intro conjI F(4))
        show "switched n Q2 ?s2 = switched (hd (contenders L s)) (queuetab (switched n Q2 ?s2)) (unseated s)"
          using sw hc by simp
        show "\<forall>i. qkey (queuetab (switched n Q2 ?s2) i) = (if i = ?o \<and> prstate (proctab s i) = PR_CURR then prprio (proctab s i) else ?K i)"
          using F(6) K True by simp
        have "(?L(300 := rest)) = L(300 := tl (contenders L s))" using hc by (simp add: fun_eq_iff)
        then show "\<forall>q\<in>qids. qcontents (switched n Q2 ?s2) q = (L(300 := tl (contenders L s))) q"
          using qcontents_kbase[OF F(5)] by metis
      qed
      moreover have "resched s = resched_force ?s2"
        using True False key nd ly(1) Q' by (simp add: resched_def Let_def)
      ultimately show ?thesis using F(1,2,3) hc con by (auto simp: ins_desc_def)
    qed
  qed
qed

lemma resched_kok:
  assumes pre: "kpre L s" and nd: "ndefers s = 0"
    and Q: "\<And>s'. kinv s' \<Longrightarrow> currpid s' = currpid s \<Longrightarrow> Q () s'"
  shows "kok (currpid s) Q (resched s)"
proof (cases "hd (contenders L s) = currpid s \<and> prstate (proctab s (currpid s)) = PR_CURR")
  case True
  then show ?thesis using resched_eq[OF pre nd] Q[OF kinvI[OF pre _ nd]] by simp
next
  case False
  then obtain s' k where "resched s = Switch s' k" "\<And>t. k t = Return () t" "handed_over L s s'"
    using resched_eq[OF pre nd] by metis
  then show ?thesis using Q by (simp add: handed_over_def)
qed

end
