(* ===== verification/Sched_Inv.thy ===== *)
theory Sched_Inv
  imports Kernel_Inv
begin

text \<open>
  The operations of \<open>Sched\<close> and the invariant: what \<^verbatim>\<open>ready\<close> does to a process in transit, and that
  every scheduling call made by a running process keeps the invariant and cannot fault.
\<close>

section \<open>Making a process ready\<close>

definition readied :: "int \<Rightarrow> (int \<Rightarrow> qentry) \<Rightarrow> kstate \<Rightarrow> kstate" where
  "readied p Q s = (set_prstate p PR_READY s)\<lparr>queuetab := Q\<rparr>"

lemma readied_fields [simp]:
  "queuetab (readied p Q s) = Q" "semtab (readied p Q s) = semtab s"
  "readylist (readied p Q s) = readylist s" "sleepq (readied p Q s) = sleepq s"
  "currpid (readied p Q s) = currpid s" "ndefers (readied p Q s) = ndefers s"
  "nextsem (readied p Q s) = nextsem s" "hp (readied p Q s) = hp s" "nextpid (readied p Q s) = nextpid s"
  "attempt (readied p Q s) = attempt s"
  "proctab (readied p Q s) = (proctab s)(p := (proctab s p)\<lparr>prstate := PR_READY\<rparr>)"
  by (simp_all add: readied_def)

lemma ready_split:
  assumes kb: "kbase (X \<union> {p}) L s" and p: "\<not> isbadpid s p" and X: "p \<notin> X"
  obtains Q' where
    "ready p s = bindk (resched (readied p Q' s)) (\<lambda>_ s. Return OK s)"
    "kbase X (L(300 := ins_desc (\<lambda>i. qkey (queuetab s i)) (prprio (proctab s p)) p (L 300))) (readied p Q' s)"
    "\<And>i. qkey (Q' i) = (if i = p then prprio (proctab s p) else qkey (queuetab s i))"
proof -
  have pp: "p \<in> procs" using p by (simp add: isbadpid_iff)
  have "kbase (X \<union> {p} \<union> {p}) L (set_prstate p PR_READY s)"
    by (rule kbase_set_prstate[OF kb pp]) auto
  then have kb1: "kbase (X \<union> {p}) L (set_prstate p PR_READY s)" by simp
  have p1: "\<not> isbadpid (set_prstate p PR_READY s) p" using pp by (auto simp: isbadpid_def)
  from kbase_insert_ready[OF kb1 p1 _ X] obtain Q' where
    "insert_q p (readylist s) (prprio (proctab s p)) (set_prstate p PR_READY s) =
       Some (OK, (set_prstate p PR_READY s)\<lparr>queuetab := Q'\<rparr>)"
    "kbase X (L(300 := ins_desc (\<lambda>i. qkey (queuetab s i)) (prprio (proctab s p)) p (L 300))) (readied p Q' s)"
    "\<And>i. qkey (Q' i) = (if i = p then prprio (proctab s p) else qkey (queuetab s i))"
    by (auto simp: readied_def)
  then show ?thesis using that p by (simp add: ready_def readied_def Let_def)
qed

lemma kcur_readied:
  "kcur s \<Longrightarrow> kcur (readied p Q s)"
  by (auto simp: kcur_def)

lemma ready_kok:
  assumes kb: "kbase {p} L s" and p: "\<not> isbadpid s p" and sems: "ksems L s" and cur: "kcur s"
    and rg: "kranges s" and nd: "ndefers s = 0"
    and Q: "\<And>s'. kinv s' \<Longrightarrow> currpid s' = currpid s \<Longrightarrow> Q OK s'"
  shows "kok (currpid s) Q (ready p s)"
proof -
  have kb': "kbase ({} \<union> {p}) L s" using kb by simp
  obtain Q' where r: "ready p s = bindk (resched (readied p Q' s)) (\<lambda>_ s. Return OK s)"
    "kbase {} (L(300 := ins_desc (\<lambda>i. qkey (queuetab s i)) (prprio (proctab s p)) p (L 300))) (readied p Q' s)"
    (is "kbase {} ?L _")
    by (rule ready_split[OF kb' p]) auto
  have "ksems ?L (readied p Q' s)"
    using sems ksems_other(1)[OF kbaseD(1)[OF kb]] by (simp add: ksems_fields[of "readied p Q' s" s])
  then have "kpre ?L (readied p Q' s)"
    using r(2) cur rg by (simp add: kpre_def kcur_readied kranges_def)
  from resched_kok[OF this] nd Q show ?thesis by (simp add: r(1))
qed

text \<open>While rescheduling is deferred, \<^verbatim>\<open>ready\<close> only moves the process.\<close>

lemma ready_deferred:
  assumes kb: "kbase (X \<union> {p}) L s" and p: "\<not> isbadpid s p" and X: "p \<notin> X" and nd: "0 < ndefers s"
  obtains Q' where "ready p s = Return OK ((readied p Q' s)\<lparr>attempt := True\<rparr>)"
    "kbase X (L(300 := ins_desc (\<lambda>i. qkey (queuetab s i)) (prprio (proctab s p)) p (L 300)))
       ((readied p Q' s)\<lparr>attempt := True\<rparr>)"
    "\<And>i. qkey (Q' i) = (if i = p then prprio (proctab s p) else qkey (queuetab s i))"
proof -
  obtain Q' where r: "ready p s = bindk (resched (readied p Q' s)) (\<lambda>_ s. Return OK s)"
    "kbase X (L(300 := ins_desc (\<lambda>i. qkey (queuetab s i)) (prprio (proctab s p)) p (L 300))) (readied p Q' s)"
    "\<And>i. qkey (Q' i) = (if i = p then prprio (proctab s p) else qkey (queuetab s i))"
    using ready_split[OF kb p X] by blast
  have "ready p s = Return OK ((readied p Q' s)\<lparr>attempt := True\<rparr>)"
    using nd by (simp add: r(1) resched_def)
  moreover have "kbase X (L(300 := ins_desc (\<lambda>i. qkey (queuetab s i)) (prprio (proctab s p)) p (L 300)))
       ((readied p Q' s)\<lparr>attempt := True\<rparr>)"
    using r(2) by (subst kbase_fields[where s = "readied p Q' s"]) simp_all
  ultimately show ?thesis using that r(3) by blast
qed

text \<open>
  \<open>moved ps s s'\<close>: the processes \<open>ps\<close> have become ready and nothing else of the process table or
  of the scheduler's variables has changed.
\<close>

definition moved :: "int list \<Rightarrow> kstate \<Rightarrow> kstate \<Rightarrow> bool" where
  "moved ps s s' \<longleftrightarrow>
     proctab s' = (\<lambda>p. if p \<in> set ps then (proctab s p)\<lparr>prstate := PR_READY\<rparr> else proctab s p) \<and>
     readylist s' = readylist s \<and> sleepq s' = sleepq s \<and> currpid s' = currpid s \<and>
     ndefers s' = ndefers s \<and> nextsem s' = nextsem s \<and> nextpid s' = nextpid s \<and> hp s' = hp s \<and>
     attempt s' = (attempt s \<or> ps \<noteq> []) \<and> clktime s' = clktime s \<and> count1000 s' = count1000 s \<and> preempt s' = preempt s"

lemma moved_Nil: "moved [] s s"
  by (simp add: moved_def)

lemma moved_append: "moved ps s s' \<Longrightarrow> moved rs s' s'' \<Longrightarrow> moved (ps @ rs) s s''"
  by (auto simp: moved_def fun_eq_iff)

lemma moved_upsem [simp]:
  "moved ps (upsem i f s) s' = moved ps s s'" "moved ps s (upsem i f s') = moved ps s s'"
  unfolding moved_def upsem_fields by simp_all

lemma moved_fields:
  assumes "moved ps s s'"
  shows "readylist s' = readylist s" "sleepq s' = sleepq s" "currpid s' = currpid s"
    "ndefers s' = ndefers s" "kranges s' = kranges s" "kcur s \<Longrightarrow> kcur s'"
    "currpid s \<notin> set ps \<Longrightarrow> proctab s' (currpid s) = proctab s (currpid s)"
    "p \<in> set ps \<Longrightarrow> prstate (proctab s' p) = PR_READY"
    "attempt s' = (attempt s \<or> ps \<noteq> [])" "clktime s' = clktime s" "count1000 s' = count1000 s" "preempt s' = preempt s"
  using assms by (auto simp: moved_def kranges_def kcur_def)

text \<open>One turn of the loops that release the waiting processes with rescheduling deferred.\<close>

lemma release_one:
  assumes kb: "kbase {} L s" and q: "q \<in> qids" "q \<noteq> 300" and L: "L q = p # rest"
    and nd: "0 < ndefers s"
    and get: "get = dequeue \<or> get = getfirst"
  obtains s' L' where "bindk (liftk (get q s)) (\<lambda>p s. ready p s) = Return OK s'"
    "kbase {} L' s'" "moved [p] s s'" "semtab s' = semtab s" "L' q = rest"
    "\<And>r. r \<noteq> q \<Longrightarrow> r \<noteq> 300 \<Longrightarrow> L' r = L r"
    "\<And>i. i \<noteq> p \<Longrightarrow> qkey (queuetab s' i) = qkey (queuetab s i)"
proof -
  have "\<exists>Q'. get q s = Some (p, s\<lparr>queuetab := Q'\<rparr>) \<and> wfqs Q' (L(q := rest)) \<and>
      (\<forall>i. qkey (Q' i) = qkey (queuetab s i))"
    using get dequeue_spec[OF kbaseD(2)[OF kb] q(1) L] getfirst_spec[OF kbaseD(2)[OF kb] q(1) L]
    by auto
  then obtain Q' where Q': "get q s = Some (p, s\<lparr>queuetab := Q'\<rparr>)" "wfqs Q' (L(q := rest))"
    "\<And>i. qkey (Q' i) = qkey (queuetab s i)" by auto
  let ?s1 = "s\<lparr>queuetab := Q'\<rparr>" and ?L1 = "L(q := rest)"
  have kb1: "kbase ({} \<union> {p}) ?L1 ?s1"
    using kbase_remove[OF kb q(1), of "[]" p rest Q'] L Q' by simp
  have pp: "p \<in> procs" and "p \<in> set (L q)" using wfqs_procs[OF kbaseD(2)[OF kb] q(1)] L by simp_all
  then have "where_q s p = Some q" using kbaseD(3)[OF kb pp q(1)] by simp
  then have "\<not> isbadpid ?s1 p" using pp by (auto simp: where_q_def isbadpid_iff)
  from ready_deferred[OF kb1 this] nd obtain Q2 where r:
    "ready p ?s1 = Return OK ((readied p Q2 ?s1)\<lparr>attempt := True\<rparr>)"
    "kbase {} (?L1(300 := ins_desc (\<lambda>i. qkey (queuetab ?s1 i)) (prprio (proctab ?s1 p)) p (?L1 300)))
       ((readied p Q2 ?s1)\<lparr>attempt := True\<rparr>)"
    "\<And>i. qkey (Q2 i) = (if i = p then prprio (proctab ?s1 p) else qkey (queuetab ?s1 i))" by auto
  show ?thesis
    by (rule that[OF _ r(2)]) (use r(1,3) Q' q in \<open>simp_all add: moved_def readied_def set_prstate_def upp_def fun_eq_iff\<close>)
qed

lemma resched_start:
  "ndefers s = 0 \<Longrightarrow> resched_cntl DEFER_START s = Return OK (s\<lparr>ndefers := 1, attempt := False\<rparr>)"
  by (simp add: resched_cntl_def DEFER_START_def DEFER_STOP_def Let_def)

lemma kpre_start:
  assumes "kpre L s"
  shows "kpre L (s\<lparr>ndefers := 1, attempt := False\<rparr>)"
  using assms by (simp add: kpre_def kcur_def kranges_def
    kbase_fields[of "s\<lparr>ndefers := 1, attempt := False\<rparr>" s] ksems_fields[of "s\<lparr>ndefers := 1, attempt := False\<rparr>" s])

text \<open>Ending the deferral: the state left by the loop is handed to \<^verbatim>\<open>resched\<close>.\<close>

lemma resched_stop_kok:
  assumes pre: "kpre L s" and cur: "prstate (proctab s (currpid s)) = PR_CURR" and nd: "ndefers s = 1"
    and Q: "\<And>s'. kinv s' \<Longrightarrow> currpid s' = currpid s \<Longrightarrow> Q OK s'"
  shows "kok (currpid s) Q (resched_cntl DEFER_STOP s)"
proof -
  let ?s = "s\<lparr>ndefers := 0\<rparr>"
  have pre': "kpre L ?s"
    using pre by (simp add: kpre_def kcur_def kranges_def kbase_fields[of ?s s] ksems_fields[of ?s s])
  have "kok (currpid ?s) (\<lambda>_ s'. Q OK s') (resched ?s)"
    by (rule resched_kok[OF pre']) (use Q nd in simp_all)
  moreover have "kinv ?s" using kinvI[OF pre'] cur by simp
  ultimately show ?thesis using nd Q by (simp add: resched_cntl_def DEFER_START_def DEFER_STOP_def Let_def)
qed

section \<open>The invariant, call by call\<close>

lemma kinv_resched: "kinv s \<Longrightarrow> kcall resched s"
  unfolding kcall_def by (erule kinvE, rule resched_kok) (auto simp: kpre_def)

lemma kinv_yield: "kinv s \<Longrightarrow> kcall yield s"
  using kinv_resched[of s] by (auto simp: kcall_def yield_def elim: kok_mono)

lemma kcall_Return: "kinv s \<Longrightarrow> f s = Return a s \<Longrightarrow> kcall f s"
  by (simp add: kcall_def)

lemma kinv_isbadpid: "kinv s \<Longrightarrow> \<not> isbadpid s (currpid s)"
  by (erule kinvE) (auto simp: isbadpid_iff kcur_def)

lemma ready_chain_Q: "kinv s \<Longrightarrow> where_q s p = None \<Longrightarrow> p \<in> procs \<Longrightarrow> kbase {p} (qcontents s) s"
proof (erule kinvE)
  fix L assume *: "where_q s p = None" "p \<in> procs" "kbase {} L s" "L = qcontents s"
  have "r \<in> set (L q) \<longleftrightarrow> r \<notin> {p} \<and> where_q s r = Some q" if "r \<in> procs" "q \<in> qids" for r q
    using kbaseD(3)[OF *(3) that] *(1) by auto
  then show ?thesis using kbaseD(1,2,4-8)[OF *(3)] *(4) unfolding kbase_def by auto
qed

lemma kinv_resume:
  assumes inv: "kinv s"
  shows "kcall (resume pid) s"
proof (cases "isbadpid s pid \<or> prstate (proctab s pid) \<noteq> PR_SUSP")
  case True
  then show ?thesis using inv by (auto simp: kcall_def resume_def)
next
  case False
  have kb: "kbase {pid} (qcontents s) s"
    by (rule ready_chain_Q[OF inv]) (use False in \<open>auto simp: where_q_def isbadpid_iff\<close>)
  have "kok (currpid s) (\<lambda>_ s'. kinv s' \<and> currpid s' = currpid s) (ready pid s)"
    using inv False by (elim kinvE, intro ready_kok[OF kb]) auto
  then show ?thesis using False by (auto simp: kcall_def resume_def Let_def elim: kok_mono)
qed

lemma kinv_suspend:
  assumes inv: "kinv s"
  shows "kcall (suspend pid) s"
proof -
  note inv' = inv
  from inv obtain L where k: "kbase {} L s" "ksems L s" "kcur s" "kranges s"
    "prstate (proctab s (currpid s)) = PR_CURR" "ndefers s = 0" by (elim kinvE)
  note ly = qlayoutD[OF kbaseD(1)[OF k(1)]]
  show ?thesis
  proof (cases "isbadpid s pid \<or> pid = NULLPROC \<or>
      prstate (proctab s pid) \<noteq> PR_CURR \<and> prstate (proctab s pid) \<noteq> PR_READY")
    case True
    then show ?thesis using inv by (auto simp: kcall_def suspend_def)
  next
    case ok: False
    then have p: "pid \<in> procs" "pid \<noteq> 0" "\<not> isbadpid s pid" by (auto simp: isbadpid_iff)
    show ?thesis
    proof (cases "prstate (proctab s pid) = PR_READY")
      case True
      then have "pid \<in> set (L 300)" using kbaseD(3)[OF k(1) p(1), of 300] ly(1) by (simp add: where_q_def)
      then obtain us vs where sp: "L 300 = us @ pid # vs" by (meson split_list)
      obtain Q' where Q': "getitem pid s = Some (pid, s\<lparr>queuetab := Q'\<rparr>)" "wfqs Q' (L(300 := us @ vs))"
        "\<And>i. qkey (Q' i) = qkey (queuetab s i)"
        using getitem_spec[OF kbaseD(2)[OF k(1)] qids_300(1) sp] by auto
      let ?s = "set_prstate pid PR_SUSP (s\<lparr>queuetab := Q'\<rparr>)"
      have "kbase ({} \<union> {pid}) (L(300 := us @ vs)) (s\<lparr>queuetab := Q'\<rparr>)"
        by (rule kbase_remove[OF k(1) qids_300(1) sp Q'(2,3)])
      from kbase_set_prstate[OF this p(1), of PR_SUSP] p(2)
      have "kbase {pid} (L(300 := us @ vs)) ?s" by simp
      then have kb: "kbase {} (L(300 := us @ vs)) ?s"
        by (rule kbase_arrive) (simp_all add: where_q_def)
      have "ksems (L(300 := us @ vs)) ?s"
        using k(2) ksems_other(1)[OF kbaseD(1)[OF k(1)]] by (simp add: ksems_fields[of ?s s])
      moreover have np: "pid \<noteq> currpid s" using True k(5) by auto
      moreover have "kcur ?s" using k(3) np unfolding kcur_def by simp
      moreover have "kranges ?s" using k(4) by (simp add: kranges_def)
      ultimately have "kinv ?s"
        using kb k(5,6) by (intro kinvI[of "L(300 := us @ vs)"]) (simp_all add: kpre_def)
      then show ?thesis
        using ok True Q'(1) by (simp add: kcall_def suspend_def)
    next
      case False
      then have c: "prstate (proctab s pid) = PR_CURR" using ok by auto
      let ?s = "set_prstate pid PR_SUSP s"
      have "kbase ({} \<union> {pid}) L ?s"
        using p(2) c by (intro kbase_set_prstate[OF k(1) p(1)]) (auto simp: where_q_def)
      then have "kbase {} L ?s" by (rule kbase_arrive) (auto simp: where_q_def)
      then have "kpre L ?s"
        using k by (auto simp: kpre_def kcur_def kranges_def ksems_fields[of ?s s])
      from resched_kok[OF this] k(6)
      have "kok (currpid s) (\<lambda>_ s'. kinv s' \<and> currpid s' = currpid s) (resched ?s)" by simp
      then show ?thesis using ok False by (auto simp: kcall_def suspend_def elim: kok_mono)
    qed
  qed
qed

lemma kinv_fields:
  assumes "kinv s" "queuetab s' = queuetab s" "proctab s' = proctab s" "semtab s' = semtab s"
    "readylist s' = readylist s" "sleepq s' = sleepq s" "currpid s' = currpid s"
    "ndefers s' = ndefers s" "nextsem s' = nextsem s" "nextpid s' = nextpid s" "hp s' = hp s"
  shows "kinv s'"
  using assms(1) by (rule kinvE) (rule kinvI, use assms in
    \<open>simp_all add: kpre_def kcur_def kranges_def ksems_fields[of s' s] kbase_fields[of s' s]\<close>)

text \<open>Fields of the process table that the invariant does not read may change at will.\<close>

lemma kinv_upp:
  assumes inv: "kinv s"
    and f: "\<And>e. prstate (f e) = prstate e" "\<And>e. prsem (f e) = prsem e"
      "\<And>e. prstkbase (f e) = prstkbase e" "\<And>e. prstklen (f e) = prstklen e"
      "\<And>e. - 32768 \<le> prprio e \<Longrightarrow> prprio e < 32768 \<Longrightarrow> - 32768 \<le> prprio (f e) \<and> prprio (f e) < 32768"
  shows "kinv (upp pid f s)"
  using inv
proof (rule kinvE)
  fix L assume k: "kbase {} L s" "ksems L s" "kcur s" "kranges s"
    "prstate (proctab s (currpid s)) = PR_CURR" "ndefers s = 0"
  have wq: "where_q (upp pid f s) r = where_q s r" for r by (intro where_q_cong) (auto simp: f)
  have "kbase {} L (upp pid f s)"
    using k(1) f(5) unfolding kbase_def qlayout_def by (auto simp: wq f)
  then show ?thesis using k
    by (intro kinvI[of L]) (auto simp: kpre_def kcur_def kranges_def ksems_fields[of "upp pid f s" s] f stk_ok_def)
qed

lemma kinv_chprio:
  "kinv s \<Longrightarrow> - 32768 \<le> prio \<Longrightarrow> prio < 32768 \<Longrightarrow> kcall (chprio pid prio) s"
  by (auto simp: kcall_def chprio_def Let_def intro!: kinv_upp)

lemma kinv_getprio: "kinv s \<Longrightarrow> kcall (getprio pid) s"
  by (simp add: kcall_def getprio_def)

lemma kinv_getpid: "kinv s \<Longrightarrow> kcall getpid s"
  by (simp add: kcall_def getpid_def)

section \<open>Who runs\<close>

text \<open>The key by which \<^verbatim>\<open>resched\<close> ranks a process: the current one by its priority, a ready one by the
  priority it had when it was put on the ready list.\<close>

definition rank_key :: "kstate \<Rightarrow> int \<Rightarrow> int" where
  "rank_key s p = (if p = currpid s then prprio (proctab s p) else qkey (queuetab s p))"

lemma kinv_contenders:
  assumes "kinv s"
  shows "contenders (qcontents s) s = ins_desc (\<lambda>i. qkey (queuetab s i)) (prprio (proctab s (currpid s)))
      (currpid s) (qcontents s (readylist s))"
    "currpid s \<notin> set (qcontents s (readylist s))" "readylist s = 300"
    "sorted_wrt (\<lambda>a b. qkey (queuetab s b) \<le> qkey (queuetab s a)) (qcontents s (readylist s))"
proof -
  from assms obtain L where k: "kbase {} L s" "kcur s" "prstate (proctab s (currpid s)) = PR_CURR" "L = qcontents s"
    by (elim kinvE)
  note ly = qlayoutD[OF kbaseD(1)[OF k(1)]]
  show "contenders (qcontents s) s = ins_desc (\<lambda>i. qkey (queuetab s i)) (prprio (proctab s (currpid s)))
      (currpid s) (qcontents s (readylist s))" "readylist s = 300"
    using k(3) ly(1) by (simp_all add: contenders_def)
  show "sorted_wrt (\<lambda>a b. qkey (queuetab s b) \<le> qkey (queuetab s a)) (qcontents s (readylist s))"
    using kbaseD(7)[OF k(1)] k(4) by simp
  show "currpid s \<notin> set (qcontents s (readylist s))"
    using kbaseD(3)[OF k(1), of "currpid s" 300] k(2-4) ly(1) by (simp add: kcur_def where_q_def)
qed

lemma hd_ins_desc_max:
  assumes "sorted_wrt (\<lambda>a b. K b \<le> K a) xs" "K p = key" "q \<in> set (ins_desc K key p xs)"
  shows "K q \<le> K (hd (ins_desc K key p xs))"
proof (cases xs)
  case (Cons x ys)
  then have "K y \<le> K x" if "y \<in> set xs" for y using assms(1) that by auto
  moreover have "q = p \<or> q \<in> set xs" using assms(3) by auto
  ultimately show ?thesis using assms(2) Cons by (fastforce simp: ins_desc_def)
qed (use assms in \<open>simp add: ins_desc_def\<close>)

lemma ins_desc_cong: "(\<And>x. x \<in> set xs \<Longrightarrow> K x = K' x) \<Longrightarrow> ins_desc K key p xs = ins_desc K' key p xs"
  by (simp add: ins_desc_def cong: takeWhile_cong dropWhile_cong)

lemma handed_over_procs:
  assumes "handed_over L s s'"
  shows "proctab s' p = (proctab s p)\<lparr>prstate := prstate (proctab s' p)\<rparr>"
proof -
  have "proctab s' = proctab (switched (hd (contenders L s)) (queuetab s') (unseated s))"
    using assms unfolding handed_over_def by metis
  then show ?thesis by (auto simp: unseated_def)
qed

lemma handed_over_states:
  assumes "handed_over L s s'"
  shows "prstate (proctab s' p) = (if p = hd (contenders L s) then PR_CURR
      else if p = currpid s \<and> prstate (proctab s p) = PR_CURR then PR_READY else prstate (proctab s p))"
proof -
  have "proctab s' = proctab (switched (hd (contenders L s)) (queuetab s') (unseated s))"
    using assms unfolding handed_over_def by metis
  then show ?thesis by (auto simp: unseated_def)
qed

lemma handed_over_fields:
  assumes "handed_over L s s'"
  shows "kinv s'" "currpid s' = hd (contenders L s)" "semtab s' = semtab s" "hp s' = hp s"
    "readylist s' = readylist s" "sleepq s' = sleepq s"
    "q \<in> qids \<Longrightarrow> qcontents s' q = (L(300 := tl (contenders L s))) q"
    "qkey (queuetab s' i) = (if i = currpid s \<and> prstate (proctab s i) = PR_CURR
        then prprio (proctab s i) else qkey (queuetab s i))"
proof -
  have *: "s' = switched (hd (contenders L s)) (queuetab s') (unseated s)"
    using assms unfolding handed_over_def by blast
  show "currpid s' = hd (contenders L s)" "semtab s' = semtab s" "hp s' = hp s"
    "readylist s' = readylist s" "sleepq s' = sleepq s"
    by (subst *, simp add: unseated_def)+
qed (use assms in \<open>unfold handed_over_def, blast+\<close>)

text \<open>C3: The dispatcher of \<^verbatim>\<open>resched\<close>: rank the current process with the ready ones, descending by
  priority, behind those of equal priority. The first of this list has the largest key; if it is
  the current process, \<^verbatim>\<open>resched\<close> just returns, and otherwise the processor goes to it, the others
  are the new ready list in the same order, and no other process changes its state.\<close>

theorem resched_policy:
  assumes "kinv s"
  shows "\<exists>C. C = ins_desc (\<lambda>i. qkey (queuetab s i)) (prprio (proctab s (currpid s))) (currpid s)
        (qcontents s (readylist s)) \<and>
    (\<forall>p\<in>set C. rank_key s p \<le> rank_key s (hd C)) \<and>
    (if hd C = currpid s then resched s = Return () s
     else \<exists>s' k. resched s = Switch s' k \<and> (\<forall>t. k t = Return () t) \<and> kinv s' \<and> currpid s' = hd C \<and>
       qcontents s' (readylist s') = tl C \<and>
       (\<forall>p. prstate (proctab s' p) = (if p = hd C then PR_CURR else if p = currpid s then PR_READY
          else prstate (proctab s p))))"
proof -
  let ?K = "\<lambda>i. qkey (queuetab s i)" and ?o = "currpid s" and ?R = "qcontents s (readylist s)"
  let ?C = "ins_desc ?K (prprio (proctab s ?o)) ?o ?R"
  note C = kinv_contenders[OF assms]
  from assms have k: "kpre (qcontents s) s" "ndefers s = 0" "prstate (proctab s ?o) = PR_CURR"
    by (auto simp: kinv_def)
  have "?C = ins_desc (rank_key s) (prprio (proctab s ?o)) ?o ?R"
    using C(2) by (intro ins_desc_cong) (auto simp: rank_key_def)
  moreover have "sorted_wrt (\<lambda>a b. rank_key s b \<le> rank_key s a) ?R"
    by (rule sorted_wrt_mono_rel[OF _ C(4)]) (use C(2) in \<open>auto simp: rank_key_def\<close>)
  ultimately have "\<forall>p\<in>set ?C. rank_key s p \<le> rank_key s (hd ?C)"
    using hd_ins_desc_max[of "rank_key s" ?R ?o "prprio (proctab s ?o)"] by (auto simp: rank_key_def)
  moreover note resched_eq[OF k(1,2), unfolded C(1)]
  ultimately show ?thesis
    using k(3) handed_over_states[of "qcontents s" s, unfolded C(1)]
      handed_over_fields[of "qcontents s" s, unfolded C(1)] C(3) qids_300
    by (intro exI[of _ ?C] conjI refl) (auto split: if_splits)
qed

lemma resume_eq:
  assumes inv: "kinv s" and p: "\<not> isbadpid s pid" "prstate (proctab s pid) = PR_SUSP"
  obtains Q1 where "resume pid s = bindk (resched (readied pid Q1 s)) (\<lambda>_ s'. Return (prprio (proctab s pid)) s')"
    "kpre ((qcontents s)(300 := ins_desc (\<lambda>i. qkey (queuetab s i)) (prprio (proctab s pid)) pid (qcontents s 300)))
       (readied pid Q1 s)"
    "\<And>i. qkey (Q1 i) = (if i = pid then prprio (proctab s pid) else qkey (queuetab s i))"
proof -
  have kb: "kbase ({} \<union> {pid}) (qcontents s) s"
    using ready_chain_Q[OF inv, of pid] p by (simp add: where_q_def isbadpid_iff)
  obtain Q' where r: "ready pid s = bindk (resched (readied pid Q' s)) (\<lambda>_ s. Return OK s)"
    "kbase {} ((qcontents s)(300 := ins_desc (\<lambda>i. qkey (queuetab s i)) (prprio (proctab s pid)) pid (qcontents s 300)))
       (readied pid Q' s)" (is "kbase {} ?L _")
    "\<And>i. qkey (Q' i) = (if i = pid then prprio (proctab s pid) else qkey (queuetab s i))"
    by (rule ready_split[OF kb p(1)]) auto
  have "ksems ?L (readied pid Q' s)" "kcur (readied pid Q' s)" "kranges (readied pid Q' s)"
    using inv ksems_other(1)[OF kbaseD(1)[OF kb]]
    by (auto simp: kinv_def kpre_def ksems_fields[of "readied pid Q' s" s] kranges_def intro: kcur_readied)
  then have "kpre ?L (readied pid Q' s)" using r(2) by (simp add: kpre_def)
  then show ?thesis using that[of Q'] r(1,3) p by (simp add: resume_def Let_def bindk_assoc)
qed

text \<open>A resumed process that outranks everybody is next.\<close>

lemma resume_top:
  assumes inv: "kinv s" and p: "\<not> isbadpid s pid" "prstate (proctab s pid) = PR_SUSP"
    and top: "prprio (proctab s (currpid s)) \<le> prprio (proctab s pid)"
    and best: "\<forall>q\<in>set (qcontents s (readylist s)). qkey (queuetab s q) < prprio (proctab s pid)"
  obtains L Q1 s' k where "resume pid s = Switch s' k" "\<And>t. k t = Return (prprio (proctab s pid)) t"
    "handed_over L (readied pid Q1 s) s'" "\<And>q. q \<noteq> 300 \<Longrightarrow> L q = qcontents s q"
    "contenders L (readied pid Q1 s) = pid # ins_desc (\<lambda>i. qkey (queuetab s i)) (prprio (proctab s (currpid s)))
       (currpid s) (qcontents s (readylist s))"
    "\<And>i. qkey (Q1 i) = (if i = pid then prprio (proctab s pid) else qkey (queuetab s i))"
proof -
  let ?K = "\<lambda>i. qkey (queuetab s i)" and ?o = "currpid s" and ?R = "qcontents s 300"
  note C = kinv_contenders[OF inv]
  obtain Q1 where r: "resume pid s = bindk (resched (readied pid Q1 s)) (\<lambda>_ s'. Return (prprio (proctab s pid)) s')"
    "kpre ((qcontents s)(300 := ins_desc ?K (prprio (proctab s pid)) pid ?R)) (readied pid Q1 s)" (is "kpre ?L ?s1")
    "\<And>i. qkey (Q1 i) = (if i = pid then prprio (proctab s pid) else ?K i)"
    by (rule resume_eq[OF inv p]) (rule that, assumption+)
  from inv obtain L where k: "kbase {} L s" "kcur s" "prstate (proctab s ?o) = PR_CURR" "ndefers s = 0" "L = qcontents s"
    by (elim kinvE)
  have ne: "?o \<noteq> pid" using k(3) p(2) by auto
  have L: "?L 300 = pid # ?R" using best C(3) by (cases ?R) (auto simp: ins_desc_def)
  have fresh: "pid \<notin> set ?R"
    using kbaseD(3)[OF k(1), of pid 300] p k(5) by (simp add: isbadpid_iff where_q_def)
  have "contenders ?L ?s1 = ins_desc (\<lambda>i. qkey (Q1 i)) (prprio (proctab s ?o)) ?o (pid # ?R)"
    using k(3) ne L by (simp add: contenders_def)
  also have "\<dots> = pid # ins_desc (\<lambda>i. qkey (Q1 i)) (prprio (proctab s ?o)) ?o ?R"
    using top r(3) by (simp add: ins_desc_def)
  also have "ins_desc (\<lambda>i. qkey (Q1 i)) (prprio (proctab s ?o)) ?o ?R = ins_desc ?K (prprio (proctab s ?o)) ?o ?R"
    by (rule ins_desc_cong) (use fresh r(3) in auto)
  finally have con: "contenders ?L ?s1 = pid # ins_desc ?K (prprio (proctab s ?o)) ?o ?R" .
  obtain s' k' where sw: "resched ?s1 = Switch s' k'" "\<And>t. k' t = Return () t" "handed_over ?L ?s1 s'"
    using resched_eq[OF r(2)] k(4) ne con by auto
  show ?thesis
    by (rule that[of s' "\<lambda>t. bindk (k' t) (\<lambda>_ s'. Return (prprio (proctab s pid)) s')" ?L Q1])
      (use sw con C(3) r(3) in \<open>simp_all add: r(1)\<close>)
qed

text \<open>Resuming a suspended process that outranks every ready process and is not outranked by
  the caller takes the processor away from the caller at once: the process runs, the caller waits
  in its place on the ready list, and when the caller gets the processor back its call returns the
  priority that the process had.\<close>

theorem resume_preempts:
  assumes inv: "kinv s" and p: "\<not> isbadpid s pid" "prstate (proctab s pid) = PR_SUSP"
    and top: "prprio (proctab s (currpid s)) \<le> prprio (proctab s pid)"
    and best: "\<forall>q\<in>set (qcontents s (readylist s)). qkey (queuetab s q) < prprio (proctab s pid)"
  shows "\<exists>s' k. resume pid s = Switch s' k \<and> kinv s' \<and> currpid s' = pid \<and>
    (\<forall>q. prstate (proctab s' q) = (if q = pid then PR_CURR else if q = currpid s then PR_READY
       else prstate (proctab s q))) \<and>
    qcontents s' (readylist s') = ins_desc (\<lambda>i. qkey (queuetab s i)) (prprio (proctab s (currpid s)))
       (currpid s) (qcontents s (readylist s)) \<and>
    qcontents s' (sleepq s') = qcontents s (sleepq s) \<and> semtab s' = semtab s \<and> hp s' = hp s \<and>
    (\<forall>t. k t = Return (prprio (proctab s pid)) t)"
proof -
  obtain L Q1 s' k where r: "resume pid s = Switch s' k" "\<And>t. k t = Return (prprio (proctab s pid)) t"
    "handed_over L (readied pid Q1 s) s'" "\<And>q. q \<noteq> 300 \<Longrightarrow> L q = qcontents s q"
    "contenders L (readied pid Q1 s) = pid # ins_desc (\<lambda>i. qkey (queuetab s i)) (prprio (proctab s (currpid s)))
       (currpid s) (qcontents s (readylist s))"
    by (rule resume_top[OF assms]) (rule that, assumption+)
  from inv have c: "prstate (proctab s (currpid s)) = PR_CURR" "sleepq s = 302" "readylist s = 300"
    by (elim kinvE, simp add: qlayoutD(1,2)[OF kbaseD(1)])+
  then have ne: "currpid s \<noteq> pid" using p(2) by auto
  note H = handed_over_fields[OF r(3)] and S = handed_over_states[OF r(3)]
  show ?thesis
  proof (intro exI[of _ s'] exI[of _ k] conjI allI)
    show "prstate (proctab s' q) = (if q = pid then PR_CURR else if q = currpid s then PR_READY
       else prstate (proctab s q))" for q
      using S[of q] c(1) ne by (simp add: r(5))
  qed (use r(1,2,4,5) H(1-7) c(2,3) qids_300 in simp_all)
qed

end
