(* ===== verification/Semaphores.thy ===== *)
theory Semaphores
  imports Sched_Inv
begin

text \<open>
  Counting semaphores: \<^verbatim>\<open>system/semcreate.c\<close> (with \<^verbatim>\<open>newsem\<close>), \<^verbatim>\<open>wait.c\<close>, \<^verbatim>\<open>signal.c\<close>,
  \<^verbatim>\<open>signaln.c\<close>, \<^verbatim>\<open>semdelete.c\<close>, \<^verbatim>\<open>semreset.c\<close>, \<^verbatim>\<open>semcount.c\<close>. A negative count is the number of
  waiting processes, which wait in FIFO order.
\<close>

section \<open>The code\<close>

primrec newsem_loop :: "nat \<Rightarrow> kstate \<Rightarrow> int \<times> kstate" where
  "newsem_loop 0 s = (SYSERR, s)"
| "newsem_loop (Suc n) s =
    (let sem = nextsem s;
         s = s\<lparr>nextsem := (if i32 (sem + 1) \<ge> NSEM then 0 else i32 (sem + 1))\<rparr>
     in if sstate (semtab s sem) = S_FREE then (sem, upsem sem (sstate_update (\<lambda>_. S_USED)) s)
        else newsem_loop n s)"

definition newsem :: "kstate \<Rightarrow> int \<times> kstate" where
  "newsem s = newsem_loop (nat NSEM) s"

definition semcreate :: "int \<Rightarrow> kstate \<Rightarrow> (kstate, int) step" where
  "semcreate count s =
    (if count < 0 then Return SYSERR s
     else case newsem s of (sem, s) \<Rightarrow>
       if sem = SYSERR then Return SYSERR s
       else Return sem (upsem sem (scount_update (\<lambda>_. count)) s))"

definition wait :: "int \<Rightarrow> kstate \<Rightarrow> (kstate, int) step" where
  "wait sem s =
    (if isbadsem sem then Return SYSERR s
     else if sstate (semtab s sem) = S_FREE then Return SYSERR s
     else let s = upsem sem (\<lambda>e. e\<lparr>scount := i32 (scount e - 1)\<rparr>) s in
       bindk
        (if scount (semtab s sem) < 0 then
           let s = upp (currpid s) (\<lambda>e. e\<lparr>prstate := PR_WAIT, prsem := sem\<rparr>) s in
           bindk (liftk (enqueue (currpid s) (squeue (semtab s sem)) s)) (\<lambda>_ s. resched s)
         else Return () s)
        (\<lambda>_ s. Return OK s))"

text \<open>The statement \<^verbatim>\<open>if (semptr->scount++ < 0) ready(dequeue(semptr->squeue))\<close>.\<close>

definition signal_once :: "int \<Rightarrow> kstate \<Rightarrow> (kstate, unit) step" where
  "signal_once sem s =
    (let c = scount (semtab s sem); s = upsem sem (\<lambda>e. e\<lparr>scount := i32 (scount e + 1)\<rparr>) s in
     if c < 0 then
       bindk (bindk (liftk (dequeue (squeue (semtab s sem)) s)) (\<lambda>p s. ready p s)) (\<lambda>_ s. Return () s)
     else Return () s)"

definition signal :: "int \<Rightarrow> kstate \<Rightarrow> (kstate, int) step" where
  "signal sem s =
    (if isbadsem sem then Return SYSERR s
     else if sstate (semtab s sem) = S_FREE then Return SYSERR s
     else bindk (signal_once sem s) (\<lambda>_ s. Return OK s))"

primrec signaln_loop :: "nat \<Rightarrow> int \<Rightarrow> kstate \<Rightarrow> (kstate, unit) step" where
  "signaln_loop 0 sem s = Return () s"
| "signaln_loop (Suc n) sem s = bindk (signal_once sem s) (\<lambda>_ s. signaln_loop n sem s)"

definition signaln :: "int \<Rightarrow> int \<Rightarrow> kstate \<Rightarrow> (kstate, int) step" where
  "signaln sem count s =
    (if isbadsem sem \<or> count < 0 then Return SYSERR s
     else if sstate (semtab s sem) = S_FREE then Return SYSERR s
     else bindk (resched_cntl DEFER_START s) (\<lambda>_ s.
          bindk (signaln_loop (nat count) sem s) (\<lambda>_ s.
          bindk (resched_cntl DEFER_STOP s) (\<lambda>_ s. Return OK s))))"

text \<open>
  The loops of \<^verbatim>\<open>semdelete\<close> and \<^verbatim>\<open>semreset\<close> run on fuel; \<open>semdelete_loop_eq\<close> and
  \<open>semreset_loop_eq\<close> below show that the fuel given is enough.
\<close>

primrec semdelete_loop :: "nat \<Rightarrow> int \<Rightarrow> kstate \<Rightarrow> (kstate, unit) step" where
  "semdelete_loop 0 sem s = Fault"
| "semdelete_loop (Suc n) sem s =
    (let c = scount (semtab s sem); s = upsem sem (\<lambda>e. e\<lparr>scount := i32 (scount e + 1)\<rparr>) s in
     if c < 0 then
       bindk (bindk (liftk (getfirst (squeue (semtab s sem)) s)) (\<lambda>p s. ready p s))
         (\<lambda>_ s. semdelete_loop n sem s)
     else Return () s)"

definition semdelete :: "int \<Rightarrow> kstate \<Rightarrow> (kstate, int) step" where
  "semdelete sem s =
    (if isbadsem sem then Return SYSERR s
     else if sstate (semtab s sem) = S_FREE then Return SYSERR s
     else let s = upsem sem (sstate_update (\<lambda>_. S_FREE)) s in
       bindk (resched_cntl DEFER_START s) (\<lambda>_ s.
       bindk (semdelete_loop (Suc (nat NPROC)) sem s) (\<lambda>_ s.
       bindk (resched_cntl DEFER_STOP s) (\<lambda>_ s. Return OK s))))"

primrec semreset_loop :: "nat \<Rightarrow> int \<Rightarrow> kstate \<Rightarrow> (kstate, unit) step" where
  "semreset_loop 0 q s = Fault"
| "semreset_loop (Suc n) q s =
     bindk (liftk (getfirst q s)) (\<lambda>pid s.
       if pid \<noteq> EMPTY then bindk (ready pid s) (\<lambda>_ s. semreset_loop n q s) else Return () s)"

definition semreset :: "int \<Rightarrow> int \<Rightarrow> kstate \<Rightarrow> (kstate, int) step" where
  "semreset sem count s =
    (if count < 0 \<or> isbadsem sem \<or> sstate (semtab s sem) = S_FREE then Return SYSERR s
     else let semqueue = squeue (semtab s sem) in
       bindk (resched_cntl DEFER_START s) (\<lambda>_ s.
       bindk (semreset_loop (Suc (nat NPROC)) semqueue s) (\<lambda>_ s.
       let s = upsem sem (scount_update (\<lambda>_. count)) s in
       bindk (resched_cntl DEFER_STOP s) (\<lambda>_ s. Return OK s))))"

definition semcount :: "int \<Rightarrow> kstate \<Rightarrow> (kstate, int) step" where
  "semcount sem s =
    (if isbadsem sem \<or> sstate (semtab s sem) = S_FREE then Return SYSERR s
     else Return (scount (semtab s sem)) s)"

section \<open>Counts and queues\<close>


lemma ksemsD:
  assumes "ksems L s" "\<not> isbadsem i" "sstate (semtab s i) \<noteq> S_FREE"
  shows "length (L (squeue (semtab s i))) = nat (- scount (semtab s i))" "scount (semtab s i) < 2147483648"
proof -
  have "sstate (semtab s i) = S_USED" using assms(3) by (cases "sstate (semtab s i)") auto
  then show "length (L (squeue (semtab s i))) = nat (- scount (semtab s i))" "scount (semtab s i) < 2147483648"
    using assms(1,2) by (auto simp: ksems_def ksem_at_def)
qed

text \<open>Only the semaphore \<open>sem\<close> and its queue, and the ready list, have changed.\<close>

lemma ksems_change:
  assumes "ksems L s" "qlayout s" "\<not> isbadsem sem"
    and L: "\<And>r. r \<noteq> squeue (semtab s sem) \<Longrightarrow> r \<noteq> 300 \<Longrightarrow> L' r = L r"
    and S: "\<And>i. i \<noteq> sem \<Longrightarrow> semtab s' i = semtab s i"
    and at: "ksem_at L' s' sem"
  shows "ksems L' s'"
  unfolding ksems_def
proof (intro allI impI)
  fix i assume i: "\<not> isbadsem i"
  show "ksem_at L' s' i"
  proof (cases "i = sem")
    case False
    have "squeue (semtab s i) \<noteq> squeue (semtab s sem)" "squeue (semtab s i) \<noteq> 300"
      using False i assms(3) qlayoutD(3)[OF assms(2)] by (auto simp: isbadsem_def)
    then have "L' (squeue (semtab s i)) = L (squeue (semtab s i))" by (rule L)
    then show ?thesis
      using assms(1) i S[OF False] by (auto simp: ksems_def ksem_at_def split: semstate.splits)
  qed (use at in simp)
qed

lemma sem_queue:
  assumes "kbase X L s" "\<not> isbadsem i"
  shows "squeue (semtab s i) \<in> qids" "squeue (semtab s i) \<noteq> 300" "squeue (semtab s i) \<noteq> 302"
  using assms(2) qlayoutD(3)[OF kbaseD(1)[OF assms(1)] assms(2)] sem_qids[OF assms(2)]
  by (auto simp: isbadsem_def)

lemma sem_queue_length:
  assumes "kbase X L s" "\<not> isbadsem i"
  shows "length (L (squeue (semtab s i))) \<le> 100"
  by (rule wfq_length) (rule wfqs_wfq[OF kbaseD(2)[OF assms(1)] sem_queue(1)[OF assms]])

lemma waiting_not_current:
  assumes "kbase {} L s" "\<not> isbadsem i" "p \<in> set (L (squeue (semtab s i)))"
  shows "p \<in> procs" "prstate (proctab s p) = PR_WAIT" "prsem (proctab s p) = i"
proof -
  note q = sem_queue[OF assms(1,2)]
  show p: "p \<in> procs" by (rule wfqs_procs[OF kbaseD(2)[OF assms(1)] q(1) assms(3)])
  have w: "where_q s p = Some (squeue (semtab s i))" using kbaseD(3)[OF assms(1) p q(1)] assms(3) by simp
  note ly = qlayoutD[OF kbaseD(1)[OF assms(1)]]
  show st: "prstate (proctab s p) = PR_WAIT"
    using w q ly by (auto simp: where_q_def split: pstate.splits)
  have "\<not> isbadsem (prsem (proctab s p))" by (rule kbaseD(4)[OF assms(1) p st])
  then show "prsem (proctab s p) = i"
    using w st ly(3)[OF assms(2)] ly(3) by (auto simp: where_q_def)
qed


section \<open>Creating\<close>

lemma newsem_loop_spec:
  assumes "0 \<le> nextsem s" "nextsem s < NSEM" "newsem_loop n s = (sem, s')"
  shows "(\<exists>m. 0 \<le> m \<and> m < NSEM \<and> (sem = SYSERR \<and> s' = s\<lparr>nextsem := m\<rparr> \<or>
      0 \<le> sem \<and> sem < NSEM \<and> sstate (semtab s sem) = S_FREE \<and>
      s' = upsem sem (sstate_update (\<lambda>_. S_USED)) (s\<lparr>nextsem := m\<rparr>)))"
  using assms
proof (induction n arbitrary: s)
  case 0
  then show ?case by (auto intro!: exI[of _ "nextsem s"])
next
  case (Suc n)
  let ?m = "if i32 (nextsem s + 1) \<ge> NSEM then 0 else i32 (nextsem s + 1)"
  have m: "0 \<le> ?m" "?m < NSEM" using Suc.prems(1,2) by auto
  show ?case
  proof (cases "sstate (semtab s (nextsem s)) = S_FREE")
    case True
    then show ?thesis using Suc.prems m by (intro exI[of _ ?m]) (auto simp: Let_def)
  next
    case False
    then have "newsem_loop n (s\<lparr>nextsem := ?m\<rparr>) = (sem, s')" using Suc.prems(3) by (simp add: Let_def)
    from Suc.IH[OF _ _ this] m show ?thesis by auto
  qed
qed

text \<open>\<^verbatim>\<open>newsem\<close> probes every entry, so it fails only when the table is full.\<close>

lemma newsem_loop_full:
  assumes "0 \<le> nextsem s" "nextsem s < NSEM" "newsem_loop n s = (SYSERR, s')" "k < n"
  shows "sstate (semtab s ((nextsem s + int k) mod NSEM)) \<noteq> S_FREE"
  using assms
proof (induction n arbitrary: s k)
  case (Suc n)
  let ?m = "if i32 (nextsem s + 1) \<ge> NSEM then 0 else i32 (nextsem s + 1)"
  have m: "0 \<le> ?m" "?m < NSEM" "?m = (nextsem s + 1) mod NSEM"
    using Suc.prems(1,2) by (auto simp: not_le) (cases "nextsem s = 99"; simp)
  have f: "sstate (semtab s (nextsem s)) \<noteq> S_FREE" "newsem_loop n (s\<lparr>nextsem := ?m\<rparr>) = (SYSERR, s')"
    using Suc.prems(1,3) by (auto simp: Let_def split: if_splits)
  show ?case
  proof (cases k)
    case 0
    then show ?thesis using f(1) Suc.prems(1,2) by simp
  next
    case (Suc j)
    from Suc.IH[OF _ _ f(2), of j] m(1,2) Suc \<open>k < Suc n\<close>
    have "sstate (semtab s ((?m + int j) mod NSEM)) \<noteq> S_FREE" by simp
    moreover have "(?m + int j) mod NSEM = (nextsem s + int k) mod NSEM"
      unfolding m(3) Suc by (simp add: mod_simps add.assoc) 
    ultimately show ?thesis by simp
  qed
qed simp

lemma semcreate_eq:
  assumes inv: "kinv s" and count: "0 \<le> count"
  shows "(semcreate count s = Return SYSERR (s\<lparr>nextsem := nextsem (snd (newsem s))\<rparr>) \<and>
           kinv (s\<lparr>nextsem := nextsem (snd (newsem s))\<rparr>) \<and> fst (newsem s) = SYSERR) \<or>
    (\<exists>sem m. \<not> isbadsem sem \<and> sstate (semtab s sem) = S_FREE \<and> 0 \<le> m \<and> m < NSEM \<and>
      semcreate count s = Return sem
        (upsem sem (\<lambda>e. e\<lparr>sstate := S_USED, scount := count\<rparr>) (s\<lparr>nextsem := m\<rparr>)))"
proof -
  from inv have rg: "0 \<le> nextsem s" "nextsem s < NSEM" by (elim kinvE, simp add: kranges_def)+
  obtain sem s' where n: "newsem s = (sem, s')" by fastforce
  from newsem_loop_spec[OF rg n[unfolded newsem_def]] obtain m where m: "0 \<le> m" "m < NSEM"
    "sem = SYSERR \<and> s' = s\<lparr>nextsem := m\<rparr> \<or>
      0 \<le> sem \<and> sem < NSEM \<and> sstate (semtab s sem) = S_FREE \<and>
      s' = upsem sem (sstate_update (\<lambda>_. S_USED)) (s\<lparr>nextsem := m\<rparr>)" by blast
  have "kinv (s\<lparr>nextsem := m\<rparr>)"
    using inv m(1,2) by (elim kinvE, intro kinvI[of "qcontents s"])
      (simp_all add: kpre_def kcur_def kranges_def kbase_fields[of "s\<lparr>nextsem := m\<rparr>" s]
        ksems_fields[of "s\<lparr>nextsem := m\<rparr>" s])
  moreover have "newsem s = (sem, s')" by (rule n)
  ultimately show ?thesis
    using m(3)
  proof (elim disjE conjE)
    assume "kinv (s\<lparr>nextsem := m\<rparr>)" "sem = SYSERR" "s' = s\<lparr>nextsem := m\<rparr>"
    then show ?thesis using n count by (intro disjI1) (simp add: semcreate_def)
  next
    assume s: "0 \<le> sem" "sem < NSEM" "sstate (semtab s sem) = S_FREE"
      "s' = upsem sem (sstate_update (\<lambda>_. S_USED)) (s\<lparr>nextsem := m\<rparr>)"
    then have "semcreate count s = Return sem
        (upsem sem (\<lambda>e. e\<lparr>sstate := S_USED, scount := count\<rparr>) (s\<lparr>nextsem := m\<rparr>))"
      using n count by (simp add: semcreate_def upsem_def)
    then show ?thesis
      using s m(1,2) by (intro disjI2 exI[of _ sem] exI[of _ m]) (simp add: isbadsem_def)
  qed
qed

lemma kinv_semcreate:
  assumes inv: "kinv s" and count: "count < 2147483648"
  shows "kcall (semcreate count) s"
proof (cases "0 \<le> count")
  case False
  then show ?thesis using inv by (simp add: kcall_def semcreate_def)
next
  case True
  from semcreate_eq[OF inv True] show ?thesis
  proof (elim disjE exE conjE)
    fix sem m assume sem: "\<not> isbadsem sem" "sstate (semtab s sem) = S_FREE" "0 \<le> m" "m < NSEM"
      and eq: "semcreate count s = Return sem
        (upsem sem (\<lambda>e. e\<lparr>sstate := S_USED, scount := count\<rparr>) (s\<lparr>nextsem := m\<rparr>))" (is "_ = Return _ ?s")
    from inv obtain L where k: "kbase {} L s" "ksems L s" "kcur s" "kranges s"
      "prstate (proctab s (currpid s)) = PR_CURR" "ndefers s = 0" by (elim kinvE)
    have kb: "kbase {} L ?s"
      using k(1) by (simp add: kbase_upsem kbase_fields[of "s\<lparr>nextsem := m\<rparr>" s])
    have "L (squeue (semtab s sem)) = []" using k(2)[unfolded ksems_def, rule_format, OF sem(1)] sem(2)
      by (simp add: ksem_at_def)
    then have "ksems L ?s"
      using True count by (intro ksems_change[OF k(2) kbaseD(1)[OF k(1)] sem(1)]) (auto simp: ksem_at_def)
    with k kb sem(3,4) have "kinv ?s"
      by (intro kinvI[of L]) (auto simp: kpre_def kcur_def kranges_def)
    then show ?thesis by (simp add: kcall_def eq)
  qed (use inv in \<open>simp add: kcall_def\<close>)
qed

section \<open>Waiting\<close>

text \<open>The state in which a blocking \<^verbatim>\<open>wait\<close> calls \<^verbatim>\<open>resched\<close>: the caller is last in the queue.\<close>

lemma wait_blocks_eq:
  assumes inv: "kinv s" and sem: "\<not> isbadsem sem" "sstate (semtab s sem) \<noteq> S_FREE"
    and c: "scount (semtab s sem) \<le> 0" and null: "currpid s \<noteq> 0"
  obtains s2 where "wait sem s = bindk (resched s2) (\<lambda>_ s. Return OK s)" "currpid s2 = currpid s"
    "ndefers s2 = 0"
    "kpre ((qcontents s)(squeue (semtab s sem) := qcontents s (squeue (semtab s sem)) @ [currpid s])) s2"
    "semtab s2 = (semtab s)(sem := (semtab s sem)\<lparr>scount := scount (semtab s sem) - 1\<rparr>)"
    "proctab s2 = (proctab s)(currpid s := (proctab s (currpid s))\<lparr>prstate := PR_WAIT, prsem := sem\<rparr>)"
proof -
  from inv obtain L where k: "kbase {} L s" "ksems L s" "kcur s" "kranges s"
    "prstate (proctab s (currpid s)) = PR_CURR" "ndefers s = 0" "L = qcontents s" by (elim kinvE)
  let ?p = "currpid s" and ?q = "squeue (semtab s sem)"
  have p: "?p \<in> procs" using k(3) by (simp add: kcur_def)
  note q = sem_queue[OF k(1) sem(1)]
  note len = ksemsD[OF k(2) sem] sem_queue_length[OF k(1) sem(1)]
  have i: "i32 (scount (semtab s sem) - 1) = scount (semtab s sem) - 1" using len by simp
  let ?s1 = "upsem sem (\<lambda>e. e\<lparr>scount := i32 (scount e - 1)\<rparr>) s"
  let ?f = "\<lambda>e. e\<lparr>prstate := PR_WAIT, prsem := sem\<rparr>"
  let ?s2 = "upp ?p ?f ?s1"
  have "kbase ({} \<union> {?p}) L ?s2"
    using p null sem(1) k(5) kbaseD(5,6)[OF k(1) p]
    by (intro kbase_upp_transit) (auto simp: kbase_upsem k(1) where_q_def)
  moreover have "\<not> isbadpid ?s2 ?p" using p by (auto simp: isbadpid_iff)
  moreover have "where_q ?s2 ?p = Some ?q" by (simp add: where_q_def)
  ultimately obtain Q' where Q': "enqueue ?p ?q ?s2 = Some (?p, ?s2\<lparr>queuetab := Q'\<rparr>)"
    "kbase {} (L(?q := L ?q @ [?p])) (?s2\<lparr>queuetab := Q'\<rparr>)"
    using kbase_enqueue[of "{}" ?p L ?s2 ?q] q(1,2) by auto
  let ?s3 = "?s2\<lparr>queuetab := Q'\<rparr>"
  have "ksems (L(?q := L ?q @ [?p])) ?s3"
    using len c i sem(2)
    by (intro ksems_change[OF k(2) kbaseD(1)[OF k(1)] sem(1)])
      (auto simp: ksem_at_def nat_diff_distrib split: semstate.splits)
  moreover have "kcur ?s3" using k(3) by (auto simp: kcur_def)
  moreover have "kranges ?s3" using k(4) by (simp add: kranges_def)
  ultimately have "kpre (L(?q := L ?q @ [?p])) ?s3" using Q'(2) by (simp add: kpre_def)
  moreover have "wait sem s = bindk (resched ?s3) (\<lambda>_ s. Return OK s)"
    using sem c i Q'(1) by (simp add: wait_def Let_def)
  ultimately show ?thesis using that[of ?s3] k(6,7) i by simp
qed

lemma kinv_wait:
  assumes inv: "kinv s" and null: "currpid s \<noteq> 0"
  shows "kcall (wait sem) s"
proof (cases "isbadsem sem \<or> sstate (semtab s sem) = S_FREE")
  case True
  then show ?thesis using inv by (auto simp: kcall_def wait_def)
next
  case False
  then have sem: "\<not> isbadsem sem" "sstate (semtab s sem) \<noteq> S_FREE" by auto
  show ?thesis
  proof (cases "scount (semtab s sem) \<le> 0")
    case True
    obtain L2 s2 where w: "wait sem s = bindk (resched s2) (\<lambda>_ s. Return OK s)" "currpid s2 = currpid s"
      "ndefers s2 = 0" "kpre L2 s2" by (rule wait_blocks_eq[OF inv sem True null])
    from resched_kok[OF w(4,3), of "\<lambda>_ s'. kinv s' \<and> currpid s' = currpid s"] w(2)
    show ?thesis by (simp add: kcall_def w(1))
  next
    case False
    from inv obtain L where k: "kbase {} L s" "ksems L s" "kcur s" "kranges s"
      "prstate (proctab s (currpid s)) = PR_CURR" "ndefers s = 0" by (elim kinvE)
    let ?s1 = "upsem sem (\<lambda>e. e\<lparr>scount := i32 (scount e - 1)\<rparr>) s"
    note len = ksemsD[OF k(2) sem]
    have "ksems L ?s1"
      using len False sem(2) by (intro ksems_change[OF k(2) kbaseD(1)[OF k(1)] sem(1)])
        (auto simp: ksem_at_def split: semstate.splits)
    then have "kinv ?s1"
      using k by (intro kinvI[of L]) (auto simp: kpre_def kcur_def kranges_def kbase_upsem)
    moreover have "wait sem s = Return OK ?s1" using False sem len by (simp add: wait_def Let_def)
    ultimately show ?thesis by (simp add: kcall_def)
  qed
qed

section \<open>Signalling\<close>

text \<open>
  A signal on a semaphore with waiting processes: the first of them leaves the queue and is made
  ready, in the state \<open>s1\<close> reached after the count and the queue have been updated.
\<close>

lemma signal_once_release:
  assumes kb: "kbase {} L s" and sem: "\<not> isbadsem sem" "scount (semtab s sem) < 0"
    and lo: "- 100 \<le> scount (semtab s sem)" and L: "L (squeue (semtab s sem)) = p # rest"
  obtains s1 Q1 where "signal_once sem s = bindk (ready p s1) (\<lambda>_ s. Return () s)"
    "kbase {p} (L(squeue (semtab s sem) := rest)) s1" "\<not> isbadpid s1 p"
    "s1 = (upsem sem (\<lambda>e. e\<lparr>scount := scount e + 1\<rparr>) s)\<lparr>queuetab := Q1\<rparr>"
proof -
  let ?q = "squeue (semtab s sem)"
  note q = sem_queue[OF kb sem(1)]
  let ?s0 = "upsem sem (\<lambda>e. e\<lparr>scount := i32 (scount e + 1)\<rparr>) s"
  have kb0: "kbase {} L ?s0" using kb by (simp add: kbase_upsem)
  have eq: "?s0 = upsem sem (\<lambda>e. e\<lparr>scount := scount e + 1\<rparr>) s"
    using sem(2) lo by (simp add: upsem_def)
  obtain Q' where Q': "dequeue ?q ?s0 = Some (p, ?s0\<lparr>queuetab := Q'\<rparr>)" "wfqs Q' (L(?q := rest))"
    "\<And>i. qkey (Q' i) = qkey (queuetab ?s0 i)"
    using dequeue_spec[OF kbaseD(2)[OF kb0] q(1) L] by auto
  have "kbase ({} \<union> {p}) (L(?q := [] @ rest)) (?s0\<lparr>queuetab := Q'\<rparr>)"
    by (rule kbase_remove[OF kb0 q(1)]) (use L Q' in simp_all)
  then have "kbase {p} (L(?q := rest)) (?s0\<lparr>queuetab := Q'\<rparr>)" by simp
  moreover have "\<not> isbadpid (?s0\<lparr>queuetab := Q'\<rparr>) p"
    using waiting_not_current[OF kb sem(1), of p] L by (auto simp: isbadpid_iff)
  moreover have "signal_once sem s = bindk (ready p (?s0\<lparr>queuetab := Q'\<rparr>)) (\<lambda>_ s. Return () s)"
    using sem(2) Q'(1) by (simp add: signal_once_def Let_def)
  ultimately show ?thesis
    by (intro that[of "?s0\<lparr>queuetab := Q'\<rparr>" Q']) (simp_all only: eq not_False_eq_True)
qed

lemma sem_nonempty:
  assumes "kbase X L s" "ksems L s" "\<not> isbadsem sem" "sstate (semtab s sem) \<noteq> S_FREE" "scount (semtab s sem) < 0"
  obtains p rest where "L (squeue (semtab s sem)) = p # rest" "- 100 \<le> scount (semtab s sem)"
  using ksemsD[OF assms(2-4)] sem_queue_length[OF assms(1,3)] assms(5)
  by (cases "L (squeue (semtab s sem))") auto

lemma kinv_signal:
  assumes inv: "kinv s" and ov: "scount (semtab s sem) < 2147483647"
  shows "kcall (signal sem) s"
proof (cases "isbadsem sem \<or> sstate (semtab s sem) = S_FREE")
  case True
  then show ?thesis using inv by (auto simp: kcall_def signal_def)
next
  case False
  then have sem: "\<not> isbadsem sem" "sstate (semtab s sem) \<noteq> S_FREE" by auto
  from inv obtain L where k: "kbase {} L s" "ksems L s" "kcur s" "kranges s"
    "prstate (proctab s (currpid s)) = PR_CURR" "ndefers s = 0" by (elim kinvE)
  note len = ksemsD[OF k(2) sem]
  let ?q = "squeue (semtab s sem)"
  show ?thesis
  proof (cases "scount (semtab s sem) < 0")
    case True
    obtain p rest where L: "L ?q = p # rest" "- 100 \<le> scount (semtab s sem)"
      by (rule sem_nonempty[OF k(1,2) sem True])
    obtain s1 Q1 where s1: "signal_once sem s = bindk (ready p s1) (\<lambda>_ s. Return () s)"
      "kbase {p} (L(?q := rest)) s1" "\<not> isbadpid s1 p"
      "s1 = (upsem sem (\<lambda>e. e\<lparr>scount := scount e + 1\<rparr>) s)\<lparr>queuetab := Q1\<rparr>"
      by (rule signal_once_release[OF k(1) sem(1) True L(2,1)])
    have "ksem_at (L(?q := rest)) s1 sem"
      using len L(1) sem(2) True by (auto simp: s1(4) ksem_at_def split: semstate.splits)
    then have "ksems (L(?q := rest)) s1"
      by (intro ksems_change[OF k(2) kbaseD(1)[OF k(1)] sem(1)]) (simp_all add: s1(4))
    moreover have "kcur s1" using k(3) s1(4) by (auto simp: kcur_def)
    ultimately have "kok (currpid s1) (\<lambda>_ s'. kinv s' \<and> currpid s' = currpid s1) (ready p s1)"
      using k(4,6) s1(4) by (intro ready_kok[OF s1(2,3)]) (simp_all add: kranges_def)
    then show ?thesis using sem s1(1,4) by (simp add: kcall_def signal_def)
  next
    case False
    let ?s1 = "upsem sem (\<lambda>e. e\<lparr>scount := i32 (scount e + 1)\<rparr>) s"
    have "ksems L ?s1"
      using len False sem(2) ov by (intro ksems_change[OF k(2) kbaseD(1)[OF k(1)] sem(1)])
        (auto simp: ksem_at_def split: semstate.splits)
    then have "kinv ?s1"
      using k by (intro kinvI[of L]) (auto simp: kpre_def kcur_def kranges_def kbase_upsem)
    moreover have "signal sem s = Return OK ?s1"
      using False sem by (simp add: signal_def signal_once_def Let_def)
    ultimately show ?thesis by (simp add: kcall_def)
  qed
qed

text \<open>While rescheduling is deferred, \<open>n\<close> signals release the first \<open>n\<close> waiting processes in order.\<close>

lemma signal_once_deferred:
  assumes kb: "kbase {} L s" and sems: "ksems L s" and sem: "\<not> isbadsem sem" "sstate (semtab s sem) \<noteq> S_FREE"
    and ov: "scount (semtab s sem) < 2147483647" and nd: "0 < ndefers s"
  obtains s' L' where "signal_once sem s = Return () s'" "kbase {} L' s'" "ksems L' s'"
    "moved (take 1 (L (squeue (semtab s sem)))) s s'"
    "L' (squeue (semtab s sem)) = drop 1 (L (squeue (semtab s sem)))"
    "\<And>r. r \<noteq> squeue (semtab s sem) \<Longrightarrow> r \<noteq> 300 \<Longrightarrow> L' r = L r"
    "semtab s' = (semtab s)(sem := (semtab s sem)\<lparr>scount := scount (semtab s sem) + 1\<rparr>)"
proof -
  let ?q = "squeue (semtab s sem)"
  note len = ksemsD[OF sems sem] and q = sem_queue[OF kb sem(1)]
  show ?thesis
  proof (cases "scount (semtab s sem) < 0")
    case True
    obtain p rest where L: "L ?q = p # rest" "- 100 \<le> scount (semtab s sem)"
      by (rule sem_nonempty[OF kb sems sem True])
    let ?s1 = "upsem sem (\<lambda>e. e\<lparr>scount := i32 (scount e + 1)\<rparr>) s"
    have kb1: "kbase {} L ?s1" using kb by (simp add: kbase_upsem)
    obtain s' L' where r: "bindk (liftk (dequeue ?q ?s1)) (\<lambda>p s. ready p s) = Return OK s'"
      "kbase {} L' s'" "moved [p] ?s1 s'" "semtab s' = semtab ?s1" "L' ?q = rest"
      "\<And>r. r \<noteq> ?q \<Longrightarrow> r \<noteq> 300 \<Longrightarrow> L' r = L r"
      by (rule release_one[OF kb1 q(1,2) L(1) _ disjI1[OF refl]]) (use nd in simp_all)
    have "ksems L' s'"
      using len L sem(2) r(4-6) True
      by (intro ksems_change[OF sems kbaseD(1)[OF kb] sem(1)]) (auto simp: ksem_at_def split: semstate.splits)
    moreover have "signal_once sem s = Return () s'"
      using True r(1) by (simp add: signal_once_def Let_def)
    moreover have "moved [p] s s'" using r(3) by simp
    ultimately show ?thesis using r(2,4-6) L True by (intro that[of s' L']) simp_all
  next
    case False
    let ?s1 = "upsem sem (\<lambda>e. e\<lparr>scount := i32 (scount e + 1)\<rparr>) s"
    have e: "L ?q = []" using len(1) False by simp
    have "ksems L ?s1"
      using len False sem(2) ov by (intro ksems_change[OF sems kbaseD(1)[OF kb] sem(1)])
        (auto simp: ksem_at_def split: semstate.splits)
    then show ?thesis
      using False e ov kb
      by (intro that[of ?s1 L]) (simp_all add: signal_once_def Let_def moved_def kbase_upsem)
  qed
qed

lemma signaln_loop_eq:
  assumes "kbase {} L s" "ksems L s" and sem: "\<not> isbadsem sem" "sstate (semtab s sem) \<noteq> S_FREE"
    and "scount (semtab s sem) + int n < 2147483648" and nd: "0 < ndefers s"
  shows "\<exists>s' L'. signaln_loop n sem s = Return () s' \<and> kbase {} L' s' \<and> ksems L' s' \<and>
    moved (take n (L (squeue (semtab s sem)))) s s' \<and>
    L' (squeue (semtab s sem)) = drop n (L (squeue (semtab s sem))) \<and>
    semtab s' = (semtab s)(sem := (semtab s sem)\<lparr>scount := scount (semtab s sem) + int n\<rparr>)"
  using assms
proof (induction n arbitrary: L s)
  case 0
  then show ?case by (intro exI[of _ s] exI[of _ L]) (simp add: moved_Nil)
next
  case (Suc n)
  let ?q = "squeue (semtab s sem)"
  have ov: "scount (semtab s sem) < 2147483647" using Suc.prems(5) by simp
  obtain s1 L1 where s1: "signal_once sem s = Return () s1" "kbase {} L1 s1" "ksems L1 s1"
    "moved (take 1 (L ?q)) s s1" "L1 ?q = drop 1 (L ?q)"
    "semtab s1 = (semtab s)(sem := (semtab s sem)\<lparr>scount := scount (semtab s sem) + 1\<rparr>)"
    by (rule signal_once_deferred[OF Suc.prems(1-4) ov Suc.prems(6)])
  have s1': "sstate (semtab s1 sem) \<noteq> S_FREE" "scount (semtab s1 sem) + int n < 2147483648"
    "0 < ndefers s1" "squeue (semtab s1 sem) = ?q"
    using Suc.prems(4-6) s1(6) moved_fields(4)[OF s1(4)] by simp_all
  from Suc.IH[OF s1(2,3) sem(1) s1'(1-3), unfolded s1'(4)]
obtain s' L' where r: "signaln_loop n sem s1 = Return () s'" "kbase {} L' s'" "ksems L' s'"
    "moved (take n (L1 ?q)) s1 s'" "L' ?q = drop n (L1 ?q)"
    "semtab s' = (semtab s1)(sem := (semtab s1 sem)\<lparr>scount := scount (semtab s1 sem) + int n\<rparr>)"
    by blast
  have "moved (take 1 (L ?q) @ take n (L1 ?q)) s s'" by (rule moved_append[OF s1(4) r(4)])
  moreover have "take 1 (L ?q) @ take n (L1 ?q) = take (Suc n) (L ?q)"
    unfolding s1(5) by (cases "L ?q") simp_all
  moreover have "semtab s' = (semtab s)(sem := (semtab s sem)\<lparr>scount := scount (semtab s sem) + int (Suc n)\<rparr>)"
    unfolding r(6) s1(6) by (simp add: add.assoc)
  ultimately show ?case
    using s1(1,5) r(1-3,5) by (intro exI[of _ s'] exI[of _ L']) simp
qed

text \<open>
  \<^verbatim>\<open>signaln\<close>, \<^verbatim>\<open>semdelete\<close> and \<^verbatim>\<open>semreset\<close> end with \<^verbatim>\<open>DEFER_STOP\<close>, in a state in which the
  processes \<open>ps\<close> have been made ready.
\<close>

definition released :: "int list \<Rightarrow> kstate \<Rightarrow> kstate \<Rightarrow> bool" where
  "released ps s s' \<longleftrightarrow> kpre (qcontents s') s' \<and> currpid s' = currpid s \<and> ndefers s' = 1 \<and>
     proctab s' = (\<lambda>p. if p \<in> set ps then (proctab s p)\<lparr>prstate := PR_READY\<rparr> else proctab s p) \<and>
     currpid s \<notin> set ps"

lemma released_kcall:
  assumes inv: "kinv s" and rel: "released ps s s'"
    and f: "f s = bindk (resched_cntl DEFER_STOP s') (\<lambda>_ s. Return a s)"
  shows "kcall f s"
proof -
  have "prstate (proctab s (currpid s)) = PR_CURR" using inv by (elim kinvE)
  then have "prstate (proctab s' (currpid s')) = PR_CURR" using rel by (simp add: released_def)
  then have "kok (currpid s') (\<lambda>_ s2. kinv s2 \<and> currpid s2 = currpid s') (resched_cntl DEFER_STOP s')"
    using rel by (intro resched_stop_kok[of "qcontents s'"]) (simp_all add: released_def)
  then show ?thesis using rel by (auto simp: kcall_def f released_def elim: kok_mono)
qed

lemma releasedI:
  assumes "kpre L' s'" "moved ps s0 s'" "currpid s0 = currpid s" "ndefers s0 = 1" "proctab s0 = proctab s"
    "currpid s \<notin> set ps"
  shows "released ps s s'"
  using kpre_qcontents[OF assms(1)] assms(2-4,6) unfolding released_def moved_def assms(5) by simp

lemma signaln_eq:
  assumes inv: "kinv s" and sem: "\<not> isbadsem sem" "sstate (semtab s sem) \<noteq> S_FREE" and c: "0 \<le> count"
    and ov: "scount (semtab s sem) + count < 2147483648"
  obtains s' L' where "signaln sem count s = bindk (resched_cntl DEFER_STOP s') (\<lambda>_ s. Return OK s)"
    "released (take (nat count) (qcontents s (squeue (semtab s sem)))) s s'" "kpre L' s'"
    "L' (squeue (semtab s sem)) = drop (nat count) (qcontents s (squeue (semtab s sem)))"
    "semtab s' = (semtab s)(sem := (semtab s sem)\<lparr>scount := scount (semtab s sem) + count\<rparr>)"
proof -
  from inv obtain L where k: "kpre L s" "prstate (proctab s (currpid s)) = PR_CURR" "ndefers s = 0" "L = qcontents s"
    by (auto simp: kinv_def)
  let ?s1 = "s\<lparr>ndefers := 1, attempt := False\<rparr>"
  let ?ps = "take (nat count) (L (squeue (semtab s sem)))"
  from kpre_start[OF k(1)] have k1: "kbase {} L ?s1" "ksems L ?s1" "kcur ?s1" "kranges ?s1"
    by (simp_all add: kpre_def)
  obtain s' L' where r: "signaln_loop (nat count) sem ?s1 = Return () s'" "kbase {} L' s'" "ksems L' s'"
    "moved ?ps ?s1 s'" "L' (squeue (semtab s sem)) = drop (nat count) (L (squeue (semtab s sem)))"
    "semtab s' = (semtab s)(sem := (semtab s sem)\<lparr>scount := scount (semtab s sem) + count\<rparr>)"
    using signaln_loop_eq[OF k1(1,2) sem(1), of "nat count"] sem(2) ov c by auto
  note m = moved_fields[OF r(4)]
  have "kpre L' s'" using r(2,3) m(5,6) k1(3,4) by (simp add: kpre_def)
  moreover have "currpid s \<notin> set ?ps"
    using waiting_not_current[OF k1(1) sem(1), of "currpid s"] k(2) by (auto dest: in_set_takeD)
  ultimately have "released ?ps s s'" by (intro releasedI[OF _ r(4)]) simp_all
  moreover have "signaln sem count s = bindk (resched_cntl DEFER_STOP s') (\<lambda>_ s. Return OK s)"
    using sem c by (simp add: signaln_def resched_start[OF k(3)] r(1))
  ultimately show ?thesis using that \<open>kpre L' s'\<close> r(5,6) k(4) by simp
qed

lemma kinv_signaln:
  assumes inv: "kinv s" and ov: "scount (semtab s sem) + count < 2147483648"
  shows "kcall (signaln sem count) s"
proof (cases "isbadsem sem \<or> count < 0 \<or> sstate (semtab s sem) = S_FREE")
  case True
  then show ?thesis using inv by (auto simp: kcall_def signaln_def)
next
  case False
  then show ?thesis using signaln_eq[OF inv _ _ _ ov] released_kcall[OF inv] by (metis not_less)
qed

section \<open>Deleting and resetting\<close>

lemma semdelete_loop_eq:
  assumes "kbase {} L s" and sem: "\<not> isbadsem sem"
    and "- int n \<le> scount (semtab s sem)" "n \<le> 100"
    and "length (L (squeue (semtab s sem))) = nat (- scount (semtab s sem))" and nd: "0 < ndefers s"
  shows "\<exists>s' L'. semdelete_loop (Suc n) sem s = Return () s' \<and> kbase {} L' s' \<and>
    moved (L (squeue (semtab s sem))) s s' \<and> L' (squeue (semtab s sem)) = [] \<and>
    (\<forall>r. r \<noteq> squeue (semtab s sem) \<longrightarrow> r \<noteq> 300 \<longrightarrow> L' r = L r) \<and>
    (\<exists>c. semtab s' = (semtab s)(sem := (semtab s sem)\<lparr>scount := c\<rparr>))"
  using assms
proof (induction n arbitrary: L s)
  case 0
  let ?s = "upsem sem (\<lambda>e. e\<lparr>scount := i32 (scount e + 1)\<rparr>) s"
  show ?case
    by (rule exI[of _ ?s], rule exI[of _ L]) (use 0 in \<open>auto simp: Let_def kbase_upsem moved_Nil\<close>)
next
  case (Suc n)
  let ?q = "squeue (semtab s sem)"
  let ?s0 = "upsem sem (\<lambda>e. e\<lparr>scount := i32 (scount e + 1)\<rparr>) s"
  show ?case
  proof (cases "scount (semtab s sem) < 0")
    case False
    show ?thesis
      by (rule exI[of _ ?s0], rule exI[of _ L])
        (use False Suc.prems in \<open>auto simp: Let_def kbase_upsem moved_Nil\<close>)
  next
    case True
    note q = sem_queue[OF Suc.prems(1) sem]
    have i: "i32 (scount (semtab s sem) + 1) = scount (semtab s sem) + 1" using Suc.prems(3,4) True by simp
    obtain p rest where L: "L ?q = p # rest" using Suc.prems(5) True by (cases "L ?q") auto
    have kb0: "kbase {} L ?s0" using Suc.prems(1) by (simp add: kbase_upsem)
    obtain s1 L1 where r: "bindk (liftk (getfirst ?q ?s0)) (\<lambda>p s. ready p s) = Return OK s1"
      "kbase {} L1 s1" "moved [p] ?s0 s1" "semtab s1 = semtab ?s0" "L1 ?q = rest"
      "\<And>r. r \<noteq> ?q \<Longrightarrow> r \<noteq> 300 \<Longrightarrow> L1 r = L r"
      by (rule release_one[OF kb0 q(1,2) L _ disjI2[OF refl]]) (use Suc.prems(6) in simp_all)
    have s1: "squeue (semtab s1 sem) = ?q" "scount (semtab s1 sem) = scount (semtab s sem) + 1"
      using r(4) i by simp_all
    have "\<exists>s' L'. semdelete_loop (Suc n) sem s1 = Return () s' \<and> kbase {} L' s' \<and>
      moved (L1 ?q) s1 s' \<and> L' ?q = [] \<and> (\<forall>r. r \<noteq> ?q \<longrightarrow> r \<noteq> 300 \<longrightarrow> L' r = L1 r) \<and>
      (\<exists>c. semtab s' = (semtab s1)(sem := (semtab s1 sem)\<lparr>scount := c\<rparr>))"
      by (rule Suc.IH[OF r(2) sem, unfolded s1])
        (use Suc.prems(3-6) L r(5) True moved_fields(4)[OF r(3)] in auto)
    then obtain s' L' c where r': "semdelete_loop (Suc n) sem s1 = Return () s'" "kbase {} L' s'"
      "moved (L1 ?q) s1 s'" "L' ?q = []" "\<And>r. r \<noteq> ?q \<Longrightarrow> r \<noteq> 300 \<Longrightarrow> L' r = L1 r"
      "semtab s' = (semtab s1)(sem := (semtab s1 sem)\<lparr>scount := c\<rparr>)" by blast
    have "semdelete_loop (Suc (Suc n)) sem s = semdelete_loop (Suc n) sem s1"
      unfolding semdelete_loop.simps(2)[of "Suc n"] using True r(1) by (simp add: Let_def)
    moreover have "moved (L ?q) s s'" using moved_append[OF _ r'(3), of "[p]" s] r(3,5) L by simp
    moreover have "semtab s' = (semtab s)(sem := (semtab s sem)\<lparr>scount := c\<rparr>)"
      unfolding r'(6) r(4) by simp
    ultimately show ?thesis
      using r'(1,2,4,5) r(6) by (intro exI[of _ s'] exI[of _ L']) auto
  qed
qed

lemma semreset_loop_eq:
  assumes "kbase {} L s" and q: "q \<in> qids" "q \<noteq> 300"
    and "length (L q) \<le> n" and nd: "0 < ndefers s"
  shows "\<exists>s' L'. semreset_loop (Suc n) q s = Return () s' \<and> kbase {} L' s' \<and>
    moved (L q) s s' \<and> L' q = [] \<and> (\<forall>r. r \<noteq> q \<longrightarrow> r \<noteq> 300 \<longrightarrow> L' r = L r) \<and> semtab s' = semtab s"
  using assms
proof (induction n arbitrary: L s)
  case 0
  then show ?case
    using getfirst_empty[OF kbaseD(2)[OF 0(1)] q(1)] by (intro exI[of _ s] exI[of _ L]) (simp add: moved_Nil)
next
  case (Suc n)
  show ?case
  proof (cases "L q")
    case Nil
    then show ?thesis
      using getfirst_empty[OF kbaseD(2)[OF Suc.prems(1)] q(1)] Suc.prems(1)
      by (intro exI[of _ s] exI[of _ L]) (simp add: moved_Nil)
  next
    case (Cons p rest)
    obtain s1 L1 where r: "bindk (liftk (getfirst q s)) (\<lambda>p s. ready p s) = Return OK s1"
      "kbase {} L1 s1" "moved [p] s s1" "semtab s1 = semtab s" "L1 q = rest"
      "\<And>r. r \<noteq> q \<Longrightarrow> r \<noteq> 300 \<Longrightarrow> L1 r = L r"
      by (rule release_one[OF Suc.prems(1) q Cons _ disjI2[OF refl]]) (use Suc.prems(5) in simp_all)
    obtain s0 where g: "getfirst q s = Some (p, s0)"
      using getfirst_spec[OF kbaseD(2)[OF Suc.prems(1)] q(1) Cons] by auto
    have "0 \<le> p" using wfqs_procs[OF kbaseD(2)[OF Suc.prems(1)] q(1), of p] Cons by simp
    then have "semreset_loop (Suc (Suc n)) q s = semreset_loop (Suc n) q s1"
      unfolding semreset_loop.simps(2)[of "Suc n"] using r(1) g by simp
    moreover have "\<exists>s' L'. semreset_loop (Suc n) q s1 = Return () s' \<and> kbase {} L' s' \<and>
      moved (L1 q) s1 s' \<and> L' q = [] \<and> (\<forall>r. r \<noteq> q \<longrightarrow> r \<noteq> 300 \<longrightarrow> L' r = L1 r) \<and> semtab s' = semtab s1"
      by (rule Suc.IH[OF r(2) q]) (use Suc.prems(4,5) Cons r(5) moved_fields(4)[OF r(3)] in auto)
    moreover have "moved (L q) s s'" if "moved (L1 q) s1 s'" for s'
      using moved_append[OF r(3) that] r(5) Cons by simp
    ultimately show ?thesis using r(4,6) by auto
  qed
qed

lemma semdelete_eq:
  assumes inv: "kinv s" and sem: "\<not> isbadsem sem" "sstate (semtab s sem) \<noteq> S_FREE"
  obtains s' L' where "semdelete sem s = bindk (resched_cntl DEFER_STOP s') (\<lambda>_ s. Return OK s)"
    "released (qcontents s (squeue (semtab s sem))) s s'" "kpre L' s'" "L' (squeue (semtab s sem)) = []"
    "sstate (semtab s' sem) = S_FREE" "\<And>i. i \<noteq> sem \<Longrightarrow> semtab s' i = semtab s i"
proof -
  from inv obtain L where k: "kpre L s" "prstate (proctab s (currpid s)) = PR_CURR" "ndefers s = 0" "L = qcontents s"
    by (auto simp: kinv_def)
  let ?f = "upsem sem (sstate_update (\<lambda>_. S_FREE)) s"
  let ?s1 = "?f\<lparr>ndefers := 1, attempt := False\<rparr>"
  let ?q = "squeue (semtab s sem)"
  from k(1) have k0: "kbase {} L s" "ksems L s" "kcur s" "kranges s" by (simp_all add: kpre_def)
  have k1: "kbase {} L ?s1"
    using k0(1) by (simp add: kbase_fields[of ?s1 ?f] kbase_upsem)
  note len = ksemsD[OF k0(2) sem] sem_queue_length[OF k0(1) sem(1)]
  have lo: "- 100 \<le> scount (semtab s sem)" using len by linarith
  obtain s' L' c where r: "semdelete_loop 101 sem ?s1 = Return () s'" "kbase {} L' s'"
    "moved (L ?q) ?s1 s'" "L' ?q = []" "\<And>r. r \<noteq> ?q \<Longrightarrow> r \<noteq> 300 \<Longrightarrow> L' r = L r"
    "semtab s' = (semtab ?s1)(sem := (semtab ?s1 sem)\<lparr>scount := c\<rparr>)"
    using semdelete_loop_eq[OF k1 sem(1), of 100] len lo by auto
  note m = moved_fields[OF r(3)]
  have "ksems L' s'"
    by (rule ksems_change[OF k0(2) kbaseD(1)[OF k0(1)] sem(1)]) (use r(4-6) in \<open>auto simp: ksem_at_def\<close>)
  moreover have "kcur s'" by (rule m(6)) (use k0(3) in \<open>simp add: kcur_def\<close>)
  ultimately have pre: "kpre L' s'" using r(2) m(5) k0(4) by (simp add: kpre_def kranges_def)
  have "currpid s \<notin> set (L ?q)"
    using waiting_not_current[OF k0(1) sem(1), of "currpid s"] k(2) by auto
  then have "released (L ?q) s s'" by (intro releasedI[OF pre r(3)]) (simp_all add: upsem_def)
  moreover have "resched_cntl DEFER_START ?f = Return OK ?s1" using k(3) by (simp add: resched_start)
  then have "semdelete sem s = bindk (resched_cntl DEFER_STOP s') (\<lambda>_ s. Return OK s)"
    using sem r(1) by (simp add: semdelete_def Let_def)
  ultimately show ?thesis using that pre r(4,6) k(4) by simp
qed

lemma kinv_semdelete:
  assumes inv: "kinv s"
  shows "kcall (semdelete sem) s"
proof (cases "isbadsem sem \<or> sstate (semtab s sem) = S_FREE")
  case True
  then show ?thesis using inv by (auto simp: kcall_def semdelete_def)
next
  case False
  then show ?thesis using semdelete_eq[OF inv] released_kcall[OF inv] by metis
qed

lemma semreset_eq:
  assumes inv: "kinv s" and sem: "\<not> isbadsem sem" "sstate (semtab s sem) \<noteq> S_FREE"
    and c: "0 \<le> count" "count < 2147483648"
  obtains s' L' where "semreset sem count s = bindk (resched_cntl DEFER_STOP s') (\<lambda>_ s. Return OK s)"
    "released (qcontents s (squeue (semtab s sem))) s s'" "kpre L' s'" "L' (squeue (semtab s sem)) = []"
    "semtab s' = (semtab s)(sem := (semtab s sem)\<lparr>scount := count\<rparr>)"
proof -
  from inv obtain L where k: "kpre L s" "prstate (proctab s (currpid s)) = PR_CURR" "ndefers s = 0" "L = qcontents s"
    by (auto simp: kinv_def)
  let ?s1 = "s\<lparr>ndefers := 1, attempt := False\<rparr>"
  let ?q = "squeue (semtab s sem)"
  from kpre_start[OF k(1)] have k1: "kbase {} L ?s1" "ksems L ?s1" "kcur ?s1" "kranges ?s1"
    by (simp_all add: kpre_def)
  note q = sem_queue[OF k1(1) sem(1), simplified]
  obtain s' L' where r: "semreset_loop 101 ?q ?s1 = Return () s'" "kbase {} L' s'"
    "moved (L ?q) ?s1 s'" "L' ?q = []" "\<And>r. r \<noteq> ?q \<Longrightarrow> r \<noteq> 300 \<Longrightarrow> L' r = L r" "semtab s' = semtab s"
    using semreset_loop_eq[OF k1(1) q(1,2), of 100] sem_queue_length[OF k1(1) sem(1)] by auto
  note m = moved_fields[OF r(3)]
  let ?s2 = "upsem sem (scount_update (\<lambda>_. count)) s'"
  have "ksems L' ?s2"
    by (rule ksems_change[OF k1(2) kbaseD(1)[OF k1(1)] sem(1)])
      (use r(4-6) c in \<open>auto simp: ksem_at_def split: semstate.split\<close>)
  moreover have "kcur ?s2" using m(6)[OF k1(3)] by (simp add: kcur_def)
  moreover have "kranges ?s2" using m(5) k1(4) by (simp add: kranges_def)
  ultimately have pre: "kpre L' ?s2" using r(2) by (simp add: kpre_def kbase_upsem)
  have "currpid s \<notin> set (L ?q)"
    using waiting_not_current[OF k1(1) sem(1), of "currpid s"] k(2) by auto
  moreover have mv: "moved (L ?q) ?s1 ?s2" using r(3) by simp
  ultimately have "released (L ?q) s ?s2" by (intro releasedI[OF pre mv]) simp_all
  moreover have "semreset sem count s = bindk (resched_cntl DEFER_STOP ?s2) (\<lambda>_ s. Return OK s)"
    using sem c by (simp add: semreset_def Let_def resched_start[OF k(3)] r(1))
  ultimately show ?thesis using that pre r(4,6) k(4) by simp
qed

lemma kinv_semreset:
  assumes inv: "kinv s" and ov: "count < 2147483648"
  shows "kcall (semreset sem count) s"
proof (cases "count < 0 \<or> isbadsem sem \<or> sstate (semtab s sem) = S_FREE")
  case True
  then show ?thesis using inv by (auto simp: kcall_def semreset_def)
next
  case False
  then show ?thesis using semreset_eq[OF inv _ _ _ ov] released_kcall[OF inv] by (metis not_less)
qed

lemma kinv_semcount: "kinv s \<Longrightarrow> kcall (semcount sem) s"
  by (simp add: kcall_def semcount_def)

end
