(* ===== verification/Clock.thy ===== *)
theory Clock
  imports Sched_Inv
begin

text \<open>
  The clock and the delta list of sleeping processes: \<^verbatim>\<open>system/sleep.c\<close>, \<^verbatim>\<open>unsleep.c\<close>,
  \<^verbatim>\<open>wakeup.c\<close>, \<^verbatim>\<open>clkhandler.c\<close>. The key of a process on \<^verbatim>\<open>sleepq\<close> is the number of milliseconds
  it sleeps beyond its predecessor, so the time it has left is the sum of the keys up to its own
  (\<open>rems\<close>).
\<close>

section \<open>The code\<close>

definition MAXSECONDS :: int where [simp]: "MAXSECONDS = 2147483"

definition sleepms :: "int \<Rightarrow> kstate \<Rightarrow> (kstate, int) step" where
  "sleepms delay s =
    (if delay < 0 then Return SYSERR s
     else if delay = 0 then bindk (yield s) (\<lambda>_ s. Return OK s)
     else bindk (liftk (insertd (currpid s) (sleepq s) delay s)) (\<lambda>r s.
       if r = SYSERR then Return SYSERR s
       else bindk (resched (set_prstate (currpid s) PR_SLEEP s)) (\<lambda>_ s. Return OK s)))"

definition sleep :: "int \<Rightarrow> kstate \<Rightarrow> (kstate, int) step" where
  "sleep delay s =
    (if delay < 0 \<or> delay > MAXSECONDS then Return SYSERR s
     else bindk (sleepms (i32 (1000 * delay)) s) (\<lambda>_ s. Return OK s))"

definition unsleep :: "int \<Rightarrow> kstate \<Rightarrow> (int \<times> kstate) option" where
  "unsleep pid s =
    (if isbadpid s pid then Some (SYSERR, s)
     else if prstate (proctab s pid) \<noteq> PR_SLEEP \<and> prstate (proctab s pid) \<noteq> PR_RECTIM
     then Some (SYSERR, s)
     else do {
       e \<leftarrow> rdq pid s;
       let pidnext = qnext e;
       s \<leftarrow> (if pidnext < NPROC then upq pidnext (qkey_update (\<lambda>k. i32 (k + qkey e))) s else Some s);
       (_, s) \<leftarrow> getitem pid s;
       Some (OK, s) })"

text \<open>
  The loop of \<^verbatim>\<open>wakeup\<close>, on fuel: every turn removes a process from \<^verbatim>\<open>sleepq\<close>, so \<open>NPROC + 1\<close>
  turns are enough (\<open>wakeup_loop_eq\<close>).
\<close>

primrec wakeup_loop :: "nat \<Rightarrow> kstate \<Rightarrow> (kstate, unit) step" where
  "wakeup_loop 0 s = Fault"
| "wakeup_loop (Suc n) s =
    (case nonempty (sleepq s) s of
       None \<Rightarrow> Fault
     | Some False \<Rightarrow> Return () s
     | Some True \<Rightarrow>
        (case firstkey (sleepq s) s of
           None \<Rightarrow> Fault
         | Some k \<Rightarrow>
             if k \<le> 0 then
               bindk (bindk (liftk (dequeue (sleepq s) s)) (\<lambda>p s. ready p s)) (\<lambda>_ s. wakeup_loop n s)
             else Return () s))"

definition wakeup :: "kstate \<Rightarrow> (kstate, unit) step" where
  "wakeup s =
     bindk (resched_cntl DEFER_START s) (\<lambda>_ s.
     bindk (wakeup_loop (Suc (nat NPROC)) s) (\<lambda>_ s.
     bindk (resched_cntl DEFER_STOP s) (\<lambda>_ s. Return () s)))"

text \<open>
  The clock interrupt handler is a chain of the statements of \<^verbatim>\<open>clkhandler\<close>. Whether the timer
  raised the interrupt (\<^verbatim>\<open>tisr\<close>) is an argument.
\<close>

definition clk_count :: "kstate \<Rightarrow> kstate" where
  "clk_count s =
    (let s = s\<lparr>count1000 := u32 (count1000 s - 1)\<rparr> in
     if count1000 s = 0 then s\<lparr>clktime := u32 (clktime s + 1), count1000 := 1000\<rparr> else s)"

definition clk_sleepq :: "kstate \<Rightarrow> (bool \<times> kstate) option" where
  "clk_sleepq s = do {
     em \<leftarrow> isempty (sleepq s) s;
     if em then Some (False, s)
     else do {
       f \<leftarrow> firstid (sleepq s) s;
       s \<leftarrow> upq f (qkey_update (\<lambda>k. i32 (k - 1))) s;
       e \<leftarrow> rdq f s;
       Some (qkey e = 0, s) } }"

definition clk_preempt :: "kstate \<Rightarrow> (kstate, unit) step" where
  "clk_preempt s =
    (let s = s\<lparr>preempt := u32 (preempt s - 1)\<rparr> in
     if preempt s = 0 then resched (s\<lparr>preempt := QUANTUM\<rparr>) else Return () s)"

definition clkhandler :: "bool \<Rightarrow> kstate \<Rightarrow> (kstate, unit) step" where
  "clkhandler irq s =
    (if \<not> irq then Return () s
     else bindk (liftk (clk_sleepq (clk_count s))) (\<lambda>due s.
          bindk (if due then wakeup s else Return () s) (\<lambda>_ s. clk_preempt s)))"

section \<open>Removing from and inserting into the delta list\<close>

lemma kbase_keys:
  assumes kb: "kbase X L s" and p: "p \<in> procs" "p \<notin> set (L 300)"
    and n: "\<And>i. qnext (Q' i) = qnext (queuetab s i)" and v: "\<And>i. qprev (Q' i) = qprev (queuetab s i)"
    and K: "\<And>i. i \<noteq> p \<Longrightarrow> qkey (Q' i) = qkey (queuetab s i)"
  shows "kbase X L (s\<lparr>queuetab := Q'\<rparr>)"
proof -
  note k = kbaseD[OF kb] and ly = qlayoutD[OF kbaseD(1)[OF kb]]
  have wq: "where_q (s\<lparr>queuetab := Q'\<rparr>) r = where_q s r" for r by (intro where_q_cong) simp_all
  have "wfq Q' q (L q)" if "q \<in> qids" for q
    by (rule wfq_frame[OF wfqs_wfq[OF k(2) that]]) (use n v K p(1) that in \<open>auto simp: in_qids\<close>)
  then have "wfqs Q' L" using k(2) by (auto simp: wfqs_def)
  moreover have "sorted_wrt (\<lambda>a b. qkey (Q' b) \<le> qkey (Q' a)) (L 300)"
    by (rule sorted_wrt_mono_rel[OF _ k(7)[unfolded ly(1)]]) (metis K p(2))
  ultimately show ?thesis
    using k ly(1) unfolding kbase_def qlayout_def by (simp add: wq)
qed

lemma sleeping_where:
  assumes kb: "kbase {} L s" and p: "\<not> isbadpid s p"
    and st: "prstate (proctab s p) = PR_SLEEP \<or> prstate (proctab s p) = PR_RECTIM"
  obtains us vs where "L 302 = us @ p # vs"
proof -
  have "where_q s p = Some 302" using st qlayoutD(2)[OF kbaseD(1)[OF kb]] by (auto simp: where_q_def)
  then have "p \<in> set (L 302)" using kbaseD(3)[OF kb, of p 302] p by (simp add: isbadpid_iff)
  then show ?thesis using that by (meson split_list)
qed

lemma unsleep_eq:
  assumes kb: "kbase {} L s" and p: "\<not> isbadpid s p"
    and st: "prstate (proctab s p) = PR_SLEEP \<or> prstate (proctab s p) = PR_RECTIM"
    and L: "L 302 = us @ p # vs"
  obtains Q' where "unsleep p s = Some (OK, s\<lparr>queuetab := Q'\<rparr>)"
    "kbase {p} (L(302 := us @ vs)) (s\<lparr>queuetab := Q'\<rparr>)"
    "\<And>i. qkey (Q' i) = (if vs \<noteq> [] \<and> i = hd vs then i32 (qkey (queuetab s i) + qkey (queuetab s p))
       else qkey (queuetab s i))"
proof -
  note wf = wfqs_wfq[OF kbaseD(2)[OF kb] qids_300(2), unfolded L]
  have sub: "set (us @ p # vs) \<subseteq> procs" and nx: "qnext (queuetab s p) = hd (vs @ [303])"
    using wfqD[OF wf] seg_mid[of "queuetab s" 302 us p vs 303] by auto
  have pq: "inq p" using sub by (auto simp: inq_def)
  let ?Q = "queuetab s"
  let ?Q1 = "if vs = [] then ?Q else ?Q(hd vs := (?Q (hd vs))\<lparr>qkey := i32 (qkey (?Q (hd vs)) + qkey (?Q p))\<rparr>)"
  let ?s1 = "s\<lparr>queuetab := ?Q1\<rparr>"
  have kb1: "kbase {} L ?s1"
  proof (cases "vs = []")
    case True
    then show ?thesis using kb by (subst kbase_fields[where s = s]) simp_all
  next
    case False
    then have h: "hd vs \<in> procs" "hd vs \<in> set (L 302)" using sub L by (cases vs; simp)+
    then have "hd vs \<notin> set (L 300)" using wfqs_disjoint[OF kbaseD(2)[OF kb] qids_300(2,1)] by simp
    then show ?thesis using False by (intro kbase_keys[OF kb h(1)]) auto
  qed
  obtain Q' where Q': "getitem p ?s1 = Some (p, ?s1\<lparr>queuetab := Q'\<rparr>)" "wfqs Q' (L(302 := us @ vs))"
    "\<And>i. qkey (Q' i) = qkey (queuetab ?s1 i)"
    using getitem_spec[OF kbaseD(2)[OF kb1] qids_300(2) L] by auto
  have "kbase ({} \<union> {p}) (L(302 := us @ vs)) (?s1\<lparr>queuetab := Q'\<rparr>)"
    by (rule kbase_remove[OF kb1 qids_300(2) L Q'(2,3)])
  moreover have "(if qnext (?Q p) < 100 then upq (qnext (?Q p)) (qkey_update (\<lambda>k. i32 (k + qkey (?Q p)))) s
      else Some s) = Some ?s1"
  proof (cases vs)
    case (Cons v vs')
    then have "v \<in> procs" using sub by simp
    then show ?thesis using Cons nx by (cases "?Q v") (simp add: upq_def inq_def)
  qed (simp add: nx)
  ultimately show ?thesis
    using that[of Q'] Q' p st pq by (simp add: unsleep_def rdq_def)
qed

lemma kbase_insertd:
  assumes kb: "kbase {} L s" and p: "\<not> isbadpid s p" "where_q s p = None" "p \<noteq> 0"
    and ds: "dsplit (\<lambda>i. qkey (queuetab s i)) key (L 302) = (us, vs, k)"
    and st: "st = PR_SLEEP \<or> st = PR_RECTIM"
  obtains Q' where "insertd p 302 key s = Some (OK, s\<lparr>queuetab := Q'\<rparr>)"
    "kbase {} (L(302 := us @ p # vs)) (set_prstate p st (s\<lparr>queuetab := Q'\<rparr>))"
    "\<And>i. qkey (Q' i) = (if i = p then k else if vs \<noteq> [] \<and> i = hd vs then i32 (qkey (queuetab s i) - k)
       else qkey (queuetab s i))"
proof -
  note k = kbaseD[OF kb] and ly = qlayoutD[OF kbaseD(1)[OF kb]]
  have pp: "p \<in> procs" using p by (simp add: isbadpid_iff)
  have fresh: "p \<notin> set (L r)" if "r \<in> qids" for r using k(3)[OF pp that] p(2) by simp
  obtain Q' where Q': "insertd p 302 key s = Some (OK, s\<lparr>queuetab := Q'\<rparr>)" "wfqs Q' (L(302 := us @ p # vs))"
    "\<And>i. qkey (Q' i) = (if i = p then k else if vs \<noteq> [] \<and> i = hd vs then i32 (qkey (queuetab s i) - k)
       else qkey (queuetab s i))"
    using insertd_spec[OF k(2) qids_300(2) p(1) fresh ds] by auto
  let ?s = "set_prstate p st (s\<lparr>queuetab := Q'\<rparr>)"
  note split = dsplit_append[OF ds]
  have wq: "where_q ?s r = (if r = p then Some 302 else where_q s r)" for r
    using st ly(2) by (auto simp: where_q_def set_prstate_def split: pstate.split)
  have mem: "\<forall>r\<in>procs. \<forall>q\<in>qids. r \<in> set ((L(302 := us @ p # vs)) q) \<longleftrightarrow> r \<notin> {} \<and> where_q ?s r = Some q"
  proof (intro ballI)
    fix r q assume r: "r \<in> procs" and q: "q \<in> qids"
    have "r \<noteq> p \<Longrightarrow> r \<in> set ((L(302 := us @ p # vs)) q) \<longleftrightarrow> r \<in> set (L q)" using split by auto
    then show "r \<in> set ((L(302 := us @ p # vs)) q) \<longleftrightarrow> r \<notin> {} \<and> where_q ?s r = Some q"
      using k(3)[OF r q] fresh[OF q] by (cases "r = p") (auto simp: wq)
  qed
  have "sorted_wrt (\<lambda>a b. qkey (Q' b) \<le> qkey (Q' a)) (L 300)"
  proof (rule sorted_wrt_mono_rel[OF _ k(7)[unfolded ly(1)]])
    fix x y assume "x \<in> set (L 300)" "y \<in> set (L 300)" and le: "qkey (queuetab s y) \<le> qkey (queuetab s x)"
    moreover have "qkey (Q' z) = qkey (queuetab s z)" if "z \<in> set (L 300)" for z
      using Q'(3)[of z] that fresh[of 300] wfqs_disjoint[OF k(2) qids_300(1,2), of z] split
      by (cases vs) auto
    ultimately show "qkey (Q' y) \<le> qkey (Q' x)" by simp
  qed
  then have srt: "sorted_wrt (\<lambda>a b. qkey (queuetab ?s b) \<le> qkey (queuetab ?s a)) ((L(302 := us @ p # vs)) (readylist ?s))"
    using ly(1) by simp
  have "kbase {} (L(302 := us @ p # vs)) ?s"
    unfolding kbase_def
    by (intro conjI; (rule mem srt)?) (use k(1,4,5,6,8) Q'(2) p(3) st in \<open>auto simp: qlayout_def\<close>)
  then show ?thesis using that Q' by blast
qed

section \<open>The invariant\<close>

lemma kinv_unsleep:
  assumes "kinv s"
  shows "\<exists>r s'. unsleep p s = Some (r, s')"
proof -
  from assms obtain L where kb: "kbase {} L s" by (elim kinvE)
  show ?thesis
  proof (cases "isbadpid s p \<or> prstate (proctab s p) \<noteq> PR_SLEEP \<and> prstate (proctab s p) \<noteq> PR_RECTIM")
    case False
    then obtain us vs where "L 302 = us @ p # vs" using sleeping_where[OF kb] by blast
    with False show ?thesis using unsleep_eq[OF kb, of p] by metis
  qed (auto simp: unsleep_def)
qed

lemma ksems_302: "qlayout s \<Longrightarrow> semtab s' = semtab s \<Longrightarrow> ksems L s \<Longrightarrow> ksems (L(302 := xs)) s'"
  using ksems_fields[of s' s] ksems_other(2)[of s L xs] by simp

text \<open>The common part of \<^verbatim>\<open>sleepms\<close> and \<^verbatim>\<open>recvtime\<close>: the caller joins the delta list and is switched out.\<close>

lemma block_on_clock:
  assumes inv: "kinv s" and null: "currpid s \<noteq> 0" and st: "st = PR_SLEEP \<or> st = PR_RECTIM"
    and ds: "dsplit (\<lambda>i. qkey (queuetab s i)) key (qcontents s 302) = (us, vs, k)"
  obtains Q' where "insertd (currpid s) (sleepq s) key s = Some (OK, s\<lparr>queuetab := Q'\<rparr>)"
    "kpre ((qcontents s)(302 := us @ currpid s # vs)) (set_prstate (currpid s) st (s\<lparr>queuetab := Q'\<rparr>))"
    "\<And>i. qkey (Q' i) = (if i = currpid s then k else if vs \<noteq> [] \<and> i = hd vs then i32 (qkey (queuetab s i) - k)
       else qkey (queuetab s i))"
proof -
  from inv obtain L where k: "kbase {} L s" "ksems L s" "kcur s" "kranges s"
    "prstate (proctab s (currpid s)) = PR_CURR" "ndefers s = 0" and L: "L = qcontents s" by (elim kinvE)
  have "where_q s (currpid s) = None" using k(5) by (simp add: where_q_def)
  then obtain Q' where Q': "insertd (currpid s) 302 key s = Some (OK, s\<lparr>queuetab := Q'\<rparr>)"
    "kbase {} (L(302 := us @ currpid s # vs)) (set_prstate (currpid s) st (s\<lparr>queuetab := Q'\<rparr>))"
    "\<And>i. qkey (Q' i) = (if i = currpid s then k else if vs \<noteq> [] \<and> i = hd vs then i32 (qkey (queuetab s i) - k)
       else qkey (queuetab s i))"
    using kbase_insertd[OF k(1) kinv_isbadpid[OF inv] _ null ds[folded L] st] by metis
  let ?s = "set_prstate (currpid s) st (s\<lparr>queuetab := Q'\<rparr>)"
  have "ksems (L(302 := us @ currpid s # vs)) ?s"
    by (rule ksems_302[OF kbaseD(1)[OF k(1)] _ k(2)]) simp
  moreover have "kcur ?s" using k(3) by (auto simp: kcur_def)
  moreover have "kranges ?s" using k(4) by (simp add: kranges_def)
  ultimately have "kpre (L(302 := us @ currpid s # vs)) ?s" using Q'(2) by (simp add: kpre_def)
  then show ?thesis
    using that[of Q'] Q'(1,3) L qlayoutD(2)[OF kbaseD(1)[OF k(1)]] by simp
qed

lemma kinv_sleepms:
  assumes inv: "kinv s" and null: "currpid s \<noteq> 0"
  shows "kcall (sleepms delay) s"
proof (cases "delay \<le> 0")
  case True
  then show ?thesis using inv kinv_yield[OF inv] by (auto simp: kcall_def sleepms_def)
next
  case False
  obtain us vs k where ds: "dsplit (\<lambda>i. qkey (queuetab s i)) delay (qcontents s 302) = (us, vs, k)"
    by (rule prod_cases3)
  obtain Q' where Q': "insertd (currpid s) (sleepq s) delay s = Some (OK, s\<lparr>queuetab := Q'\<rparr>)"
    "kpre ((qcontents s)(302 := us @ currpid s # vs)) (set_prstate (currpid s) PR_SLEEP (s\<lparr>queuetab := Q'\<rparr>))"
    (is "kpre _ ?s2")
    using block_on_clock[OF inv null disjI1[OF refl] ds] by metis
  have "ndefers s = 0" using inv by (elim kinvE)
  then have "kok (currpid s) (\<lambda>_ s'. kinv s' \<and> currpid s' = currpid s) (resched ?s2)"
    using resched_kok[OF Q'(2), of "\<lambda>_ s'. kinv s' \<and> currpid s' = currpid s"] by simp
  then show ?thesis using False Q'(1) by (auto simp: kcall_def sleepms_def elim: kok_mono)
qed

lemma kinv_sleep: "kinv s \<Longrightarrow> currpid s \<noteq> 0 \<Longrightarrow> kcall (sleep delay) s"
  using kinv_sleepms[of s "i32 (1000 * delay)"] by (auto simp: kcall_def sleep_def elim: kok_mono)

section \<open>Waking up\<close>

text \<open>The processes that \<^verbatim>\<open>wakeup\<close> releases: those at the front with nothing left to sleep.\<close>

definition due :: "kstate \<Rightarrow> int list" where
  "due s = takeWhile (\<lambda>p. qkey (queuetab s p) \<le> 0) (qcontents s 302)"

lemma wakeup_loop_eq:
  assumes "kbase {} L s" "ksems L s" "length (L 302) \<le> n" and nd: "0 < ndefers s"
  shows "\<exists>s' L'. wakeup_loop (Suc n) s = Return () s' \<and> kbase {} L' s' \<and> ksems L' s' \<and>
    moved (takeWhile (\<lambda>p. qkey (queuetab s p) \<le> 0) (L 302)) s s' \<and>
    L' 302 = dropWhile (\<lambda>p. qkey (queuetab s p) \<le> 0) (L 302) \<and> semtab s' = semtab s \<and>
    (\<forall>p\<in>set (L' 302). qkey (queuetab s' p) = qkey (queuetab s p))"
  using assms
proof (induction n arbitrary: L s)
  case 0
  then show ?case
    using isempty_spec(2)[OF kbaseD(2)[OF 0(1)] qids_300(2)] qlayoutD(2)[OF kbaseD(1)[OF 0(1)]]
    by (intro exI[of _ s] exI[of _ L]) (simp add: moved_Nil)
next
  case (Suc n)
  note kb = Suc.prems(1) and ly = qlayoutD(2)[OF kbaseD(1)[OF Suc.prems(1)]]
  note ne = isempty_spec(2)[OF kbaseD(2)[OF kb] qids_300(2)] firstkey_spec[OF kbaseD(2)[OF kb] qids_300(2)]
  show ?case
  proof (cases "L 302")
    case Nil
    then show ?thesis
      using ne Suc.prems(1,2) ly by (intro exI[of _ s] exI[of _ L]) (simp add: moved_Nil)
  next
    case (Cons p rest)
    note L = Cons
    show ?thesis
    proof (cases "qkey (queuetab s p) \<le> 0")
      case False
      then show ?thesis
        using ne Suc.prems(1,2) ly L by (intro exI[of _ s] exI[of _ L]) (simp add: moved_Nil)
    next
      case True
      obtain s1 L1 where r: "bindk (liftk (dequeue 302 s)) (\<lambda>p s. ready p s) = Return OK s1"
        "kbase {} L1 s1" "moved [p] s s1" "semtab s1 = semtab s" "L1 302 = rest"
        "\<And>r. r \<noteq> 302 \<Longrightarrow> r \<noteq> 300 \<Longrightarrow> L1 r = L r"
        "\<And>i. i \<noteq> p \<Longrightarrow> qkey (queuetab s1 i) = qkey (queuetab s i)"
        by (rule release_one[OF kb qids_300(2) _ L _ disjI1[OF refl]]) (use Suc.prems(4) in simp_all)
      have p: "p \<notin> set rest" using wfqD(4)[OF wfqs_wfq[OF kbaseD(2)[OF kb] qids_300(2)]] L by simp
      have "ksems L1 s1 = ksems L s"
        unfolding ksems_fields[OF r(4)]
        by (rule ksems_agree[OF kbaseD(1)[OF kb]]) (use r(6) in simp)
      then have "\<exists>s' L'. wakeup_loop (Suc n) s1 = Return () s' \<and> kbase {} L' s' \<and> ksems L' s' \<and>
        moved (takeWhile (\<lambda>p. qkey (queuetab s1 p) \<le> 0) (L1 302)) s1 s' \<and>
        L' 302 = dropWhile (\<lambda>p. qkey (queuetab s1 p) \<le> 0) (L1 302) \<and> semtab s' = semtab s1 \<and>
        (\<forall>p\<in>set (L' 302). qkey (queuetab s' p) = qkey (queuetab s1 p))"
        using Suc.prems(2-4) L r(5) moved_fields(4)[OF r(3)] by (intro Suc.IH[OF r(2)]) simp_all
      then obtain s' L' where r': "wakeup_loop (Suc n) s1 = Return () s'" "kbase {} L' s'" "ksems L' s'"
        "moved (takeWhile (\<lambda>p. qkey (queuetab s1 p) \<le> 0) rest) s1 s'"
        "L' 302 = dropWhile (\<lambda>p. qkey (queuetab s1 p) \<le> 0) rest" "semtab s' = semtab s1"
        "\<And>p. p \<in> set (L' 302) \<Longrightarrow> qkey (queuetab s' p) = qkey (queuetab s1 p)" unfolding r(5) by blast
      have K: "qkey (queuetab s1 x) = qkey (queuetab s x)" if "x \<in> set rest" for x
        using r(7) p that by metis
      have tw: "takeWhile (\<lambda>p. qkey (queuetab s1 p) \<le> 0) rest = takeWhile (\<lambda>p. qkey (queuetab s p) \<le> 0) rest"
        "dropWhile (\<lambda>p. qkey (queuetab s1 p) \<le> 0) rest = dropWhile (\<lambda>p. qkey (queuetab s p) \<le> 0) rest"
        by (rule takeWhile_cong dropWhile_cong; simp add: K)+
      have "wakeup_loop (Suc (Suc n)) s = wakeup_loop (Suc n) s1"
        unfolding wakeup_loop.simps(2)[of "Suc n"] using ne L True r(1) ly by simp
      moreover have "moved (p # takeWhile (\<lambda>p. qkey (queuetab s p) \<le> 0) rest) s s'"
        using moved_append[OF r(3) r'(4)] by (simp add: tw)
      moreover have "\<forall>x\<in>set (L' 302). qkey (queuetab s' x) = qkey (queuetab s x)"
        using r'(5,7) K by (auto dest: set_dropWhileD)
      ultimately show ?thesis
        using r'(1-3,5,6) r(4) L True tw by (intro exI[of _ s'] exI[of _ L']) simp
    qed
  qed
qed

lemma kinv_contents_length: "kinv s \<Longrightarrow> length (qcontents s 302) \<le> 100"
  by (elim kinvE) (metis wfq_length wfqs_wfq kbaseD(2) qids_300(2))

text \<open>The state in which \<^verbatim>\<open>wakeup\<close> ends its deferral: exactly the due processes have become ready.\<close>

lemma wakeup_eq:
  assumes inv: "kinv s"
  obtains s' L' where "wakeup s = bindk (resched_cntl DEFER_STOP s') (\<lambda>_ s. Return () s)" "kpre L' s'"
    "moved (due s) (s\<lparr>ndefers := 1, attempt := False\<rparr>) s'" "semtab s' = semtab s"
    "L' 302 = drop (length (due s)) (qcontents s 302)"
    "\<And>p. p \<in> set (L' 302) \<Longrightarrow> qkey (queuetab s' p) = qkey (queuetab s p)"
    "currpid s \<notin> set (due s)"
proof -
  from inv obtain L where k: "kpre L s" "prstate (proctab s (currpid s)) = PR_CURR" "ndefers s = 0"
    and L: "L = qcontents s" by (auto simp: kinv_def)
  let ?s1 = "s\<lparr>ndefers := 1, attempt := False\<rparr>"
  from kpre_start[OF k(1)] have k1: "kbase {} L ?s1" "ksems L ?s1" "kcur ?s1" "kranges ?s1"
    by (simp_all add: kpre_def)
  obtain s' L' where r: "wakeup_loop 101 ?s1 = Return () s'" "kbase {} L' s'" "ksems L' s'"
    "moved (due s) ?s1 s'" "L' 302 = dropWhile (\<lambda>p. qkey (queuetab s p) \<le> 0) (L 302)" "semtab s' = semtab s"
    "\<And>p. p \<in> set (L' 302) \<Longrightarrow> qkey (queuetab s' p) = qkey (queuetab s p)"
    using wakeup_loop_eq[OF k1(1,2), of 100] kinv_contents_length[OF inv] L by (auto simp: due_def)
  have "L' 302 = drop (length (due s)) (qcontents s 302)"
    by (simp add: r(5) due_def L dropWhile_eq_drop)
  moreover have "kpre L' s'" using r(2,3) moved_fields(5,6)[OF r(4)] k1(3,4) by (simp add: kpre_def)
  moreover have "wakeup s = bindk (resched_cntl DEFER_STOP s') (\<lambda>_ s. Return () s)"
    using r(1) by (simp add: wakeup_def resched_start[OF k(3)])
  moreover have "currpid s \<notin> set (due s)"
  proof
    assume "currpid s \<in> set (due s)"
    then have c: "currpid s \<in> set (L 302)" by (auto simp: due_def L dest: set_takeWhileD)
    then have "currpid s \<in> procs" using wfqs_procs[OF kbaseD(2)[OF k1(1)] qids_300(2)] by blast
    then have "where_q ?s1 (currpid s) = Some 302" using kbaseD(3)[OF k1(1) _ qids_300(2)] c by blast
    then show False using k(2) by (simp add: where_q_def)
  qed
  ultimately show ?thesis using that r(4,6,7) by blast
qed

lemma kinv_wakeup:
  assumes inv: "kinv s"
  shows "kcall wakeup s"
proof -
  obtain s' L' where r: "wakeup s = bindk (resched_cntl DEFER_STOP s') (\<lambda>_ s. Return () s)" "kpre L' s'"
    "moved (due s) (s\<lparr>ndefers := 1, attempt := False\<rparr>) s'" "currpid s \<notin> set (due s)"
    using wakeup_eq[OF inv] by metis
  note m = moved_fields[OF r(3)]
  have "prstate (proctab s (currpid s)) = PR_CURR" using inv by (elim kinvE)
  then have "prstate (proctab s' (currpid s')) = PR_CURR" using m(3,7) r(4) by simp
  then have "kok (currpid s') (\<lambda>_ s2. kinv s2 \<and> currpid s2 = currpid s') (resched_cntl DEFER_STOP s')"
    using r(2) m(4) by (intro resched_stop_kok) simp_all
  then show ?thesis using m(3) by (simp add: kcall_def r(1))
qed

section \<open>The clock interrupt\<close>

lemma kinv_clk_count: "kinv s \<Longrightarrow> kinv (clk_count s) \<and> currpid (clk_count s) = currpid s"
  by (auto simp: clk_count_def Let_def elim!: kinv_fields)

lemma clk_sleepq_empty:
  "kinv s \<Longrightarrow> qcontents s 302 = [] \<Longrightarrow> clk_sleepq s = Some (False, s)"
proof (erule kinvE)
  fix L assume "qcontents s 302 = []" "kbase {} L s" "L = qcontents s"
  then show ?thesis
    using isempty_spec(1)[OF kbaseD(2) qids_300(2), of "{}" L s] qlayoutD(2)[OF kbaseD(1), of "{}" L s]
    by (simp add: clk_sleepq_def)
qed

lemma clk_sleepq_eq:
  assumes inv: "kinv s" and L: "qcontents s 302 = p # rest"
  obtains Q' where "clk_sleepq s = Some (qkey (Q' p) = 0, s\<lparr>queuetab := Q'\<rparr>)"
    "kinv (s\<lparr>queuetab := Q'\<rparr>)" "qcontents (s\<lparr>queuetab := Q'\<rparr>) 302 = p # rest"
    "\<And>i. qkey (Q' i) = (if i = p then i32 (qkey (queuetab s p) - 1) else qkey (queuetab s i))"
proof -
  from inv obtain L where k: "kbase {} L s" "ksems L s" "kcur s" "kranges s"
    "prstate (proctab s (currpid s)) = PR_CURR" "ndefers s = 0" and LL: "L = qcontents s" by (elim kinvE)
  note wf = kbaseD(2)[OF k(1)]
  let ?Q' = "(queuetab s)(p := (queuetab s p)\<lparr>qkey := i32 (qkey (queuetab s p) - 1)\<rparr>)"
  let ?s = "s\<lparr>queuetab := ?Q'\<rparr>"
  have p: "p \<in> procs" using wfqs_procs[OF wf qids_300(2), of p] L LL by simp
  have "p \<notin> set (L 300)" using wfqs_disjoint[OF wf qids_300(2,1), of p] L LL by simp
  then have kb: "kbase {} L ?s" by (intro kbase_keys[OF k(1) p]) auto
  have "kinv ?s"
    using kb k by (intro kinvI[of L]) (simp_all add: kpre_def ksems_fields[of ?s s] kcur_def kranges_def)
  moreover have "qcontents ?s 302 = p # rest"
    using wfqs_qcontents[OF kbaseD(2)[OF kb] qids_300(2)] L LL by simp
  moreover have "clk_sleepq s = Some (qkey (?Q' p) = 0, ?s)"
    using isempty_spec(1)[OF wf qids_300(2)] firstid_spec[OF wf qids_300(2)] L LL p
      qlayoutD(2)[OF kbaseD(1)[OF k(1)]]
    by (cases "queuetab s p") (simp add: clk_sleepq_def upq_def rdq_def inq_def)
  ultimately show ?thesis using that[of ?Q'] by simp
qed

lemma kinv_clk_preempt:
  assumes "kinv s"
  shows "kcall clk_preempt s"
proof -
  have "kinv (s\<lparr>preempt := x\<rparr>)" for x by (rule kinv_fields[OF assms]) simp_all
  then show ?thesis
    using kinv_resched[of "s\<lparr>preempt := QUANTUM\<rparr>"] by (simp add: kcall_def clk_preempt_def Let_def)
qed

lemma kinv_clkhandler:
  assumes inv: "kinv s"
  shows "kcall (clkhandler irq) s"
proof (cases irq)
  case False
  then show ?thesis using inv by (simp add: kcall_def clkhandler_def)
next
  case True
  note c = kinv_clk_count[OF inv]
  have "\<exists>due s1. clk_sleepq (clk_count s) = Some (due, s1) \<and> kinv s1 \<and> currpid s1 = currpid s"
  proof (cases "qcontents (clk_count s) 302")
    case Nil
    then show ?thesis using clk_sleepq_empty[OF _ Nil] c by auto
  next
    case (Cons p rest)
    show ?thesis using clk_sleepq_eq[OF conjunct1[OF c] Cons] c by (metis kstate.select_convs(5) kstate.surjective kstate.update_convs(1))
  qed
  then obtain due s1 where s1: "clk_sleepq (clk_count s) = Some (due, s1)" "kinv s1" "currpid s1 = currpid s"
    by blast
  have pre: "kok (currpid s) (\<lambda>_ s'. kinv s' \<and> currpid s' = currpid s) (clk_preempt s')"
    if "kinv s'" "currpid s' = currpid s" for s'
    using kinv_clk_preempt[OF that(1)] that(2) by (simp add: kcall_def)
  have "kok (currpid s) (\<lambda>_ s'. kok (currpid s) (\<lambda>_ s'. kinv s' \<and> currpid s' = currpid s) (clk_preempt s'))
      (if due then wakeup s1 else Return () s1)"
    using kinv_wakeup[OF s1(2)] s1 pre by (auto simp: kcall_def elim: kok_mono)
  then show ?thesis using True s1(1) by (simp add: kcall_def clkhandler_def)
qed

section \<open>Absolute times\<close>

text \<open>The processes of a delta list with the time each has left, given the time \<open>t\<close> before the first.\<close>

fun rems :: "(int \<Rightarrow> int) \<Rightarrow> int \<Rightarrow> int list \<Rightarrow> (int \<times> int) list" where
  "rems K t [] = []"
| "rems K t (p # ps) = (p, t + K p) # rems K (t + K p) ps"

definition sleepers :: "kstate \<Rightarrow> (int \<times> int) list" where
  "sleepers s = rems (\<lambda>i. qkey (queuetab s i)) 0 (qcontents s (sleepq s))"

text \<open>Delays are not negative and every time left is a value of \<^verbatim>\<open>int32\<close>.\<close>

definition delta_ok :: "(int \<Rightarrow> int) \<Rightarrow> int list \<Rightarrow> bool" where
  "delta_ok K ps \<longleftrightarrow> (\<forall>p\<in>set ps. 0 \<le> K p) \<and> sum_list (map K ps) < 2147483648"

lemma map_fst_rems [simp]: "map fst (rems K t ps) = ps"
  by (induction ps arbitrary: t) auto

lemma rems_cong: "(\<And>p. p \<in> set ps \<Longrightarrow> K' p = K p) \<Longrightarrow> rems K' t ps = rems K t ps"
  by (induction ps arbitrary: t) auto

lemma rems_append: "rems K t (us @ vs) = rems K t us @ rems K (t + sum_list (map K us)) vs"
  by (induction us arbitrary: t) (auto simp: add.assoc)

lemma rems_shift: "rems K (t + d) ps = map (\<lambda>(p, x). (p, x + d)) (rems K t ps)"
  by (induction ps arbitrary: t) (auto simp: ac_simps, metis add.assoc add.commute)

lemma rems_ge: "\<forall>p\<in>set ps. 0 \<le> K p \<Longrightarrow> (p, x) \<in> set (rems K t ps) \<Longrightarrow> t \<le> x"
proof (induction ps arbitrary: t)
  case (Cons q ps)
  show ?case
  proof (cases "(p, x) \<in> set (rems K (t + K q) ps)")
    case True
    then have "t + K q \<le> x" using Cons by simp
    then show ?thesis using Cons.prems(1) by simp
  qed (use Cons.prems in auto)
qed simp

text \<open>\<^verbatim>\<open>insertd\<close> finds the place of the absolute time \<open>key\<close>.\<close>

lemma dsplit_spec:
  assumes "delta_ok K xs" "0 \<le> key" "key < 2147483648" "dsplit K key xs = (us, vs, k)"
  shows "k = key - sum_list (map K us)" "0 \<le> k" "vs \<noteq> [] \<Longrightarrow> k < K (hd vs)"
    "\<forall>(p, x)\<in>set (rems K 0 us). x \<le> key"
proof -
  have "k = key - sum_list (map K us) \<and> 0 \<le> k \<and> (vs \<noteq> [] \<longrightarrow> k < K (hd vs)) \<and>
      (\<forall>(p, x)\<in>set (rems K t us). x \<le> t + key)" for t
    using assms
  proof (induction xs arbitrary: key us t)
    case (Cons x xs)
    show ?case
    proof (cases "K x \<le> key")
      case True
      obtain us' where us': "dsplit K (i32 (key - K x)) xs = (us', vs, k)" "us = x # us'"
        using Cons.prems(4) True by (auto split: prod.splits)
      have x: "0 \<le> K x" and i: "i32 (key - K x) = key - K x" and d: "delta_ok K xs"
        using Cons.prems True by (auto simp: delta_ok_def)
      from Cons.IH[OF d _ _ us'(1)[unfolded i], of "t + K x"] Cons.prems(2,3) x True us'(2)
      show ?thesis by auto
    qed (use Cons.prems in auto)
  qed auto
  from this[of 0] show "k = key - sum_list (map K us)" "0 \<le> k" "vs \<noteq> [] \<Longrightarrow> k < K (hd vs)"
    "\<forall>(p, x)\<in>set (rems K 0 us). x \<le> key" by auto
qed

lemma insertd_rems:
  assumes ok: "delta_ok K (us @ vs)" and k: "k = key - sum_list (map K us)" "0 \<le> k"
      "vs \<noteq> [] \<Longrightarrow> k < K (hd vs)" and key: "key < 2147483648"
    and p: "p \<notin> set (us @ vs)" and d: "distinct (us @ vs)"
    and K': "\<And>i. K' i = (if i = p then k else if vs \<noteq> [] \<and> i = hd vs then i32 (K i - k) else K i)"
  shows "rems K' 0 (us @ p # vs) = rems K 0 us @ (p, key) # rems K (sum_list (map K us)) vs"
    "delta_ok K' (us @ p # vs)"
proof -
  have hv: "hd vs \<notin> set us" if "vs \<noteq> []" using d that by (cases vs) auto
  have Ku: "K' i = K i" if "i \<in> set us" for i using K'[of i] p that hv by auto
  have us: "rems K' t us = rems K t us" "map K' us = map K us" for t
    using Ku by (auto intro: rems_cong)
  have vs: "rems K' key vs = rems K (sum_list (map K us)) vs \<and> sum_list (map K' vs) = sum_list (map K vs) - (if vs = [] then 0 else k)
      \<and> (\<forall>i\<in>set vs. 0 \<le> K' i)"
  proof (cases vs)
    case (Cons v vs')
    have sum0: "0 \<le> sum_list (map K us)" "0 \<le> sum_list (map K vs')"
      using ok Cons by (auto simp: delta_ok_def intro!: sum_list_nonneg)
    have b: "0 \<le> K v" "K v < 2147483648" using ok Cons sum0 by (auto simp: delta_ok_def)
    have v: "K' v = K v - k" using K'[of v] Cons p k(2,3) b by auto
    have r: "K' i = K i" if "i \<in> set vs'" for i using K'[of i] Cons p d that by auto
    have m: "map K' vs' = map K vs'" using r by simp
    have e: "key + (K v - k) = sum_list (map K us) + K v" using k(1) by simp
    have "rems K' t vs' = rems K t vs'" for t using r by (rule rems_cong)
    then show ?thesis
      using Cons v k b ok r by (simp add: m e) (auto simp: delta_ok_def add.commute)
  qed simp
  show "rems K' 0 (us @ p # vs) = rems K 0 us @ (p, key) # rems K (sum_list (map K us)) vs"
    using vs k(1) K'[of p] by (simp add: rems_append us)
  have "sum_list (map K' (us @ p # vs)) = sum_list (map K us) + k + sum_list (map K' vs)"
    unfolding map_append list.map sum_list_append sum_list_simps(2) us(2) using K'[of p] by simp
  moreover have "... < 2147483648" using vs k(1) key ok by (cases "vs = []") (auto simp: delta_ok_def)
  ultimately show "delta_ok K' (us @ p # vs)"
    using vs k(2) K'[of p] Ku ok by (auto simp: delta_ok_def)
qed

lemma takeWhile_append_split:
  assumes "\<forall>x\<in>set us. P x" "\<forall>x\<in>set (take 1 vs). \<not> P x"
  shows "takeWhile P (us @ vs) = us" "dropWhile P (us @ vs) = vs"
  using assms by (induction us) (cases vs; auto)+

lemma rems_place:
  assumes "delta_ok K (us @ vs)" "\<forall>(p, x)\<in>set (rems K 0 us). x \<le> key"
    "vs \<noteq> [] \<Longrightarrow> key < sum_list (map K us) + K (hd vs)"
  shows "takeWhile (\<lambda>(_, x). x \<le> key) (rems K 0 (us @ vs)) = rems K 0 us"
    "dropWhile (\<lambda>(_, x). x \<le> key) (rems K 0 (us @ vs)) = rems K (sum_list (map K us)) vs"
proof -
  have "\<forall>x\<in>set (take 1 (rems K (sum_list (map K us)) vs)). \<not> (\<lambda>(_, x). x \<le> key) x"
    using assms(3) by (cases vs) auto
  then show "takeWhile (\<lambda>(_, x). x \<le> key) (rems K 0 (us @ vs)) = rems K 0 us"
    "dropWhile (\<lambda>(_, x). x \<le> key) (rems K 0 (us @ vs)) = rems K (sum_list (map K us)) vs"
    using takeWhile_append_split[of "rems K 0 us" "\<lambda>(_, x). x \<le> key"] assms(2) by (auto simp: rems_append)
qed

lemma kpre_contents: "kpre L s \<Longrightarrow> q \<in> qids \<Longrightarrow> qcontents s q = L q"
  using wfqs_qcontents[OF kbaseD(2), of "{}" L s q] by (simp add: kpre_def)

lemma kinv_sleepq: "kinv s \<Longrightarrow> sleepq s = 302"
  by (elim kinvE) (auto dest: kbaseD(1) qlayoutD(2))

text \<open>Joining the delta list, in absolute times.\<close>

lemma block_on_clock_abs:
  assumes inv: "kinv s" and null: "currpid s \<noteq> 0" and st: "st = PR_SLEEP \<or> st = PR_RECTIM"
    and ok: "delta_ok (\<lambda>i. qkey (queuetab s i)) (qcontents s 302)" and key: "0 \<le> key" "key < 2147483648"
  obtains s1 where "insertd (currpid s) (sleepq s) key s = Some (OK, s1)"
    "s1 = s\<lparr>queuetab := queuetab s1\<rparr>"
    "kpre (qcontents (set_prstate (currpid s) st s1)) (set_prstate (currpid s) st s1)"
    "sleepers (set_prstate (currpid s) st s1) = takeWhile (\<lambda>(_, x). x \<le> key) (sleepers s) @ (currpid s, key) #
       dropWhile (\<lambda>(_, x). x \<le> key) (sleepers s)"
    "delta_ok (\<lambda>i. qkey (queuetab s1 i)) (qcontents (set_prstate (currpid s) st s1) 302)"
proof -
  let ?K = "\<lambda>i. qkey (queuetab s i)"
  obtain us vs k where ds: "dsplit ?K key (qcontents s 302) = (us, vs, k)" by (rule prod_cases3)
  obtain Q' where Q': "insertd (currpid s) (sleepq s) key s = Some (OK, s\<lparr>queuetab := Q'\<rparr>)"
    "kpre ((qcontents s)(302 := us @ currpid s # vs)) (set_prstate (currpid s) st (s\<lparr>queuetab := Q'\<rparr>))"
    "\<And>i. qkey (Q' i) = (if i = currpid s then k else if vs \<noteq> [] \<and> i = hd vs then i32 (?K i - k) else ?K i)"
    using block_on_clock[OF inv null st ds] by blast
  let ?s1 = "s\<lparr>queuetab := Q'\<rparr>"
  let ?s2 = "set_prstate (currpid s) st ?s1"
  note split = dsplit_append[OF ds] and sp = dsplit_spec[OF ok key ds]
  note c2 = kpre_contents[OF Q'(2) qids_300(2), unfolded fun_upd_same]
  from inv have kb: "kbase {} (qcontents s) s" and cur: "prstate (proctab s (currpid s)) = PR_CURR" "currpid s \<in> procs"
    by (elim kinvE, simp add: kcur_def)+
  have nin: "currpid s \<notin> set (us @ vs)"
    using kbaseD(3)[OF kb cur(2) qids_300(2)] cur(1) split by (simp add: where_q_def)
  have dis: "distinct (us @ vs)" using wfqD(4)[OF wfqs_wfq[OF kbaseD(2)[OF kb] qids_300(2)]] split by simp
  note ok' = ok[unfolded split]
  note R = insertd_rems[where K' = "\<lambda>i. qkey (Q' i)", OF ok' sp(1-3) key(2) nin dis Q'(3)]
  have hd_key: "vs \<noteq> [] \<Longrightarrow> key < sum_list (map ?K us) + ?K (hd vs)" using sp(1,3) by simp
  note pl = rems_place[OF ok' sp(4) hd_key]
  have sl: "sleepers s = rems ?K 0 (us @ vs)" using split kinv_sleepq[OF inv] by (simp add: sleepers_def)
  have "sleepers ?s2 = takeWhile (\<lambda>(_, x). x \<le> key) (sleepers s) @ (currpid s, key) #
       dropWhile (\<lambda>(_, x). x \<le> key) (sleepers s)"
  proof -
    have "sleepers ?s2 = rems (\<lambda>i. qkey (Q' i)) 0 (us @ currpid s # vs)"
      using c2 kinv_sleepq[OF inv] by (simp add: sleepers_def)
    moreover have "takeWhile (\<lambda>(_, x). x \<le> key) (sleepers s) = rems ?K 0 us"
      "dropWhile (\<lambda>(_, x). x \<le> key) (sleepers s) = rems ?K (sum_list (map ?K us)) vs"
      unfolding sl by (rule pl, assumption)+
    ultimately show ?thesis using R(1) by simp
  qed
  then show ?thesis
    using that[of ?s1] Q'(1) kpre_qcontents[OF Q'(2)] R(2) c2 by simp
qed

section \<open>Properties\<close>

text \<open>A process that goes to sleep for a positive delay enters the delta list at the place of
  its absolute wake-up time, behind all sleepers that are due no later; nobody else's wake-up time
  changes, the list stays a delta list, and only then is \<^verbatim>\<open>resched\<close> called.\<close>

theorem sleepms_joins:
  assumes "kinv s" "currpid s \<noteq> 0" "0 < delay" "delay < 2147483648"
    "delta_ok (\<lambda>i. qkey (queuetab s i)) (qcontents s (sleepq s))"
  shows "\<exists>s2. sleepms delay s = bindk (resched s2) (\<lambda>_ s. Return OK s) \<and> kpre (qcontents s2) s2 \<and>
    prstate (proctab s2 (currpid s)) = PR_SLEEP \<and>
    sleepers s2 = takeWhile (\<lambda>(_, x). x \<le> delay) (sleepers s) @ (currpid s, delay) #
       dropWhile (\<lambda>(_, x). x \<le> delay) (sleepers s) \<and>
    delta_ok (\<lambda>i. qkey (queuetab s2 i)) (qcontents s2 (sleepq s2))"
proof -
  note ok = assms(5)[unfolded kinv_sleepq[OF assms(1)]]
  from block_on_clock_abs[OF assms(1,2) disjI1[OF refl] ok less_imp_le[OF assms(3)] assms(4)]
  obtain s1 where s1: "insertd (currpid s) (sleepq s) delay s = Some (OK, s1)"
    "s1 = s\<lparr>queuetab := queuetab s1\<rparr>"
    "kpre (qcontents (set_prstate (currpid s) PR_SLEEP s1)) (set_prstate (currpid s) PR_SLEEP s1)"
    "sleepers (set_prstate (currpid s) PR_SLEEP s1) = takeWhile (\<lambda>(_, x). x \<le> delay) (sleepers s) @
       (currpid s, delay) # dropWhile (\<lambda>(_, x). x \<le> delay) (sleepers s)"
    "delta_ok (\<lambda>i. qkey (queuetab s1 i)) (qcontents (set_prstate (currpid s) PR_SLEEP s1) 302)" .
  have f: "currpid s1 = currpid s" "sleepq s1 = 302"
    using s1(2) kinv_sleepq[OF assms(1)] by (metis kstate.select_convs kstate.surjective kstate.update_convs(1))+
  show ?thesis
    by (rule exI[of _ "set_prstate (currpid s) PR_SLEEP s1"])
      (use s1(1,3-5) f assms(3) in \<open>simp add: sleepms_def\<close>)
qed

text \<open>The part of the handler that looks at the delta list: one millisecond less for everybody.\<close>

lemma clk_sleepq_tick:
  assumes "kinv s" "delta_ok (\<lambda>i. qkey (queuetab s i)) (qcontents s (sleepq s))"
    "qcontents s (sleepq s) = p # rest" "0 < qkey (queuetab s p)"
  shows "\<exists>s'. clk_sleepq s = Some (\<exists>q. (q, 0) \<in> set (sleepers s'), s') \<and> kinv s' \<and>
    sleepers s' = map (\<lambda>(q, t). (q, t - 1)) (sleepers s) \<and>
    delta_ok (\<lambda>i. qkey (queuetab s' i)) (qcontents s' (sleepq s')) \<and> s' = s\<lparr>queuetab := queuetab s'\<rparr>"
proof -
  let ?K = "\<lambda>i. qkey (queuetab s i)"
  note sq = kinv_sleepq[OF assms(1)]
  note L = assms(3)[unfolded sq] and ok = assms(2)[unfolded sq]
  obtain Q' where Q': "clk_sleepq s = Some (qkey (Q' p) = 0, s\<lparr>queuetab := Q'\<rparr>)"
    "kinv (s\<lparr>queuetab := Q'\<rparr>)" "qcontents (s\<lparr>queuetab := Q'\<rparr>) 302 = p # rest"
    "\<And>i. qkey (Q' i) = (if i = p then i32 (?K p - 1) else ?K i)"
    using clk_sleepq_eq[OF assms(1) L] by blast
  let ?s = "s\<lparr>queuetab := Q'\<rparr>"
  from assms(1) have "wfq (queuetab s) 302 (p # rest)"
    using L wfqs_wfq[OF kbaseD(2) qids_300(2)] by (elim kinvE) (metis kbaseD(2) wfqs_wfq qids_300(2))
  then have p: "p \<notin> set rest" by (auto dest: wfqD(4))
  have nn: "0 \<le> sum_list (map ?K rest)" "\<forall>q\<in>set rest. 0 \<le> ?K q" "?K p + sum_list (map ?K rest) < 2147483648"
    using ok L by (auto simp: delta_ok_def intro!: sum_list_nonneg)
  have kp: "qkey (Q' p) = ?K p - 1" using Q'(4)[of p] nn(1,3) assms(4) by simp
  have kr: "qkey (Q' q) = ?K q" if "q \<in> set rest" for q using Q'(4)[of q] p that by auto
  have m: "map (\<lambda>i. qkey (Q' i)) rest = map ?K rest" using kr by simp
  have sl: "sleepers s = (p, ?K p) # rems ?K (?K p) rest" using L sq by (simp add: sleepers_def)
  have "rems (\<lambda>i. qkey (Q' i)) (?K p - 1) rest = rems ?K (?K p + (-1)) rest" using kr by (auto intro: rems_cong)
  then have sl': "sleepers ?s = map (\<lambda>(q, t). (q, t - 1)) (sleepers s)"
    unfolding sl rems_shift using Q'(3) sq kp by (simp add: sleepers_def)
  have ok': "delta_ok (\<lambda>i. qkey (queuetab ?s i)) (qcontents ?s (sleepq ?s))"
  proof -
    have q: "qcontents ?s (sleepq ?s) = p # rest" using Q'(3) sq by simp
    have "sum_list (map (\<lambda>i. qkey (queuetab ?s i)) (p # rest)) = ?K p - 1 + sum_list (map ?K rest)"
      unfolding m[symmetric] using kp by simp
    then show ?thesis unfolding delta_ok_def q using kp kr nn assms(4) by simp
  qed
  have "(\<exists>q. (q, 0) \<in> set (sleepers ?s)) \<longleftrightarrow> qkey (Q' p) = 0"
  proof
    assume "\<exists>q. (q, 0) \<in> set (sleepers ?s)"
    then obtain q t where "(q, t) \<in> set (sleepers s)" "t = 1" unfolding sl' by auto
    moreover have "?K p \<le> t" if "(q, t) \<in> set (rems ?K (?K p) rest)" for q t using rems_ge[OF nn(2) that] .
    ultimately have "?K p \<le> 1" unfolding sl by auto
    then show "qkey (Q' p) = 0" using kp assms(4) by simp
  next
    assume "qkey (Q' p) = 0"
    then show "\<exists>q. (q, 0) \<in> set (sleepers ?s)" using kp by (auto simp: sl' sl)
  qed
  then show ?thesis using Q'(1,2) sl' ok' by (intro exI[of _ ?s]) simp
qed

text \<open>\<^verbatim>\<open>wakeup\<close> releases exactly the sleepers whose time has run out: each becomes ready,
  the others stay on the delta list with the same time left, and the scheduler runs once, at the
  end, over all of them, and only if there are any.\<close>

theorem wakeup_releases:
  assumes "kinv s" "delta_ok (\<lambda>i. qkey (queuetab s i)) (qcontents s (sleepq s))"
  shows "\<exists>s'. wakeup s = (if \<exists>p. (p, 0) \<in> set (sleepers s) then resched s' else Return () s') \<and> kinv s' \<and>
    sleepers s' = filter (\<lambda>(_, t). 0 < t) (sleepers s) \<and>
    (\<forall>p. prstate (proctab s' p) =
      (if (p, 0) \<in> set (sleepers s) then PR_READY else prstate (proctab s p))) \<and>
    currpid s' = currpid s \<and> clktime s' = clktime s \<and> count1000 s' = count1000 s \<and> preempt s' = preempt s"
proof -
  let ?K = "\<lambda>i. qkey (queuetab s i)"
  note sq = kinv_sleepq[OF assms(1)] and ok = assms(2)[unfolded kinv_sleepq[OF assms(1)]]
  obtain s' L' where r: "wakeup s = bindk (resched_cntl DEFER_STOP s') (\<lambda>_ s. Return () s)" "kpre L' s'"
    "moved (due s) (s\<lparr>ndefers := 1, attempt := False\<rparr>) s'"
    "L' 302 = drop (length (due s)) (qcontents s 302)"
    "\<And>p. p \<in> set (L' 302) \<Longrightarrow> qkey (queuetab s' p) = ?K p" "currpid s \<notin> set (due s)"
    using wakeup_eq[OF assms(1)] by metis
  define us vs where "us = due s" and "vs = L' 302"
  have split: "qcontents s 302 = us @ vs"
    unfolding us_def vs_def r(4) due_def by (metis dropWhile_eq_drop takeWhile_dropWhile_id)
  have z: "?K p = 0" if "p \<in> set us" for p
    using that ok split unfolding us_def due_def delta_ok_def by (auto dest!: set_takeWhileD)
  have rz: "rems ?K 0 us = map (\<lambda>p. (p, 0)) us" using z by (induction us) auto
  have sz: "sum_list (map ?K us) = 0" using z by (induction us) auto
  have pos: "0 < t" if "(p, t) \<in> set (rems ?K 0 vs)" for p t
  proof (cases vs)
    case (Cons v vs')
    have "\<not> ?K v \<le> 0" using split Cons unfolding us_def due_def
      by (metis append_eq_conv_conj dropWhile_eq_drop hd_dropWhile list.discI list.sel(1))
    moreover have "\<forall>q\<in>set vs'. 0 \<le> ?K q" using ok split Cons by (auto simp: delta_ok_def)
    ultimately show ?thesis using that Cons rems_ge[of vs' ?K p t "?K v"] by auto
  qed (use that in simp)
  have sl: "sleepers s = map (\<lambda>p. (p, 0)) us @ rems ?K 0 vs"
    using split sq by (simp add: sleepers_def rems_append rz sz)
  have "sleepq s' = 302" using moved_fields(2)[OF r(3)] sq by simp
  then have "sleepers s' = rems (\<lambda>i. qkey (queuetab s' i)) 0 vs"
    using kpre_contents[OF r(2) qids_300(2)] by (simp add: sleepers_def vs_def)
  also have "... = rems ?K 0 vs" by (rule rems_cong) (use r(5) vs_def in simp)
  finally have after: "sleepers s' = rems ?K 0 vs" .
  have "filter (\<lambda>(_, t). 0 < t) (map (\<lambda>p. (p, 0::int)) us) = []" by (induction us) auto
  moreover have "filter (\<lambda>(_, t). 0 < t) (rems ?K 0 vs) = rems ?K 0 vs" using pos by (auto simp: filter_id_conv)
  ultimately have left: "sleepers s' = filter (\<lambda>(_, t). 0 < t) (sleepers s)" by (simp add: after sl)
  have mem: "(p, 0) \<in> set (sleepers s) \<longleftrightarrow> p \<in> set us" for p using pos[of p 0] by (auto simp: sl)
  note m = moved_fields[OF r(3)]
  let ?s = "s'\<lparr>ndefers := 0\<rparr>"
  have sl': "sleepers ?s = sleepers s'" by (simp add: sleepers_def qcontents_def)
  have "kpre L' ?s"
    using r(2) by (simp add: kpre_def kcur_def kranges_def kbase_fields[of ?s s'] ksems_fields[of ?s s'])
  moreover have "prstate (proctab s (currpid s)) = PR_CURR" using assms(1) by (elim kinvE)
  then have "prstate (proctab ?s (currpid ?s)) = PR_CURR" using m(3,7) r(6) by simp
  ultimately have inv: "kinv ?s" by (intro kinvI) simp_all
  have "wakeup s = (if us = [] then Return () ?s else resched ?s)"
    using m(4,9) unfolding r(1) us_def
    by (auto simp: resched_cntl_def DEFER_START_def DEFER_STOP_def Let_def bindk_assoc)
  moreover have "(\<exists>p. p \<in> set us) \<longleftrightarrow> us \<noteq> []" by (cases us) auto
  moreover have "prstate (proctab ?s p) = (if p \<in> set us then PR_READY else prstate (proctab s p))" for p
    using r(3) by (simp add: moved_def us_def)
  ultimately show ?thesis
    using m(3,10-12) inv left by (intro exI[of _ ?s]) (simp add: mem sl')
qed

lemma clk_count_sleepers [simp]:
  "sleepers (clk_count s) = sleepers s" "qcontents (clk_count s) = qcontents s" "sleepq (clk_count s) = sleepq s"
  "queuetab (clk_count s) = queuetab s" "proctab (clk_count s) = proctab s" "preempt (clk_count s) = preempt s"
  by (simp_all add: clk_count_def sleepers_def Let_def qcontents_def fun_eq_iff)

lemma kinv_kpre: "kinv s \<Longrightarrow> kpre (qcontents s) s"
  by (simp add: kinv_def)

text \<open>C4: A clock interrupt, when the first sleeper has time left: the whole of \<^verbatim>\<open>clkhandler\<close>. The counters
  of the milliseconds and seconds go on; every sleeper's time left goes down by one; those whose time has
  thereby run out, and no others, become ready and leave the delta list, and only if there are any the
  processor is reconsidered for them, once; last, the time slice is counted and \<^verbatim>\<open>resched\<close> called
  when it is used up. Without a pending interrupt the handler does nothing.\<close>

theorem clock_tick:
  assumes inv: "kinv s" and ok: "delta_ok (\<lambda>i. qkey (queuetab s i)) (qcontents s (sleepq s))"
    and q: "qcontents s (sleepq s) = p # rest" "0 < qkey (queuetab s p)" and c: "0 < count1000 s" "count1000 s \<le> 1000"
  defines "woken \<equiv> {q. (q, 1) \<in> set (sleepers s)}"
  shows "clkhandler False s = Return () s \<and>
    (\<exists>s'. clkhandler True s = bindk (if woken = {} then Return () s' else resched s') (\<lambda>_ t.
        let t = t\<lparr>preempt := u32 (preempt t - 1)\<rparr> in if preempt t = 0 then resched (t\<lparr>preempt := QUANTUM\<rparr>) else Return () t) \<and>
      kinv s' \<and> currpid s' = currpid s \<and>
      sleepers s' = filter (\<lambda>(_, t). 0 < t) (map (\<lambda>(q, t). (q, t - 1)) (sleepers s)) \<and>
      (\<forall>q. prstate (proctab s' q) = (if q \<in> woken then PR_READY else prstate (proctab s q))) \<and>
      clktime s' = (if count1000 s = 1 then u32 (clktime s + 1) else clktime s) \<and>
      count1000 s' = (if count1000 s = 1 then 1000 else count1000 s - 1) \<and> preempt s' = preempt s)"
proof (rule conjI)
  show "clkhandler False s = Return () s" by (simp add: clkhandler_def)
  let ?c = "clk_count s"
  note ci = conjunct1[OF kinv_clk_count[OF inv]] conjunct2[OF kinv_clk_count[OF inv]]
  obtain s1 where s1: "clk_sleepq ?c = Some (\<exists>q. (q, 0) \<in> set (sleepers s1), s1)" "kinv s1"
    "sleepers s1 = map (\<lambda>(q, t). (q, t - 1)) (sleepers s)"
    "delta_ok (\<lambda>i. qkey (queuetab s1 i)) (qcontents s1 (sleepq s1))"
    "s1 = ?c\<lparr>queuetab := queuetab s1\<rparr>"
    using clk_sleepq_tick[of ?c p rest] ci(1) ok q by auto
  have due: "(q, 0) \<in> set (sleepers s1) \<longleftrightarrow> q \<in> woken" for q unfolding s1(3) woken_def by force
  have pos: "0 \<le> t" if "(q, t) \<in> set (sleepers s1)" for q t
    using rems_ge[of _ "\<lambda>i. qkey (queuetab s1 i)" q t 0] that s1(4) by (auto simp: sleepers_def delta_ok_def)
  have time: "clktime s1 = (if count1000 s = 1 then u32 (clktime s + 1) else clktime s)"
    "count1000 s1 = (if count1000 s = 1 then 1000 else count1000 s - 1)" "proctab s1 = proctab s" "currpid s1 = currpid s"
    "preempt s1 = preempt s"
    by (subst s1(5), use c ci(2) in \<open>auto simp: clk_count_def Let_def\<close>)+
  obtain s' where s': "(if woken = {} then Return () s1 else wakeup s1) = (if woken = {} then Return () s' else resched s')"
    "kinv s'" "sleepers s' = filter (\<lambda>(_, t). 0 < t) (sleepers s1)"
    "\<forall>p. prstate (proctab s' p) = (if (p, 0) \<in> set (sleepers s1) then PR_READY else prstate (proctab s1 p))"
    "currpid s' = currpid s1" "clktime s' = clktime s1" "count1000 s' = count1000 s1" "preempt s' = preempt s1"
  proof (cases "woken = {}")
    case True
    then have "0 < t" if "(q, t) \<in> set (sleepers s1)" for q t using pos[OF that] due[of q] that by (cases "t = 0") auto
    then have "filter (\<lambda>(_, t). 0 < t) (sleepers s1) = sleepers s1" by (auto simp: filter_id_conv)
    then show ?thesis using that[of s1] True s1(2) due by auto
  next
    case False
    from wakeup_releases[OF s1(2,4)] obtain s' where "wakeup s1 = (if \<exists>p. (p, 0) \<in> set (sleepers s1) then resched s' else Return () s')"
      "kinv s'" "sleepers s' = filter (\<lambda>(_, t). 0 < t) (sleepers s1)"
      "\<forall>p. prstate (proctab s' p) = (if (p, 0) \<in> set (sleepers s1) then PR_READY else prstate (proctab s1 p))"
      "currpid s' = currpid s1" "clktime s' = clktime s1" "count1000 s' = count1000 s1" "preempt s' = preempt s1" by blast
    then show ?thesis using that[of s'] False due by auto
  qed
  have "(\<exists>q. (q, 0) \<in> set (sleepers s1)) = (woken \<noteq> {})" using due by auto
  then have "clkhandler True s = bindk (if woken = {} then Return () s1 else wakeup s1) (\<lambda>_. clk_preempt)"
    using s1(1) by (simp add: clkhandler_def if_distrib cong: if_cong)
  then have "clkhandler True s = bindk (if woken = {} then Return () s' else resched s') (\<lambda>_. clk_preempt)"
    unfolding s'(1) .
  then show "\<exists>s'. clkhandler True s = bindk (if woken = {} then Return () s' else resched s') (\<lambda>_ t.
        let t = t\<lparr>preempt := u32 (preempt t - 1)\<rparr> in if preempt t = 0 then resched (t\<lparr>preempt := QUANTUM\<rparr>) else Return () t) \<and>
      kinv s' \<and> currpid s' = currpid s \<and>
      sleepers s' = filter (\<lambda>(_, t). 0 < t) (map (\<lambda>(q, t). (q, t - 1)) (sleepers s)) \<and>
      (\<forall>q. prstate (proctab s' q) = (if q \<in> woken then PR_READY else prstate (proctab s q))) \<and>
      clktime s' = (if count1000 s = 1 then u32 (clktime s + 1) else clktime s) \<and>
      count1000 s' = (if count1000 s = 1 then 1000 else count1000 s - 1) \<and> preempt s' = preempt s"
    using s' time s1(3) due unfolding clk_preempt_def[abs_def] by (intro exI[of _ s']) simp
qed

text \<open>Taking a process off the delta list early leaves the wake-up times of all others alone.\<close>

theorem unsleep_keeps_times:
  assumes "kinv s" "\<not> isbadpid s p" "prstate (proctab s p) = PR_SLEEP \<or> prstate (proctab s p) = PR_RECTIM"
    "delta_ok (\<lambda>i. qkey (queuetab s i)) (qcontents s (sleepq s))"
  shows "\<exists>s'. unsleep p s = Some (OK, s') \<and> sleepers s' = filter (\<lambda>(q, _). q \<noteq> p) (sleepers s) \<and>
    delta_ok (\<lambda>i. qkey (queuetab s' i)) (qcontents s' (sleepq s'))"
proof -
  let ?K = "\<lambda>i. qkey (queuetab s i)"
  from assms(1) have kb: "kbase {} (qcontents s) s" by (elim kinvE) simp
  note sq = kinv_sleepq[OF assms(1)] and ok = assms(4)[unfolded kinv_sleepq[OF assms(1)]]
  obtain us vs where L: "qcontents s 302 = us @ p # vs" by (rule sleeping_where[OF kb assms(2,3)])
  obtain Q' where Q': "unsleep p s = Some (OK, s\<lparr>queuetab := Q'\<rparr>)"
    "kbase {p} ((qcontents s)(302 := us @ vs)) (s\<lparr>queuetab := Q'\<rparr>)"
    "\<And>i. qkey (Q' i) = (if vs \<noteq> [] \<and> i = hd vs then i32 (?K i + ?K p) else ?K i)"
    using unsleep_eq[OF kb assms(2,3) L] by blast
  let ?s = "s\<lparr>queuetab := Q'\<rparr>"
  have d: "distinct (us @ p # vs)" using wfqD(4)[OF wfqs_wfq[OF kbaseD(2)[OF kb] qids_300(2)]] L by simp
  have c: "qcontents ?s 302 = us @ vs" using wfqs_qcontents[OF kbaseD(2)[OF Q'(2)] qids_300(2)] by simp
  have Ku: "qkey (Q' i) = ?K i" if "i \<in> set us" for i using Q'(3)[of i] d that by (cases vs) auto
  have us: "rems (\<lambda>i. qkey (Q' i)) 0 us = rems ?K 0 us" "map (\<lambda>i. qkey (Q' i)) us = map ?K us"
    using Ku by (auto intro: rems_cong)
  have vs: "rems (\<lambda>i. qkey (Q' i)) t vs = rems ?K (t + ?K p) vs \<and> (\<forall>i\<in>set vs. 0 \<le> qkey (Q' i)) \<and>
      sum_list (map (\<lambda>i. qkey (Q' i)) vs) \<le> ?K p + sum_list (map ?K vs)" for t
  proof (cases vs)
    case (Cons v vs')
    have nn: "0 \<le> sum_list (map ?K us)" "0 \<le> sum_list (map ?K vs')" "0 \<le> ?K v" "0 \<le> ?K p" "\<forall>i\<in>set vs'. 0 \<le> ?K i"
      using ok L Cons by (auto simp: delta_ok_def intro!: sum_list_nonneg)
    have v: "qkey (Q' v) = ?K v + ?K p" using Q'(3)[of v] Cons nn ok L by (simp add: delta_ok_def)
    have r: "qkey (Q' i) = ?K i" if "i \<in> set vs'" for i using Q'(3)[of i] Cons d that by auto
    have m: "map (\<lambda>i. qkey (Q' i)) vs' = map ?K vs'" using r by simp
    have "rems (\<lambda>i. qkey (Q' i)) t vs' = rems ?K t vs'" for t using r by (rule rems_cong)
    then show ?thesis using Cons v nn r by (simp add: m ac_simps)
  next
    case Nil
    then show ?thesis using ok L by (simp add: delta_ok_def)
  qed
  have np: "filter (\<lambda>(q, _). q \<noteq> p) (rems ?K t xs) = rems ?K t xs" if "p \<notin> set xs" for t xs
    using that by (induction xs arbitrary: t) auto
  have "sleepers ?s = filter (\<lambda>(q, _). q \<noteq> p) (sleepers s)"
    using sq c L d by (simp add: sleepers_def rems_append us vs np)
  moreover have "sum_list (map (\<lambda>i. qkey (Q' i)) (us @ vs)) \<le> sum_list (map ?K (us @ p # vs))"
    unfolding map_append sum_list_append us(2) using vs by simp
  then have "delta_ok (\<lambda>i. qkey (queuetab ?s i)) (qcontents ?s (sleepq ?s))"
    using sq c L ok vs Ku by (auto simp: delta_ok_def)
  ultimately show ?thesis using Q'(1) by blast
qed

lemma sleeping_states:
  assumes "kinv s" "q \<in> set (qcontents s 302)"
  shows "prstate (proctab s q) = PR_SLEEP \<or> prstate (proctab s q) = PR_RECTIM" "q \<noteq> currpid s"
proof -
  from assms(1) obtain L where k: "kbase {} L s" "prstate (proctab s (currpid s)) = PR_CURR" "L = qcontents s" by (elim kinvE)
  have p: "q \<in> procs" using wfqs_procs[OF kbaseD(2)[OF k(1)] qids_300(2)] assms(2) k(3) by blast
  then have "where_q s q = Some 302" using kbaseD(3)[OF k(1) p qids_300(2)] assms(2) k(3) by simp
  then show "prstate (proctab s q) = PR_SLEEP \<or> prstate (proctab s q) = PR_RECTIM"
    using qlayoutD[OF kbaseD(1)[OF k(1)]] kbaseD(4)[OF k(1) p] by (auto simp: where_q_def isbadsem_def split: pstate.splits)
  then show "q \<noteq> currpid s" using k(2) by auto
qed

text \<open>The state in which an operation leaves the processor, to its caller or to another process.\<close>

definition proceeds :: "(kstate, 'a) step \<Rightarrow> kstate option" where
  "proceeds t = (case t of Fault \<Rightarrow> None | Return a s \<Rightarrow> Some s | Switch s k \<Rightarrow> Some s)"

lemma resched_sleepers:
  assumes inv: "kinv s"
  obtains s' where "proceeds (resched s) = Some s'" "kinv s'" "qcontents s' 302 = qcontents s 302"
    "\<And>q. q \<in> set (qcontents s 302) \<Longrightarrow> prstate (proctab s' q) = prstate (proctab s q) \<and> qkey (queuetab s' q) = qkey (queuetab s q)"
proof -
  have k: "kpre (qcontents s) s" "ndefers s = 0" using inv by (auto simp: kinv_def)
  from resched_eq[OF k] consider "resched s = Return () s"
    | s' k where "resched s = Switch s' k" "handed_over (qcontents s) s s'" by (auto split: if_splits)
  then show ?thesis
  proof cases
    case 2
    note h = handed_over_fields[OF 2(2)]
    have c: "qcontents s' 302 = qcontents s 302" using h(7)[OF qids_300(2)] by simp
    have "prstate (proctab s' q) = prstate (proctab s q) \<and> qkey (queuetab s' q) = qkey (queuetab s q)"
      if q: "q \<in> set (qcontents s 302)" for q
      using sleeping_states(2)[OF inv q] sleeping_states(2)[OF h(1)] q c h(2) h(8)[of q] handed_over_states[OF 2(2), of q] by simp
    then show ?thesis using that[of s'] 2(1) h(1) c by (simp add: proceeds_def)
  qed (use that[of s] inv in \<open>simp add: proceeds_def\<close>)
qed

text \<open>One interrupt when the first key is not positive: nobody is woken.\<close>

lemma clkhandler_stuck:
  assumes inv: "kinv s" and q: "qcontents s 302 = p # rest" and key: "qkey (queuetab s p) \<le> 0" "- 2147483648 < qkey (queuetab s p)"
  obtains s' where "proceeds (clkhandler True s) = Some s'" "kinv s'" "qcontents s' 302 = p # rest"
    "\<And>r. r \<in> set (p # rest) \<Longrightarrow> prstate (proctab s' r) = prstate (proctab s r)" "qkey (queuetab s' p) = qkey (queuetab s p) - 1"
proof -
  let ?c = "clk_count s"
  note ci = conjunct1[OF kinv_clk_count[OF inv]]
  obtain Q' where Q': "clk_sleepq ?c = Some (qkey (Q' p) = 0, ?c\<lparr>queuetab := Q'\<rparr>)"
    "kinv (?c\<lparr>queuetab := Q'\<rparr>)" "qcontents (?c\<lparr>queuetab := Q'\<rparr>) 302 = p # rest"
    "\<And>i. qkey (Q' i) = (if i = p then i32 (qkey (queuetab ?c p) - 1) else qkey (queuetab ?c i))"
    using clk_sleepq_eq[OF ci, of p rest] q by auto
  let ?s = "?c\<lparr>queuetab := Q'\<rparr>" let ?t = "?s\<lparr>preempt := u32 (preempt ?s - 1)\<rparr>"
  have kp: "qkey (Q' p) = qkey (queuetab s p) - 1" using Q'(4)[of p] key by simp
  then have run: "clkhandler True s = clk_preempt ?s" using Q'(1) key(1) by (simp add: clkhandler_def)
  have t: "kinv (?t\<lparr>preempt := x\<rparr>)" "qcontents (?t\<lparr>preempt := x\<rparr>) 302 = p # rest" for x
    by (rule kinv_fields[OF Q'(2)]; simp) (use Q'(3) in \<open>simp add: qcontents_def\<close>)
  show ?thesis
  proof (cases "preempt ?t = 0")
    case False
    have "proceeds (clkhandler True s) = Some ?t" using run False by (simp add: clk_preempt_def Let_def proceeds_def)
    then show ?thesis using that[of ?t] t[of "preempt ?t"] kp by simp
  next
    case True
    have r: "clkhandler True s = resched (?t\<lparr>preempt := QUANTUM\<rparr>)" using run True by (simp add: clk_preempt_def Let_def)
    obtain s' where "proceeds (resched (?t\<lparr>preempt := QUANTUM\<rparr>)) = Some s'" "kinv s'" "qcontents s' 302 = p # rest"
      "\<And>q. q \<in> set (p # rest) \<Longrightarrow> prstate (proctab s' q) = prstate (proctab s q) \<and> qkey (queuetab s' q) = qkey (Q' q)"
      using resched_sleepers[OF t(1)[of QUANTUM]] t(2)[of QUANTUM] by auto
    then show ?thesis using that[of s'] kp r by simp
  qed
qed

text \<open>C40: A delay of zero defeats the clock: once a process with no time left is first on the
  delta list (\<^verbatim>\<open>recvtime(0)\<close> puts it there), clock interrupts only make its key more negative. As long as
  the processes that run meanwhile leave the delta list alone, no interrupt wakes it or anyone behind
  it, for the next \<^verbatim>\<open>2^31\<close> interrupts (less those that came already), which is 24 days; then the 32-bit
  key wraps around.\<close>

theorem zero_delay_blocks_clock:
  assumes "kinv s" "qcontents s (sleepq s) = p # rest" "qkey (queuetab s p) \<le> 0"
    "int n < 2147483648 + qkey (queuetab s p)"
  shows "\<exists>s'. ((\<lambda>r. Option.bind r (\<lambda>s. proceeds (clkhandler True s))) ^^ n) (Some s) = Some s' \<and>
    kinv s' \<and> qcontents s' (sleepq s') = p # rest \<and> qkey (queuetab s' p) = qkey (queuetab s p) - int n \<and>
    (\<forall>q\<in>set (p # rest). prstate (proctab s' q) = prstate (proctab s q))"
  using assms(4)
proof (induction n)
  case 0
  then show ?case using assms(1-3) by simp
next
  case (Suc n)
  then obtain s1 where s1: "((\<lambda>r. Option.bind r (\<lambda>s. proceeds (clkhandler True s))) ^^ n) (Some s) = Some s1"
    "kinv s1" "qcontents s1 302 = p # rest" "qkey (queuetab s1 p) = qkey (queuetab s p) - int n"
    "\<forall>q\<in>set (p # rest). prstate (proctab s1 q) = prstate (proctab s q)"
    using kinv_sleepq by fastforce
  obtain s' where "proceeds (clkhandler True s1) = Some s'" "kinv s'" "qcontents s' 302 = p # rest"
    "\<And>r. r \<in> set (p # rest) \<Longrightarrow> prstate (proctab s' r) = prstate (proctab s1 r)" "qkey (queuetab s' p) = qkey (queuetab s1 p) - 1"
    by (rule clkhandler_stuck[OF s1(2,3)]) (use s1(4) assms(3) Suc.prems in simp_all)
  then show ?case using s1 kinv_sleepq[of s'] by simp
qed

end
