(* ===== verification/Messages.thy ===== *)
theory Messages
  imports Clock
begin

text \<open>
  Message passing: \<^verbatim>\<open>system/send.c\<close>, \<^verbatim>\<open>receive.c\<close>, \<^verbatim>\<open>recvclr.c\<close>, \<^verbatim>\<open>recvtime.c\<close>. Every process has
  room for one message of 32 bits.
\<close>

section \<open>The code\<close>

definition send :: "int \<Rightarrow> int \<Rightarrow> kstate \<Rightarrow> (kstate, int) step" where
  "send pid msg s =
    (if isbadpid s pid then Return SYSERR s
     else if prhasmsg (proctab s pid) then Return SYSERR s
     else let s = upp pid (\<lambda>e. e\<lparr>prmsg := msg, prhasmsg := True\<rparr>) s in
       bindk
        (if prstate (proctab s pid) = PR_RECV then bindk (ready pid s) (\<lambda>_ s. Return () s)
         else if prstate (proctab s pid) = PR_RECTIM then
           bindk (liftk (unsleep pid s)) (\<lambda>_ s. bindk (ready pid s) (\<lambda>_ s. Return () s))
         else Return () s)
        (\<lambda>_ s. Return OK s))"

definition receive :: "kstate \<Rightarrow> (kstate, int) step" where
  "receive s =
    (let me = currpid s in
     bindk
      (if \<not> prhasmsg (proctab s me) then resched (set_prstate me PR_RECV s) else Return () s)
      (\<lambda>_ s. Return (prmsg (proctab s me)) (upp me (\<lambda>e. e\<lparr>prhasmsg := False\<rparr>) s)))"

definition recvclr :: "kstate \<Rightarrow> (kstate, int) step" where
  "recvclr s =
    (let me = currpid s in
     if prhasmsg (proctab s me)
     then Return (prmsg (proctab s me)) (upp me (\<lambda>e. e\<lparr>prhasmsg := False\<rparr>) s)
     else Return (u32 OK) s)"

definition recvtime :: "int \<Rightarrow> kstate \<Rightarrow> (kstate, int) step" where
  "recvtime maxwait s =
    (if maxwait < 0 then Return (u32 SYSERR) s
     else let me = currpid s in
       bindk
        (if \<not> prhasmsg (proctab s me) then
           bindk (liftk (insertd (currpid s) (sleepq s) maxwait s)) (\<lambda>r s.
             if r = SYSERR then Return False s
             else bindk (resched (set_prstate me PR_RECTIM s)) (\<lambda>_ s. Return True s))
         else Return True s)
        (\<lambda>ok s. if \<not> ok then Return (u32 SYSERR) s
         else if prhasmsg (proctab s me)
         then Return (prmsg (proctab s me)) (upp me (\<lambda>e. e\<lparr>prhasmsg := False\<rparr>) s)
         else Return (u32 TIMEOUT) s))"

section \<open>The invariant\<close>

definition delivered :: "int \<Rightarrow> int \<Rightarrow> kstate \<Rightarrow> kstate" where
  "delivered pid msg = upp pid (\<lambda>e. e\<lparr>prmsg := msg, prhasmsg := True\<rparr>)"

lemma kinv_delivered: "kinv s \<Longrightarrow> kinv (delivered pid msg s)"
  unfolding delivered_def by (rule kinv_upp) simp_all

lemma qcontents_delivered [simp]: "qcontents (delivered pid msg s) = qcontents s"
  by (simp add: qcontents_def delivered_def fun_eq_iff)

text \<open>A message for a waiting process: the state in which the receiver is handed to \<^verbatim>\<open>ready\<close>.\<close>

lemma send_wakes:
  assumes inv: "kinv s" and p: "\<not> isbadpid s pid" and e: "\<not> prhasmsg (proctab s pid)"
    and st: "prstate (proctab s pid) = PR_RECV \<or> prstate (proctab s pid) = PR_RECTIM"
  obtains s1 L1 Q1 where "send pid msg s = bindk (ready pid s1) (\<lambda>_ s. Return OK s)"
    "kbase {pid} L1 s1" "s1 = (delivered pid msg s)\<lparr>queuetab := Q1\<rparr>"
    "\<And>q. q \<noteq> 302 \<Longrightarrow> L1 q = qcontents s q"
proof -
  let ?d = "delivered pid msg s"
  from kinv_delivered[OF inv, of pid msg] have kb: "kbase {} (qcontents ?d) ?d" by (elim kinvE) simp
  have qc: "qcontents ?d = qcontents s" by simp
  have p': "\<not> isbadpid ?d pid" using p by (simp add: isbadpid_def delivered_def)
  show ?thesis
  proof (cases "prstate (proctab s pid) = PR_RECV")
    case True
    have "kbase {pid} (qcontents ?d) ?d"
      by (rule ready_chain_Q[OF kinv_delivered[OF inv]])
        (use True p' in \<open>simp_all add: where_q_def delivered_def isbadpid_iff\<close>)
    moreover have "?d = ?d\<lparr>queuetab := queuetab ?d\<rparr>" by simp
    moreover have "send pid msg s = bindk (ready pid ?d) (\<lambda>_ s. Return OK s)"
      using p e True by (simp add: send_def delivered_def Let_def bindk_assoc)
    ultimately show ?thesis using that qc by metis
  next
    case False
    then have st': "prstate (proctab s pid) = PR_RECTIM" using st by simp
    then have st'': "prstate (proctab ?d pid) = PR_SLEEP \<or> prstate (proctab ?d pid) = PR_RECTIM"
      by (simp add: delivered_def)
    obtain us vs where L: "qcontents ?d 302 = us @ pid # vs" by (rule sleeping_where[OF kb p' st''])
    obtain Q' where Q': "unsleep pid ?d = Some (OK, ?d\<lparr>queuetab := Q'\<rparr>)"
      "kbase {pid} ((qcontents ?d)(302 := us @ vs)) (?d\<lparr>queuetab := Q'\<rparr>)"
      using unsleep_eq[OF kb p' st'' L] by metis
    have "send pid msg s = bindk (ready pid (?d\<lparr>queuetab := Q'\<rparr>)) (\<lambda>_ s. Return OK s)"
      using p e st' Q'(1) by (simp add: send_def delivered_def Let_def bindk_assoc)
    then show ?thesis using that Q'(2) qc by simp
  qed
qed

lemma kinv_send:
  assumes inv: "kinv s"
  shows "kcall (send pid msg) s"
proof (cases "isbadpid s pid \<or> prhasmsg (proctab s pid)")
  case True
  then show ?thesis using inv by (auto simp: kcall_def send_def)
next
  case False
  then have p: "\<not> isbadpid s pid" "\<not> prhasmsg (proctab s pid)" by auto
  show ?thesis
  proof (cases "prstate (proctab s pid) = PR_RECV \<or> prstate (proctab s pid) = PR_RECTIM")
    case True
    obtain s1 L1 Q1 where s1: "send pid msg s = bindk (ready pid s1) (\<lambda>_ s. Return OK s)"
      "kbase {pid} L1 s1" "s1 = (delivered pid msg s)\<lparr>queuetab := Q1\<rparr>"
      "\<And>q. q \<noteq> 302 \<Longrightarrow> L1 q = qcontents s q"
      using send_wakes[OF inv p True] by blast
    from kinv_delivered[OF inv, of pid msg] have k: "ksems (qcontents s) (delivered pid msg s)"
      "kcur (delivered pid msg s)" "kranges (delivered pid msg s)" "ndefers (delivered pid msg s) = 0"
      unfolding kinv_def kpre_def qcontents_delivered by simp_all
    have "ksems L1 s1 = ksems (qcontents s) s1"
      by (rule ksems_agree[OF kbaseD(1)[OF s1(2)]]) (simp add: s1(4))
    then have "ksems L1 s1" using k(1) ksems_fields[of s1 "delivered pid msg s"] by (simp add: s1(3))
    moreover have "\<not> isbadpid s1 pid" using p(1) by (simp add: s1(3) delivered_def isbadpid_def)
    moreover have "kcur s1" "kranges s1" "ndefers s1 = 0" "currpid s1 = currpid s"
      using k(2-4) by (simp_all add: s1(3) kcur_def kranges_def delivered_def)
    ultimately have "kok (currpid s1) (\<lambda>_ s'. kinv s' \<and> currpid s' = currpid s1) (ready pid s1)"
      by (intro ready_kok[OF s1(2)]) simp_all
    then show ?thesis using \<open>currpid s1 = currpid s\<close> by (auto simp: kcall_def s1(1) elim: kok_mono)
  next
    case False
    then have "send pid msg s = Return OK (delivered pid msg s)"
      using p by (simp add: send_def delivered_def Let_def)
    then show ?thesis using kinv_delivered[OF inv] by (simp add: kcall_def delivered_def)
  qed
qed

lemma kinv_taken: "kinv s \<Longrightarrow> kinv (upp me (\<lambda>e. e\<lparr>prhasmsg := False\<rparr>) s)"
  by (rule kinv_upp) simp_all

lemma kpre_block:
  assumes inv: "kinv s" and null: "currpid s \<noteq> 0"
    and st: "st = PR_RECV \<or> st = PR_SUSP"
  shows "kpre (qcontents s) (set_prstate (currpid s) st s)"
  using inv
proof (rule kinvE)
  fix L assume k: "kbase {} L s" "ksems L s" "kcur s" "kranges s"
    "prstate (proctab s (currpid s)) = PR_CURR" "L = qcontents s"
  have "kbase ({} \<union> {currpid s}) L (set_prstate (currpid s) st s)"
    using k(3,5) null st by (intro kbase_set_prstate[OF k(1)]) (auto simp: kcur_def where_q_def)
  then have "kbase {} L (set_prstate (currpid s) st s)"
    by (rule kbase_arrive) (use st in \<open>auto simp: where_q_def\<close>)
  moreover have "kcur (set_prstate (currpid s) st s)"
    using k(3) st by (auto simp: kcur_def)
  moreover have "kranges (set_prstate (currpid s) st s)" using k(4) by (simp add: kranges_def)
  moreover have "ksems L (set_prstate (currpid s) st s)"
    using k(2) ksems_fields[of "set_prstate (currpid s) st s" s] by simp
  ultimately show ?thesis using k(6) by (simp add: kpre_def)
qed

lemma kinv_receive:
  assumes inv: "kinv s" and null: "currpid s \<noteq> 0"
  shows "kcall receive s"
proof (cases "prhasmsg (proctab s (currpid s))")
  case True
  then show ?thesis using kinv_taken[OF inv] by (simp add: kcall_def receive_def Let_def)
next
  case False
  have "ndefers s = 0" using inv by (elim kinvE)
  then have "kok (currpid s) (\<lambda>_ s'. kinv s' \<and> currpid s' = currpid s) (resched (set_prstate (currpid s) PR_RECV s))"
    using resched_kok[OF kpre_block[OF inv null disjI1[OF refl]],
        of "\<lambda>_ s'. kinv s' \<and> currpid s' = currpid s"] by simp
  then show ?thesis using False
    by (auto simp: kcall_def receive_def Let_def kinv_taken elim: kok_mono)
qed

lemma kinv_recvclr: "kinv s \<Longrightarrow> kcall recvclr s"
  using kinv_taken by (simp add: kcall_def recvclr_def Let_def)

lemma kinv_recvtime:
  assumes inv: "kinv s" and null: "currpid s \<noteq> 0"
  shows "kcall (recvtime maxwait) s"
proof (cases "maxwait < 0 \<or> prhasmsg (proctab s (currpid s))")
  case True
  then show ?thesis using inv kinv_taken[OF inv] by (auto simp: kcall_def recvtime_def Let_def)
next
  case False
  obtain us vs k where ds: "dsplit (\<lambda>i. qkey (queuetab s i)) maxwait (qcontents s 302) = (us, vs, k)"
    by (rule prod_cases3)
  obtain Q' where Q': "insertd (currpid s) (sleepq s) maxwait s = Some (OK, s\<lparr>queuetab := Q'\<rparr>)"
    "kpre ((qcontents s)(302 := us @ currpid s # vs)) (set_prstate (currpid s) PR_RECTIM (s\<lparr>queuetab := Q'\<rparr>))"
    (is "kpre _ ?s2")
    using block_on_clock[OF inv null disjI2[OF refl] ds] by metis
  have "ndefers s = 0" using inv by (elim kinvE)
  then have "kok (currpid s) (\<lambda>_ s'. kinv s' \<and> currpid s' = currpid s) (resched ?s2)"
    using resched_kok[OF Q'(2), of "\<lambda>_ s'. kinv s' \<and> currpid s' = currpid s"] by simp
  then show ?thesis using False Q'(1)
    by (auto simp: kcall_def recvtime_def Let_def kinv_taken elim: kok_mono)
qed

section \<open>Properties\<close>

text \<open>C22: \<^verbatim>\<open>send\<close> refuses an invalid process and a process whose last message is still unread, and
  then changes nothing. Otherwise the message is in the receiver's buffer; a receiver that waits,
  with or without a timeout, leaves the delta list and becomes ready before \<^verbatim>\<open>resched\<close> runs, and the
  state of any other receiver is left alone. No other process changes.\<close>

theorem send_correct:
  assumes inv: "kinv s"
  shows "if isbadpid s pid \<or> prhasmsg (proctab s pid) then send pid msg s = Return SYSERR s
    else \<exists>s2. kpre (qcontents s2) s2 \<and> prhasmsg (proctab s2 pid) \<and> prmsg (proctab s2 pid) = msg \<and>
      (\<forall>q. q \<noteq> pid \<longrightarrow> proctab s2 q = proctab s q) \<and>
      (if prstate (proctab s pid) = PR_RECV \<or> prstate (proctab s pid) = PR_RECTIM
       then send pid msg s = bindk (resched s2) (\<lambda>_ s. Return OK s) \<and> prstate (proctab s2 pid) = PR_READY \<and>
         pid \<in> set (qcontents s2 (readylist s2))
       else send pid msg s = Return OK s2 \<and> prstate (proctab s2 pid) = prstate (proctab s pid))"
proof (cases "isbadpid s pid \<or> prhasmsg (proctab s pid)")
  case True
  then show ?thesis by (auto simp: send_def)
next
  case False
  then have p: "\<not> isbadpid s pid" "\<not> prhasmsg (proctab s pid)" by auto
  show ?thesis
  proof (cases "prstate (proctab s pid) = PR_RECV \<or> prstate (proctab s pid) = PR_RECTIM")
    case True
    obtain s1 L1 Q1 where s1: "send pid msg s = bindk (ready pid s1) (\<lambda>_ s. Return OK s)"
      "kbase {pid} L1 s1" "s1 = (delivered pid msg s)\<lparr>queuetab := Q1\<rparr>" "\<And>q. q \<noteq> 302 \<Longrightarrow> L1 q = qcontents s q"
      by (rule send_wakes[OF inv p True]) (rule that, assumption+)
    have kb1: "kbase ({} \<union> {pid}) L1 s1" using s1(2) by simp
    have b1: "\<not> isbadpid s1 pid" using p(1) by (simp add: s1(3) delivered_def isbadpid_def)
    obtain Q2 where r: "ready pid s1 = bindk (resched (readied pid Q2 s1)) (\<lambda>_ s. Return OK s)"
      "kbase {} (L1(300 := ins_desc (\<lambda>i. qkey (queuetab s1 i)) (prprio (proctab s1 pid)) pid (L1 300)))
        (readied pid Q2 s1)" (is "kbase {} ?L2 ?s2")
      by (rule ready_split[OF kb1 b1]) auto
    from kinv_delivered[OF inv, of pid msg] have k: "ksems (qcontents s) (delivered pid msg s)"
      "kcur (delivered pid msg s)" "kranges (delivered pid msg s)"
      unfolding kinv_def kpre_def qcontents_delivered by simp_all
    have "ksems L1 s1 = ksems (qcontents s) s1"
      by (rule ksems_agree[OF kbaseD(1)[OF s1(2)]]) (simp add: s1(4))
    then have "ksems L1 s1" using k(1) ksems_fields[of s1 "delivered pid msg s"] by (simp add: s1(3))
    then have "ksems ?L2 ?s2"
      using ksems_other(1)[OF kbaseD(1)[OF kb1]] by (simp add: ksems_fields[of ?s2 s1])
    moreover have "kcur ?s2" using k(2) by (intro kcur_readied) (simp add: s1(3) kcur_def delivered_def)
    moreover have "kranges ?s2" using k(3) by (auto simp: kranges_def s1(3) delivered_def split: if_splits)
    ultimately have "kpre ?L2 ?s2" using r(2) by (simp add: kpre_def)
    then have "kpre (qcontents ?s2) ?s2" by (rule kpre_qcontents)
    moreover have "qcontents ?s2 (readylist ?s2) = ?L2 300"
      using qcontents_kbase[OF r(2) qids_300(1)] qlayoutD(1)[OF kbaseD(1)[OF r(2)]] by simp
    moreover have "send pid msg s = bindk (resched ?s2) (\<lambda>_ s. Return OK s)"
      using s1(1) r(1) by (simp add: bindk_assoc)
    ultimately show ?thesis
      using p True by (simp only: if_False if_True simp_thms, intro exI[of _ ?s2])
        (simp add: s1(3) delivered_def)
  next
    case False
    then have "send pid msg s = Return OK (delivered pid msg s)"
      using p by (simp add: send_def delivered_def Let_def)
    moreover have "kpre (qcontents (delivered pid msg s)) (delivered pid msg s)"
      using kinv_delivered[OF inv] by (simp add: kinv_def)
    ultimately show ?thesis
      using p False by (simp only: if_False simp_thms, intro exI[of _ "delivered pid msg s"])
        (simp add: delivered_def)
  qed
qed

text \<open>\<^verbatim>\<open>receive\<close> takes a message that is already there without giving up the processor.
  Otherwise the caller has state \<^verbatim>\<open>PR_RECV\<close> and another process runs; when the caller is switched
  back in with a message in its buffer, the call returns that message and the buffer is empty.\<close>

theorem receive_correct:
  assumes inv: "kinv s" and null: "currpid s \<noteq> 0"
  shows "if prhasmsg (proctab s (currpid s))
    then \<exists>s'. receive s = Return (prmsg (proctab s (currpid s))) s' \<and> kinv s' \<and> \<not> prhasmsg (proctab s' (currpid s))
    else \<exists>s' k. receive s = Switch s' k \<and> kinv s' \<and> currpid s' \<noteq> currpid s \<and>
      prstate (proctab s' (currpid s)) = PR_RECV \<and>
      (\<forall>t msg. kinv t \<and> currpid t = currpid s \<and> prmsg (proctab t (currpid s)) = msg \<longrightarrow>
        (\<exists>t'. k t = Return msg t' \<and> kinv t' \<and> \<not> prhasmsg (proctab t' (currpid s))))"
proof (cases "prhasmsg (proctab s (currpid s))")
  case True
  then show ?thesis using kinv_taken[OF inv, of "currpid s"] by (simp add: receive_def Let_def upp_def)
next
  case False
  let ?s1 = "set_prstate (currpid s) PR_RECV s"
  have nd: "ndefers ?s1 = 0" using inv by (elim kinvE) simp
  have pre: "kpre (qcontents s) ?s1" by (rule kpre_block[OF inv null]) simp
  obtain s' k where sw: "resched ?s1 = Switch s' k" "\<And>t. k t = Return () t" "handed_over (qcontents s) ?s1 s'"
    using resched_eq[OF pre nd] by auto
  have C: "contenders (qcontents s) ?s1 = qcontents s 300" by (simp add: contenders_def)
  have "currpid s \<notin> set (qcontents s 300)" using kinv_contenders(2,3)[OF inv] by simp
  then have ne: "hd (qcontents s 300) \<noteq> currpid s"
    using resched_eq[OF pre nd] C by (metis hd_in_set)
  have st: "prstate (proctab s' (currpid s)) = PR_RECV"
    using handed_over_states[OF sw(3), of "currpid s"] ne by (simp add: C)
  let ?k = "\<lambda>t. bindk (k t) (\<lambda>_ s'. Return (prmsg (proctab s' (currpid s))) (upp (currpid s) (\<lambda>e. e\<lparr>prhasmsg := False\<rparr>) s'))"
  have "receive s = Switch s' ?k"
    using False sw(1) by (simp add: receive_def Let_def bindk_assoc)
  moreover have "kinv (upp (currpid s) (\<lambda>e. e\<lparr>prhasmsg := False\<rparr>) t)" if "kinv t" for t
    by (rule kinv_taken[OF that])
  ultimately show ?thesis
    using False st ne handed_over_fields(1,2)[OF sw(3)] sw(2) C by (auto simp: upp_def)
qed

end
