(* ===== verification/Devices.thy ===== *)
theory Devices
  imports Messages
begin

text \<open>
  Device-independent I/O: the device switch table of \<^verbatim>\<open>system/conf.c\<close> and the calls that
  dispatch through it, \<^verbatim>\<open>system/open.c\<close>, \<^verbatim>\<open>close.c\<close>, \<^verbatim>\<open>read.c\<close>, \<^verbatim>\<open>write.c\<close>, \<^verbatim>\<open>getc.c\<close>, \<^verbatim>\<open>putc.c\<close>,
  \<^verbatim>\<open>seek.c\<close>, \<^verbatim>\<open>control.c\<close>, \<^verbatim>\<open>init.c\<close>, with \<^verbatim>\<open>ioerr.c\<close>, \<^verbatim>\<open>ionull.c\<close> and \<^verbatim>\<open>getdev.c\<close>. A driver routine is
  named in the table by its C name; what it does is the argument \<open>drv\<close> of the calls.
\<close>

section \<open>The device switch table\<close>

datatype devfn = Ionull | Ioerr | Drv string

record dentry =
  dvnum :: int
  dvminor :: int
  dvname :: string
  dvinit :: devfn
  dvopen :: devfn
  dvclose :: devfn
  dvread :: devfn
  dvwrite :: devfn
  dvseek :: devfn
  dvgetc :: devfn
  dvputc :: devfn
  dvcntl :: devfn
  dvcsr :: int
  dvintr :: devfn
  dvirq :: int

definition NDEVS :: int where [simp]: "NDEVS = 28"
definition CONSOLE :: int where [simp]: "CONSOLE = 0"
definition DEVNAMLEN :: int where [simp]: "DEVNAMLEN = 16"

definition mkdev :: "int \<Rightarrow> int \<Rightarrow> string \<Rightarrow> devfn list \<Rightarrow> int \<Rightarrow> devfn \<Rightarrow> int \<Rightarrow> dentry" where
  "mkdev n m name f csr intr irq = \<lparr>dvnum = n, dvminor = m, dvname = name, dvinit = f ! 0,
     dvopen = f ! 1, dvclose = f ! 2, dvread = f ! 3, dvwrite = f ! 4, dvseek = f ! 5,
     dvgetc = f ! 6, dvputc = f ! 7, dvcntl = f ! 8, dvcsr = csr, dvintr = intr, dvirq = irq\<rparr>"

definition devtab_tty_rfile :: "dentry list" where
  "devtab_tty_rfile = [
    mkdev 0 0 ''CONSOLE'' [Drv ''ttyinit'', Ionull, Ionull, Drv ''ttyread'', Drv ''ttywrite'', Ioerr, Drv ''ttygetc'', Drv ''ttyputc'', Drv ''ttycontrol''] 1155567616 (Drv ''ttyhandler'') 72,
    mkdev 1 0 ''NULLDEV'' [Ionull, Ionull, Ionull, Ionull, Ionull, Ioerr, Ionull, Ionull, Ioerr] 0 (Ioerr) 0,
    mkdev 2 0 ''ETHER0'' [Drv ''ethinit'', Ioerr, Ioerr, Drv ''ethread'', Drv ''ethwrite'', Ioerr, Ioerr, Ioerr, Drv ''ethcontrol''] 0 (Drv ''ethhandler'') 0,
    mkdev 3 0 ''NAMESPACE'' [Drv ''naminit'', Drv ''namopen'', Ioerr, Ioerr, Ioerr, Ioerr, Ioerr, Ioerr, Ioerr] 0 (Ioerr) 0,
    mkdev 4 0 ''RDISK'' [Drv ''rdsinit'', Drv ''rdsopen'', Drv ''rdsclose'', Drv ''rdsread'', Drv ''rdswrite'', Ioerr, Ioerr, Ioerr, Drv ''rdscontrol''] 0 (Ionull) 0,
    mkdev 5 0 ''RAM0'' [Drv ''raminit'', Drv ''ramopen'', Drv ''ramclose'', Drv ''ramread'', Drv ''ramwrite'', Ioerr, Ioerr, Ioerr, Ioerr] 0 (Ionull) 0,
    mkdev 6 0 ''ADC'' [Drv ''adcinit'', Ionull, Ionull, Drv ''adcread'', Ionull, Ionull, Ionull, Ionull, Ionull] 1155584000 (Drv ''adchandler'') 16,
    mkdev 7 0 ''RFILESYS'' [Drv ''rfsinit'', Drv ''rfsopen'', Ioerr, Ioerr, Ioerr, Ioerr, Ioerr, Ioerr, Drv ''rfscontrol''] 0 (Ionull) 0,
    mkdev 8 0 ''RFILE0'' [Drv ''rflinit'', Ioerr, Drv ''rflclose'', Drv ''rflread'', Drv ''rflwrite'', Drv ''rflseek'', Drv ''rflgetc'', Drv ''rflputc'', Ioerr] 0 (Ionull) 0,
    mkdev 9 1 ''RFILE1'' [Drv ''rflinit'', Ioerr, Drv ''rflclose'', Drv ''rflread'', Drv ''rflwrite'', Drv ''rflseek'', Drv ''rflgetc'', Drv ''rflputc'', Ioerr] 0 (Ionull) 0,
    mkdev 10 2 ''RFILE2'' [Drv ''rflinit'', Ioerr, Drv ''rflclose'', Drv ''rflread'', Drv ''rflwrite'', Drv ''rflseek'', Drv ''rflgetc'', Drv ''rflputc'', Ioerr] 0 (Ionull) 0,
    mkdev 11 3 ''RFILE3'' [Drv ''rflinit'', Ioerr, Drv ''rflclose'', Drv ''rflread'', Drv ''rflwrite'', Drv ''rflseek'', Drv ''rflgetc'', Drv ''rflputc'', Ioerr] 0 (Ionull) 0,
    mkdev 12 4 ''RFILE4'' [Drv ''rflinit'', Ioerr, Drv ''rflclose'', Drv ''rflread'', Drv ''rflwrite'', Drv ''rflseek'', Drv ''rflgetc'', Drv ''rflputc'', Ioerr] 0 (Ionull) 0,
    mkdev 13 5 ''RFILE5'' [Drv ''rflinit'', Ioerr, Drv ''rflclose'', Drv ''rflread'', Drv ''rflwrite'', Drv ''rflseek'', Drv ''rflgetc'', Drv ''rflputc'', Ioerr] 0 (Ionull) 0,
    mkdev 14 6 ''RFILE6'' [Drv ''rflinit'', Ioerr, Drv ''rflclose'', Drv ''rflread'', Drv ''rflwrite'', Drv ''rflseek'', Drv ''rflgetc'', Drv ''rflputc'', Ioerr] 0 (Ionull) 0,
    mkdev 15 7 ''RFILE7'' [Drv ''rflinit'', Ioerr, Drv ''rflclose'', Drv ''rflread'', Drv ''rflwrite'', Drv ''rflseek'', Drv ''rflgetc'', Drv ''rflputc'', Ioerr] 0 (Ionull) 0,
    mkdev 16 8 ''RFILE8'' [Drv ''rflinit'', Ioerr, Drv ''rflclose'', Drv ''rflread'', Drv ''rflwrite'', Drv ''rflseek'', Drv ''rflgetc'', Drv ''rflputc'', Ioerr] 0 (Ionull) 0,
    mkdev 17 9 ''RFILE9'' [Drv ''rflinit'', Ioerr, Drv ''rflclose'', Drv ''rflread'', Drv ''rflwrite'', Drv ''rflseek'', Drv ''rflgetc'', Drv ''rflputc'', Ioerr] 0 (Ionull) 0]"

definition devtab_lfile_gpio :: "dentry list" where
  "devtab_lfile_gpio = [
    mkdev 18 0 ''LFILESYS'' [Drv ''lfsinit'', Drv ''lfsopen'', Ioerr, Ioerr, Ioerr, Ioerr, Ioerr, Ioerr, Ioerr] 0 (Ionull) 0,
    mkdev 19 0 ''LFILE0'' [Drv ''lflinit'', Ioerr, Drv ''lflclose'', Drv ''lflread'', Drv ''lflwrite'', Drv ''lflseek'', Drv ''lflgetc'', Drv ''lflputc'', Drv ''lflcontrol''] 0 (Ionull) 0,
    mkdev 20 1 ''LFILE1'' [Drv ''lflinit'', Ioerr, Drv ''lflclose'', Drv ''lflread'', Drv ''lflwrite'', Drv ''lflseek'', Drv ''lflgetc'', Drv ''lflputc'', Drv ''lflcontrol''] 0 (Ionull) 0,
    mkdev 21 2 ''LFILE2'' [Drv ''lflinit'', Ioerr, Drv ''lflclose'', Drv ''lflread'', Drv ''lflwrite'', Drv ''lflseek'', Drv ''lflgetc'', Drv ''lflputc'', Drv ''lflcontrol''] 0 (Ionull) 0,
    mkdev 22 3 ''LFILE3'' [Drv ''lflinit'', Ioerr, Drv ''lflclose'', Drv ''lflread'', Drv ''lflwrite'', Drv ''lflseek'', Drv ''lflgetc'', Drv ''lflputc'', Drv ''lflcontrol''] 0 (Ionull) 0,
    mkdev 23 4 ''LFILE4'' [Drv ''lflinit'', Ioerr, Drv ''lflclose'', Drv ''lflread'', Drv ''lflwrite'', Drv ''lflseek'', Drv ''lflgetc'', Drv ''lflputc'', Drv ''lflcontrol''] 0 (Ionull) 0,
    mkdev 24 5 ''LFILE5'' [Drv ''lflinit'', Ioerr, Drv ''lflclose'', Drv ''lflread'', Drv ''lflwrite'', Drv ''lflseek'', Drv ''lflgetc'', Drv ''lflputc'', Drv ''lflcontrol''] 0 (Ionull) 0,
    mkdev 25 0 ''SPI0'' [Drv ''spiinit'', Ionull, Ionull, Ionull, Ionull, Ionull, Ionull, Ionull, Drv ''spicontrol''] 1208156160 (Ionull) 0,
    mkdev 26 1 ''SPI1'' [Drv ''spiinit'', Ionull, Ionull, Ionull, Ionull, Ionull, Ionull, Ionull, Drv ''spicontrol''] 1209663488 (Ionull) 0,
    mkdev 27 0 ''GPIO'' [Ionull, Ionull, Ionull, Drv ''digital_read'', Drv ''digital_write'', Ioerr, Ionull, Ionull, Drv ''set_pin''] 0 (Ionull) 0]"

definition devtab :: "dentry list" where
  "devtab = devtab_tty_rfile @ devtab_lfile_gpio"

definition isbaddev :: "int \<Rightarrow> bool" where
  "isbaddev f \<longleftrightarrow> f < 0 \<or> f \<ge> NDEVS"

section \<open>The code\<close>

type_synonym drivers = "string \<Rightarrow> int \<Rightarrow> int list \<Rightarrow> kstate \<Rightarrow> (kstate, int) step"

definition ioerr :: "kstate \<Rightarrow> (kstate, int) step" where
  "ioerr s = Return SYSERR s"

definition ionull :: "kstate \<Rightarrow> (kstate, int) step" where
  "ionull s = Return OK s"

definition devcall :: "drivers \<Rightarrow> devfn \<Rightarrow> int \<Rightarrow> int list \<Rightarrow> kstate \<Rightarrow> (kstate, int) step" where
  "devcall drv f dev args s = (case f of
     Ionull \<Rightarrow> ionull s
   | Ioerr \<Rightarrow> ioerr s
   | Drv name \<Rightarrow> drv name dev args s)"

definition dev_open :: "drivers \<Rightarrow> int \<Rightarrow> int \<Rightarrow> int \<Rightarrow> kstate \<Rightarrow> (kstate, int) step" where
  "dev_open drv descrp name mode s =
    (if isbaddev descrp then Return SYSERR s
     else devcall drv (dvopen (devtab ! nat descrp)) descrp [name, mode] s)"

definition dev_close :: "drivers \<Rightarrow> int \<Rightarrow> kstate \<Rightarrow> (kstate, int) step" where
  "dev_close drv descrp s =
    (if isbaddev descrp then Return SYSERR s
     else devcall drv (dvclose (devtab ! nat descrp)) descrp [] s)"

definition dev_read :: "drivers \<Rightarrow> int \<Rightarrow> int \<Rightarrow> int \<Rightarrow> kstate \<Rightarrow> (kstate, int) step" where
  "dev_read drv descrp buffer count s =
    (if isbaddev descrp then Return SYSERR s
     else devcall drv (dvread (devtab ! nat descrp)) descrp [buffer, count] s)"

definition dev_write :: "drivers \<Rightarrow> int \<Rightarrow> int \<Rightarrow> int \<Rightarrow> kstate \<Rightarrow> (kstate, int) step" where
  "dev_write drv descrp buffer count s =
    (if isbaddev descrp then Return SYSERR s
     else devcall drv (dvwrite (devtab ! nat descrp)) descrp [buffer, count] s)"

definition dev_seek :: "drivers \<Rightarrow> int \<Rightarrow> int \<Rightarrow> kstate \<Rightarrow> (kstate, int) step" where
  "dev_seek drv descrp pos s =
    (if isbaddev descrp then Return SYSERR s
     else devcall drv (dvseek (devtab ! nat descrp)) descrp [pos] s)"

definition dev_getc :: "drivers \<Rightarrow> int \<Rightarrow> kstate \<Rightarrow> (kstate, int) step" where
  "dev_getc drv descrp s =
    (if isbaddev descrp then Return SYSERR s
     else devcall drv (dvgetc (devtab ! nat descrp)) descrp [] s)"

definition dev_putc :: "drivers \<Rightarrow> int \<Rightarrow> int \<Rightarrow> kstate \<Rightarrow> (kstate, int) step" where
  "dev_putc drv descrp ch s =
    (if isbaddev descrp then Return SYSERR s
     else devcall drv (dvputc (devtab ! nat descrp)) descrp [ch] s)"

definition dev_control :: "drivers \<Rightarrow> int \<Rightarrow> int \<Rightarrow> int \<Rightarrow> int \<Rightarrow> kstate \<Rightarrow> (kstate, int) step" where
  "dev_control drv descrp func arg1 arg2 s =
    (if isbaddev descrp then Return SYSERR s
     else devcall drv (dvcntl (devtab ! nat descrp)) descrp [func, arg1, arg2] s)"

definition dev_init :: "drivers \<Rightarrow> int \<Rightarrow> kstate \<Rightarrow> (kstate, int) step" where
  "dev_init drv descrp s =
    (if isbaddev descrp then Return SYSERR s
     else devcall drv (dvinit (devtab ! nat descrp)) descrp [] s)"

text \<open>
  \<^verbatim>\<open>strncmp(devname, dvname, DEVNAMLEN)\<close> is nonzero for names that differ within the first
  \<^verbatim>\<open>DEVNAMLEN\<close> characters; \<^verbatim>\<open>getdev\<close> uses the value itself as its test.
\<close>

definition names_differ :: "string \<Rightarrow> string \<Rightarrow> bool" where
  "names_differ a b \<longleftrightarrow> take (nat DEVNAMLEN) a \<noteq> take (nat DEVNAMLEN) b"

primrec getdev_loop :: "nat \<Rightarrow> int \<Rightarrow> string \<Rightarrow> int" where
  "getdev_loop 0 i devname = SYSERR"
| "getdev_loop (Suc n) i devname =
    (if names_differ devname (dvname (devtab ! nat i)) then i else getdev_loop n (i + 1) devname)"

definition getdev :: "string \<Rightarrow> int" where
  "getdev devname = getdev_loop (nat NDEVS) 0 devname"

section \<open>Properties\<close>

lemmas devtab_defs = devtab_def devtab_tty_rfile_def devtab_lfile_gpio_def mkdev_def

text \<open>The device switch table is consistent: it has \<^verbatim>\<open>NDEVS\<close> entries, entry \<open>i\<close> is numbered \<open>i\<close>,
  names are distinct within \<^verbatim>\<open>DEVNAMLEN\<close> characters, and the minor numbers of the devices of one
  kind (those that share an initialisation routine of a driver) are distinct.\<close>

theorem devtab_consistent:
  "int (length devtab) = NDEVS \<and> map dvnum devtab = map int [0..<28] \<and>
   distinct (map (take 16 \<circ> dvname) devtab) \<and>
   distinct (map (\<lambda>d. (dvinit d, dvminor d)) (filter (\<lambda>d. dvinit d \<noteq> Ionull) devtab))"
  by (simp add: devtab_defs upt_rec)

text \<open>\<^verbatim>\<open>getdev\<close> does not find the device with the given name: its test on \<^verbatim>\<open>strncmp\<close> is inverted, so it
  returns the number of the first device with a different name, which is 1 for the console's name
  and 0 for every other string; it never fails.\<close>

theorem getdev_inverted:
  "getdev name = (if take 16 name = ''CONSOLE'' then 1 else 0)"
proof -
  have "getdev name = getdev_loop (Suc (Suc 26)) 0 name" by (simp add: getdev_def)
  also have "\<dots> = (if take 16 name = ''CONSOLE'' then 1 else 0)"
    unfolding getdev_loop.simps(2) by (auto simp: names_differ_def devtab_defs)
  finally show ?thesis .
qed

text \<open>Every call through the switch table with a number outside it returns \<^verbatim>\<open>SYSERR\<close> and leaves the
  state alone, whatever the drivers do; on the null device every call but \<^verbatim>\<open>seek\<close> and \<^verbatim>\<open>control\<close>
  succeeds without an effect.\<close>

theorem device_calls_guarded:
  "(isbaddev d \<longrightarrow> dev_open drv d n m s = Return SYSERR s \<and> dev_close drv d s = Return SYSERR s \<and>
     dev_read drv d b c s = Return SYSERR s \<and> dev_write drv d b c s = Return SYSERR s \<and>
     dev_seek drv d pos s = Return SYSERR s \<and> dev_getc drv d s = Return SYSERR s \<and>
     dev_putc drv d ch s = Return SYSERR s \<and> dev_control drv d f x y s = Return SYSERR s \<and>
     dev_init drv d s = Return SYSERR s) \<and>
   dev_open drv 1 n m s = Return OK s \<and> dev_close drv 1 s = Return OK s \<and> dev_read drv 1 b c s = Return OK s \<and>
   dev_write drv 1 b c s = Return OK s \<and> dev_getc drv 1 s = Return OK s \<and> dev_putc drv 1 ch s = Return OK s \<and>
   dev_seek drv 1 pos s = Return SYSERR s \<and> dev_control drv 1 f x y s = Return SYSERR s"
proof -
  have d: "devtab ! 1 = mkdev 1 0 ''NULLDEV'' [Ionull, Ionull, Ionull, Ionull, Ionull, Ioerr, Ionull, Ionull, Ioerr] 0 Ioerr 0"
    by (simp add: devtab_def devtab_tty_rfile_def)
  then show ?thesis
    by (simp add: dev_open_def dev_close_def dev_read_def dev_write_def dev_seek_def dev_getc_def dev_putc_def
        dev_control_def dev_init_def isbaddev_def devcall_def ionull_def ioerr_def mkdev_def)
qed

end
