(* ===== verification/Process.thy ===== *)
theory Process
  imports Semaphores Devices
begin

text \<open>
  Creating and removing processes: \<^verbatim>\<open>system/create.c\<close> (with \<^verbatim>\<open>newpid\<close>), \<^verbatim>\<open>kill.c\<close>, \<^verbatim>\<open>exit.c\<close>,
  \<^verbatim>\<open>userret.c\<close>. The address of \<^verbatim>\<open>userret\<close>, which the linker chooses, is an argument of \<open>create\<close>, the
  device drivers (for \<^verbatim>\<open>close\<close>) an argument of \<open>kill\<close>. \<^verbatim>\<open>xdone\<close> halts the processor: \<open>Fault\<close>.
\<close>

section \<open>The code\<close>

definition MINSTK :: int where [simp]: "MINSTK = 400"
definition STACKMAGIC :: int where [simp]: "STACKMAGIC = 0x0A0AAAA9"
definition PNMLEN :: nat where [simp]: "PNMLEN = 16"

definition roundew :: "int \<Rightarrow> int" where
  "roundew x = (let y = u32 (x + 3) in y - y mod 4)"

primrec newpid_loop :: "nat \<Rightarrow> kstate \<Rightarrow> int \<times> kstate" where
  "newpid_loop 0 s = (SYSERR, s)"
| "newpid_loop (Suc n) s =
    (let pid = nextpid s mod NPROC; s = s\<lparr>nextpid := pid + 1\<rparr> in
     if prstate (proctab s pid) = PR_FREE then (pid, s) else newpid_loop n s)"

definition newpid :: "kstate \<Rightarrow> int \<times> kstate" where
  "newpid s = newpid_loop (nat NPROC) s"

text \<open>The words pushed on the new stack, from the top downwards, and the pushing.\<close>

definition frame_words :: "int \<Rightarrow> int \<Rightarrow> int list \<Rightarrow> int list" where
  "frame_words procaddr initret args =
     STACKMAGIC # rev (drop 4 args) @ [procaddr] @ replicate 8 0 @
     map (\<lambda>i. if i \<le> length args then args ! (i - 1) else 0) [4, 3, 2, 1] @ [initret, 0x53]"

primrec push_words :: "int \<Rightarrow> int list \<Rightarrow> heap \<Rightarrow> heap" where
  "push_words a [] h = h"
| "push_words a (w # ws) h = push_words (a - 4) ws (h\<lparr>mem := (mem h)(a := w)\<rparr>)"

text \<open>The table entry of a new process; a name is cut off at \<^verbatim>\<open>PNMLEN - 1\<close> characters.\<close>

definition new_entry :: "int \<Rightarrow> int \<Rightarrow> int \<Rightarrow> string \<Rightarrow> int \<Rightarrow> procent \<Rightarrow> procent" where
  "new_entry priority saddr ssize name parent e =
    e\<lparr>prstate := PR_SUSP, prprio := priority, prstkbase := saddr, prstklen := ssize,
      prname := take (PNMLEN - 1) name, prsem := -1, prparent := parent, prhasmsg := False,
      prdesc := CONSOLE # CONSOLE # CONSOLE # drop 3 (prdesc e)\<rparr>"

definition create :: "int \<Rightarrow> int \<Rightarrow> int \<Rightarrow> int \<Rightarrow> string \<Rightarrow> int list \<Rightarrow> kstate \<Rightarrow> (kstate, int) step" where
  "create initret procaddr ssize priority name args s =
    (let ssize = roundew (if ssize < MINSTK then MINSTK else ssize) in
     bindk (liftk (map_option (\<lambda>(a, h). (a, s\<lparr>hp := h\<rparr>)) (heap_getstk ssize (hp s)))) (\<lambda>saddr s.
     if saddr = u32 SYSERR then Return SYSERR s
     else case newpid s of (pid, s) \<Rightarrow>
       if pid = SYSERR \<or> priority < 1 then Return SYSERR s
       else let s = s\<lparr>prcount := i32 (prcount s + 1)\<rparr>;
                words = frame_words procaddr initret args;
                s = upp pid (new_entry priority saddr ssize name (currpid s)) s;
                s = s\<lparr>hp := push_words saddr words (hp s)\<rparr>;
                s = upp pid (\<lambda>e. e\<lparr>prstkptr := saddr - 4 * int (length words - 1)\<rparr>) s
            in Return pid s))"

primrec close_desc :: "drivers \<Rightarrow> nat \<Rightarrow> nat \<Rightarrow> int \<Rightarrow> kstate \<Rightarrow> (kstate, unit) step" where
  "close_desc drv 0 i pid s = Return () s"
| "close_desc drv (Suc n) i pid s =
    bindk (dev_close drv (prdesc (proctab s pid) ! i) s) (\<lambda>_ s. close_desc drv n (Suc i) pid s)"

text \<open>
  The switch of \<^verbatim>\<open>kill\<close> on the state of the process, with the C fall-through: \<^verbatim>\<open>PR_CURR\<close> runs on
  into \<^verbatim>\<open>PR_SLEEP\<close>, \<^verbatim>\<open>PR_WAIT\<close> into \<^verbatim>\<open>PR_READY\<close> and that into the default.
\<close>

definition kill_sleep :: "int \<Rightarrow> kstate \<Rightarrow> (kstate, unit) step" where
  "kill_sleep pid s = bindk (liftk (unsleep pid s)) (\<lambda>_ s. Return () (set_prstate pid PR_FREE s))"

definition kill_ready :: "int \<Rightarrow> kstate \<Rightarrow> (kstate, unit) step" where
  "kill_ready pid s = bindk (liftk (getitem pid s)) (\<lambda>_ s. Return () (set_prstate pid PR_FREE s))"

definition kill_switch :: "int \<Rightarrow> kstate \<Rightarrow> (kstate, unit) step" where
  "kill_switch pid s = (case prstate (proctab s pid) of
     PR_CURR \<Rightarrow> bindk (resched (set_prstate pid PR_FREE s)) (\<lambda>_ s. kill_sleep pid s)
   | PR_SLEEP \<Rightarrow> kill_sleep pid s
   | PR_RECTIM \<Rightarrow> kill_sleep pid s
   | PR_WAIT \<Rightarrow> kill_ready pid
       (upsem (prsem (proctab s pid)) (\<lambda>e. e\<lparr>scount := i32 (scount e + 1)\<rparr>) s)
   | PR_READY \<Rightarrow> kill_ready pid s
   | _ \<Rightarrow> Return () (set_prstate pid PR_FREE s))"

definition kill_free :: "int \<Rightarrow> kstate \<Rightarrow> (int \<times> kstate) option" where
  "kill_free pid s = map_option (\<lambda>(r, h). (r, s\<lparr>hp := h\<rparr>))
     (heap_freestk (prstkbase (proctab s pid)) (prstklen (proctab s pid)) (hp s))"

definition kill :: "drivers \<Rightarrow> int \<Rightarrow> kstate \<Rightarrow> (kstate, int) step" where
  "kill drv pid s =
    (if isbadpid s pid \<or> pid = NULLPROC \<or> prstate (proctab s pid) = PR_FREE then Return SYSERR s
     else let s = s\<lparr>prcount := i32 (prcount s - 1)\<rparr> in
       if prcount s \<le> 1 then Fault
       else bindk (send (prparent (proctab s pid)) (u32 pid) s) (\<lambda>_ s.
            bindk (close_desc drv 3 0 pid s) (\<lambda>_ s.
            bindk (liftk (kill_free pid s)) (\<lambda>_ s.
            bindk (kill_switch pid s) (\<lambda>_ s. Return OK s)))))"

definition exit :: "drivers \<Rightarrow> kstate \<Rightarrow> (kstate, int) step" where
  "exit drv s = bindk (getpid s) (\<lambda>pid s. kill drv pid s)"

definition userret :: "drivers \<Rightarrow> kstate \<Rightarrow> (kstate, int) step" where
  "userret drv s = bindk (getpid s) (\<lambda>pid s. kill drv pid s)"

section \<open>Creating\<close>

lemma newpid_loop_spec:
  assumes "0 \<le> nextpid s" "nextpid s \<le> NPROC" "newpid_loop n s = (pid, s')"
  shows "\<exists>m. 0 \<le> m \<and> m \<le> NPROC \<and> s' = s\<lparr>nextpid := m\<rparr> \<and>
    (pid = SYSERR \<or> pid \<in> procs \<and> prstate (proctab s pid) = PR_FREE)"
  using assms
proof (induction n arbitrary: s)
  case 0
  then show ?case by (intro exI[of _ "nextpid s"]) simp
next
  case (Suc n)
  let ?p = "nextpid s mod NPROC"
  have p: "0 \<le> ?p" "?p < 100" by simp_all
  show ?case
  proof (cases "prstate (proctab s ?p) = PR_FREE")
    case True
    then show ?thesis using Suc.prems(3) p by (intro exI[of _ "?p + 1"]) (auto simp: Let_def)
  next
    case False
    then have "newpid_loop n (s\<lparr>nextpid := ?p + 1\<rparr>) = (pid, s')" using Suc.prems(3) by (simp add: Let_def)
    from Suc.IH[OF _ _ this] p show ?thesis by auto
  qed
qed

lemma newpid_loop_full:
  assumes "0 \<le> nextpid s" "nextpid s \<le> NPROC" "fst (newpid_loop n s) = SYSERR" "k < n"
  shows "prstate (proctab s ((nextpid s + int k) mod NPROC)) \<noteq> PR_FREE"
  using assms
proof (induction n arbitrary: s k)
  case (Suc n)
  let ?p = "nextpid s mod NPROC"
  have f: "prstate (proctab s ?p) \<noteq> PR_FREE" "fst (newpid_loop n (s\<lparr>nextpid := ?p + 1\<rparr>)) = SYSERR"
    using Suc.prems(3) pos_mod_sign[of NPROC "nextpid s"] by (auto simp: Let_def split: if_splits)
  show ?case
  proof (cases k)
    case 0
    then show ?thesis using f(1) by simp
  next
    case (Suc j)
    have "0 \<le> ?p + 1" "?p + 1 \<le> NPROC" using pos_mod_sign[of NPROC "nextpid s"] pos_mod_bound[of NPROC "nextpid s"] by auto
    with Suc.IH[OF _ _ f(2), of j] Suc \<open>k < Suc n\<close>
    have "prstate (proctab s ((?p + 1 + int j) mod NPROC)) \<noteq> PR_FREE" by simp
    moreover have "(?p + 1 + int j) mod NPROC = (nextpid s + int k) mod NPROC"
      unfolding Suc by (simp add: mod_simps add.assoc)
    ultimately show ?thesis by simp
  qed
qed simp

lemma newpid_full:
  assumes "0 \<le> nextpid s" "nextpid s \<le> NPROC" "fst (newpid s) = SYSERR" "p \<in> procs"
  shows "prstate (proctab s p) \<noteq> PR_FREE"
proof -
  have k: "nat ((p - nextpid s) mod NPROC) < nat NPROC" by simp
  have "(nextpid s + int (nat ((p - nextpid s) mod NPROC))) mod NPROC = p" using assms(4) by (simp add: mod_simps)
  then show ?thesis using newpid_loop_full[OF assms(1,2) assms(3)[unfolded newpid_def] k] by simp
qed

text \<open>Writing outside the free bytes does not disturb the free list.\<close>

lemma rd_in_bytes:
  assumes "apart lo xs hi" "w \<in> rd p xs \<or> w = lastp p xs"
  shows "w = p \<or> w \<in> bytes xs"
  using assms
proof (induction xs arbitrary: lo p)
  case (Cons x xs)
  obtain a l where x: "x = (a, l)" by (cases x)
  have al: "0 < l" "l mod 8 = 0" "apart (a + l + 8) xs hi" using Cons.prems(1) x by auto
  then have "8 \<le> l" by presburger
  then have h: "a \<in> bytes (x # xs)" "a + 4 \<in> bytes (x # xs)" using x by auto
  show ?case
  proof (cases "w \<in> rd a xs \<or> w = lastp a xs")
    case True
    then show ?thesis using Cons.IH[OF al(3) True] h x by auto
  qed (use Cons.prems(2) x h in auto)
qed simp

lemma heap_rep_write:
  assumes rep: "heap_rep h xs" and w: "w \<notin> bytes xs" "minheap h \<le> w"
  shows "heap_rep (h\<lparr>mem := (mem h)(w := v)\<rparr>) xs"
proof -
  have M: "memlist_at h + 8 \<le> minheap h" using rep by (simp add: heap_rep_def frame_ok_def)
  have "mem (h\<lparr>mem := (mem h)(w := v)\<rparr>) u = mem h u" if "u \<in> rd (memlist_at h) xs \<or> u = lastp (memlist_at h) xs" for u
    using rd_in_bytes[OF _ that, of "minheap h" "maxheap h"] rep w M by (auto simp: heap_rep_def)
  then have "chain (h\<lparr>mem := (mem h)(w := v)\<rparr>) (memlist_at h) xs"
    using rep chain_cong[of "memlist_at h" xs "h\<lparr>mem := (mem h)(w := v)\<rparr>" h] by (simp add: heap_rep_def)
  then show ?thesis
    using rep w M by (auto simp: heap_rep_def frame_ok_cong[of "h\<lparr>mem := (mem h)(w := v)\<rparr>" h])
qed

lemma push_words_fields [simp]:
  "memlist_at (push_words a ws h) = memlist_at h" "minheap (push_words a ws h) = minheap h"
  "maxheap (push_words a ws h) = maxheap h"
  by (induction ws arbitrary: a h) auto

lemma heap_rep_push_words:
  assumes "heap_rep h xs" "region (a - 4 * (int (length ws) - 1)) (4 * int (length ws)) \<inter> bytes xs = {}"
    "minheap h \<le> a - 4 * (int (length ws) - 1)"
  shows "heap_rep (push_words a ws h) xs"
  using assms
proof (induction ws arbitrary: a h)
  case (Cons w ws)
  have e: "a - 4 - 4 * (int (length ws) - 1) = a - 4 * int (length ws)" by simp
  have "a \<in> region (a - 4 * (int (length (w # ws)) - 1)) (4 * int (length (w # ws)))"
    by (simp add: region_def)
  then have "a \<notin> bytes xs" using Cons.prems(2) by blast
  then have "heap_rep (h\<lparr>mem := (mem h)(a := w)\<rparr>) xs"
    using heap_rep_write[OF Cons.prems(1), of a w] Cons.prems(3) by simp
  moreover have "region (a - 4 * int (length ws)) (4 * int (length ws)) \<subseteq>
      region (a - 4 * (int (length (w # ws)) - 1)) (4 * int (length (w # ws)))"
    by (auto simp: region_def)
  then have "region (a - 4 * int (length ws)) (4 * int (length ws)) \<inter> bytes xs = {}"
    using Cons.prems(2) by blast
  then have "region (a - 4 - 4 * (int (length ws) - 1)) (4 * int (length ws)) \<inter> bytes xs = {}"
    by (simp add: e)
  ultimately show ?case using Cons.IH[of "h\<lparr>mem := (mem h)(a := w)\<rparr>" "a - 4"] Cons.prems(3) by (simp add: e)
qed simp

lemma length_frame_words [simp]: "length (frame_words pa ir args) = 16 + (length args - 4)"
  by (simp add: frame_words_def)

lemma roundew_spec:
  assumes "0 \<le> x" "x < 4294967290"
  shows "x \<le> roundew x" "roundew x < x + 4" "roundew x mod 4 = 0"
proof -
  have "u32 (x + 3) = x + 3" using assms by simp
  then show "x \<le> roundew x" "roundew x < x + 4" "roundew x mod 4 = 0"
    by (simp_all add: roundew_def Let_def minus_mod_eq_mult_div)
qed

lemma kinv_hp:
  assumes "kinv s" "heap_ok h" "maxheap h = maxheap (hp s)"
  shows "kinv (s\<lparr>hp := h\<rparr>)"
  using assms(1)
proof (rule kinvE)
  fix L assume k: "kbase {} L s" "ksems L s" "kcur s" "kranges s"
    "prstate (proctab s (currpid s)) = PR_CURR" "ndefers s = 0"
  have "stk_ok h e = stk_ok (hp s) e" for e by (simp add: stk_ok_def assms(3))
  then show ?thesis using k assms(2)
    by (intro kinvI[of L]) (simp_all add: kpre_def kcur_def kranges_def
      kbase_fields[of "s\<lparr>hp := h\<rparr>" s] ksems_fields[of "s\<lparr>hp := h\<rparr>" s])
qed

lemma kinv_heap: "kinv s \<Longrightarrow> heap_ok (hp s)"
  by (elim kinvE) (simp add: kranges_def)

text \<open>A free entry of the process table may be filled with a suspended process.\<close>

lemma kinv_new_entry:
  assumes inv: "kinv s" and pid: "pid \<in> procs" "prstate (proctab s pid) = PR_FREE"
    and f: "prstate (f (proctab s pid)) = PR_SUSP" "- 32768 \<le> prprio (f (proctab s pid))"
      "prprio (f (proctab s pid)) < 32768" "stk_ok (hp s) (f (proctab s pid))"
  shows "kinv (upp pid f s)"
  using inv
proof (rule kinvE)
  fix L assume k: "kbase {} L s" "ksems L s" "kcur s" "kranges s"
    "prstate (proctab s (currpid s)) = PR_CURR" "ndefers s = 0"
  have nz: "pid \<noteq> 0" using kbaseD(8)[OF k(1)] pid(2) by auto
  have cur: "pid \<noteq> currpid s" using k(5) pid(2) by auto
  have "kbase ({} \<union> {pid}) L (upp pid f s)"
    using pid f nz by (intro kbase_upp_transit[OF k(1)]) (auto simp: where_q_def)
  then have "kbase {} L (upp pid f s)" by (rule kbase_arrive) (simp_all add: where_q_def f)
  moreover have "kcur (upp pid f s)" using k(3) f(1) unfolding kcur_def by simp
  moreover have "kranges (upp pid f s)" using k(4) f(4) by (simp add: kranges_def)
  ultimately show ?thesis using k(2,5,6) cur
    by (intro kinvI[of L]) (simp_all add: kpre_def ksems_fields[of "upp pid f s" s])
qed

lemma upp_more_fields [simp]: "prcount (upp p f s) = prcount s" "prcount (upsem p g s) = prcount s"
  by (simp_all add: upp_def upsem_def)

text \<open>A successful \<^verbatim>\<open>create\<close>, and why it fails.\<close>

lemma create_eq:
  assumes inv: "kinv s" and prio: "- 32768 \<le> priority" "priority < 32768"
    and ss: "0 \<le> ssize" "ssize < 4294967280"
    and fits: "4 * (16 + (int (length args) - 4)) \<le> max ssize 400"
    and rep: "heap_rep (hp s) xs"
  defines "z \<equiv> roundew (if ssize < MINSTK then MINSTK else ssize)"
  obtains "create initret procaddr ssize priority name args s = Return SYSERR s" "last_fit (roundmb z) xs = None"
  | b ys s' where "create initret procaddr ssize priority name args s = Return SYSERR s'" "kinv s'"
      "currpid s' = currpid s" "proctab s' = proctab s" "queuetab s' = queuetab s"
      "last_fit (roundmb z) xs = Some (b, ys)" "heap_rep (hp s') ys"
      "(\<forall>p\<in>procs. prstate (proctab s p) \<noteq> PR_FREE) \<or> priority < 1"
  | b ys pid s' where "create initret procaddr ssize priority name args s = Return pid s'" "kinv s'"
      "currpid s' = currpid s" "pid \<in> procs" "prstate (proctab s pid) = PR_FREE" "1 \<le> priority"
      "proctab s' = (proctab s)(pid := (new_entry priority (b + roundmb z - 4) z name (currpid s) (proctab s pid))
         \<lparr>prstkptr := b + roundmb z - 4 - 4 * int (15 + (length args - 4))\<rparr>)"
      "queuetab s' = queuetab s" "semtab s' = semtab s" "prcount s' = i32 (prcount s + 1)"
      "readylist s' = readylist s" "sleepq s' = sleepq s"
      "last_fit (roundmb z) xs = Some (b, ys)" "heap_rep (hp s') ys"
proof -
  have z: "400 \<le> z" "ssize \<le> z" "z < 4294967284" "max ssize 400 \<le> z"
    using roundew_spec[of ssize] roundew_spec[of 400] ss unfolding z_def by auto
  have zn: "0 < z" "z < 4294967288" using z by simp_all
  note G = heap_getstk_eq[OF rep zn] and rn = roundmb_nat[of z] and U = heap_rep_u32[OF rep]
  let ?c = "create initret procaddr ssize priority name args s"
  note c0 = create_def[of initret procaddr ssize priority name args s, folded z_def]
  have se: "u32 SYSERR = 4294967295" by (simp add: u32_def)
  show ?thesis
  proof (cases "last_fit (roundmb z) xs")
    case None
    then have "?c = Return SYSERR s" using G unfolding c0 Let_def by simp
    then show ?thesis using that(1) None by simp
  next
    case (Some r)
    obtain b ys where r: "r = (b, ys)" by (cases r)
    obtain h1 where h1: "heap_getstk z (hp s) = Some (b + roundmb z - 4, h1)" "heap_rep h1 ys"
      "minheap h1 = minheap (hp s)" "maxheap h1 = maxheap (hp s)"
      using G Some r by auto
    have ap: "apart (minheap (hp s)) xs (maxheap (hp s))" using rep by (simp add: heap_rep_def)
    have rz: "0 < roundmb z" "roundmb z mod 8 = 0" "z \<le> roundmb z" using rn zn by auto
    note B = last_fit_bytes[OF ap Some[unfolded r] rz(1,2)]
    let ?sa = "b + roundmb z - 4"
    have sa: "?sa \<noteq> u32 SYSERR" using B(5) U(4) se by simp
    let ?s1 = "s\<lparr>hp := h1\<rparr>"
    have k1: "kinv ?s1" using kinv_hp[OF inv] h1(2,4) by (auto simp: heap_ok_def)
    obtain pid s2 where n: "newpid ?s1 = (pid, s2)" by fastforce
    have np: "0 \<le> nextpid s" "nextpid s \<le> NPROC" using inv by (elim kinvE, simp add: kranges_def)+
    then obtain m where m: "0 \<le> m" "m \<le> NPROC" "s2 = ?s1\<lparr>nextpid := m\<rparr>"
      "pid = SYSERR \<or> pid \<in> procs \<and> prstate (proctab s pid) = PR_FREE"
      using newpid_loop_spec[OF _ _ n[unfolded newpid_def]] by auto
    have k2: "kinv s2"
      using k1 m(1,2) unfolding m(3) by (elim kinvE, intro kinvI[of "qcontents ?s1"])
        (simp_all add: kpre_def kcur_def kranges_def kbase_fields[of "?s1\<lparr>nextpid := m\<rparr>" ?s1]
          ksems_fields[of "?s1\<lparr>nextpid := m\<rparr>" ?s1])
    show ?thesis
    proof (cases "pid = SYSERR \<or> priority < 1")
      case True
      then have "?c = Return SYSERR s2" using h1(1) sa n unfolding c0 Let_def by simp
      moreover have "\<forall>p\<in>procs. prstate (proctab s p) \<noteq> PR_FREE" if "pid = SYSERR"
        using newpid_full[of ?s1] n np that by auto
      ultimately show ?thesis using that(2)[of s2 b ys] k2 m(3) True Some r h1(2) by auto
    next
      case False
      then have pid: "pid \<in> procs" "prstate (proctab s2 pid) = PR_FREE" "1 \<le> priority" using m by auto
      let ?s3 = "s2\<lparr>prcount := i32 (prcount s2 + 1)\<rparr>"
      let ?s4 = "upp pid (new_entry priority ?sa z name (currpid s)) ?s3"
      let ?h = "push_words ?sa (frame_words procaddr initret args) h1"
      let ?s6 = "upp pid (\<lambda>e. e\<lparr>prstkptr := ?sa - 4 * int (15 + (length args - 4))\<rparr>) (?s4\<lparr>hp := ?h\<rparr>)"
      have k3: "kinv ?s3" by (rule kinv_fields[OF k2]) simp_all
      have st: "stk_ok (hp ?s3) (new_entry priority ?sa z name (currpid s) e)" for e
        using z rz B(3-5) U(1-4) h1 m(3) by (simp add: stk_ok_def new_entry_def mod_add_eq) presburger
      have "kinv ?s4"
        by (rule kinv_new_entry[OF k3 pid(1)]) (use pid(2) prio st in \<open>simp_all add: new_entry_def\<close>)
      moreover have "heap_rep ?h ys"
      proof (rule heap_rep_push_words[OF h1(2)])
        have len: "4 * int (length (frame_words procaddr initret args)) \<le> roundmb z"
          using fits z(1,4) rz(3) by simp
        then show "region (?sa - 4 * (int (length (frame_words procaddr initret args)) - 1))
            (4 * int (length (frame_words procaddr initret args))) \<inter> bytes ys = {}"
        proof -
          let ?n = "int (length (frame_words procaddr initret args))"
          have "region (?sa - 4 * (?n - 1)) (4 * ?n) \<subseteq> region b (roundmb z)" using len by (auto simp: region_def)
          then show ?thesis using B(2) by blast
        qed
        show "minheap h1 \<le> ?sa - 4 * (int (length (frame_words procaddr initret args)) - 1)"
          using len B(4) h1(3) by simp
      qed
      note reph = this
      ultimately have "kinv (?s4\<lparr>hp := ?h\<rparr>)"
        by (intro kinv_hp) (use m(3) in \<open>auto simp: heap_ok_def\<close>)
      then have "kinv ?s6" by (rule kinv_upp) simp_all
      moreover have "?c = Return pid ?s6" using h1(1) sa n False m(3) unfolding c0 Let_def by simp
      ultimately show ?thesis using that(3)[of pid ?s6 b ys] pid m(3) Some r reph by simp
    qed
  qed
qed

lemma kinv_create:
  assumes "kinv s" "- 32768 \<le> priority" "priority < 32768" "0 \<le> ssize" "ssize < 4294967280"
    "4 * (16 + (int (length args) - 4)) \<le> max ssize 400"
  shows "kcall (create initret procaddr ssize priority name args) s"
proof -
  obtain xs where "heap_rep (hp s) xs" using kinv_heap[OF assms(1)] by (auto simp: heap_ok_def)
  from create_eq[OF assms this, of initret procaddr name] show ?thesis
    by (rule; use assms(1) in \<open>simp add: kcall_def\<close>)
qed

section \<open>Killing\<close>

text \<open>Closing the descriptors of a process keeps the invariant when every close of a driver does.\<close>

definition closes_ok :: "drivers \<Rightarrow> bool" where
  "closes_ok drv \<longleftrightarrow> (\<forall>name dev s. kinv s \<longrightarrow> kcall (drv name dev []) s)"

lemma kinv_dev_close: "closes_ok drv \<Longrightarrow> kinv s \<Longrightarrow> kcall (dev_close drv d) s"
  by (auto simp: dev_close_def devcall_def closes_ok_def kcall_def ionull_def ioerr_def split: devfn.split)

lemma kcall_bind:
  assumes "kcall f s" "\<And>a s'. kinv s' \<Longrightarrow> currpid s' = currpid s \<Longrightarrow> kok (currpid s) Q (g a s')"
  shows "kok (currpid s) Q (bindk (f s) g)"
  unfolding kok_bindk by (rule kok_mono[OF assms(1)[unfolded kcall_def]]) (use assms(2) in auto)

lemma kinv_close_desc:
  assumes "closes_ok drv" "kinv s"
  shows "kcall (close_desc drv n i pid) s"
  using assms(2)
proof (induction n arbitrary: i s)
  case (Suc n)
  show ?case
    unfolding kcall_def close_desc.simps
    by (rule kcall_bind[OF kinv_dev_close[OF assms(1) Suc.prems]]) (metis Suc.IH kcall_def)
qed (simp add: kcall_def)

lemma kinv_kill_free:
  assumes inv: "kinv s" and pid: "pid \<in> procs"
  shows "\<exists>r h. kill_free pid s = Some (r, s\<lparr>hp := h\<rparr>) \<and> kinv (s\<lparr>hp := h\<rparr>)"
proof -
  obtain xs where rep: "heap_rep (hp s) xs" using kinv_heap[OF inv] by (auto simp: heap_ok_def)
  have st: "stk_ok (hp s) (proctab s pid)" using inv pid by (elim kinvE) (simp add: kranges_def)
  let ?p = "prstkbase (proctab s pid)" and ?l = "prstklen (proctab s pid)"
  note U = heap_rep_u32[OF rep]
  have "\<exists>r h. heap_freestk ?p ?l (hp s) = Some (r, h) \<and> heap_ok h \<and> maxheap h = maxheap (hp s)"
  proof (cases "?l = 0")
    case True
    then have "heap_freestk ?p ?l (hp s) = Some (SYSERR, hp s)"
      by (simp add: heap_freestk_def heap_freemem_def roundmb_def Let_def)
    then show ?thesis using rep by (auto simp: heap_ok_def)
  next
    case False
    then have l: "0 < ?l" "?l < 4294967272" "(?p + 4) mod 8 = 0" "roundmb ?l \<le> ?p + 4" "?p + 4 \<le> maxheap (hp s)"
      using st by (simp_all add: stk_ok_def)
    have rn: "roundmb ?l mod 8 = 0" "?l \<le> roundmb ?l" "roundmb ?l < ?l + 8" using roundmb_nat[of ?l] l by simp_all
    let ?n = "roundmb ?l" and ?b = "?p + 4 - roundmb ?l"
    have n: "0 < ?n" "?n < 4294967288" using rn l by simp_all
    have b: "?b mod 8 = 0" using l(3) rn(1) by presburger
    have rr: "roundmb ?n = ?n" using n rn(1) by simp
    have ub: "u32 (?p - ?n + 4) = ?b" using l U(4) n(1) by simp
    have "heap_freestk ?p ?l (hp s) = heap_freemem ?b ?n (hp s)"
      unfolding heap_freestk_def ub ..
    moreover have "?b + roundmb ?n \<le> maxheap (hp s)" using rr l(5) by simp
    ultimately show ?thesis
      using heap_freemem_eq[OF rep n b] rep
      by (fastforce simp: heap_ok_def split: if_splits option.splits)
  qed
  then obtain r h where "heap_freestk ?p ?l (hp s) = Some (r, h)" "heap_ok h" "maxheap h = maxheap (hp s)"
    by blast
  then show ?thesis
    using kinv_hp[OF inv, of h] by (intro exI[of _ r] exI[of _ h]) (simp add: kill_free_def)
qed

lemma kpre_free:
  assumes kb: "kbase {pid} L s" and sems: "ksems L s" and cur: "kcur s" and rg: "kranges s"
    and pid: "pid \<in> procs" "pid \<noteq> 0"
  shows "kpre L (set_prstate pid PR_FREE s)"
proof -
  have "kbase ({pid} \<union> {pid}) L (set_prstate pid PR_FREE s)"
    by (rule kbase_set_prstate[OF kb pid(1)]) (use pid(2) in simp_all)
  then have "kbase {} L (set_prstate pid PR_FREE s)" by (rule kbase_arrive) (simp_all add: where_q_def)
  moreover have "kcur (set_prstate pid PR_FREE s)" using cur unfolding kcur_def by simp
  moreover have "kranges (set_prstate pid PR_FREE s)" using rg by (simp add: kranges_def)
  ultimately show ?thesis
    using sems ksems_fields[of "set_prstate pid PR_FREE s" s] by (simp add: kpre_def)
qed

lemma kinv_kill_switch:
  assumes inv: "kinv s" and pid: "pid \<in> procs" "pid \<noteq> 0"
  shows "kcall (kill_switch pid) s"
proof -
  from inv obtain L where k: "kbase {} L s" "ksems L s" "kcur s" "kranges s"
    "prstate (proctab s (currpid s)) = PR_CURR" "ndefers s = 0" and LL: "L = qcontents s" by (elim kinvE)
  let ?f = "set_prstate pid PR_FREE"
  have fin: "kinv (?f s')" if "kbase {pid} L' s'" "ksems L' s'" "currpid s' = currpid s" "ndefers s' = 0"
    "proctab s' = proctab s" "nextsem s' = nextsem s" "nextpid s' = nextpid s" "hp s' = hp s" "pid \<noteq> currpid s" for L' s'
  proof -
    have "kcur s'" "kranges s'" using k(3,4) that by (simp_all add: kcur_def kranges_def)
    from kpre_free[OF that(1,2) this pid] show ?thesis using that k(5) by (intro kinvI) simp_all
  qed
  have sleep: "kcall (kill_sleep pid) s"
    if st: "prstate (proctab s pid) = PR_SLEEP \<or> prstate (proctab s pid) = PR_RECTIM"
  proof -
    have p: "\<not> isbadpid s pid" using st pid by (auto simp: isbadpid_iff)
    obtain us vs where L: "L 302 = us @ pid # vs" by (rule sleeping_where[OF k(1) p st])
    obtain Q' where Q': "unsleep pid s = Some (OK, s\<lparr>queuetab := Q'\<rparr>)"
      "kbase {pid} (L(302 := us @ vs)) (s\<lparr>queuetab := Q'\<rparr>)" using unsleep_eq[OF k(1) p st L] by metis
    have "ksems (L(302 := us @ vs)) (s\<lparr>queuetab := Q'\<rparr>)"
      by (rule ksems_302[OF kbaseD(1)[OF k(1)] _ k(2)]) simp
    then have "kinv (?f (s\<lparr>queuetab := Q'\<rparr>))" using st k(5,6) by (intro fin[OF Q'(2)]) auto
    then show ?thesis using Q'(1) by (simp add: kcall_def kill_sleep_def)
  qed
  have off: "kinv (?f s)" if w: "where_q s pid = None" and nc: "prstate (proctab s pid) \<noteq> PR_CURR"
  proof -
    have "pid \<noteq> currpid s" using nc k(5) by auto
    moreover have "kbase {pid} L s" unfolding LL by (rule ready_chain_Q[OF inv w pid(1)])
    ultimately show ?thesis using fin[of L s] k(2,6) by simp
  qed
  have unlink: "\<exists>Q' L'. getitem pid s' = Some (pid, s'\<lparr>queuetab := Q'\<rparr>) \<and> kbase {pid} L' (s'\<lparr>queuetab := Q'\<rparr>) \<and>
      (\<exists>us vs. L q = us @ pid # vs \<and> L' = L(q := us @ vs))"
    if un: "kbase {} L s'" "q \<in> qids" "where_q s' pid = Some q" for s' q
  proof -
    have "pid \<in> set (L q)" using kbaseD(3)[OF un(1) pid(1) un(2)] un(3) by simp
    then obtain us vs where sp: "L q = us @ pid # vs" by (meson split_list)
    obtain Q' where Q': "getitem pid s' = Some (pid, s'\<lparr>queuetab := Q'\<rparr>)" "wfqs Q' (L(q := us @ vs))"
      "\<And>i. qkey (Q' i) = qkey (queuetab s' i)"
      using getitem_spec[OF kbaseD(2)[OF un(1)] un(2) sp] by auto
    from kbase_remove[OF un(1,2) sp Q'(2,3)] Q'(1) sp show ?thesis by auto
  qed
  show ?thesis
  proof (cases "prstate (proctab s pid)")
    case PR_CURR
    then have c: "pid = currpid s" using k(3) pid by (simp add: kcur_def)
    have "kbase ({} \<union> {pid}) L (?f s)"
      by (rule kbase_set_prstate[OF k(1) pid(1)]) (use PR_CURR pid(2) in \<open>simp_all add: where_q_def\<close>)
    then have kb: "kbase {} L (?f s)" by (rule kbase_arrive) (simp_all add: where_q_def)
    have nc: "prstate (proctab (?f s) p) \<noteq> PR_CURR" if "p \<in> procs" for p
      using k(3) c that by (auto simp: kcur_def)
    have sr: "ksems L (?f s)" "kranges (?f s)" "ndefers (?f s) = 0"
      using k(2,4,6) by (simp_all add: ksems_fields[of "?f s" s] kranges_def)
    obtain n rest Q' k' where r: "L 300 = n # rest" "resched_force (?f s) = Switch (switched n Q' (?f s)) k'"
      "kinv (switched n Q' (?f s))"
      using resched_force_eq[OF kb sr nc] by metis
    have "pid \<notin> set (L 300)" using kbaseD(3)[OF kb pid(1) qids_300(1)] by (simp add: where_q_def)
    then have dead: "\<not> alive pid (switched n Q' (?f s))" using r(1) by auto
    have rf: "resched (?f s) = resched_force (?f s)" using k(6) c by (simp add: resched_def Let_def)
    have ks: "kill_switch pid s = bindk (resched (?f s)) (\<lambda>_ s. kill_sleep pid s)"
      using PR_CURR by (simp add: kill_switch_def)
    show ?thesis
      unfolding kcall_def ks rf r(2) c[symmetric] bindk.simps kok_Switch using dead r(3) by blast
  next
    case PR_READY
    have "where_q s pid = Some 300" using PR_READY qlayoutD(1)[OF kbaseD(1)[OF k(1)]] by (simp add: where_q_def)
    from unlink[OF k(1) qids_300(1) this] obtain Q' us vs where u: "getitem pid s = Some (pid, s\<lparr>queuetab := Q'\<rparr>)"
      "kbase {pid} (L(300 := us @ vs)) (s\<lparr>queuetab := Q'\<rparr>)" by blast
    have "ksems (L(300 := us @ vs)) (s\<lparr>queuetab := Q'\<rparr>)"
      using k(2) ksems_other(1)[OF kbaseD(1)[OF k(1)]] ksems_fields[of "s\<lparr>queuetab := Q'\<rparr>" s] by simp
    then have "kinv (?f (s\<lparr>queuetab := Q'\<rparr>))" using PR_READY k(5,6) by (intro fin[OF u(2)]) auto
    then show ?thesis using u(1) PR_READY by (simp add: kcall_def kill_switch_def kill_ready_def)
  next
    case PR_WAIT
    let ?i = "prsem (proctab s pid)"
    let ?q = "squeue (semtab s ?i)"
    let ?s1 = "upsem ?i (\<lambda>e. e\<lparr>scount := i32 (scount e + 1)\<rparr>) s"
    have i: "\<not> isbadsem ?i" by (rule kbaseD(4)[OF k(1) pid(1) PR_WAIT])
    note q = sem_queue[OF k(1) i]
    have wq: "where_q s pid = Some ?q" using PR_WAIT by (simp add: where_q_def)
    have kb1: "kbase {} L ?s1" using k(1) by (simp add: kbase_upsem)
    have "where_q ?s1 pid = Some ?q" using PR_WAIT by (simp add: where_q_def)
    from unlink[OF kb1 q(1) this] obtain Q' us vs where u: "getitem pid ?s1 = Some (pid, ?s1\<lparr>queuetab := Q'\<rparr>)"
      "kbase {pid} (L(?q := us @ vs)) (?s1\<lparr>queuetab := Q'\<rparr>)" "L ?q = us @ pid # vs" by blast
    have nf: "sstate (semtab s ?i) \<noteq> S_FREE"
      using k(2)[unfolded ksems_def, rule_format, OF i] u(3) by (auto simp: ksem_at_def)
    note len = ksemsD[OF k(2) i nf] sem_queue_length[OF k(1) i]
    have "ksem_at (L(?q := us @ vs)) (?s1\<lparr>queuetab := Q'\<rparr>) ?i"
      using len u(3) nf by (auto simp: ksem_at_def split: semstate.splits)
    then have "ksems (L(?q := us @ vs)) (?s1\<lparr>queuetab := Q'\<rparr>)"
      by (intro ksems_change[OF k(2) kbaseD(1)[OF k(1)] i]) simp_all
    then have "kinv (?f (?s1\<lparr>queuetab := Q'\<rparr>))" using PR_WAIT k(5,6) by (intro fin[OF u(2)]) auto
    then show ?thesis using u(1) PR_WAIT by (simp add: kcall_def kill_switch_def kill_ready_def)
  qed (use sleep off in \<open>auto simp: kcall_def kill_switch_def where_q_def\<close>)
qed

lemma kinv_kill:
  assumes inv: "kinv s" and drv: "closes_ok drv" and last: "3 \<le> prcount s" "prcount s < 2147483648"
  shows "kcall (kill drv pid) s"
proof (cases "isbadpid s pid \<or> pid = NULLPROC")
  case True
  then show ?thesis using inv by (auto simp: kcall_def kill_def)
next
  case False
  then have pid: "pid \<in> procs" "pid \<noteq> 0" "\<not> isbadpid s pid" "prstate (proctab s pid) \<noteq> PR_FREE"
    by (auto simp: isbadpid_iff)
  let ?s = "s\<lparr>prcount := prcount s - 1\<rparr>"
  have inv': "kinv ?s" by (rule kinv_fields[OF inv]) simp_all
  have e: "kill drv pid s = bindk (send (prparent (proctab s pid)) (u32 pid) ?s) (\<lambda>_ s.
            bindk (close_desc drv 3 0 pid s) (\<lambda>_ s.
            bindk (liftk (kill_free pid s)) (\<lambda>_ s.
            bindk (kill_switch pid s) (\<lambda>_ s. Return OK s))))"
    using False pid last by (simp add: kill_def Let_def)
  let ?Q = "\<lambda>(_::int) s'. kinv s' \<and> currpid s' = currpid s"
  have last_part: "kok (currpid s) ?Q (bindk (liftk (kill_free pid s')) (\<lambda>_ s.
      bindk (kill_switch pid s) (\<lambda>_ s. Return OK s)))" if s': "kinv s'" "currpid s' = currpid s" for s'
  proof -
    obtain r h where kf: "kill_free pid s' = Some (r, s'\<lparr>hp := h\<rparr>)" "kinv (s'\<lparr>hp := h\<rparr>)"
      using kinv_kill_free[OF s'(1) pid(1)] by blast
    have "kok (currpid s) (\<lambda>_ s'. kinv s' \<and> currpid s' = currpid s) (kill_switch pid (s'\<lparr>hp := h\<rparr>))"
      using kinv_kill_switch[OF kf(2) pid(1,2)] s'(2) by (simp add: kcall_def)
    then show ?thesis by (simp add: kf(1))
  qed
  have close_part: "kok (currpid s) ?Q (bindk (close_desc drv 3 0 pid s') (\<lambda>_ s.
      bindk (liftk (kill_free pid s)) (\<lambda>_ s. bindk (kill_switch pid s) (\<lambda>_ s. Return OK s))))"
    if s': "kinv s'" "currpid s' = currpid s" for s'
    by (rule kcall_bind[OF kinv_close_desc[OF drv s'(1)], unfolded s'(2)]) (rule last_part)
  have "kok (currpid ?s) ?Q (kill drv pid s)"
    unfolding e by (rule kcall_bind[OF kinv_send[OF inv']]) (use close_part in simp)
  then show ?thesis by (simp add: kcall_def)
qed

lemma kinv_exit:
  "kinv s \<Longrightarrow> closes_ok drv \<Longrightarrow> 3 \<le> prcount s \<Longrightarrow> prcount s < 2147483648 \<Longrightarrow> kcall (exit drv) s"
  using kinv_kill[of s drv "currpid s"] by (simp add: kcall_def exit_def getpid_def)

lemma kinv_userret:
  "kinv s \<Longrightarrow> closes_ok drv \<Longrightarrow> 3 \<le> prcount s \<Longrightarrow> prcount s < 2147483648 \<Longrightarrow> kcall (userret drv) s"
  using kinv_kill[of s drv "currpid s"] by (simp add: kcall_def userret_def getpid_def)

section \<open>Properties\<close>

lemma last_fit_ex: "(a, l) \<in> set xs \<Longrightarrow> n \<le> l \<Longrightarrow> last_fit n xs \<noteq> None"
  using last_fit_None[of n xs] by fastforce

text \<open>C23: When a free block is large enough, a process table entry is free and the priority is
  positive, \<^verbatim>\<open>create\<close> succeeds: the new process was not in use, is suspended with the given
  priority, the name cut to \<^verbatim>\<open>PNMLEN - 1\<close> characters and the caller as parent; its stack is an aligned
  block of formerly free bytes, and nothing else in the process table or on a queue changes.\<close>

theorem create_correct:
  assumes inv: "kinv s" and prio: "1 \<le> priority" "priority < 32768"
    and ss: "0 \<le> ssize" "ssize < 4294967280" "4 * (16 + (int (length args) - 4)) \<le> max ssize 400"
    and rep: "heap_rep (hp s) xs" and big: "(a, l) \<in> set xs" "roundmb (roundew (if ssize < MINSTK then MINSTK else ssize)) \<le> l"
    and free: "p \<in> procs" "prstate (proctab s p) = PR_FREE"
  shows "\<exists>pid s' ys. create initret procaddr ssize priority name args s = Return pid s' \<and> kinv s' \<and>
    prstate (proctab s pid) = PR_FREE \<and> prstate (proctab s' pid) = PR_SUSP \<and>
    prprio (proctab s' pid) = priority \<and> prname (proctab s' pid) = take 15 name \<and>
    prparent (proctab s' pid) = currpid s \<and> (\<forall>q. q \<noteq> pid \<longrightarrow> proctab s' q = proctab s q) \<and>
    queuetab s' = queuetab s \<and> currpid s' = currpid s \<and> heap_rep (hp s') ys \<and>
    (\<exists>b n. prstkbase (proctab s' pid) = b + n - 4 \<and> max ssize 400 \<le> n \<and> b mod 8 = 0 \<and> n mod 8 = 0 \<and>
       region b n \<union> bytes ys = bytes xs \<and> region b n \<inter> bytes ys = {})"
proof -
  let ?z = "roundew (if ssize < MINSTK then MINSTK else ssize)"
  have z: "400 \<le> ?z" "ssize \<le> ?z" "?z < 4294967284" using roundew_spec[of ssize] roundew_spec[of 400] ss by auto
  then have rz: "0 < roundmb ?z" "roundmb ?z mod 8 = 0" "?z \<le> roundmb ?z" using roundmb_nat[of ?z] by auto
  have ap: "apart (minheap (hp s)) xs (maxheap (hp s))" using rep by (simp add: heap_rep_def)
  have p': "- 32768 \<le> priority" using prio by simp
  show ?thesis
  proof (rule create_eq[OF inv p' prio(2) ss rep, of initret procaddr name], goal_cases)
    case 1
    then show ?thesis using last_fit_ex[OF big] by simp
  next
    case (2 b ys s')
    then show ?thesis using free prio(1) by auto
  next
    case (3 b ys pid s')
    note B = last_fit_bytes[OF ap 3(13) rz(1,2)]
    have "max ssize 400 \<le> roundmb ?z" using z rz(3) by simp
    then show ?thesis using 3(1-8,14) B rz(2)
      by (intro exI[of _ pid] exI[of _ s'] exI[of _ ys] conjI exI[of _ b] exI[of _ "roundmb ?z"])
        (simp_all add: new_entry_def)
  qed
qed

text \<open>When the stack could be allocated but the priority is below 1 or the process table is
  full, \<^verbatim>\<open>create\<close> returns \<^verbatim>\<open>SYSERR\<close> without giving the stack back: the free storage has shrunk, although
  no process has been made.\<close>

theorem create_leaks_stack:
  assumes inv: "kinv s" and prio: "- 32768 \<le> priority" "priority < 32768"
    and ss: "0 \<le> ssize" "ssize < 4294967280" "4 * (16 + (int (length args) - 4)) \<le> max ssize 400"
    and rep: "heap_rep (hp s) xs" and big: "(a, l) \<in> set xs" "roundmb (roundew (if ssize < MINSTK then MINSTK else ssize)) \<le> l"
    and bad: "priority < 1 \<or> (\<forall>p\<in>procs. prstate (proctab s p) \<noteq> PR_FREE)"
  shows "\<exists>s' ys. create initret procaddr ssize priority name args s = Return SYSERR s' \<and>
    proctab s' = proctab s \<and> heap_rep (hp s') ys \<and> bytes ys \<subset> bytes xs"
proof -
  let ?z = "roundew (if ssize < MINSTK then MINSTK else ssize)"
  have z: "400 \<le> ?z" "?z < 4294967284" using roundew_spec[of ssize] roundew_spec[of 400] ss by auto
  then have rz: "0 < roundmb ?z" "roundmb ?z mod 8 = 0" using roundmb_nat[of ?z] by auto
  have ap: "apart (minheap (hp s)) xs (maxheap (hp s))" using rep by (simp add: heap_rep_def)
  show ?thesis
  proof (rule create_eq[OF inv prio ss rep, of initret procaddr name], goal_cases)
    case 1
    then show ?thesis using last_fit_ex[OF big] by simp
  next
    case (2 b ys s')
    note B = last_fit_bytes[OF ap 2(6) rz]
    have "b \<in> region b (roundmb ?z)" using rz(1) by (simp add: region_def)
    then have "bytes ys \<subset> bytes xs" using B(1,2) by blast
    then show ?thesis using 2(1,4,7) by blast
  next
    case (3 b ys pid s')
    then show ?thesis using bad by auto
  qed
qed

end
