(* ===== verification/Boot.thy ===== *)
theory Boot
  imports Process Messages
begin

text \<open>
  The start of the system: the static contents of the kernel's variables (the C rules for
  objects with static storage, and the initialisers in \<^verbatim>\<open>newqueue.c\<close>, \<^verbatim>\<open>create.c\<close>, \<^verbatim>\<open>semcreate.c\<close>,
  \<^verbatim>\<open>clkhandler.c\<close>), then \<^verbatim>\<open>sysinit\<close> with \<^verbatim>\<open>meminit\<close>, \<^verbatim>\<open>bufinit\<close> and the kernel part of \<^verbatim>\<open>clkinit\<close>.
  The writes to device registers and the console messages are left out. The address of
  \<^verbatim>\<open>memlist\<close> and of the end of the program image, which the linker chooses, are arguments.
\<close>

section \<open>The code\<close>

definition NULLSTK :: int where [simp]: "NULLSTK = 8192"
definition MAXADDR :: int where [simp]: "MAXADDR = 0xA0000000"

definition zero_proc :: procent where
  "zero_proc = \<lparr>prstate = PR_FREE, prprio = 0, prstkptr = 0, prstkbase = 0, prstklen = 0, prname = '''',
     prsem = 0, prparent = 0, prmsg = 0, prhasmsg = False, prdesc = replicate 5 0\<rparr>"

text \<open>
  The zero that C gives \<^verbatim>\<open>ptstate\<close> is none of the three states of a port; it is written as \<open>PT_FREE\<close> here,
  which \<^verbatim>\<open>ptinit\<close> stores in every entry before any other function of the ports reads one.
\<close>

definition static_state :: "int \<Rightarrow> kstate" where
  "static_state memlist_addr =
    \<lparr>queuetab = (\<lambda>_. \<lparr>qkey = 0, qnext = 0, qprev = 0\<rparr>), nextqid = NPROC,
     proctab = (\<lambda>_. zero_proc), prcount = 0, currpid = 0, nextpid = 1, readylist = 0,
     ndefers = 0, attempt = False, preempt = 0,
     semtab = (\<lambda>_. \<lparr>sstate = S_FREE, scount = 0, squeue = 0\<rparr>), nextsem = 0,
     sleepq = 0, clktime = 0, count1000 = 1000,
     hp = \<lparr>mem = (\<lambda>_. 0), memlist_at = memlist_addr, minheap = 0, maxheap = 0\<rparr>,
     buftab = (\<lambda>_. \<lparr>bpnext = 0, bpsem = 0, bpsize = 0\<rparr>), nbpools = 0,
     ptfree = 0,
     porttab = (\<lambda>_. \<lparr>ptssem = 0, ptrsem = 0, ptstate = PT_FREE, ptmaxcnt = 0, ptseq = 0, pthead = 0, pttail = 0\<rparr>),
     ptnextid = 0, marks = (\<lambda>_. 0), nmarks = 0, mkmutex = 0\<rparr>"

definition meminit :: "int \<Rightarrow> kstate \<Rightarrow> kstate" where
  "meminit end_addr s = s\<lparr>hp := heap_meminit end_addr MAXADDR (hp s)\<rparr>"

definition bufinit :: "kstate \<Rightarrow> kstate" where
  "bufinit s = s\<lparr>nbpools := 0\<rparr>"

definition clkinit :: "kstate \<Rightarrow> kstate option" where
  "clkinit s = (case newqueue s of None \<Rightarrow> None
     | Some (q, s) \<Rightarrow> Some (s\<lparr>sleepq := q, preempt := QUANTUM, clktime := 0\<rparr>))"

text \<open>The two loops of \<^verbatim>\<open>sysinit\<close>, from index \<open>i\<close> on with \<open>n\<close> rounds to go.\<close>

primrec proctab_loop :: "nat \<Rightarrow> int \<Rightarrow> kstate \<Rightarrow> kstate" where
  "proctab_loop 0 i s = s"
| "proctab_loop (Suc n) i s = proctab_loop n (i + 1)
     (upp i (\<lambda>e. e\<lparr>prstate := PR_FREE, prname := '''', prstkbase := NULL, prprio := 0\<rparr>) s)"

primrec semtab_loop :: "nat \<Rightarrow> int \<Rightarrow> kstate \<Rightarrow> kstate option" where
  "semtab_loop 0 i s = Some s"
| "semtab_loop (Suc n) i s =
    (case newqueue (upsem i (\<lambda>e. e\<lparr>sstate := S_FREE, scount := 0\<rparr>) s) of None \<Rightarrow> None
     | Some (q, s) \<Rightarrow> semtab_loop n (i + 1) (upsem i (\<lambda>e. e\<lparr>squeue := q\<rparr>) s))"

text \<open>The entry of the null process; \<open>\<^verbatim>\<open>strncpy(prptr->prname, "prnull", 7)\<close>\<close>.\<close>

definition null_entry :: "int \<Rightarrow> procent \<Rightarrow> procent" where
  "null_entry stk e = e\<lparr>prstate := PR_CURR, prprio := 0, prname := ''prnull'', prstkbase := stk,
     prstklen := NULLSTK, prstkptr := 0\<rparr>"

text \<open>\<^verbatim>\<open>sysinit\<close> up to the loop that initialises the devices, and that loop.\<close>

definition sysinit_core :: "int \<Rightarrow> kstate \<Rightarrow> kstate option" where
  "sysinit_core end_addr s =
    (let s = meminit end_addr s;
         s = s\<lparr>prcount := 1, ndefers := 0\<rparr>;
         s = proctab_loop (nat NPROC) 0 s
     in case heap_getstk NULLSTK (hp s) of None \<Rightarrow> None
        | Some (stk, h) \<Rightarrow>
          let s = upp NULLPROC (null_entry stk) (s\<lparr>hp := h\<rparr>);
              s = s\<lparr>currpid := NULLPROC\<rparr>
          in case semtab_loop (nat NSEM) 0 s of None \<Rightarrow> None
             | Some s \<Rightarrow>
               (case newqueue (bufinit s) of None \<Rightarrow> None
                | Some (q, s) \<Rightarrow> clkinit (s\<lparr>readylist := q\<rparr>)))"

primrec init_loop :: "drivers \<Rightarrow> nat \<Rightarrow> int \<Rightarrow> kstate \<Rightarrow> (kstate, unit) step" where
  "init_loop drv 0 i s = Return () s"
| "init_loop drv (Suc n) i s = bindk (dev_init drv i s) (\<lambda>_ s. init_loop drv n (i + 1) s)"

definition sysinit :: "drivers \<Rightarrow> int \<Rightarrow> kstate \<Rightarrow> (kstate, unit) step" where
  "sysinit drv end_addr s =
     bindk (liftk (map_option (\<lambda>s. ((), s)) (sysinit_core end_addr s))) (\<lambda>_ s.
       init_loop drv (nat NDEVS) 0 s)"

section \<open>What the loops leave\<close>

lemma proctab_loop_eq:
  "\<exists>P. proctab_loop n i s = s\<lparr>proctab := P\<rparr> \<and>
    (\<forall>j. if i \<le> j \<and> j < i + int n
       then P j = (proctab s j)\<lparr>prstate := PR_FREE, prname := '''', prstkbase := NULL, prprio := 0\<rparr>
       else P j = proctab s j)"
proof (induction n arbitrary: i s)
  case 0
  show ?case by (intro exI[of _ "proctab s"]) auto
next
  case (Suc n)
  let ?f = "\<lambda>e. e\<lparr>prstate := PR_FREE, prname := '''', prstkbase := NULL, prprio := 0\<rparr>"
  obtain P where P: "proctab_loop n (i + 1) (upp i ?f s) = (upp i ?f s)\<lparr>proctab := P\<rparr>"
      "\<forall>j. if i + 1 \<le> j \<and> j < i + 1 + int n then P j = ?f (proctab (upp i ?f s) j)
        else P j = proctab (upp i ?f s) j"
    using Suc[of "i + 1" "upp i ?f s"] by blast
  have key: "P j = (if i \<le> j \<and> j < i + int (Suc n) then ?f (proctab s j) else proctab s j)" for j
    using P(2)[rule_format, of j] by (cases "j = i") (auto simp: upp_def split: if_splits)
  have "if i \<le> j \<and> j < i + int (Suc n) then P j = ?f (proctab s j) else P j = proctab s j" for j
    unfolding key by simp
  moreover have "proctab_loop (Suc n) i s = s\<lparr>proctab := P\<rparr>" using P(1) by (simp add: upp_def)
  ultimately show ?case by blast
qed

text \<open>After \<open>k\<close> calls of \<^verbatim>\<open>newqueue\<close> the first \<open>k\<close> queues are there, and empty.\<close>

definition fresh_queues :: "int \<Rightarrow> kstate \<Rightarrow> bool" where
  "fresh_queues k s \<longleftrightarrow> nextqid s = 100 + 2 * k \<and> (\<forall>j. 0 \<le> j \<and> j < k \<longrightarrow> wfq (queuetab s) (100 + 2 * j) [])"

lemma newqueue_fresh:
  assumes "fresh_queues k s" "0 \<le> k" "k < 102"
  shows "\<exists>Q'. newqueue s = Some (100 + 2 * k, s\<lparr>queuetab := Q', nextqid := 100 + 2 * k + 2\<rparr>) \<and>
    fresh_queues (k + 1) (s\<lparr>queuetab := Q', nextqid := 100 + 2 * k + 2\<rparr>)"
proof -
  have n: "nextqid s = 100 + 2 * k" using assms(1) by (simp add: fresh_queues_def)
  obtain Q' where Q': "newqueue s = Some (nextqid s, s\<lparr>queuetab := Q', nextqid := nextqid s + 2\<rparr>)"
      "wfq Q' (nextqid s) []" "relinked {nextqid s, nextqid s + 1} (queuetab s) Q'"
    using newqueue_spec[of s] n assms(2,3) by auto
  have "wfq Q' (100 + 2 * j) []" if j: "0 \<le> j" "j < k + 1" for j
  proof (cases "j = k")
    case True
    then show ?thesis using Q'(2) n by simp
  next
    case False
    then have "wfq (queuetab s) (100 + 2 * j) []" using assms(1) j by (simp add: fresh_queues_def)
    moreover have "Q' (100 + 2 * j) = queuetab s (100 + 2 * j)" "Q' (101 + 2 * j) = queuetab s (101 + 2 * j)"
      using Q'(3) n False j by (auto simp: relinked_def)
    ultimately show ?thesis by (simp add: wfq_def)
  qed
  then show ?thesis using Q'(1) n by (intro exI[of _ Q']) (simp add: fresh_queues_def)
qed

lemma fresh_queues_fields:
  "queuetab s' = queuetab s \<Longrightarrow> nextqid s' = nextqid s \<Longrightarrow> fresh_queues k s' = fresh_queues k s"
  by (simp add: fresh_queues_def)

lemma upsem_queue_fields [simp]:
  "queuetab (upsem i f s) = queuetab s" "nextqid (upsem i f s) = nextqid s"
  "semtab (upsem i f s) = (semtab s)(i := f (semtab s i))"
  by (simp_all add: upsem_def)

definition fresh_sems :: "int \<Rightarrow> kstate \<Rightarrow> bool" where
  "fresh_sems k s \<longleftrightarrow> (\<forall>j. 0 \<le> j \<and> j < k \<longrightarrow>
     sstate (semtab s j) = S_FREE \<and> scount (semtab s j) = 0 \<and> squeue (semtab s j) = 100 + 2 * j)"

lemma semtab_loop_eq:
  assumes "fresh_queues k s" "fresh_sems k s" "0 \<le> k" "k + int n \<le> 102"
  shows "\<exists>Q' S'. semtab_loop n k s = Some (s\<lparr>queuetab := Q', nextqid := 100 + 2 * (k + int n), semtab := S'\<rparr>) \<and>
    fresh_queues (k + int n) (s\<lparr>queuetab := Q', nextqid := 100 + 2 * (k + int n), semtab := S'\<rparr>) \<and>
    fresh_sems (k + int n) (s\<lparr>semtab := S'\<rparr>)"
  using assms
proof (induction n arbitrary: k s)
  case 0
  then show ?case by (intro exI[of _ "queuetab s"] exI[of _ "semtab s"]) (simp add: fresh_queues_def)
next
  case (Suc n)
  let ?s1 = "upsem k (\<lambda>e. e\<lparr>sstate := S_FREE, scount := 0\<rparr>) s"
  have "fresh_queues k ?s1" using Suc.prems(1) by (simp add: fresh_queues_def)
  then obtain Q' where Q': "newqueue ?s1 = Some (100 + 2 * k, ?s1\<lparr>queuetab := Q', nextqid := 100 + 2 * k + 2\<rparr>)"
      "fresh_queues (k + 1) (?s1\<lparr>queuetab := Q', nextqid := 100 + 2 * k + 2\<rparr>)"
    using newqueue_fresh[of k ?s1] Suc.prems by auto
  let ?s2 = "upsem k (\<lambda>e. e\<lparr>squeue := 100 + 2 * k\<rparr>) (?s1\<lparr>queuetab := Q', nextqid := 100 + 2 * k + 2\<rparr>)"
  have "fresh_queues (k + 1) ?s2" using Q'(2) by (simp add: fresh_queues_def)
  moreover have "fresh_sems (k + 1) ?s2" using Suc.prems(2) by (auto simp: fresh_sems_def)
  ultimately obtain Q2 S2 where
    "semtab_loop n (k + 1) ?s2 = Some (?s2\<lparr>queuetab := Q2, nextqid := 100 + 2 * (k + 1 + int n), semtab := S2\<rparr>)"
    "fresh_queues (k + 1 + int n) (?s2\<lparr>queuetab := Q2, nextqid := 100 + 2 * (k + 1 + int n), semtab := S2\<rparr>)"
    "fresh_sems (k + 1 + int n) (?s2\<lparr>semtab := S2\<rparr>)"
    using Suc.IH[of "k + 1" ?s2] Suc.prems(3,4) by auto
  then show ?case using Q'(1)
    by (intro exI[of _ Q2] exI[of _ S2])
      (simp add: upsem_def fresh_queues_def fresh_sems_def add.assoc)
qed

section \<open>The first free list and the null process's stack\<close>

definition image_ok :: "int \<Rightarrow> int \<Rightarrow> bool" where
  "image_ok memlist_addr end_addr \<longleftrightarrow> 0 < memlist_addr \<and> memlist_addr mod 4 = 0 \<and> memlist_addr + 8 \<le> end_addr \<and>
     end_addr mod 8 = 0 \<and> end_addr + 8200 \<le> MAXADDR"

lemma heap_meminit_rep:
  assumes "image_ok (memlist_at h) e"
  shows "heap_rep (heap_meminit e MAXADDR h) [(e, MAXADDR - e)] \<and>
    memlist_at (heap_meminit e MAXADDR h) = memlist_at h \<and>
    minheap (heap_meminit e MAXADDR h) = e \<and> maxheap (heap_meminit e MAXADDR h) = MAXADDR"
proof -
  have "(MAXADDR - e) mod 8 = 0" using assms unfolding image_ok_def MAXADDR_def by presburger
  then show ?thesis using assms
    by (auto simp: heap_meminit_def image_ok_def heap_rep_def frame_ok_def total_def mnext_def mlength_def
        set_mnext_def set_mlength_def Let_def)
qed

lemma null_stack:
  assumes "heap_rep h [(e, 0xA0000000 - e)]" "e + 8200 \<le> 0xA0000000"
  shows "\<exists>h'. heap_getstk NULLSTK h = Some (0xA0000000 - 4, h') \<and> heap_rep h' [(e, 0xA0000000 - e - 8192)] \<and>
    memlist_at h' = memlist_at h \<and> minheap h' = minheap h \<and> maxheap h' = maxheap h"
  using heap_getstk_eq[OF assms(1), of 8192] assms(2) by (simp add: roundmb_def Let_def)

lemma fresh_wfq:
  assumes "fresh_queues 102 s" "q \<in> qids"
  shows "wfq (queuetab s) q []"
proof -
  obtain j where j: "q = 2 * j" using assms(2) unfolding in_qids by (elim conjE evenE)
  have "\<forall>j. 0 \<le> j \<and> j < 102 \<longrightarrow> wfq (queuetab s) (100 + 2 * j) []"
    using assms(1) by (simp add: fresh_queues_def)
  from this[rule_format, of "j - 50"] show ?thesis using assms(2) j by (simp add: in_qids)
qed

lemma fresh_kinv:
  assumes fq: "fresh_queues 102 s" and fs: "fresh_sems 100 s"
    and q: "readylist s = 300" "sleepq s = 302"
    and proc: "\<And>p. p \<in> procs \<Longrightarrow> p \<noteq> 0 \<Longrightarrow> proctab s p = zero_proc"
    and null: "prstate (proctab s 0) = PR_CURR" "prprio (proctab s 0) = 0" "stk_ok (hp s) (proctab s 0)"
    and rest: "currpid s = 0" "ndefers s = 0" "nextsem s = 0" "nextpid s = 1" "heap_ok (hp s)"
  shows "kinv s"
proof -
  have sem: "sstate (semtab s i) = S_FREE" "scount (semtab s i) = 0" "squeue (semtab s i) = 100 + 2 * i"
    if "\<not> isbadsem i" for i
    using fs that by (auto simp: fresh_sems_def isbadsem_def)
  have st: "prstate (proctab s p) = (if p = 0 then PR_CURR else PR_FREE)" "prprio (proctab s p) = 0"
     "stk_ok (hp s) (proctab s p)" if "p \<in> procs" for p
    using proc[OF that] null by (cases "p = 0"; simp add: zero_proc_def stk_ok_def)+
  have wq: "where_q s p = None" if "p \<in> procs" for p
    using st(1)[OF that] by (simp add: where_q_def)
  have "wfqs (queuetab s) (\<lambda>_. [])" using fresh_wfq[OF fq] by (simp add: wfqs_def)
  then have "kbase {} (\<lambda>_. []) s"
    using st wq sem unfolding kbase_def by (auto simp: qlayout_def q)
  moreover have "ksems (\<lambda>_. []) s" using sem by (simp add: ksems_def ksem_at_def)
  moreover have "kcur s" using st(1) by (auto simp: kcur_def rest)
  moreover have "kranges s" using st by (simp add: kranges_def rest)
  ultimately show ?thesis using null by (intro kinvI[of "\<lambda>_. []"]) (simp_all add: kpre_def rest)
qed

section \<open>The invariant holds at the start\<close>

lemma sysinit_core_eq:
  assumes "image_ok m e"
  obtains s where "sysinit_core e (static_state m) = Some s" "kinv s" "currpid s = 0"
    "qcontents s (readylist s) = []" "qcontents s (sleepq s) = []"
    "\<And>p. p \<in> procs \<Longrightarrow> p \<noteq> 0 \<Longrightarrow> prstate (proctab s p) = PR_FREE" "prstate (proctab s 0) = PR_CURR"
    "\<And>i. \<not> isbadsem i \<Longrightarrow> sstate (semtab s i) = S_FREE"
    "heap_rep (hp s) [(e, MAXADDR - e - NULLSTK)]" "prcount s = 1" "nextpid s = 1" "nextsem s = 0"
    "preempt s = QUANTUM" "count1000 s = 1000" "minheap (hp s) = e" "maxheap (hp s) = MAXADDR"
    "nbpools s = 0" "prprio (proctab s 0) = 0"
proof -
  let ?h0 = "heap_meminit e MAXADDR (hp (static_state m))"
  have H0: "heap_rep ?h0 [(e, 0xA0000000 - e)]" "minheap ?h0 = e" "maxheap ?h0 = 0xA0000000"
    using heap_meminit_rep[of "hp (static_state m)" e] assms by (simp_all add: static_state_def)
  obtain h' where H: "heap_getstk NULLSTK ?h0 = Some (0xA0000000 - 4, h')" "heap_rep h' [(e, 0xA0000000 - e - 8192)]"
      "minheap h' = e" "maxheap h' = 0xA0000000"
    using null_stack[OF H0(1)] assms H0(2,3) by (auto simp: image_ok_def)
  let ?s0 = "(meminit e (static_state m))\<lparr>prcount := 1, ndefers := 0\<rparr>"
  obtain P where P: "proctab_loop (nat NPROC) 0 ?s0 = ?s0\<lparr>proctab := P\<rparr>"
      "\<And>j. j \<in> procs \<Longrightarrow> P j = zero_proc"
    using proctab_loop_eq[of "nat NPROC" 0 ?s0] by (auto simp: meminit_def static_state_def zero_proc_def)
  let ?s1 = "(upp NULLPROC (null_entry (0xA0000000 - 4)) (?s0\<lparr>proctab := P, hp := h'\<rparr>))\<lparr>currpid := NULLPROC\<rparr>"
  have "fresh_queues 0 ?s1" "fresh_sems 0 ?s1"
    by (auto simp: fresh_queues_def fresh_sems_def meminit_def static_state_def upp_def)
  then obtain Q' S' where L: "semtab_loop (nat NSEM) 0 ?s1 = Some (?s1\<lparr>queuetab := Q', nextqid := 300, semtab := S'\<rparr>)"
      "fresh_queues 100 (?s1\<lparr>queuetab := Q', nextqid := 300, semtab := S'\<rparr>)"
      "fresh_sems 100 (?s1\<lparr>semtab := S'\<rparr>)"
    using semtab_loop_eq[of 0 ?s1 100] by auto
  let ?s2 = "bufinit (?s1\<lparr>queuetab := Q', nextqid := 300, semtab := S'\<rparr>)"
  have "fresh_queues 100 ?s2" using L(2) by (simp add: bufinit_def fresh_queues_def)
  then obtain Q1 where Q1: "newqueue ?s2 = Some (300, ?s2\<lparr>queuetab := Q1, nextqid := 302\<rparr>)"
      "fresh_queues 101 (?s2\<lparr>queuetab := Q1, nextqid := 302\<rparr>)"
    using newqueue_fresh[of 100 ?s2] by auto
  let ?s3 = "?s2\<lparr>queuetab := Q1, nextqid := 302, readylist := 300\<rparr>"
  have "fresh_queues 101 ?s3" using Q1(2) by (simp add: fresh_queues_def)
  then obtain Q2 where Q2: "newqueue ?s3 = Some (302, ?s3\<lparr>queuetab := Q2, nextqid := 304\<rparr>)"
      "fresh_queues 102 (?s3\<lparr>queuetab := Q2, nextqid := 304\<rparr>)"
    using newqueue_fresh[of 101 ?s3] by auto
  let ?s = "?s3\<lparr>queuetab := Q2, nextqid := 304, sleepq := 302, preempt := QUANTUM, clktime := 0\<rparr>"
  have run: "sysinit_core e (static_state m) = Some ?s"
    using P(1) H(1) L(1) Q1(1) Q2(1)
    by (simp add: sysinit_core_def Let_def clkinit_def upp_def bufinit_def meminit_def)
  have proc: "p \<noteq> 0 \<Longrightarrow> proctab ?s p = zero_proc" "proctab ?s 0 = null_entry (0xA0000000 - 4) zero_proc"
    if "p \<in> procs" for p
    using P(2)[OF that] P(2)[of 0] by (auto simp: upp_def bufinit_def)
  have proc0: "proctab ?s 0 = null_entry (0xA0000000 - 4) zero_proc" by (rule proc(2)[of 0]) simp
  have flds: "readylist ?s = 300" "sleepq ?s = 302" "hp ?s = h'" "nextsem ?s = 0" "nextpid ?s = 1"
     "currpid ?s = 0" "ndefers ?s = 0" "prcount ?s = 1" "count1000 ?s = 1000" "nbpools ?s = 0" "preempt ?s = QUANTUM"
    by (simp_all add: bufinit_def upp_def meminit_def static_state_def)
  have fq: "fresh_queues 102 ?s" using Q2(2) by (simp add: fresh_queues_def)
  have fs: "fresh_sems 100 ?s" using L(3) by (simp add: fresh_sems_def bufinit_def)
  have inv: "kinv ?s"
  proof (rule fresh_kinv[OF fq fs flds(1,2) proc(1) _ _ _ flds(6,7,4,5)])
    show "prstate (proctab ?s 0) = PR_CURR" "prprio (proctab ?s 0) = 0"
      unfolding proc0 by (simp_all add: null_entry_def zero_proc_def)
    show "stk_ok (hp ?s) (proctab ?s 0)" unfolding proc0 flds(3)
      by (simp add: null_entry_def zero_proc_def stk_ok_def H(4) roundmb_def Let_def)
    show "heap_ok (hp ?s)" using H(2) unfolding flds(3) heap_ok_def by blast
  qed
  have st: "prstate (proctab ?s p) = PR_FREE" if "p \<in> procs" "p \<noteq> 0" for p
    unfolding proc(1)[OF that] by (simp add: zero_proc_def)
  have qc: "qcontents ?s q = []" if "q \<in> qids" for q
    using fresh_wfq[OF fq that] by (rule qcontents_eq)
  have sem: "sstate (semtab ?s i) = S_FREE" if "\<not> isbadsem i" for i
    using fs that by (auto simp: fresh_sems_def isbadsem_def simp del: kstate.simps)
  have prio0: "prprio (proctab ?s 0) = 0" unfolding proc0 by (simp add: null_entry_def)
  have cur0: "prstate (proctab ?s 0) = PR_CURR" unfolding proc0 by (simp add: null_entry_def)
  have h: "heap_rep (hp ?s) [(e, MAXADDR - e - NULLSTK)]" "minheap (hp ?s) = e" "maxheap (hp ?s) = MAXADDR"
    unfolding flds(3) using H by simp_all
  show ?thesis
    by (rule that[OF run inv flds(6) _ _ st cur0 sem h(1) flds(8) flds(5) flds(4) flds(11) flds(9) h(2) h(3) flds(10) prio0])
      (simp_all only: flds(1,2) qc qids_300 simp_thms)
qed

section \<open>Properties\<close>

text \<open>C10: For a program image that leaves room for the null process's stack, the part of \<^verbatim>\<open>sysinit\<close>
  before its last loop, which initialises the devices, builds a state that satisfies the invariant of
  the kernel: every queue is well formed and empty, the null process is the only process and is
  running, every semaphore is free, and the heap is one free block from the end of the image to the
  null process's stack. (The initialisation of the devices, some of which create semaphores, starts
  from this state.)\<close>

theorem sysinit_establishes:
  assumes "image_ok m e"
  shows "\<exists>s. sysinit_core e (static_state m) = Some s \<and> kinv s \<and> currpid s = NULLPROC \<and> prcount s = 1 \<and>
    (\<forall>p\<in>procs. prstate (proctab s p) = (if p = NULLPROC then PR_CURR else PR_FREE)) \<and>
    (\<forall>i. \<not> isbadsem i \<longrightarrow> sstate (semtab s i) = S_FREE) \<and>
    qcontents s (readylist s) = [] \<and> qcontents s (sleepq s) = [] \<and>
    heap_rep (hp s) [(e, MAXADDR - e - NULLSTK)]"
  by (rule sysinit_core_eq[OF assms]) (simp only: NULLPROC_def, fastforce)

end
