(* ===== verification/System.thy ===== *)
theory System
  imports Boot
begin

text \<open>
  The kernel as a whole: a step relation in which the current process makes a system call, a clock
  interrupt arrives, or a process that was switched out inside a call goes on with it. A
  configuration is the kernel state and, for every process that was switched out inside a call,
  the rest of that call; the rest of a call of a process that has been removed is dropped.
\<close>

section \<open>System calls\<close>

datatype call =
    Yield | Suspend int | Resume int | Chprio int int | Getprio int | Getpid
  | Semcreate int | Wait int | Signal int | Signaln int int | Semdelete int | Semreset int int | Semcount int
  | Sleepms int | Sleep int
  | Send int int | Receive | Recvclr | Recvtime int
  | Create int int int int string "int list" | Kill int | Exit | Userret
  | Clock bool

primrec exec :: "drivers \<Rightarrow> call \<Rightarrow> kstate \<Rightarrow> (kstate, int) step" where
  "exec drv Yield s = yield s"
| "exec drv (Suspend pid) s = suspend pid s"
| "exec drv (Resume pid) s = resume pid s"
| "exec drv (Chprio pid newprio) s = chprio pid newprio s"
| "exec drv (Getprio pid) s = getprio pid s"
| "exec drv Getpid s = getpid s"
| "exec drv (Semcreate count) s = semcreate count s"
| "exec drv (Wait sem) s = wait sem s"
| "exec drv (Signal sem) s = signal sem s"
| "exec drv (Signaln sem count) s = signaln sem count s"
| "exec drv (Semdelete sem) s = semdelete sem s"
| "exec drv (Semreset sem count) s = semreset sem count s"
| "exec drv (Semcount sem) s = semcount sem s"
| "exec drv (Sleepms delay) s = sleepms delay s"
| "exec drv (Sleep delay) s = sleep delay s"
| "exec drv (Send pid msg) s = send pid msg s"
| "exec drv Receive s = receive s"
| "exec drv Recvclr s = recvclr s"
| "exec drv (Recvtime maxwait) s = recvtime maxwait s"
| "exec drv (Create initret procaddr ssize priority name args) s =
     create initret procaddr ssize priority name args s"
| "exec drv (Kill pid) s = kill drv pid s"
| "exec drv Exit s = exit drv s"
| "exec drv Userret s = userret drv s"
| "exec drv (Clock irq) s = bindk (clkhandler irq s) (\<lambda>_ s. Return 0 s)"

text \<open>
  The calls that the theorems cover: arguments in the range of their C types, no semaphore count
  beyond \<^verbatim>\<open>int32\<close>, the null process never blocks (the comment above \<^verbatim>\<open>nulluser\<close> demands it), and the
  last user process does not end, since \<^verbatim>\<open>kill\<close> would then halt the machine in \<^verbatim>\<open>xdone\<close>.
\<close>

primrec admissible :: "call \<Rightarrow> kstate \<Rightarrow> bool" where
  "admissible Yield s = True"
| "admissible (Suspend pid) s = True"
| "admissible (Resume pid) s = True"
| "admissible (Chprio pid newprio) s = (- 32768 \<le> newprio \<and> newprio < 32768)"
| "admissible (Getprio pid) s = True"
| "admissible Getpid s = True"
| "admissible (Semcreate count) s = (count < 2147483648)"
| "admissible (Wait sem) s = (currpid s \<noteq> NULLPROC)"
| "admissible (Signal sem) s = (scount (semtab s sem) < 2147483647)"
| "admissible (Signaln sem count) s = (scount (semtab s sem) + count < 2147483648)"
| "admissible (Semdelete sem) s = True"
| "admissible (Semreset sem count) s = (count < 2147483648)"
| "admissible (Semcount sem) s = True"
| "admissible (Sleepms delay) s = (currpid s \<noteq> NULLPROC)"
| "admissible (Sleep delay) s = (currpid s \<noteq> NULLPROC)"
| "admissible (Send pid msg) s = True"
| "admissible Receive s = (currpid s \<noteq> NULLPROC)"
| "admissible Recvclr s = True"
| "admissible (Recvtime maxwait) s = (currpid s \<noteq> NULLPROC)"
| "admissible (Create initret procaddr ssize priority name args) s =
     (- 32768 \<le> priority \<and> priority < 32768 \<and> 0 \<le> ssize \<and> ssize < 4294967280 \<and>
      4 * (16 + (int (length args) - 4)) \<le> max ssize 400)"
| "admissible (Kill pid) s = (3 \<le> prcount s \<and> prcount s < 2147483648)"
| "admissible Exit s = (3 \<le> prcount s \<and> prcount s < 2147483648)"
| "admissible Userret s = (3 \<le> prcount s \<and> prcount s < 2147483648)"
| "admissible (Clock irq) s = True"

section \<open>The contract of a kernel call\<close>

text \<open>
  A family of operations that keep the invariant, under their preconditions, up to every switch
  and up to their return. What a client may rely on: such an operation never faults, a return
  leaves the caller current, and the rest of a switched operation can be resumed in any state
  that satisfies the invariant and has the caller current again.
\<close>

definition resumable :: "int \<Rightarrow> (kstate \<Rightarrow> (kstate, 'a) step) \<Rightarrow> bool" where
  "resumable p k \<longleftrightarrow> (\<forall>s. kinv s \<longrightarrow> currpid s = p \<longrightarrow> kok p (\<lambda>_ s'. kinv s' \<and> currpid s' = p) (k s))"

locale kernel_calls =
  fixes f :: "'c \<Rightarrow> kstate \<Rightarrow> (kstate, 'a) step" and pre :: "'c \<Rightarrow> kstate \<Rightarrow> bool"
  assumes keeps: "kinv s \<Longrightarrow> pre c s \<Longrightarrow> kcall (f c) s"
begin

lemma no_fault: "kinv s \<Longrightarrow> pre c s \<Longrightarrow> f c s \<noteq> Fault"
  using keeps[of s c] by (auto simp: kcall_def)

lemma returns: "kinv s \<Longrightarrow> pre c s \<Longrightarrow> f c s = Return a s' \<Longrightarrow> kinv s' \<and> currpid s' = currpid s"
  using keeps[of s c] by (auto simp: kcall_def)

lemma switches:
  "kinv s \<Longrightarrow> pre c s \<Longrightarrow> f c s = Switch s' k \<Longrightarrow> kinv s' \<and> (alive (currpid s) s' \<longrightarrow> resumable (currpid s) k)"
  using keeps[of s c] by (auto simp: kcall_def resumable_def)

end

lemmas syscall_rules = kinv_yield kinv_suspend kinv_resume kinv_chprio kinv_getprio kinv_getpid kinv_semcreate
  kinv_wait kinv_signal kinv_signaln kinv_semdelete kinv_semreset kinv_semcount kinv_sleepms kinv_sleep
  kinv_send kinv_receive kinv_recvclr kinv_recvtime kinv_create kinv_kill kinv_exit kinv_userret

lemma exec_kcall:
  assumes inv: "kinv s" and drv: "closes_ok drv" and adm: "admissible c s"
  shows "kcall (exec drv c) s"
proof (cases c)
  case (Clock irq)
  show ?thesis unfolding kcall_def Clock exec.simps kok_bindk kok_Return
    using kinv_clkhandler[OF inv, of irq] unfolding kcall_def .
qed (use inv drv adm in \<open>simp_all add: kcall_def\<close>,
  (rule syscall_rules[unfolded kcall_def]; simp)+)

interpretation syscalls: kernel_calls "exec drv" "\<lambda>c s. closes_ok drv \<and> admissible c s" for drv
  by unfold_locales (auto intro: exec_kcall)

section \<open>Steps of the system\<close>

type_synonym sys = "kstate \<times> (int \<Rightarrow> (kstate \<Rightarrow> (kstate, int) step) option)"

definition suspended :: "int \<Rightarrow> (kstate \<Rightarrow> (kstate, int) step) option \<Rightarrow> kstate \<Rightarrow> sys \<Rightarrow> sys" where
  "suspended p k s \<sigma> = (s, \<lambda>q. if alive q s then (if q = p then k else snd \<sigma> q) else None)"

primrec settle :: "int \<Rightarrow> sys \<Rightarrow> (kstate, int) step \<Rightarrow> sys option" where
  "settle p \<sigma> Fault = None"
| "settle p \<sigma> (Return v s) = Some (suspended p None s \<sigma>)"
| "settle p \<sigma> (Switch s k) = Some (suspended p (Some k) s \<sigma>)"

inductive sys_step :: "drivers \<Rightarrow> sys \<Rightarrow> sys \<Rightarrow> bool" for drv where
  call: "snd \<sigma> (currpid (fst \<sigma>)) = None \<Longrightarrow> admissible c (fst \<sigma>) \<Longrightarrow>
    settle (currpid (fst \<sigma>)) \<sigma> (exec drv c (fst \<sigma>)) = Some \<sigma>' \<Longrightarrow> sys_step drv \<sigma> \<sigma>'"
| continue: "snd \<sigma> (currpid (fst \<sigma>)) = Some k \<Longrightarrow>
    settle (currpid (fst \<sigma>)) \<sigma> (k (fst \<sigma>)) = Some \<sigma>' \<Longrightarrow> sys_step drv \<sigma> \<sigma>'"

inductive_cases sys_stepE: "sys_step drv \<sigma> \<sigma>'"

inductive reachable :: "drivers \<Rightarrow> int \<Rightarrow> int \<Rightarrow> sys \<Rightarrow> bool" for drv m e where
  booted: "sysinit_core e (static_state m) = Some s \<Longrightarrow> reachable drv m e (s, \<lambda>_. None)"
| step: "reachable drv m e \<sigma> \<Longrightarrow> sys_step drv \<sigma> \<sigma>' \<Longrightarrow> reachable drv m e \<sigma>'"

definition sys_inv :: "sys \<Rightarrow> bool" where
  "sys_inv \<sigma> \<longleftrightarrow> kinv (fst \<sigma>) \<and> (\<forall>p k. snd \<sigma> p = Some k \<longrightarrow> resumable p k)"

lemma sys_inv_settle:
  assumes inv: "sys_inv \<sigma>" and p: "p = currpid (fst \<sigma>)"
    and t: "kok p (\<lambda>_ s'. kinv s' \<and> currpid s' = p) t"
  shows "\<exists>\<sigma>'. settle p \<sigma> t = Some \<sigma>' \<and> sys_inv \<sigma>'"
  using inv t by (cases t) (auto simp: sys_inv_def suspended_def resumable_def split: if_splits)

lemma sys_inv_step:
  assumes inv: "sys_inv \<sigma>" and drv: "closes_ok drv" and st: "sys_step drv \<sigma> \<sigma>'"
  shows "sys_inv \<sigma>'"
  using st
proof (cases rule: sys_step.cases)
  case (call c)
  have "kinv (fst \<sigma>)" using inv by (simp add: sys_inv_def)
  from exec_kcall[OF this drv call(2)]
  have "kok (currpid (fst \<sigma>)) (\<lambda>_ s'. kinv s' \<and> currpid s' = currpid (fst \<sigma>)) (exec drv c (fst \<sigma>))"
    by (simp add: kcall_def)
  from sys_inv_settle[OF inv refl this] call(3) show ?thesis by fastforce
next
  case (continue k)
  have "kinv (fst \<sigma>)" "resumable (currpid (fst \<sigma>)) k" using inv continue(1) by (auto simp: sys_inv_def)
  then show ?thesis using sys_inv_settle[OF inv refl, of "k (fst \<sigma>)"] continue(2) by (auto simp: resumable_def)
qed

lemma reachable_inv:
  assumes "reachable drv m e \<sigma>" "closes_ok drv" "image_ok m e"
  shows "sys_inv \<sigma>"
  using assms
proof (induction rule: reachable.induct)
  case (booted s)
  obtain s' where "sysinit_core e (static_state m) = Some s'" "kinv s'"
    using sysinit_core_eq[OF booted(3)] by metis
  then show ?case using booted(1) by (simp add: sys_inv_def)
next
  case (step \<sigma> \<sigma>')
  then show ?case using sys_inv_step by blast
qed

section \<open>Properties\<close>

text \<open>C1: In every state that the system can reach from its start, by any admissible calls of any
  processes, clock interrupts and resumptions in any order, the invariant of the kernel holds; no
  admissible call, and no continuation of a call that was switched out, indexes outside a table,
  halts, or fails to return.\<close>

theorem reachable_safe:
  assumes "reachable drv m e \<sigma>" "closes_ok drv" "image_ok m e"
  shows "kinv (fst \<sigma>) \<and>
    (\<forall>c. admissible c (fst \<sigma>) \<longrightarrow> exec drv c (fst \<sigma>) \<noteq> Fault) \<and>
    (\<forall>k. snd \<sigma> (currpid (fst \<sigma>)) = Some k \<longrightarrow> k (fst \<sigma>) \<noteq> Fault)"
proof -
  have inv: "sys_inv \<sigma>" by (rule reachable_inv[OF assms])
  then have k: "kinv (fst \<sigma>)" by (simp add: sys_inv_def)
  have "k (fst \<sigma>) \<noteq> Fault" if "snd \<sigma> (currpid (fst \<sigma>)) = Some k" for k
  proof -
    have "resumable (currpid (fst \<sigma>)) k" using inv that by (simp add: sys_inv_def)
    then have "kok (currpid (fst \<sigma>)) (\<lambda>_ s'. kinv s' \<and> currpid s' = currpid (fst \<sigma>)) (k (fst \<sigma>))"
      using k by (simp add: resumable_def)
    then show ?thesis by (metis kok_Fault)
  qed
  then show ?thesis using k syscalls.no_fault[OF k, of drv] assms(2) by blast
qed

text \<open>C2: In every reachable state exactly the current process has state \<^verbatim>\<open>PR_CURR\<close>; the ready list
  holds exactly the processes with state \<^verbatim>\<open>PR_READY\<close>, each once, by descending key; and for every
  semaphore in use the queue holds exactly the processes that wait on it, as many as its negative
  count says.\<close>

theorem reachable_queues:
  assumes "reachable drv m e \<sigma>" "closes_ok drv" "image_ok m e" "s = fst \<sigma>"
  shows "(\<forall>p\<in>procs. prstate (proctab s p) = PR_CURR \<longleftrightarrow> p = currpid s) \<and>
    (\<forall>p\<in>procs. prstate (proctab s p) = PR_READY \<longleftrightarrow> p \<in> set (qcontents s (readylist s))) \<and>
    distinct (qcontents s (readylist s)) \<and>
    sorted_wrt (\<lambda>a b. qkey (queuetab s b) \<le> qkey (queuetab s a)) (qcontents s (readylist s)) \<and>
    (\<forall>i. \<not> isbadsem i \<longrightarrow> sstate (semtab s i) = S_USED \<longrightarrow>
      length (qcontents s (squeue (semtab s i))) = nat (- scount (semtab s i)) \<and>
      (\<forall>p\<in>procs. p \<in> set (qcontents s (squeue (semtab s i))) \<longleftrightarrow>
        prstate (proctab s p) = PR_WAIT \<and> prsem (proctab s p) = i))"
proof -
  have "kinv s" using reachable_inv[OF assms(1-3)] assms(4) by (simp add: sys_inv_def)
  then obtain L where k: "kbase {} L s" "ksems L s" "kcur s" "prstate (proctab s (currpid s)) = PR_CURR" "L = qcontents s"
    by (elim kinvE)
  note ly = qlayoutD[OF kbaseD(1)[OF k(1)]] and on = kbaseD(3)[OF k(1), unfolded k(5)]
  have "\<forall>p\<in>procs. prstate (proctab s p) = PR_CURR \<longleftrightarrow> p = currpid s" using k(3,4) by (auto simp: kcur_def)
  moreover have "\<forall>p\<in>procs. prstate (proctab s p) = PR_READY \<longleftrightarrow> p \<in> set (qcontents s (readylist s))"
  proof
    fix p assume p: "p \<in> procs"
    have "where_q s p = Some 300 \<longleftrightarrow> prstate (proctab s p) = PR_READY"
      using ly kbaseD(4)[OF k(1) p] by (auto simp: where_q_def isbadsem_def split: pstate.splits)
    then show "prstate (proctab s p) = PR_READY \<longleftrightarrow> p \<in> set (qcontents s (readylist s))"
      using on[OF p qids_300(1)] ly(1) by simp
  qed
  moreover have "distinct (qcontents s (readylist s))"
    using wfqD(4)[OF wfqs_wfq[OF kbaseD(2)[OF k(1)] qids_300(1)]] k(5) ly(1) by simp
  moreover have "sorted_wrt (\<lambda>a b. qkey (queuetab s b) \<le> qkey (queuetab s a)) (qcontents s (readylist s))"
    using kbaseD(7)[OF k(1)] k(5) by simp
  moreover have "length (qcontents s (squeue (semtab s i))) = nat (- scount (semtab s i)) \<and>
      (\<forall>p\<in>procs. p \<in> set (qcontents s (squeue (semtab s i))) \<longleftrightarrow>
        prstate (proctab s p) = PR_WAIT \<and> prsem (proctab s p) = i)"
    if i: "\<not> isbadsem i" "sstate (semtab s i) = S_USED" for i
  proof
    show "length (qcontents s (squeue (semtab s i))) = nat (- scount (semtab s i))"
      using ksemsD(1)[OF k(2) i(1)] i(2) k(5) by simp
    show "\<forall>p\<in>procs. p \<in> set (qcontents s (squeue (semtab s i))) \<longleftrightarrow>
        prstate (proctab s p) = PR_WAIT \<and> prsem (proctab s p) = i"
    proof
      fix p assume p: "p \<in> procs"
      have "p \<in> set (qcontents s (squeue (semtab s i)))"
        if "prstate (proctab s p) = PR_WAIT" "prsem (proctab s p) = i"
        using on[OF p sem_queue(1)[OF k(1) i(1)]] that by (simp add: where_q_def)
      then show "p \<in> set (qcontents s (squeue (semtab s i))) \<longleftrightarrow>
          prstate (proctab s p) = PR_WAIT \<and> prsem (proctab s p) = i"
        using waiting_not_current[OF k(1) i(1), of p] k(5) by blast
    qed
  qed
  ultimately show ?thesis by (intro conjI allI impI) simp_all
qed

end
