(* ===== verification/Sem_Spec.thy ===== *)
theory Sem_Spec
  imports Semaphores
begin

text \<open>
  The contract of the semaphores: an abstract semaphore is a count and a FIFO queue of processes.
  \<open>sem_view\<close> abstracts a semaphore of the kernel, and every operation of the code implements its
  abstract counterpart on the semaphore it is called with, and leaves all other semaphores alone.
\<close>

section \<open>Abstract semaphores\<close>

type_synonym asem = "int \<times> int list"

definition spec_wait :: "int \<Rightarrow> asem \<Rightarrow> asem" where
  "spec_wait p a = (case a of (c, q) \<Rightarrow> (c - 1, if 0 < c then q else q @ [p]))"

definition spec_signal :: "asem \<Rightarrow> asem" where
  "spec_signal a = (case a of (c, q) \<Rightarrow> (c + 1, tl q))"

definition sem_view :: "kstate \<Rightarrow> int \<Rightarrow> asem" where
  "sem_view s i = (scount (semtab s i), qcontents s (squeue (semtab s i)))"

text \<open>The other semaphores are as they were.\<close>

definition others_same :: "int \<Rightarrow> kstate \<Rightarrow> kstate \<Rightarrow> bool" where
  "others_same sem s s' \<longleftrightarrow> (\<forall>i. \<not> isbadsem i \<longrightarrow> i \<noteq> sem \<longrightarrow>
     sstate (semtab s' i) = sstate (semtab s i) \<and> sem_view s' i = sem_view s i)"

lemma spec_signal_funpow: "(spec_signal ^^ n) (c, q) = (c + int n, drop n q)"
  by (induction n) (simp_all add: spec_signal_def drop_Suc tl_drop)

lemma sem_view_eq:
  assumes "kbase X L s" "\<not> isbadsem i"
  shows "sem_view s i = (scount (semtab s i), L (squeue (semtab s i)))"
  using qcontents_kbase[OF assms(1) sem_queue(1)[OF assms]] by (simp add: sem_view_def)

lemma others_sameI:
  assumes k: "kbase X L s" "kbase Y L' s'" and sem: "\<not> isbadsem sem"
    and S: "\<And>i. i \<noteq> sem \<Longrightarrow> semtab s' i = semtab s i"
    and L: "\<And>r. r \<noteq> squeue (semtab s sem) \<Longrightarrow> r \<noteq> 300 \<Longrightarrow> L' r = L r"
  shows "others_same sem s s'"
  unfolding others_same_def
proof (intro allI impI conjI)
  fix i assume i: "\<not> isbadsem i" "i \<noteq> sem"
  have "squeue (semtab s i) \<noteq> squeue (semtab s sem)" "squeue (semtab s i) \<noteq> 300"
    using i sem qlayoutD(3)[OF kbaseD(1)[OF k(1)]] by (auto simp: isbadsem_def)
  then show "sem_view s' i = sem_view s i"
    using sem_view_eq[OF k(1) i(1)] sem_view_eq[OF k(2) i(1)] S[OF i(2)] L by simp
  show "sstate (semtab s' i) = sstate (semtab s i)" using S[OF i(2)] by simp
qed

section \<open>The operations implement their contracts\<close>

text \<open>C7: \<^verbatim>\<open>wait\<close> refines the abstract semaphore: it takes one from the count; with a positive count
  it returns at once, and otherwise the caller joins the end of the FIFO queue, has state \<^verbatim>\<open>PR_WAIT\<close>,
  and \<^verbatim>\<open>resched\<close> gives the processor away. No other semaphore and no other process changes.\<close>

theorem wait_refines:
  assumes inv: "kinv s" and sem: "\<not> isbadsem sem" "sstate (semtab s sem) \<noteq> S_FREE" and null: "currpid s \<noteq> 0"
  shows "\<exists>s2. sem_view s2 sem = spec_wait (currpid s) (sem_view s sem) \<and> others_same sem s s2 \<and>
    kpre (qcontents s2) s2 \<and> currpid s2 = currpid s \<and>
    (if 0 < scount (semtab s sem) then wait sem s = Return OK s2 \<and> proctab s2 = proctab s
     else wait sem s = bindk (resched s2) (\<lambda>_ s. Return OK s) \<and>
       proctab s2 = (proctab s)(currpid s := (proctab s (currpid s))\<lparr>prstate := PR_WAIT, prsem := sem\<rparr>))"
proof -
  from inv obtain L where k: "kbase {} L s" "ksems L s" "kcur s" "kranges s" "ndefers s = 0" "L = qcontents s"
    by (elim kinvE)
  let ?q = "squeue (semtab s sem)"
  note len = ksemsD[OF k(2) sem]
  show ?thesis
  proof (cases "scount (semtab s sem) \<le> 0")
    case True
    obtain s2 where w: "wait sem s = bindk (resched s2) (\<lambda>_ s. Return OK s)" "currpid s2 = currpid s"
      "ndefers s2 = 0" "kpre (L(?q := L ?q @ [currpid s])) s2"
      "semtab s2 = (semtab s)(sem := (semtab s sem)\<lparr>scount := scount (semtab s sem) - 1\<rparr>)"
      "proctab s2 = (proctab s)(currpid s := (proctab s (currpid s))\<lparr>prstate := PR_WAIT, prsem := sem\<rparr>)"
      by (rule wait_blocks_eq[OF inv sem True null, folded k(6)])
    have kb: "kbase {} (L(?q := L ?q @ [currpid s])) s2" using w(4) by (simp add: kpre_def)
    have "sem_view s2 sem = spec_wait (currpid s) (sem_view s sem)"
      using True by (simp add: sem_view_eq[OF kb sem(1)] sem_view_eq[OF k(1) sem(1)] w(5) spec_wait_def)
    moreover have "others_same sem s s2" by (rule others_sameI[OF k(1) kb sem(1)]) (simp_all add: w(5))
    ultimately show ?thesis using True w(1,2,6) kpre_qcontents[OF w(4)] by (intro exI[of _ s2]) simp
  next
    case False
    let ?s2 = "upsem sem (\<lambda>e. e\<lparr>scount := i32 (scount e - 1)\<rparr>) s"
    have kb: "kbase {} L ?s2" using k(1) by (simp add: kbase_upsem)
    have "ksems L ?s2"
      using len False sem(2) by (intro ksems_change[OF k(2) kbaseD(1)[OF k(1)] sem(1)])
        (auto simp: ksem_at_def split: semstate.splits)
    then have "kpre (qcontents ?s2) ?s2"
      using k(3,4) kb by (intro kpre_qcontents[of L]) (simp add: kpre_def kcur_def kranges_def)
    moreover have "sem_view ?s2 sem = spec_wait (currpid s) (sem_view s sem)"
      using False len by (simp add: sem_view_eq[OF kb sem(1)] sem_view_eq[OF k(1) sem(1)] spec_wait_def)
    moreover have "others_same sem s ?s2" by (rule others_sameI[OF k(1) kb sem(1)]) simp_all
    moreover have "wait sem s = Return OK ?s2" using False sem len by (simp add: wait_def Let_def)
    ultimately show ?thesis using False by (intro exI[of _ ?s2]) simp
  qed
qed

text \<open>C8: \<^verbatim>\<open>signal\<close> refines the abstract semaphore: it adds one to the count; when processes wait, the
  one that has waited longest leaves the queue and becomes ready before \<^verbatim>\<open>resched\<close> runs. No other
  semaphore and no other process changes.\<close>

theorem signal_refines:
  assumes inv: "kinv s" and sem: "\<not> isbadsem sem" "sstate (semtab s sem) \<noteq> S_FREE"
    and ov: "scount (semtab s sem) < 2147483647"
  shows "\<exists>s2. sem_view s2 sem = spec_signal (sem_view s sem) \<and> others_same sem s s2 \<and>
    kpre (qcontents s2) s2 \<and> currpid s2 = currpid s \<and>
    (case snd (sem_view s sem) of
       [] \<Rightarrow> signal sem s = Return OK s2 \<and> proctab s2 = proctab s
     | p # _ \<Rightarrow> signal sem s = bindk (resched s2) (\<lambda>_ s. Return OK s) \<and>
         p \<in> set (qcontents s2 (readylist s2)) \<and>
         proctab s2 = (proctab s)(p := (proctab s p)\<lparr>prstate := PR_READY\<rparr>))"
proof -
  from inv obtain L where k: "kbase {} L s" "ksems L s" "kcur s" "kranges s" "ndefers s = 0" "L = qcontents s"
    by (elim kinvE)
  let ?q = "squeue (semtab s sem)"
  note len = ksemsD[OF k(2) sem] and q = sem_queue[OF k(1) sem(1)]
  show ?thesis
  proof (cases "scount (semtab s sem) < 0")
    case True
    obtain p rest where L: "L ?q = p # rest" "- 100 \<le> scount (semtab s sem)"
      by (rule sem_nonempty[OF k(1,2) sem True])
    obtain s1 Q1 where s1: "signal_once sem s = bindk (ready p s1) (\<lambda>_ s. Return () s)"
      "kbase {p} (L(?q := rest)) s1" "\<not> isbadpid s1 p"
      "s1 = (upsem sem (\<lambda>e. e\<lparr>scount := scount e + 1\<rparr>) s)\<lparr>queuetab := Q1\<rparr>"
      by (rule signal_once_release[OF k(1) sem(1) True L(2,1)])
    have kb1: "kbase ({} \<union> {p}) (L(?q := rest)) s1" using s1(2) by simp
    obtain Q2 where r: "ready p s1 = bindk (resched (readied p Q2 s1)) (\<lambda>_ s. Return OK s)"
      "kbase {} ((L(?q := rest))(300 := ins_desc (\<lambda>i. qkey (queuetab s1 i)) (prprio (proctab s1 p)) p ((L(?q := rest)) 300)))
        (readied p Q2 s1)" (is "kbase {} ?L2 ?s2")
      by (rule ready_split[OF kb1 s1(3)]) auto
    have "ksem_at (L(?q := rest)) s1 sem"
      using len L(1) sem(2) True by (auto simp: s1(4) ksem_at_def split: semstate.splits)
    then have "ksems (L(?q := rest)) s1"
      by (intro ksems_change[OF k(2) kbaseD(1)[OF k(1)] sem(1)]) (simp_all add: s1(4))
    then have "ksems ?L2 ?s2"
      using ksems_other(1)[OF kbaseD(1)[OF kb1]] by (simp add: ksems_fields[of ?s2 s1])
    moreover have "kcur ?s2" using k(3) by (intro kcur_readied) (simp add: s1(4) kcur_def)
    moreover have "kranges ?s2" using k(4) by (simp add: kranges_def s1(4))
    ultimately have pre: "kpre ?L2 ?s2" using r(2) by (simp add: kpre_def)
    have st: "semtab s1 = (semtab s)(sem := (semtab s sem)\<lparr>scount := scount (semtab s sem) + 1\<rparr>)"
      by (simp add: s1(4))
    have "sem_view ?s2 sem = spec_signal (sem_view s sem)"
      using q L(1) by (simp add: sem_view_eq[OF r(2) sem(1)] sem_view_eq[OF k(1) sem(1)] st spec_signal_def)
    moreover have "others_same sem s ?s2" by (rule others_sameI[OF k(1) r(2) sem(1)]) (simp_all add: st)
    moreover have "qcontents ?s2 (readylist ?s2) = ?L2 300"
      using qcontents_kbase[OF r(2) qids_300(1)] qlayoutD(1)[OF kbaseD(1)[OF r(2)]] by simp
    moreover have "signal sem s = bindk (resched ?s2) (\<lambda>_ s. Return OK s)"
      using sem s1(1) r(1) by (simp add: signal_def bindk_assoc)
    ultimately show ?thesis
      using L(1) kpre_qcontents[OF pre] sem_view_eq[OF k(1) sem(1)]
      by (intro exI[of _ ?s2]) (simp add: s1(4))
  next
    case False
    let ?s2 = "upsem sem (\<lambda>e. e\<lparr>scount := i32 (scount e + 1)\<rparr>) s"
    have kb: "kbase {} L ?s2" using k(1) by (simp add: kbase_upsem)
    have "ksems L ?s2"
      using len False sem(2) ov by (intro ksems_change[OF k(2) kbaseD(1)[OF k(1)] sem(1)])
        (auto simp: ksem_at_def split: semstate.splits)
    then have "kpre (qcontents ?s2) ?s2"
      using k(3,4) kb by (intro kpre_qcontents[of L]) (simp add: kpre_def kcur_def kranges_def)
    moreover have "L ?q = []" using len False by simp
    moreover have "sem_view ?s2 sem = (scount (semtab s sem) + 1, L ?q)"
      using False ov by (simp add: sem_view_eq[OF kb sem(1)])
    moreover have "others_same sem s ?s2" by (rule others_sameI[OF k(1) kb sem(1)]) simp_all
    moreover have "signal sem s = Return OK ?s2"
      using False sem by (simp add: signal_def signal_once_def Let_def)
    ultimately show ?thesis
      using sem_view_eq[OF k(1) sem(1)] by (intro exI[of _ ?s2]) (simp add: spec_signal_def)
  qed
qed

text \<open>C9: \<^verbatim>\<open>signaln(sem, n)\<close> is \<open>n\<close> abstract signals: before the processor is reconsidered, once, the
  first \<open>n\<close> waiting processes (all, if there are fewer) have become ready and the semaphore has
  changed as by \<open>n\<close> signals.\<close>

theorem signaln_is_n_signals:
  assumes inv: "kinv s" and sem: "\<not> isbadsem sem" "sstate (semtab s sem) \<noteq> S_FREE"
    and ov: "scount (semtab s sem) + int n < 2147483648"
  shows "\<exists>s2. signaln sem (int n) s = bindk (resched_cntl DEFER_STOP s2) (\<lambda>_ s. Return OK s) \<and>
    sem_view s2 sem = (spec_signal ^^ n) (sem_view s sem) \<and>
    released (take n (snd (sem_view s sem))) s s2"
proof -
  from inv have kb: "kbase {} (qcontents s) s" by (elim kinvE) simp
  obtain s2 L2 where r: "signaln sem (int n) s = bindk (resched_cntl DEFER_STOP s2) (\<lambda>_ s. Return OK s)"
    "released (take (nat (int n)) (qcontents s (squeue (semtab s sem)))) s s2" "kpre L2 s2"
    "L2 (squeue (semtab s sem)) = drop (nat (int n)) (qcontents s (squeue (semtab s sem)))"
    "semtab s2 = (semtab s)(sem := (semtab s sem)\<lparr>scount := scount (semtab s sem) + int n\<rparr>)"
    by (rule signaln_eq[OF inv sem _ ov]) simp
  have kb2: "kbase {} L2 s2" using r(3) by (simp add: kpre_def)
  have "sem_view s2 sem = (spec_signal ^^ n) (sem_view s sem)"
    using r(4) by (simp add: sem_view_eq[OF kb2 sem(1)] sem_view_eq[OF kb sem(1)] r(5) spec_signal_funpow)
  then show ?thesis using r(1,2) by (intro exI[of _ s2]) (simp add: sem_view_def)
qed

text \<open>C17: \<^verbatim>\<open>semdelete\<close> frees the table entry and makes every process that waits on the semaphore
  ready, whatever their number, before the processor is reconsidered, once; the queue is empty
  afterwards, and the loop over it ends.\<close>

theorem semdelete_releases_all:
  assumes inv: "kinv s" and sem: "\<not> isbadsem sem" "sstate (semtab s sem) \<noteq> S_FREE"
  shows "\<exists>s2. semdelete sem s = bindk (resched_cntl DEFER_STOP s2) (\<lambda>_ s. Return OK s) \<and>
    sstate (semtab s2 sem) = S_FREE \<and> snd (sem_view s2 sem) = [] \<and>
    released (snd (sem_view s sem)) s s2"
proof -
  obtain s2 L2 where r: "semdelete sem s = bindk (resched_cntl DEFER_STOP s2) (\<lambda>_ s. Return OK s)"
    "released (qcontents s (squeue (semtab s sem))) s s2" "kpre L2 s2" "L2 (squeue (semtab s sem)) = []"
    "sstate (semtab s2 sem) = S_FREE"
    by (rule semdelete_eq[OF inv sem])
  have kb2: "kbase {} L2 s2" using r(3) by (simp add: kpre_def)
  from inv have kb: "kbase {} (qcontents s) s" by (elim kinvE) simp
  have "squeue (semtab s2 sem) = squeue (semtab s sem)"
    using qlayoutD(3)[OF kbaseD(1)[OF kb] sem(1)] qlayoutD(3)[OF kbaseD(1)[OF kb2] sem(1)] by simp
  then have "snd (sem_view s2 sem) = []" using r(4) by (simp add: sem_view_eq[OF kb2 sem(1)])
  then show ?thesis using r(1,2,5) by (intro exI[of _ s2]) (simp add: sem_view_def)
qed

text \<open>\<^verbatim>\<open>semreset\<close> gives the semaphore the new count and an empty queue; every process that waited
  becomes ready before the processor is reconsidered, once.\<close>

theorem semreset_releases_all:
  assumes inv: "kinv s" and sem: "\<not> isbadsem sem" "sstate (semtab s sem) \<noteq> S_FREE"
    and c: "0 \<le> count" "count < 2147483648"
  shows "\<exists>s2. semreset sem count s = bindk (resched_cntl DEFER_STOP s2) (\<lambda>_ s. Return OK s) \<and>
    sem_view s2 sem = (count, []) \<and> released (snd (sem_view s sem)) s s2"
proof -
  obtain s2 L2 where r: "semreset sem count s = bindk (resched_cntl DEFER_STOP s2) (\<lambda>_ s. Return OK s)"
    "released (qcontents s (squeue (semtab s sem))) s s2" "kpre L2 s2" "L2 (squeue (semtab s sem)) = []"
    "semtab s2 = (semtab s)(sem := (semtab s sem)\<lparr>scount := count\<rparr>)"
    by (rule semreset_eq[OF inv sem c])
  have kb2: "kbase {} L2 s2" using r(3) by (simp add: kpre_def)
  have "sem_view s2 sem = (count, [])" using r(4,5) by (simp add: sem_view_eq[OF kb2 sem(1)])
  then show ?thesis using r(1,2) by (intro exI[of _ s2]) (simp add: sem_view_def)
qed

lemma newsem_full:
  assumes inv: "kinv s" and f: "fst (newsem s) = SYSERR" and i: "\<not> isbadsem i"
  shows "sstate (semtab s i) = S_USED"
proof -
  from inv have rg: "0 \<le> nextsem s" "nextsem s < NSEM" by (elim kinvE, simp add: kranges_def)+
  have n: "newsem_loop (nat NSEM) s = (SYSERR, snd (newsem s))" using f by (simp add: newsem_def prod_eq_iff)
  have j: "nat ((i - nextsem s) mod NSEM) < nat NSEM" by simp
  have "(nextsem s + int (nat ((i - nextsem s) mod NSEM))) mod NSEM = i"
    using i by (simp add: mod_simps isbadsem_def)
  then have "sstate (semtab s i) \<noteq> S_FREE" using newsem_loop_full[OF rg n j] by simp
  then show ?thesis by (cases "sstate (semtab s i)") auto
qed

text \<open>While some entry is free, \<^verbatim>\<open>semcreate\<close> succeeds.\<close>

lemma semcreate_free:
  assumes inv: "kinv s" and c: "0 \<le> count" "count < 2147483648" and a: "\<not> isbadsem a" "sstate (semtab s a) = S_FREE"
  obtains sem m where "\<not> isbadsem sem" "sstate (semtab s sem) = S_FREE"
    "semcreate count s = Return sem (upsem sem (\<lambda>e. e\<lparr>sstate := S_USED, scount := count\<rparr>) (s\<lparr>nextsem := m\<rparr>))"
    "kinv (upsem sem (\<lambda>e. e\<lparr>sstate := S_USED, scount := count\<rparr>) (s\<lparr>nextsem := m\<rparr>))"
proof -
  have "fst (newsem s) \<noteq> SYSERR" using newsem_full[OF inv _ a(1)] a(2) by auto
  with semcreate_eq[OF inv c(1)] obtain sem m where f: "\<not> isbadsem sem" "sstate (semtab s sem) = S_FREE"
    "semcreate count s = Return sem (upsem sem (\<lambda>e. e\<lparr>sstate := S_USED, scount := count\<rparr>) (s\<lparr>nextsem := m\<rparr>))" by blast
  then show ?thesis using kinv_semcreate[OF inv c(2)] by (intro that) (auto simp: kcall_def)
qed

text \<open>\<^verbatim>\<open>semcreate\<close> hands out a table entry that was free, with the given count and nobody
  waiting, and fails only for a negative count or when all \<^verbatim>\<open>NSEM\<close> entries are in use; then the
  semaphores are as they were.\<close>

theorem semcreate_correct:
  assumes inv: "kinv s"
  shows "case semcreate count s of
      Return sem s' \<Rightarrow>
        (sem = SYSERR \<and> semtab s' = semtab s \<and> (count < 0 \<or> (\<forall>i. \<not> isbadsem i \<longrightarrow> sstate (semtab s i) = S_USED))) \<or>
        (0 \<le> count \<and> \<not> isbadsem sem \<and> sstate (semtab s sem) = S_FREE \<and> sstate (semtab s' sem) = S_USED \<and>
         sem_view s' sem = (count, []) \<and> others_same sem s s')
    | _ \<Rightarrow> False"
proof (cases "count < 0")
  case True
  then show ?thesis by (simp add: semcreate_def)
next
  case False
  then have c: "0 \<le> count" by simp
  from inv obtain L where k: "kbase {} L s" "ksems L s" by (elim kinvE)
  from semcreate_eq[OF inv c] show ?thesis
  proof (elim disjE exE conjE)
    let ?s' = "s\<lparr>nextsem := nextsem (snd (newsem s))\<rparr>"
    assume f: "semcreate count s = Return SYSERR ?s'" "fst (newsem s) = SYSERR"
    have "sstate (semtab s i) = S_USED" if i: "\<not> isbadsem i" for i by (rule newsem_full[OF inv f(2) i])
    then show ?thesis by (simp add: f(1))
  next
    fix sem m
    let ?s' = "upsem sem (\<lambda>e. e\<lparr>sstate := S_USED, scount := count\<rparr>) (s\<lparr>nextsem := m\<rparr>)"
    assume f: "\<not> isbadsem sem" "sstate (semtab s sem) = S_FREE" "semcreate count s = Return sem ?s'"
    have "kbase {} L (s\<lparr>nextsem := m\<rparr>)" using k(1) by (simp add: kbase_fields[of "s\<lparr>nextsem := m\<rparr>" s])
    then have kb: "kbase {} L ?s'" by (simp add: kbase_upsem)
    have "L (squeue (semtab s sem)) = []" using k(2)[unfolded ksems_def, rule_format, OF f(1)] f(2) by (simp add: ksem_at_def)
    then have "sem_view ?s' sem = (count, [])" using sem_view_eq[OF kb f(1)] by simp
    moreover have "others_same sem s ?s'" by (rule others_sameI[OF k(1) kb f(1)]) simp_all
    ultimately show ?thesis using f c by simp
  qed
qed

end
