(* ===== verification/Examples.thy ===== *)
theory Examples
  imports System Sem_Spec
begin

text \<open>
  A run of the model on a concrete machine: the system is started, a process is created, resumed,
  goes to sleep, and so on. The states of the run are the witnesses of the properties whose
  hypotheses speak of kernel states.
\<close>

section \<open>Start\<close>

definition after :: "(kstate, 'a) step \<Rightarrow> kstate" where
  "after t = (case t of Return a s \<Rightarrow> s | Switch s k \<Rightarrow> s)"

lemma after_simps [simp]: "after (Return a s) = s" "after (Switch s k) = s"
  by (simp_all add: after_def)

definition image_at :: int where "image_at = 0x80001000"
definition image_end :: int where "image_end = 0x80100000"

lemma image_ok_demo: "image_ok image_at image_end"
  by (simp add: image_ok_def image_at_def image_end_def)

definition boot0 :: kstate where
  "boot0 = the (sysinit_core image_end (static_state image_at))"

lemma boot0:
  "sysinit_core image_end (static_state image_at) = Some boot0" "kinv boot0" "currpid boot0 = 0"
  "qcontents boot0 (readylist boot0) = []" "qcontents boot0 (sleepq boot0) = []"
  "p \<in> procs \<Longrightarrow> p \<noteq> 0 \<Longrightarrow> prstate (proctab boot0 p) = PR_FREE"
  "\<not> isbadsem i \<Longrightarrow> sstate (semtab boot0 i) = S_FREE"
  "heap_rep (hp boot0) [(image_end, MAXADDR - image_end - NULLSTK)]"
  "prcount boot0 = 1" "nextpid boot0 = 1" "nextsem boot0 = 0" "minheap (hp boot0) = image_end" "maxheap (hp boot0) = MAXADDR"
  "prprio (proctab boot0 0) = 0"
  by (rule sysinit_core_eq[OF image_ok_demo], simp add: boot0_def)+


definition result :: "(kstate, int) step \<Rightarrow> int" where
  "result t = (case t of Return a s \<Rightarrow> a | _ \<Rightarrow> 0)"

lemma result_simps [simp]: "result (Return a s) = a"
  by (simp add: result_def)

section \<open>A process is created and resumed\<close>

definition userret_at :: int where "userret_at = 0x80002000"
definition main_at :: int where "main_at = 0x80003000"
definition mk0 :: "(kstate, int) step" where "mk0 = create userret_at main_at 4096 20 ''first'' [] boot0"
definition pid1 :: int where "pid1 = result mk0"
definition made1 :: kstate where "made1 = after mk0"

lemma boot0_heap: "heap_rep (hp boot0) [(0x80100000, 0x1FEFE000)]"
  using boot0(8) by (simp add: image_end_def)

lemma created1:
  "mk0 = Return pid1 made1" "kinv made1" "currpid made1 = 0" "pid1 \<in> procs" "pid1 \<noteq> 0"
  "prstate (proctab made1 pid1) = PR_SUSP" "prprio (proctab made1 pid1) = 20" "queuetab made1 = queuetab boot0"
  "q \<noteq> pid1 \<Longrightarrow> proctab made1 q = proctab boot0 q" "semtab made1 = semtab boot0"
  "readylist made1 = readylist boot0" "sleepq made1 = sleepq boot0" "prcount made1 = 2"
  "prhasmsg (proctab made1 pid1) = False" "heap_rep (hp made1) [(0x80100000, 0x1FEFD000)]"
proof -
  have fit: "last_fit (roundmb (roundew (if (4096::int) < MINSTK then MINSTK else 4096))) [(0x80100000, 0x1FEFE000)] \<noteq> None"
    by (simp add: roundew_def roundmb_def Let_def)
  have free: "\<exists>p\<in>procs. prstate (proctab boot0 p) = PR_FREE" using boot0(6)[of 1] by (intro bexI[of _ 1]) auto
  have cur: "prstate (proctab boot0 0) = PR_CURR" using boot0(2,3) by (elim kinvE) simp
  note eq = create_eq[OF boot0(2) _ _ _ _ _ boot0_heap,
    where priority = 20 and ssize = 4096 and args = "[]" and initret = userret_at and procaddr = main_at
      and name = "''first''", folded mk0_def]
  have "mk0 = Return pid1 made1 \<and> kinv made1 \<and> currpid made1 = 0 \<and> pid1 \<in> procs \<and> prstate (proctab boot0 pid1) = PR_FREE \<and>
    queuetab made1 = queuetab boot0 \<and> semtab made1 = semtab boot0 \<and> readylist made1 = readylist boot0 \<and>
    sleepq made1 = sleepq boot0 \<and> prcount made1 = 2 \<and> heap_rep (hp made1) [(0x80100000, 0x1FEFD000)] \<and>
    (\<exists>b x. proctab made1 = (proctab boot0)(pid1 := (new_entry 20 b 4096 ''first'' 0 (proctab boot0 pid1))\<lparr>prstkptr := x\<rparr>))"
  proof (rule eq, goal_cases)
    case (6)
    then show ?case using fit by simp
  next
    case (7 b ys s')
    then show ?case using free by auto
  next
    case (8 b ys pid s')
    have "pid1 = pid" "made1 = s'" unfolding pid1_def made1_def 8(1) by simp_all
    moreover have "roundew (if (4096::int) < MINSTK then MINSTK else 4096) = 4096" by (simp add: roundew_def)
    moreover have "ys = [(0x80100000, 0x1FEFD000)]" using 8(13) by (simp add: roundew_def roundmb_def Let_def)
    ultimately show ?case using 8 boot0(3,9) by auto
  qed simp_all
  then show "mk0 = Return pid1 made1" "kinv made1" "currpid made1 = 0" "pid1 \<in> procs" "pid1 \<noteq> 0"
    "prstate (proctab made1 pid1) = PR_SUSP" "prprio (proctab made1 pid1) = 20" "queuetab made1 = queuetab boot0"
    "q \<noteq> pid1 \<Longrightarrow> proctab made1 q = proctab boot0 q" "semtab made1 = semtab boot0"
    "readylist made1 = readylist boot0" "sleepq made1 = sleepq boot0" "prcount made1 = 2"
    "prhasmsg (proctab made1 pid1) = False" "heap_rep (hp made1) [(0x80100000, 0x1FEFD000)]"
    using cur by (auto simp: new_entry_def)
qed

definition run1 :: kstate where "run1 = after (resume pid1 made1)"

lemma qcontents_cong: "queuetab s' = queuetab s \<Longrightarrow> qcontents s' = qcontents s"
  unfolding qcontents_def by simp

lemma lists0: "readylist boot0 = 300" "sleepq boot0 = 302"
  using boot0(2) by (elim kinvE, simp add: qlayoutD(1,2)[OF kbaseD(1)])+

definition rest1 :: "kstate \<Rightarrow> (kstate, int) step" where
  "rest1 = (case resume pid1 made1 of Switch s k \<Rightarrow> k | _ \<Rightarrow> Return 0)"

lemma run1:
  "resume pid1 made1 = Switch run1 rest1" "kinv run1" "currpid run1 = pid1" 
  "qcontents run1 300 = [0]" "qcontents run1 302 = []" "semtab run1 = semtab boot0"
  "proctab run1 pid1 = (proctab made1 pid1)\<lparr>prstate := PR_CURR\<rparr>"
  "p \<in> procs \<Longrightarrow> p \<noteq> 0 \<Longrightarrow> p \<noteq> pid1 \<Longrightarrow> prstate (proctab run1 p) = PR_FREE"
  "qkey (queuetab run1 0) = 0" "hp run1 = hp made1"
proof -
  have q: "qcontents made1 = qcontents boot0" by (rule qcontents_cong) (rule created1(8))
  have l: "readylist made1 = 300" "sleepq made1 = 302" using created1(11,12) lists0 by simp_all
  have e: "qcontents made1 300 = []" "qcontents made1 302 = []" using q boot0(4,5) lists0 by simp_all
  have z: "proctab made1 0 = proctab boot0 0" using created1(5,9) by simp
  obtain L Q1 s' k where r: "resume pid1 made1 = Switch s' k" 
    "handed_over L (readied pid1 Q1 made1) s'" "\<And>q. q \<noteq> 300 \<Longrightarrow> L q = qcontents made1 q"
    "contenders L (readied pid1 Q1 made1) = [pid1, 0]"
    by (rule resume_top[OF created1(2), of pid1])
      (use created1 boot0 l e z in \<open>auto simp: isbadpid_iff ins_desc_def\<close>)
  have s': "run1 = s'" "rest1 = k" using r(1) by (simp_all add: run1_def rest1_def)
  note H = handed_over_fields[OF r(2)] and S = handed_over_states[OF r(2)] and P = handed_over_procs[OF r(2)]
  show "resume pid1 made1 = Switch run1 rest1" using r(1) s' by simp
  have "s' = switched (hd (contenders L (readied pid1 Q1 made1))) (queuetab s') (unseated (readied pid1 Q1 made1))"
    using r(2) unfolding handed_over_def by blast
  then have "hp s' = hp (switched (hd (contenders L (readied pid1 Q1 made1))) (queuetab s') (unseated (readied pid1 Q1 made1)))"
    by (rule arg_cong)
  then show "hp run1 = hp made1" by (simp add: s' switched_def unseated_def)
  show "kinv run1" "currpid run1 = pid1" "semtab run1 = semtab boot0"
    using H(1-3) r(4) created1(10) by (simp_all add: s')
  show "qcontents run1 300 = [0]" "qcontents run1 302 = []"
    using H(7)[of 300] H(7)[of 302] r(3,4) e by (simp_all add: s')
  show "proctab run1 pid1 = (proctab made1 pid1)\<lparr>prstate := PR_CURR\<rparr>"
    using P[of pid1] S[of pid1] r(4) by (simp add: s')
  show "prstate (proctab run1 p) = PR_FREE" if "p \<in> procs" "p \<noteq> 0" "p \<noteq> pid1"
    using S[of p] that r(4) boot0(6)[of p] created1(3) created1(9)[of p] by (simp add: s')
  have "prstate (proctab made1 0) = PR_CURR" using created1(2,3) by (elim kinvE) simp
  then show "qkey (queuetab run1 0) = 0" using H(8)[of 0] created1(3,5) z boot0(14) by (simp add: s')
qed

section \<open>The process blocks\<close>

text \<open>When \<open>run1\<close> hands over, the null process is next.\<close>

lemma to_null:
  assumes "kpre L s" "ndefers s = 0" "currpid s = pid1" "prstate (proctab s pid1) \<noteq> PR_CURR" "L 300 = [0]"
  obtains s' k where "resched s = Switch s' k" "handed_over L s s'" "contenders L s = [0]"
proof -
  have "contenders L s = [0]" using assms(3-5) by (simp add: contenders_def)
  then show ?thesis using that resched_eq[OF assms(1,2)] assms(3,4) created1(5) by auto
qed

lemma run1_facts: "currpid run1 \<noteq> 0" "prstate (proctab run1 pid1) = PR_CURR" "ndefers run1 = 0"
  "readylist run1 = 300" "sleepq run1 = 302" "prhasmsg (proctab run1 pid1) = False" "prprio (proctab run1 pid1) = 20"
  using run1(2,3,7) created1(5,7,14)
  by (auto elim!: kinvE dest: qlayoutD(1,2)[OF kbaseD(1)])

lemma on_clock:
  assumes st: "st = PR_SLEEP \<or> st = PR_RECTIM" and key: "0 \<le> key" "key < 2147483648"
  obtains s1 s' k where "insertd pid1 302 key run1 = Some (OK, s1)" "currpid s1 = pid1"
    "resched (set_prstate pid1 st s1) = Switch s' k" "kinv s'" "currpid s' = 0"
    "qcontents s' 302 = [pid1]" "qkey (queuetab s' pid1) = key" "prstate (proctab s' pid1) = st" "sleepq s' = 302"
proof -
  have ds: "dsplit (\<lambda>i. qkey (queuetab run1 i)) key (qcontents run1 302) = ([], [], key)" using run1(5) by simp
  obtain Q' where Q': "insertd pid1 302 key run1 = Some (OK, run1\<lparr>queuetab := Q'\<rparr>)"
    "kpre ((qcontents run1)(302 := [pid1])) (set_prstate pid1 st (run1\<lparr>queuetab := Q'\<rparr>))"
    "\<And>i. qkey (Q' i) = (if i = pid1 then key else if ([]::int list) \<noteq> [] \<and> i = hd [] then i32 (qkey (queuetab run1 i) - key)
       else qkey (queuetab run1 i))"
    by (rule block_on_clock[OF run1(2) run1_facts(1) st ds, unfolded run1(3) run1_facts(5) append_Nil])
      (rule that, assumption+)
  have Qk: "qkey (Q' pid1) = key" unfolding Q'(3) by simp
  have "st \<noteq> PR_CURR" using st by auto
  then obtain s' k where sw: "resched (set_prstate pid1 st (run1\<lparr>queuetab := Q'\<rparr>)) = Switch s' k"
    "handed_over ((qcontents run1)(302 := [pid1])) (set_prstate pid1 st (run1\<lparr>queuetab := Q'\<rparr>)) s'"
    "contenders ((qcontents run1)(302 := [pid1])) (set_prstate pid1 st (run1\<lparr>queuetab := Q'\<rparr>)) = [0]"
    using to_null[OF Q'(2)] run1_facts(3) run1(3,4) by auto
  note H = handed_over_fields[OF sw(2)] and S = handed_over_states[OF sw(2), of pid1]
  show ?thesis
    by (rule that[OF Q'(1) _ sw(1) H(1)])
      (use H(2) H(6) H(7)[of 302] H(8)[of pid1] S sw(3) Qk created1(5) run1(3) run1_facts(5) \<open>st \<noteq> PR_CURR\<close> in auto)
qed

definition slept1 :: kstate where "slept1 = after (sleepms 5 run1)"

lemma slept1:
  "kinv slept1" "currpid slept1 = 0" "qcontents slept1 302 = [pid1]" "qkey (queuetab slept1 pid1) = 5"
  "prstate (proctab slept1 pid1) = PR_SLEEP" "sleepq slept1 = 302"
proof -
  obtain s1 s' k where r: "insertd pid1 302 5 run1 = Some (OK, s1)" "currpid s1 = pid1"
    "resched (set_prstate pid1 PR_SLEEP s1) = Switch s' k" "kinv s'" "currpid s' = 0"
    "qcontents s' 302 = [pid1]" "qkey (queuetab s' pid1) = 5" "prstate (proctab s' pid1) = PR_SLEEP" "sleepq s' = 302"
    by (rule on_clock[of PR_SLEEP 5]) (simp, simp, simp, rule that, assumption+)
  have "slept1 = s'" using r(1-3) run1(3) run1_facts(5) by (simp add: slept1_def sleepms_def)
  with r(4-9) show "kinv slept1" "currpid slept1 = 0" "qcontents slept1 302 = [pid1]" "qkey (queuetab slept1 pid1) = 5"
    "prstate (proctab slept1 pid1) = PR_SLEEP" "sleepq slept1 = 302" by simp_all
qed

definition polled1 :: kstate where "polled1 = after (recvtime 0 run1)"

lemma polled1:
  "kinv polled1" "currpid polled1 = 0" "qcontents polled1 302 = [pid1]" "qkey (queuetab polled1 pid1) = 0"
  "prstate (proctab polled1 pid1) = PR_RECTIM" "sleepq polled1 = 302"
proof -
  obtain s1 s' k where r: "insertd pid1 302 0 run1 = Some (OK, s1)" "currpid s1 = pid1"
    "resched (set_prstate pid1 PR_RECTIM s1) = Switch s' k" "kinv s'" "currpid s' = 0"
    "qcontents s' 302 = [pid1]" "qkey (queuetab s' pid1) = 0" "prstate (proctab s' pid1) = PR_RECTIM" "sleepq s' = 302"
    by (rule on_clock[of PR_RECTIM 0]) (simp, simp, simp, rule that, assumption+)
  have "polled1 = s'" using r(1-3) run1(3) run1_facts(5,6) by (simp add: polled1_def recvtime_def Let_def)
  with r(4-9) show "kinv polled1" "currpid polled1 = 0" "qcontents polled1 302 = [pid1]" "qkey (queuetab polled1 pid1) = 0"
    "prstate (proctab polled1 pid1) = PR_RECTIM" "sleepq polled1 = 302" by simp_all
qed

section \<open>A semaphore with a waiting process\<close>

definition sem1 :: int where "sem1 = result (semcreate 0 run1)"
definition with_sem :: kstate where "with_sem = after (semcreate 0 run1)"

lemma with_sem:
  "kinv with_sem" "currpid with_sem = pid1" "\<not> isbadsem sem1" "sstate (semtab with_sem sem1) = S_USED"
  "scount (semtab with_sem sem1) = 0" "queuetab with_sem = queuetab run1" "proctab with_sem = proctab run1"
proof -
  have free: "\<exists>i. \<not> isbadsem i \<and> sstate (semtab run1 i) = S_FREE"
    using boot0(7)[of 0] run1(6) by (intro exI[of _ 0]) (simp add: isbadsem_def)
  have "fst (newsem run1) \<noteq> SYSERR"
  proof
    assume n: "fst (newsem run1) = SYSERR"
    have rg: "0 \<le> nextsem run1" "nextsem run1 < NSEM" using run1(2) by (elim kinvE, simp add: kranges_def)+
    obtain i where i: "\<not> isbadsem i" "sstate (semtab run1 i) = S_FREE" using free by blast
    have "newsem_loop (nat NSEM) run1 = (SYSERR, snd (newsem run1))" using n by (simp add: newsem_def prod_eq_iff)
    moreover have "nat ((i - nextsem run1) mod NSEM) < nat NSEM" by simp
    moreover have "(nextsem run1 + int (nat ((i - nextsem run1) mod NSEM))) mod NSEM = i"
      using i by (simp add: mod_simps isbadsem_def)
    ultimately show False using newsem_loop_full[OF rg] i(2) by metis
  qed
  with semcreate_eq[OF run1(2), of 0] obtain sem m where r: "\<not> isbadsem sem"
    "semcreate 0 run1 = Return sem (upsem sem (\<lambda>e. e\<lparr>sstate := S_USED, scount := 0\<rparr>) (run1\<lparr>nextsem := m\<rparr>))" by auto
  have e: "sem1 = sem" "with_sem = upsem sem (\<lambda>e. e\<lparr>sstate := S_USED, scount := 0\<rparr>) (run1\<lparr>nextsem := m\<rparr>)"
    unfolding sem1_def with_sem_def r(2) by simp_all
  have "kcall (semcreate 0) run1" by (rule kinv_semcreate[OF run1(2)]) simp
  then show "kinv with_sem" "currpid with_sem = pid1" using run1(3) by (simp_all add: kcall_def r(2) e(2))
  show "\<not> isbadsem sem1" "sstate (semtab with_sem sem1) = S_USED" "scount (semtab with_sem sem1) = 0"
    "queuetab with_sem = queuetab run1" "proctab with_sem = proctab run1"
    using r(1) by (simp_all add: e upsem_def)
qed

definition waited1 :: kstate where "waited1 = after (wait sem1 with_sem)"

lemma waited1:
  "kinv waited1" "currpid waited1 = 0" "sstate (semtab waited1 sem1) = S_USED" "sem_view waited1 sem1 = (- 1, [pid1])"
  "scount (semtab waited1 sem1) = - 1"
proof -
  have q: "qcontents with_sem = qcontents run1" by (rule qcontents_cong) (rule with_sem(6))
  have n: "currpid with_sem \<noteq> 0" using with_sem(2) created1(5) by simp
  have kb: "kbase {} (qcontents with_sem) with_sem" using with_sem(1) by (elim kinvE) simp
  note sq = sem_queue[OF kb with_sem(3)]
  have "ksems (qcontents with_sem) with_sem" using with_sem(1) by (elim kinvE) simp
  then have e: "qcontents with_sem (squeue (semtab with_sem sem1)) = []"
    using ksemsD(1)[of "qcontents with_sem" with_sem sem1] with_sem(3-5) by simp
  obtain s2 where w: "wait sem1 with_sem = bindk (resched s2) (\<lambda>_ s. Return OK s)" "currpid s2 = currpid with_sem"
    "ndefers s2 = 0"
    "kpre ((qcontents with_sem)(squeue (semtab with_sem sem1) := qcontents with_sem (squeue (semtab with_sem sem1)) @ [currpid with_sem])) s2"
    "semtab s2 = (semtab with_sem)(sem1 := (semtab with_sem sem1)\<lparr>scount := scount (semtab with_sem sem1) - 1\<rparr>)"
    "proctab s2 = (proctab with_sem)(currpid with_sem := (proctab with_sem (currpid with_sem))\<lparr>prstate := PR_WAIT, prsem := sem1\<rparr>)"
    by (rule wait_blocks_eq[OF with_sem(1,3) _ _ n]) (simp_all add: with_sem(4,5))
  let ?L = "(qcontents with_sem)(squeue (semtab with_sem sem1) := [pid1])"
  have pre: "kpre ?L s2" using w(4) e with_sem(2) by simp
  obtain s' k where sw: "resched s2 = Switch s' k" "handed_over ?L s2 s'" "contenders ?L s2 = [0]"
    by (rule to_null[OF pre w(3)]) (use w(2,6) with_sem(2) q run1(4) sq in auto)
  have s': "waited1 = s'" by (simp add: waited1_def w(1) sw(1))
  note H = handed_over_fields[OF sw(2)]
  have st: "semtab s' sem1 = (semtab with_sem sem1)\<lparr>scount := - 1\<rparr>" using H(3) w(5) with_sem(5) by simp
  show "kinv waited1" "currpid waited1 = 0" "sstate (semtab waited1 sem1) = S_USED" "scount (semtab waited1 sem1) = - 1"
    using H(1,2) sw(3) st with_sem(4) by (simp_all add: s')
  show "sem_view waited1 sem1 = (- 1, [pid1])"
    using H(7)[OF sq(1)] sq(2) by (simp add: s' sem_view_def st)
qed

section \<open>A run of the system\<close>

definition no_drivers :: drivers where "no_drivers = (\<lambda>_ _ _ s. Return OK s)"

lemma closes_ok_demo: "closes_ok no_drivers"
  by (simp add: closes_ok_def no_drivers_def kcall_def)

lemma reachable_run1:
  obtains \<sigma> where "reachable no_drivers image_at image_end \<sigma>" "fst \<sigma> = run1"
proof -
  let ?r = "reachable no_drivers image_at image_end" and ?\<sigma>0 = "(boot0, \<lambda>_. None) :: sys"
  have r0: "?r ?\<sigma>0" by (rule reachable.booted[OF boot0(1)])
  let ?c = "Create userret_at main_at 4096 20 ''first'' []"
  have "sys_step no_drivers ?\<sigma>0 (suspended 0 None made1 ?\<sigma>0)"
    by (rule sys_step.call[of _ ?c]) (simp_all add: boot0(3) created1(1)[unfolded mk0_def])
  then have r1: "?r (suspended 0 None made1 ?\<sigma>0)" by (rule reachable.step[OF r0])
  have "sys_step no_drivers (suspended 0 None made1 ?\<sigma>0)
      (suspended 0 (Some rest1) run1 (suspended 0 None made1 ?\<sigma>0))"
    by (rule sys_step.call[of _ "Resume pid1"]) (simp_all add: suspended_def created1(3) run1(1))
  then have "?r (suspended 0 (Some rest1) run1 (suspended 0 None made1 ?\<sigma>0))" by (rule reachable.step[OF r1])
  then show ?thesis using that by (simp add: suspended_def)
qed

section \<open>Witnesses\<close>

lemma sysinit_establishes_witness:
  "image_ok image_at image_end \<and> (\<exists>s. sysinit_core image_end (static_state image_at) = Some s \<and> kinv s)"
  using sysinit_establishes[OF image_ok_demo] image_ok_demo by blast

lemma reachable_safe_witness:
  "\<exists>\<sigma>. reachable no_drivers image_at image_end \<sigma> \<and> kinv (fst \<sigma>) \<and> exec no_drivers Receive (fst \<sigma>) \<noteq> Fault"
proof -
  obtain \<sigma> where r: "reachable no_drivers image_at image_end \<sigma>" "fst \<sigma> = run1" by (rule reachable_run1)
  from reachable_safe[OF r(1) closes_ok_demo image_ok_demo]
  have "kinv (fst \<sigma>)" "admissible Receive (fst \<sigma>) \<longrightarrow> exec no_drivers Receive (fst \<sigma>) \<noteq> Fault" by blast+
  then show ?thesis using r run1_facts(1) by (intro exI[of _ \<sigma>]) simp
qed

lemma reachable_queues_witness:
  "\<exists>\<sigma>. reachable no_drivers image_at image_end \<sigma> \<and> prstate (proctab (fst \<sigma>) pid1) = PR_CURR \<and>
     prstate (proctab (fst \<sigma>) 0) = PR_READY"
proof -
  obtain \<sigma> where r: "reachable no_drivers image_at image_end \<sigma>" "fst \<sigma> = run1" by (rule reachable_run1)
  from reachable_queues[OF r(1) closes_ok_demo image_ok_demo refl] r show ?thesis
    using created1(4) run1(3,4) run1_facts(4) by (intro exI[of _ \<sigma>]) auto
qed

lemma resched_policy_witness:
  "kinv run1 \<and> hd [pid1, 0] = currpid run1 \<and> resched run1 = Return () run1"
proof -
  have "ins_desc (\<lambda>i. qkey (queuetab run1 i)) 20 pid1 [0] = [pid1, 0]" using run1(9) by (simp add: ins_desc_def)
  then show ?thesis using resched_policy[OF run1(2)] run1(2-4) run1_facts(4,7) by simp
qed

lemma resume_preempts_witness:
  "kinv made1 \<and> (\<exists>s' k. resume pid1 made1 = Switch s' k \<and> currpid s' = pid1 \<and> prstate (proctab s' 0) = PR_READY)"
proof -
  have l: "readylist made1 = readylist boot0" "qcontents made1 = qcontents boot0"
    by (rule created1(11), rule qcontents_cong[OF created1(8)])
  have p: "\<not> isbadpid made1 pid1" using created1(4,6) by (simp add: isbadpid_iff)
  have z: "prprio (proctab made1 0) = 0" using created1(5,9) boot0(14) by simp
  have "\<exists>s' k. resume pid1 made1 = Switch s' k \<and> currpid s' = pid1 \<and> prstate (proctab s' 0) = PR_READY"
  proof -
    have t: "prprio (proctab made1 (currpid made1)) \<le> prprio (proctab made1 pid1)" using created1(3,7) z by simp
    have b: "\<forall>q\<in>set (qcontents made1 (readylist made1)). qkey (queuetab made1 q) < prprio (proctab made1 pid1)"
      using l boot0(4) by simp
    show ?thesis
      using resume_preempts[OF created1(2) p created1(6) t b] created1(3,5) by (metis (full_types))
  qed
  then show ?thesis using created1(2) by blast
qed

lemma sleepms_joins_witness:
  "kinv run1 \<and> (\<exists>s2. sleepms 5 run1 = bindk (resched s2) (\<lambda>_ s. Return OK s) \<and> sleepers s2 = [(pid1, 5)])"
proof -
  have s: "sleepers run1 = []" using run1(5) run1_facts(5) by (simp add: sleepers_def)
  have d: "delta_ok (\<lambda>i. qkey (queuetab run1 i)) (qcontents run1 (sleepq run1))"
    using run1(5) run1_facts(5) by (simp add: delta_ok_def)
  from sleepms_joins[OF run1(2) run1_facts(1) _ _ d, of 5] s run1(2,3) show ?thesis by auto
qed

lemma slept_ok: "delta_ok (\<lambda>i. qkey (queuetab slept1 i)) (qcontents slept1 (sleepq slept1))"
    "delta_ok (\<lambda>i. qkey (queuetab polled1 i)) (qcontents polled1 (sleepq polled1))"
  using slept1 polled1 by (simp_all add: delta_ok_def)

lemma clock_tick_witness:
  "\<exists>s'. clkhandler True (slept1\<lparr>count1000 := 1\<rparr>) = bindk (Return () s') (\<lambda>_ t.
       let t = t\<lparr>preempt := u32 (preempt t - 1)\<rparr> in if preempt t = 0 then resched (t\<lparr>preempt := QUANTUM\<rparr>) else Return () t) \<and>
     kinv s' \<and> sleepers s' = [(pid1, 4)] \<and> clktime s' = u32 (clktime slept1 + 1) \<and> count1000 s' = 1000"
proof -
  let ?s = "slept1\<lparr>count1000 := 1\<rparr>"
  have k: "kinv ?s" by (rule kinv_fields[OF slept1(1)]) simp_all
  have e: "qcontents ?s = qcontents slept1" by (simp add: qcontents_def fun_eq_iff)
  have q: "qcontents ?s (sleepq ?s) = pid1 # []" "0 < qkey (queuetab ?s pid1)" using slept1 e by simp_all
  have s: "sleepers ?s = [(pid1, 5)]" using slept1 e by (simp add: sleepers_def)
  have "delta_ok (\<lambda>i. qkey (queuetab ?s i)) (qcontents ?s (sleepq ?s))" using slept_ok(1) e by simp
  from clock_tick[OF k this q] s show ?thesis by auto
qed

lemma wakeup_releases_witness:
  "kinv polled1 \<and> (\<exists>s'. wakeup polled1 = resched s' \<and> sleepers s' = [] \<and> prstate (proctab s' pid1) = PR_READY)"
proof -
  have s: "sleepers polled1 = [(pid1, 0)]" using polled1 by (simp add: sleepers_def)
  from wakeup_releases[OF polled1(1) slept_ok(2)] s polled1(1) show ?thesis by auto
qed

lemma unsleep_keeps_times_witness:
  "kinv slept1 \<and> (\<exists>s'. unsleep pid1 slept1 = Some (OK, s') \<and> sleepers s' = [])"
proof -
  have p: "\<not> isbadpid slept1 pid1" using created1(4) slept1(5) by (simp add: isbadpid_iff)
  have s: "sleepers slept1 = [(pid1, 5)]" using slept1 by (simp add: sleepers_def)
  from unsleep_keeps_times[OF slept1(1) p disjI1[OF slept1(5)] slept_ok(1)] s slept1(1) show ?thesis by auto
qed

lemma zero_delay_blocks_clock_witness:
  "\<exists>s'. ((\<lambda>r. Option.bind r (\<lambda>s. proceeds (clkhandler True s))) ^^ 1000) (Some polled1) = Some s' \<and>
     qcontents s' (sleepq s') = [pid1] \<and> qkey (queuetab s' pid1) = - 1000 \<and> prstate (proctab s' pid1) = PR_RECTIM"
proof -
  have "qcontents polled1 (sleepq polled1) = pid1 # []" using polled1 by simp
  from zero_delay_blocks_clock[OF polled1(1) this, of 1000] polled1(4,5) show ?thesis by auto
qed

lemma wait_refines_witness:
  "kinv with_sem \<and> (\<exists>s2. wait sem1 with_sem = bindk (resched s2) (\<lambda>_ s. Return OK s) \<and>
     sem_view s2 sem1 = spec_wait pid1 (sem_view with_sem sem1))"
  using wait_refines[OF with_sem(1,3)] with_sem created1(5) by force

lemma signal_refines_witness:
  "kinv waited1 \<and> (\<exists>s2. signal sem1 waited1 = bindk (resched s2) (\<lambda>_ s. Return OK s) \<and> sem_view s2 sem1 = (0, []) \<and>
     prstate (proctab s2 pid1) = PR_READY)"
proof -
  from signal_refines[OF waited1(1) with_sem(3)] waited1(3-5)
  have "\<exists>s2. sem_view s2 sem1 = (0, []) \<and> signal sem1 waited1 = bindk (resched s2) (\<lambda>_ s. Return OK s) \<and>
     prstate (proctab s2 pid1) = PR_READY"
    by (auto simp: spec_signal_def)
  then show ?thesis using waited1(1) by blast
qed

lemma signaln_is_n_signals_witness:
  "kinv waited1 \<and> (\<exists>s2. signaln sem1 (int 3) waited1 = bindk (resched_cntl DEFER_STOP s2) (\<lambda>_ s. Return OK s) \<and>
     sem_view s2 sem1 = (2, []) \<and> released [pid1] waited1 s2)"
  using signaln_is_n_signals[OF waited1(1) with_sem(3), of 3] waited1 by (auto simp: spec_signal_funpow)

lemma semdelete_releases_all_witness:
  "kinv waited1 \<and> (\<exists>s2. semdelete sem1 waited1 = bindk (resched_cntl DEFER_STOP s2) (\<lambda>_ s. Return OK s) \<and>
     sstate (semtab s2 sem1) = S_FREE \<and> released [pid1] waited1 s2)"
  using semdelete_releases_all[OF waited1(1) with_sem(3)] waited1 by auto

lemma semreset_releases_all_witness:
  "kinv waited1 \<and> (\<exists>s2. semreset sem1 7 waited1 = bindk (resched_cntl DEFER_STOP s2) (\<lambda>_ s. Return OK s) \<and>
     sem_view s2 sem1 = (7, []) \<and> released [pid1] waited1 s2)"
  using semreset_releases_all[OF waited1(1) with_sem(3), of 7] waited1 by auto

lemma semcreate_correct_witness:
  "kinv run1 \<and> (case semcreate 3 run1 of Return sem s' \<Rightarrow> sem = SYSERR \<or> sem_view s' sem = (3, []) | _ \<Rightarrow> False)"
  using semcreate_correct[OF run1(2), of 3] run1(2) by (auto split: step.splits)

lemma send_correct_witness:
  "kinv run1 \<and> (\<exists>s2. send pid1 42 run1 = Return OK s2 \<and> prmsg (proctab s2 pid1) = 42)"
proof -
  have "\<not> isbadpid run1 pid1" using kinv_isbadpid[OF run1(2)] run1(3) by simp
  then show ?thesis using send_correct[OF run1(2), of pid1 42] run1(2) run1_facts(2,6) by auto
qed

lemma receive_correct_witness:
  "kinv run1 \<and> (\<exists>s' k. receive run1 = Switch s' k \<and> prstate (proctab s' pid1) = PR_RECV)"
proof -
  from receive_correct[OF run1(2) run1_facts(1)] run1(3) run1_facts(6)
  have "\<exists>s' k. receive run1 = Switch s' k \<and> prstate (proctab s' pid1) = PR_RECV" by auto
  then show ?thesis using run1(2) by blast
qed

lemma boot_block: "(0x80100000, 0x1FEFE000) \<in> set [(0x80100000::int, 0x1FEFE000::int)]"
  "roundmb (roundew (if (1000::int) < MINSTK then MINSTK else 1000)) \<le> 0x1FEFE000"
  by (simp_all add: roundew_def roundmb_def Let_def)

lemma create_correct_witness:
  "kinv boot0 \<and> (\<exists>pid s'. create userret_at main_at 1000 5 ''shell'' [1, 2] boot0 = Return pid s' \<and>
     prstate (proctab s' pid) = PR_SUSP \<and> prprio (proctab s' pid) = 5)"
proof -
  have free: "1 \<in> procs" "prstate (proctab boot0 1) = PR_FREE" using boot0(6)[of 1] by simp_all
  have "\<exists>pid s'. create userret_at main_at 1000 5 ''shell'' [1, 2] boot0 = Return pid s' \<and>
     prstate (proctab s' pid) = PR_SUSP \<and> prprio (proctab s' pid) = 5"
    using create_correct[OF boot0(2) _ _ _ _ _ boot0_heap boot_block free, of 5 "[1, 2]" userret_at main_at "''shell''"]
    by auto
  then show ?thesis using boot0(2) by blast
qed

lemma create_leaks_stack_witness:
  "kinv boot0 \<and> (\<exists>s' ys. create userret_at main_at 1000 0 ''shell'' [] boot0 = Return SYSERR s' \<and>
     heap_rep (hp s') ys \<and> bytes ys \<subset> bytes [(0x80100000, 0x1FEFE000)])"
proof -
  have "\<exists>s' ys. create userret_at main_at 1000 0 ''shell'' [] boot0 = Return SYSERR s' \<and>
     heap_rep (hp s') ys \<and> bytes ys \<subset> bytes [(0x80100000, 0x1FEFE000)]"
    using create_leaks_stack[OF boot0(2) _ _ _ _ _ boot0_heap boot_block, of 0 "[]" userret_at main_at "''shell''"]
    by auto
  then show ?thesis using boot0(2) by blast
qed

text \<open>The heap theorems, on the first heap.\<close>

lemma getmem_correct_witness:
  "heap_rep (hp boot0) [(0x80100000, 0x1FEFE000)] \<and>
   (\<exists>b h'. heap_getmem 100 (hp boot0) = Some (b, h') \<and> b mod 8 = 0)"
  using getmem_correct[OF boot0_heap, of 100] boot0_heap by auto

lemma freemem_correct_witness:
  "heap_freemem 0x80100000 8 (hp boot0) = Some (SYSERR, hp boot0)"
  using freemem_correct[OF boot0_heap, of 8 "0x80100000"] boot0(12,13)
  by (simp add: image_end_def roundmb_def Let_def region_def)

lemma getmem_freemem_witness:
  "\<exists>b h1 h2. heap_getmem 100 (hp boot0) = Some (b, h1) \<and> heap_freemem b 100 h1 = Some (OK, h2) \<and>
     heap_rep h2 [(0x80100000, 0x1FEFE000)]"
proof -
  obtain h1 where "heap_getmem 100 (hp boot0) = Some (0x80100000, h1)"
    using heap_getmem_eq[OF boot0_heap, of 100] by (auto simp: roundmb_def Let_def)
  then show ?thesis using getmem_freemem[OF boot0_heap, of 100 "0x80100000" h1] by (auto simp: u32_def)
qed

lemma getstk_freestk_witness:
  "\<exists>p h1 h2. heap_getstk 100 (hp boot0) = Some (p, h1) \<and> heap_freestk p 100 h1 = Some (OK, h2) \<and>
     heap_rep h2 [(0x80100000, 0x1FEFE000)]"
proof -
  obtain h1 where "heap_getstk 100 (hp boot0) = Some (0x9FFFDFFC, h1)"
    using heap_getstk_eq[OF boot0_heap, of 100] by (auto simp: roundmb_def Let_def)
  then show ?thesis using getstk_freestk[OF boot0_heap, of 100 "0x9FFFDFFC" h1] by (auto simp: u32_def)
qed

lemma getmem_wraps_witness:
  "\<exists>h'. heap_getmem 4294967295 (hp boot0) = Some (0x80100000, h') \<and> heap_rep h' [(0x80100000, 0x1FEFE000)]"
  using getmem_wraps[OF boot0_heap] by simp

lemma device_calls_guarded_witness:
  "isbaddev 28 \<and> dev_read no_drivers 28 0 0 boot0 = Return SYSERR boot0"
  using device_calls_guarded[where drv = no_drivers and d = 28 and s = boot0] by (simp add: isbaddev_def NDEVS_def)

end
