(* ===== verification/Bufpool.thy ===== *)
theory Bufpool
  imports Process Sem_Spec
begin

text \<open>
  Buffer pools (\<^verbatim>\<open>mkbufpool.c\<close>, \<^verbatim>\<open>getbuf.c\<close>, \<^verbatim>\<open>freebuf.c\<close>) and memory marks (\<^verbatim>\<open>mark.c\<close>). A free buffer
  has the address of the next one in its first word; a buffer in use has the number of its pool
  there, and its user is given the address behind that word. A semaphore counts the free buffers of
  a pool.
\<close>

section \<open>The code\<close>

definition NBPOOLS :: int where [simp]: "NBPOOLS = 20"
definition BP_MAXB :: int where [simp]: "BP_MAXB = 8192"
definition BP_MINB :: int where [simp]: "BP_MINB = 8"
definition BP_MAXN :: int where [simp]: "BP_MAXN = 2048"

definition setword :: "int \<Rightarrow> int \<Rightarrow> kstate \<Rightarrow> kstate" where
  "setword a v s = s\<lparr>hp := (hp s)\<lparr>mem := (mem (hp s))(a := v)\<rparr>\<rparr>"

definition upbuf :: "int \<Rightarrow> (bpentry \<Rightarrow> bpentry) \<Rightarrow> kstate \<Rightarrow> kstate" where
  "upbuf i f s = s\<lparr>buftab := (buftab s)(i := f (buftab s i))\<rparr>"

text \<open>The loop that links \<open>n + 1\<close> buffers of \<open>sz\<close> bytes from \<open>buf\<close> on, and the null link of the last.\<close>

primrec link_bufs :: "nat \<Rightarrow> int \<Rightarrow> int \<Rightarrow> kstate \<Rightarrow> kstate" where
  "link_bufs 0 buf sz s = setword buf NULL s"
| "link_bufs (Suc n) buf sz s = link_bufs n (buf + sz) sz (setword buf (buf + sz) s)"

text \<open>\<^verbatim>\<open>mkbufpool\<close> after \<^verbatim>\<open>semcreate\<close> has returned \<open>sem\<close>.\<close>

definition mkbufpool_link :: "int \<Rightarrow> int \<Rightarrow> int \<Rightarrow> int \<Rightarrow> int \<Rightarrow> kstate \<Rightarrow> (kstate, int) step" where
  "mkbufpool_link poolid buf bufsiz numbufs sem s =
    (let s = upbuf poolid (\<lambda>e. e\<lparr>bpsem := sem\<rparr>) s in
     if sem = SYSERR then
       (case heap_freemem buf (u32 (numbufs * (bufsiz + 4))) (hp s) of
          None \<Rightarrow> Fault
        | Some (_, h) \<Rightarrow> Return SYSERR (s\<lparr>hp := h, nbpools := nbpools s - 1\<rparr>))
     else Return poolid (link_bufs (nat (numbufs - 1)) buf (bufsiz + 4) s))"

definition mkbufpool :: "int \<Rightarrow> int \<Rightarrow> kstate \<Rightarrow> (kstate, int) step" where
  "mkbufpool bufsiz numbufs s =
    (if bufsiz < BP_MINB \<or> bufsiz > BP_MAXB \<or> numbufs < 1 \<or> numbufs > BP_MAXN \<or> nbpools s \<ge> NBPOOLS
     then Return SYSERR s
     else let bufsiz = roundew bufsiz in
       case heap_getmem (u32 (numbufs * (bufsiz + 4))) (hp s) of
         None \<Rightarrow> Fault
       | Some (buf, h) \<Rightarrow>
         if i32 buf = SYSERR then Return SYSERR (s\<lparr>hp := h\<rparr>)
         else
           let poolid = nbpools s;
               s = s\<lparr>hp := h, nbpools := nbpools s + 1\<rparr>;
               s = upbuf poolid (\<lambda>e. e\<lparr>bpnext := buf, bpsize := bufsiz\<rparr>) s
           in bindk (semcreate numbufs s) (mkbufpool_link poolid buf bufsiz numbufs))"

text \<open>\<^verbatim>\<open>getbuf\<close> ignores the value of \<^verbatim>\<open>wait\<close>.\<close>

definition take_buf :: "int \<Rightarrow> kstate \<Rightarrow> int \<times> kstate" where
  "take_buf poolid s =
    (let bufptr = bpnext (buftab s poolid);
         s = upbuf poolid (\<lambda>e. e\<lparr>bpnext := mem (hp s) bufptr\<rparr>) s;
         s = setword bufptr poolid s
     in (bufptr + 4, s))"

definition getbuf :: "int \<Rightarrow> kstate \<Rightarrow> (kstate, int) step" where
  "getbuf poolid s =
    (if poolid < 0 \<or> poolid \<ge> nbpools s then Return SYSERR s
     else bindk (wait (bpsem (buftab s poolid)) s) (\<lambda>_ s. case take_buf poolid s of (b, s) \<Rightarrow> Return b s))"

definition give_buf :: "int \<Rightarrow> int \<Rightarrow> kstate \<Rightarrow> kstate" where
  "give_buf poolid bufaddr s =
    upbuf poolid (\<lambda>e. e\<lparr>bpnext := bufaddr\<rparr>) (setword bufaddr (bpnext (buftab s poolid)) s)"

definition freebuf :: "int \<Rightarrow> kstate \<Rightarrow> (kstate, int) step" where
  "freebuf bufaddr s =
    (let bufaddr = bufaddr - 4; poolid = i32 (mem (hp s) bufaddr) in
     if poolid < 0 \<or> poolid \<ge> nbpools s then Return SYSERR s
     else let s = give_buf poolid bufaddr s in
       bindk (signal (bpsem (buftab s poolid)) s) (\<lambda>_ s. Return OK s))"

definition MAXMARK :: int where [simp]: "MAXMARK = 20"

text \<open>\<^verbatim>\<open>marks\<close> holds addresses of words; \<^verbatim>\<open>notmarked\<close> is the test of the macro.\<close>

definition notmarked :: "int \<Rightarrow> kstate \<Rightarrow> bool" where
  "notmarked loc s \<longleftrightarrow> (let i = i32 (mem (hp s) loc) in i < 0 \<or> i \<ge> nmarks s \<or> marks s i \<noteq> loc)"

definition markinit :: "kstate \<Rightarrow> (kstate, unit) step" where
  "markinit s = bindk (semcreate 1 (s\<lparr>nmarks := 0\<rparr>)) (\<lambda>sem s. Return () (s\<lparr>mkmutex := sem\<rparr>))"

text \<open>
  \<^verbatim>\<open>mark\<close> tests whether the table is full before it waits; if others have filled it meanwhile, the
  store goes beyond the end of \<^verbatim>\<open>marks\<close>, which is undefined.
\<close>

definition set_mark :: "int \<Rightarrow> kstate \<Rightarrow> (kstate, unit) step" where
  "set_mark loc s =
    (if nmarks s \<ge> MAXMARK then Fault
     else let i = nmarks s in
       Return () ((setword loc i s)\<lparr>nmarks := i + 1, marks := (marks s)(i := loc)\<rparr>))"

definition mark :: "int \<Rightarrow> kstate \<Rightarrow> (kstate, int) step" where
  "mark loc s =
    (let i = i32 (mem (hp s) loc) in
     if i \<ge> 0 \<and> i < nmarks s \<and> marks s i = loc then Return OK s
     else if nmarks s \<ge> MAXMARK then Return SYSERR s
     else bindk (wait (mkmutex s) s) (\<lambda>_ s. bindk (set_mark loc s) (\<lambda>_ s.
       bindk (signal (mkmutex s) s) (\<lambda>_ s. Return OK s))))"

section \<open>Linked lists in memory\<close>

text \<open>\<open>linked m k p xs\<close>: the links at offset \<open>k\<close> lead from \<open>p\<close> through the addresses \<open>xs\<close> to the null pointer.\<close>

primrec linked :: "(int \<Rightarrow> int) \<Rightarrow> int \<Rightarrow> int \<Rightarrow> int list \<Rightarrow> bool" where
  "linked m k p [] \<longleftrightarrow> p = 0"
| "linked m k p (x # xs) \<longleftrightarrow> p = x \<and> x \<noteq> 0 \<and> linked m k (m (x + k)) xs"

lemma linked_upd: "a - k \<notin> set xs \<Longrightarrow> linked (m(a := v)) k p xs = linked m k p xs"
  by (induction xs arbitrary: p) auto

lemma linked_head: "linked m k p xs \<Longrightarrow> p = (case xs of [] \<Rightarrow> 0 | x # _ \<Rightarrow> x)"
  by (cases xs) auto

lemma linked_extend:
  assumes "linked m k p xs" "distinct (xs @ ys)" "linked m k v ys" "xs \<noteq> []"
  shows "linked (m(last xs + k := v)) k p (xs @ ys)"
  using assms
proof (induction xs arbitrary: p)
  case (Cons x xs)
  show ?case
  proof (cases "xs = []")
    case True
    have "linked (m(x + k := v)) k v ys" using Cons.prems by (subst linked_upd) auto
    then show ?thesis using True Cons.prems by (simp del: fun_upd_apply add: fun_upd_same)
  next
    case False
    moreover have "last xs \<noteq> x" using Cons.prems(2) False last_in_set by fastforce
    ultimately show ?thesis using Cons by auto
  qed
qed simp
section \<open>Memory of the kernel outside the free list\<close>

lemma setword_fields [simp]:
  "queuetab (setword a v s) = queuetab s" "proctab (setword a v s) = proctab s" "semtab (setword a v s) = semtab s"
  "readylist (setword a v s) = readylist s" "sleepq (setword a v s) = sleepq s" "currpid (setword a v s) = currpid s"
  "nbpools (setword a v s) = nbpools s" "buftab (setword a v s) = buftab s" "ptfree (setword a v s) = ptfree s"
  "porttab (setword a v s) = porttab s" "nmarks (setword a v s) = nmarks s" "marks (setword a v s) = marks s"
  "mkmutex (setword a v s) = mkmutex s" "ptnextid (setword a v s) = ptnextid s"
  "mem (hp (setword a v s)) = (mem (hp s))(a := v)" "minheap (hp (setword a v s)) = minheap (hp s)"
  "maxheap (hp (setword a v s)) = maxheap (hp s)"
  by (simp_all add: setword_def)

lemma upbuf_fields [simp]:
  "queuetab (upbuf i f s) = queuetab s" "proctab (upbuf i f s) = proctab s" "semtab (upbuf i f s) = semtab s"
  "readylist (upbuf i f s) = readylist s" "sleepq (upbuf i f s) = sleepq s" "currpid (upbuf i f s) = currpid s"
  "nbpools (upbuf i f s) = nbpools s" "buftab (upbuf i f s) = (buftab s)(i := f (buftab s i))"
  "hp (upbuf i f s) = hp s" "nextsem (upbuf i f s) = nextsem s" "nextpid (upbuf i f s) = nextpid s"
  "ndefers (upbuf i f s) = ndefers s"
  by (simp_all add: upbuf_def)

lemma upsem_kept [simp]:
  "buftab (upsem i f s) = buftab s" "nbpools (upsem i f s) = nbpools s" "porttab (upsem i f s) = porttab s"
  "ptfree (upsem i f s) = ptfree s" "marks (upsem i f s) = marks s" "nmarks (upsem i f s) = nmarks s"
  "mkmutex (upsem i f s) = mkmutex s" "ptnextid (upsem i f s) = ptnextid s"
  by (simp_all add: upsem_def)

lemma kinv_upbuf: "kinv s \<Longrightarrow> kinv (upbuf i f s)"
  by (erule kinv_fields) simp_all

text \<open>A word that no free block contains may be written.\<close>

definition writable :: "flist \<Rightarrow> kstate \<Rightarrow> int \<Rightarrow> bool" where
  "writable fl s w \<longleftrightarrow> heap_rep (hp s) fl \<and> w \<notin> bytes fl \<and> minheap (hp s) \<le> w"

lemma writable_setword: "writable fl s w \<Longrightarrow> heap_rep (hp (setword w v s)) fl"
  using heap_rep_write[of "hp s" fl w v] by (simp add: writable_def setword_def)

lemma kinv_setword: "kinv s \<Longrightarrow> writable fl s w \<Longrightarrow> kinv (setword w v s)"
  using kinv_hp[of s "hp (setword w v s)"] writable_setword[of fl s w v]
  by (auto simp: heap_ok_def setword_def)

lemma writable_step: "writable fl s w \<Longrightarrow> writable fl s u \<Longrightarrow> writable fl (setword w v s) u"
  using writable_setword[of fl s w v] by (simp add: writable_def)

lemma writable_upbuf [simp]: "writable fl (upbuf i f s) w = writable fl s w"
  by (simp add: writable_def)

lemma getmem_kinv:
  assumes inv: "kinv s" and fl: "heap_rep (hp s) fl" and n: "0 < n" "n < 4294967288"
  obtains (full) "heap_getmem n (hp s) = Some (u32 SYSERR, hp s)"
  | (block) b h ys where "heap_getmem n (hp s) = Some (b, h)" "kinv (s\<lparr>hp := h\<rparr>)" "heap_rep h ys"
      "region b (roundmb n) \<union> bytes ys = bytes fl" "region b (roundmb n) \<inter> bytes ys = {}" "b mod 8 = 0"
      "minheap (hp s) \<le> b" "b + roundmb n \<le> maxheap (hp s)" "minheap h = minheap (hp s)" "maxheap h = maxheap (hp s)"
proof -
  have ap: "apart (minheap (hp s)) fl (maxheap (hp s))" using fl by (simp add: heap_rep_def)
  have rn: "0 < roundmb n" using roundmb_nat[of n] n by auto
  show ?thesis
  proof (cases "first_fit (roundmb n) fl")
    case None
    then show ?thesis using heap_getmem_eq[OF fl n] full by auto
  next
    case (Some r)
    obtain b ys where bys: "r = (b, ys)" by (cases r)
    obtain h where h: "heap_getmem n (hp s) = Some (b, h)" "heap_rep h ys" "minheap h = minheap (hp s)" "maxheap h = maxheap (hp s)"
      using heap_getmem_eq[OF fl n] Some bys by auto
    note B = first_fit_bytes[OF ap Some[unfolded bys] rn]
    have "kinv (s\<lparr>hp := h\<rparr>)" using kinv_hp[OF inv, of h] h by (auto simp: heap_ok_def)
    then show ?thesis using block[OF h(1) _ h(2) B h(3,4)] by blast
  qed
qed

lemma aligned_no_syserr: "b mod 8 = 0 \<Longrightarrow> i32 b \<noteq> SYSERR"
proof -
  assume b: "b mod 8 = 0"
  obtain q where "i32 b = b + q * 4294967296" using i32_quot by blast
  moreover have "b + q * 4294967296 = b + (q * 536870912) * 8" by simp
  then have "(b + q * 4294967296) mod 8 = b mod 8" by (simp only: mod_mult_self1)
  ultimately show ?thesis using b by auto
qed

lemma freemem_maxheap:
  assumes "heap_rep h xs" "0 < n" "n < 4294967288" "b mod 8 = 0" "b + roundmb n \<le> maxheap h"
    "heap_freemem b n h = Some (r, h')"
  shows "maxheap h' = maxheap h"
  using heap_freemem_eq[OF assms(1-5)] assms(6) by (auto split: if_splits option.splits)

section \<open>Pools\<close>

text \<open>The free buffers of a pool, in the order in which they are handed out.\<close>

definition pool_list :: "kstate \<Rightarrow> int \<Rightarrow> int list \<Rightarrow> bool" where
  "pool_list s i xs \<longleftrightarrow> linked (mem (hp s)) 0 (bpnext (buftab s i)) xs \<and> distinct xs"

lemma take_buf_eq:
  assumes "pool_list s i (x # xs)" "take_buf i s = (b, s')"
  shows "b = x + 4 \<and> pool_list s' i xs \<and> mem (hp s') x = i \<and>
    s' = setword x i (upbuf i (\<lambda>e. e\<lparr>bpnext := mem (hp s) x\<rparr>) s)"
  using assms by (auto simp: pool_list_def take_buf_def Let_def linked_upd)

lemma give_buf_eq:
  assumes "pool_list s i xs" "b \<notin> set xs" "b \<noteq> 0"
  shows "pool_list (give_buf i b s) i (b # xs)"
  using assms by (auto simp: pool_list_def give_buf_def linked_upd)

lemma kinv_take_buf:
  assumes "kinv s" "pool_list s i (x # xs)" "writable fl s x" "take_buf i s = (b, s')"
  shows "kinv s' \<and> heap_rep (hp s') fl"
  using assms take_buf_eq[OF assms(2,4)] kinv_setword[of "upbuf i (\<lambda>e. e\<lparr>bpnext := mem (hp s) x\<rparr>) s" fl x i]
    writable_setword[of fl "upbuf i (\<lambda>e. e\<lparr>bpnext := mem (hp s) x\<rparr>) s" x i]
  by (simp add: kinv_upbuf)

text \<open>\<open>n\<close> buffers of \<open>sz\<close> bytes, one behind the other.\<close>

primrec slots :: "int \<Rightarrow> int \<Rightarrow> nat \<Rightarrow> int list" where
  "slots b sz 0 = []"
| "slots b sz (Suc n) = b # slots (b + sz) sz n"

lemma slots_range: "0 < sz \<Longrightarrow> x \<in> set (slots b sz n) \<Longrightarrow> b \<le> x \<and> x + sz \<le> b + int n * sz"
proof (induction n arbitrary: b)
  case (Suc n)
  have "0 \<le> int n * sz" using Suc.prems(1) by simp
  then show ?case using Suc by (fastforce simp: algebra_simps)
qed simp

lemma length_slots [simp]: "length (slots b sz n) = n"
  by (induction n arbitrary: b) auto

lemma slots_distinct: "0 < sz \<Longrightarrow> distinct (slots b sz n)"
  using slots_range by (induction n arbitrary: b) fastforce+

lemma link_bufs_eq:
  assumes "0 < sz" "0 < buf"
  shows "\<exists>m. link_bufs n buf sz s = s\<lparr>hp := (hp s)\<lparr>mem := m\<rparr>\<rparr> \<and> linked m 0 buf (slots buf sz (Suc n)) \<and>
    (\<forall>a. a \<notin> set (slots buf sz (Suc n)) \<longrightarrow> m a = mem (hp s) a)"
  using assms
proof (induction n arbitrary: buf s)
  case 0
  then show ?case by (intro exI[of _ "(mem (hp s))(buf := 0)"] conjI) (simp add: setword_def del: fun_upd_apply, simp_all)
next
  case (Suc n)
  let ?s = "setword buf (buf + sz) s"
  obtain m where m: "link_bufs n (buf + sz) sz ?s = ?s\<lparr>hp := (hp ?s)\<lparr>mem := m\<rparr>\<rparr>"
      "linked m 0 (buf + sz) (slots (buf + sz) sz (Suc n))"
      "\<And>a. a \<notin> set (slots (buf + sz) sz (Suc n)) \<Longrightarrow> m a = mem (hp ?s) a"
    using Suc.IH[of "buf + sz" ?s] Suc.prems by auto
  have "buf \<notin> set (slots (buf + sz) sz (Suc n))" using slots_range[OF Suc.prems(1)] Suc.prems(1) by fastforce
  then have "m buf = buf + sz" using m(3)[of buf] by simp
  then show ?case using m Suc.prems by (intro exI[of _ m]) (auto simp: setword_def)
qed

lemma kinv_link_bufs:
  "kinv s \<Longrightarrow> \<forall>w\<in>set (slots buf sz (Suc n)). writable fl s w \<Longrightarrow>
   kinv (link_bufs n buf sz s) \<and> heap_rep (hp (link_bufs n buf sz s)) fl"
proof (induction n arbitrary: buf s)
  case 0
  then show ?case by (simp add: kinv_setword writable_setword)
next
  case (Suc n)
  let ?s = "setword buf (buf + sz) s"
  have w: "writable fl s buf" "\<forall>w\<in>set (slots (buf + sz) sz (Suc n)). writable fl s w" using Suc.prems(2) by simp_all
  have "kinv (link_bufs n (buf + sz) sz ?s) \<and> heap_rep (hp (link_bufs n (buf + sz) sz ?s)) fl"
    by (rule Suc.IH) (use w Suc.prems(1) kinv_setword writable_step in blast)+
  then show ?case by simp
qed

text \<open>A pool and its semaphore: as many free buffers as the count says, unless somebody waits.\<close>

definition pool_ok :: "kstate \<Rightarrow> int \<Rightarrow> int list \<Rightarrow> bool" where
  "pool_ok s i xs \<longleftrightarrow> pool_list s i xs \<and> \<not> isbadsem (bpsem (buftab s i)) \<and>
     sstate (semtab s (bpsem (buftab s i))) = S_USED \<and> scount (semtab s (bpsem (buftab s i))) = int (length xs)"

lemma mkbufpool_run:
  assumes inv: "kinv s" and np: "0 \<le> nbpools s"
    and args: "BP_MINB \<le> bufsiz" "bufsiz \<le> BP_MAXB" "1 \<le> numbufs" "numbufs \<le> BP_MAXN" "nbpools s < NBPOOLS"
    and rep: "heap_rep (hp s) fl"
  shows "case mkbufpool bufsiz numbufs s of
      Return r s' \<Rightarrow> kinv s' \<and> currpid s' = currpid s \<and>
        (r = SYSERR \<and> nbpools s' = nbpools s \<and> heap_rep (hp s') fl \<and> semtab s' = semtab s \<and>
           (heap_getmem (numbufs * (roundew bufsiz + 4)) (hp s) = Some (u32 SYSERR, hp s) \<or>
            (\<forall>i. \<not> isbadsem i \<longrightarrow> sstate (semtab s i) = S_USED)) \<or>
         r = nbpools s \<and> nbpools s' = nbpools s + 1 \<and>
         (\<exists>buf sz ys. bufsiz + 4 \<le> sz \<and> sz mod 4 = 0 \<and> pool_ok s' r (slots buf sz (nat numbufs)) \<and>
            (\<forall>x \<in> set (slots buf sz (nat numbufs)). writable ys s' x) \<and> region buf (numbufs * sz) \<subseteq> bytes fl \<and> region buf (numbufs * sz) \<inter> bytes ys = {}))
    | _ \<Rightarrow> False"
proof -
  let ?bs = "roundew bufsiz" let ?sz = "?bs + 4" let ?n = "numbufs * ?sz" let ?i = "nbpools s"
  have bs: "bufsiz \<le> ?bs" "?bs < bufsiz + 4" "?bs mod 4 = 0" using roundew_spec[of bufsiz] args by simp_all
  have "?n \<le> 2048 * 8200" using args bs by (intro mult_mono) auto
  moreover have "1 * 4 \<le> ?n" using args bs by (intro mult_mono) auto
  ultimately have n: "0 < ?n" "?n < 4294967288" "u32 ?n = ?n" by simp_all
  have guard: "\<not> (bufsiz < BP_MINB \<or> bufsiz > BP_MAXB \<or> numbufs < 1 \<or> numbufs > BP_MAXN \<or> nbpools s \<ge> NBPOOLS)"
    using args by simp
  show ?thesis
    using inv rep n(1,2)
  proof (cases rule: getmem_kinv)
    case full
    have "i32 (u32 SYSERR) = SYSERR" by (simp add: u32_def i32_def)
    then have "mkbufpool bufsiz numbufs s = Return SYSERR s"
      unfolding mkbufpool_def if_not_P[OF guard] Let_def n(3) full by simp
    then show ?thesis using inv rep full by simp
  next
    case (block b h ys)
    have rn: "?n \<le> roundmb ?n" using roundmb_nat[of ?n] n by simp
    have nz: "i32 b \<noteq> SYSERR" by (rule aligned_no_syserr[OF block(6)])
    have b0: "0 < b" using block(7) rep by (simp add: heap_rep_def frame_ok_def)
    let ?s1 = "upbuf ?i (\<lambda>e. e\<lparr>bpnext := b, bpsize := ?bs\<rparr>) (s\<lparr>hp := h, nbpools := nbpools s + 1\<rparr>)"
    have k1: "kinv ?s1" by (intro kinv_upbuf kinv_fields[OF block(2)]) simp_all
    have mk: "mkbufpool bufsiz numbufs s = bindk (semcreate numbufs ?s1) (mkbufpool_link ?i b ?bs numbufs)"
      unfolding mkbufpool_def if_not_P[OF guard] Let_def n(3) using nz by (simp add: block(1))
    consider (none) m where "semcreate numbufs ?s1 = Return SYSERR (?s1\<lparr>nextsem := m\<rparr>)" "kinv (?s1\<lparr>nextsem := m\<rparr>)"
          "fst (newsem ?s1) = SYSERR"
      | (sem) sem m where "\<not> isbadsem sem" "semcreate numbufs ?s1 = Return sem
          (upsem sem (\<lambda>e. e\<lparr>sstate := S_USED, scount := numbufs\<rparr>) (?s1\<lparr>nextsem := m\<rparr>))"
      using semcreate_eq[OF k1, of numbufs] args by auto
    then show ?thesis
    proof cases
      case none
      obtain h2 where h2: "heap_freemem b ?n h = Some (OK, h2)" "heap_rep h2 fl"
        using freemem_restores[OF block(3,6) _ _ n(1,2) rep block(4,5)] block(7-10) by auto
      let ?s2 = "upbuf ?i (\<lambda>e. e\<lparr>bpsem := SYSERR\<rparr>) (?s1\<lparr>nextsem := m\<rparr>)"
      have "mkbufpool bufsiz numbufs s = Return SYSERR (?s2\<lparr>hp := h2, nbpools := nbpools ?s2 - 1\<rparr>)"
        using none(1) h2(1) by (simp add: mk mkbufpool_link_def Let_def n(3))
      moreover have "maxheap h2 = maxheap h"
        by (rule freemem_maxheap[OF block(3) n(1,2) block(6) _ h2(1)]) (use block in simp)
      then have "kinv (?s2\<lparr>hp := h2\<rparr>)"
        using kinv_hp[OF kinv_upbuf[OF none(2)], of h2] h2(2) by (auto simp: heap_ok_def)
      then have "kinv (?s2\<lparr>hp := h2, nbpools := nbpools ?s2 - 1\<rparr>)" by (rule kinv_fields) simp_all
      moreover have "\<forall>i. \<not> isbadsem i \<longrightarrow> sstate (semtab s i) = S_USED" using newsem_full[OF k1 none(3)] by simp
      ultimately show ?thesis using h2(2) by simp
    next
      case sem
      let ?s2 = "upbuf ?i (\<lambda>e. e\<lparr>bpsem := sem\<rparr>) (upsem sem (\<lambda>e. e\<lparr>sstate := S_USED, scount := numbufs\<rparr>) (?s1\<lparr>nextsem := m\<rparr>))"
      let ?s3 = "link_bufs (nat (numbufs - 1)) b ?sz ?s2" let ?xs = "slots b ?sz (nat numbufs)"
      have N: "nat numbufs = Suc (nat (numbufs - 1))" using args by simp
      have k2: "kinv ?s2"
        using kinv_semcreate[OF k1, of numbufs] sem(2) args by (intro kinv_upbuf) (simp add: kcall_def)
      have sz: "0 < ?sz" using bs args by simp
      have xs: "b \<le> x" "x < b + ?n" if "x \<in> set ?xs" for x using slots_range[OF sz that] sz args by auto
      have sub: "region b ?n \<subseteq> region b (roundmb ?n)" using rn by (auto simp: region_def)
      have out: "region b ?n \<inter> bytes ys = {}" "region b ?n \<subseteq> bytes fl"
        using block(4,5) sub by blast+
      have w2: "writable ys ?s2 w" if w: "w \<in> set ?xs" for w
      proof -
        have "w \<in> region b ?n" "minheap (hp s) \<le> w" using xs[OF w] block(7) by (simp_all add: region_def)
        then show ?thesis using out(1) block(3,9) by (auto simp: writable_def)
      qed
      with w2 have k3: "kinv ?s3" "heap_rep (hp ?s3) ys" using kinv_link_bufs[OF k2, of b ?sz "nat (numbufs - 1)" ys] N by simp_all
      obtain mm where mm: "?s3 = ?s2\<lparr>hp := (hp ?s2)\<lparr>mem := mm\<rparr>\<rparr>" "linked mm 0 b ?xs"
        using link_bufs_eq[OF sz b0, of "nat (numbufs - 1)" ?s2] N by auto
      have w3: "\<forall>x \<in> set ?xs. writable ys ?s3 x" using w2 k3(2) mm(1) by (simp add: writable_def)
      have "pool_ok ?s3 ?i ?xs"
        using mm sem(1) slots_distinct[OF sz] args by (simp add: pool_ok_def pool_list_def length_slots)
      moreover have "sem \<noteq> SYSERR" using sem(1) by (auto simp: isbadsem_def)
      then have "mkbufpool bufsiz numbufs s = Return ?i ?s3" using sem(2) by (simp add: mk mkbufpool_link_def Let_def)
      moreover have "nbpools ?s3 = nbpools s + 1" "currpid ?s3 = currpid s" using mm(1) by (simp_all add: upsem_def)
      moreover from calculation(1) have "\<exists>buf sz ys. bufsiz + 4 \<le> sz \<and> sz mod 4 = 0 \<and> pool_ok ?s3 ?i (slots buf sz (nat numbufs)) \<and>
            (\<forall>x \<in> set (slots buf sz (nat numbufs)). writable ys ?s3 x) \<and> region buf (numbufs * sz) \<subseteq> bytes fl \<and> region buf (numbufs * sz) \<inter> bytes ys = {}"
        using w3 out bs by (intro exI[of _ b] exI[of _ ?sz] exI[of _ ys] conjI) simp_all
      ultimately show ?thesis using k3(1) by (simp only: step.case) blast
    qed
  qed
qed

text \<open>\<^verbatim>\<open>mkbufpool\<close> either fails, with the number of pools, the free storage and the semaphores as they
  were, because the storage or the semaphores are used up, or makes a pool of the requested number of buffers: they lie one behind the other in storage
  that was free, each with room for the requested size and the pool's number, all are on the list of
  free buffers, and the semaphore counts them.\<close>

theorem mkbufpool_correct:
  assumes inv: "kinv s" and np: "0 \<le> nbpools s"
    and args: "BP_MINB \<le> bufsiz" "bufsiz \<le> BP_MAXB" "1 \<le> numbufs" "numbufs \<le> BP_MAXN" "nbpools s < NBPOOLS"
    and rep: "heap_rep (hp s) fl"
  shows "case mkbufpool bufsiz numbufs s of
      Return r s' \<Rightarrow> kinv s' \<and> currpid s' = currpid s \<and>
        (r = SYSERR \<and> nbpools s' = nbpools s \<and> heap_rep (hp s') fl \<and> semtab s' = semtab s \<and>
           (heap_getmem (numbufs * (roundew bufsiz + 4)) (hp s) = Some (u32 SYSERR, hp s) \<or>
            (\<forall>i. \<not> isbadsem i \<longrightarrow> sstate (semtab s i) = S_USED)) \<or>
         r = nbpools s \<and> nbpools s' = nbpools s + 1 \<and>
         (\<exists>buf sz ys. bufsiz + 4 \<le> sz \<and> sz mod 4 = 0 \<and> pool_ok s' r (slots buf sz (nat numbufs)) \<and>
            (\<forall>x \<in> set (slots buf sz (nat numbufs)). writable ys s' x) \<and> region buf (numbufs * sz) \<subseteq> bytes fl \<and> region buf (numbufs * sz) \<inter> bytes ys = {}))
    | _ \<Rightarrow> False"
  by (rule mkbufpool_run[OF assms])

text \<open>Taking a buffer from a pool that has one and giving it back leaves the list of free buffers, in
  its order, and the count of the pool as they were; in between the buffer is on no list, carries the
  number of its pool, and the kernel's invariant holds. Nobody is suspended.\<close>

theorem getbuf_freebuf:
  assumes inv: "kinv s" and i: "0 \<le> i" "i < nbpools s" "nbpools s \<le> NBPOOLS" and pool: "pool_ok s i (x # xs)"
    and null: "currpid s \<noteq> 0" and len: "int (length (x # xs)) < 2147483647" and w: "writable fl s x"
  shows "\<exists>s1 s2. getbuf i s = Return (x + 4) s1 \<and> kinv s1 \<and> pool_ok s1 i xs \<and> mem (hp s1) x = i \<and>
    freebuf (x + 4) s1 = Return OK s2 \<and> kinv s2 \<and> pool_ok s2 i (x # xs)"
proof -
  let ?sem = "bpsem (buftab s i)"
  have sem: "\<not> isbadsem ?sem" "sstate (semtab s ?sem) = S_USED" and c: "scount (semtab s ?sem) = int (length xs) + 1"
    and pl: "pool_list s i (x # xs)" using pool by (simp_all add: pool_ok_def)
  let ?s0 = "upsem ?sem (\<lambda>e. e\<lparr>scount := i32 (scount e - 1)\<rparr>) s"
  have dec: "i32 (scount (semtab s ?sem) - 1) = int (length xs)" using c len by simp
  have wt: "wait ?sem s = Return OK ?s0" using sem c len by (simp add: wait_def Let_def)
  have k0: "kinv ?s0" using kinv_wait[OF inv null, of ?sem] wt by (simp add: kcall_def)
  have pl0: "pool_list ?s0 i (x # xs)" using pl by (simp add: pool_list_def upsem_def)
  obtain b s1 where tb: "take_buf i ?s0 = (b, s1)" by fastforce
  note t = take_buf_eq[OF pl0 tb]
  have w0: "writable fl ?s0 x" using w by (simp add: writable_def upsem_def)
  note k1 = kinv_take_buf[OF k0 pl0 w0 tb]
  have s1: "semtab s1 = semtab ?s0" "nbpools s1 = nbpools s" "bpsem (buftab s1 i) = ?sem" "minheap (hp s1) = minheap (hp s)"
    using t by (simp_all add: upsem_def)
  have "scount (semtab s1 ?sem) = int (length xs)" "sstate (semtab s1 ?sem) = S_USED"
    using s1(1) sem dec by (simp_all add: upsem_def)
  moreover have "pool_list s1 i xs" using t by blast
  ultimately have p1: "pool_ok s1 i xs" using s1(3) sem(1) by (simp add: pool_ok_def)
  have g: "getbuf i s = Return (x + 4) s1" using i t wt tb by (simp add: getbuf_def)
  let ?s2 = "give_buf i x s1" let ?s3 = "upsem ?sem (\<lambda>e. e\<lparr>scount := i32 (scount e + 1)\<rparr>) ?s2"
  have w1: "writable fl s1 x" using k1 w s1(4) by (simp add: writable_def)
  have k2: "kinv ?s2" using kinv_upbuf[OF kinv_setword[OF _ w1]] k1 by (simp add: give_buf_def)
  have x: "x \<notin> set xs" "x \<noteq> 0" using pl by (auto simp: pool_list_def)
  have p2: "pool_list ?s2 i (x # xs)" by (rule give_buf_eq[OF _ x]) (use t in blast)
  have f2: "semtab ?s2 = semtab s1" "bpsem (buftab ?s2 i) = ?sem" using s1(3) by (simp_all add: give_buf_def)
  have c2: "scount (semtab ?s2 ?sem) = int (length xs)" "sstate (semtab ?s2 ?sem) = S_USED"
    using f2 s1(1) dec sem by (simp_all add: upsem_def)
  have sg: "signal ?sem ?s2 = Return OK ?s3" using sem c2 by (simp add: signal_def signal_once_def Let_def)
  have "kinv ?s3" using kinv_signal[OF k2, of ?sem] c2 len sg by (simp add: kcall_def)
  moreover have "pool_ok ?s3 i (x # xs)"
    using p2 sem c2 len f2 by (simp add: pool_ok_def pool_list_def upsem_def)
  moreover have "i32 (mem (hp s1) x) = i" using t i by simp
  then have "freebuf (x + 4) s1 = Return OK ?s3" using i s1(2) sg f2(2) by (simp add: freebuf_def Let_def)
  ultimately show ?thesis using g k1 p1 t by blast
qed

end
