(* ===== verification/Fifo.thy ===== *)
theory Fifo
  imports Main
begin

text \<open>
  The contract of a bounded first-in-first-out queue, which the message queues of the ports and the
  ring buffers of the terminal driver fulfil, and ring buffers in general.
\<close>

section \<open>Bounded FIFO queues\<close>

text \<open>
  The contract of a bounded queue: \<open>rep s xs n\<close> says that the state \<open>s\<close> holds \<open>xs\<close> and has room for \<open>n\<close>
  more. An operation that does not return at once is undefined here.
\<close>

fun enq_all :: "('a \<Rightarrow> 's \<Rightarrow> 's option) \<Rightarrow> 'a list \<Rightarrow> 's \<Rightarrow> 's option" where
  "enq_all e [] s = Some s"
| "enq_all e (x # xs) s = Option.bind (e x s) (enq_all e xs)"

fun deq_all :: "('s \<Rightarrow> ('a \<times> 's) option) \<Rightarrow> nat \<Rightarrow> 's \<Rightarrow> ('a list \<times> 's) option" where
  "deq_all d 0 s = Some ([], s)"
| "deq_all d (Suc n) s = Option.bind (d s) (\<lambda>(x, s). map_option (apfst ((#) x)) (deq_all d n s))"

locale fifo =
  fixes rep :: "'s \<Rightarrow> 'a list \<Rightarrow> nat \<Rightarrow> bool"
    and enq :: "'a \<Rightarrow> 's \<Rightarrow> 's option"
    and deq :: "'s \<Rightarrow> ('a \<times> 's) option"
  assumes enq: "rep s xs (Suc n) \<Longrightarrow> \<exists>s'. enq x s = Some s' \<and> rep s' (xs @ [x]) n"
    and deq: "rep s (x # xs) n \<Longrightarrow> \<exists>s'. deq s = Some (x, s') \<and> rep s' xs (Suc n)"
begin

lemma enq_all: "rep s xs (length ys + n) \<Longrightarrow> \<exists>s'. enq_all enq ys s = Some s' \<and> rep s' (xs @ ys) n"
proof (induction ys arbitrary: s xs)
  case (Cons y ys)
  then obtain s1 where s1: "enq y s = Some s1" "rep s1 (xs @ [y]) (length ys + n)"
    using enq[of s xs "length ys + n" y] by auto
  then show ?case using Cons.IH[OF s1(2)] by simp
qed simp

lemma deq_all: "rep s (xs @ ys) n \<Longrightarrow> \<exists>s'. deq_all deq (length xs) s = Some (xs, s') \<and> rep s' ys (n + length xs)"
proof (induction xs arbitrary: s n)
  case (Cons x xs)
  then obtain s1 where s1: "deq s = Some (x, s1)" "rep s1 (xs @ ys) (Suc n)" using deq[of s x "xs @ ys" n] by auto
  then show ?case using Cons.IH[OF s1(2)] by simp
qed simp

lemma in_order:
  assumes "rep s xs (length ys + n)"
  shows "\<exists>s1 s2. enq_all enq ys s = Some s1 \<and> deq_all deq (length xs + length ys) s1 = Some (xs @ ys, s2) \<and>
    rep s2 [] (n + length xs + length ys)"
proof -
  obtain s1 where s1: "enq_all enq ys s = Some s1" "rep s1 (xs @ ys) n" using enq_all[OF assms] by blast
  then show ?thesis using deq_all[of s1 "xs @ ys" "[]" n] by (auto simp: add.assoc)
qed

end

text \<open>
  A queue of items that are places in memory, of which a reader gets what they contain: \<open>view s x\<close>. The
  condition \<open>fits s xs\<close> on all the items, those queued and those to come, keeps them apart from each
  other and from the storage the operations write to.
\<close>

locale item_queue =
  fixes rep :: "'s \<Rightarrow> 'b list \<Rightarrow> nat \<Rightarrow> bool"
    and fits :: "'s \<Rightarrow> 'b list \<Rightarrow> bool"
    and view :: "'s \<Rightarrow> 'b \<Rightarrow> 'a"
    and enq :: "'b \<Rightarrow> 's \<Rightarrow> 's option"
    and deq :: "'s \<Rightarrow> ('a \<times> 's) option"
  assumes enq: "rep s xs (Suc n) \<Longrightarrow> fits s (xs @ x # ys) \<Longrightarrow>
      \<exists>s'. enq x s = Some s' \<and> rep s' (xs @ [x]) n \<and> fits s' (xs @ x # ys) \<and> map (view s') (xs @ x # ys) = map (view s) (xs @ x # ys)"
    and deq: "rep s (x # xs) n \<Longrightarrow> fits s (x # xs) \<Longrightarrow>
      \<exists>s'. deq s = Some (view s x, s') \<and> rep s' xs (Suc n) \<and> fits s' xs \<and> map (view s') xs = map (view s) xs"
begin

lemma enq_all: "rep s xs (length ys + n) \<Longrightarrow> fits s (xs @ ys) \<Longrightarrow>
    \<exists>s'. enq_all enq ys s = Some s' \<and> rep s' (xs @ ys) n \<and> fits s' (xs @ ys) \<and> map (view s') (xs @ ys) = map (view s) (xs @ ys)"
proof (induction ys arbitrary: s xs)
  case (Cons y ys)
  then obtain s1 where s1: "enq y s = Some s1" "rep s1 (xs @ [y]) (length ys + n)" "fits s1 ((xs @ [y]) @ ys)"
    "map (view s1) (xs @ y # ys) = map (view s) (xs @ y # ys)"
    using enq[of s xs "length ys + n" y ys] by auto
  obtain s' where "enq_all enq ys s1 = Some s'" "rep s' ((xs @ [y]) @ ys) n" "fits s' ((xs @ [y]) @ ys)"
    "map (view s') ((xs @ [y]) @ ys) = map (view s1) ((xs @ [y]) @ ys)" using Cons.IH[OF s1(2,3)] by blast
  then show ?case using s1(1,4) by simp
qed simp

lemma deq_all: "rep s xs n \<Longrightarrow> fits s xs \<Longrightarrow>
    \<exists>s'. deq_all deq (length xs) s = Some (map (view s) xs, s') \<and> rep s' [] (n + length xs) \<and> fits s' []"
proof (induction xs arbitrary: s n)
  case (Cons x xs)
  then obtain s1 where s1: "deq s = Some (view s x, s1)" "rep s1 xs (Suc n)" "fits s1 xs" "map (view s1) xs = map (view s) xs"
    using deq[of s x xs n] by blast
  then show ?case using Cons.IH[OF s1(2,3)] by auto
qed simp

lemma in_order:
  assumes "rep s xs (length ys + n)" "fits s (xs @ ys)"
  shows "\<exists>s1 s2. enq_all enq ys s = Some s1 \<and> deq_all deq (length xs + length ys) s1 = Some (map (view s) (xs @ ys), s2) \<and>
    rep s2 [] (n + length xs + length ys) \<and> fits s2 []"
proof -
  obtain s1 where s1: "enq_all enq ys s = Some s1" "rep s1 (xs @ ys) n" "fits s1 (xs @ ys)"
    "map (view s1) (xs @ ys) = map (view s) (xs @ ys)" using enq_all[OF assms] by blast
  obtain s2 where "deq_all deq (length (xs @ ys)) s1 = Some (map (view s1) (xs @ ys), s2)" "rep s2 [] (n + length (xs @ ys))" "fits s2 []"
    using deq_all[OF s1(2,3)] by blast
  then show ?thesis using s1(1,4) by (simp add: add.assoc)
qed

end

text \<open>A queue of plain values is the case in which an item is its own content.\<close>

sublocale fifo \<subseteq> items: item_queue rep "\<lambda>_ _. True" "\<lambda>_ x. x" enq deq
  by unfold_locales (use enq deq in fastforce)+

section \<open>Ring buffers\<close>

text \<open>
  \<open>ring B b h t xs\<close>: the \<open>B\<close> places of the buffer \<open>b\<close> hold \<open>xs\<close> from \<open>h\<close> on, going round at the end,
  and \<open>t\<close> is the place behind. A full and an empty buffer have \<open>h = t\<close>.
\<close>

definition ring :: "int \<Rightarrow> (int \<Rightarrow> int) \<Rightarrow> int \<Rightarrow> int \<Rightarrow> int list \<Rightarrow> bool" where
  "ring B b h t xs \<longleftrightarrow> 0 \<le> h \<and> h < B \<and> t = (h + int (length xs)) mod B \<and> int (length xs) \<le> B \<and>
     (\<forall>i < length xs. b ((h + int i) mod B) = xs ! i)"

text \<open>The pointer that goes to the next place, or back to the first.\<close>

definition advance :: "int \<Rightarrow> int \<Rightarrow> int" where
  "advance B p = (if p + 1 \<ge> B then 0 else p + 1)"

lemma advance_mod: "0 \<le> p \<Longrightarrow> p < B \<Longrightarrow> advance B p = (p + 1) mod B"
  by (cases "p + 1 = B") (auto simp: advance_def)

lemma ring_bounds:
  assumes "ring B b h t xs"
  shows "0 \<le> h" "h < B" "0 \<le> t" "t < B" "int (length xs) \<le> B"
  using assms by (auto simp: ring_def)

lemma ring_places:
  assumes "i < j" "int j < B" "(0::int) \<le> h" "h < B"
  shows "(h + int i) mod B \<noteq> (h + int j) mod B"
proof
  assume "(h + int i) mod B = (h + int j) mod B"
  then have "B dvd int j - int i" using mod_eq_dvd_iff[of "h + int j" B "h + int i"] by simp
  then show False using assms zdvd_not_zless[of "int j - int i" B] by auto
qed

lemma ring_append:
  assumes r: "ring B b h t xs" and room: "int (length xs) < B"
  shows "ring B (b(t := x)) h (advance B t) (xs @ [x])"
proof -
  have h: "0 \<le> h" "h < B" and t: "t = (h + int (length xs)) mod B" using r by (auto simp: ring_def)
  have "(b(t := x)) ((h + int i) mod B) = (xs @ [x]) ! i" if i: "i < Suc (length xs)" for i
  proof (cases "i = length xs")
    case False
    then have "i < length xs" using i by simp
    then show ?thesis using r ring_places[of i "length xs" B h] room h by (simp add: ring_def nth_append)
  qed (simp add: t)
  moreover have "advance B t = (h + int (length (xs @ [x]))) mod B"
    using advance_mod[of t B] ring_bounds[OF r] t by (simp add: mod_simps algebra_simps)
  ultimately show ?thesis using room h by (simp add: ring_def)
qed

lemma ring_pop:
  assumes r: "ring B b h t (x # xs)"
  shows "b h = x" "ring B b (advance B h) t xs"
proof -
  have h: "0 \<le> h" "h < B" and t: "t = (h + (1 + int (length xs))) mod B" and len: "1 + int (length xs) \<le> B"
    and b: "\<And>i. i < Suc (length xs) \<Longrightarrow> b ((h + int i) mod B) = (x # xs) ! i" using r by (auto simp: ring_def)
  show "b h = x" using b[of 0] h by simp
  have a: "advance B h = (h + 1) mod B" by (rule advance_mod[OF h])
  have "b ((advance B h + int i) mod B) = xs ! i" if "i < length xs" for i
    using b[of "Suc i"] that by (simp add: a mod_simps algebra_simps)
  moreover have "t = (advance B h + int (length xs)) mod B" by (simp add: a t mod_simps algebra_simps)
  ultimately show "ring B b (advance B h) t xs" using a h len by (simp add: ring_def)
qed

text \<open>Taking places back from the end, which is how a line is edited.\<close>

lemma ring_cut:
  assumes r: "ring B b h t (xs @ ys)" and t': "t' = (if t - int (length ys) < 0 then t - int (length ys) + B else t - int (length ys))"
  shows "ring B b h t' xs"
proof -
  have h: "0 \<le> h" "h < B" and t: "t = (h + int (length xs) + int (length ys)) mod B" and len: "int (length xs) + int (length ys) \<le> B"
    and b: "\<And>i. i < length xs + length ys \<Longrightarrow> b ((h + int i) mod B) = (xs @ ys) ! i" using r by (auto simp: ring_def add.assoc)
  have "t' mod B = (t - int (length ys)) mod B" by (simp add: t')
  also have "\<dots> = (h + int (length xs)) mod B" by (simp add: t mod_simps)
  finally have "t' mod B = (h + int (length xs)) mod B" .
  moreover have "0 \<le> t' \<and> t' < B \<or> t' = B"
    using ring_bounds[OF r] len by (auto simp: t')
  moreover have "t' \<noteq> B" using ring_bounds[OF r] by (auto simp: t')
  ultimately have "t' = (h + int (length xs)) mod B" by auto
  then show ?thesis using h len b by (auto simp: ring_def nth_append)
qed

end
