(* ===== verification/Ports.thy ===== *)
theory Ports
  imports Bufpool Fifo
begin

text \<open>
  Ports (\<^verbatim>\<open>system/pt*.c\<close>): bounded queues of one-word messages between processes. The messages of all
  ports are kept in nodes from one pool; a node at address \<open>a\<close> has its message at \<open>a\<close> and its link at
  \<open>a + 4\<close>. Each port has a semaphore that counts free places and one that counts messages.
  \<^verbatim>\<open>panic\<close> does not return and is a fault.
\<close>

section \<open>The code\<close>

definition NPORTS :: int where [simp]: "NPORTS = 30"

definition isbadport :: "int \<Rightarrow> bool" where
  "isbadport portid \<longleftrightarrow> portid < 0 \<or> portid \<ge> NPORTS"

definition uport :: "int \<Rightarrow> (ptentry \<Rightarrow> ptentry) \<Rightarrow> kstate \<Rightarrow> kstate" where
  "uport i f s = s\<lparr>porttab := (porttab s)(i := f (porttab s i))\<rparr>"

primrec ptinit_ports :: "nat \<Rightarrow> int \<Rightarrow> kstate \<Rightarrow> kstate" where
  "ptinit_ports 0 i s = s"
| "ptinit_ports (Suc n) i s = ptinit_ports n (i + 1) (uport i (\<lambda>e. e\<lparr>ptstate := PT_FREE, ptseq := 0\<rparr>) s)"

text \<open>The loop that links \<open>n + 1\<close> nodes from \<open>cur\<close> on, and the null link of the last.\<close>

primrec ptinit_nodes :: "nat \<Rightarrow> int \<Rightarrow> kstate \<Rightarrow> kstate" where
  "ptinit_nodes 0 cur s = setword (cur + 4) NULL s"
| "ptinit_nodes (Suc n) cur s = ptinit_nodes n (cur + 8) (setword (cur + 4) (cur + 8) s)"

definition ptinit :: "int \<Rightarrow> kstate \<Rightarrow> (kstate, int) step" where
  "ptinit maxmsgs s =
    (case heap_getmem (u32 (maxmsgs * 8)) (hp s) of
       None \<Rightarrow> Fault
     | Some (p, h) \<Rightarrow>
       let s = s\<lparr>hp := h, ptfree := p\<rparr> in
       if p = u32 SYSERR then Fault
       else let s = ptinit_ports (nat NPORTS) 0 s; s = s\<lparr>ptnextid := 0\<rparr>
            in Return OK (ptinit_nodes (nat (maxmsgs - 1)) p s))"

text \<open>The search of \<^verbatim>\<open>ptcreate\<close> for a free entry, with \<open>n\<close> entries to go.\<close>

primrec ptcreate_scan :: "nat \<Rightarrow> kstate \<Rightarrow> int option \<times> kstate" where
  "ptcreate_scan 0 s = (None, s)"
| "ptcreate_scan (Suc n) s =
    (let ptnum = ptnextid s; s = s\<lparr>ptnextid := (if ptnum + 1 \<ge> NPORTS then 0 else ptnum + 1)\<rparr> in
     if ptstate (porttab s ptnum) = PT_FREE then (Some ptnum, s) else ptcreate_scan n s)"

definition ptcreate :: "int \<Rightarrow> kstate \<Rightarrow> (kstate, int) step" where
  "ptcreate count s =
    (if count < 0 then Return SYSERR s
     else case ptcreate_scan (nat NPORTS) s of
       (None, s) \<Rightarrow> Return SYSERR s
     | (Some ptnum, s) \<Rightarrow>
       let s = uport ptnum (\<lambda>e. e\<lparr>ptstate := PT_ALLOC\<rparr>) s in
       bindk (semcreate count s) (\<lambda>ssem s.
       bindk (semcreate 0 (uport ptnum (\<lambda>e. e\<lparr>ptssem := ssem\<rparr>) s)) (\<lambda>rsem s.
         Return ptnum (uport ptnum (\<lambda>e. e\<lparr>ptrsem := rsem, pthead := NULL, pttail := NULL,
           ptseq := i32 (ptseq e + 1), ptmaxcnt := u16 count\<rparr>) s))))"

text \<open>Taking a node off the free list, filling it and linking it to the tail of the port's queue.\<close>

definition pt_enqueue :: "int \<Rightarrow> int \<Rightarrow> kstate \<Rightarrow> kstate" where
  "pt_enqueue portid msg s =
    (let msgnode = ptfree s;
         s = s\<lparr>ptfree := mem (hp s) (msgnode + 4)\<rparr>;
         s = setword msgnode msg (setword (msgnode + 4) NULL s);
         tailnode = pttail (porttab s portid)
     in if tailnode = NULL then uport portid (\<lambda>e. e\<lparr>pthead := msgnode, pttail := msgnode\<rparr>) s
        else uport portid (\<lambda>e. e\<lparr>pttail := msgnode\<rparr>) (setword (tailnode + 4) msgnode s))"

text \<open>\<^verbatim>\<open>ptsend\<close> after the value \<open>r\<close> of \<^verbatim>\<open>wait\<close>.\<close>

definition ptsend_rest :: "int \<Rightarrow> int \<Rightarrow> int \<Rightarrow> int \<Rightarrow> kstate \<Rightarrow> (kstate, int) step" where
  "ptsend_rest portid msg seq r s =
    (if r = SYSERR \<or> ptstate (porttab s portid) \<noteq> PT_ALLOC \<or> ptseq (porttab s portid) \<noteq> seq
     then Return SYSERR s
     else if ptfree s = NULL then Fault
     else let s = pt_enqueue portid msg s in
       bindk (signal (ptrsem (porttab s portid)) s) (\<lambda>_ s. Return OK s))"

definition ptsend :: "int \<Rightarrow> int \<Rightarrow> kstate \<Rightarrow> (kstate, int) step" where
  "ptsend portid msg s =
    (if isbadport portid \<or> ptstate (porttab s portid) \<noteq> PT_ALLOC then Return SYSERR s
     else bindk (wait (ptssem (porttab s portid)) s) (ptsend_rest portid msg (ptseq (porttab s portid))))"

text \<open>Unlinking the first node of the port's queue and returning it to the free list.\<close>

definition pt_dequeue :: "int \<Rightarrow> kstate \<Rightarrow> int \<times> kstate" where
  "pt_dequeue portid s =
    (let msgnode = pthead (porttab s portid);
         msg = mem (hp s) msgnode;
         s = (if pthead (porttab s portid) = pttail (porttab s portid)
              then uport portid (\<lambda>e. e\<lparr>pthead := NULL, pttail := NULL\<rparr>) s
              else uport portid (\<lambda>e. e\<lparr>pthead := mem (hp s) (msgnode + 4)\<rparr>) s);
         s = setword (msgnode + 4) (ptfree s) s
     in (msg, s\<lparr>ptfree := msgnode\<rparr>))"

definition ptrecv_rest :: "int \<Rightarrow> int \<Rightarrow> int \<Rightarrow> kstate \<Rightarrow> (kstate, int) step" where
  "ptrecv_rest portid seq r s =
    (if r = SYSERR \<or> ptstate (porttab s portid) \<noteq> PT_ALLOC \<or> ptseq (porttab s portid) \<noteq> seq
     then Return (u32 SYSERR) s
     else case pt_dequeue portid s of (msg, s) \<Rightarrow>
       bindk (signal (ptssem (porttab s portid)) s) (\<lambda>_ s. Return msg s))"

definition ptrecv :: "int \<Rightarrow> kstate \<Rightarrow> (kstate, int) step" where
  "ptrecv portid s =
    (if isbadport portid \<or> ptstate (porttab s portid) \<noteq> PT_ALLOC then Return (u32 SYSERR) s
     else bindk (wait (ptrsem (porttab s portid)) s) (ptrecv_rest portid (ptseq (porttab s portid))))"

definition ptcount :: "int \<Rightarrow> kstate \<Rightarrow> (kstate, int) step" where
  "ptcount portid s =
    (if isbadport portid \<or> ptstate (porttab s portid) \<noteq> PT_ALLOC then Return SYSERR s
     else bindk (semcount (ptrsem (porttab s portid)) s) (\<lambda>count s.
       if count \<ge> 0 then
         bindk (semcount (ptssem (porttab s portid)) s) (\<lambda>sndcnt s.
           Return (if sndcnt < 0 then i32 (count + i32 (- sndcnt)) else count) s)
       else Return count s))"

text \<open>
  Clearing a port. The function that disposes of the messages is the argument \<open>disp\<close>. A list that
  ends with the null pointer has at most \<open>2 ^ 29\<close> nodes of 8 bytes in the address space; a walk of
  more steps than that never ends.
\<close>

primrec ptclear_walk :: "nat \<Rightarrow> (int \<Rightarrow> kstate \<Rightarrow> (kstate, int) step) \<Rightarrow> int \<Rightarrow> kstate \<Rightarrow> (kstate, unit) step" where
  "ptclear_walk 0 disp node s = (if node = NULL then Return () s else Fault)"
| "ptclear_walk (Suc n) disp node s =
    (if node = NULL then Return () s
     else bindk (disp (mem (hp s) node) s) (\<lambda>_ s. ptclear_walk n disp (mem (hp s) (node + 4)) s))"

definition ptclear_list :: "int \<Rightarrow> kstate \<Rightarrow> kstate" where
  "ptclear_list portid s =
    (let s = setword (pttail (porttab s portid) + 4) (ptfree s) s in s\<lparr>ptfree := pthead (porttab s portid)\<rparr>)"

definition ptclear_sems :: "int \<Rightarrow> ptstate_t \<Rightarrow> kstate \<Rightarrow> (kstate, unit) step" where
  "ptclear_sems portid newstate s =
    bindk
     (if newstate = PT_ALLOC then
        let s = uport portid (\<lambda>e. e\<lparr>pthead := NULL, pttail := NULL\<rparr>) s in
        bindk (semreset (ptssem (porttab s portid)) (ptmaxcnt (porttab s portid)) s) (\<lambda>_ s.
          semreset (ptrsem (porttab s portid)) 0 s)
      else
        bindk (semdelete (ptssem (porttab s portid)) s) (\<lambda>_ s.
          semdelete (ptrsem (porttab s portid)) s))
     (\<lambda>_ s. Return () (uport portid (\<lambda>e. e\<lparr>ptstate := newstate\<rparr>) s))"

definition ptclear :: "int \<Rightarrow> ptstate_t \<Rightarrow> (int \<Rightarrow> kstate \<Rightarrow> (kstate, int) step) \<Rightarrow> kstate \<Rightarrow> (kstate, unit) step" where
  "ptclear portid newstate disp s =
    (let s = uport portid (\<lambda>e. e\<lparr>ptstate := PT_LIMBO, ptseq := i32 (ptseq e + 1)\<rparr>) s;
         node = pthead (porttab s portid)
     in bindk
         (if node \<noteq> NULL then
            bindk (ptclear_walk (2 ^ 29) disp node s) (\<lambda>_ s. Return () (ptclear_list portid s))
          else Return () s)
         (\<lambda>_ s. ptclear_sems portid newstate s))"

definition ptreset :: "int \<Rightarrow> (int \<Rightarrow> kstate \<Rightarrow> (kstate, int) step) \<Rightarrow> kstate \<Rightarrow> (kstate, int) step" where
  "ptreset portid disp s =
    (if isbadport portid \<or> ptstate (porttab s portid) \<noteq> PT_ALLOC then Return SYSERR s
     else bindk (ptclear portid PT_ALLOC disp s) (\<lambda>_ s. Return OK s))"

definition ptdelete :: "int \<Rightarrow> (int \<Rightarrow> kstate \<Rightarrow> (kstate, int) step) \<Rightarrow> kstate \<Rightarrow> (kstate, int) step" where
  "ptdelete portid disp s =
    (if isbadport portid \<or> ptstate (porttab s portid) \<noteq> PT_ALLOC then Return SYSERR s
     else bindk (ptclear portid PT_FREE disp s) (\<lambda>_ s. Return OK (s\<lparr>ptnextid := portid\<rparr>)))"

section \<open>The nodes of the ports\<close>

lemma uport_fields [simp]:
  "queuetab (uport i f s) = queuetab s" "proctab (uport i f s) = proctab s" "semtab (uport i f s) = semtab s"
  "readylist (uport i f s) = readylist s" "sleepq (uport i f s) = sleepq s" "currpid (uport i f s) = currpid s"
  "hp (uport i f s) = hp s" "nextsem (uport i f s) = nextsem s" "nextpid (uport i f s) = nextpid s"
  "ndefers (uport i f s) = ndefers s" "ptfree (uport i f s) = ptfree s" "ptnextid (uport i f s) = ptnextid s"
  "porttab (uport i f s) = (porttab s)(i := f (porttab s i))"
  by (simp_all add: uport_def)

lemma kinv_uport: "kinv s \<Longrightarrow> kinv (uport i f s)"
  by (erule kinv_fields) simp_all

abbreviation ports :: "int set" where "ports \<equiv> {0..<30}"

text \<open>
  \<open>port_rep s fs ns\<close>: the free nodes are \<open>fs\<close>, and the queue of port \<open>i\<close> has the nodes \<open>ns i\<close>. All
  nodes are aligned and no node is in two places; a port that is not allocated has none.
\<close>

definition port_queue :: "(int \<Rightarrow> int) \<Rightarrow> ptentry \<Rightarrow> int list \<Rightarrow> bool" where
  "port_queue m e xs \<longleftrightarrow> linked m 4 (pthead e) xs \<and> pttail e = (if xs = [] then 0 else last xs)"

definition nodes_ok :: "int list \<Rightarrow> (int \<Rightarrow> int list) \<Rightarrow> bool" where
  "nodes_ok fs ns \<longleftrightarrow> distinct fs \<and> (\<forall>i. distinct (ns i) \<and> set fs \<inter> set (ns i) = {}) \<and>
     (\<forall>i j. i \<noteq> j \<longrightarrow> set (ns i) \<inter> set (ns j) = {}) \<and>
     (\<forall>x \<in> set fs. x mod 8 = 0) \<and> (\<forall>i. \<forall>x \<in> set (ns i). x mod 8 = 0)"

definition port_rep :: "kstate \<Rightarrow> int list \<Rightarrow> (int \<Rightarrow> int list) \<Rightarrow> bool" where
  "port_rep s fs ns \<longleftrightarrow> linked (mem (hp s)) 4 (ptfree s) fs \<and> nodes_ok fs ns \<and>
     (\<forall>i\<in>ports. if ptstate (porttab s i) = PT_ALLOC then port_queue (mem (hp s)) (porttab s i) (ns i) else ns i = [])"

definition messages :: "kstate \<Rightarrow> int list \<Rightarrow> int list" where
  "messages s xs = map (mem (hp s)) xs"

lemma nodes_okD:
  assumes "nodes_ok fs ns"
  shows "distinct fs" "distinct (ns i)" "x \<in> set fs \<Longrightarrow> x \<notin> set (ns i)" "x \<in> set (ns i) \<Longrightarrow> i \<noteq> j \<Longrightarrow> x \<notin> set (ns j)"
    "x \<in> set fs \<Longrightarrow> x mod 8 = 0" "x \<in> set (ns i) \<Longrightarrow> x mod 8 = 0"
  using assms unfolding nodes_ok_def by blast+

lemma aligned_apart: "x mod 8 = 0 \<Longrightarrow> y mod 8 = 0 \<Longrightarrow> x + 4 \<noteq> y \<and> y \<noteq> x + 4 \<and> x - 4 \<noteq> (y::int)"
  by presburger

lemma nodes_ok_move:
  assumes "nodes_ok (f # fs) ns"
  shows "nodes_ok fs (ns(p := ns p @ [f]))"
  using assms unfolding nodes_ok_def by (auto split: if_splits)

lemma nodes_ok_back:
  assumes ok: "nodes_ok fs ns" and p: "ns p = x # xs"
  shows "nodes_ok (x # fs) (ns(p := xs))"
proof -
  note N = nodes_okD[OF ok]
  have x: "x \<in> set (ns p)" "x \<notin> set xs" "distinct xs" and sub: "set ((ns(p := xs)) i) \<subseteq> set (ns i)" for i
    using p N(2)[of p] by auto
  have "x \<notin> set fs" using N(3)[of x p] x(1) by blast
  moreover have "x \<notin> set ((ns(p := xs)) i)" for i using x N(4)[of x p i] by (cases "i = p") auto
  moreover have "distinct ((ns(p := xs)) i)" for i using x(3) N(2)[of i] by simp
  moreover have "set fs \<inter> set ((ns(p := xs)) i) = {}" for i using N(3)[of _ i] sub[of i] by blast
  moreover have "set ((ns(p := xs)) i) \<inter> set ((ns(p := xs)) j) = {}" if "i \<noteq> j" for i j
    using N(4)[of _ i j] that sub[of i] sub[of j] by blast
  moreover have "\<forall>y\<in>set ((ns(p := xs)) i). y mod 8 = 0" for i using N(6)[of _ i] sub[of i] by blast
  ultimately show ?thesis using N(1,5) N(6)[OF x(1)] unfolding nodes_ok_def by simp
qed

text \<open>A write to a word of another node, or to a message, does not disturb a list of nodes.\<close>

lemma linked_link_upd: "x \<notin> set xs \<Longrightarrow> linked (m(x + 4 := v)) 4 p xs = linked m 4 p xs"
  by (rule linked_upd) simp

lemma linked_msg_upd:
  assumes "x mod 8 = 0" "\<forall>y\<in>set xs. y mod 8 = 0"
  shows "linked (m(x := v)) 4 p xs = linked m 4 p xs"
proof (rule linked_upd)
  show "x - 4 \<notin> set xs" using assms aligned_apart[of x "x - 4"] by auto
qed

lemma port_queue_link_upd: "x \<notin> set xs \<Longrightarrow> port_queue (m(x + 4 := v)) e xs = port_queue m e xs"
  by (simp add: port_queue_def linked_link_upd del: fun_upd_apply)

lemma port_queue_msg_upd: "x mod 8 = 0 \<Longrightarrow> \<forall>y\<in>set xs. y mod 8 = 0 \<Longrightarrow> port_queue (m(x := v)) e xs = port_queue m e xs"
  by (simp add: port_queue_def linked_msg_upd del: fun_upd_apply)

lemma linked_nonzero: "linked m k p xs \<Longrightarrow> x \<in> set xs \<Longrightarrow> x \<noteq> 0"
  by (induction xs arbitrary: p) auto

text \<open>A change of one allocated port.\<close>

lemma port_rep_change:
  assumes "port_rep s fs ns"
    and "\<And>i. i \<noteq> p \<Longrightarrow> porttab s' i = porttab s i \<and> ns' i = ns i"
    and "\<And>i. i \<noteq> p \<Longrightarrow> port_queue (mem (hp s)) (porttab s i) (ns i) \<Longrightarrow> port_queue (mem (hp s')) (porttab s i) (ns i)"
    and "linked (mem (hp s')) 4 (ptfree s') fs'" "nodes_ok fs' ns'"
    and "ptstate (porttab s' p) = PT_ALLOC" "port_queue (mem (hp s')) (porttab s' p) (ns' p)"
  shows "port_rep s' fs' ns'"
  unfolding port_rep_def
proof (intro conjI ballI)
  fix i assume i: "i \<in> ports"
  show "if ptstate (porttab s' i) = PT_ALLOC then port_queue (mem (hp s')) (porttab s' i) (ns' i) else ns' i = []"
  proof (cases "i = p")
    case False
    then show ?thesis using assms(1) assms(2,3)[OF False] i unfolding port_rep_def by (auto split: if_splits)
  qed (use assms(6,7) in simp)
qed (use assms(4,5) in simp_all)

lemma pt_enqueue_rep:
  assumes rep: "port_rep s (f # fs) ns" and p: "p \<in> ports" "ptstate (porttab s p) = PT_ALLOC"
  shows "port_rep (pt_enqueue p msg s) fs (ns(p := ns p @ [f]))"
proof -
  let ?m = "mem (hp s)" let ?m1 = "(?m(f + 4 := 0))(f := msg)"
  have ok: "nodes_ok (f # fs) ns" and free: "linked ?m 4 (ptfree s) (f # fs)"
    and q: "\<And>i. i \<in> ports \<Longrightarrow> if ptstate (porttab s i) = PT_ALLOC then port_queue ?m (porttab s i) (ns i) else ns i = []"
    using rep by (auto simp: port_rep_def)
  note N = nodes_okD[OF ok]
  have f: "f mod 8 = 0" "f \<notin> set fs" "f \<noteq> 0" "ptfree s = f" "\<And>i. f \<notin> set (ns i)" using N free by auto
  have al: "\<forall>y\<in>set (ns i). y mod 8 = 0" "\<forall>y\<in>set fs. y mod 8 = 0" for i using N by auto
  have q1: "port_queue ?m1 (porttab s i) (ns i)" if "port_queue ?m (porttab s i) (ns i)" for i
    using that by (simp add: port_queue_msg_upd[OF f(1) al(1)] port_queue_link_upd[OF f(5)] del: fun_upd_apply)
  have f1: "linked ?m1 4 (?m (f + 4)) fs"
    using free by (simp add: linked_msg_upd[OF f(1) al(2)] linked_link_upd[OF f(2)] del: fun_upd_apply)
  have qp: "port_queue ?m1 (porttab s p) (ns p)" using q1[of p] q[OF p(1)] p(2) by simp
  let ?s1 = "setword f msg (setword (f + 4) NULL (s\<lparr>ptfree := ?m (f + 4)\<rparr>))"
  show ?thesis
  proof (cases "ns p = []")
    case True
    then have t: "pttail (porttab s p) = 0" using qp by (simp add: port_queue_def)
    then have s': "pt_enqueue p msg s = uport p (\<lambda>e. e\<lparr>pthead := f, pttail := f\<rparr>) ?s1"
      using f(4) by (simp add: pt_enqueue_def Let_def)
    have "port_queue ?m1 ((porttab s p)\<lparr>pthead := f, pttail := f\<rparr>) [f]" using f(3) by (simp add: port_queue_def)
    then show ?thesis
      unfolding s' by (intro port_rep_change[OF rep, of p]) (use f1 q1 nodes_ok_move[OF ok, of p] p(2) True in simp_all)
  next
    case False
    let ?t = "last (ns p)" let ?m2 = "?m1(?t + 4 := f)"
    have t: "pttail (porttab s p) = ?t" "?t \<in> set (ns p)" using qp False by (simp_all add: port_queue_def)
    then have t': "?t \<noteq> 0" "?t \<notin> set fs" "\<And>i. i \<noteq> p \<Longrightarrow> ?t \<notin> set (ns i)"
      using linked_nonzero[of _ _ _ "ns p" ?t] qp N(3)[of ?t p] N(4)[of ?t p] by (simp_all add: port_queue_def) auto
    have s': "pt_enqueue p msg s = uport p (\<lambda>e. e\<lparr>pttail := f\<rparr>) (setword (?t + 4) f ?s1)"
      using f(4) t t'(1) by (simp add: pt_enqueue_def Let_def)
    have f2: "linked ?m2 4 (?m (f + 4)) fs" using f1 by (simp add: linked_link_upd[OF t'(2)] del: fun_upd_apply)
    have q2: "port_queue ?m2 (porttab s i) (ns i)" if "port_queue ?m (porttab s i) (ns i)" "i \<noteq> p" for i
      using q1[OF that(1)] by (simp add: port_queue_link_upd[OF t'(3)[OF that(2)]] del: fun_upd_apply)
    have "linked ?m1 4 (pthead (porttab s p)) (ns p)" using qp by (simp add: port_queue_def)
    moreover have "distinct (ns p @ [f])" "linked ?m1 4 f [f]" using N(2) f by auto
    ultimately have "linked ?m2 4 (pthead (porttab s p)) (ns p @ [f])" using False by (rule linked_extend)
    then have "port_queue ?m2 ((porttab s p)\<lparr>pttail := f\<rparr>) (ns p @ [f])" by (simp add: port_queue_def del: fun_upd_apply)
    then show ?thesis
      unfolding s' by (intro port_rep_change[OF rep, of p]) (use f2 q2 nodes_ok_move[OF ok] p(2) in simp_all)
  qed
qed

text \<open>The messages: a message word is written only in the node that is added.\<close>

lemma messages_enqueue:
  assumes rep: "port_rep s (f # fs) ns" and p: "p \<in> ports" "ptstate (porttab s p) = PT_ALLOC"
  shows "messages (pt_enqueue p msg s) (ns p @ [f]) = messages s (ns p) @ [msg] \<and>
    (i \<noteq> p \<longrightarrow> messages (pt_enqueue p msg s) (ns i) = messages s (ns i))"
proof -
  have ok: "nodes_ok (f # fs) ns" and free: "linked (mem (hp s)) 4 (ptfree s) (f # fs)" using rep by (auto simp: port_rep_def)
  have q: "port_queue (mem (hp s)) (porttab s p) (ns p)" using rep p by (auto simp: port_rep_def)
  note N = nodes_okD[OF ok]
  have f: "f mod 8 = 0" "ptfree s = f" "\<And>i. f \<notin> set (ns i)" using N free by auto
  have t: "pttail (porttab s p) \<noteq> 0 \<Longrightarrow> pttail (porttab s p) mod 8 = 0" using q N(6)[of "last (ns p)" p] by (auto simp: port_queue_def)
  have old: "mem (hp (pt_enqueue p msg s)) x = mem (hp s) x" if "x mod 8 = 0" "x \<noteq> f" for x
    using f(2) that aligned_apart[OF f(1) that(1)] aligned_apart[OF t that(1)]
    by (simp add: pt_enqueue_def Let_def)
  have new: "mem (hp (pt_enqueue p msg s)) f = msg"
    using f(2) aligned_apart[OF t f(1)] by (simp add: pt_enqueue_def Let_def)
  have "messages (pt_enqueue p msg s) (ns i) = messages s (ns i)" for i
    unfolding messages_def
  proof (rule map_cong[OF refl])
    fix x assume x: "x \<in> set (ns i)"
    then have "x \<noteq> f" using f(3)[of i] by blast
    then show "mem (hp (pt_enqueue p msg s)) x = mem (hp s) x" by (rule old[OF N(6)[OF x]])
  qed
  then show ?thesis using new by (simp add: messages_def)
qed

lemma pt_dequeue_rep:
  assumes rep: "port_rep s fs ns" and p: "p \<in> ports" "ptstate (porttab s p) = PT_ALLOC" and ne: "ns p = x # xs"
  shows "\<exists>s'. pt_dequeue p s = (mem (hp s) x, s') \<and> port_rep s' (x # fs) (ns(p := xs))"
proof -
  let ?m = "mem (hp s)" let ?m1 = "?m(x + 4 := ptfree s)"
  have ok: "nodes_ok fs ns" and free: "linked ?m 4 (ptfree s) fs" using rep by (auto simp: port_rep_def)
  have q: "port_queue ?m (porttab s p) (ns p)" using rep p by (auto simp: port_rep_def)
  note N = nodes_okD[OF ok]
  have x: "x \<in> set (ns p)" "x \<notin> set xs" "x \<noteq> 0" "pthead (porttab s p) = x" "linked ?m 4 (?m (x + 4)) xs"
    "pttail (porttab s p) = (if xs = [] then x else last xs)"
    using q ne N(2)[of p] by (auto simp: port_queue_def)
  have x': "x \<notin> set fs" "\<And>i. i \<noteq> p \<Longrightarrow> x \<notin> set (ns i)" using N(3)[of x p] N(4)[of x p] x(1) by auto
  have f1: "linked ?m1 4 x (x # fs)" using free x(3) by (simp add: linked_link_upd[OF x'(1)] del: fun_upd_apply) simp
  have q1: "port_queue ?m1 (porttab s i) (ns i)" if "port_queue ?m (porttab s i) (ns i)" "i \<noteq> p" for i
    using that by (simp add: port_queue_link_upd[OF x'(2)[OF that(2)]] del: fun_upd_apply)
  show ?thesis
  proof (cases "xs = []")
    case True
    let ?s' = "(setword (x + 4) (ptfree s) (uport p (\<lambda>e. e\<lparr>pthead := NULL, pttail := NULL\<rparr>) s))\<lparr>ptfree := x\<rparr>"
    have "pt_dequeue p s = (?m x, ?s')" using x True by (simp add: pt_dequeue_def Let_def)
    moreover have "port_rep ?s' (x # fs) (ns(p := xs))"
      by (intro port_rep_change[OF rep, of p]) (use f1 q1 nodes_ok_back[OF ok ne] p(2) True in \<open>simp_all add: port_queue_def del: fun_upd_apply add: fun_upd_same fun_upd_other\<close>)
    ultimately show ?thesis by blast
  next
    case False
    let ?s' = "(setword (x + 4) (ptfree s) (uport p (\<lambda>e. e\<lparr>pthead := ?m (x + 4)\<rparr>) s))\<lparr>ptfree := x\<rparr>"
    have "x \<noteq> last xs" using x(2) False last_in_set by metis
    then have "pt_dequeue p s = (?m x, ?s')" using x False by (simp add: pt_dequeue_def Let_def)
    moreover have "port_queue ?m1 ((porttab s p)\<lparr>pthead := ?m (x + 4)\<rparr>) xs"
      using x(5,6) False by (simp add: port_queue_def linked_link_upd[OF x(2)] del: fun_upd_apply)
    then have "port_rep ?s' (x # fs) (ns(p := xs))"
      by (intro port_rep_change[OF rep, of p]) (use f1 q1 nodes_ok_back[OF ok ne] p(2) in \<open>simp_all del: fun_upd_apply add: fun_upd_same fun_upd_other\<close>)
    ultimately show ?thesis by blast
  qed
qed

lemma messages_dequeue:
  assumes rep: "port_rep s fs ns" and ne: "ns p = x # xs"
    and q: "port_queue (mem (hp s)) (porttab s p) (ns p)" and d: "pt_dequeue p s = (m, s')"
  shows "messages s' (ns i) = messages s (ns i)"
proof -
  have ok: "nodes_ok fs ns" using rep by (simp add: port_rep_def)
  note N = nodes_okD[OF ok]
  have x: "x mod 8 = 0" "pthead (porttab s p) = x" using N(6)[of x p] ne q by (auto simp: port_queue_def)
  have "mem (hp s') = (mem (hp s))(x + 4 := ptfree s)"
    using d x(2) by (auto simp: pt_dequeue_def Let_def split: if_splits)
  then show ?thesis unfolding messages_def using N(6)[of _ i] aligned_apart[OF x(1)] by auto
qed

section \<open>A port is a bounded queue\<close>

text \<open>The nodes of a port are such a queue, with room for the nodes of the free list.\<close>

definition port_holds :: "int \<Rightarrow> kstate \<Rightarrow> int list \<Rightarrow> nat \<Rightarrow> bool" where
  "port_holds p s xs n \<longleftrightarrow> p \<in> ports \<and> ptstate (porttab s p) = PT_ALLOC \<and>
     (\<exists>fs ns. port_rep s fs ns \<and> messages s (ns p) = xs \<and> length fs = n)"

lemma pt_enqueue_state [simp]:
  "ptstate (porttab (pt_enqueue p msg s) i) = ptstate (porttab s i)" "ptssem (porttab (pt_enqueue p msg s) i) = ptssem (porttab s i)"
  "ptrsem (porttab (pt_enqueue p msg s) i) = ptrsem (porttab s i)" "semtab (pt_enqueue p msg s) = semtab s"
  "currpid (pt_enqueue p msg s) = currpid s"
  by (auto simp: pt_enqueue_def Let_def)

lemma pt_dequeue_state:
  assumes "pt_dequeue p s = (m, s')"
  shows "ptstate (porttab s' i) = ptstate (porttab s i)" "ptssem (porttab s' i) = ptssem (porttab s i)"
    "ptrsem (porttab s' i) = ptrsem (porttab s i)" "semtab s' = semtab s" "currpid s' = currpid s"
  using assms by (auto simp: pt_dequeue_def Let_def split: if_splits)

lemma port_rep_queue: "port_rep s fs ns \<Longrightarrow> p \<in> ports \<Longrightarrow> ptstate (porttab s p) = PT_ALLOC \<Longrightarrow> port_queue (mem (hp s)) (porttab s p) (ns p)"
  by (auto simp: port_rep_def)

interpretation pt_nodes: fifo "port_holds p" "\<lambda>m s. Some (pt_enqueue p m s)" "\<lambda>s. Some (pt_dequeue p s)" for p
proof (unfold_locales, goal_cases)
  case (1 s xs n x)
  then obtain fs ns where h: "port_rep s fs ns" "messages s (ns p) = xs" "length fs = Suc n" "p \<in> ports"
    "ptstate (porttab s p) = PT_ALLOC" by (auto simp: port_holds_def)
  then obtain f fs' where fs: "fs = f # fs'" by (cases fs) auto
  show ?case
    using pt_enqueue_rep[OF h(1)[unfolded fs] h(4,5), of x] messages_enqueue[OF h(1)[unfolded fs] h(4,5), of x] h fs
    unfolding port_holds_def by (fastforce intro!: exI[of _ fs'] exI[of _ "ns(p := ns p @ [f])"])
next
  case (2 s x xs n)
  then obtain fs ns where h: "port_rep s fs ns" "messages s (ns p) = x # xs" "length fs = n" "p \<in> ports"
    "ptstate (porttab s p) = PT_ALLOC" by (auto simp: port_holds_def)
  then obtain y ys where ns: "ns p = y # ys" "x = mem (hp s) y" "xs = messages s ys" by (auto simp: messages_def)
  obtain s' where s': "pt_dequeue p s = (x, s')" "port_rep s' (y # fs) (ns(p := ys))"
    using pt_dequeue_rep[OF h(1,4,5) ns(1)] ns(2) by auto
  have "messages s' (ns p) = messages s (ns p)" by (rule messages_dequeue[OF h(1) ns(1) port_rep_queue[OF h(1,4,5)] s'(1)])
  then have "messages s' ys = xs" using ns by (simp add: messages_def)
  then show ?case using s' pt_dequeue_state[OF s'(1)] h
    by (auto simp: port_holds_def intro!: exI[of _ "y # fs"] exI[of _ "ns(p := ys)"])
qed

section \<open>The calls\<close>

text \<open>The nodes lie outside the free storage of the kernel, so that writing them is safe.\<close>

lemma writable_port [simp]:
  "writable fl (uport i f s) w = writable fl s w" "writable fl (s\<lparr>ptfree := a\<rparr>) w = writable fl s w"
  by (simp_all add: writable_def)

lemma kinv_ptfree: "kinv s \<Longrightarrow> kinv (s\<lparr>ptfree := a\<rparr>)"
  by (erule kinv_fields) simp_all

definition safe :: "flist \<Rightarrow> kstate \<Rightarrow> int \<Rightarrow> bool" where
  "safe fl s x \<longleftrightarrow> writable fl s x \<and> writable fl s (x + 4)"

lemma safe_kept:
  "safe fl s y \<Longrightarrow> safe fl (uport i f s) y" "safe fl s y \<Longrightarrow> safe fl (s\<lparr>ptfree := a\<rparr>) y"
  "safe fl s x \<Longrightarrow> safe fl s y \<Longrightarrow> safe fl (setword x v s) y"
  "safe fl s x \<Longrightarrow> safe fl s y \<Longrightarrow> safe fl (setword (x + 4) v s) y"
  by (auto simp: safe_def intro: writable_step)

lemma kinv_safe: "kinv s \<Longrightarrow> safe fl s x \<Longrightarrow> kinv (setword x v s)" "kinv s \<Longrightarrow> safe fl s x \<Longrightarrow> kinv (setword (x + 4) v s)"
  by (auto simp: safe_def intro: kinv_setword)

lemma kinv_pt_enqueue:
  assumes "kinv s" "safe fl s (ptfree s)" "pttail (porttab s p) \<noteq> 0 \<Longrightarrow> safe fl s (pttail (porttab s p))"
  shows "kinv (pt_enqueue p m s) \<and> (\<forall>y. safe fl s y \<longrightarrow> safe fl (pt_enqueue p m s) y)"
proof -
  let ?f = "ptfree s" let ?s1 = "setword ?f m (setword (?f + 4) NULL (s\<lparr>ptfree := mem (hp s) (?f + 4)\<rparr>))"
  let ?s0 = "s\<lparr>ptfree := mem (hp s) (?f + 4)\<rparr>"
  have f0: "safe fl ?s0 ?f" using assms(2) by (rule safe_kept)
  then have f1: "safe fl (setword (?f + 4) NULL ?s0) ?f" using f0 by (rule safe_kept(4))
  have k: "kinv ?s1" by (rule kinv_safe(1)[OF kinv_safe(2)[OF kinv_ptfree[OF assms(1)] f0] f1])
  have y: "safe fl ?s1 y" if "safe fl s y" for y by (rule safe_kept(3)[OF f1 safe_kept(4)[OF f0 safe_kept(2)[OF that]]])
  let ?t = "pttail (porttab s p)"
  show ?thesis
  proof (cases "?t = 0")
    case True
    then have e: "pt_enqueue p m s = uport p (\<lambda>e. e\<lparr>pthead := ?f, pttail := ?f\<rparr>) ?s1" by (simp add: pt_enqueue_def Let_def)
    show ?thesis unfolding e using kinv_uport[OF k] safe_kept(1)[OF y] by blast
  next
    case False
    then have e: "pt_enqueue p m s = uport p (\<lambda>e. e\<lparr>pttail := ?f\<rparr>) (setword (?t + 4) ?f ?s1)"
      by (simp add: pt_enqueue_def Let_def)
    have t: "safe fl ?s1 ?t" by (rule y[OF assms(3)[OF False]])
    show ?thesis unfolding e using kinv_uport[OF kinv_safe(2)[OF k t]] safe_kept(1)[OF safe_kept(4)[OF t y]] by blast
  qed
qed

lemma kinv_pt_dequeue:
  assumes "kinv s" "safe fl s (pthead (porttab s p))" "pt_dequeue p s = (m, s')"
  shows "kinv s'" "safe fl s y \<Longrightarrow> safe fl s' y"
proof -
  let ?x = "pthead (porttab s p)"
  obtain g where s': "s' = (setword (?x + 4) (ptfree s) (uport p g s))\<lparr>ptfree := ?x\<rparr>"
    using assms(3) by (auto simp: pt_dequeue_def Let_def split: if_splits)
  have x: "safe fl (uport p g s) ?x" by (rule safe_kept(1)[OF assms(2)])
  show "kinv s'" unfolding s' by (rule kinv_ptfree[OF kinv_safe(2)[OF kinv_uport[OF assms(1)] x]])
  show "safe fl s' y" if "safe fl s y" unfolding s' by (rule safe_kept(2)[OF safe_kept(4)[OF x safe_kept(1)[OF that]]])
qed

text \<open>
  An allocated port that holds \<open>xs\<close> and has room for \<open>n\<close> more messages: its two semaphores count both,
  and enough nodes are free.
\<close>

definition used_sem :: "kstate \<Rightarrow> int \<Rightarrow> bool" where
  "used_sem s i \<longleftrightarrow> \<not> isbadsem i \<and> sstate (semtab s i) = S_USED"

definition port_sems :: "kstate \<Rightarrow> int \<Rightarrow> int \<Rightarrow> int \<Rightarrow> bool" where
  "port_sems s p n k \<longleftrightarrow> used_sem s (ptssem (porttab s p)) \<and> used_sem s (ptrsem (porttab s p)) \<and>
     ptssem (porttab s p) \<noteq> ptrsem (porttab s p) \<and>
     scount (semtab s (ptssem (porttab s p))) = n \<and> scount (semtab s (ptrsem (porttab s p))) = k"

definition port_ok :: "flist \<Rightarrow> int \<Rightarrow> kstate \<Rightarrow> int list \<Rightarrow> nat \<Rightarrow> bool" where
  "port_ok fl p s xs n \<longleftrightarrow> p \<in> ports \<and> ptstate (porttab s p) = PT_ALLOC \<and> port_sems s p (int n) (int (length xs)) \<and>
     int (n + length xs) < 2147483647 \<and>
     (\<exists>fs ns. port_rep s fs ns \<and> messages s (ns p) = xs \<and> n \<le> length fs \<and> (\<forall>x \<in> set fs \<union> set (ns p). safe fl s x))"

lemma wait_now:
  assumes "kinv s" "currpid s \<noteq> 0" "used_sem s i" "scount (semtab s i) = int n + 1" "int n < 2147483647"
  shows "wait i s = Return OK (upsem i (\<lambda>e. e\<lparr>scount := int n\<rparr>) s)" "kinv (upsem i (\<lambda>e. e\<lparr>scount := int n\<rparr>) s)"
proof -
  have "i32 (int n) = int n" using assms(5) by simp
  then show w: "wait i s = Return OK (upsem i (\<lambda>e. e\<lparr>scount := int n\<rparr>) s)"
    using assms by (simp add: wait_def Let_def used_sem_def upsem_def)
  show "kinv (upsem i (\<lambda>e. e\<lparr>scount := int n\<rparr>) s)" using kinv_wait[OF assms(1,2), of i] w by (simp add: kcall_def)
qed

lemma signal_now:
  assumes "kinv s" "used_sem s i" "scount (semtab s i) = int n" "int n < 2147483647"
  shows "signal i s = Return OK (upsem i (\<lambda>e. e\<lparr>scount := int n + 1\<rparr>) s)" "kinv (upsem i (\<lambda>e. e\<lparr>scount := int n + 1\<rparr>) s)"
proof -
  show w: "signal i s = Return OK (upsem i (\<lambda>e. e\<lparr>scount := int n + 1\<rparr>) s)"
    using assms by (simp add: signal_def signal_once_def Let_def used_sem_def upsem_def)
  show "kinv (upsem i (\<lambda>e. e\<lparr>scount := int n + 1\<rparr>) s)" using kinv_signal[OF assms(1), of i] assms(3,4) w by (simp add: kcall_def)
qed

lemma port_view_upsem [simp]:
  "port_rep (upsem i f s) fs ns = port_rep s fs ns" "messages (upsem i f s) xs = messages s xs"
  "safe fl (upsem i f s) x = safe fl s x" "pthead (porttab (upsem i f s) p) = pthead (porttab s p)"
  "currpid (upsem i f s) = currpid s" "porttab (upsem i f s) = porttab s" "ptfree (upsem i f s) = ptfree s"
  by (simp_all add: port_rep_def messages_def safe_def writable_def upsem_def)

lemma port_sems_upsem:
  assumes "port_sems s p n k"
  shows "port_sems (upsem (ptssem (porttab s p)) (\<lambda>e. e\<lparr>scount := m\<rparr>) s) p m k"
    "port_sems (upsem (ptrsem (porttab s p)) (\<lambda>e. e\<lparr>scount := m\<rparr>) s) p n m"
  using assms by (auto simp: port_sems_def used_sem_def upsem_def)

lemma port_sems_same:
  assumes "semtab s' = semtab s" "ptssem (porttab s' p) = ptssem (porttab s p)" "ptrsem (porttab s' p) = ptrsem (porttab s p)"
  shows "port_sems s' p n k = port_sems s p n k"
  using assms by (simp add: port_sems_def used_sem_def)

lemma port_semsD:
  assumes "port_sems s p n k"
  shows "used_sem s (ptssem (porttab s p))" "used_sem s (ptrsem (porttab s p))"
    "scount (semtab s (ptssem (porttab s p))) = n" "scount (semtab s (ptrsem (porttab s p))) = k"
  using assms by (simp_all add: port_sems_def)

lemma ptsend_now:
  assumes inv: "kinv s" "currpid s \<noteq> 0" and port: "port_ok fl p s xs (Suc n)"
  shows "\<exists>s'. ptsend p m s = Return OK s' \<and> kinv s' \<and> currpid s' \<noteq> 0 \<and> port_ok fl p s' (xs @ [m]) n"
proof -
  let ?ss = "ptssem (porttab s p)" and ?rs = "ptrsem (porttab s p)"
  from port obtain fs ns where p: "p \<in> ports" "ptstate (porttab s p) = PT_ALLOC" and
    sems: "port_sems s p (int n + 1) (int (length xs))" and max: "int (n + length xs) + 1 < 2147483647" and
    rep: "port_rep s fs ns" "messages s (ns p) = xs" "Suc n \<le> length fs" and
    safe: "\<And>x. x \<in> set fs \<union> set (ns p) \<Longrightarrow> safe fl s x" unfolding port_ok_def by (auto simp: algebra_simps)
  obtain f fs' where fs: "fs = f # fs'" using rep(3) by (cases fs) auto
  let ?s0 = "upsem ?ss (\<lambda>e. e\<lparr>scount := int n\<rparr>) s" let ?s1 = "pt_enqueue p m ?s0"
  let ?s2 = "upsem ?rs (\<lambda>e. e\<lparr>scount := int (length xs) + 1\<rparr>) ?s1"
  have w: "wait ?ss s = Return OK ?s0" "kinv ?s0"
    using wait_now[OF inv, of ?ss n] sems max by (simp_all add: port_sems_def)
  have rep0: "port_rep ?s0 (f # fs') ns" "ptstate (porttab ?s0 p) = PT_ALLOC" using rep p fs by simp_all
  have free: "ptfree s = f" "f \<noteq> 0" using rep(1) fs by (auto simp: port_rep_def)
  have tail: "pttail (porttab s p) \<noteq> 0 \<Longrightarrow> pttail (porttab s p) \<in> set (ns p)"
    using port_rep_queue[OF rep(1) p] by (auto simp: port_queue_def split: if_splits)
  have k1: "kinv ?s1" "\<forall>y. safe fl s y \<longrightarrow> safe fl ?s1 y"
    using kinv_pt_enqueue[OF w(2), of fl p m] safe tail fs free by auto
  have sems1: "port_sems ?s1 p (int n) (int (length xs))"
    using port_sems_upsem(1)[OF sems, of "int n"] by (subst port_sems_same[of _ ?s0]) simp_all
  have rs: "ptrsem (porttab ?s1 p) = ?rs" by simp
  have sg: "signal ?rs ?s1 = Return OK ?s2" "kinv ?s2"
    using signal_now[OF k1(1) port_semsD(2,4)[OF sems1]] max unfolding rs by simp_all
  have "port_ok fl p ?s2 (xs @ [m]) n"
    unfolding port_ok_def
  proof (intro conjI exI)
    show "port_sems ?s2 p (int n) (int (length (xs @ [m])))"
      using port_sems_upsem(2)[OF sems1, of "int (length xs) + 1"] by (simp add: algebra_simps)
    show "port_rep ?s2 fs' (ns(p := ns p @ [f]))" using pt_enqueue_rep[OF rep0(1) p(1) rep0(2), of m] by simp
    show "messages ?s2 ((ns(p := ns p @ [f])) p) = xs @ [m]"
      using messages_enqueue[OF rep0(1) p(1) rep0(2), of m p] rep(2) by simp
  qed (use p max rep(3) fs k1(2) safe in auto)
  moreover have "ptsend p m s = Return OK ?s2"
    using p w(1) sg(1) free by (simp add: ptsend_def ptsend_rest_def isbadport_def Let_def)
  ultimately show ?thesis using sg(2) inv(2) by simp
qed

lemma ptrecv_now:
  assumes inv: "kinv s" "currpid s \<noteq> 0" and port: "port_ok fl p s (x # xs) n"
  shows "\<exists>s'. ptrecv p s = Return x s' \<and> kinv s' \<and> currpid s' \<noteq> 0 \<and> port_ok fl p s' xs (Suc n)"
proof -
  let ?ss = "ptssem (porttab s p)" and ?rs = "ptrsem (porttab s p)"
  from port obtain fs ns where p: "p \<in> ports" "ptstate (porttab s p) = PT_ALLOC" and
    sems: "port_sems s p (int n) (int (length xs) + 1)" and max: "int (n + length xs) + 1 < 2147483647" and
    rep: "port_rep s fs ns" "messages s (ns p) = x # xs" "n \<le> length fs" and
    safe: "\<And>x. x \<in> set fs \<union> set (ns p) \<Longrightarrow> safe fl s x" unfolding port_ok_def by (auto simp: algebra_simps)
  obtain y ys where ns: "ns p = y # ys" "x = mem (hp s) y" "xs = messages s ys" using rep(2) by (auto simp: messages_def)
  let ?s0 = "upsem ?rs (\<lambda>e. e\<lparr>scount := int (length xs)\<rparr>) s"
  have w: "wait ?rs s = Return OK ?s0" "kinv ?s0"
    using wait_now[OF inv, of ?rs "length xs"] sems max by (simp_all add: port_sems_def)
  have rep0: "port_rep ?s0 fs ns" "ptstate (porttab ?s0 p) = PT_ALLOC" using rep p by simp_all
  have q: "port_queue (mem (hp ?s0)) (porttab ?s0 p) (ns p)" by (rule port_rep_queue[OF rep0(1) p(1) rep0(2)])
  obtain s1 where s1: "pt_dequeue p ?s0 = (x, s1)" "port_rep s1 (y # fs) (ns(p := ys))"
    using pt_dequeue_rep[OF rep0(1) p(1) rep0(2) ns(1)] ns(2) by (auto simp: upsem_def)
  note st = pt_dequeue_state[OF s1(1)]
  have hd: "pthead (porttab ?s0 p) = y" using q ns(1) by (simp add: port_queue_def)
  have "safe fl ?s0 y" using safe ns(1) by simp
  then have k1: "kinv s1" "\<And>z. safe fl s z \<Longrightarrow> safe fl s1 z"
    using kinv_pt_dequeue[OF w(2) _ s1(1), of fl] hd by simp_all
  let ?s2 = "upsem ?ss (\<lambda>e. e\<lparr>scount := int n + 1\<rparr>) s1"
  have sems1: "port_sems s1 p (int n) (int (length xs))"
    using port_sems_upsem(2)[OF sems, of "int (length xs)"] st by (subst port_sems_same[of _ ?s0]) simp_all
  have ss: "ptssem (porttab s1 p) = ?ss" using st(2)[of p] by simp
  have sg: "signal ?ss s1 = Return OK ?s2" "kinv ?s2"
    using signal_now[OF k1(1) port_semsD(1,3)[OF sems1]] max unfolding ss by simp_all
  have "port_ok fl p ?s2 xs (Suc n)"
    unfolding port_ok_def
  proof (intro conjI exI)
    show "port_sems ?s2 p (int (Suc n)) (int (length xs))"
      using port_sems_upsem(1)[OF sems1, of "int n + 1"] ss by (simp add: algebra_simps)
    show "port_rep ?s2 (y # fs) (ns(p := ys))" using s1(2) by simp
    have "messages s1 (ns p) = messages ?s0 (ns p)" by (rule messages_dequeue[OF rep0(1) ns(1) q s1(1)])
    then show "messages ?s2 ((ns(p := ys)) p) = xs" using ns by (simp add: messages_def upsem_def)
  qed (use p max rep(3) ns k1(2) safe st(1)[of p] in auto)
  moreover have "ptrecv p s = Return x ?s2"
    using p w(1) sg(1) s1(1) st(1)[of p] ss by (simp add: ptrecv_def ptrecv_rest_def isbadport_def)
  ultimately show ?thesis using sg(2) inv(2) st(5) by simp
qed

text \<open>The two calls as total functions where they return at once.\<close>

definition send_call :: "int \<Rightarrow> int \<Rightarrow> kstate \<Rightarrow> kstate option" where
  "send_call p m s = (case ptsend p m s of Return r s' \<Rightarrow> if r = OK then Some s' else None | _ \<Rightarrow> None)"

definition recv_call :: "int \<Rightarrow> kstate \<Rightarrow> (int \<times> kstate) option" where
  "recv_call p s = (case ptrecv p s of Return x s' \<Rightarrow> Some (x, s') | _ \<Rightarrow> None)"

interpretation pt_calls: fifo "\<lambda>s xs n. kinv s \<and> currpid s \<noteq> 0 \<and> port_ok fl p s xs n" "send_call p" "recv_call p" for fl p
proof (unfold_locales, goal_cases)
  case (1 s xs n x)
  then show ?case using ptsend_now[of s fl p xs n x] by (auto simp: send_call_def)
next
  case (2 s x xs n)
  then show ?case using ptrecv_now[of s fl p x xs n] by (auto simp: recv_call_def)
qed

text \<open>C25: A port is a bounded FIFO queue: as long as there is room, \<^verbatim>\<open>ptsend\<close> returns \<^verbatim>\<open>OK\<close> at once, and
  \<^verbatim>\<open>ptrecv\<close> then returns first the messages that were there and then the new ones, each once and in the
  order in which they were sent; the port ends empty, with its full capacity, and the kernel's
  invariant, which includes the free storage and the semaphores, holds.\<close>

theorem port_fifo:
  assumes "kinv s" "currpid s \<noteq> 0" "port_ok fl p s xs (length ys + n)"
  shows "\<exists>s1 s2. enq_all (send_call p) ys s = Some s1 \<and>
    deq_all (recv_call p) (length xs + length ys) s1 = Some (xs @ ys, s2) \<and>
    kinv s2 \<and> port_ok fl p s2 [] (n + length xs + length ys)"
  using pt_calls.in_order[of s fl p xs ys n] assms by blast

section \<open>Start\<close>

lemma ptinit_ports_eq:
  "\<exists>f. ptinit_ports n i s = s\<lparr>porttab := f\<rparr> \<and> (\<forall>j. i \<le> j \<and> j < i + int n \<longrightarrow> ptstate (f j) = PT_FREE) \<and>
     (\<forall>j<i. f j = porttab s j)"
proof (induction n arbitrary: i s)
  case 0
  then show ?case by (intro exI[of _ "porttab s"]) auto
next
  case (Suc n)
  let ?s = "uport i (\<lambda>e. e\<lparr>ptstate := PT_FREE, ptseq := 0\<rparr>) s"
  obtain f where f: "ptinit_ports n (i + 1) ?s = ?s\<lparr>porttab := f\<rparr>"
    "\<forall>j. i + 1 \<le> j \<and> j < i + 1 + int n \<longrightarrow> ptstate (f j) = PT_FREE" "\<forall>j<i + 1. f j = porttab ?s j"
    using Suc.IH[of "i + 1" ?s] by blast
  have "ptstate (f j) = PT_FREE" if "i \<le> j \<and> j < i + int (Suc n)" for j
    using f(2,3) that by (cases "j = i") auto
  moreover have "?s\<lparr>porttab := f\<rparr> = s\<lparr>porttab := f\<rparr>" by (simp add: uport_def)
  ultimately show ?case using f by (intro exI[of _ f]) simp
qed

lemma ptinit_nodes_eq:
  assumes "0 < a" "a mod 8 = 0"
  shows "\<exists>m. ptinit_nodes n a s = s\<lparr>hp := (hp s)\<lparr>mem := m\<rparr>\<rparr> \<and> linked m 4 a (slots a 8 (Suc n)) \<and>
    (\<forall>x. x - 4 \<notin> set (slots a 8 (Suc n)) \<longrightarrow> m x = mem (hp s) x)"
  using assms
proof (induction n arbitrary: a s)
  case 0
  then show ?case by (intro exI[of _ "(mem (hp s))(a + 4 := 0)"] conjI) (simp add: setword_def del: fun_upd_apply, auto)
next
  case (Suc n)
  let ?s = "setword (a + 4) (a + 8) s"
  obtain m where m: "ptinit_nodes n (a + 8) ?s = ?s\<lparr>hp := (hp ?s)\<lparr>mem := m\<rparr>\<rparr>"
      "linked m 4 (a + 8) (slots (a + 8) 8 (Suc n))"
      "\<And>x. x - 4 \<notin> set (slots (a + 8) 8 (Suc n)) \<Longrightarrow> m x = mem (hp ?s) x"
    using Suc.IH[of "a + 8" ?s] Suc.prems by auto
  have "a \<notin> set (slots (a + 8) 8 (Suc n))" using slots_range[of 8] by fastforce
  then have "m (a + 4) = a + 8" using m(3)[of "a + 4"] by simp
  then show ?case using m Suc.prems by (intro exI[of _ m]) (auto simp: setword_def)
qed

lemma kinv_ptinit_nodes:
  "kinv s \<Longrightarrow> \<forall>w\<in>set (slots a 8 (Suc n)). safe fl s w \<Longrightarrow>
   kinv (ptinit_nodes n a s) \<and> (\<forall>y. safe fl s y \<longrightarrow> safe fl (ptinit_nodes n a s) y)"
proof (induction n arbitrary: a s)
  case 0
  then show ?case by (auto intro: kinv_safe safe_kept)
next
  case (Suc n)
  let ?s = "setword (a + 4) (a + 8) s"
  have w: "safe fl s a" "\<forall>w\<in>set (slots (a + 8) 8 (Suc n)). safe fl s w" using Suc.prems(2) by simp_all
  have "kinv (ptinit_nodes n (a + 8) ?s) \<and> (\<forall>y. safe fl ?s y \<longrightarrow> safe fl (ptinit_nodes n (a + 8) ?s) y)"
    by (rule Suc.IH) (use w Suc.prems(1) kinv_safe(2) safe_kept(4) in blast)+
  then show ?case using safe_kept(4)[OF w(1)] by simp
qed

lemma slots_aligned: "x \<in> set (slots a 8 n) \<Longrightarrow> a mod 8 = 0 \<Longrightarrow> x mod 8 = 0"
  by (induction n arbitrary: a) auto

lemma ptinit_run:
  assumes inv: "kinv s" and rep: "heap_rep (hp s) fl" and n: "1 \<le> maxmsgs" "maxmsgs * 8 < 4294967288"
  shows "case ptinit maxmsgs s of
      Fault \<Rightarrow> heap_getmem (maxmsgs * 8) (hp s) = Some (u32 SYSERR, hp s)
    | Return r s' \<Rightarrow> r = OK \<and> kinv s' \<and> currpid s' = currpid s \<and> semtab s' = semtab s \<and> ptnextid s' = 0 \<and> (\<forall>i \<in> ports. ptstate (porttab s' i) = PT_FREE) \<and>
        (\<exists>p ys. port_rep s' (slots p 8 (nat maxmsgs)) (\<lambda>_. []) \<and> region p (maxmsgs * 8) \<subseteq> bytes fl \<and>
           (\<forall>x \<in> set (slots p 8 (nat maxmsgs)). safe ys s' x))
    | Switch _ _ \<Rightarrow> False"
proof -
  have u: "u32 (maxmsgs * 8) = maxmsgs * 8" "0 < maxmsgs * 8" using n by simp_all
  show ?thesis
    using inv rep u(2) n(2)
  proof (cases rule: getmem_kinv)
    case full
    then show ?thesis by (simp add: ptinit_def u(1) Let_def)
  next
    case (block p h ys)
    have p: "0 < p" "p \<noteq> u32 SYSERR" using block(6,7) rep by (auto simp: heap_rep_def frame_ok_def u32_def)
    let ?s0 = "s\<lparr>hp := h, ptfree := p\<rparr>" let ?n = "nat (maxmsgs - 1)"
    have N: "nat maxmsgs = Suc ?n" using n by simp
    obtain f where f: "ptinit_ports (nat NPORTS) 0 ?s0 = ?s0\<lparr>porttab := f\<rparr>" "\<forall>j. 0 \<le> j \<and> j < 30 \<longrightarrow> ptstate (f j) = PT_FREE"
      using ptinit_ports_eq[of "nat NPORTS" 0 ?s0] by auto
    let ?s1 = "?s0\<lparr>porttab := f, ptnextid := 0\<rparr>" let ?s2 = "ptinit_nodes ?n p ?s1" let ?xs = "slots p 8 (nat maxmsgs)"
    have run: "ptinit maxmsgs s = Return OK ?s2" using f(1) p(2) by (simp add: ptinit_def u(1) block(1) Let_def)
    have k1: "kinv ?s1" by (rule kinv_fields[OF block(2)]) simp_all
    have "roundmb (maxmsgs * 8) = maxmsgs * 8" using n by (intro roundmb_idem) simp_all
    then have reg: "region p (maxmsgs * 8) \<union> bytes ys = bytes fl" "region p (maxmsgs * 8) \<inter> bytes ys = {}"
      using block(4,5) by simp_all
    have safe: "safe ys ?s1 x" if "x \<in> set ?xs" for x
    proof -
      have x: "p \<le> x" "x + 8 \<le> p + maxmsgs * 8" using slots_range[OF _ that] n by auto
      then have "x \<in> region p (maxmsgs * 8)" "x + 4 \<in> region p (maxmsgs * 8)" by (simp_all add: region_def)
      then show ?thesis using reg(2) block(3,7,9) x(1) by (auto simp: safe_def writable_def)
    qed
    have k2: "kinv ?s2" "\<forall>x \<in> set ?xs. safe ys ?s2 x" using kinv_ptinit_nodes[OF k1, of p ?n ys] safe N by auto
    obtain m where m: "?s2 = ?s1\<lparr>hp := (hp ?s1)\<lparr>mem := m\<rparr>\<rparr>" "linked m 4 p ?xs"
      using ptinit_nodes_eq[OF p(1) block(6), of ?n ?s1] N by auto
    have tab: "porttab ?s2 = f" "ptfree ?s2 = p" "mem (hp ?s2) = m" unfolding m(1) by simp_all
    have "currpid ?s2 = currpid s" "semtab ?s2 = semtab s" "ptnextid ?s2 = 0" unfolding m(1) by simp_all
    moreover have "kinv ?s2" "\<forall>x \<in> set ?xs. safe ys ?s2 x" by (rule k2)+
    moreover have ok: "nodes_ok ?xs (\<lambda>_. [])" using slots_distinct[of 8 p] slots_aligned[OF _ block(6)] by (auto simp: nodes_ok_def)
    have "port_rep ?s2 ?xs (\<lambda>_. [])" using ok unfolding port_rep_def tab using m(2) f(2) by simp
    moreover have "\<forall>i \<in> ports. ptstate (porttab ?s2 i) = PT_FREE" unfolding tab using f(2) by simp
    moreover have "region p (maxmsgs * 8) \<subseteq> bytes fl" using reg(1) by blast
    ultimately show ?thesis unfolding run step.case by blast
  qed
qed

text \<open>\<^verbatim>\<open>ptinit\<close> takes the storage for the message nodes from the free list, or panics when there
  is none; all ports are then free, the free nodes lie one behind the other in that storage, and
  writing them cannot disturb the free list.\<close>

theorem ptinit_correct:
  assumes inv: "kinv s" and rep: "heap_rep (hp s) fl" and n: "1 \<le> maxmsgs" "maxmsgs * 8 < 4294967288"
  shows "case ptinit maxmsgs s of
      Fault \<Rightarrow> heap_getmem (maxmsgs * 8) (hp s) = Some (u32 SYSERR, hp s)
    | Return r s' \<Rightarrow> r = OK \<and> kinv s' \<and> currpid s' = currpid s \<and> semtab s' = semtab s \<and> ptnextid s' = 0 \<and> (\<forall>i \<in> ports. ptstate (porttab s' i) = PT_FREE) \<and>
        (\<exists>p ys. port_rep s' (slots p 8 (nat maxmsgs)) (\<lambda>_. []) \<and> region p (maxmsgs * 8) \<subseteq> bytes fl \<and>
           (\<forall>x \<in> set (slots p 8 (nat maxmsgs)). safe ys s' x))
    | Switch _ _ \<Rightarrow> False"
  by (rule ptinit_run[OF assms])

section \<open>Creating\<close>

lemma ptcreate_scan_spec:
  "0 \<le> ptnextid s \<Longrightarrow> ptnextid s < NPORTS \<Longrightarrow> ptcreate_scan n s = (r, s') \<Longrightarrow>
   \<exists>m. s' = s\<lparr>ptnextid := m\<rparr> \<and> 0 \<le> m \<and> m < NPORTS \<and>
     (case r of Some p \<Rightarrow> p \<in> ports \<and> ptstate (porttab s p) = PT_FREE
      | None \<Rightarrow> \<forall>k<n. ptstate (porttab s ((ptnextid s + int k) mod NPORTS)) \<noteq> PT_FREE)"
proof (induction n arbitrary: s)
  case 0
  then show ?case by (intro exI[of _ "ptnextid s"]) auto
next
  case (Suc n)
  define m0 where "m0 = (if ptnextid s + 1 \<ge> NPORTS then 0 else ptnextid s + 1)"
  have m: "0 \<le> m0" "m0 < NPORTS" "m0 = (ptnextid s + 1) mod NPORTS"
    using Suc.prems(1,2) by (auto simp: m0_def not_le) (cases "ptnextid s = 29"; simp)
  show ?case
  proof (cases "ptstate (porttab s (ptnextid s)) = PT_FREE")
    case True
    then show ?thesis using Suc.prems m(1,2) by (intro exI[of _ m0]) (auto simp: Let_def m0_def)
  next
    case False
    then have "ptcreate_scan n (s\<lparr>ptnextid := m0\<rparr>) = (r, s')" using Suc.prems(3) by (simp add: Let_def m0_def)
    from Suc.IH[OF _ _ this] m(1,2) obtain m' where m': "s' = s\<lparr>ptnextid := m'\<rparr>" "0 \<le> m'" "m' < NPORTS"
      "case r of Some p \<Rightarrow> p \<in> ports \<and> ptstate (porttab s p) = PT_FREE
       | None \<Rightarrow> \<forall>k<n. ptstate (porttab s ((m0 + int k) mod NPORTS)) \<noteq> PT_FREE" by (auto cong: option.case_cong)
    have "ptstate (porttab s ((ptnextid s + int k) mod NPORTS)) \<noteq> PT_FREE"
      if "r = None" "k < Suc n" for k
    proof (cases k)
      case 0
      then show ?thesis using False Suc.prems(1,2) by simp
    next
      case (Suc j)
      have "(m0 + int j) mod NPORTS = (ptnextid s + int k) mod NPORTS"
        unfolding m(3) Suc by (simp add: mod_simps add.assoc)
      then show ?thesis using m'(4) that Suc by (auto split: option.splits)
    qed
    then show ?thesis using m' by (intro exI[of _ m']) (auto split: option.splits)
  qed
qed

lemma ptcreate_scan_none:
  assumes "0 \<le> ptnextid s" "ptnextid s < NPORTS" "ptcreate_scan (nat NPORTS) s = (None, s')" "p \<in> ports"
  shows "ptstate (porttab s p) \<noteq> PT_FREE"
proof -
  have "\<forall>k<nat NPORTS. ptstate (porttab s ((ptnextid s + int k) mod NPORTS)) \<noteq> PT_FREE"
    using ptcreate_scan_spec[OF assms(1,2,3)] by auto
  moreover have "nat ((p - ptnextid s) mod NPORTS) < nat NPORTS" by simp
  moreover have "(ptnextid s + int (nat ((p - ptnextid s) mod NPORTS))) mod NPORTS = p"
    using assms(4) by (simp add: mod_simps)
  ultimately show ?thesis by metis
qed

lemma ptcreate_run:
  assumes inv: "kinv s" and nx: "0 \<le> ptnextid s" "ptnextid s < NPORTS"
    and rep: "port_rep s fs ns" "\<forall>x \<in> set fs. safe fl s x"
    and count: "0 \<le> count" "count \<le> int (length fs)" "count < 2147483647"
    and sems: "\<not> isbadsem a" "sstate (semtab s a) = S_FREE" "\<not> isbadsem b" "sstate (semtab s b) = S_FREE" "a \<noteq> b"
  shows "case ptcreate count s of
      Return r s' \<Rightarrow> kinv s' \<and> currpid s' = currpid s \<and>
        (r = SYSERR \<and> (\<forall>i \<in> ports. ptstate (porttab s i) \<noteq> PT_FREE) \<or>
         ptstate (porttab s r) = PT_FREE \<and> port_ok fl r s' [] (nat count))
    | _ \<Rightarrow> False"
proof -
  obtain r s0 where sc: "ptcreate_scan (nat NPORTS) s = (r, s0)" by fastforce
  obtain m where m: "s0 = s\<lparr>ptnextid := m\<rparr>" using ptcreate_scan_spec[OF nx sc] by blast
  have k0: "kinv s0" unfolding m by (rule kinv_fields[OF inv]) simp_all
  show ?thesis
  proof (cases r)
    case None
    then have "ptcreate count s = Return SYSERR s0" using count sc by (simp add: ptcreate_def)
    then show ?thesis using k0 ptcreate_scan_none[OF nx] sc None by (simp add: m)
  next
    case (Some p)
    have p: "p \<in> ports" "ptstate (porttab s p) = PT_FREE" using ptcreate_scan_spec[OF nx sc] Some by auto
    let ?s1 = "uport p (\<lambda>e. e\<lparr>ptstate := PT_ALLOC\<rparr>) s0"
    obtain x m1 where x: "\<not> isbadsem x" "sstate (semtab ?s1 x) = S_FREE" "semcreate count ?s1 =
        Return x (upsem x (\<lambda>e. e\<lparr>sstate := S_USED, scount := count\<rparr>) (?s1\<lparr>nextsem := m1\<rparr>))"
      "kinv (upsem x (\<lambda>e. e\<lparr>sstate := S_USED, scount := count\<rparr>) (?s1\<lparr>nextsem := m1\<rparr>))"
      using semcreate_free[OF kinv_uport[OF k0, of p "\<lambda>e. e\<lparr>ptstate := PT_ALLOC\<rparr>"], of count a] sems(1,2) count
      by (auto simp: m)
    let ?s2 = "uport p (\<lambda>e. e\<lparr>ptssem := x\<rparr>) (upsem x (\<lambda>e. e\<lparr>sstate := S_USED, scount := count\<rparr>) (?s1\<lparr>nextsem := m1\<rparr>))"
    have "\<exists>c. \<not> isbadsem c \<and> sstate (semtab ?s2 c) = S_FREE"
      using sems by (cases "x = a") (auto simp: m upsem_def intro: exI[of _ a] exI[of _ b])
    then obtain y m2 where y: "\<not> isbadsem y" "sstate (semtab ?s2 y) = S_FREE" "semcreate 0 ?s2 =
        Return y (upsem y (\<lambda>e. e\<lparr>sstate := S_USED, scount := 0\<rparr>) (?s2\<lparr>nextsem := m2\<rparr>))"
      "kinv (upsem y (\<lambda>e. e\<lparr>sstate := S_USED, scount := 0\<rparr>) (?s2\<lparr>nextsem := m2\<rparr>))"
      using semcreate_free[OF kinv_uport[OF x(4)], of 0] by (metis zero_less_numeral order_refl)
    let ?f = "\<lambda>e. e\<lparr>ptrsem := y, pthead := NULL, pttail := NULL, ptseq := i32 (ptseq e + 1), ptmaxcnt := u16 count\<rparr>"
    let ?s3 = "uport p ?f (upsem y (\<lambda>e. e\<lparr>sstate := S_USED, scount := 0\<rparr>) (?s2\<lparr>nextsem := m2\<rparr>))"
    have run: "ptcreate count s = Return p ?s3" using count sc Some x(3) y(3) by (simp add: ptcreate_def Let_def)
    have k3: "kinv ?s3" by (rule kinv_uport[OF y(4)])
    have xy: "x \<noteq> y" using y(2) by (auto simp: upsem_def)
    have e: "porttab ?s3 p = ?f ((porttab s p)\<lparr>ptstate := PT_ALLOC, ptssem := x\<rparr>)" "\<And>i. i \<noteq> p \<Longrightarrow> porttab ?s3 i = porttab s i"
      "hp ?s3 = hp s" "ptfree ?s3 = ptfree s" by (simp_all add: m upsem_def)
    have np: "ns p = []" using rep(1) p by (auto simp: port_rep_def)
    have "port_rep ?s3 fs ns"
    proof (rule port_rep_change[OF rep(1), of p])
      show "linked (mem (hp ?s3)) 4 (ptfree ?s3) fs" "nodes_ok fs ns" using rep(1) e by (simp_all add: port_rep_def)
      show "port_queue (mem (hp ?s3)) (porttab ?s3 p) (ns p)" unfolding e(1) np by (simp add: port_queue_def)
      show "ptstate (porttab ?s3 p) = PT_ALLOC" unfolding e(1) by simp
    qed (use e in simp_all)
    moreover have "port_sems ?s3 p count 0"
      unfolding port_sems_def used_sem_def e(1) using x(1) y(1) xy by (simp add: upsem_def)
    moreover have "ptstate (porttab ?s3 p) = PT_ALLOC" unfolding e(1) by simp
    moreover have "\<forall>z \<in> set fs \<union> set (ns p). safe fl ?s3 z" using rep(2) np e(3) by (simp add: safe_def writable_def)
    ultimately have "port_ok fl p ?s3 [] (nat count)"
      unfolding port_ok_def using p(1) count np by (intro conjI exI[of _ fs] exI[of _ ns]) (simp_all add: messages_def)
    moreover have "currpid ?s3 = currpid s" by (simp add: m upsem_def)
    ultimately show ?thesis unfolding run using k3 p(2) by simp
  qed
qed

text \<open>\<^verbatim>\<open>ptcreate\<close> takes a free port whatever \<^verbatim>\<open>ptnextid\<close> is, or returns \<^verbatim>\<open>SYSERR\<close> when no port is free;
  as long as two semaphores are free, the port it returns is an empty queue with room for \<open>count\<close>
  messages.\<close>

theorem ptcreate_correct:
  assumes inv: "kinv s" and nx: "0 \<le> ptnextid s" "ptnextid s < NPORTS"
    and rep: "port_rep s fs ns" "\<forall>x \<in> set fs. safe fl s x"
    and count: "0 \<le> count" "count \<le> int (length fs)" "count < 2147483647"
    and sems: "\<not> isbadsem a" "sstate (semtab s a) = S_FREE" "\<not> isbadsem b" "sstate (semtab s b) = S_FREE" "a \<noteq> b"
  shows "case ptcreate count s of
      Return r s' \<Rightarrow> kinv s' \<and> currpid s' = currpid s \<and>
        (r = SYSERR \<and> (\<forall>i \<in> ports. ptstate (porttab s i) \<noteq> PT_FREE) \<or>
         ptstate (porttab s r) = PT_FREE \<and> port_ok fl r s' [] (nat count))
    | _ \<Rightarrow> False"
  by (rule ptcreate_run[OF assms])

end
