(* ===== verification/Port_Examples.thy ===== *)
theory Port_Examples
  imports Examples Ports
begin

text \<open>
  Concrete states for the buffer pools and the ports: the first process runs, no pool has been made, and the search for a free port starts at 0.
\<close>

definition demo :: kstate where
  "demo = run1\<lparr>nbpools := 0, ptnextid := 0\<rparr>"

lemma demo: "kinv demo" "currpid demo \<noteq> 0" "heap_rep (hp demo) [(0x80100000, 0x1FEFD000)]" "nbpools demo = 0" "ptnextid demo = 0"
  "\<not> isbadsem i \<Longrightarrow> sstate (semtab demo i) = S_FREE"
proof -
  show "kinv demo" unfolding demo_def by (rule kinv_fields[OF run1(2)]) simp_all
  show "heap_rep (hp demo) [(0x80100000, 0x1FEFD000)]" using created1(15) run1(10) by (simp add: demo_def)
qed (use run1_facts(1) run1(6) boot0(7) in \<open>simp_all add: demo_def\<close>)

section \<open>Ports\<close>

definition ptready :: kstate where "ptready = after (ptinit 4 demo)"

lemma getmem32: "heap_getmem 32 (hp demo) \<noteq> Some (u32 SYSERR, hp demo)"
  using heap_getmem_eq[OF demo(3), of 32] by (auto simp: roundmb_def Let_def u32_def)

lemma ptready:
  "kinv ptready" "currpid ptready \<noteq> 0" "semtab ptready = semtab demo" "ptnextid ptready = 0"
  "\<forall>i\<in>ports. ptstate (porttab ptready i) = PT_FREE"
  "\<exists>p ys. port_rep ptready (slots p 8 4) (\<lambda>_. []) \<and> (\<forall>x\<in>set (slots p 8 4). safe ys ptready x)"
  using ptinit_run[OF demo(1,3), of 4] getmem32 demo(2) unfolding ptready_def by (auto split: step.splits)

theorem ptinit_correct_witness:
  "\<exists>r s'. ptinit 4 demo = Return r s' \<and> r = OK \<and> kinv s' \<and> (\<forall>i\<in>ports. ptstate (porttab s' i) = PT_FREE) \<and>
     (\<exists>p ys. port_rep s' (slots p 8 4) (\<lambda>_. []))"
  using ptinit_correct[OF demo(1,3), of 4] getmem32 by (auto split: step.splits)

definition pt1 :: int where "pt1 = result (ptcreate 3 ptready)"
definition ptmade :: kstate where "ptmade = after (ptcreate 3 ptready)"

lemma free_sems: "sstate (semtab ptready 0) = S_FREE" "sstate (semtab ptready 1) = S_FREE" "\<not> isbadsem 0" "\<not> isbadsem 1"
  using demo(6)[of 0] demo(6)[of 1] ptready(3) by (simp_all add: isbadsem_def)

lemma ptmade: "kinv ptmade" "currpid ptmade \<noteq> 0" "\<exists>fl. port_ok fl pt1 ptmade [] 3"
proof -
  obtain p ys where r: "port_rep ptready (slots p 8 4) (\<lambda>_. [])" "\<forall>x\<in>set (slots p 8 4). safe ys ptready x"
    using ptready(6) by blast
  have "\<not> (\<forall>i \<in> ports. ptstate (porttab ptready i) \<noteq> PT_FREE)" using ptready(5) by (auto intro!: bexI[of _ 0])
  then show "kinv ptmade" "currpid ptmade \<noteq> 0" "\<exists>fl. port_ok fl pt1 ptmade [] 3"
    using ptcreate_run[OF ptready(1) _ _ r, of 3 0 1] free_sems ptready(2,4) unfolding ptmade_def pt1_def
    by (auto split: step.splits)
qed

theorem ptcreate_correct_witness:
  "\<exists>r s' fl. ptcreate 3 ptready = Return r s' \<and> kinv s' \<and> port_ok fl r s' [] 3"
proof -
  obtain p ys where r: "port_rep ptready (slots p 8 4) (\<lambda>_. [])" "\<forall>x\<in>set (slots p 8 4). safe ys ptready x"
    using ptready(6) by blast
  have "\<not> (\<forall>i \<in> ports. ptstate (porttab ptready i) \<noteq> PT_FREE)" using ptready(5) by (auto intro!: bexI[of _ 0])
  then show ?thesis
    using ptcreate_correct[OF ptready(1) _ _ r, of 3 0 1] free_sems ptready(4) by (auto split: step.splits)
qed

theorem port_fifo_witness:
  "\<exists>s1 s2. enq_all (send_call pt1) [11, 12, 13] ptmade = Some s1 \<and>
     deq_all (recv_call pt1) 3 s1 = Some ([11, 12, 13], s2) \<and> kinv s2"
proof -
  obtain fl where "port_ok fl pt1 ptmade [] (length [11::int, 12, 13] + 0)" using ptmade(3) by (auto simp: numeral_3_eq_3)
  from port_fifo[OF ptmade(1,2) this] show ?thesis by (auto simp: numeral_3_eq_3)
qed

section \<open>Buffer pools\<close>

lemma getmem_pool: "heap_getmem 36 (hp demo) \<noteq> Some (u32 SYSERR, hp demo)"
  using heap_getmem_eq[OF demo(3), of 36] by (auto simp: roundmb_def Let_def u32_def)

lemma pool_free: "\<not> (\<forall>i. \<not> isbadsem i \<longrightarrow> sstate (semtab demo i) = S_USED)"
  using demo(6)[of 0] by (auto simp: isbadsem_def intro!: exI[of _ 0])

lemma pool_args: "roundew 8 = 8" by (simp add: roundew_def)

definition pooled :: kstate where "pooled = after (mkbufpool 8 3 demo)"

lemma pooled:
  "kinv pooled" "currpid pooled \<noteq> 0" "nbpools pooled = 1"
  "\<exists>buf sz ys. pool_ok pooled 0 (slots buf sz 3) \<and> (\<forall>x\<in>set (slots buf sz 3). writable ys pooled x)"
  using mkbufpool_run[OF demo(1) _ _ _ _ _ _ demo(3), of 8 3] demo(2,4) getmem_pool pool_free unfolding pooled_def
  by (auto simp: pool_args split: step.splits)

theorem mkbufpool_correct_witness:
  "\<exists>s' buf sz. mkbufpool 8 3 demo = Return 0 s' \<and> kinv s' \<and> pool_ok s' 0 (slots buf sz 3)"
  using mkbufpool_correct[OF demo(1) _ _ _ _ _ _ demo(3), of 8 3] demo(4) getmem_pool pool_free
  by (auto simp: pool_args split: step.splits)

theorem getbuf_freebuf_witness:
  "\<exists>x s1 s2. getbuf 0 pooled = Return x s1 \<and> kinv s1 \<and> freebuf x s1 = Return OK s2 \<and> kinv s2"
proof -
  obtain buf sz ys where p: "pool_ok pooled 0 (slots buf sz 3)" "\<forall>x\<in>set (slots buf sz 3). writable ys pooled x"
    using pooled(4) by blast
  have s: "slots buf sz 3 = buf # slots (buf + sz) sz 2" by (simp add: numeral_3_eq_3 numeral_2_eq_2)
  have w: "writable ys pooled buf" using p(2) by (simp add: s)
  show ?thesis using getbuf_freebuf[OF pooled(1) _ _ _ p(1)[unfolded s] pooled(2) _ w] pooled(3) by simp blast
qed

end
