(* ===== verification/Device_State.thy ===== *)
theory Device_State
  imports Sem_Spec
begin

text \<open>
  A driver works on the kernel's state and on a state of its own, the pair of both. A kernel call made
  by a driver leaves the driver's state alone, but while its caller is switched out both parts may
  change. Also here: the interrupt controller of \<^verbatim>\<open>system/evec.c\<close>.
\<close>

primrec ext :: "(kstate, 'a) step \<Rightarrow> 'd \<Rightarrow> (kstate \<times> 'd, 'a) step" where
  "ext Fault d = Fault"
| "ext (Return a s) d = Return a (s, d)"
| "ext (Switch s k) d = Switch (s, d) (\<lambda>sd. ext (k (fst sd)) (snd sd))"

definition onk :: "(kstate \<Rightarrow> (kstate, 'a) step) \<Rightarrow> kstate \<times> 'd \<Rightarrow> (kstate \<times> 'd, 'a) step" where
  "onk f sd = ext (f (fst sd)) (snd sd)"

definition ond :: "('d \<Rightarrow> ('a \<times> 'd) option) \<Rightarrow> kstate \<times> 'd \<Rightarrow> (kstate \<times> 'd, 'a) step" where
  "ond f sd = (case f (snd sd) of None \<Rightarrow> Fault | Some (a, d) \<Rightarrow> Return a (fst sd, d))"

definition onu :: "('d \<Rightarrow> 'd option) \<Rightarrow> kstate \<times> 'd \<Rightarrow> (kstate \<times> 'd, unit) step" where
  "onu f sd = (case f (snd sd) of None \<Rightarrow> Fault | Some d \<Rightarrow> Return () (fst sd, d))"

lemma onk_Return: "f s = Return a s' \<Longrightarrow> onk f (s, d) = Return a (s', d)"
  by (simp add: onk_def)

lemma ond_Some: "f d = Some (a, d') \<Longrightarrow> ond f (s, d) = Return a (s, d')"
  by (simp add: ond_def)

lemma onu_Some: "f d = Some d' \<Longrightarrow> onu f (s, d) = Return () (s, d')"
  by (simp add: onu_def)

lemma onu_pure [simp]: "onu (\<lambda>d. Some (g d)) sd = Return () (fst sd, g (snd sd))"
  by (simp add: onu_def)

lemma ond_pure [simp]: "ond (\<lambda>d. Some (g d)) sd = Return (fst (g (snd sd))) (fst sd, snd (g (snd sd)))"
  by (simp add: ond_def split: prod.splits)

section \<open>Semaphores nobody waits on\<close>

text \<open>
  With a count that is not negative, \<^verbatim>\<open>signal\<close>, \<^verbatim>\<open>signaln\<close> and, when the count is positive, \<^verbatim>\<open>wait\<close> only
  change the count; this needs no more of the kernel's invariant.
\<close>

definition sem_has :: "kstate \<Rightarrow> int \<Rightarrow> int \<Rightarrow> bool" where
  "sem_has s i c \<longleftrightarrow> \<not> isbadsem i \<and> sstate (semtab s i) = S_USED \<and> scount (semtab s i) = c"

definition set_count :: "int \<Rightarrow> int \<Rightarrow> kstate \<Rightarrow> kstate" where
  "set_count i c s = upsem i (\<lambda>e. e\<lparr>scount := c\<rparr>) s"

lemma set_count_has: "sem_has s i c \<Longrightarrow> sem_has (set_count i c' s) i c'"
  by (simp add: sem_has_def set_count_def upsem_def)

lemma set_count_idem [simp]: "set_count i c' (set_count i c s) = set_count i c' s"
  by (simp add: set_count_def upsem_def)

lemma set_count_other: "sem_has s j c \<Longrightarrow> i \<noteq> j \<Longrightarrow> sem_has (set_count i c' s) j c"
  by (simp add: sem_has_def set_count_def upsem_def)

lemma set_count_same: "sem_has s i c \<Longrightarrow> set_count i c s = s"
proof -
  assume "sem_has s i c"
  then have "(semtab s i)\<lparr>scount := c\<rparr> = semtab s i" by (auto simp: sem_has_def)
  then have "(semtab s)(i := (semtab s i)\<lparr>scount := c\<rparr>) = semtab s" by simp
  then show ?thesis by (simp add: set_count_def upsem_def)
qed

lemma semcount_has: "sem_has s i c \<Longrightarrow> semcount i s = Return c s"
  by (simp add: semcount_def sem_has_def)

lemma wait_has: "sem_has s i (int n + 1) \<Longrightarrow> int n < 2147483647 \<Longrightarrow> wait i s = Return OK (set_count i (int n) s)"
  by (simp add: wait_def sem_has_def Let_def set_count_def upsem_def)

lemma signal_once_has:
  "sem_has s i (int n) \<Longrightarrow> int n < 2147483647 \<Longrightarrow> signal_once i s = Return () (set_count i (int n + 1) s)"
  by (simp add: signal_once_def sem_has_def Let_def set_count_def upsem_def)

lemma signal_has: "sem_has s i (int n) \<Longrightarrow> int n < 2147483647 \<Longrightarrow> signal i s = Return OK (set_count i (int n + 1) s)"
  using signal_once_has[of s i n] by (simp add: signal_def sem_has_def)

lemma signaln_loop_has:
  "sem_has s i (int n) \<Longrightarrow> int n + int k < 2147483647 \<Longrightarrow> signaln_loop k i s = Return () (set_count i (int n + int k) s)"
proof (induction k arbitrary: s n)
  case 0
  then show ?case using set_count_same[OF 0(1)] by simp
next
  case (Suc k)
  have "sem_has (set_count i (int (Suc n)) s) i (int (Suc n))" using set_count_has Suc.prems(1) by blast
  then show ?case using Suc.IH[of "set_count i (int (Suc n)) s" "Suc n"] signal_once_has[OF Suc.prems(1)] Suc.prems(2)
    by (simp add: algebra_simps)
qed

lemma signaln_has:
  assumes h: "sem_has s i (int n)" and max: "int n + int k < 2147483647" and nd: "0 \<le> ndefers s" "ndefers s < 2147483647"
  shows "signaln i (int k) s = Return OK ((set_count i (int n + int k) s)\<lparr>attempt := (ndefers s \<noteq> 0 \<and> attempt s)\<rparr>)"
proof -
  let ?s1 = "s\<lparr>ndefers := ndefers s + 1, attempt := (ndefers s \<noteq> 0 \<and> attempt s)\<rparr>"
  have st: "resched_cntl DEFER_START s = Return OK ?s1" using nd by (simp add: resched_cntl_def DEFER_START_def Let_def)
  have h1: "sem_has ?s1 i (int n)" using h by (simp add: sem_has_def)
  have "resched_cntl DEFER_STOP (set_count i (int n + int k) ?s1) =
      Return OK ((set_count i (int n + int k) s)\<lparr>attempt := (ndefers s \<noteq> 0 \<and> attempt s)\<rparr>)"
    using nd by (cases "ndefers s = 0") (simp_all add: resched_cntl_def DEFER_START_def DEFER_STOP_def Let_def set_count_def upsem_def)
  then show ?thesis using h st signaln_loop_has[OF h1 max] by (simp add: signaln_def sem_has_def)
qed

text \<open>The kernel's state is as it was but for the count of one semaphore and the flag of a deferred call.\<close>

definition only_sem :: "int \<Rightarrow> kstate \<Rightarrow> kstate \<Rightarrow> bool" where
  "only_sem i s s' \<longleftrightarrow> s'\<lparr>attempt := attempt s\<rparr> = set_count i (scount (semtab s' i)) s \<and> (attempt s' \<longrightarrow> attempt s)"

lemma only_sem_refl [simp]: "only_sem i s s"
  by (simp add: only_sem_def set_count_def upsem_def)

lemma only_sem_set: "(a \<longrightarrow> attempt s) \<Longrightarrow> only_sem i s ((set_count i c s)\<lparr>attempt := a\<rparr>)" "only_sem i s (set_count i c s)"
  by (simp_all add: only_sem_def set_count_def upsem_def)

lemma only_semD:
  assumes "only_sem i s s'"
  shows "ndefers s' = ndefers s" "\<And>j. j \<noteq> i \<Longrightarrow> semtab s' j = semtab s j" "currpid s' = currpid s"
    "proctab s' = proctab s" "queuetab s' = queuetab s"
proof -
  have e: "s'\<lparr>attempt := attempt s\<rparr> = s\<lparr>semtab := (semtab s)(i := (semtab s i)\<lparr>scount := scount (semtab s' i)\<rparr>)\<rparr>"
    using assms by (simp add: only_sem_def set_count_def upsem_def)
  show "ndefers s' = ndefers s" using arg_cong[OF e, of ndefers] by simp
  show "currpid s' = currpid s" using arg_cong[OF e, of currpid] by simp
  show "proctab s' = proctab s" using arg_cong[OF e, of proctab] by simp
  show "queuetab s' = queuetab s" using arg_cong[OF e, of queuetab] by simp
  show "semtab s' j = semtab s j" if "j \<noteq> i" for j using fun_cong[OF arg_cong[OF e, of semtab], of j] that by simp
qed

lemma only_sem_trans:
  assumes "only_sem i s s1" "only_sem i s1 s2"
  shows "only_sem i s s2"
proof -
  have "s2\<lparr>attempt := attempt s\<rparr> = (s2\<lparr>attempt := attempt s1\<rparr>)\<lparr>attempt := attempt s\<rparr>" by simp
  also have "\<dots> = set_count i (scount (semtab s2 i)) (s1\<lparr>attempt := attempt s\<rparr>)"
    using assms(2) by (simp add: only_sem_def set_count_def upsem_def)
  also have "\<dots> = set_count i (scount (semtab s2 i)) s" using assms(1) by (simp add: only_sem_def)
  finally show ?thesis using assms by (simp add: only_sem_def)
qed

section \<open>The interrupt controller\<close>

text \<open>
  \<open>mir\<close> has one mask word for every bank of 32 interrupts, \<open>newirqagr\<close> counts the acknowledgements.
  An entry 0 of the vector means no handler.
\<close>

unbundle bit_operations_syntax

record intc =
  intc_vector :: "int \<Rightarrow> int"
  mir :: "int \<Rightarrow> int"
  newirqagr :: nat

definition set_evec :: "int \<Rightarrow> int \<Rightarrow> intc \<Rightarrow> int \<times> intc" where
  "set_evec xnum handler c =
    (if xnum > 127 then (SYSERR, c)
     else let c = c\<lparr>intc_vector := (intc_vector c)(xnum := handler)\<rparr>;
              bank = xnum div 32;
              mask = push_bit (nat (xnum mod 32)) 1
          in (OK, c\<lparr>mir := (mir c)(bank := mir c bank AND u32 (NOT mask))\<rparr>))"

text \<open>\<^verbatim>\<open>irq_dispatch\<close> with the value of the register \<^verbatim>\<open>sir_irq\<close>; what the handlers do is \<open>run\<close>.\<close>

definition irq_dispatch :: "(int \<Rightarrow> int \<Rightarrow> 's \<Rightarrow> ('s, unit) step) \<Rightarrow> ('s \<Rightarrow> intc) \<Rightarrow> ((intc \<Rightarrow> intc) \<Rightarrow> 's \<Rightarrow> 's) \<Rightarrow>
    int \<Rightarrow> 's \<Rightarrow> ('s, unit) step" where
  "irq_dispatch run get upd sir_irq s =
    (let xnum = sir_irq AND 0x7F; handler = intc_vector (get s) xnum in
     bindk (if handler \<noteq> 0 then run handler xnum s else Return () s)
       (\<lambda>_ s. Return () (upd (\<lambda>c. c\<lparr>newirqagr := newirqagr c + 1\<rparr>) s)))"

end
