(* ===== verification/Cstring.thy ===== *)
theory Cstring
  imports Xinu_Prelude "HOL-Library.Sublist" "HOL-Library.List_Lexorder"
begin

text \<open>
  The string and memory functions of \<^verbatim>\<open>src/Xinu/lib\<close> on a byte store: an address is an integer,
  the store gives the byte (0 to 255, since \<^verbatim>\<open>char\<close> is unsigned on ARM) at every address. A loop
  that the code leaves only when it meets a certain byte is a partial function, undefined when it
  meets none. The specifications read the store through \<open>cstr\<close>, the C strings in it, and \<open>blk\<close>,
  its blocks.
\<close>

type_synonym store = "int \<Rightarrow> int"

definition u8 :: "int \<Rightarrow> int" where "u8 x = x mod 256"

lemma u8_id [simp]: "0 \<le> x \<Longrightarrow> x < 256 \<Longrightarrow> u8 x = x"
  by (simp add: u8_def)

section \<open>The code: strings\<close>

partial_function (option) strlen_loop :: "store \<Rightarrow> int \<Rightarrow> int \<Rightarrow> int option" where
  "strlen_loop M str len = (if M str \<noteq> 0 then strlen_loop M (str + 1) (i32 (len + 1)) else Some len)"

definition strlen :: "store \<Rightarrow> int \<Rightarrow> int option" where
  "strlen M str = strlen_loop M str 0"

partial_function (option) strnlen_loop :: "store \<Rightarrow> int \<Rightarrow> int \<Rightarrow> int \<Rightarrow> int option" where
  "strnlen_loop M s len n = (if M s \<noteq> 0 \<and> n < len then strnlen_loop M (s + 1) len (n + 1) else Some n)"

definition strnlen :: "store \<Rightarrow> int \<Rightarrow> int \<Rightarrow> int option" where
  "strnlen M s len = strnlen_loop M s len 0"

partial_function (option) strcpy_loop :: "int \<Rightarrow> int \<Rightarrow> store \<Rightarrow> store option" where
  "strcpy_loop tar src M =
    (let c = M src; M = M(tar := c) in if c \<noteq> 0 then strcpy_loop (tar + 1) (src + 1) M else Some M)"

definition strcpy :: "int \<Rightarrow> int \<Rightarrow> store \<Rightarrow> (int \<times> store) option" where
  "strcpy tar src M = map_option (\<lambda>M. (0, M)) (strcpy_loop tar src M)"

text \<open>\<^verbatim>\<open>while (++i < n) *s1++ = '\0'\<close>, and the loop around it.\<close>

function strncpy_pad :: "int \<Rightarrow> int \<Rightarrow> int \<Rightarrow> store \<Rightarrow> store" where
  "strncpy_pad i n s1 M =
    (let i = i + 1 in if i < n then strncpy_pad i n (s1 + 1) (M(s1 := 0)) else M)"
  by pat_completeness auto
termination by (relation "measure (\<lambda>(i, n, _, _). nat (n - i))") auto

function strncpy_loop :: "int \<Rightarrow> int \<Rightarrow> int \<Rightarrow> int \<Rightarrow> store \<Rightarrow> store" where
  "strncpy_loop i n s1 s2 M =
    (if i < n then
       let c = M s2; M = M(s1 := c) in
       if c = 0 then strncpy_pad i n (s1 + 1) M else strncpy_loop (i + 1) n (s1 + 1) (s2 + 1) M
     else M)"
  by pat_completeness auto
termination by (relation "measure (\<lambda>(i, n, _, _, _). nat (n - i))") auto

definition strncpy :: "int \<Rightarrow> int \<Rightarrow> int \<Rightarrow> store \<Rightarrow> int \<times> store" where
  "strncpy s1 s2 n M = (s1, strncpy_loop 0 n s1 s2 M)"

partial_function (option) strcmp :: "store \<Rightarrow> int \<Rightarrow> int \<Rightarrow> int option" where
  "strcmp M str1 str2 =
    (if M str1 = M str2 then if M str1 = 0 then Some 0 else strcmp M (str1 + 1) (str2 + 1)
     else if M str1 < M str2 then Some (-1) else Some 1)"

text \<open>In \<^verbatim>\<open>strncmp\<close> the second pointer is one ahead when the bytes differ; \<^verbatim>\<open>--s2\<close> takes it back.\<close>

function strncmp :: "store \<Rightarrow> int \<Rightarrow> int \<Rightarrow> int \<Rightarrow> int" where
  "strncmp M s1 s2 n =
    (let n = n - 1 in
     if n \<ge> 0 then
       if M s1 = M s2 then if M s1 = 0 then 0 else strncmp M (s1 + 1) (s2 + 1) n
       else M s1 - M s2
     else 0)"
  by pat_completeness auto
termination by (relation "measure (\<lambda>(_, _, _, n). nat n)") auto

partial_function (option) strchr :: "store \<Rightarrow> int \<Rightarrow> int \<Rightarrow> int option" where
  "strchr M s c =
    (if M s \<noteq> 0 then if M s = u8 c then Some s else strchr M (s + 1) c
     else if u8 c = M s then Some s else Some 0)"

partial_function (option) strrchr_loop :: "store \<Rightarrow> int \<Rightarrow> int \<Rightarrow> int \<Rightarrow> int option" where
  "strrchr_loop M s c r =
    (if M s \<noteq> 0 then strrchr_loop M (s + 1) c (if M s = u8 c then s else r)
     else if u8 c = M s then Some s else Some r)"

definition strrchr :: "store \<Rightarrow> int \<Rightarrow> int \<Rightarrow> int option" where
  "strrchr M s c = strrchr_loop M s c 0"

text \<open>The inner loop of \<^verbatim>\<open>strstr\<close> gives the final value of \<^verbatim>\<open>cr\<close>.\<close>

partial_function (option) strstr_match :: "store \<Rightarrow> int \<Rightarrow> int \<Rightarrow> int option" where
  "strstr_match M cq cr =
    (if M cq \<noteq> 0 \<and> M cr \<noteq> 0 then if M cq \<noteq> M cr then Some cr else strstr_match M (cq + 1) (cr + 1)
     else Some cr)"

partial_function (option) strstr :: "store \<Rightarrow> int \<Rightarrow> int \<Rightarrow> int option" where
  "strstr M cs ct =
    (if M cs \<noteq> 0 then
       if M cs = M ct then
         (case strstr_match M cs ct of None \<Rightarrow> None
          | Some cr \<Rightarrow> if M cr = 0 then Some cs else strstr M (cs + 1) ct)
       else strstr M (cs + 1) ct
     else Some 0)"

partial_function (option) strncat_end :: "store \<Rightarrow> int \<Rightarrow> int option" where
  "strncat_end M s1 = (if M s1 \<noteq> 0 then strncat_end M (s1 + 1) else Some s1)"

partial_function (option) strncat_loop :: "int \<Rightarrow> int \<Rightarrow> int \<Rightarrow> store \<Rightarrow> store option" where
  "strncat_loop s1 s2 n M =
    (let c = M s2; M = M(s1 := c) in
     if c \<noteq> 0 then
       if i32 (n - 1) < 0 then Some (M(s1 := 0)) else strncat_loop (s1 + 1) (s2 + 1) (i32 (n - 1)) M
     else Some M)"

definition strncat :: "int \<Rightarrow> int \<Rightarrow> int \<Rightarrow> store \<Rightarrow> (int \<times> store) option" where
  "strncat s1 s2 n M =
    (case strncat_end M s1 of None \<Rightarrow> None
     | Some e \<Rightarrow> map_option (\<lambda>M. (s1, M)) (strncat_loop e s2 n M))"

section \<open>The code: blocks of memory\<close>

primrec memcpy_loop :: "nat \<Rightarrow> int \<Rightarrow> int \<Rightarrow> store \<Rightarrow> store" where
  "memcpy_loop 0 dst src M = M"
| "memcpy_loop (Suc k) dst src M = memcpy_loop k (dst + 1) (src + 1) (M(dst := M src))"

definition memcpy :: "int \<Rightarrow> int \<Rightarrow> int \<Rightarrow> store \<Rightarrow> int \<times> store" where
  "memcpy s ct n M = (s, memcpy_loop (nat n) s ct M)"

primrec memset_loop :: "nat \<Rightarrow> int \<Rightarrow> int \<Rightarrow> store \<Rightarrow> store" where
  "memset_loop 0 cp c M = M"
| "memset_loop (Suc k) cp c M = memset_loop k (cp + 1) c (M(cp := u8 c))"

definition memset :: "int \<Rightarrow> int \<Rightarrow> int \<Rightarrow> store \<Rightarrow> int \<times> store" where
  "memset s c n M = (s, memset_loop (nat n) s c M)"

primrec memcmp_loop :: "nat \<Rightarrow> store \<Rightarrow> int \<Rightarrow> int \<Rightarrow> int" where
  "memcmp_loop 0 M c1 c2 = 0"
| "memcmp_loop (Suc k) M c1 c2 =
    (if M c1 \<noteq> M c2 then M c1 - M c2 else memcmp_loop k M (c1 + 1) (c2 + 1))"

definition memcmp :: "store \<Rightarrow> int \<Rightarrow> int \<Rightarrow> int \<Rightarrow> int" where
  "memcmp M s1 s2 n = memcmp_loop (nat n) M s1 s2"

definition bzero :: "int \<Rightarrow> int \<Rightarrow> store \<Rightarrow> store" where
  "bzero p len M = (if len \<le> 0 then M else memset_loop (nat len) p 0 M)"

section \<open>The code: numbers\<close>

definition abs_c :: "int \<Rightarrow> int" where
  "abs_c arg = (if arg < 0 then i32 (- arg) else arg)"

definition labs :: "int \<Rightarrow> int" where
  "labs arg = (if arg < 0 then i32 (- arg) else arg)"

text \<open>The scan for a sign: the pointer behind it and the flag \<^verbatim>\<open>f\<close>. Then the loop over the digits.\<close>

partial_function (option) atoi_sign :: "store \<Rightarrow> int \<Rightarrow> (int \<times> bool) option" where
  "atoi_sign M p =
    (if M p = 32 \<or> M p = 9 then atoi_sign M (p + 1)
     else if M p = 45 then Some (p + 1, True)
     else if M p = 43 then Some (p + 1, False)
     else Some (p, False))"

partial_function (option) atoi_digits :: "store \<Rightarrow> int \<Rightarrow> int \<Rightarrow> int option" where
  "atoi_digits M p n =
    (if M p \<ge> 48 \<and> M p \<le> 57 then atoi_digits M (p + 1) (i32 (n * 10 + M p - 48)) else Some n)"

definition atoi :: "store \<Rightarrow> int \<Rightarrow> int option" where
  "atoi M p =
    (case atoi_sign M p of None \<Rightarrow> None
     | Some (p, f) \<Rightarrow> map_option (\<lambda>n. if f then i32 (- n) else n) (atoi_digits M p 0))"

text \<open>\<^verbatim>\<open>long\<close> has the width of \<^verbatim>\<open>int\<close> on this machine.\<close>

definition atol :: "store \<Rightarrow> int \<Rightarrow> int option" where
  "atol M p =
    (case atoi_sign M p of None \<Rightarrow> None
     | Some (p, f) \<Rightarrow> map_option (\<lambda>n. if f then i32 (- n) else n) (atoi_digits M p 0))"

definition RAND_MAX :: int where "RAND_MAX = 2147483646"

definition rand_r :: "int \<Rightarrow> int \<times> int" where
  "rand_r seed = (let seed = u32 (16807 * seed) mod (RAND_MAX + 1) in (i32 seed, seed))"

definition rand :: "int \<Rightarrow> int \<times> int" where
  "rand rand_seed = rand_r rand_seed"

definition srand :: "int \<Rightarrow> int \<Rightarrow> int" where
  "srand seed rand_seed = seed"

lemmas clib_unfold = strlen_loop.simps strnlen_loop.simps strcpy_loop.simps strcmp.simps strchr.simps
  strrchr_loop.simps strstr_match.simps strstr.simps strncat_end.simps strncat_loop.simps
  atoi_sign.simps atoi_digits.simps

declare strncpy_pad.simps [simp del] strncpy_loop.simps [simp del] strncmp.simps [simp del]

section \<open>Strings and blocks in the store\<close>

text \<open>\<open>cstr M p xs\<close>: at \<open>p\<close> stands the string of the bytes \<open>xs\<close>, ended by the null byte.\<close>

primrec cstr :: "store \<Rightarrow> int \<Rightarrow> int list \<Rightarrow> bool" where
  "cstr M p [] \<longleftrightarrow> M p = 0"
| "cstr M p (x # xs) \<longleftrightarrow> M p = x \<and> 0 < x \<and> x < 256 \<and> cstr M (p + 1) xs"

primrec blk :: "store \<Rightarrow> int \<Rightarrow> nat \<Rightarrow> int list" where
  "blk M p 0 = []"
| "blk M p (Suc n) = M p # blk M (p + 1) n"

definition same_out :: "int \<Rightarrow> int \<Rightarrow> store \<Rightarrow> store \<Rightarrow> bool" where
  "same_out p n M M' \<longleftrightarrow> (\<forall>a. a < p \<or> p + n \<le> a \<longrightarrow> M' a = M a)"

lemma length_blk [simp]: "length (blk M p n) = n"
  by (induction n arbitrary: p) auto

lemma blk_append: "blk M p (m + n) = blk M p m @ blk M (p + int m) n"
  by (induction m arbitrary: p) (auto simp: algebra_simps)

lemma blk_cong: "(\<And>a. p \<le> a \<Longrightarrow> a < p + int n \<Longrightarrow> M' a = M a) \<Longrightarrow> blk M' p n = blk M p n"
  by (induction n arbitrary: p) auto

lemma cstr_cong: "(\<And>a. p \<le> a \<Longrightarrow> a \<le> p + int (length xs) \<Longrightarrow> M' a = M a) \<Longrightarrow> cstr M' p xs = cstr M p xs"
  by (induction xs arbitrary: p) auto

lemma cstr_upd: "a < p \<or> p + int (length xs) < a \<Longrightarrow> cstr (M(a := v)) p xs = cstr M p xs"
  by (rule cstr_cong) auto

lemma cstr_bytes: "cstr M p xs \<Longrightarrow> x \<in> set xs \<Longrightarrow> 0 < x \<and> x < 256"
  by (induction xs arbitrary: p) auto

lemma cstr_append:
  "cstr M p (xs @ ys) \<longleftrightarrow> blk M p (length xs) = xs \<and> (\<forall>x\<in>set xs. 0 < x \<and> x < 256) \<and> cstr M (p + int (length xs)) ys"
  by (induction xs arbitrary: p) (auto simp: algebra_simps)

lemma cstr_blk: "cstr M p xs \<longleftrightarrow> blk M p (length xs + 1) = xs @ [0] \<and> (\<forall>x\<in>set xs. 0 < x \<and> x < 256)"
  by (induction xs arbitrary: p) auto

lemma blk_nth: "i < n \<Longrightarrow> blk M p n ! i = M (p + int i)"
proof (induction n arbitrary: p i)
  case (Suc n)
  then show ?case by (cases i) (auto simp: algebra_simps)
qed simp

lemma same_out_refl [simp]: "same_out p n M M"
  by (simp add: same_out_def)

lemma same_out_trans: "same_out p n M M1 \<Longrightarrow> same_out p' n' M1 M2 \<Longrightarrow> p \<le> p' \<Longrightarrow> p' + n' \<le> p + n \<Longrightarrow> same_out p n M M2"
  by (simp add: same_out_def)

lemma same_out_upd: "p \<le> a \<Longrightarrow> a < p + n \<Longrightarrow> same_out p n M (M(a := v))"
  by (simp add: same_out_def)

section \<open>Scanning\<close>

lemma strlen_loop_eq:
  "cstr M p xs \<Longrightarrow> 0 \<le> k \<Longrightarrow> k + int (length xs) < 2147483648 \<Longrightarrow> strlen_loop M p k = Some (k + int (length xs))"
proof (induction xs arbitrary: p k)
  case (Cons x xs)
  then show ?case using Cons.IH[of "p + 1" "k + 1"] by (subst strlen_loop.simps) simp
qed (subst strlen_loop.simps, simp)

lemma strnlen_loop_eq:
  "cstr M p xs \<Longrightarrow> 0 \<le> k \<Longrightarrow> k \<le> len \<Longrightarrow> strnlen_loop M p len k = Some (min len (k + int (length xs)))"
proof (induction xs arbitrary: p k)
  case (Cons x xs)
  then show ?case using Cons.IH[of "p + 1" "k + 1"] by (subst strnlen_loop.simps) auto
qed (subst strnlen_loop.simps, simp)

lemma strchr_eq:
  "cstr M p xs \<Longrightarrow> strchr M p c = Some (if u8 c = 0 then p + int (length xs)
     else if u8 c \<in> set xs then p + int (length (takeWhile (\<lambda>x. x \<noteq> u8 c) xs)) else 0)"
proof (induction xs arbitrary: p)
  case (Cons x xs)
  then show ?case using Cons.IH[of "p + 1"] by (subst strchr.simps) auto
qed (subst strchr.simps, simp)

lemma strrchr_loop_eq:
  "cstr M p xs \<Longrightarrow> u8 c \<noteq> 0 \<Longrightarrow>
   strrchr_loop M p c r = Some (if u8 c \<in> set xs
     then p + int (length xs) - 1 - int (length (takeWhile (\<lambda>x. x \<noteq> u8 c) (rev xs))) else r)"
proof (induction xs arbitrary: p r)
  case (Cons x xs)
  then show ?case using Cons.IH[of "p + 1" "if x = u8 c then p else r"]
    by (subst strrchr_loop.simps) (auto simp: takeWhile_append)
qed (subst strrchr_loop.simps, simp)

text \<open>\<^verbatim>\<open>strcmp\<close> returns 0 for equal strings and otherwise tells which comes first in the lexicographic
  order of the bytes; \<^verbatim>\<open>strncmp\<close> has the sign of that comparison on the first \<open>n\<close> bytes.\<close>

theorem strcmp_lexicographic:
  assumes "cstr M p xs" "cstr M q ys"
  shows "strcmp M p q = Some (if xs = ys then 0 else if xs < ys then -1 else 1) \<and>
    sgn (strncmp M p q (int n)) =
      (if take n xs = take n ys then 0 else if take n xs < take n ys then -1 else 1)"
  using assms
proof (intro conjI)
  show "strcmp M p q = Some (if xs = ys then 0 else if xs < ys then -1 else 1)"
    using assms
  proof (induction xs arbitrary: p q ys)
    case Nil
    then show ?case by (cases ys) (subst strcmp.simps, auto)+
  next
    case (Cons x xs)
    then show ?case
      by (cases ys) (subst strcmp.simps, use Cons.IH[of "p + 1" "q + 1"] in auto)+
  qed
  show "sgn (strncmp M p q (int n)) =
      (if take n xs = take n ys then 0 else if take n xs < take n ys then -1 else 1)"
    using assms
  proof (induction n arbitrary: p q xs ys)
    case 0
    then show ?case by (simp add: strncmp.simps)
  next
    case (Suc n)
    then show ?case
      by (cases xs; cases ys; subst strncmp.simps) (use Suc.IH[of "p + 1" _ "q + 1"] in auto)
  qed
qed
lemma strstr_match_eq:
  "cstr M cq xs \<Longrightarrow> cstr M cr ys \<Longrightarrow> \<exists>e. strstr_match M cq cr = Some e \<and> (M e = 0 \<longleftrightarrow> prefix ys xs)"
proof (induction ys arbitrary: cq cr xs)
  case Nil
  then show ?case by (subst strstr_match.simps) simp
next
  case (Cons y ys)
  then show ?case
    by (cases xs; subst strstr_match.simps) (use Cons.IH[of "cq + 1" _ "cr + 1"] in auto)
qed

lemma sublist_not_here: "sublist ys (x # xs) \<longleftrightarrow> prefix ys (x # xs) \<or> sublist ys xs"
  by (rule sublist_Cons_right)

text \<open>\<^verbatim>\<open>strstr\<close> returns the address of the first occurrence of a nonempty string, and the null
  pointer when there is none; for the empty string it always returns the null pointer.\<close>

theorem strstr_first:
  assumes "cstr M p xs" "cstr M q ys" "0 < p"
  shows "\<exists>r. strstr M p q = Some r \<and>
    (if ys = [] then r = 0
     else if sublist ys xs
     then \<exists>i \<le> length xs. r = p + int i \<and> prefix ys (drop i xs) \<and> (\<forall>j<i. \<not> prefix ys (drop j xs))
     else r = 0)"
  using assms
proof (induction xs arbitrary: p)
  case Nil
  then show ?case by (cases ys) (subst strstr.simps, simp)+
next
  case (Cons x xs)
  obtain r where r: "strstr M (p + 1) q = Some r"
    "if ys = [] then r = 0
     else if sublist ys xs
     then \<exists>i \<le> length xs. r = p + 1 + int i \<and> prefix ys (drop i xs) \<and> (\<forall>j<i. \<not> prefix ys (drop j xs))
     else r = 0"
    using Cons.IH[of "p + 1"] Cons.prems by auto
  obtain e where e: "strstr_match M p q = Some e" "M e = 0 \<longleftrightarrow> prefix ys (x # xs)"
    using strstr_match_eq[OF Cons.prems(1,2)] by blast
  show ?case
  proof (cases "ys \<noteq> [] \<and> prefix ys (x # xs)")
    case True
    then have "M p = M q" "M p \<noteq> 0" using Cons.prems by (cases ys; auto)+
    then have "strstr M p q = Some p" using e True by (subst strstr.simps) simp
    moreover have "sublist ys (x # xs)" using True by (auto intro: prefix_imp_sublist)
    ultimately show ?thesis using True by (intro exI[of _ p]) auto
  next
    case False
    have step: "strstr M p q = Some r"
      using r(1) e False Cons.prems by (subst strstr.simps) (cases ys; auto)
    show ?thesis
    proof (cases "ys \<noteq> [] \<and> sublist ys xs")
      case True
      then obtain i where i: "i \<le> length xs" "r = p + 1 + int i" "prefix ys (drop i xs)" "\<forall>j<i. \<not> prefix ys (drop j xs)"
        using r(2) by auto
      have "\<not> prefix ys (drop j (x # xs))" if "j < Suc i" for j
        using i(4) that False True by (cases j) auto
      then have "\<exists>i \<le> length (x # xs). r = p + int i \<and> prefix ys (drop i (x # xs)) \<and> (\<forall>j<i. \<not> prefix ys (drop j (x # xs)))"
        using i(1-3) by (intro exI[of _ "Suc i"]) auto
      then show ?thesis using step True by (auto simp: sublist_Cons_right)
    next
      case no: False
      then show ?thesis using step r(2) False by (auto simp: sublist_Cons_right)
    qed
  qed
qed

section \<open>Copying\<close>

lemma strncpy_pad_eq:
  "blk (strncpy_pad i n s1 M) s1 (nat (n - i - 1)) = replicate (nat (n - i - 1)) 0 \<and>
   same_out s1 (max 0 (n - i - 1)) M (strncpy_pad i n s1 M)"
proof (induction i n s1 M rule: strncpy_pad.induct)
  case (1 i n s1 M)
  show ?case
  proof (cases "i + 1 < n")
    case True
    let ?M = "strncpy_pad (i + 1) n (s1 + 1) (M(s1 := 0))"
    have ih: "blk ?M (s1 + 1) (nat (n - i - 2)) = replicate (nat (n - i - 2)) 0"
      "same_out (s1 + 1) (max 0 (n - i - 2)) (M(s1 := 0)) ?M"
      using 1[OF refl True] by (simp_all add: algebra_simps del: fun_upd_apply)
    have "nat (n - i - 1) = Suc (nat (n - i - 2))" using True by simp
    moreover have "?M s1 = 0" using ih(2) by (simp add: same_out_def)
    moreover have "same_out s1 (max 0 (n - i - 1)) M ?M" using ih(2) True by (auto simp: same_out_def)
    ultimately show ?thesis using True ih(1) by (subst (1 2) strncpy_pad.simps) simp
  next
    case False
    then show ?thesis by (subst (1 2) strncpy_pad.simps) simp
  qed
qed

lemma strncpy_loop_eq:
  "cstr M s2 xs \<Longrightarrow> s1 + (n - i) \<le> s2 \<or> s2 + int (length xs) < s1 \<Longrightarrow>
   blk (strncpy_loop i n s1 s2 M) s1 (nat (n - i)) = take (nat (n - i)) (xs @ replicate (nat (n - i)) 0) \<and>
   same_out s1 (max 0 (n - i)) M (strncpy_loop i n s1 s2 M)"
proof (induction xs arbitrary: i s1 s2 M)
  case Nil
  show ?case
  proof (cases "i < n")
    case True
    let ?M = "strncpy_pad i n (s1 + 1) (M(s1 := 0))"
    note pad = strncpy_pad_eq[of i n "s1 + 1" "M(s1 := 0)"]
    have n: "nat (n - i) = Suc (nat (n - i - 1))" using True by simp
    have "?M s1 = 0" "same_out s1 (max 0 (n - i)) M ?M" using pad True by (auto simp: same_out_def)
    then show ?thesis using Nil True pad
      by (subst (1 2) strncpy_loop.simps) (simp add: n)
  next
    case False
    then show ?thesis by (subst (1 2) strncpy_loop.simps) simp
  qed
next
  case (Cons x xs)
  show ?case
  proof (cases "i < n")
    case True
    let ?M = "strncpy_loop (i + 1) n (s1 + 1) (s2 + 1) (M(s1 := x))"
    have "cstr (M(s1 := x)) (s2 + 1) xs"
      using Cons.prems True by (subst cstr_upd) auto
    then have ih: "blk ?M (s1 + 1) (nat (n - i - 1)) = take (nat (n - i - 1)) (xs @ replicate (nat (n - i - 1)) 0)"
        "same_out (s1 + 1) (max 0 (n - i - 1)) (M(s1 := x)) ?M"
      using Cons.IH[of "M(s1 := x)" "s2 + 1" "s1 + 1" "i + 1"] Cons.prems(2) by (auto simp: algebra_simps simp del: fun_upd_apply)
    have n: "nat (n - i) = Suc (nat (n - i - 1))" using True by simp
    have "?M s1 = x" "same_out s1 (max 0 (n - i)) M ?M" using ih(2) True by (auto simp: same_out_def)
    moreover have "take k (xs @ replicate (Suc k) 0) = take k (xs @ replicate k (0::int))" for k
      by (simp add: take_Cons' flip: replicate_append_same)
    ultimately show ?thesis using Cons.prems True ih(1)
      by (subst (1 2) strncpy_loop.simps) (simp add: n del: replicate_Suc)
  next
    case False
    then show ?thesis by (subst (1 2) strncpy_loop.simps) simp
  qed
qed

lemma strcpy_loop_eq:
  "cstr M src xs \<Longrightarrow> tar + int (length xs) < src \<or> src + int (length xs) < tar \<Longrightarrow>
   \<exists>M'. strcpy_loop tar src M = Some M' \<and> cstr M' tar xs \<and> same_out tar (int (length xs) + 1) M M'"
proof (induction xs arbitrary: tar src M)
  case Nil
  then show ?case by (subst strcpy_loop.simps) (simp add: same_out_def)
next
  case (Cons x xs)
  have "cstr (M(tar := x)) (src + 1) xs" using Cons.prems by (subst cstr_upd) auto
  then obtain M' where M': "strcpy_loop (tar + 1) (src + 1) (M(tar := x)) = Some M'" "cstr M' (tar + 1) xs"
      "same_out (tar + 1) (int (length xs) + 1) (M(tar := x)) M'"
    using Cons.IH[of "M(tar := x)" "src + 1" "tar + 1"] Cons.prems(2) by (auto simp del: fun_upd_apply)
  have "M' tar = x" "same_out tar (int (length (x # xs)) + 1) M M'" using M'(3) by (auto simp: same_out_def)
  then show ?case using M' Cons.prems(1) by (subst strcpy_loop.simps) auto
qed

text \<open>\<^verbatim>\<open>strcpy\<close> makes a copy of the string, and \<^verbatim>\<open>strncpy\<close> writes exactly \<open>n\<close> bytes: the string, cut off
  after \<open>n\<close> bytes (then without a null byte) or filled up with null bytes. Nothing else in the
  store changes.\<close>

theorem strcpy_strncpy_exact:
  assumes "cstr M src xs"
  shows "(tar + int (length xs) < src \<or> src + int (length xs) < tar \<longrightarrow>
      (\<exists>M'. strcpy tar src M = Some (0, M') \<and> cstr M' tar xs \<and> same_out tar (int (length xs) + 1) M M')) \<and>
    (tar + int n \<le> src \<or> src + int (length xs) < tar \<longrightarrow>
      (case strncpy tar src (int n) M of (r, M') \<Rightarrow> r = tar \<and>
        blk M' tar n = take n (xs @ replicate n 0) \<and> same_out tar (int n) M M'))"
  using strcpy_loop_eq[OF assms, of tar] strncpy_loop_eq[OF assms, of tar "int n" 0]
  by (auto simp: strcpy_def strncpy_def)

lemma strncat_end_eq: "cstr M p xs \<Longrightarrow> strncat_end M p = Some (p + int (length xs))"
proof (induction xs arbitrary: p)
  case (Cons x xs)
  then show ?case by (subst strncat_end.simps) auto
qed (subst strncat_end.simps, simp)

lemma strncat_loop_eq:
  "cstr M s2 ys \<Longrightarrow> int k < 2147483648 \<Longrightarrow> s1 + int (min k (length ys)) < s2 \<or> s2 + int (length ys) < s1 \<Longrightarrow>
   \<exists>M'. strncat_loop s1 s2 (int k) M = Some M' \<and> cstr M' s1 (take k ys) \<and>
     same_out s1 (int (min k (length ys)) + 1) M M'"
proof (induction ys arbitrary: s1 s2 M k)
  case Nil
  then show ?case by (subst strncat_loop.simps) (simp add: same_out_def)
next
  case (Cons y ys)
  show ?case
  proof (cases k)
    case 0
    then show ?thesis using Cons.prems by (subst strncat_loop.simps) (simp add: same_out_def)
  next
    case (Suc j)
    have "cstr (M(s1 := y)) (s2 + 1) ys" using Cons.prems Suc by (subst cstr_upd) auto
    then obtain M' where M': "strncat_loop (s1 + 1) (s2 + 1) (int j) (M(s1 := y)) = Some M'"
        "cstr M' (s1 + 1) (take j ys)" "same_out (s1 + 1) (int (min j (length ys)) + 1) (M(s1 := y)) M'"
      using Cons.IH[of "M(s1 := y)" "s2 + 1" j "s1 + 1"] Cons.prems(2,3) Suc by (auto simp del: fun_upd_apply)
    have "M' s1 = y" "same_out s1 (int (min k (length (y # ys))) + 1) M M'"
      using M'(3) Suc by (auto simp: same_out_def)
    then show ?thesis using M' Cons.prems Suc by (subst strncat_loop.simps) auto
  qed
qed

lemma strncat_appends:
  assumes "cstr M s1 xs" "cstr M s2 ys" "int n < 2147483648"
    "s1 + int (length xs + min n (length ys)) < s2 \<or> s2 + int (length ys) < s1"
  shows "\<exists>M'. strncat s1 s2 (int n) M = Some (s1, M') \<and> cstr M' s1 (xs @ take n ys)"
proof -
  obtain M' where M': "strncat_loop (s1 + int (length xs)) s2 (int n) M = Some M'"
      "cstr M' (s1 + int (length xs)) (take n ys)" "same_out (s1 + int (length xs)) (int (min n (length ys)) + 1) M M'"
    using strncat_loop_eq[OF assms(2,3), of "s1 + int (length xs)"] assms(4) by auto
  have "blk M' s1 (length xs) = blk M s1 (length xs)" using M'(3) by (intro blk_cong) (simp add: same_out_def)
  moreover have "blk M s1 (length xs) = xs" "\<forall>x\<in>set xs. 0 < x \<and> x < 256"
    using assms(1) cstr_append[of M s1 xs "[]"] by simp_all
  ultimately have "cstr M' s1 (xs @ take n ys)" using M'(2) by (simp add: cstr_append)
  then show ?thesis using M'(1) strncat_end_eq[OF assms(1)] by (simp add: strncat_def)
qed

text \<open>Copying goes upwards, so a block may be moved to a lower address that overlaps it.\<close>

lemma memcpy_loop_eq:
  "dst \<le> src \<or> src + int k \<le> dst \<Longrightarrow>
   blk (memcpy_loop k dst src M) dst k = blk M src k \<and> same_out dst (int k) M (memcpy_loop k dst src M)"
proof (induction k arbitrary: dst src M)
  case (Suc k)
  let ?M = "memcpy_loop k (dst + 1) (src + 1) (M(dst := M src))"
  have ih: "blk ?M (dst + 1) k = blk (M(dst := M src)) (src + 1) k" "same_out (dst + 1) (int k) (M(dst := M src)) ?M"
    using Suc.IH[of "dst + 1" "src + 1" "M(dst := M src)"] Suc.prems by (auto simp del: fun_upd_apply)
  moreover have "blk (M(dst := M src)) (src + 1) k = blk M (src + 1) k"
    using Suc.prems by (intro blk_cong) auto
  moreover have "?M dst = M src" "same_out dst (int (Suc k)) M ?M" using ih(2) by (auto simp: same_out_def)
  ultimately show ?case by simp
qed simp

lemma memset_loop_eq:
  "blk (memset_loop k p c M) p k = replicate k (u8 c) \<and> same_out p (int k) M (memset_loop k p c M)"
proof (induction k arbitrary: p M)
  case (Suc k)
  let ?M = "memset_loop k (p + 1) c (M(p := u8 c))"
  have ih: "blk ?M (p + 1) k = replicate k (u8 c)" "same_out (p + 1) (int k) (M(p := u8 c)) ?M"
    using Suc.IH[of "p + 1" "M(p := u8 c)"] by (auto simp del: fun_upd_apply)
  moreover have "?M p = u8 c" "same_out p (int (Suc k)) M ?M" using ih(2) by (auto simp: same_out_def)
  ultimately show ?case by simp
qed simp

lemma memcmp_loop_eq:
  "sgn (memcmp_loop k M p q) = (if blk M p k = blk M q k then 0 else if blk M p k < blk M q k then -1 else 1)"
proof (induction k arbitrary: p q)
  case (Suc k)
  show ?case
  proof (cases "M p = M q")
    case True
    then show ?thesis using Suc[of "p + 1" "q + 1"] by simp
  next
    case False
    then show ?thesis by (auto simp: sgn_if)
  qed
qed simp

text \<open>The block operations: \<^verbatim>\<open>memcpy\<close> copies \<open>n\<close> bytes, also to a lower overlapping block, \<^verbatim>\<open>memset\<close> and
  \<^verbatim>\<open>bzero\<close> fill them, nothing outside the block changes, and \<^verbatim>\<open>memcmp\<close> has the sign of the
  lexicographic comparison of the blocks, so it is 0 after a copy between disjoint blocks.\<close>

theorem memory_blocks:
  "(p \<le> q \<or> q + int n \<le> p \<longrightarrow>
     (case memcpy p q (int n) M of (r, M') \<Rightarrow> r = p \<and> blk M' p n = blk M q n \<and> same_out p (int n) M M' \<and>
        (p + int n \<le> q \<or> q + int n \<le> p \<longrightarrow> memcmp M' p q (int n) = 0))) \<and>
   (case memset p c (int n) M of (r, M') \<Rightarrow> r = p \<and> blk M' p n = replicate n (u8 c) \<and> same_out p (int n) M M') \<and>
   blk (bzero p (int n) M) p n = replicate n 0 \<and> same_out p (int n) M (bzero p (int n) M) \<and>
   sgn (memcmp M p q (int n)) = (if blk M p n = blk M q n then 0 else if blk M p n < blk M q n then -1 else 1)"
proof -
  let ?M = "memcpy_loop n p q M"
  have "memcmp ?M p q (int n) = 0" if "p \<le> q \<or> q + int n \<le> p" "p + int n \<le> q \<or> q + int n \<le> p"
  proof -
    have "blk ?M q n = blk M q n" using memcpy_loop_eq[OF that(1), of M] that(2)
      by (intro blk_cong) (auto simp: same_out_def)
    then have "sgn (memcmp_loop n ?M p q) = 0" using memcpy_loop_eq[OF that(1), of M] by (simp add: memcmp_loop_eq)
    then show ?thesis by (simp add: memcmp_def sgn_eq_0_iff)
  qed
  moreover have "bzero p (int n) M = memset_loop n p 0 M" by (simp add: bzero_def)
  ultimately show ?thesis
    using memcpy_loop_eq[of p q n M] memset_loop_eq[of n p c M] memset_loop_eq[of n p 0 M]
    by (simp add: memcpy_def memset_def memcmp_def memcmp_loop_eq)
qed

section \<open>Numbers\<close>

text \<open>The value of a sequence of decimal digits.\<close>

definition dval :: "int list \<Rightarrow> int" where
  "dval ds = foldl (\<lambda>a d. a * 10 + (d - 48)) 0 ds"

lemma i32_step: "i32 (i32 a * 10 + d - 48) = i32 (a * 10 + d - 48)"
proof -
  obtain q where "i32 a = a + q * 4294967296" using i32_quot by blast
  then have "i32 a * 10 + d - 48 = a * 10 + d - 48 + (q * 10) * 4294967296" by simp
  then show ?thesis by (simp only: i32_shift)
qed

lemma i32_minus: "i32 (- i32 a) = i32 (- a)"
proof -
  obtain q where "i32 a = a + q * 4294967296" using i32_quot by blast
  then have "- i32 a = - a + (- q) * 4294967296" by simp
  then show ?thesis by (simp only: i32_shift)
qed

lemma atoi_digits_eq:
  "blk M p (length ds + 1) = ds @ [z] \<Longrightarrow> \<forall>d\<in>set ds. 48 \<le> d \<and> d \<le> 57 \<Longrightarrow> \<not> (48 \<le> z \<and> z \<le> 57) \<Longrightarrow>
   atoi_digits M p (i32 a) = Some (i32 (foldl (\<lambda>a d. a * 10 + (d - 48)) a ds))"
proof (induction ds arbitrary: p a)
  case Nil
  then show ?case by (subst atoi_digits.simps) auto
next
  case (Cons d ds)
  then have "atoi_digits M p (i32 a) = atoi_digits M (p + 1) (i32 (a * 10 + d - 48))"
    by (subst atoi_digits.simps) (auto simp: i32_step)
  then show ?case using Cons.IH[of "p + 1" "a * 10 + d - 48"] Cons.prems by (simp add: algebra_simps)
qed

lemma atoi_sign_skip:
  "blk M p (length bs) = bs \<Longrightarrow> \<forall>b\<in>set bs. b = 32 \<or> b = 9 \<Longrightarrow> atoi_sign M p = atoi_sign M (p + int (length bs))"
proof (induction bs arbitrary: p)
  case (Cons b bs)
  then show ?case by (subst atoi_sign.simps) (auto simp: algebra_simps)
qed simp

text \<open>\<^verbatim>\<open>atoi\<close> of blanks and tabs, an optional sign and decimal digits up to some other character is
  the number written there, reduced to 32 bits.\<close>

theorem atoi_value:
  assumes "blk M p (length (bs @ sg @ ds @ [z])) = bs @ sg @ ds @ [z]"
    "\<forall>b\<in>set bs. b = 32 \<or> b = 9" "sg \<in> {[], [43], [45]}" "\<forall>d\<in>set ds. 48 \<le> d \<and> d \<le> 57" "ds \<noteq> []"
    "\<not> (48 \<le> z \<and> z \<le> 57)"
  shows "atoi M p = Some (i32 (if sg = [45] then - dval ds else dval ds)) \<and> atol M p = atoi M p"
proof -
  let ?q = "p + int (length bs)"
  have "blk M p (length bs + (length sg + (length ds + 1))) = bs @ sg @ ds @ [z]" using assms(1) by simp
  then have B: "blk M p (length bs) = bs" "blk M ?q (length sg) = sg" "blk M (?q + int (length sg)) (length ds + 1) = ds @ [z]"
    unfolding blk_append[of M p "length bs"] blk_append[of M ?q "length sg"] by (simp_all add: append_eq_append_conv)
  obtain d ds' where ds: "ds = d # ds'" using assms(5) by (cases ds) auto
  have "M (?q + int (length sg)) = d" "48 \<le> d" using B(3) ds assms(4) by auto
  then have "atoi_sign M p = Some (?q + int (length sg), sg = [45])"
    unfolding atoi_sign_skip[OF B(1) assms(2)] using B(2) assms(3) by (subst atoi_sign.simps) auto
  moreover have "atoi_digits M (?q + int (length sg)) 0 = Some (i32 (dval ds))"
    using atoi_digits_eq[OF B(3) assms(4,6), of 0] by (simp add: dval_def)
  ultimately show ?thesis by (simp add: atoi_def atol_def i32_minus)
qed

end
