(* ===== verification/Tty.thy ===== *)
theory Tty
  imports Device_State Fifo Cstring
begin

text \<open>
  The terminal driver, \<^verbatim>\<open>device/tty\<close>: an upper half that processes call (\<^verbatim>\<open>ttygetc.c\<close>, \<^verbatim>\<open>ttyread.c\<close>,
  \<^verbatim>\<open>ttyputc.c\<close>, \<^verbatim>\<open>ttywrite.c\<close>, \<^verbatim>\<open>ttycontrol.c\<close>, \<^verbatim>\<open>ttyinit.c\<close>) and a lower half that interrupts call
  (\<^verbatim>\<open>ttyhandler.c\<close>, \<^verbatim>\<open>ttyhandle_in.c\<close>, \<^verbatim>\<open>ttyhandle_out.c\<close>). There is one line (\<^verbatim>\<open>Ntty\<close> is 1), so its control
  block is a component of the state. A pointer into one of the buffers is an index; an access outside
  the buffer is undefined. Characters are their codes, 0 to 255.

  Of the UART there are the characters that a read of its buffer register delivers one after the
  other (\<open>rx\<close>, with those that arrive while the interrupt is handled), the characters written to the
  buffer register (\<open>tx\<close>) and the registers. The data-ready bit of \<^verbatim>\<open>lsr\<close> says whether \<open>rx\<close> is nonempty;
  \<open>lsr_bits\<close> are the others.
\<close>

unbundle bit_operations_syntax

section \<open>Constants and state\<close>

definition TY_EBUFLEN :: int where [simp]: "TY_EBUFLEN = 20"
definition TY_IBUFLEN :: int where [simp]: "TY_IBUFLEN = 128"
definition TY_OBUFLEN :: int where [simp]: "TY_OBUFLEN = 64"
definition TY_IMRAW :: int where [simp]: "TY_IMRAW = 82"
definition TY_IMCOOKED :: int where [simp]: "TY_IMCOOKED = 67"
definition TY_IMCBREAK :: int where [simp]: "TY_IMCBREAK = 75"
definition TY_BACKSP :: int where [simp]: "TY_BACKSP = 8"
definition TY_BACKSP2 :: int where [simp]: "TY_BACKSP2 = 127"
definition TY_BELL :: int where [simp]: "TY_BELL = 7"
definition TY_EOFCH :: int where [simp]: "TY_EOFCH = 4"
definition TY_BLANK :: int where [simp]: "TY_BLANK = 32"
definition TY_NEWLINE :: int where [simp]: "TY_NEWLINE = 10"
definition TY_RETURN :: int where [simp]: "TY_RETURN = 13"
definition TY_STOPCH :: int where [simp]: "TY_STOPCH = 19"
definition TY_STRTCH :: int where [simp]: "TY_STRTCH = 17"
definition TY_KILLCH :: int where [simp]: "TY_KILLCH = 21"
definition TY_UPARROW :: int where [simp]: "TY_UPARROW = 94"
definition TY_FULLCH :: int where [simp]: "TY_FULLCH = TY_BELL"

definition TC_NEXTC :: int where [simp]: "TC_NEXTC = 3"
definition TC_MODER :: int where [simp]: "TC_MODER = 4"
definition TC_MODEC :: int where [simp]: "TC_MODEC = 5"
definition TC_MODEK :: int where [simp]: "TC_MODEK = 6"
definition TC_ICHARS :: int where [simp]: "TC_ICHARS = 8"
definition TC_ECHO :: int where [simp]: "TC_ECHO = 9"
definition TC_NOECHO :: int where [simp]: "TC_NOECHO = 10"

definition UART_FIFO_SIZE :: int where [simp]: "UART_FIFO_SIZE = 64"
definition UART_IER_ERBFI :: int where [simp]: "UART_IER_ERBFI = 1"
definition UART_IER_ETBEI :: int where [simp]: "UART_IER_ETBEI = 2"
definition UART_IIR_IRQ :: int where [simp]: "UART_IIR_IRQ = 1"
definition UART_IIR_IDMASK :: int where [simp]: "UART_IIR_IDMASK = 14"
definition UART_IIR_THRE :: int where [simp]: "UART_IIR_THRE = 2"
definition UART_IIR_RDA :: int where [simp]: "UART_IIR_RDA = 4"
definition UART_IIR_RLSI :: int where [simp]: "UART_IIR_RLSI = 6"
definition UART_IIR_RTO :: int where [simp]: "UART_IIR_RTO = 12"
definition UART_LSR_BI :: int where [simp]: "UART_LSR_BI = 16"

record ttycblk =
  tyihead :: int
  tyitail :: int
  tyibuff :: "int \<Rightarrow> int"
  tyisem :: int
  tyohead :: int
  tyotail :: int
  tyobuff :: "int \<Rightarrow> int"
  tyosem :: int
  tyehead :: int
  tyetail :: int
  tyebuff :: "int \<Rightarrow> int"
  tyimode :: int
  tyiecho :: bool
  tyieback :: bool
  tyevis :: bool
  tyecrlf :: bool
  tyicrlf :: bool
  tyierase :: bool
  tyierasec :: int
  tyierasec2 :: int
  tyeof :: bool
  tyeofch :: int
  tyikill :: bool
  tyikillc :: int
  tyicursor :: int
  tyoflow :: bool
  tyoheld :: bool
  tyostop :: int
  tyostart :: int
  tyocrlf :: bool
  tyifullc :: int

record uart =
  rx :: "int list"
  tx :: "int list"
  txfifo_lvl :: int
  iir :: int
  lsr_bits :: int
  ier :: int
  lcr :: int
  dlm :: int
  dll :: int
  fcr :: int
  mdr1 :: int

record tdev =
  tty :: ttycblk
  uart :: uart
  intc :: intc

type_synonym tstate = "kstate \<times> tdev"

definition uptty :: "(ttycblk \<Rightarrow> ttycblk) \<Rightarrow> tdev \<Rightarrow> tdev" where
  "uptty f d = d\<lparr>tty := f (tty d)\<rparr>"

text \<open>Reading the buffer register; an empty register reads as 0.\<close>

definition rbr :: "tdev \<Rightarrow> int \<times> tdev" where
  "rbr d = (case rx (uart d) of [] \<Rightarrow> (0, d) | c # cs \<Rightarrow> (c, d\<lparr>uart := (uart d)\<lparr>rx := cs\<rparr>\<rparr>))"

definition thr :: "int \<Rightarrow> tdev \<Rightarrow> tdev" where
  "thr c d = d\<lparr>uart := (uart d)\<lparr>tx := tx (uart d) @ [c]\<rparr>\<rparr>"

definition ttykickout :: "tdev \<Rightarrow> tdev" where
  "ttykickout d = d\<lparr>uart := (uart d)\<lparr>ier := UART_IER_ERBFI OR UART_IER_ETBEI\<rparr>\<rparr>"

section \<open>Echo\<close>

definition eputc :: "int \<Rightarrow> tdev \<Rightarrow> tdev option" where
  "eputc ch d =
    (let t = tty d; p = tyetail t in
     if 0 \<le> p \<and> p < TY_EBUFLEN
     then Some (ttykickout (d\<lparr>tty := t\<lparr>tyebuff := (tyebuff t)(p := ch), tyetail := advance TY_EBUFLEN p\<rparr>\<rparr>))
     else None)"

fun eputs :: "int list \<Rightarrow> tdev \<Rightarrow> tdev option" where
  "eputs [] d = Some d"
| "eputs (c # cs) d = Option.bind (eputc c d) (eputs cs)"

definition echoch :: "int \<Rightarrow> tdev \<Rightarrow> tdev option" where
  "echoch ch d =
    (if (ch = TY_NEWLINE \<or> ch = TY_RETURN) \<and> tyecrlf (tty d) then eputs [TY_RETURN, TY_NEWLINE] d
     else if (ch < TY_BLANK \<or> ch = 127) \<and> tyevis (tty d) then eputs [TY_UPARROW, u8 (ch + 64)] d
     else eputs [ch] d)"

text \<open>What \<^verbatim>\<open>erase1\<close> puts into the echo queue for one column, and for the character \<open>ch\<close>.\<close>

definition rubout :: "ttycblk \<Rightarrow> int list" where
  "rubout t = TY_BACKSP # (if tyieback t then [TY_BLANK, TY_BACKSP] else [])"

definition rub :: "ttycblk \<Rightarrow> int \<Rightarrow> int list" where
  "rub t ch =
    (if ch < TY_BLANK \<or> ch = 127 then (if tyevis t then rubout t else []) @ rubout t else rubout t)"

definition erase1 :: "tdev \<Rightarrow> tdev option" where
  "erase1 d =
    (let t = tty d; p = tyitail t - 1; p = (if p < 0 then p + TY_IBUFLEN else p); d = uptty (tyitail_update (\<lambda>_. p)) d in
     if p \<ge> TY_IBUFLEN then None
     else if tyiecho t then eputs (rub t (tyibuff t p)) d else Some d)"

definition echo_if :: "int \<Rightarrow> tdev \<Rightarrow> tdev option" where
  "echo_if ch d = (if tyiecho (tty d) then echoch ch d else Some d)"

section \<open>Input interrupts\<close>

text \<open>\<^verbatim>\<open>*typtr->tyitail++ = ch\<close>, and the test that wraps the pointer around.\<close>

definition put_in :: "int \<Rightarrow> tdev \<Rightarrow> tdev option" where
  "put_in ch d =
    (let t = tty d; p = tyitail t in
     if 0 \<le> p \<and> p < TY_IBUFLEN then Some (d\<lparr>tty := t\<lparr>tyibuff := (tyibuff t)(p := ch), tyitail := p + 1\<rparr>\<rparr>) else None)"

definition wrap_in :: "tdev \<Rightarrow> tdev" where
  "wrap_in d = uptty (\<lambda>t. if tyitail t \<ge> TY_IBUFLEN then t\<lparr>tyitail := 0\<rparr> else t) d"

definition store_in :: "int \<Rightarrow> tdev \<Rightarrow> tdev option" where
  "store_in ch d = map_option wrap_in (put_in ch d)"

definition isem :: "tstate \<Rightarrow> int" where
  "isem sd = tyisem (tty (snd sd))"

definition in_avail :: "tstate \<Rightarrow> (tstate, int) step" where
  "in_avail sd = bindk (onk (semcount (isem sd)) sd) (\<lambda>avail sd. Return (if avail < 0 then 0 else avail) sd)"

definition signal_in :: "tstate \<Rightarrow> (tstate, unit) step" where
  "signal_in sd = bindk (onk (signal (isem sd)) sd) (\<lambda>_ sd. Return () sd)"

definition handle_raw :: "int \<Rightarrow> int \<Rightarrow> tstate \<Rightarrow> (tstate, unit) step" where
  "handle_raw ch avail sd =
    (if avail \<ge> TY_IBUFLEN then Return () sd else bindk (onu (store_in ch) sd) (\<lambda>_ sd. signal_in sd))"

definition handle_cbreak :: "int \<Rightarrow> int \<Rightarrow> tdev \<Rightarrow> tdev option" where
  "handle_cbreak ch avail d =
    (if avail \<ge> TY_IBUFLEN then eputc (tyifullc (tty d)) d else Option.bind (store_in ch d) (echo_if ch))"

definition handle_kill :: "tdev \<Rightarrow> tdev option" where
  "handle_kill d =
    (let d = uptty (\<lambda>t. t\<lparr>tyitail := tyitail t - tyicursor t\<rparr>) d;
         d = uptty (\<lambda>t. if tyitail t < 0 then t\<lparr>tyitail := tyitail t + TY_IBUFLEN\<rparr> else t) d;
         d = uptty (tyicursor_update (\<lambda>_. 0)) d
     in eputs [TY_RETURN, TY_NEWLINE] d)"

definition handle_erase :: "tdev \<Rightarrow> tdev option" where
  "handle_erase d =
    (if tyicursor (tty d) > 0 then erase1 (uptty (\<lambda>t. t\<lparr>tyicursor := tyicursor t - 1\<rparr>) d) else Some d)"

definition handle_eol :: "int \<Rightarrow> tstate \<Rightarrow> (tstate, unit) step" where
  "handle_eol ch sd =
    bindk (onu (\<lambda>d. Option.bind (echo_if ch d) (store_in ch)) sd) (\<lambda>_ sd.
    bindk (onk (signaln (isem sd) (tyicursor (tty (snd sd)) + 1)) sd) (\<lambda>_ sd.
    onu (\<lambda>d. Some (uptty (tyicursor_update (\<lambda>_. 0)) d)) sd))"

text \<open>In \<^verbatim>\<open>ttyhandle_in\<close> the end-of-file character is stored without the test that wraps the pointer.\<close>

definition handle_eof :: "int \<Rightarrow> tstate \<Rightarrow> (tstate, unit) step" where
  "handle_eof ch sd =
    bindk (onu (echo_if ch) sd) (\<lambda>_ sd.
    if tyicursor (tty (snd sd)) \<noteq> 0 then Return () sd
    else bindk (onu (put_in ch) sd) (\<lambda>_ sd. signal_in sd))"

definition handle_plain :: "int \<Rightarrow> tdev \<Rightarrow> tdev option" where
  "handle_plain ch d =
    Option.bind (echo_if ch d) (\<lambda>d. store_in ch (uptty (\<lambda>t. t\<lparr>tyicursor := tyicursor t + 1\<rparr>) d))"

definition handle_cooked :: "int \<Rightarrow> tstate \<Rightarrow> (tstate, unit) step" where
  "handle_cooked ch sd =
    (let t = tty (snd sd) in
     if ch = tyikillc t \<and> tyikill t then onu handle_kill sd
     else if (ch = tyierasec t \<or> ch = tyierasec2 t) \<and> tyierase t then onu handle_erase sd
     else if ch = TY_NEWLINE \<or> ch = TY_RETURN then handle_eol ch sd
     else bindk (in_avail sd) (\<lambda>avail sd.
       if avail + tyicursor (tty (snd sd)) \<ge> TY_IBUFLEN - 1 then onu (eputc (tyifullc (tty (snd sd)))) sd
       else if ch = tyeofch (tty (snd sd)) \<and> tyeof (tty (snd sd)) then handle_eof ch sd
       else onu (handle_plain ch) sd))"

text \<open>The modes other than raw, after the translation of the return character.\<close>

definition handle_edit :: "int \<Rightarrow> int \<Rightarrow> tstate \<Rightarrow> (tstate, unit) step" where
  "handle_edit ch avail sd =
    (let t = tty (snd sd); held = (\<lambda>b. uptty (tyoheld_update (\<lambda>_. b))) in
     if tyoflow t \<and> ch = tyostart t then onu (\<lambda>d. Some (ttykickout (held False d))) sd
     else if tyoflow t \<and> ch = tyostop t then onu (\<lambda>d. Some (held True d)) sd
     else bindk (onu (\<lambda>d. Some (held False d)) sd) (\<lambda>_ sd.
       if tyimode t = TY_IMCBREAK then onu (handle_cbreak ch avail) sd else handle_cooked ch sd))"

definition ttyhandle_in :: "tstate \<Rightarrow> (tstate, unit) step" where
  "ttyhandle_in sd =
    bindk (ond (\<lambda>d. Some (rbr d)) sd) (\<lambda>ch sd.
    bindk (in_avail sd) (\<lambda>avail sd.
      let t = tty (snd sd) in
      if tyimode t = TY_IMRAW then handle_raw ch avail sd
      else handle_edit (if ch = TY_RETURN \<and> tyicrlf t then TY_NEWLINE else ch) avail sd))"

section \<open>Output interrupts\<close>

primrec out_echo :: "nat \<Rightarrow> tdev \<Rightarrow> (nat \<times> tdev) option" where
  "out_echo 0 d = Some (0, d)"
| "out_echo (Suc n) d =
    (let t = tty d; h = tyehead t in
     if h = tyetail t then Some (Suc n, d)
     else if 0 \<le> h \<and> h < TY_EBUFLEN
     then out_echo n (uptty (tyehead_update (\<lambda>_. advance TY_EBUFLEN h)) (thr (tyebuff t h) d)) else None)"

definition send1 :: "tdev \<Rightarrow> tdev option" where
  "send1 d =
    (let t = tty d; h = tyohead t in
     if 0 \<le> h \<and> h < TY_OBUFLEN
     then Some (uptty (tyohead_update (\<lambda>_. advance TY_OBUFLEN h)) (thr (tyobuff t h) d)) else None)"

primrec out_chars :: "nat \<Rightarrow> int \<Rightarrow> tdev \<Rightarrow> (int \<times> tdev) option" where
  "out_chars 0 avail d = Some (0, d)"
| "out_chars (Suc n) avail d =
    (if avail > 0 then Option.bind (send1 d) (\<lambda>d. map_option (apfst ((+) 1)) (out_chars n (avail - 1) d))
     else Some (0, d))"

definition osem :: "tstate \<Rightarrow> int" where
  "osem sd = tyosem (tty (snd sd))"

definition out_idle :: "tstate \<Rightarrow> (tstate, bool) step" where
  "out_idle sd =
    (if tyehead (tty (snd sd)) = tyetail (tty (snd sd))
     then bindk (onk (semcount (osem sd)) sd) (\<lambda>n sd. Return (n \<ge> TY_OBUFLEN) sd)
     else Return False sd)"

definition out_off :: "tdev \<Rightarrow> tdev" where
  "out_off d = d\<lparr>uart := (uart d)\<lparr>ier := ier (uart d) AND u32 (NOT UART_IER_ETBEI)\<rparr>\<rparr>"

definition out_off_if :: "bool \<Rightarrow> tstate \<Rightarrow> (tstate, unit) step" where
  "out_off_if b sd = (if b then onu (\<lambda>d. Some (out_off d)) sd else Return () sd)"

definition ttyhandle_out :: "tstate \<Rightarrow> (tstate, unit) step" where
  "ttyhandle_out sd =
    (if tyoheld (tty (snd sd)) then Return () sd
     else bindk (out_idle sd) (\<lambda>idle sd.
       if idle then out_off_if True sd
       else let uspace = UART_FIFO_SIZE - txfifo_lvl (uart (snd sd)) in
         bindk (ond (out_echo (nat uspace)) sd) (\<lambda>uspace sd.
         bindk (onk (semcount (osem sd)) sd) (\<lambda>n sd.
         bindk (ond (out_chars uspace (TY_OBUFLEN - n)) sd) (\<lambda>ochars sd.
         bindk (if ochars > 0 then bindk (onk (signaln (osem sd) ochars) sd) (\<lambda>_ sd. Return () sd) else Return () sd) (\<lambda>_ sd.
         bindk (out_idle sd) out_off_if))))))"

section \<open>The interrupt handler\<close>

text \<open>Every pass takes one character from the UART, so as many passes as there are characters suffice.\<close>

primrec in_loop :: "nat \<Rightarrow> tstate \<Rightarrow> (tstate, unit) step" where
  "in_loop 0 sd = (if rx (uart (snd sd)) = [] then Return () sd else Fault)"
| "in_loop (Suc n) sd =
    (if rx (uart (snd sd)) = [] then Return () sd else bindk (ttyhandle_in sd) (\<lambda>_ sd. in_loop n sd))"

definition ttyhandler :: "tstate \<Rightarrow> (tstate, unit) step" where
  "ttyhandler sd =
    (let iir = iir (uart (snd sd)) in
     if iir AND UART_IIR_IRQ \<noteq> 0 then Return () sd
     else let iir = iir AND UART_IIR_IDMASK in
       if iir = UART_IIR_RLSI then
         (if lsr_bits (uart (snd sd)) AND UART_LSR_BI \<noteq> 0 then onu (\<lambda>d. Some (snd (rbr d))) sd else Return () sd)
       else if iir = UART_IIR_RDA \<or> iir = UART_IIR_RTO then
         bindk (onk (resched_cntl DEFER_START) sd) (\<lambda>_ sd.
         bindk (in_loop (length (rx (uart (snd sd)))) sd) (\<lambda>_ sd.
         bindk (onk (resched_cntl DEFER_STOP) sd) (\<lambda>_ sd. Return () sd)))
       else if iir = UART_IIR_THRE then ttyhandle_out sd
       else Return () sd)"

section \<open>The upper half\<close>

definition take_in :: "tdev \<Rightarrow> (int \<times> tdev) option" where
  "take_in d =
    (let t = tty d; h = tyihead t in
     if 0 \<le> h \<and> h < TY_IBUFLEN
     then Some (tyibuff t h, uptty (tyihead_update (\<lambda>_. advance TY_IBUFLEN h)) d) else None)"

definition ttygetc :: "tstate \<Rightarrow> (tstate, int) step" where
  "ttygetc sd =
    bindk (onk (wait (isem sd)) sd) (\<lambda>_ sd.
    bindk (ond take_in sd) (\<lambda>ch sd.
      let t = tty (snd sd) in
      Return (if tyimode t = TY_IMCOOKED \<and> tyeof t \<and> ch = tyeofch t then EOF else ch) sd))"

text \<open>\<^verbatim>\<open>ttyread\<close> returns its value and the characters it stores from \<^verbatim>\<open>buff\<close> on.\<close>

primrec read_raw :: "nat \<Rightarrow> tstate \<Rightarrow> (tstate, int list) step" where
  "read_raw 0 sd = Return [] sd"
| "read_raw (Suc n) sd =
    bindk (ttygetc sd) (\<lambda>ch sd. bindk (read_raw n sd) (\<lambda>cs sd. Return (u8 ch # cs) sd))"

primrec read_line :: "nat \<Rightarrow> int \<Rightarrow> tstate \<Rightarrow> (tstate, int list) step" where
  "read_line 0 ch sd = Return [] sd"
| "read_line (Suc n) ch sd =
    (if ch \<noteq> TY_NEWLINE \<and> ch \<noteq> TY_RETURN then
       bindk (ttygetc sd) (\<lambda>c sd. bindk (read_line n (u8 c) sd) (\<lambda>cs sd. Return (u8 c # cs) sd))
     else Return [] sd)"

definition ttyread :: "int \<Rightarrow> tstate \<Rightarrow> (tstate, int \<times> int list) step" where
  "ttyread count sd =
    (if count < 0 then Return (SYSERR, []) sd
     else if tyimode (tty (snd sd)) \<noteq> TY_IMCOOKED then
       bindk (if count = 0 then onk (semcount (isem sd)) sd else Return count sd) (\<lambda>count sd.
       bindk (read_raw (nat count) sd) (\<lambda>cs sd. Return (int (length cs), cs) sd))
     else bindk (ttygetc sd) (\<lambda>firstch sd.
       if firstch = EOF then Return (EOF, []) sd
       else bindk (read_line (nat (count - 1)) (u8 firstch) sd) (\<lambda>cs sd.
         Return (int (length cs) + 1, u8 firstch # cs) sd)))"

definition put_out :: "int \<Rightarrow> tdev \<Rightarrow> tdev option" where
  "put_out ch d =
    (let t = tty d; p = tyotail t in
     if 0 \<le> p \<and> p < TY_OBUFLEN
     then Some (ttykickout (d\<lparr>tty := t\<lparr>tyobuff := (tyobuff t)(p := ch), tyotail := advance TY_OBUFLEN p\<rparr>\<rparr>)) else None)"

definition putc1 :: "int \<Rightarrow> tstate \<Rightarrow> (tstate, int) step" where
  "putc1 ch sd = bindk (onk (wait (osem sd)) sd) (\<lambda>_ sd. bindk (onu (put_out ch) sd) (\<lambda>_ sd. Return OK sd))"

definition ttyputc :: "int \<Rightarrow> tstate \<Rightarrow> (tstate, int) step" where
  "ttyputc ch sd =
    bindk (if ch = TY_NEWLINE \<and> tyocrlf (tty (snd sd)) then putc1 TY_RETURN sd else Return OK sd) (\<lambda>_ sd. putc1 ch sd)"

primrec ttywrite_loop :: "nat \<Rightarrow> store \<Rightarrow> int \<Rightarrow> tstate \<Rightarrow> (tstate, unit) step" where
  "ttywrite_loop 0 M buff sd = Return () sd"
| "ttywrite_loop (Suc n) M buff sd = bindk (ttyputc (M buff) sd) (\<lambda>_ sd. ttywrite_loop n M (buff + 1) sd)"

definition ttywrite :: "store \<Rightarrow> int \<Rightarrow> int \<Rightarrow> tstate \<Rightarrow> (tstate, int) step" where
  "ttywrite M buff count sd =
    (if count < 0 then Return SYSERR sd
     else if count = 0 then Return OK sd
     else bindk (ttywrite_loop (nat count) M buff sd) (\<lambda>_ sd. Return OK sd))"

text \<open>\<^verbatim>\<open>TC_NEXTC\<close> looks at the place behind the last character.\<close>

definition peek_tail :: "tdev \<Rightarrow> (int \<times> tdev) option" where
  "peek_tail d = (let p = tyitail (tty d) in if 0 \<le> p \<and> p < TY_IBUFLEN then Some (tyibuff (tty d) p, d) else None)"

definition setmode :: "(ttycblk \<Rightarrow> ttycblk) \<Rightarrow> tstate \<Rightarrow> (tstate, int) step" where
  "setmode f sd = Return OK (fst sd, uptty f (snd sd))"

definition ttycontrol :: "int \<Rightarrow> tstate \<Rightarrow> (tstate, int) step" where
  "ttycontrol func sd =
    (if func = TC_NEXTC then
       bindk (onk (wait (isem sd)) sd) (\<lambda>_ sd. bindk (ond peek_tail sd) (\<lambda>ch sd.
       bindk (onk (signal (isem sd)) sd) (\<lambda>_ sd. Return ch sd)))
     else if func = TC_MODER then setmode (tyimode_update (\<lambda>_. TY_IMRAW)) sd
     else if func = TC_MODEC then setmode (tyimode_update (\<lambda>_. TY_IMCOOKED)) sd
     else if func = TC_MODEK then setmode (tyimode_update (\<lambda>_. TY_IMCBREAK)) sd
     else if func = TC_ICHARS then onk (semcount (isem sd)) sd
     else if func = TC_ECHO then setmode (tyiecho_update (\<lambda>_. True)) sd
     else if func = TC_NOECHO then setmode (tyiecho_update (\<lambda>_. False)) sd
     else Return SYSERR sd)"

definition tty_start :: "int \<Rightarrow> int \<Rightarrow> ttycblk \<Rightarrow> ttycblk" where
  "tty_start is os t = t\<lparr>tyihead := 0, tyitail := 0, tyisem := is, tyohead := 0, tyotail := 0, tyosem := os,
     tyehead := 0, tyetail := 0, tyimode := TY_IMCOOKED, tyiecho := True, tyieback := True, tyevis := True,
     tyecrlf := True, tyicrlf := True, tyierase := True, tyierasec := TY_BACKSP, tyierasec2 := TY_BACKSP2,
     tyeof := True, tyeofch := TY_EOFCH, tyikill := True, tyikillc := TY_KILLCH, tyicursor := 0,
     tyoflow := True, tyoheld := False, tyostop := TY_STOPCH, tyostart := TY_STRTCH, tyocrlf := True,
     tyifullc := TY_FULLCH\<rparr>"

definition uart_start :: "uart \<Rightarrow> uart" where
  "uart_start u = u\<lparr>dlm := 0, dll := 26, lcr := 3, fcr := 1 OR 2 OR 4 OR 0x80, mdr1 := 0\<rparr>"

text \<open>The device's interrupt number and handler come from its entry in the device switch table.\<close>

definition ttyinit :: "int \<Rightarrow> int \<Rightarrow> tstate \<Rightarrow> (tstate, int) step" where
  "ttyinit dvirq dvintr sd =
    bindk (onk (semcreate 0) sd) (\<lambda>is sd.
    bindk (onk (semcreate TY_OBUFLEN) sd) (\<lambda>os sd.
      let d = uptty (tty_start is os) (snd sd);
          d = d\<lparr>uart := uart_start (uart d), intc := snd (set_evec dvirq dvintr (intc d))\<rparr>
      in Return OK (fst sd, ttykickout d)))"

end
