(* ===== verification/Tty_Spec.thy ===== *)
theory Tty_Spec
  imports Tty
begin

text \<open>
  What the terminal driver does: the ring buffers are bounded queues, input interrupts in cooked mode
  are a line editor on lists, reading delivers the edited lines, and output goes out in order.
\<close>

section \<open>The ring buffers are bounded queues\<close>

definition holds_in :: "tdev \<Rightarrow> int list \<Rightarrow> nat \<Rightarrow> bool" where
  "holds_in d xs n \<longleftrightarrow> ring 128 (tyibuff (tty d)) (tyihead (tty d)) (tyitail (tty d)) xs \<and> length xs + n = 128"

definition holds_out :: "tdev \<Rightarrow> int list \<Rightarrow> nat \<Rightarrow> bool" where
  "holds_out d xs n \<longleftrightarrow> ring 64 (tyobuff (tty d)) (tyohead (tty d)) (tyotail (tty d)) xs \<and> length xs + n = 64"

lemma store_in_eq:
  assumes "0 \<le> tyitail (tty d)" "tyitail (tty d) < 128"
  shows "store_in ch d = Some (uptty (\<lambda>t. t\<lparr>tyibuff := (tyibuff t)(tyitail t := ch), tyitail := advance 128 (tyitail t)\<rparr>) d)"
  using assms by (auto simp: store_in_def put_in_def wrap_in_def uptty_def Let_def advance_def)

interpretation tty_in: fifo holds_in store_in take_in
proof (unfold_locales, goal_cases)
  case (1 d xs n x)
  then have r: "ring 128 (tyibuff (tty d)) (tyihead (tty d)) (tyitail (tty d)) xs" "int (length xs) < 128"
    by (auto simp: holds_in_def)
  then show ?case
    using store_in_eq[of d x] ring_bounds[OF r(1)] ring_append[OF r, of x] 1 by (auto simp: holds_in_def uptty_def)
next
  case (2 d x xs n)
  then have r: "ring 128 (tyibuff (tty d)) (tyihead (tty d)) (tyitail (tty d)) (x # xs)" by (simp add: holds_in_def)
  then show ?case
    using ring_pop[OF r] ring_bounds[OF r] 2 by (auto simp: holds_in_def take_in_def uptty_def Let_def)
qed

text \<open>Sending a character takes it from the output queue; it is then the last one written to the UART.\<close>

definition send_char :: "tdev \<Rightarrow> (int \<times> tdev) option" where
  "send_char d = map_option (\<lambda>d. (last (tx (uart d)), d)) (send1 d)"

interpretation tty_out: fifo holds_out put_out send_char
proof (unfold_locales, goal_cases)
  case (1 d xs n x)
  then have r: "ring 64 (tyobuff (tty d)) (tyohead (tty d)) (tyotail (tty d)) xs" "int (length xs) < 64"
    by (auto simp: holds_out_def)
  then show ?case
    using ring_bounds[OF r(1)] ring_append[OF r, of x] 1 by (auto simp: holds_out_def put_out_def ttykickout_def Let_def)
next
  case (2 d x xs n)
  then have r: "ring 64 (tyobuff (tty d)) (tyohead (tty d)) (tyotail (tty d)) (x # xs)" by (simp add: holds_out_def)
  then show ?case
    using ring_pop[OF r] ring_bounds[OF r] 2
    by (auto simp: holds_out_def send_char_def send1_def thr_def uptty_def Let_def)
qed

section \<open>The contents of the input buffer\<close>

text \<open>The settings of a line: the control block without the places and contents of the buffers.\<close>

definition settings :: "ttycblk \<Rightarrow> ttycblk" where
  "settings t = t\<lparr>tyihead := 0, tyitail := 0, tyibuff := \<lambda>_. 0, tyicursor := 0, tyetail := 0, tyebuff := \<lambda>_. 0, tyoheld := False\<rparr>"

definition keeps :: "tdev \<Rightarrow> tdev \<Rightarrow> bool" where
  "keeps d d' \<longleftrightarrow> settings (tty d') = settings (tty d) \<and> rx (uart d') = rx (uart d) \<and> tyihead (tty d') = tyihead (tty d)"

definition buf_rep :: "tdev \<Rightarrow> int list \<Rightarrow> int \<Rightarrow> bool" where
  "buf_rep d xs c \<longleftrightarrow> ring 128 (tyibuff (tty d)) (tyihead (tty d)) (tyitail (tty d)) xs \<and> tyicursor (tty d) = c \<and>
     0 \<le> tyetail (tty d) \<and> tyetail (tty d) < 20"

lemma keeps_trans: "keeps d d1 \<Longrightarrow> keeps d1 d2 \<Longrightarrow> keeps d d2"
  by (simp add: keeps_def)

lemma keeps_refl [simp]: "keeps d d"
  by (simp add: keeps_def)

lemma settings_fields:
  "tyisem (settings t) = tyisem t" "tyimode (settings t) = tyimode t" "tyicrlf (settings t) = tyicrlf t"
  "tyoflow (settings t) = tyoflow t" "tyostart (settings t) = tyostart t" "tyostop (settings t) = tyostop t"
  "tyikill (settings t) = tyikill t" "tyikillc (settings t) = tyikillc t" "tyierase (settings t) = tyierase t"
  "tyierasec (settings t) = tyierasec t" "tyierasec2 (settings t) = tyierasec2 t" "tyeof (settings t) = tyeof t"
  "tyeofch (settings t) = tyeofch t"
  by (simp_all add: settings_def)

lemma keeps_sem: "keeps d d' \<Longrightarrow> tyisem (tty d') = tyisem (tty d)"
  unfolding keeps_def by (metis settings_fields(1))

lemma eputc_rep: "buf_rep d xs c \<Longrightarrow> \<exists>d'. eputc ch d = Some d' \<and> buf_rep d' xs c \<and> keeps d d'"
  by (auto simp: eputc_def buf_rep_def keeps_def settings_def Let_def ttykickout_def advance_def)

lemma eputs_rep: "buf_rep d xs c \<Longrightarrow> \<exists>d'. eputs cs d = Some d' \<and> buf_rep d' xs c \<and> keeps d d'"
proof (induction cs arbitrary: d)
  case (Cons ch cs)
  obtain d1 where d1: "eputc ch d = Some d1" "buf_rep d1 xs c" "keeps d d1" using eputc_rep[OF Cons.prems] by blast
  show ?case using Cons.IH[OF d1(2)] d1 by (auto intro: keeps_trans)
qed simp

lemma echo_if_rep: "buf_rep d xs c \<Longrightarrow> \<exists>d'. echo_if ch d = Some d' \<and> buf_rep d' xs c \<and> keeps d d'"
  using eputs_rep[of d] by (simp add: echo_if_def echoch_def del: eputs.simps)

lemma store_in_rep:
  assumes "buf_rep d xs c" "length xs < 128"
  shows "\<exists>d'. store_in ch d = Some d' \<and> buf_rep d' (xs @ [ch]) c \<and> keeps d d'"
proof -
  have r: "ring 128 (tyibuff (tty d)) (tyihead (tty d)) (tyitail (tty d)) xs" using assms(1) by (simp add: buf_rep_def)
  show ?thesis
    using store_in_eq[of d ch] ring_bounds[OF r] ring_append[OF r, of ch] assms
    by (simp add: buf_rep_def keeps_def settings_def uptty_def)
qed

text \<open>The store without wrapping is the same except at the last place of the buffer.\<close>

lemma put_in_rep:
  assumes "buf_rep d xs c" "length xs < 128" "tyitail (tty d) \<noteq> 127"
  shows "\<exists>d'. put_in ch d = Some d' \<and> buf_rep d' (xs @ [ch]) c \<and> keeps d d'"
proof -
  have r: "ring 128 (tyibuff (tty d)) (tyihead (tty d)) (tyitail (tty d)) xs" using assms(1) by (simp add: buf_rep_def)
  note B = ring_bounds[OF r]
  have "store_in ch d = put_in ch d" using B assms(3) by (auto simp: store_in_def put_in_def wrap_in_def uptty_def Let_def)
  then show ?thesis using store_in_rep[OF assms(1,2), of ch] by simp
qed

lemma set_cursor_rep: "buf_rep d xs c \<Longrightarrow> buf_rep (uptty (tyicursor_update (\<lambda>_. k)) d) xs k \<and> keeps d (uptty (tyicursor_update (\<lambda>_. k)) d)"
  by (simp add: buf_rep_def keeps_def settings_def uptty_def)

lemma kill_rep:
  assumes "buf_rep d (r @ l) (int (length l))"
  shows "\<exists>d'. handle_kill d = Some d' \<and> buf_rep d' r 0 \<and> keeps d d'"
proof -
  let ?t = "tyitail (tty d) - int (length l)"
  let ?p = "if ?t < 0 then ?t + 128 else ?t"
  let ?d = "d\<lparr>tty := (tty d)\<lparr>tyitail := ?p, tyicursor := 0\<rparr>\<rparr>"
  have r: "ring 128 (tyibuff (tty d)) (tyihead (tty d)) ?p r"
    by (rule ring_cut[of 128 "tyibuff (tty d)" "tyihead (tty d)" "tyitail (tty d)" r l]) (use assms in \<open>simp_all add: buf_rep_def\<close>)
  then have b: "buf_rep ?d r 0" using assms by (simp add: buf_rep_def)
  have "handle_kill d = eputs [TY_RETURN, TY_NEWLINE] ?d"
    using assms by (simp add: handle_kill_def uptty_def Let_def buf_rep_def del: eputs.simps)
  moreover have k: "keeps d ?d" by (simp add: keeps_def settings_def)
  obtain d' where "eputs [TY_RETURN, TY_NEWLINE] ?d = Some d'" "buf_rep d' r 0" "keeps ?d d'"
    using eputs_rep[OF b, of "[TY_RETURN, TY_NEWLINE]"] by blast
  ultimately show ?thesis by (intro exI[of _ d'] conjI keeps_trans[OF k]) simp_all
qed

lemma erase_rep:
  assumes "buf_rep d (r @ l) (int (length l))"
  shows "\<exists>d'. handle_erase d = Some d' \<and> buf_rep d' (r @ butlast l) (int (length (butlast l))) \<and> keeps d d'"
proof (cases "l = []")
  case True
  then show ?thesis using assms by (simp add: handle_erase_def buf_rep_def)
next
  case False
  let ?t = "tyitail (tty d) - 1"
  let ?p = "if ?t < 0 then ?t + 128 else ?t"
  let ?d = "d\<lparr>tty := (tty d)\<lparr>tyicursor := int (length l) - 1, tyitail := ?p\<rparr>\<rparr>"
  have c: "tyicursor (tty d) = int (length l)" "0 < int (length l)" using assms False by (simp_all add: buf_rep_def)
  have len: "int (length (butlast l)) = int (length l) - 1" using False by (cases l rule: rev_cases) simp_all
  have rl: "r @ l = (r @ butlast l) @ [last l]" using False by simp
  have R: "ring 128 (tyibuff (tty d)) (tyihead (tty d)) (tyitail (tty d)) (r @ l)" using assms by (simp add: buf_rep_def)
  have r: "ring 128 (tyibuff (tty d)) (tyihead (tty d)) ?p (r @ butlast l)"
    by (rule ring_cut[OF R[unfolded rl]]) simp
  then have b: "buf_rep ?d (r @ butlast l) (int (length (butlast l)))" using assms len by (simp add: buf_rep_def)
  have k: "keeps d ?d" by (simp add: keeps_def settings_def)
  have "tyitail (tty d) < 128" using ring_bounds[OF R] by simp
  moreover define cs where "cs = rub ((tty d)\<lparr>tyicursor := int (length l) - 1\<rparr>) (tyibuff (tty d) ?p)"
  ultimately have "handle_erase d = (if tyiecho (tty d) then eputs cs ?d else Some ?d)"
    using c by (simp add: handle_erase_def erase1_def uptty_def Let_def not_le del: eputs.simps)
  moreover obtain d' where "eputs cs ?d = Some d'" "buf_rep d' (r @ butlast l) (int (length (butlast l)))" "keeps ?d d'"
    using eputs_rep[OF b, of cs] by blast
  ultimately show ?thesis using b k keeps_trans[OF k] by (cases "tyiecho (tty d)") auto
qed

section \<open>Cooked input is a line editor\<close>

text \<open>
  The specification: the complete input that can be read, and the line that is being typed. A
  line-kill drops the line, an erase character its last character, a newline completes it; a character
  for which there is no room is refused.
\<close>

type_synonym lines = "int list \<times> int list"

definition edit1 :: "ttycblk \<Rightarrow> int \<Rightarrow> lines \<Rightarrow> lines" where
  "edit1 t ch rl = (case rl of (r, l) \<Rightarrow>
    if tyoflow t \<and> (ch = tyostart t \<or> ch = tyostop t) then (r, l)
    else if tyikill t \<and> ch = tyikillc t then (r, [])
    else if tyierase t \<and> (ch = tyierasec t \<or> ch = tyierasec2 t) then (r, butlast l)
    else if ch = 10 \<or> ch = 13 then (r @ l @ [ch], [])
    else if length r + length l \<ge> 127 then (r, l)
    else if tyeof t \<and> ch = tyeofch t then (if l = [] then (r @ [ch], []) else (r, l))
    else (r, l @ [ch]))"

definition mapcr :: "ttycblk \<Rightarrow> int \<Rightarrow> int" where
  "mapcr t ch = (if ch = 13 \<and> tyicrlf t then 10 else ch)"

definition edit :: "ttycblk \<Rightarrow> int \<Rightarrow> lines \<Rightarrow> lines" where
  "edit t ch rl = edit1 t (mapcr t ch) rl"

lemma edit_settings: "edit (settings t) ch rl = edit t ch rl"
  unfolding edit_def edit1_def mapcr_def settings_fields ..

text \<open>
  The buffer, the cursor and the semaphore represent both. Nobody waits for input; a newline comes
  only when there is room for it, and an end-of-file character that counts is not stored in the last place
  of the buffer (the theorems at the end show what happens otherwise).
\<close>

definition in_rep :: "tstate \<Rightarrow> lines \<Rightarrow> bool" where
  "in_rep sd rl \<longleftrightarrow> (case rl of (r, l) \<Rightarrow> buf_rep (snd sd) (r @ l) (int (length l)) \<and> sem_has (fst sd) (isem sd) (int (length r)))"

definition has_room :: "ttycblk \<Rightarrow> int \<Rightarrow> int \<Rightarrow> lines \<Rightarrow> bool" where
  "has_room t h ch rl \<longleftrightarrow> (case rl of (r, l) \<Rightarrow> let ch = mapcr t ch in
     (ch = 10 \<or> ch = 13 \<longrightarrow> length r + length l < 128) \<and>
     (tyeof t \<and> ch = tyeofch t \<and> l = [] \<longrightarrow> (h + int (length r)) mod 128 \<noteq> 127))"

definition step_ok :: "tstate \<Rightarrow> lines \<Rightarrow> tstate \<Rightarrow> bool" where
  "step_ok sd rl sd' \<longleftrightarrow> in_rep sd' rl \<and> keeps (snd sd) (snd sd') \<and> only_sem (isem sd) (fst sd) (fst sd')"

lemma isem_keeps: "keeps d d' \<Longrightarrow> isem (s', d') = isem (s, d)"
  by (simp add: isem_def keeps_sem)

lemma step_ok_trans: "step_ok sd rl sd1 \<Longrightarrow> step_ok sd1 rl' sd2 \<Longrightarrow> step_ok sd rl' sd2"
  unfolding step_ok_def using isem_keeps[of "snd sd" "snd sd1" "fst sd1" "fst sd"] by (auto intro: keeps_trans only_sem_trans)

text \<open>A change of the driver's state only, and one followed by signals.\<close>

lemma onu_ok:
  assumes rep: "in_rep (s, d) (r, l)"
    and f: "\<exists>d'. f d = Some d' \<and> buf_rep d' (r @ l') (int (length l')) \<and> keeps d d'"
  shows "\<exists>sd'. onu f (s, d) = Return () sd' \<and> step_ok (s, d) (r, l') sd'"
proof -
  obtain d' where d': "f d = Some d'" "buf_rep d' (r @ l') (int (length l'))" "keeps d d'" using f by blast
  then show ?thesis using rep isem_keeps[OF d'(3), of s s]
    by (intro exI[of _ "(s, d')"]) (simp add: onu_Some step_ok_def in_rep_def)
qed

lemma signal_in_ok:
  assumes "buf_rep d' (r @ [ch]) 0" "keeps d d'" "sem_has s (isem (s, d)) (int (length r))" "length r < 128"
  shows "\<exists>sd'. signal_in (s, d') = Return () sd' \<and> step_ok (s, d) (r @ [ch], []) sd'"
proof -
  have i: "isem (s, d') = isem (s, d)" by (rule isem_keeps[OF assms(2)])
  let ?s = "set_count (isem (s, d)) (int (length r) + 1) s"
  have "signal (isem (s, d)) s = Return OK ?s" using signal_has[OF assms(3)] assms(4) by simp
  then have "signal_in (s, d') = Return () (?s, d')" by (simp add: signal_in_def i onk_def)
  moreover have "sem_has ?s (isem (s, d)) (int (length r) + 1)" by (rule set_count_has[OF assms(3)])
  ultimately show ?thesis using assms(1,2) isem_keeps[OF assms(2), of ?s s] only_sem_set(2)[of "isem (s, d)" s]
    by (intro exI[of _ "(?s, d')"]) (simp add: step_ok_def in_rep_def algebra_simps)
qed

lemma eol_ok:
  assumes rep: "in_rep (s, d) (r, l)" and room: "length r + length l < 128" and nd: "0 \<le> ndefers s" "ndefers s < 2147483647"
  shows "\<exists>sd'. handle_eol ch (s, d) = Return () sd' \<and> step_ok (s, d) (r @ l @ [ch], []) sd'"
proof -
  let ?i = "isem (s, d)"
  have b: "buf_rep d (r @ l) (int (length l))" and h: "sem_has s ?i (int (length r))" using rep by (simp_all add: in_rep_def)
  obtain d1 where d1: "echo_if ch d = Some d1" "buf_rep d1 (r @ l) (int (length l))" "keeps d d1" using echo_if_rep[OF b] by blast
  obtain d2 where d2: "store_in ch d1 = Some d2" "buf_rep d2 ((r @ l) @ [ch]) (int (length l))" "keeps d1 d2"
    using store_in_rep[OF d1(2)] room by auto
  have kd: "keeps d d2" by (rule keeps_trans[OF d1(3) d2(3)])
  define k where "k = Suc (length l)"
  have c: "tyicursor (tty d2) + 1 = int k" using d2(2) by (simp add: buf_rep_def k_def)
  let ?s = "(set_count ?i (int (length r) + int k) s)\<lparr>attempt := (ndefers s \<noteq> 0 \<and> attempt s)\<rparr>"
  have sn: "signaln ?i (int k) s = Return OK ?s" by (rule signaln_has[OF h]) (use room nd in \<open>simp_all add: k_def\<close>)
  have i2: "isem (s, d2) = ?i" by (rule isem_keeps[OF kd])
  let ?d3 = "uptty (tyicursor_update (\<lambda>_. 0)) d2"
  note d3 = set_cursor_rep[OF d2(2), of 0]
  have onu1: "onu (\<lambda>d. Option.bind (echo_if ch d) (store_in ch)) (s, d) = Return () (s, d2)"
    by (simp add: onu_def d1(1) d2(1))
  have "handle_eol ch (s, d) = Return () (?s, ?d3)"
    by (simp add: handle_eol_def onu1 i2 c onk_def sn)
  moreover have "sem_has (set_count ?i (int (length r) + int k) s) ?i (int (length r) + int k)"
    by (rule set_count_has[OF h])
  then have "sem_has ?s ?i (int (length (r @ l @ [ch])))" by (simp add: sem_has_def k_def algebra_simps)
  moreover have k3: "keeps d ?d3" using keeps_trans[OF kd] d3 by blast
  ultimately show ?thesis using d3 isem_keeps[OF k3, of ?s s] only_sem_set(1)[of "ndefers s \<noteq> 0 \<and> attempt s" s ?i]
    by (intro exI[of _ "(?s, ?d3)"]) (simp add: step_ok_def in_rep_def)
qed

lemma eof_ok:
  assumes rep: "in_rep (s, d) (r, l)" and room: "length r + length l < 127"
    and tail: "l = [] \<Longrightarrow> (tyihead (tty d) + int (length r)) mod 128 \<noteq> 127"
  shows "\<exists>sd'. handle_eof ch (s, d) = Return () sd' \<and> step_ok (s, d) (if l = [] then (r @ [ch], []) else (r, l)) sd'"
proof -
  have b: "buf_rep d (r @ l) (int (length l))" and h: "sem_has s (isem (s, d)) (int (length r))" using rep by (simp_all add: in_rep_def)
  obtain d1 where d1: "echo_if ch d = Some d1" "buf_rep d1 (r @ l) (int (length l))" "keeps d d1" using echo_if_rep[OF b] by blast
  have o1: "onu (echo_if ch) (s, d) = Return () (s, d1)" by (simp add: onu_def d1(1))
  have c: "tyicursor (tty d1) = int (length l)" using d1(2) by (simp add: buf_rep_def)
  show ?thesis
  proof (cases "l = []")
    case False
    then show ?thesis using o1 c d1 h isem_keeps[OF d1(3), of s s]
      by (intro exI[of _ "(s, d1)"]) (simp add: handle_eof_def step_ok_def in_rep_def)
  next
    case True
    have t: "tyitail (tty d1) = (tyihead (tty d) + int (length r)) mod 128"
      using d1(2,3) True by (simp add: buf_rep_def ring_def keeps_def)
    obtain d2 where d2: "put_in ch d1 = Some d2" "buf_rep d2 (r @ [ch]) 0" "keeps d1 d2"
      using put_in_rep[of d1 r 0] d1(2) True room tail t by auto
    obtain sd' where "signal_in (s, d2) = Return () sd'" "step_ok (s, d) (r @ [ch], []) sd'"
      using signal_in_ok[OF d2(2) keeps_trans[OF d1(3) d2(3)] h] room by auto
    then show ?thesis using o1 c True d2(1) by (simp add: handle_eof_def onu_Some)
  qed
qed

lemma in_avail_rep: "in_rep sd (r, l) \<Longrightarrow> in_avail sd = Return (int (length r)) sd"
  using semcount_has[of "fst sd" "isem sd" "int (length r)"] by (cases sd) (simp add: in_avail_def in_rep_def onk_def)

lemma plain_ok:
  assumes rep: "in_rep (s, d) (r, l)" and room: "length r + length l < 127"
  shows "\<exists>sd'. onu (handle_plain ch) (s, d) = Return () sd' \<and> step_ok (s, d) (r, l @ [ch]) sd'"
proof (rule onu_ok[OF rep])
  have b: "buf_rep d (r @ l) (int (length l))" using rep by (simp add: in_rep_def)
  obtain d1 where d1: "echo_if ch d = Some d1" "buf_rep d1 (r @ l) (int (length l))" "keeps d d1" using echo_if_rep[OF b] by blast
  let ?d2 = "uptty (\<lambda>t. t\<lparr>tyicursor := tyicursor t + 1\<rparr>) d1"
  have "buf_rep ?d2 (r @ l) (int (length (l @ [ch]))) \<and> keeps d1 ?d2"
    using d1(2) by (simp add: buf_rep_def keeps_def settings_def uptty_def)
  then show "\<exists>d'. handle_plain ch d = Some d' \<and> buf_rep d' (r @ l @ [ch]) (int (length (l @ [ch]))) \<and> keeps d d'"
    using store_in_rep[of ?d2 "r @ l" "int (length (l @ [ch]))" ch] room d1 by (auto simp: handle_plain_def intro: keeps_trans)
qed

text \<open>The part of the specification behind the flow control.\<close>

definition edit2 :: "ttycblk \<Rightarrow> int \<Rightarrow> lines \<Rightarrow> lines" where
  "edit2 t ch rl = edit1 (t\<lparr>tyoflow := False\<rparr>) ch rl"

lemma edit1_go:
  assumes "\<not> (tyoflow t \<and> (ch = tyostart t \<or> ch = tyostop t))"
  shows "edit1 t ch rl = edit2 (t\<lparr>tyoheld := b\<rparr>) ch rl"
  unfolding edit2_def edit1_def if_not_P[OF assms] by (cases rl) (simp cong: if_cong)

lemma handle_cooked_ok:
  assumes rep: "in_rep (s, d) (r, l)" and nd: "0 \<le> ndefers s" "ndefers s < 2147483647"
    and room: "ch = 10 \<or> ch = 13 \<Longrightarrow> length r + length l < 128"
      "tyeof (tty d) \<and> ch = tyeofch (tty d) \<Longrightarrow> l = [] \<Longrightarrow> (tyihead (tty d) + int (length r)) mod 128 \<noteq> 127"
  shows "\<exists>sd'. handle_cooked ch (s, d) = Return () sd' \<and> step_ok (s, d) (edit2 (tty d) ch (r, l)) sd'"
proof -
  have b: "buf_rep d (r @ l) (int (length l))" using rep by (simp add: in_rep_def)
  have c: "tyicursor (tty d) = int (length l)" using b by (simp add: buf_rep_def)
  let ?t = "tty d"
  consider (kill) "ch = tyikillc ?t \<and> tyikill ?t"
    | (erase) "\<not> (ch = tyikillc ?t \<and> tyikill ?t)" "(ch = tyierasec ?t \<or> ch = tyierasec2 ?t) \<and> tyierase ?t"
    | (eol) "\<not> (ch = tyikillc ?t \<and> tyikill ?t)" "\<not> ((ch = tyierasec ?t \<or> ch = tyierasec2 ?t) \<and> tyierase ?t)" "ch = 10 \<or> ch = 13"
    | (other) "\<not> (ch = tyikillc ?t \<and> tyikill ?t)" "\<not> ((ch = tyierasec ?t \<or> ch = tyierasec2 ?t) \<and> tyierase ?t)" "\<not> (ch = 10 \<or> ch = 13)"
    by blast
  then show ?thesis
  proof cases
    case kill
    then have "handle_cooked ch (s, d) = onu handle_kill (s, d)" "edit2 ?t ch (r, l) = (r, [])"
      by (simp_all add: handle_cooked_def edit2_def edit1_def)
    then show ?thesis using onu_ok[OF rep, of handle_kill "[]"] kill_rep[OF b] by simp
  next
    case erase
    then have "handle_cooked ch (s, d) = onu handle_erase (s, d)" "edit2 ?t ch (r, l) = (r, butlast l)"
      by (auto simp add: handle_cooked_def edit2_def edit1_def)
    then show ?thesis using onu_ok[OF rep, of handle_erase "butlast l"] erase_rep[OF b] by simp
  next
    case eol
    then have "handle_cooked ch (s, d) = handle_eol ch (s, d)" "edit2 ?t ch (r, l) = (r @ l @ [ch], [])"
      by (auto simp add: handle_cooked_def edit2_def edit1_def)
    then show ?thesis using eol_ok[OF rep room(1) nd, of ch] eol(3) by simp
  next
    case other
    let ?full = "int (length r) + int (length l) \<ge> 127"
    have h: "handle_cooked ch (s, d) =
        (if ?full then onu (eputc (tyifullc ?t)) (s, d)
         else if ch = tyeofch ?t \<and> tyeof ?t then handle_eof ch (s, d) else onu (handle_plain ch) (s, d))"
      using other in_avail_rep[OF rep] c by (auto simp: handle_cooked_def)
    have e: "edit2 ?t ch (r, l) = (if ?full then (r, l)
        else if ch = tyeofch ?t \<and> tyeof ?t then if l = [] then (r @ [ch], []) else (r, l) else (r, l @ [ch]))"
      using other by (auto simp: edit2_def edit1_def)
    consider (full) ?full | (eof) "\<not> ?full" "ch = tyeofch ?t \<and> tyeof ?t" | (plain) "\<not> ?full" "\<not> (ch = tyeofch ?t \<and> tyeof ?t)" by blast
    then show ?thesis
    proof cases
      case full
      then show ?thesis unfolding h e using onu_ok[OF rep, of "eputc (tyifullc ?t)" l] eputc_rep[OF b] by simp
    next
      case eof
      then show ?thesis unfolding h e using eof_ok[OF rep, of ch] room(2) by simp
    next
      case plain
      then have f: "\<not> ?full" "\<not> (ch = tyeofch ?t \<and> tyeof ?t)" by blast+
      show ?thesis unfolding h e if_not_P[OF f(1)] if_not_P[OF f(2)] using plain_ok[OF rep, of ch] f(1) by simp
    qed
  qed
qed

lemma in_rep_device:
  assumes "in_rep (s, d) rl" "\<And>xs c. buf_rep d xs c \<Longrightarrow> buf_rep d' xs c" "keeps d d'"
  shows "step_ok (s, d) rl (s, d')"
  using assms isem_keeps[OF assms(3), of s s] by (auto simp: in_rep_def step_ok_def split: prod.splits)

lemma handle_edit_ok:
  assumes rep: "in_rep (s, d) rl" and nd: "0 \<le> ndefers s" "ndefers s < 2147483647" and cooked: "tyimode (tty d) = 67"
    and room: "has_room ((tty d)\<lparr>tyicrlf := False\<rparr>) (tyihead (tty d)) ch rl"
  shows "\<exists>sd'. handle_edit ch avail (s, d) = Return () sd' \<and> step_ok (s, d) (edit1 (tty d) ch rl) sd'"
proof -
  obtain r l where rl: "rl = (r, l)" by fastforce
  let ?h = "\<lambda>b. uptty (tyoheld_update (\<lambda>_. b))" let ?t = "tty d"
  have dev: "buf_rep (?h b d) xs c" "buf_rep (ttykickout (?h b d)) xs c" if "buf_rep d xs c" for xs c b
    using that by (simp_all add: buf_rep_def uptty_def ttykickout_def)
  have k: "keeps d (?h b d)" "keeps d (ttykickout (?h b d))" for b
    by (simp_all add: keeps_def settings_def uptty_def ttykickout_def)
  consider (start) "tyoflow ?t \<and> ch = tyostart ?t" | (stop) "\<not> (tyoflow ?t \<and> ch = tyostart ?t)" "tyoflow ?t \<and> ch = tyostop ?t"
    | (go) "\<not> (tyoflow ?t \<and> ch = tyostart ?t)" "\<not> (tyoflow ?t \<and> ch = tyostop ?t)" by blast
  then show ?thesis
  proof cases
    case start
    then have "handle_edit ch avail (s, d) = Return () (s, ttykickout (?h False d))" "edit1 ?t ch rl = rl"
      by (auto simp: handle_edit_def edit1_def Let_def split: prod.splits)
    then show ?thesis using in_rep_device[OF rep dev(2) k(2)] by simp
  next
    case stop
    then have "handle_edit ch avail (s, d) = Return () (s, ?h True d)" "edit1 ?t ch rl = rl"
      by (auto simp: handle_edit_def edit1_def Let_def split: prod.splits)
    then show ?thesis using in_rep_device[OF rep dev(1) k(1)] by simp
  next
    case go
    have st: "step_ok (s, d) rl (s, ?h False d)" by (rule in_rep_device[OF rep dev(1) k(1)])
    then have rep1: "in_rep (s, ?h False d) (r, l)" by (simp add: step_ok_def rl)
    have "handle_edit ch avail (s, d) = handle_cooked ch (s, ?h False d)"
      using cooked unfolding handle_edit_def Let_def snd_conv if_not_P[OF go(1)] if_not_P[OF go(2)] by simp
    moreover have "edit1 ?t ch rl = edit2 (tty (?h False d)) ch (r, l)"
      unfolding uptty_def rl using edit1_go[of ?t ch "(r, l)" False] go by auto
    moreover obtain sd' where "handle_cooked ch (s, ?h False d) = Return () sd'"
      "step_ok (s, ?h False d) (edit2 (tty (?h False d)) ch (r, l)) sd'"
      using handle_cooked_ok[OF rep1 nd, of ch] room unfolding has_room_def mapcr_def rl by (auto simp: uptty_def)
    ultimately show ?thesis using step_ok_trans[OF st] by auto
  qed
qed

lemma ttyhandle_in_ok:
  assumes rep: "in_rep (s, d) rl" and nd: "0 \<le> ndefers s" "ndefers s < 2147483647" and cooked: "tyimode (tty d) = 67"
    and rx: "rx (uart d) = ch # cs" and room: "has_room (tty d) (tyihead (tty d)) ch rl"
  shows "\<exists>s' d'. ttyhandle_in (s, d) = Return () (s', d') \<and> in_rep (s', d') (edit (tty d) ch rl) \<and> rx (uart d') = cs \<and>
    settings (tty d') = settings (tty d) \<and> tyihead (tty d') = tyihead (tty d) \<and> only_sem (isem (s, d)) s s'"
proof -
  let ?d = "d\<lparr>uart := (uart d)\<lparr>rx := cs\<rparr>\<rparr>"
  have r: "rbr d = (ch, ?d)" using rx by (simp add: rbr_def)
  have rep1: "in_rep (s, ?d) rl" using rep by (auto simp: in_rep_def buf_rep_def isem_def)
  obtain r l where rl: "rl = (r, l)" by fastforce
  have room1: "has_room ((tty ?d)\<lparr>tyicrlf := False\<rparr>) (tyihead (tty ?d)) (mapcr (tty d) ch) rl"
    using room by (simp add: has_room_def mapcr_def rl Let_def split del: if_split)
  have "ttyhandle_in (s, d) = handle_edit (mapcr (tty d) ch) (int (length r)) (s, ?d)"
    using in_avail_rep[of "(s, ?d)" r l] rep1 rl cooked r by (simp add: ttyhandle_in_def mapcr_def Let_def)
  then show ?thesis
    using handle_edit_ok[OF rep1 nd _ room1, of "int (length r)"] cooked
    by (auto simp: step_ok_def keeps_def edit_def isem_def)
qed

section \<open>The interrupt handler\<close>

text \<open>Every newline among the characters finds room, and no end-of-file character falls on the last place.\<close>

primrec fits :: "ttycblk \<Rightarrow> int \<Rightarrow> int list \<Rightarrow> lines \<Rightarrow> bool" where
  "fits t h [] rl = True"
| "fits t h (c # cs) rl = (has_room t h c rl \<and> fits t h cs (edit t c rl))"

lemma has_room_settings: "has_room (settings t) h ch rl = has_room t h ch rl"
  unfolding has_room_def mapcr_def settings_fields ..

lemma fits_settings: "fits (settings t) h cs rl = fits t h cs rl"
  by (induction cs arbitrary: rl) (simp_all add: has_room_settings edit_settings)

lemma in_loop_ok:
  "in_rep (s, d) rl \<Longrightarrow> 0 \<le> ndefers s \<Longrightarrow> ndefers s < 2147483647 \<Longrightarrow> tyimode (tty d) = 67 \<Longrightarrow> rx (uart d) = cs \<Longrightarrow>
   fits (tty d) (tyihead (tty d)) cs rl \<Longrightarrow>
   \<exists>s' d'. in_loop (length cs) (s, d) = Return () (s', d') \<and> in_rep (s', d') (fold (edit (tty d)) cs rl) \<and> rx (uart d') = [] \<and>
     settings (tty d') = settings (tty d) \<and> only_sem (isem (s, d)) s s'"
proof (induction cs arbitrary: s d rl)
  case Nil
  then show ?case by simp
next
  case (Cons c cs)
  obtain s1 d1 where 1: "ttyhandle_in (s, d) = Return () (s1, d1)" "in_rep (s1, d1) (edit (tty d) c rl)" "rx (uart d1) = cs"
    "settings (tty d1) = settings (tty d)" "tyihead (tty d1) = tyihead (tty d)" "only_sem (isem (s, d)) s s1"
    using ttyhandle_in_ok[OF Cons.prems(1-5)] Cons.prems(6) by auto
  have nd: "ndefers s1 = ndefers s" by (rule only_semD(1)[OF 1(6)])
  have mode: "tyimode (tty d1) = 67" using Cons.prems(4) arg_cong[OF 1(4), of tyimode] by (simp add: settings_fields)
  have i: "isem (s1, d1) = isem (s, d)" using arg_cong[OF 1(4), of tyisem] by (simp add: isem_def settings_fields)
  have e: "edit (tty d1) = edit (tty d)" by (intro ext) (metis 1(4) edit_settings)
  have f: "fits (tty d1) (tyihead (tty d1)) cs (edit (tty d) c rl)"
    using Cons.prems(6) 1(5) by (metis 1(4) fits.simps(2) fits_settings)
  obtain s2 d2 where "in_loop (length cs) (s1, d1) = Return () (s2, d2)" "in_rep (s2, d2) (fold (edit (tty d)) cs (edit (tty d) c rl))"
    "rx (uart d2) = []" "settings (tty d2) = settings (tty d)" "only_sem (isem (s, d)) s1 s2"
    using Cons.IH[OF 1(2) _ _ mode 1(3) f] Cons.prems(2,3) nd 1(4) unfolding e i by auto
  then show ?case using 1(1,6) Cons.prems(5) by (auto intro: only_sem_trans)
qed

text \<open>C11: The terminal driver's input side refines a line editor on lists: when the UART has characters
  \<open>cs\<close>, the interrupt handler takes all of them, and the complete input and the line being typed become
  what editing with \<open>cs\<close> makes of them: line-kill, erase, newline, end of file, flow control and the
  refusal of what does not fit. In the kernel nothing changes but the count of the input semaphore, which
  stays the number of characters that can be read.\<close>

theorem tty_line_editor:
  assumes rep: "in_rep (s, d) (r, l)" and nd: "ndefers s = 0" and cooked: "tyimode (tty d) = TY_IMCOOKED"
    and irq: "iir (uart d) = UART_IIR_RDA" and fits: "fits (tty d) (tyihead (tty d)) (rx (uart d)) (r, l)"
  shows "\<exists>s' d'. ttyhandler (s, d) = Return () (s', d') \<and> in_rep (s', d') (fold (edit (tty d)) (rx (uart d)) (r, l)) \<and>
    rx (uart d') = [] \<and> settings (tty d') = settings (tty d) \<and> only_sem (isem (s, d)) s s'"
proof -
  let ?s1 = "s\<lparr>ndefers := 1, attempt := False\<rparr>"
  have st: "resched_cntl DEFER_START s = Return OK ?s1" using nd by (simp add: resched_cntl_def DEFER_START_def Let_def)
  have rep1: "in_rep (?s1, d) (r, l)" using rep by (simp add: in_rep_def sem_has_def isem_def)
  obtain s2 d2 where 2: "in_loop (length (rx (uart d))) (?s1, d) = Return () (s2, d2)"
    "in_rep (s2, d2) (fold (edit (tty d)) (rx (uart d)) (r, l))" "rx (uart d2) = []"
    "settings (tty d2) = settings (tty d)" "only_sem (isem (s, d)) ?s1 s2"
    using in_loop_ok[OF rep1 _ _ _ refl fits] cooked by (auto simp: isem_def)
  have a: "ndefers s2 = 1" "\<not> attempt s2" using only_semD(1)[OF 2(5)] 2(5) by (simp_all add: only_sem_def)
  then have sp: "resched_cntl DEFER_STOP s2 = Return OK (s2\<lparr>ndefers := 0\<rparr>)"
    by (simp add: resched_cntl_def DEFER_START_def DEFER_STOP_def Let_def)
  have "ttyhandler (s, d) = Return () (s2\<lparr>ndefers := 0\<rparr>, d2)"
    using irq 2(1) by (simp add: ttyhandler_def Let_def onk_def st sp)
  moreover have "in_rep (s2\<lparr>ndefers := 0\<rparr>, d2) (fold (edit (tty d)) (rx (uart d)) (r, l))"
    using 2(2) by (auto simp: in_rep_def sem_has_def isem_def split: prod.splits)
  moreover have "s2\<lparr>attempt := False\<rparr> = set_count (isem (s, d)) (scount (semtab s2 (isem (s, d)))) ?s1"
    using 2(5) by (simp add: only_sem_def)
  then have "(s2\<lparr>attempt := False\<rparr>)\<lparr>ndefers := 0, attempt := attempt s\<rparr> =
      (set_count (isem (s, d)) (scount (semtab s2 (isem (s, d)))) ?s1)\<lparr>ndefers := 0, attempt := attempt s\<rparr>" by simp
  then have "only_sem (isem (s, d)) s (s2\<lparr>ndefers := 0\<rparr>)"
    using nd a(2) by (simp add: only_sem_def set_count_def upsem_def)
  ultimately show ?thesis using 2(3,4) by blast
qed

section \<open>Reading\<close>

lemma take_in_rep:
  assumes "buf_rep d (x # xs) c"
  shows "\<exists>d'. take_in d = Some (x, d') \<and> buf_rep d' xs c \<and> settings (tty d') = settings (tty d) \<and> uart d' = uart d"
proof -
  have r: "ring 128 (tyibuff (tty d)) (tyihead (tty d)) (tyitail (tty d)) (x # xs)" using assms by (simp add: buf_rep_def)
  then show ?thesis using ring_pop[OF r] ring_bounds[OF r] assms
    by (simp add: take_in_def Let_def buf_rep_def settings_def uptty_def)
qed

text \<open>What a successful call of the upper half leaves.\<close>

definition read_ok :: "tstate \<Rightarrow> lines \<Rightarrow> tstate \<Rightarrow> bool" where
  "read_ok sd rl sd' \<longleftrightarrow> in_rep sd' rl \<and> settings (tty (snd sd')) = settings (tty (snd sd)) \<and> uart (snd sd') = uart (snd sd) \<and>
     only_sem (isem sd) (fst sd) (fst sd')"

definition eof_mark :: "ttycblk \<Rightarrow> int \<Rightarrow> bool" where
  "eof_mark t ch \<longleftrightarrow> tyimode t = 67 \<and> tyeof t \<and> ch = tyeofch t"

lemma eof_mark_settings: "settings t' = settings t \<Longrightarrow> eof_mark t' = eof_mark t"
  unfolding eof_mark_def by (metis settings_fields(2,12,13))

lemma ttygetc_ok:
  assumes rep: "in_rep sd (x # r, l)"
  shows "\<exists>sd'. ttygetc sd = Return (if eof_mark (tty (snd sd)) x then EOF else x) sd' \<and> read_ok sd (r, l) sd'"
proof -
  obtain s d where sd: "sd = (s, d)" by fastforce
  let ?i = "isem (s, d)"
  have b: "buf_rep d (x # (r @ l)) (int (length l))" and h: "sem_has s ?i (int (length r) + 1)"
    using rep by (simp_all add: in_rep_def sd add.commute)
  have len: "int (length r) < 2147483647" using b by (simp add: buf_rep_def ring_def)
  have w: "onk (wait ?i) (s, d) = Return OK (set_count ?i (int (length r)) s, d)" using wait_has[OF h len] by (simp add: onk_def)
  obtain d' where d': "take_in d = Some (x, d')" "buf_rep d' (r @ l) (int (length l))" "settings (tty d') = settings (tty d)"
    "uart d' = uart d" using take_in_rep[OF b] by blast
  have i: "isem (set_count ?i (int (length r)) s, d') = ?i"
    using arg_cong[OF d'(3), of tyisem] by (simp add: isem_def settings_fields)
  have "eof_mark (tty d') x = eof_mark (tty d) x" using eof_mark_settings[OF d'(3)] by simp
  then have "ttygetc sd = Return (if eof_mark (tty d) x then EOF else x) (set_count ?i (int (length r)) s, d')"
    using w d'(1) by (simp add: ttygetc_def sd ond_Some eof_mark_def Let_def)
  then show ?thesis using d' i set_count_has[OF h, of "int (length r)"] only_sem_set(2)[of ?i s]
    by (intro exI[of _ "(set_count ?i (int (length r)) s, d')"]) (simp add: read_ok_def in_rep_def sd)
qed

lemma read_ok_trans:
  assumes "read_ok sd rl sd1" "read_ok sd1 rl' sd2"
  shows "read_ok sd rl' sd2"
proof -
  have "settings (tty (snd sd1)) = settings (tty (snd sd))" using assms(1) by (simp add: read_ok_def)
  then have "isem sd1 = isem sd" unfolding isem_def by (metis settings_fields(1))
  then show ?thesis using assms by (auto simp: read_ok_def intro: only_sem_trans)
qed

text \<open>Characters of a line: bytes that end no line and do not mean end of file.\<close>

definition inner :: "ttycblk \<Rightarrow> int \<Rightarrow> bool" where
  "inner t c \<longleftrightarrow> 0 \<le> c \<and> c < 256 \<and> c \<noteq> 10 \<and> c \<noteq> 13 \<and> \<not> eof_mark t c"

lemma read_line_ok:
  "in_rep sd (w @ [10] @ r, l) \<Longrightarrow> \<forall>c \<in> set w. inner (tty (snd sd)) c \<Longrightarrow> \<not> eof_mark (tty (snd sd)) 10 \<Longrightarrow> ch \<noteq> 10 \<Longrightarrow> ch \<noteq> 13 \<Longrightarrow>
   \<exists>sd'. read_line n ch sd = Return (take n (w @ [10])) sd' \<and> read_ok sd (drop n (w @ [10]) @ r, l) sd'"
proof (induction n arbitrary: sd w ch)
  case 0
  then show ?case by (simp add: read_ok_def)
next
  case (Suc n)
  show ?case
  proof (cases w)
    case Nil
    obtain sd1 where 1: "ttygetc sd = Return 10 sd1" "read_ok sd (r, l) sd1"
      using ttygetc_ok[of sd 10 r l] Suc.prems(1,3) Nil by auto
    have "read_line n 10 sd1 = Return [] sd1" by (cases n) simp_all
    then show ?thesis using 1 Suc.prems(4,5) Nil by (simp add: u8_def)
  next
    case (Cons c w')
    have c: "0 \<le> c" "c < 256" "c \<noteq> 10" "c \<noteq> 13" "\<not> eof_mark (tty (snd sd)) c" using Suc.prems(2) Cons by (auto simp: inner_def)
    obtain sd1 where 1: "ttygetc sd = Return c sd1" "read_ok sd (w' @ [10] @ r, l) sd1"
      using ttygetc_ok[of sd c "w' @ [10] @ r" l] Suc.prems(1) Cons c(5) by auto
    have e: "eof_mark (tty (snd sd1)) = eof_mark (tty (snd sd))" using 1(2) by (auto simp: read_ok_def intro: eof_mark_settings)
    have w': "\<forall>c \<in> set w'. inner (tty (snd sd1)) c" using Suc.prems(2) Cons e by (auto simp: inner_def)
    obtain sd2 where 2: "read_line n c sd1 = Return (take n (w' @ [10])) sd2" "read_ok sd1 (drop n (w' @ [10]) @ r, l) sd2"
      using Suc.IH[of sd1 w' c] 1(2) w' Suc.prems(3) e c(3,4) by (auto simp: read_ok_def)
    then show ?thesis using 1(1) c Suc.prems(4,5) Cons read_ok_trans[OF 1(2) 2(2)] by simp
  qed
qed

text \<open>C33: In cooked mode \<^verbatim>\<open>ttyread\<close> delivers the first line of the complete input, with its newline, or as
  much of it as was asked for, and leaves the rest and the line being typed; a first character that means
  end of file gives \<^verbatim>\<open>EOF\<close>. (A request for no character at all still takes one.)\<close>

theorem ttyread_line:
  assumes cooked: "tyimode (tty (snd sd)) = TY_IMCOOKED" and count: "0 \<le> count"
    and line: "\<forall>c \<in> set w. inner (tty (snd sd)) c" "\<not> eof_mark (tty (snd sd)) 10"
  shows "(in_rep sd (w @ [10] @ r, l) \<longrightarrow>
      (let k = max 1 (nat count) in
       \<exists>sd'. ttyread count sd = Return (int (length (take k (w @ [10]))), take k (w @ [10])) sd' \<and>
         read_ok sd (drop k (w @ [10]) @ r, l) sd')) \<and>
    (tyeof (tty (snd sd)) \<longrightarrow> in_rep sd (tyeofch (tty (snd sd)) # r, l) \<longrightarrow>
      (\<exists>sd'. ttyread count sd = Return (EOF, []) sd' \<and> read_ok sd (r, l) sd'))"
proof (intro conjI impI)
  assume rep: "in_rep sd (w @ [10] @ r, l)"
  let ?k = "max 1 (nat count)"
  have k: "?k = Suc (nat (count - 1))" by (cases "count \<le> 1") auto
  obtain c w' where cw: "w @ [10] = c # w'" by (cases w) auto
  have app: "w @ [10] @ r = c # (w' @ r)" using arg_cong[OF cw, of "\<lambda>xs. xs @ r"] by simp
  have c: "0 \<le> c" "c < 256" "\<not> eof_mark (tty (snd sd)) c" using cw line by (cases w; auto simp: inner_def)+
  obtain sd1 where 1: "ttygetc sd = Return c sd1" "read_ok sd (w' @ r, l) sd1"
    using ttygetc_ok[of sd c "w' @ r" l] rep[unfolded app] c(3) by auto
  have e: "eof_mark (tty (snd sd1)) = eof_mark (tty (snd sd))" using 1(2) by (auto simp: read_ok_def intro: eof_mark_settings)
  have "\<exists>sd2. read_line (nat (count - 1)) c sd1 = Return (take (nat (count - 1)) w') sd2 \<and>
      read_ok sd1 (drop (nat (count - 1)) w' @ r, l) sd2"
  proof (cases w)
    case Nil
    then have "c = 10" "w' = []" using cw by auto
    moreover have "read_line (nat (count - 1)) 10 sd1 = Return [] sd1" by (cases "nat (count - 1)") simp_all
    ultimately show ?thesis using 1(2) by (auto simp: read_ok_def)
  next
    case (Cons c' w'')
    then have w: "w' = w'' @ [10]" "c' = c" using cw by auto
    have "\<forall>c \<in> set w''. inner (tty (snd sd1)) c" "c \<noteq> 10" "c \<noteq> 13" using line(1) Cons w(2) e by (auto simp: inner_def)
    then show ?thesis using read_line_ok[of sd1 w'' r l c "nat (count - 1)"] 1(2) line(2) e w(1) by (auto simp: read_ok_def)
  qed
  then obtain sd2 where 2: "read_line (nat (count - 1)) c sd1 = Return (take (nat (count - 1)) w') sd2"
    "read_ok sd1 (drop (nat (count - 1)) w' @ r, l) sd2" by blast
  have T: "ttyread count sd = Return (int (length (take (Suc (nat (count - 1))) (c # w'))), take (Suc (nat (count - 1))) (c # w')) sd2"
    using cooked count 1(1) 2(1) c(1,2) by (simp add: ttyread_def)
  show "let k = ?k in \<exists>sd'. ttyread count sd = Return (int (length (take k (w @ [10]))), take k (w @ [10])) sd' \<and>
         read_ok sd (drop k (w @ [10]) @ r, l) sd'"
    unfolding Let_def cw k using T read_ok_trans[OF 1(2) 2(2)] by (intro exI[of _ sd2]) simp
next
  assume "tyeof (tty (snd sd))" "in_rep sd (tyeofch (tty (snd sd)) # r, l)"
  then show "\<exists>sd'. ttyread count sd = Return (EOF, []) sd' \<and> read_ok sd (r, l) sd'"
    using ttygetc_ok[of sd "tyeofch (tty (snd sd))" r l] cooked count by (auto simp: ttyread_def eof_mark_def)
qed

section \<open>Output\<close>

text \<open>The echo queue holds \<open>es\<close>, the output queue \<open>xs\<close>, and its semaphore counts the free places; nobody waits.\<close>

definition out_rep :: "tstate \<Rightarrow> int list \<Rightarrow> int list \<Rightarrow> bool" where
  "out_rep sd es xs \<longleftrightarrow> (let t = tty (snd sd) in
     ring 20 (tyebuff t) (tyehead t) (tyetail t) es \<and> length es < 20 \<and> ring 64 (tyobuff t) (tyohead t) (tyotail t) xs \<and>
     sem_has (fst sd) (tyosem t) (64 - int (length xs)))"

lemma ring_empty: "ring B b h t xs \<Longrightarrow> int (length xs) < B \<Longrightarrow> (h = t) = (xs = [])"
proof
  assume r: "ring B b h t xs" and len: "int (length xs) < B" and e: "h = t"
  show "xs = []"
  proof (rule ccontr)
    assume "xs \<noteq> []"
    then have "0 < length xs" by simp
    then show False using ring_places[of 0 "length xs" B h] r len e by (auto simp: ring_def)
  qed
next
  assume "ring B b h t xs" "xs = []"
  then show "h = t" by (simp add: ring_def)
qed

lemma out_echo_eq:
  "ring 20 (tyebuff (tty d)) (tyehead (tty d)) (tyetail (tty d)) es \<Longrightarrow> length es < 20 \<Longrightarrow>
   \<exists>h. out_echo k d = Some (k - length es, d\<lparr>uart := (uart d)\<lparr>tx := tx (uart d) @ take k es\<rparr>, tty := (tty d)\<lparr>tyehead := h\<rparr>\<rparr>) \<and>
     ring 20 (tyebuff (tty d)) h (tyetail (tty d)) (drop k es)"
proof (induction k arbitrary: d es)
  case 0
  then show ?case by (intro exI[of _ "tyehead (tty d)"]) simp
next
  case (Suc k)
  show ?case
  proof (cases es)
    case Nil
    then show ?thesis using Suc.prems by (intro exI[of _ "tyehead (tty d)"]) (simp add: Let_def ring_def)
  next
    case (Cons e es')
    have r: "ring 20 (tyebuff (tty d)) (tyehead (tty d)) (tyetail (tty d)) (e # es')" using Suc.prems(1) Cons by simp
    let ?d = "d\<lparr>uart := (uart d)\<lparr>tx := tx (uart d) @ [e]\<rparr>, tty := (tty d)\<lparr>tyehead := advance 20 (tyehead (tty d))\<rparr>\<rparr>"
    have "tyehead (tty d) \<noteq> tyetail (tty d)" using ring_empty[OF r] Suc.prems(2) Cons by simp
    then have "out_echo (Suc k) d = out_echo k ?d"
      using ring_pop[OF r] ring_bounds[OF r] by (simp add: Let_def uptty_def thr_def)
    moreover obtain h where "out_echo k ?d = Some (k - length es', ?d\<lparr>uart := (uart ?d)\<lparr>tx := tx (uart ?d) @ take k es'\<rparr>,
        tty := (tty ?d)\<lparr>tyehead := h\<rparr>\<rparr>)" "ring 20 (tyebuff (tty ?d)) h (tyetail (tty ?d)) (drop k es')"
      using Suc.IH[of ?d es'] ring_pop[OF r] Suc.prems(2) Cons by auto
    ultimately show ?thesis using Cons by (intro exI[of _ h]) simp
  qed
qed

lemma out_chars_eq:
  "ring 64 (tyobuff (tty d)) (tyohead (tty d)) (tyotail (tty d)) xs \<Longrightarrow>
   \<exists>h. out_chars k (int (length xs)) d =
      Some (int (length (take k xs)), d\<lparr>uart := (uart d)\<lparr>tx := tx (uart d) @ take k xs\<rparr>, tty := (tty d)\<lparr>tyohead := h\<rparr>\<rparr>) \<and>
     ring 64 (tyobuff (tty d)) h (tyotail (tty d)) (drop k xs)"
proof (induction k arbitrary: d xs)
  case 0
  then show ?case by (intro exI[of _ "tyohead (tty d)"]) simp
next
  case (Suc k)
  show ?case
  proof (cases xs)
    case Nil
    then show ?thesis using Suc.prems by (intro exI[of _ "tyohead (tty d)"]) simp
  next
    case (Cons x xs')
    have r: "ring 64 (tyobuff (tty d)) (tyohead (tty d)) (tyotail (tty d)) (x # xs')" using Suc.prems Cons by simp
    let ?d = "d\<lparr>uart := (uart d)\<lparr>tx := tx (uart d) @ [x]\<rparr>, tty := (tty d)\<lparr>tyohead := advance 64 (tyohead (tty d))\<rparr>\<rparr>"
    have s1: "send1 d = Some ?d" using ring_pop[OF r] ring_bounds[OF r] by (simp add: send1_def Let_def uptty_def thr_def)
    obtain h where h: "out_chars k (int (length xs')) ?d = Some (int (length (take k xs')), ?d\<lparr>uart := (uart ?d)\<lparr>tx := tx (uart ?d) @ take k xs'\<rparr>,
        tty := (tty ?d)\<lparr>tyohead := h\<rparr>\<rparr>)" "ring 64 (tyobuff (tty ?d)) h (tyotail (tty ?d)) (drop k xs')"
      using Suc.IH[of ?d xs'] ring_pop[OF r] by auto
    then show ?thesis using Cons s1 by (intro exI[of _ h]) simp
  qed
qed

lemma out_idle_eq:
  assumes "out_rep (s, d) es xs"
  shows "out_idle (s, d) = Return (es = [] \<and> xs = []) (s, d)"
proof -
  have r: "ring 20 (tyebuff (tty d)) (tyehead (tty d)) (tyetail (tty d)) es" "length es < 20"
    and h: "sem_has s (osem (s, d)) (64 - int (length xs))" using assms by (simp_all add: out_rep_def osem_def Let_def)
  have "(tyehead (tty d) = tyetail (tty d)) = (es = [])" using ring_empty[OF r(1)] r(2) by simp
  then show ?thesis using semcount_has[OF h] by (auto simp: out_idle_def onk_def)
qed

definition all_sent :: "nat \<Rightarrow> int list \<Rightarrow> int list \<Rightarrow> bool" where
  "all_sent k es xs \<longleftrightarrow> length es + length xs \<le> k"

text \<open>An output interrupt fills the UART's FIFO: first the echoed characters and then the output, each in
  the order in which they were queued, as many as the FIFO has room for; the rest stays queued, the
  output semaphore counts the freed places, and the interrupt is turned off exactly when everything has been
  sent. While output is held nothing happens.\<close>

theorem ttyhandle_out_sends:
  assumes rep: "out_rep (s, d) es xs" and nd: "0 \<le> ndefers s" "ndefers s < 2147483647"
    and lvl: "0 \<le> txfifo_lvl (uart d)" "txfifo_lvl (uart d) \<le> UART_FIFO_SIZE"
  defines "k \<equiv> nat (UART_FIFO_SIZE - txfifo_lvl (uart d))"
  shows "\<exists>s' d'. ttyhandle_out (s, d) = Return () (s', d') \<and>
    (if tyoheld (tty d) then (s', d') = (s, d)
     else tx (uart d') = tx (uart d) @ take k (es @ xs) \<and> out_rep (s', d') (drop k es) (drop (k - length es) xs) \<and>
       only_sem (osem (s, d)) s s' \<and>
       ier (uart d') = (if all_sent k es xs then ier (uart d) AND u32 (NOT UART_IER_ETBEI) else ier (uart d)))"
proof (cases "tyoheld (tty d)")
  case True
  then show ?thesis by (simp add: ttyhandle_out_def)
next
  case False
  let ?i = "osem (s, d)"
  have E: "ring 20 (tyebuff (tty d)) (tyehead (tty d)) (tyetail (tty d)) es" "length es < 20"
    and X: "ring 64 (tyobuff (tty d)) (tyohead (tty d)) (tyotail (tty d)) xs"
    and h: "sem_has s ?i (64 - int (length xs))" using rep by (simp_all add: out_rep_def osem_def Let_def)
  have len: "length xs \<le> 64" using X by (simp add: ring_def)
  show ?thesis
  proof (cases "es = [] \<and> xs = []")
    case True
    have "ttyhandle_out (s, d) = Return () (s, out_off d)"
      using False True by (simp add: ttyhandle_out_def out_idle_eq[OF rep] out_off_if_def)
    moreover have "out_rep (s, out_off d) [] []" using rep True by (simp add: out_rep_def out_off_def)
    ultimately show ?thesis using False True by (auto simp: out_off_def all_sent_def)
  next
    case ne: False
    obtain h1 where 1: "out_echo k d = Some (k - length es, d\<lparr>uart := (uart d)\<lparr>tx := tx (uart d) @ take k es\<rparr>, tty := (tty d)\<lparr>tyehead := h1\<rparr>\<rparr>)"
      "ring 20 (tyebuff (tty d)) h1 (tyetail (tty d)) (drop k es)" using out_echo_eq[OF E, of k] by blast
    define d1 where "d1 = d\<lparr>uart := (uart d)\<lparr>tx := tx (uart d) @ take k es\<rparr>, tty := (tty d)\<lparr>tyehead := h1\<rparr>\<rparr>"
    let ?k = "k - length es"
    have X1: "ring 64 (tyobuff (tty d1)) (tyohead (tty d1)) (tyotail (tty d1)) xs" using X by (simp add: d1_def)
    obtain h2 where 2: "out_chars ?k (int (length xs)) d1 = Some (int (length (take ?k xs)),
        d1\<lparr>uart := (uart d1)\<lparr>tx := tx (uart d1) @ take ?k xs\<rparr>, tty := (tty d1)\<lparr>tyohead := h2\<rparr>\<rparr>)"
      "ring 64 (tyobuff (tty d1)) h2 (tyotail (tty d1)) (drop ?k xs)" using out_chars_eq[OF X1, of ?k] by blast
    define d2 where "d2 = d1\<lparr>uart := (uart d1)\<lparr>tx := tx (uart d1) @ take ?k xs\<rparr>, tty := (tty d1)\<lparr>tyohead := h2\<rparr>\<rparr>"
    define n where "n = length (take ?k xs)"
    define s' where "s' = (if n = 0 then s else (set_count ?i (64 - int (length xs) + int n) s)\<lparr>attempt := (ndefers s \<noteq> 0 \<and> attempt s)\<rparr>)"
    have i: "osem (s, d1) = ?i" "osem (s, d2) = ?i" by (simp_all add: osem_def d1_def d2_def)
    have hn: "sem_has s ?i (int (64 - length xs))" using h len by simp
    have nle: "n \<le> length xs" by (simp add: n_def)
    have sig: "(if 0 < int n then bindk (onk (signaln ?i (int n)) (s, d2)) (\<lambda>_ sd. Return () sd) else Return () (s, d2)) = Return () (s', d2)"
      using signaln_has[OF hn, of n] nd nle len by (simp add: s'_def onk_def)
    have rep': "out_rep (s', d2) (drop k es) (drop ?k xs)"
    proof -
      have "sem_has s' ?i (64 - int (length xs) + int n)"
        using set_count_has[OF h, of "64 - int (length xs) + int n"] h by (simp add: s'_def sem_has_def)
      moreover have "64 - int (length xs) + int n = 64 - int (length (drop ?k xs))" by (simp add: n_def)
      ultimately have "sem_has s' ?i (64 - int (length (drop ?k xs)))" by simp
      then show ?thesis using 1(2) 2(2) E(2) by (simp add: out_rep_def osem_def Let_def d1_def d2_def)
    qed
    have idle: "drop k es = [] \<and> drop ?k xs = [] \<longleftrightarrow> all_sent k es xs" by (auto simp: all_sent_def)
    let ?d' = "if all_sent k es xs then out_off d2 else d2"
    have semc: "onk (semcount ?i) (s, d1) = Return (64 - int (length xs)) (s, d1)" using semcount_has[OF h] by (simp add: onk_def)
    have kk: "nat (64 - txfifo_lvl (uart d)) = k" by (simp add: k_def)
    have e: "out_echo k d = Some (?k, d1)" unfolding d1_def by (rule 1(1))
    have o: "out_chars ?k (int (length xs)) d1 = Some (int n, d2)" unfolding n_def d2_def by (rule 2(1))
    have idle0: "out_idle (s, d) = Return False (s, d)" using ne by (simp add: out_idle_eq[OF rep])
    have idle1: "out_idle (s', d2) = Return (all_sent k es xs) (s', d2)" unfolding out_idle_eq[OF rep'] idle ..
    have "ttyhandle_out (s, d) = Return () (s', ?d')"
    proof (cases "n = 0")
      case True
      then have "s' = s" by (simp add: s'_def)
      then show ?thesis using False True idle1 by (simp add: ttyhandle_out_def idle0 ond_def kk e i semc o out_off_if_def)
    next
      case n: False
      then have "bindk (onk (signaln ?i (int n)) (s, d2)) (\<lambda>_ sd. Return () sd) = Return () (s', d2)" using sig by simp
      then show ?thesis using False n by (simp add: ttyhandle_out_def idle0 idle1 ond_def kk e i semc o out_off_if_def)
    qed
    moreover have "tx (uart ?d') = tx (uart d) @ take k (es @ xs)" by (simp add: d1_def d2_def out_off_def)
    moreover have "out_rep (s', ?d') (drop k es) (drop ?k xs)" using rep' by (simp add: out_rep_def out_off_def)
    moreover have "only_sem ?i s s'" using only_sem_set(1)[of "ndefers s \<noteq> 0 \<and> attempt s" s ?i] by (simp add: s'_def)
    moreover have "ier (uart ?d') = (if all_sent k es xs then ier (uart d) AND u32 (NOT UART_IER_ETBEI) else ier (uart d))"
      by (simp add: d1_def d2_def out_off_def)
    ultimately show ?thesis using False by auto
  qed
qed

section \<open>Writing\<close>

definition expand :: "ttycblk \<Rightarrow> int \<Rightarrow> int list" where
  "expand t ch = (if ch = 10 \<and> tyocrlf t then [13, 10] else [ch])"

definition put_ok :: "tstate \<Rightarrow> tstate \<Rightarrow> bool" where
  "put_ok sd sd' \<longleftrightarrow> tyocrlf (tty (snd sd')) = tyocrlf (tty (snd sd)) \<and> only_sem (osem sd) (fst sd) (fst sd') \<and> osem sd' = osem sd"

lemma put_ok_trans: "put_ok sd sd1 \<Longrightarrow> put_ok sd1 sd2 \<Longrightarrow> put_ok sd sd2"
  by (auto simp: put_ok_def intro: only_sem_trans)

lemma putc1_ok:
  assumes rep: "out_rep sd es xs" and room: "length xs < 64"
  shows "\<exists>sd'. putc1 ch sd = Return OK sd' \<and> out_rep sd' es (xs @ [ch]) \<and> put_ok sd sd'"
proof -
  obtain s d where sd: "sd = (s, d)" by fastforce
  let ?i = "osem (s, d)"
  have X: "ring 64 (tyobuff (tty d)) (tyohead (tty d)) (tyotail (tty d)) xs" and h: "sem_has s ?i (64 - int (length xs))"
    using rep by (simp_all add: out_rep_def osem_def Let_def sd)
  have h': "sem_has s ?i (int (63 - length xs) + 1)" using h room by (simp add: of_nat_diff)
  have w: "onk (wait ?i) (s, d) = Return OK (set_count ?i (int (63 - length xs)) s, d)" using wait_has[OF h'] by (simp add: onk_def)
  let ?d = "ttykickout (d\<lparr>tty := (tty d)\<lparr>tyobuff := (tyobuff (tty d))(tyotail (tty d) := ch), tyotail := advance 64 (tyotail (tty d))\<rparr>\<rparr>)"
  have p: "put_out ch d = Some ?d" using ring_bounds[OF X] by (simp add: put_out_def Let_def)
  have "sem_has (set_count ?i (int (63 - length xs)) s) ?i (int (63 - length xs))" by (rule set_count_has[OF h])
  moreover have "int (63 - length xs) = 64 - int (length (xs @ [ch]))" using room by (simp add: of_nat_diff)
  ultimately have "out_rep (set_count ?i (int (63 - length xs)) s, ?d) es (xs @ [ch])"
    using rep ring_append[OF X, of ch] room by (simp add: out_rep_def Let_def sd ttykickout_def osem_def)
  moreover have "putc1 ch sd = Return OK (set_count ?i (int (63 - length xs)) s, ?d)"
    using w p by (simp add: putc1_def sd onu_Some)
  moreover have "put_ok sd (set_count ?i (int (63 - length xs)) s, ?d)"
    using only_sem_set(2)[of ?i s] by (simp add: put_ok_def sd ttykickout_def osem_def)
  ultimately show ?thesis by blast
qed

lemma ttyputc_ok:
  assumes rep: "out_rep sd es xs" and room: "length xs + length (expand (tty (snd sd)) ch) \<le> 64"
  shows "\<exists>sd'. ttyputc ch sd = Return OK sd' \<and> out_rep sd' es (xs @ expand (tty (snd sd)) ch) \<and> put_ok sd sd'"
proof (cases "ch = 10 \<and> tyocrlf (tty (snd sd))")
  case True
  then have room: "length xs + 2 \<le> 64" using room by (simp add: expand_def)
  obtain sd1 where 1: "putc1 13 sd = Return OK sd1" "out_rep sd1 es (xs @ [13])" "put_ok sd sd1" using putc1_ok[OF rep, of 13] room by auto
  obtain sd2 where 2: "putc1 10 sd1 = Return OK sd2" "out_rep sd2 es ((xs @ [13]) @ [10])" "put_ok sd1 sd2"
    using putc1_ok[OF 1(2), of 10] room by auto
  show ?thesis using True 1 2 put_ok_trans[OF 1(3) 2(3)] by (intro exI[of _ sd2]) (simp add: ttyputc_def expand_def)
next
  case False
  then have "ttyputc ch sd = putc1 ch sd" "expand (tty (snd sd)) ch = [ch]" by (auto simp: ttyputc_def expand_def)
  then show ?thesis using putc1_ok[OF rep, of ch] room by simp
qed

lemma ttywrite_loop_ok:
  "out_rep sd es xs \<Longrightarrow> length xs + length (concat (map (expand (tty (snd sd))) (blk M p n))) \<le> 64 \<Longrightarrow>
   \<exists>sd'. ttywrite_loop n M p sd = Return () sd' \<and> out_rep sd' es (xs @ concat (map (expand (tty (snd sd))) (blk M p n))) \<and> put_ok sd sd'"
proof (induction n arbitrary: p sd xs)
  case 0
  then show ?case by (simp add: put_ok_def)
next
  case (Suc n)
  obtain sd1 where 1: "ttyputc (M p) sd = Return OK sd1" "out_rep sd1 es (xs @ expand (tty (snd sd)) (M p))" "put_ok sd sd1"
    using ttyputc_ok[OF Suc.prems(1), of "M p"] Suc.prems(2) by auto
  have e: "expand (tty (snd sd1)) = expand (tty (snd sd))" using 1(3) by (intro ext) (simp add: put_ok_def expand_def)
  obtain sd2 where 2: "ttywrite_loop n M (p + 1) sd1 = Return () sd2"
    "out_rep sd2 es ((xs @ expand (tty (snd sd)) (M p)) @ concat (map (expand (tty (snd sd))) (blk M (p + 1) n)))" "put_ok sd1 sd2"
    using Suc.IH[OF 1(2), of "p + 1"] Suc.prems(2) unfolding e by auto
  show ?case using 1 2 put_ok_trans[OF 1(3) 2(3)] by (intro exI[of _ sd2]) simp
qed

text \<open>\<^verbatim>\<open>ttywrite\<close> appends the characters of the buffer to the output queue in order, each newline
  preceded by a return when \<^verbatim>\<open>tyocrlf\<close> is set, without waiting as long as all of them fit; a negative count
  is an error.\<close>

theorem ttywrite_queues:
  assumes rep: "out_rep sd es xs" and room: "length xs + length (concat (map (expand (tty (snd sd))) (blk M p (nat count)))) \<le> 64"
  shows "if count < 0 then ttywrite M p count sd = Return SYSERR sd
    else \<exists>sd'. ttywrite M p count sd = Return OK sd' \<and>
      out_rep sd' es (xs @ concat (map (expand (tty (snd sd))) (blk M p (nat count)))) \<and> put_ok sd sd'"
  using ttywrite_loop_ok[OF rep room] rep by (cases "count = 0") (auto simp: ttywrite_def put_ok_def)

section \<open>Where the driver goes wrong\<close>

definition ordinary :: "ttycblk \<Rightarrow> int \<Rightarrow> bool" where
  "ordinary t c \<longleftrightarrow> c \<noteq> tyostart t \<and> c \<noteq> tyostop t \<and> c \<noteq> tyikillc t \<and> c \<noteq> tyierasec t \<and> c \<noteq> tyierasec2 t"

text \<open>With ordinary characters the handler is the part behind flow control and line editing.\<close>

lemma handle_in_ordinary:
  assumes cooked: "tyimode (tty d) = 67" and rx: "rx (uart d) = c # cs" and c: "ordinary (tty d) c" "c \<noteq> 13" and av: "in_rep (s, d) (r, l)"
  defines "d0 \<equiv> uptty (tyoheld_update (\<lambda>_. False)) (d\<lparr>uart := (uart d)\<lparr>rx := cs\<rparr>\<rparr>)"
  shows "ttyhandle_in (s, d) =
    (if c = 10 then handle_eol c (s, d0)
     else if int (length r) + tyicursor (tty d) \<ge> 127 then onu (eputc (tyifullc (tty d))) (s, d0)
     else if c = tyeofch (tty d) \<and> tyeof (tty d) then handle_eof c (s, d0) else onu (handle_plain c) (s, d0))"
    "in_rep (s, d0) (r, l)" "keeps (d\<lparr>uart := (uart d)\<lparr>rx := cs\<rparr>\<rparr>) d0"
proof -
  let ?d = "d\<lparr>uart := (uart d)\<lparr>rx := cs\<rparr>\<rparr>"
  have r: "rbr d = (c, ?d)" using rx by (simp add: rbr_def)
  have rep1: "in_rep (s, ?d) (r, l)" using av by (auto simp: in_rep_def buf_rep_def isem_def)
  show rep0: "in_rep (s, d0) (r, l)" using av by (auto simp: in_rep_def buf_rep_def isem_def d0_def uptty_def)
  show "keeps ?d d0" by (simp add: keeps_def d0_def settings_def uptty_def)
  have f: "tty d0 = (tty d)\<lparr>tyoheld := False\<rparr>" by (simp add: d0_def uptty_def)
  have "ttyhandle_in (s, d) = handle_edit c (int (length r)) (s, ?d)"
    using in_avail_rep[OF rep1] cooked r c(2) by (simp add: ttyhandle_in_def Let_def)
  also have "\<dots> = handle_cooked c (s, d0)"
    using c(1) cooked by (simp add: handle_edit_def Let_def ordinary_def d0_def)
  finally show "ttyhandle_in (s, d) =
    (if c = 10 then handle_eol c (s, d0)
     else if int (length r) + tyicursor (tty d) \<ge> 127 then onu (eputc (tyifullc (tty d))) (s, d0)
     else if c = tyeofch (tty d) \<and> tyeof (tty d) then handle_eof c (s, d0) else onu (handle_plain c) (s, d0))"
    using in_avail_rep[OF rep0] c f by (simp add: handle_cooked_def ordinary_def)
qed

text \<open>Where the driver goes wrong. A newline is stored without a look at the room: when the input buffer
  is full of complete input, it overwrites the oldest character and the semaphore counts 129 characters in
  128 places. And an end-of-file character stored in the last place leaves the pointer behind the buffer,
  so that whatever is stored next would be written beyond it.\<close>

theorem tty_input_overruns:
  assumes rep: "in_rep (s, d) (r, [])" and cooked: "tyimode (tty d) = TY_IMCOOKED" and rx: "rx (uart d) = ch # cs"
    and ord: "ordinary (tty d) ch" and nd: "0 \<le> ndefers s" "ndefers s < 2147483647"
  shows "(length r = 128 \<and> ch = 10 \<longrightarrow>
      (\<exists>s' d'. ttyhandle_in (s, d) = Return () (s', d') \<and> sem_has s' (isem (s, d)) 129 \<and>
        tyihead (tty d') = tyihead (tty d) \<and> tyibuff (tty d') (tyihead (tty d')) = 10)) \<and>
    (length r < 127 \<and> tyitail (tty d) = 127 \<and> tyeof (tty d) \<and> ch = tyeofch (tty d) \<and> ch \<noteq> 10 \<and> ch \<noteq> 13 \<longrightarrow>
      (\<exists>s' d'. ttyhandle_in (s, d) = Return () (s', d') \<and> tyitail (tty d') = 128 \<and> (\<forall>c. store_in c d' = None)))"
proof (intro conjI impI)
  assume a: "length r = 128 \<and> ch = 10"
  let ?d = "d\<lparr>uart := (uart d)\<lparr>rx := cs\<rparr>\<rparr>" let ?d0 = "uptty (tyoheld_update (\<lambda>_. False)) ?d" let ?i = "isem (s, d)"
  note H = handle_in_ordinary[OF _ rx ord _ rep]
  have hin: "ttyhandle_in (s, d) = handle_eol ch (s, ?d0)" using H(1) cooked a by simp
  have b: "buf_rep ?d0 r 0" "sem_has s ?i 128" using H(2) cooked a rep by (simp_all add: in_rep_def)
  obtain d1 where d1: "echo_if ch ?d0 = Some d1" "buf_rep d1 r 0" "keeps ?d0 d1" using echo_if_rep[OF b(1)] by blast
  have R: "ring 128 (tyibuff (tty d1)) (tyihead (tty d1)) (tyitail (tty d1)) r" using d1(2) by (simp add: buf_rep_def)
  have full: "tyitail (tty d1) = tyihead (tty d1)" using R a by (simp add: ring_def)
  let ?d2 = "uptty (\<lambda>t. t\<lparr>tyibuff := (tyibuff t)(tyitail t := ch), tyitail := advance 128 (tyitail t)\<rparr>) d1"
  have st: "store_in ch d1 = Some ?d2" by (rule store_in_eq) (use ring_bounds[OF R] in simp_all)
  have c: "tyicursor (tty ?d2) + 1 = int 1" using d1(2) by (simp add: buf_rep_def uptty_def)
  have i: "isem (s, ?d2) = ?i" using keeps_sem[OF d1(3)] by (simp add: isem_def uptty_def)
  let ?s = "(set_count ?i (int 128 + int 1) s)\<lparr>attempt := (ndefers s \<noteq> 0 \<and> attempt s)\<rparr>"
  have sn: "signaln ?i (int 1) s = Return OK ?s" by (rule signaln_has) (use b(2) nd in simp_all)
  have on: "onu (\<lambda>d. Option.bind (echo_if ch d) (store_in ch)) (s, ?d0) = Return () (s, ?d2)" by (simp add: onu_def d1(1) st)
  let ?d3 = "uptty (tyicursor_update (\<lambda>_. 0)) ?d2"
  have "handle_eol ch (s, ?d0) = Return () (?s, ?d3)"
    unfolding handle_eol_def on bindk.simps fst_conv snd_conv i c onk_def sn ext.simps by simp
  moreover have "sem_has ?s ?i 129" using set_count_has[OF b(2), of 129] by (simp add: sem_has_def)
  moreover have "tyihead (tty d1) = tyihead (tty d)" using d1(3) by (simp add: keeps_def uptty_def)
  then have "tyihead (tty ?d3) = tyihead (tty d)" "tyibuff (tty ?d3) (tyihead (tty ?d3)) = 10"
    using full a by (simp_all add: uptty_def)
  ultimately show "\<exists>s' d'. ttyhandle_in (s, d) = Return () (s', d') \<and> sem_has s' ?i 129 \<and>
        tyihead (tty d') = tyihead (tty d) \<and> tyibuff (tty d') (tyihead (tty d')) = 10" unfolding hin by blast
next
  assume a: "length r < 127 \<and> tyitail (tty d) = 127 \<and> tyeof (tty d) \<and> ch = tyeofch (tty d) \<and> ch \<noteq> 10 \<and> ch \<noteq> 13"
  let ?d = "d\<lparr>uart := (uart d)\<lparr>rx := cs\<rparr>\<rparr>" let ?d0 = "uptty (tyoheld_update (\<lambda>_. False)) ?d" let ?i = "isem (s, d)"
  note H = handle_in_ordinary[OF _ rx ord _ rep]
  have c0: "tyicursor (tty d) = 0" using rep by (simp add: in_rep_def buf_rep_def)
  have hin: "ttyhandle_in (s, d) = handle_eof ch (s, ?d0)" using H(1) cooked a c0 by simp
  have b: "buf_rep ?d0 r 0" "sem_has s ?i (int (length r))" using H(2) cooked a rep by (simp_all add: in_rep_def)
  obtain d1 where d1: "echo_if ch ?d0 = Some d1" "buf_rep d1 r 0" "keeps ?d0 d1" using echo_if_rep[OF b(1)] by blast
  have t: "tyitail (tty d1) = tyitail (tty ?d0)"
    using d1(2,3) b(1) by (simp add: buf_rep_def ring_def keeps_def)
  then have t: "tyitail (tty d1) = 127" using a by (simp add: uptty_def)
  let ?d2 = "d1\<lparr>tty := (tty d1)\<lparr>tyibuff := (tyibuff (tty d1))(127 := ch), tyitail := 128\<rparr>\<rparr>"
  have p: "put_in ch d1 = Some ?d2" using t by (simp add: put_in_def Let_def)
  have i: "isem (s, ?d2) = ?i" using keeps_sem[OF d1(3)] by (simp add: isem_def uptty_def)
  have "signal ?i s = Return OK (set_count ?i (int (length r) + 1) s)" using signal_has[OF b(2)] a by simp
  then have "signal_in (s, ?d2) = Return () (set_count ?i (int (length r) + 1) s, ?d2)" by (simp add: signal_in_def i onk_def)
  then have "handle_eof ch (s, ?d0) = Return () (set_count ?i (int (length r) + 1) s, ?d2)"
    using d1(1,2) p by (simp add: handle_eof_def onu_def buf_rep_def)
  moreover have "\<forall>c. store_in c ?d2 = None" by (simp add: store_in_def put_in_def Let_def)
  ultimately show "\<exists>s' d'. ttyhandle_in (s, d) = Return () (s', d') \<and> tyitail (tty d') = 128 \<and> (\<forall>c. store_in c d' = None)"
    unfolding hin by (intro exI conjI) auto
qed

section \<open>Initialisation\<close>

lemma ttyinit_run:
  assumes inv: "kinv s" and irq: "0 \<le> dvirq" "dvirq \<le> 127"
    and sems: "\<not> isbadsem a" "sstate (semtab s a) = S_FREE" "\<not> isbadsem b" "sstate (semtab s b) = S_FREE" "a \<noteq> b"
  shows "\<exists>s' d'. ttyinit dvirq dvintr (s, d) = Return OK (s', d') \<and> kinv s' \<and> in_rep (s', d') ([], []) \<and> out_rep (s', d') [] [] \<and>
    tyimode (tty d') = TY_IMCOOKED \<and> intc_vector (intc d') dvirq = dvintr \<and> ier (uart d') = 3 \<and> rx (uart d') = rx (uart d)"
proof -
  obtain x m1 where x: "\<not> isbadsem x" "sstate (semtab s x) = S_FREE"
      "semcreate 0 s = Return x (upsem x (\<lambda>e. e\<lparr>sstate := S_USED, scount := 0\<rparr>) (s\<lparr>nextsem := m1\<rparr>))"
      "kinv (upsem x (\<lambda>e. e\<lparr>sstate := S_USED, scount := 0\<rparr>) (s\<lparr>nextsem := m1\<rparr>))"
    using semcreate_free[OF inv, of 0 a] sems(1,2) by auto
  let ?s1 = "upsem x (\<lambda>e. e\<lparr>sstate := S_USED, scount := 0\<rparr>) (s\<lparr>nextsem := m1\<rparr>)"
  have "\<exists>c. \<not> isbadsem c \<and> sstate (semtab ?s1 c) = S_FREE"
    using sems by (cases "x = a") (auto simp: upsem_def intro: exI[of _ a] exI[of _ b])
  then obtain c where c: "\<not> isbadsem c" "sstate (semtab ?s1 c) = S_FREE" by blast
  obtain y m2 where y: "\<not> isbadsem y" "sstate (semtab ?s1 y) = S_FREE"
      "semcreate 64 ?s1 = Return y (upsem y (\<lambda>e. e\<lparr>sstate := S_USED, scount := 64\<rparr>) (?s1\<lparr>nextsem := m2\<rparr>))"
      "kinv (upsem y (\<lambda>e. e\<lparr>sstate := S_USED, scount := 64\<rparr>) (?s1\<lparr>nextsem := m2\<rparr>))"
    by (rule semcreate_free[OF x(4) _ _ c, of 64]) simp_all
  let ?s2 = "upsem y (\<lambda>e. e\<lparr>sstate := S_USED, scount := 64\<rparr>) (?s1\<lparr>nextsem := m2\<rparr>)"
  have xy: "x \<noteq> y" using y(2) by (auto simp: upsem_def)
  define d' where "d' = ttykickout ((uptty (tty_start x y) d)\<lparr>uart := uart_start (uart d), intc := snd (set_evec dvirq dvintr (intc d))\<rparr>)"
  have "ttyinit dvirq dvintr (s, d) = Return OK (?s2, d')"
    using x(3) y(3) by (simp add: ttyinit_def onk_def Let_def d'_def uptty_def)
  moreover have t: "tty d' = tty_start x y (tty d)" by (simp add: d'_def uptty_def ttykickout_def)
  have "in_rep (?s2, d') ([], [])" "out_rep (?s2, d') [] []" "tyimode (tty d') = TY_IMCOOKED"
    using x(1) y(1) xy by (simp_all add: in_rep_def out_rep_def buf_rep_def t tty_start_def ring_def sem_has_def isem_def upsem_def)
  moreover have "ier (uart d') = 3" "rx (uart d') = rx (uart d)" "intc_vector (intc d') dvirq = dvintr"
    using irq by (simp_all add: d'_def ttykickout_def uart_start_def set_evec_def Let_def)
  ultimately show ?thesis using y(4) by blast
qed

text \<open>As long as two semaphores are free, \<^verbatim>\<open>ttyinit\<close> leaves the line in cooked mode with empty input,
  output and echo queues, with semaphores that say so, its interrupt handler installed and its
  interrupts enabled; the kernel's invariant holds.\<close>

theorem ttyinit_correct:
  assumes inv: "kinv s" and irq: "0 \<le> dvirq" "dvirq \<le> 127"
    and sems: "\<not> isbadsem a" "sstate (semtab s a) = S_FREE" "\<not> isbadsem b" "sstate (semtab s b) = S_FREE" "a \<noteq> b"
  shows "\<exists>s' d'. ttyinit dvirq dvintr (s, d) = Return OK (s', d') \<and> kinv s' \<and> in_rep (s', d') ([], []) \<and> out_rep (s', d') [] [] \<and>
    tyimode (tty d') = TY_IMCOOKED \<and> intc_vector (intc d') dvirq = dvintr \<and> ier (uart d') = 3 \<and> rx (uart d') = rx (uart d)"
  by (rule ttyinit_run[OF assms])

end
