(* ===== verification/Tty_Examples.thy ===== *)
theory Tty_Examples
  imports Port_Examples Tty_Spec
begin

text \<open>Concrete lines for the properties of the terminal driver.\<close>

text \<open>Semaphore 5 counts the input, semaphore 6 the room for output.\<close>

definition tk :: "int \<Rightarrow> int \<Rightarrow> kstate" where
  "tk i o' = upsem 5 (\<lambda>e. e\<lparr>sstate := S_USED, scount := i\<rparr>) (upsem 6 (\<lambda>e. e\<lparr>sstate := S_USED, scount := o'\<rparr>) boot0)"

lemma tk: "sem_has (tk i o') 5 i" "sem_has (tk i o') 6 o'" "ndefers (tk i o') = 0"
  using boot0(2) by (auto simp: tk_def sem_has_def upsem_def isbadsem_def elim!: kinvE)

definition blank :: ttycblk where
  "blank = \<lparr>tyihead = 0, tyitail = 0, tyibuff = \<lambda>_. 0, tyisem = 0, tyohead = 0, tyotail = 0, tyobuff = \<lambda>_. 0, tyosem = 0,
     tyehead = 0, tyetail = 0, tyebuff = \<lambda>_. 0, tyimode = 0, tyiecho = False, tyieback = False, tyevis = False,
     tyecrlf = False, tyicrlf = False, tyierase = False, tyierasec = 0, tyierasec2 = 0, tyeof = False, tyeofch = 0,
     tyikill = False, tyikillc = 0, tyicursor = 0, tyoflow = False, tyoheld = False, tyostop = 0, tyostart = 0,
     tyocrlf = False, tyifullc = 0\<rparr>"

definition board :: "int list \<Rightarrow> int \<Rightarrow> tdev" where
  "board cs i = \<lparr>tty = tty_start 5 6 blank,
     uart = \<lparr>rx = cs, tx = [], txfifo_lvl = 61, iir = i, lsr_bits = 0, ier = 3, lcr = 0, dlm = 0, dll = 0, fcr = 0, mdr1 = 0\<rparr>,
     intc = \<lparr>intc_vector = \<lambda>_. 0, mir = \<lambda>_. 0, newirqagr = 0\<rparr>\<rparr>"

lemma in_rep_board: "in_rep (tk 0 64, board cs i) ([], [])"
  using tk by (simp add: in_rep_def buf_rep_def board_def tty_start_def ring_def isem_def)

text \<open>The input \<^verbatim>\<open>ab\<close>, backspace, \<^verbatim>\<open>c\<close>, return is the line \<^verbatim>\<open>ac\<close>.\<close>

theorem tty_line_editor_witness:
  "\<exists>s' d'. ttyhandler (tk 0 64, board [97, 98, 8, 99, 13] 4) = Return () (s', d') \<and> in_rep (s', d') ([97, 99, 10], [])"
  using tty_line_editor[OF in_rep_board, of "[97, 98, 8, 99, 13]" 4] tk
  by (simp add: board_def tty_start_def edit_def edit1_def mapcr_def has_room_def) blast

definition full_line :: "int list \<Rightarrow> tdev" where
  "full_line xs = (let d = board [] 0 in
     d\<lparr>tty := (tty d)\<lparr>tyibuff := \<lambda>i. if 0 \<le> i \<and> i < int (length xs) then xs ! nat i else 0, tyitail := int (length xs) mod 128\<rparr>\<rparr>)"

lemma in_rep_full: "length xs \<le> 128 \<Longrightarrow> in_rep (tk (int (length xs)) 64, full_line xs) (xs, [])"
  using tk by (simp add: in_rep_def buf_rep_def full_line_def board_def tty_start_def ring_def isem_def Let_def)

theorem ttyread_line_witness:
  "\<exists>sd'. ttyread 10 (tk 4 64, full_line [97, 98, 10, 99]) = Return (3, [97, 98, 10]) sd' \<and>
     read_ok (tk 4 64, full_line [97, 98, 10, 99]) ([99], []) sd'"
  using ttyread_line[of "(tk 4 64, full_line [97, 98, 10, 99])" 10 "[97, 98]" "[99]" "[]"] in_rep_full[of "[97, 98, 10, 99]"]
  by (simp add: full_line_def board_def tty_start_def inner_def eof_mark_def Let_def numeral_eq_Suc)

lemma out_rep_board: "out_rep (tk 0 64, board cs i) [] []"
  using tk by (simp add: out_rep_def board_def tty_start_def ring_def)

definition out_line :: "int list \<Rightarrow> tdev" where
  "out_line xs = (let d = board [] 2 in
     d\<lparr>tty := (tty d)\<lparr>tyobuff := \<lambda>i. if 0 \<le> i \<and> i < int (length xs) then xs ! nat i else 0, tyotail := int (length xs) mod 64\<rparr>\<rparr>)"

lemma out_rep_line: "length xs \<le> 64 \<Longrightarrow> out_rep (tk 0 (64 - int (length xs)), out_line xs) [] xs"
  using tk by (simp add: out_rep_def out_line_def board_def tty_start_def ring_def Let_def)

theorem ttyhandle_out_sends_witness:
  "\<exists>s' d'. ttyhandle_out (tk 0 60, out_line [65, 66, 67, 68]) = Return () (s', d') \<and> tx (uart d') = [65, 66, 67] \<and> out_rep (s', d') [] [68]"
proof -
  have d: "tyoheld (tty (out_line xs)) = False" "txfifo_lvl (uart (out_line xs)) = 61" "tx (uart (out_line xs)) = []" for xs
    by (simp_all add: out_line_def board_def tty_start_def Let_def)
  show ?thesis using ttyhandle_out_sends[of "tk 0 60" "out_line [65, 66, 67, 68]" "[]" "[65, 66, 67, 68]"] out_rep_line[of "[65, 66, 67, 68]"] tk(3)
    by (auto simp: d numeral_3_eq_3)
qed

theorem ttywrite_queues_witness:
  "\<exists>sd'. ttywrite (\<lambda>i. if i = 0 then 97 else 10) 0 2 (tk 0 64, board [] 0) = Return OK sd' \<and> out_rep sd' [] [97, 13, 10]"
  using ttywrite_queues[OF out_rep_board[of "[]" 0], of "\<lambda>i. if i = 0 then 97 else 10" 0 2]
  by (auto simp: expand_def board_def tty_start_def numeral_2_eq_2)

theorem tty_input_overruns_witness:
  "\<exists>s' d'. ttyhandle_in (tk 128 64, (full_line (replicate 128 65))\<lparr>uart := uart (board [10] 4)\<rparr>) = Return () (s', d') \<and>
     sem_has s' 5 129 \<and> tyibuff (tty d') 0 = 10"
proof -
  let ?d = "(full_line (replicate 128 65))\<lparr>uart := uart (board [10] 4)\<rparr>"
  have "in_rep (tk 128 64, ?d) (replicate 128 65, [])"
    using in_rep_full[of "replicate 128 65"] by (simp add: in_rep_def buf_rep_def isem_def)
  from tty_input_overruns[OF this, of 10 "[]"] show ?thesis
    using tk(3) by (auto simp: full_line_def board_def tty_start_def Let_def ordinary_def isem_def)
qed

theorem ttyinit_correct_witness:
  "\<exists>s' d'. ttyinit 72 4096 (demo, board [] 0) = Return OK (s', d') \<and> kinv s' \<and> in_rep (s', d') ([], []) \<and> out_rep (s', d') [] []"
  using ttyinit_correct[OF demo(1), of 72 0 1 4096 "board [] 0"] demo(6)[of 0] demo(6)[of 1] by (auto simp: isbadsem_def)

end
