(* ===== verification/Bytes.thy ===== *)
theory Bytes
  imports Xinu_Prelude
begin

text \<open>Words and half words as bytes, for the memory of the network code and for the disk of the file system.\<close>

lemma digit256: "0 \<le> (a::int) \<Longrightarrow> a < 256 \<Longrightarrow> (a + 256 * r) mod 256 = a \<and> (a + 256 * r) div 256 = r"
  by simp

lemma div65536: "x div 65536 = x div 256 div (256::int)"
  using zdiv_zmult2_eq[of 256 x 256] by simp

lemma div16777216: "x div 16777216 = x div 256 div 256 div (256::int)"
  using zdiv_zmult2_eq[of 65536 x 256] div65536[of "x div 256"] by simp

lemma digits4:
  fixes a b c d :: int
  assumes "0 \<le> a" "a < 256" "0 \<le> b" "b < 256" "0 \<le> c" "c < 256" "0 \<le> d" "d < 256"
  shows "(a + 256 * b + 65536 * c + 16777216 * d) mod 256 = a"
    "(a + 256 * b + 65536 * c + 16777216 * d) div 256 mod 256 = b"
    "(a + 256 * b + 65536 * c + 16777216 * d) div 65536 mod 256 = c"
    "(a + 256 * b + 65536 * c + 16777216 * d) div 16777216 mod 256 = d"
proof -
  have e: "a + 256 * b + 65536 * c + 16777216 * d = a + 256 * (b + 256 * (c + 256 * d))" by simp
  have D: "d mod 256 = d" using assms(7,8) by simp
  note A = digit256[OF assms(1,2), of "b + 256 * (c + 256 * d)"]
    and B = digit256[OF assms(3,4), of "c + 256 * d"] and C = digit256[OF assms(5,6), of d]
  show "(a + 256 * b + 65536 * c + 16777216 * d) mod 256 = a"
    "(a + 256 * b + 65536 * c + 16777216 * d) div 256 mod 256 = b"
    "(a + 256 * b + 65536 * c + 16777216 * d) div 65536 mod 256 = c"
    "(a + 256 * b + 65536 * c + 16777216 * d) div 16777216 mod 256 = d"
    by (simp_all only: e div65536 div16777216 A B C D)
qed

lemma u16_bytes: "x mod 256 + 256 * (x div 256 mod 256) = u16 x"
  using zmod_zmult2_eq[of 256 x 256] unfolding u16_def by simp

lemma u32_halves: "u16 x + 65536 * u16 (x div 65536) = u32 x"
  using zmod_zmult2_eq[of 65536 x 65536] unfolding u16_def u32_def by simp

end
