(* ===== verification/Net_Bytes.thy ===== *)
theory Net_Bytes
  imports Bytes Bufpool Device_State Fifo
begin

text \<open>
  Bytes and half words in the kernel's memory, which \<open>kstate\<close> keeps as 32-bit words by address, in the
  little-endian order of the processor; and the conversions between host and network byte order of
  \<^verbatim>\<open>include/prototypes.h\<close>. Packets, and the descriptors of the Ethernet device, live in this memory.
\<close>

unbundle bit_operations_syntax

section \<open>Loads and stores\<close>

type_synonym memory = "int \<Rightarrow> int"

definition word_at :: "int \<Rightarrow> int" where
  "word_at a = a - a mod 4"

definition byte :: "int \<Rightarrow> int \<Rightarrow> int" where
  "byte k x = (x div 256 ^ nat k) mod 256"

definition join :: "(int \<Rightarrow> int) \<Rightarrow> int" where
  "join f = f 0 + 256 * f 1 + 65536 * f 2 + 16777216 * f 3"

definition ldb :: "memory \<Rightarrow> int \<Rightarrow> int" where
  "ldb m a = byte (a mod 4) (m (word_at a))"

definition stb :: "int \<Rightarrow> int \<Rightarrow> memory \<Rightarrow> memory" where
  "stb a v m = m(word_at a := join (\<lambda>k. if k = a mod 4 then v mod 256 else byte k (m (word_at a))))"

definition ldh :: "memory \<Rightarrow> int \<Rightarrow> int" where
  "ldh m a = ldb m a + 256 * ldb m (a + 1)"

definition sth :: "int \<Rightarrow> int \<Rightarrow> memory \<Rightarrow> memory" where
  "sth a v m = stb (a + 1) (v div 256) (stb a v m)"

definition ldw :: "memory \<Rightarrow> int \<Rightarrow> int" where
  "ldw m a = ldh m a + 65536 * ldh m (a + 2)"

definition stw :: "int \<Rightarrow> int \<Rightarrow> memory \<Rightarrow> memory" where
  "stw a v m = sth (a + 2) (v div 65536) (sth a v m)"

text \<open>Blocks of bytes, and the copying loop of \<^verbatim>\<open>memcpy\<close>.\<close>

primrec ldbs :: "nat \<Rightarrow> memory \<Rightarrow> int \<Rightarrow> int list" where
  "ldbs 0 m a = []"
| "ldbs (Suc n) m a = ldb m a # ldbs n m (a + 1)"

primrec stbs :: "int list \<Rightarrow> int \<Rightarrow> memory \<Rightarrow> memory" where
  "stbs [] a m = m"
| "stbs (b # bs) a m = stbs bs (a + 1) (stb a b m)"

primrec copyb :: "nat \<Rightarrow> int \<Rightarrow> int \<Rightarrow> memory \<Rightarrow> memory" where
  "copyb 0 dst src m = m"
| "copyb (Suc n) dst src m = copyb n (dst + 1) (src + 1) (stb dst (ldb m src) m)"

primrec fillb :: "nat \<Rightarrow> int \<Rightarrow> int \<Rightarrow> memory \<Rightarrow> memory" where
  "fillb 0 dst c m = m"
| "fillb (Suc n) dst c m = fillb n (dst + 1) c (stb dst c m)"

section \<open>Byte order\<close>

definition htons :: "int \<Rightarrow> int" where
  "htons x = (0xff AND drop_bit 8 x) OR push_bit 8 (0xff AND x)"

definition htonl :: "int \<Rightarrow> int" where
  "htonl x = (drop_bit 24 x AND 0xff) OR (drop_bit 8 x AND 0xff00) OR (push_bit 8 x AND 0xff0000) OR
     (push_bit 24 x AND 0xff000000)"

text \<open>The two directions are the same macro.\<close>

abbreviation ntohs :: "int \<Rightarrow> int" where "ntohs \<equiv> htons"
abbreviation ntohl :: "int \<Rightarrow> int" where "ntohl \<equiv> htonl"

section \<open>Laws\<close>

lemma byte_range [simp]: "0 \<le> byte k x" "byte k x < 256" "byte k x mod 256 = byte k x"
  by (simp_all add: byte_def)

lemma ldb_range [simp]: "0 \<le> ldb m a" "ldb m a < 256" "ldb m a mod 256 = ldb m a"
  by (simp_all add: ldb_def)

lemma word_at_mod [simp]: "word_at a mod 4 = 0" "word_at (word_at a) = word_at a"
  by (simp_all add: word_at_def)

lemma word_at_aligned: "a mod 4 = 0 \<Longrightarrow> word_at a = a"
  by (simp add: word_at_def)

lemma same_place: "word_at a = word_at b \<Longrightarrow> a mod 4 = b mod 4 \<Longrightarrow> a = b"
  unfolding word_at_def by simp

lemma mod4_cases: "(a::int) mod 4 = 0 \<or> a mod 4 = 1 \<or> a mod 4 = 2 \<or> a mod 4 = 3"
  by presburger

lemma byte_numerals [simp]: "byte 0 x = x mod 256" "byte 1 x = x div 256 mod 256" "byte 2 x = x div 65536 mod 256"
  "byte 3 x = x div 16777216 mod 256"
  by (simp_all add: byte_def numeral_2_eq_2 numeral_3_eq_3)

lemma byte_join:
  assumes "\<And>k. 0 \<le> f k" "\<And>k. f k < 256"
  shows "byte (a mod 4) (join f) = f (a mod 4)"
proof -
  note d = digits4[OF assms[of 0] assms[of 1] assms[of 2] assms[of 3]]
  from mod4_cases[of a] show ?thesis
    by (elim disjE) (simp_all only: join_def byte_numerals d)
qed

lemma ldb_stb [simp]: "ldb (stb a v m) b = (if b = a then v mod 256 else ldb m b)"
proof (cases "word_at a = word_at b")
  case True
  let ?f = "\<lambda>k. if k = a mod 4 then v mod 256 else byte k (m (word_at a))"
  have "ldb (stb a v m) b = byte (b mod 4) (join ?f)" using True by (simp add: ldb_def stb_def)
  also have "\<dots> = ?f (b mod 4)" by (rule byte_join) simp_all
  finally show ?thesis using True same_place[of b a] by (auto simp: ldb_def)
qed (auto simp: ldb_def stb_def)

lemma stb_other: "x \<noteq> word_at a \<Longrightarrow> stb a v m x = m x"
  by (simp add: stb_def)

lemma ldh_range [simp]: "0 \<le> ldh m a" "ldh m a < 65536"
  using ldb_range(1,2)[of m a] ldb_range(1,2)[of m "a + 1"] unfolding ldh_def by linarith+

lemma ldw_range [simp]: "0 \<le> ldw m a" "ldw m a < 4294967296"
  using ldh_range[of m a] ldh_range[of m "a + 2"] unfolding ldw_def by linarith+

lemma ldb_sth: "ldb (sth a v m) b = (if b = a then v mod 256 else if b = a + 1 then v div 256 mod 256 else ldb m b)"
  by (simp add: sth_def)

lemma ldb_stw: "ldb (stw a v m) b =
   (if b = a then v mod 256 else if b = a + 1 then v div 256 mod 256
    else if b = a + 2 then v div 65536 mod 256 else if b = a + 3 then v div 16777216 mod 256 else ldb m b)"
  unfolding stw_def ldb_sth div16777216 div65536 by auto

lemma ldh_sth [simp]: "ldh (sth a v m) a = u16 v"
  by (simp add: ldh_def ldb_sth u16_bytes)

lemma ldh_sth_other: "b + 1 < a \<or> a + 1 < b \<Longrightarrow> ldh (sth a v m) b = ldh m b"
  by (auto simp: ldh_def ldb_sth)

lemma ldw_stw [simp]: "ldw (stw a v m) a = u32 v"
  by (simp add: ldw_def stw_def ldh_sth_other u32_halves)

lemma ldb_stbs: "ldb (stbs bs a m) b = (if a \<le> b \<and> b < a + int (length bs) then bs ! nat (b - a) mod 256 else ldb m b)"
proof (induction bs arbitrary: a m)
  case (Cons x bs)
  show ?case
  proof (cases "a + 1 \<le> b")
    case True
    then have "nat (b - a) = Suc (nat (b - (a + 1)))" by simp
    then show ?thesis using True Cons.IH[of "a + 1" "stb a x m"] by auto
  qed (use Cons.IH[of "a + 1" "stb a x m"] in auto)
qed simp

lemma length_ldbs [simp]: "length (ldbs n m a) = n"
  by (induction n arbitrary: a) auto

lemma nth_ldbs: "i < n \<Longrightarrow> ldbs n m a ! i = ldb m (a + int i)"
proof (induction n arbitrary: a i)
  case (Suc n)
  then show ?case by (cases i) (auto simp: add.commute add.left_commute)
qed simp

lemma ldbs_cong: "(\<And>i. a \<le> i \<Longrightarrow> i < a + int n \<Longrightarrow> ldb m i = ldb m' i) \<Longrightarrow> ldbs n m a = ldbs n m' a"
  by (rule nth_equalityI) (simp_all add: nth_ldbs)

lemma ldbs_bytes: "b \<in> set (ldbs n m a) \<Longrightarrow> 0 \<le> b \<and> b < 256"
  by (induction n arbitrary: a) auto

lemma ldbs_stbs:
  assumes "\<And>b. b \<in> set bs \<Longrightarrow> 0 \<le> b \<and> b < 256"
  shows "ldbs (length bs) (stbs bs a m) a = bs"
proof (rule nth_equalityI)
  fix i assume i: "i < length (ldbs (length bs) (stbs bs a m) a)"
  then have "bs ! i mod 256 = bs ! i" using assms[of "bs ! i"] by simp
  then show "ldbs (length bs) (stbs bs a m) a ! i = bs ! i" using i by (simp add: nth_ldbs ldb_stbs)
qed simp

lemma ldh_cong: "(\<And>i. a \<le> i \<Longrightarrow> i < a + 2 \<Longrightarrow> ldb m i = ldb m' i) \<Longrightarrow> ldh m a = ldh m' a"
  by (simp add: ldh_def)

lemma ldw_cong: "(\<And>i. a \<le> i \<Longrightarrow> i < a + 4 \<Longrightarrow> ldb m i = ldb m' i) \<Longrightarrow> ldw m a = ldw m' a"
  by (simp add: ldw_def ldh_def)

text \<open>Copying between disjoint blocks.\<close>

lemma ldb_copyb:
  assumes "src + int n \<le> dst \<or> dst + int n \<le> src"
  shows "ldb (copyb n dst src m) b = (if dst \<le> b \<and> b < dst + int n then ldb m (src + (b - dst)) else ldb m b)"
  using assms
proof (induction n arbitrary: dst src m)
  case (Suc n)
  let ?m = "stb dst (ldb m src) m"
  have "src + 1 + int n \<le> dst + 1 \<or> dst + 1 + int n \<le> src + 1" using Suc.prems by auto
  from Suc.IH[OF this, of ?m]
  have IH: "ldb (copyb (Suc n) dst src m) b =
     (if dst + 1 \<le> b \<and> b < dst + 1 + int n then ldb ?m (src + 1 + (b - (dst + 1))) else ldb ?m b)" by simp
  show ?case
  proof (cases "dst + 1 \<le> b \<and> b < dst + 1 + int n")
    case True
    then have "src + 1 + (b - (dst + 1)) \<noteq> dst" using Suc.prems by auto
    then show ?thesis using IH True by (simp add: algebra_simps)
  next
    case False
    then show ?thesis using IH by auto
  qed
qed simp

lemma ldbs_copyb:
  assumes "src + int n \<le> dst \<or> dst + int n \<le> src"
  shows "ldbs n (copyb n dst src m) dst = ldbs n m src"
  by (rule nth_equalityI) (simp_all add: nth_ldbs ldb_copyb[OF assms])

lemma ldb_fillb: "ldb (fillb n a c m) b = (if a \<le> b \<and> b < a + int n then c mod 256 else ldb m b)"
  by (induction n arbitrary: a m) auto

text \<open>The values of the conversions.\<close>

lemma or_shift_add:
  fixes a b :: int
  assumes "0 \<le> a" "a < 2 ^ n"
  shows "a OR push_bit n b = a + push_bit n b"
proof -
  have "take_bit n a = a" using assms by (simp add: take_bit_int_eq_self)
  then have "\<not> bit a i" if "n \<le> i" for i using that by (metis bit_take_bit_iff not_le)
  then show ?thesis by (subst disjunctive_add) (auto simp: bit_push_bit_iff)
qed

lemma htons_value: "htons x = 256 * (x mod 256) + x div 256 mod 256"
proof -
  have a: "0xff AND y = y mod 256" for y :: int
    using take_bit_eq_mask[of 8 y] by (simp add: mask_eq_exp_minus_1 take_bit_eq_mod and.commute)
  have "htons x = (x div 256 mod 256) OR push_bit 8 (x mod 256)" by (simp add: htons_def a drop_bit_eq_div)
  also have "\<dots> = x div 256 mod 256 + push_bit 8 (x mod 256)" by (rule or_shift_add) simp_all
  finally show ?thesis by (simp add: push_bit_eq_mult)
qed

lemma htons_ldh: "htons (ldh m a) = 256 * ldb m a + ldb m (a + 1)"
  using ldb_range(1,2)[of m a] ldb_range(1,2)[of m "a + 1"] by (simp add: htons_value ldh_def)

lemma htons_range [simp]: "0 \<le> htons x" "htons x < 65536"
  unfolding htons_value using pos_mod_bound[of 256 x] pos_mod_bound[of 256 "x div 256"] by (simp, linarith)

lemma htons_htons: "htons (htons x) = u16 x"
proof -
  have "(256 * (x mod 256) + x div 256 mod 256) mod 256 = x div 256 mod 256" by simp
  moreover have "(256 * (x mod 256) + x div 256 mod 256) div 256 = x mod 256" by simp
  ultimately show ?thesis using u16_bytes[of x] unfolding htons_value by simp
qed

lemma mask8: "bit (255::int) j \<longleftrightarrow> j < 8" 
  using bit_mask_iff[of 8 j, where 'a = int] by (simp add: mask_eq_exp_minus_1)

lemma and_byte: "x AND push_bit n 0xff = push_bit n (drop_bit n x mod (256::int))"
proof (rule bit_eqI)
  fix i
  have t: "drop_bit n x mod 256 = take_bit 8 (drop_bit n x)" by (simp add: take_bit_eq_mod)
  show "bit (x AND push_bit n 0xff) i = bit (push_bit n (drop_bit n x mod 256)) i"
  proof (cases "n \<le> i")
    case True
    then show ?thesis unfolding t by (simp add: bit_and_iff bit_push_bit_iff bit_take_bit_iff bit_drop_bit_eq mask8 conj_commute)
  next
    case False
    then show ?thesis by (simp only: bit_and_iff bit_push_bit_iff) simp
  qed
qed

lemma drop_push: "n \<le> k \<Longrightarrow> drop_bit k (push_bit n x) = drop_bit (k - n) (x::int)"
  by (rule bit_eqI) (simp add: bit_drop_bit_eq bit_push_bit_iff add.commute)

lemma htonl_value:
  "htonl x = 16777216 * (x mod 256) + 65536 * (x div 256 mod 256) + 256 * (x div 65536 mod 256) + x div 16777216 mod 256"
proof -
  have m: "(0xff00::int) = push_bit 8 0xff" "(0xff0000::int) = push_bit 16 0xff" "(0xff000000::int) = push_bit 24 0xff"
    by (simp_all add: push_bit_eq_mult)
  have d: "drop_bit 16 (push_bit 8 x) = drop_bit 8 x" "drop_bit 24 (push_bit 24 x) = x" "drop_bit 8 (drop_bit 8 x) = drop_bit 16 x"
    by (simp_all add: drop_push)
  have z: "y AND 0xff = y mod 256" for y :: int using and_byte[of y 0] by simp
  let ?a = "drop_bit 24 x mod 256" let ?b = "drop_bit 16 x mod 256" let ?c = "drop_bit 8 x mod 256" let ?d = "x mod 256"
  have r: "0 \<le> y mod 256" "y mod 256 \<le> 255" for y :: int using pos_mod_bound[of 256 y] by simp_all
  have h: "htonl x = ?a OR (push_bit 8 ?b OR (push_bit 16 ?c OR push_bit 24 ?d))"
    unfolding htonl_def m and_byte d z by (simp only: or.assoc)
  have cd: "push_bit 16 ?c OR push_bit 24 ?d = push_bit 16 ?c + push_bit 24 ?d"
    by (rule or_shift_add) (use r[of "drop_bit 8 x"] in \<open>simp_all add: push_bit_eq_mult\<close>)
  have c2: "push_bit 16 ?c + push_bit 24 ?d = push_bit 16 (?c + 256 * ?d)" by (simp add: push_bit_eq_mult)
  have bcd: "push_bit 8 ?b OR push_bit 16 (?c + 256 * ?d) = push_bit 8 ?b + push_bit 16 (?c + 256 * ?d)"
    by (rule or_shift_add) (use r[of "drop_bit 16 x"] in \<open>simp_all add: push_bit_eq_mult\<close>)
  have b2: "push_bit 8 ?b + push_bit 16 (?c + 256 * ?d) = push_bit 8 (?b + 256 * (?c + 256 * ?d))" by (simp add: push_bit_eq_mult)
  have "?a OR push_bit 8 (?b + 256 * (?c + 256 * ?d)) = ?a + push_bit 8 (?b + 256 * (?c + 256 * ?d))"
    by (rule or_shift_add) (use r[of "drop_bit 24 x"] in simp_all)
  then show ?thesis unfolding h cd c2 bcd b2 by (simp add: push_bit_eq_mult drop_bit_eq_div)
qed

text \<open>Reversing a field in memory.\<close>

lemma ldb_swaph: "ldb (sth a (htons (ldh m a)) m) b = (if b = a then ldb m (a + 1) else if b = a + 1 then ldb m a else ldb m b)"
  unfolding ldb_sth htons_ldh using ldb_range[of m a] ldb_range[of m "a + 1"] by auto

lemma htonl_ldw: "htonl (ldw m a) = 16777216 * ldb m a + 65536 * ldb m (a + 1) + 256 * ldb m (a + 2) + ldb m (a + 3)"
proof -
  have "ldw m a = ldb m a + 256 * ldb m (a + 1) + 65536 * ldb m (a + 2) + 16777216 * ldb m (a + 3)"
    by (simp add: ldw_def ldh_def add.assoc)
  then show ?thesis unfolding htonl_value
    using digits4[of "ldb m a" "ldb m (a + 1)" "ldb m (a + 2)" "ldb m (a + 3)"] by (simp only: ldb_range)
qed

lemma ldb_swapw: "ldb (stw a (htonl (ldw m a)) m) b =
   (if b = a then ldb m (a + 3) else if b = a + 1 then ldb m (a + 2) else if b = a + 2 then ldb m (a + 1)
    else if b = a + 3 then ldb m a else ldb m b)"
proof -
  have "htonl (ldw m a) = ldb m (a + 3) + 256 * ldb m (a + 2) + 65536 * ldb m (a + 1) + 16777216 * ldb m a"
    unfolding htonl_ldw by simp
  then show ?thesis unfolding ldb_stw
    using digits4[of "ldb m (a + 3)" "ldb m (a + 2)" "ldb m (a + 1)" "ldb m a"] by (simp only: ldb_range)
qed

end
