(* ===== verification/Net_State.thy ===== *)
theory Net_State
  imports Net_Bytes Devices
begin

text \<open>
  The data of the network code: the layout of packets (\<^verbatim>\<open>include/net.h\<close>, \<^verbatim>\<open>arp.h\<close>), the tables and
  global variables of \<^verbatim>\<open>net/*.c\<close> and the control block and registers of the Ethernet device as one
  record, the conversions of headers between host and network byte order, and the checksums.
\<close>

section \<open>Constants\<close>

definition ETH_ADDR_LEN :: int where [simp]: "ETH_ADDR_LEN = 6"
definition ETH_HDR_LEN :: int where [simp]: "ETH_HDR_LEN = 14"
definition ETH_ARP :: int where [simp]: "ETH_ARP = 0x0806"
definition ETH_IP :: int where [simp]: "ETH_IP = 0x0800"
definition ETH_IPv6 :: int where [simp]: "ETH_IPv6 = 0x86DD"
definition PACKLEN :: int where [simp]: "PACKLEN = 1514"
definition IP_BCAST :: int where [simp]: "IP_BCAST = 0xffffffff"
definition IP_ICMP :: int where [simp]: "IP_ICMP = 1"
definition IP_UDP :: int where [simp]: "IP_UDP = 17"
definition IP_HDR_LEN :: int where [simp]: "IP_HDR_LEN = 20"
definition IP_OQSIZ :: int where [simp]: "IP_OQSIZ = 8"
definition UDP_SLOTS :: int where [simp]: "UDP_SLOTS = 6"
definition UDP_QSIZ :: int where [simp]: "UDP_QSIZ = 8"
definition UDP_HDR_LEN :: int where [simp]: "UDP_HDR_LEN = 8"
definition ICMP_SLOTS :: int where [simp]: "ICMP_SLOTS = 10"
definition ICMP_QSIZ :: int where [simp]: "ICMP_QSIZ = 8"
definition ICMP_HDR_LEN :: int where [simp]: "ICMP_HDR_LEN = 8"
definition ICMP_ECHOREPLY :: int where [simp]: "ICMP_ECHOREPLY = 0"
definition ICMP_ECHOREQST :: int where [simp]: "ICMP_ECHOREQST = 8"
definition ARP_HALEN :: int where [simp]: "ARP_HALEN = 6"
definition ARP_PALEN :: int where [simp]: "ARP_PALEN = 4"
definition ARP_HTYPE :: int where [simp]: "ARP_HTYPE = 1"
definition ARP_PTYPE :: int where [simp]: "ARP_PTYPE = 0x0800"
definition ARP_OP_REQ :: int where [simp]: "ARP_OP_REQ = 1"
definition ARP_OP_RPLY :: int where [simp]: "ARP_OP_RPLY = 2"
definition ARP_SIZ :: int where [simp]: "ARP_SIZ = 16"
definition ARP_RETRY :: nat where [simp]: "ARP_RETRY = 3"
definition ARP_TIMEOUT :: int where [simp]: "ARP_TIMEOUT = 300"

section \<open>Tables\<close>

record network =
  ipucast :: int
  ipbcast :: int
  ipmask :: int
  ipprefix :: int
  iprouter :: int
  bootserver :: int
  dnsserver :: int
  ntpserver :: int
  ipvalid :: bool
  ethucast :: "int list"
  ethbcast :: "int list"

datatype arstate_t = AR_FREE | AR_PENDING | AR_RESOLVED

record arpentry =
  arstate :: arstate_t
  arpaddr :: int
  arpid :: int
  arhaddr :: "int list"

datatype udstate_t = UDP_FREE | UDP_USED | UDP_RECV

record udpentry =
  udstate :: udstate_t
  udremip :: int
  udremport :: int
  udlocport :: int
  udhead :: int
  udtail :: int
  udcount :: int
  udpid :: int
  udqueue :: "int \<Rightarrow> int"

datatype icstate_t = ICMP_FREE | ICMP_USED | ICMP_RECV

record icmpentry =
  icstate :: icstate_t
  icremip :: int
  ichead :: int
  ictail :: int
  iccount :: int
  icpid :: int
  icqueue :: "int \<Rightarrow> int"

record iqentry =
  iqhead :: int
  iqtail :: int
  iqsem :: int
  iqbuf :: "int \<Rightarrow> int"

text \<open>
  The control block of the Ethernet device with its rings of descriptors (16 bytes each, in the kernel's
  memory), and the registers of the DMA engine that the driver uses.
\<close>

record ethcblk =
  devAddress :: "int list"
  rxRing :: int
  rxHead :: int
  rxTail :: int
  rxRingSize :: int
  txRing :: int
  txHead :: int
  txTail :: int
  txRingSize :: int
  isem :: int
  osem :: int

record ethcsr =
  tx_hdp :: int
  rx_hdp :: int
  tx_cp :: int
  rx_cp :: int
  eoi_vector :: int

text \<open>All of it; \<open>ident_send\<close>, \<open>ident_sendto\<close> and \<open>ipident\<close> are static variables of functions.\<close>

record net =
  NetData :: network
  netbufpool :: int
  netportseed :: int
  arpcache :: "int \<Rightarrow> arpentry"
  udptab :: "int \<Rightarrow> udpentry"
  icmptab :: "int \<Rightarrow> icmpentry"
  ipoqueue :: iqentry
  ident_send :: int
  ident_sendto :: int
  ipident :: int
  eth :: ethcblk
  csr :: ethcsr

type_synonym nstate = "kstate \<times> net"

text \<open>Memory and tables in the state.\<close>

definition upmem :: "(memory \<Rightarrow> memory) \<Rightarrow> kstate \<Rightarrow> kstate" where
  "upmem f s = s\<lparr>hp := (hp s)\<lparr>mem := f (mem (hp s))\<rparr>\<rparr>"

definition mm :: "nstate \<Rightarrow> memory" where
  "mm sd = mem (hp (fst sd))"

definition wr :: "(memory \<Rightarrow> memory) \<Rightarrow> nstate \<Rightarrow> nstate" where
  "wr f sd = (upmem f (fst sd), snd sd)"

definition upn :: "(net \<Rightarrow> net) \<Rightarrow> nstate \<Rightarrow> nstate" where
  "upn f sd = (fst sd, f (snd sd))"

definition uparp :: "int \<Rightarrow> (arpentry \<Rightarrow> arpentry) \<Rightarrow> net \<Rightarrow> net" where
  "uparp i f n = n\<lparr>arpcache := (arpcache n)(i := f (arpcache n i))\<rparr>"

definition upudp :: "int \<Rightarrow> (udpentry \<Rightarrow> udpentry) \<Rightarrow> net \<Rightarrow> net" where
  "upudp i f n = n\<lparr>udptab := (udptab n)(i := f (udptab n i))\<rparr>"

definition upicmp :: "int \<Rightarrow> (icmpentry \<Rightarrow> icmpentry) \<Rightarrow> net \<Rightarrow> net" where
  "upicmp i f n = n\<lparr>icmptab := (icmptab n)(i := f (icmptab n i))\<rparr>"

section \<open>Packets\<close>

text \<open>
  The places of the fields in \<^verbatim>\<open>struct netpacket\<close> and \<^verbatim>\<open>struct arppacket\<close>, which are packed to half
  words; a packet is the address of its first byte.
\<close>

definition net_ethdst :: "int \<Rightarrow> int" where [simp]: "net_ethdst p = p"
definition net_ethsrc :: "int \<Rightarrow> int" where [simp]: "net_ethsrc p = p + 6"
definition net_ethtype :: "int \<Rightarrow> int" where [simp]: "net_ethtype p = p + 12"
definition net_ipvh :: "int \<Rightarrow> int" where [simp]: "net_ipvh p = p + 14"
definition net_iptos :: "int \<Rightarrow> int" where [simp]: "net_iptos p = p + 15"
definition net_iplen :: "int \<Rightarrow> int" where [simp]: "net_iplen p = p + 16"
definition net_ipid :: "int \<Rightarrow> int" where [simp]: "net_ipid p = p + 18"
definition net_ipfrag :: "int \<Rightarrow> int" where [simp]: "net_ipfrag p = p + 20"
definition net_ipttl :: "int \<Rightarrow> int" where [simp]: "net_ipttl p = p + 22"
definition net_ipproto :: "int \<Rightarrow> int" where [simp]: "net_ipproto p = p + 23"
definition net_ipcksum :: "int \<Rightarrow> int" where [simp]: "net_ipcksum p = p + 24"
definition net_ipsrc :: "int \<Rightarrow> int" where [simp]: "net_ipsrc p = p + 26"
definition net_ipdst :: "int \<Rightarrow> int" where [simp]: "net_ipdst p = p + 30"
definition net_udpsport :: "int \<Rightarrow> int" where [simp]: "net_udpsport p = p + 34"
definition net_udpdport :: "int \<Rightarrow> int" where [simp]: "net_udpdport p = p + 36"
definition net_udplen :: "int \<Rightarrow> int" where [simp]: "net_udplen p = p + 38"
definition net_udpcksum :: "int \<Rightarrow> int" where [simp]: "net_udpcksum p = p + 40"
definition net_udpdata :: "int \<Rightarrow> int" where [simp]: "net_udpdata p = p + 42"
definition net_ictype :: "int \<Rightarrow> int" where [simp]: "net_ictype p = p + 34"
definition net_iccode :: "int \<Rightarrow> int" where [simp]: "net_iccode p = p + 35"
definition net_iccksum :: "int \<Rightarrow> int" where [simp]: "net_iccksum p = p + 36"
definition net_icident :: "int \<Rightarrow> int" where [simp]: "net_icident p = p + 38"
definition net_icseq :: "int \<Rightarrow> int" where [simp]: "net_icseq p = p + 40"
definition net_icdata :: "int \<Rightarrow> int" where [simp]: "net_icdata p = p + 42"

definition arp_htype :: "int \<Rightarrow> int" where [simp]: "arp_htype p = p + 14"
definition arp_ptype :: "int \<Rightarrow> int" where [simp]: "arp_ptype p = p + 16"
definition arp_hlen :: "int \<Rightarrow> int" where [simp]: "arp_hlen p = p + 18"
definition arp_plen :: "int \<Rightarrow> int" where [simp]: "arp_plen p = p + 19"
definition arp_op :: "int \<Rightarrow> int" where [simp]: "arp_op p = p + 20"
definition arp_sndha :: "int \<Rightarrow> int" where [simp]: "arp_sndha p = p + 22"
definition arp_sndpa :: "int \<Rightarrow> int" where [simp]: "arp_sndpa p = p + 28"
definition arp_tarha :: "int \<Rightarrow> int" where [simp]: "arp_tarha p = p + 32"
definition arp_tarpa :: "int \<Rightarrow> int" where [simp]: "arp_tarpa p = p + 38"
definition arp_size :: int where [simp]: "arp_size = 42"

section \<open>Conversions\<close>

definition swaph :: "int \<Rightarrow> memory \<Rightarrow> memory" where
  "swaph a m = sth a (htons (ldh m a)) m"

definition swapw :: "int \<Rightarrow> memory \<Rightarrow> memory" where
  "swapw a m = stw a (htonl (ldw m a)) m"

definition eth_hton :: "int \<Rightarrow> memory \<Rightarrow> memory" where
  "eth_hton p = swaph (net_ethtype p)"

definition eth_ntoh :: "int \<Rightarrow> memory \<Rightarrow> memory" where
  "eth_ntoh p = swaph (net_ethtype p)"

definition arp_ntoh :: "int \<Rightarrow> memory \<Rightarrow> memory" where
  "arp_ntoh p m = swapw (arp_tarpa p) (swapw (arp_sndpa p) (swaph (arp_op p) (swaph (arp_ptype p) (swaph (arp_htype p) m))))"

definition arp_hton :: "int \<Rightarrow> memory \<Rightarrow> memory" where
  "arp_hton p m = swapw (arp_tarpa p) (swapw (arp_sndpa p) (swaph (arp_op p) (swaph (arp_ptype p) (swaph (arp_htype p) m))))"

definition ip_ntoh :: "int \<Rightarrow> memory \<Rightarrow> memory" where
  "ip_ntoh p m = swapw (net_ipdst p) (swapw (net_ipsrc p) (swaph (net_ipfrag p) (swaph (net_ipid p) (swaph (net_iplen p) m))))"

definition ip_hton :: "int \<Rightarrow> memory \<Rightarrow> memory" where
  "ip_hton p m = swapw (net_ipdst p) (swapw (net_ipsrc p) (swaph (net_ipfrag p) (swaph (net_ipid p) (swaph (net_iplen p) m))))"

definition udp_ntoh :: "int \<Rightarrow> memory \<Rightarrow> memory" where
  "udp_ntoh p m = swaph (net_udplen p) (swaph (net_udpdport p) (swaph (net_udpsport p) m))"

definition udp_hton :: "int \<Rightarrow> memory \<Rightarrow> memory" where
  "udp_hton p m = swaph (net_udplen p) (swaph (net_udpdport p) (swaph (net_udpsport p) m))"

definition icmp_ntoh :: "int \<Rightarrow> memory \<Rightarrow> memory" where
  "icmp_ntoh p m = swaph (net_icseq p) (swaph (net_icident p) (swaph (net_iccksum p) m))"

definition icmp_hton :: "int \<Rightarrow> memory \<Rightarrow> memory" where
  "icmp_hton p m = swaph (net_icseq p) (swaph (net_icident p) (swaph (net_iccksum p) m))"

section \<open>Checksums\<close>

text \<open>The sum of \<open>n\<close> half words in network order, from \<open>a\<close> on, in 32 bits.\<close>

primrec sum_words :: "nat \<Rightarrow> memory \<Rightarrow> int \<Rightarrow> int \<Rightarrow> int" where
  "sum_words 0 m a cksum = cksum"
| "sum_words (Suc n) m a cksum = sum_words n m (a + 2) (u32 (cksum + htons (ldh m a)))"

definition ipcksum :: "memory \<Rightarrow> int \<Rightarrow> int" where
  "ipcksum m pkt =
    (let cksum = sum_words 10 m (net_ipvh pkt) 0;
         cksum = u32 (cksum + drop_bit 16 cksum);
         cksum = 0xffff AND NOT cksum;
         cksum = (if cksum = 0xffff then 0 else cksum)
     in 0xffff AND cksum)"

definition icmp_cksum :: "memory \<Rightarrow> int \<Rightarrow> int \<Rightarrow> int" where
  "icmp_cksum m buf buflen =
    (let scount = drop_bit 1 buflen;
         cksum = sum_words (nat scount) m buf 0;
         cksum = (if buflen AND 1 \<noteq> 0 then u32 (cksum + push_bit 8 (ldb m (buf + 2 * int (nat scount)))) else cksum);
         cksum = u32 (cksum + drop_bit 16 cksum);
         cksum = 0xffff AND NOT cksum
     in 0xffff AND cksum)"

text \<open>The generator of \<^verbatim>\<open>getport\<close>.\<close>

definition getport :: "net \<Rightarrow> int \<times> net" where
  "getport n =
    (let seed = u32 (1103515245 * netportseed n + 12345)
     in (u16 (50000 + u16 (drop_bit 16 seed) mod 15535), n\<lparr>netportseed := seed\<rparr>))"

end
