(* ===== verification/Net_Cksum.thy ===== *)
theory Net_Cksum
  imports Net_State
begin

text \<open>
  What the checksums of \<^verbatim>\<open>ip.c\<close> and \<^verbatim>\<open>icmp.c\<close> compute, against the checksum of the Internet
  protocols: the complement of the sum of the half words in ones' complement arithmetic, where every
  carry out of 16 bits is added at the other end. The code adds the carries only once.
\<close>

section \<open>Specification\<close>

text \<open>The sum of \<open>n\<close> half words in network order, and the same of \<open>len\<close> bytes.\<close>

primrec wsum :: "nat \<Rightarrow> memory \<Rightarrow> int \<Rightarrow> int" where
  "wsum 0 m a = 0"
| "wsum (Suc n) m a = htons (ldh m a) + wsum n m (a + 2)"

definition msg_sum :: "memory \<Rightarrow> int \<Rightarrow> nat \<Rightarrow> int" where
  "msg_sum m a len = wsum (len div 2) m a + (if odd len then 256 * ldb m (a + int (len - 1)) else 0)"

text \<open>The ones' complement sum: carries are added until none is left. All ones is a valid sum.\<close>

function ones :: "int \<Rightarrow> int" where
  "ones s = (if s < 65536 then s else ones (s mod 65536 + s div 65536))"
  by auto
termination
proof (relation "measure nat", simp, goal_cases)
  case (1 s)
  define q r where "q = s div 65536" and "r = s mod 65536"
  have "s = 65536 * q + r" "0 \<le> r" "1 \<le> q" using 1 by (simp_all add: q_def r_def)
  then have "r + q < s" "0 < s" by linarith+
  then show ?case unfolding q_def r_def by simp
qed

declare ones.simps [simp del]

definition valid_sum :: "int \<Rightarrow> bool" where
  "valid_sum s \<longleftrightarrow> ones s = 0xffff"

text \<open>Adding the carries once overflows 16 bits again.\<close>

definition lost_carry :: "int \<Rightarrow> bool" where
  "lost_carry s \<longleftrightarrow> s mod 65536 + s div 65536 \<ge> 65536"

section \<open>The sums\<close>

lemma htons_le: "htons x \<le> 65535"
  using htons_range(2)[of x] by linarith

lemma wsum_range: "0 \<le> wsum n m a" "wsum n m a \<le> int n * 65535"
proof (induction n arbitrary: a)
  case (Suc n)
  { case 1 show ?case using Suc.IH(1)[of "a + 2"] by simp }
  { case 2 show ?case using Suc.IH(2)[of "a + 2"] htons_le[of "ldh m a"] unfolding wsum.simps of_nat_Suc distrib_right by linarith }
qed simp_all

lemma sum_words_wsum: "0 \<le> c \<Longrightarrow> c + int n * 65535 < 4294967296 \<Longrightarrow> sum_words n m a c = c + wsum n m a"
proof (induction n arbitrary: a c)
  case (Suc n)
  have h: "htons (ldh m a) \<le> 65535" "0 \<le> htons (ldh m a)" by (simp_all add: htons_le)
  have b: "c + htons (ldh m a) + int n * 65535 < 4294967296" using Suc.prems(2) h by (simp add: distrib_right)
  moreover have "0 \<le> int n * 65535" by simp
  ultimately have "u32 (c + htons (ldh m a)) = c + htons (ldh m a)" using Suc.prems(1) h by simp
  then show ?case using Suc.IH[of "c + htons (ldh m a)" "a + 2"] Suc.prems(1) h b by simp
qed simp

lemma wsum_cong: "(\<And>i. a \<le> i \<Longrightarrow> i < a + 2 * int n \<Longrightarrow> ldb m i = ldb m' i) \<Longrightarrow> wsum n m a = wsum n m' a"
proof (induction n arbitrary: a)
  case (Suc n)
  have "ldh m a = ldh m' a" using Suc.prems[of a] Suc.prems[of "a + 1"] by (simp add: ldh_def)
  then show ?case using Suc.IH[of "a + 2"] Suc.prems by simp
qed simp

lemma msg_sum_cong: "(\<And>i. a \<le> i \<Longrightarrow> i < a + int len \<Longrightarrow> ldb m i = ldb m' i) \<Longrightarrow> msg_sum m a len = msg_sum m' a len"
  unfolding msg_sum_def by (intro arg_cong2[of _ _ _ _ "(+)"] wsum_cong if_cong) (auto elim!: oddE)

text \<open>Replacing one half word of a message.\<close>

lemma wsum_sth:
  assumes "k < n" "b = a + 2 * int k"
  shows "wsum n (sth b v m) a = wsum n m a - htons (ldh m b) + htons (u16 v)"
  using assms
proof (induction n arbitrary: a k)
  case (Suc n)
  show ?case
  proof (cases k)
    case 0
    have "wsum n (sth b v m) (a + 2) = wsum n m (a + 2)" by (rule wsum_cong) (use Suc.prems 0 in \<open>auto simp: ldb_sth\<close>)
    then show ?thesis using Suc.prems 0 by simp
  next
    case (Suc k')
    have "ldh (sth b v m) a = ldh m a" using Suc.prems Suc by (simp add: ldh_sth_other)
    then show ?thesis using Suc.IH[of k' "a + 2"] Suc.prems Suc by simp
  qed
qed simp

lemma msg_sum_sth:
  assumes "2 * k + 1 < len" "b = a + 2 * int k"
  shows "msg_sum (sth b v m) a len = msg_sum m a len - htons (ldh m b) + htons (u16 v)"
proof -
  have "k < len div 2" using assms(1) by linarith
  moreover have "ldb (sth b v m) (a + int (len - 1)) = ldb m (a + int (len - 1))" if o: "odd len"
  proof -
    obtain j where j: "len = 2 * j + 1" using o by (rule oddE)
    then have "k < j" using assms(1) by linarith
    then show ?thesis using j assms(2) by (simp add: ldb_sth)
  qed
  ultimately show ?thesis using wsum_sth[of k "len div 2" b a v m] assms(2) by (auto simp: msg_sum_def)
qed

lemma msg_sum_range: "0 \<le> msg_sum m a len" "msg_sum m a len \<le> (int (len div 2) + 1) * 65535"
proof -
  have "ldb m (a + int (len - 1)) \<le> 255" using ldb_range(2)[of m "a + int (len - 1)"] by linarith
  then show "0 \<le> msg_sum m a len" "msg_sum m a len \<le> (int (len div 2) + 1) * 65535"
    using wsum_range[of "len div 2" m a] ldb_range(1)[of m "a + int (len - 1)"] by (cases "odd len"; simp add: msg_sum_def distrib_right)+
qed

section \<open>Ones' complement arithmetic\<close>

lemma quot_rem:
  fixes q r :: int
  assumes "0 \<le> r" "r < 65536"
  shows "(65536 * q + r) div 65536 = q" "(65536 * q + r) mod 65536 = r"
  using assms by simp_all

text \<open>The sum with the carries added once, in 16 bits.\<close>

definition fold1 :: "int \<Rightarrow> int" where
  "fold1 s = (s + s div 65536) mod 65536"

lemma fold1_quot:
  assumes "0 \<le> r" "r < 65536" "0 \<le> q" "q < 65536"
  shows "fold1 (65536 * q + r) = (if r + q < 65536 then r + q else r + q - 65536)"
proof -
  have "fold1 (65536 * q + r) = (65536 * q + (r + q)) mod 65536"
    unfolding fold1_def quot_rem(1)[OF assms(1,2)] by (simp only: add.assoc)
  also have "\<dots> = (r + q) mod 65536" by (rule mod_mult_self4)
  also have "\<dots> = (if r + q < 65536 then r + q else r + q - 65536)"
  proof (cases "r + q < 65536")
    case False
    have "(65536 * 1 + (r + q - 65536)) mod 65536 = r + q - 65536" by (rule quot_rem) (use False assms in simp_all)
    then show ?thesis using False by (simp only: if_False) (simp add: algebra_simps)
  qed (use assms in simp)
  finally show ?thesis .
qed

lemma ones_quot:
  assumes "0 \<le> r" "r < 65536" "0 \<le> q" "q < 65536"
  shows "ones (65536 * q + r) = (if r + q < 65536 then r + q else r + q - 65535)"
proof (cases "q = 0")
  case False
  then have "ones (65536 * q + r) = ones (r + q)"
    using assms by (subst ones.simps) (simp add: quot_rem[OF assms(1,2)])
  also have "\<dots> = (if r + q < 65536 then r + q else r + q - 65535)"
  proof (cases "r + q < 65536")
    case False
    have e: "r + q = 65536 * 1 + (r + q - 65536)" by simp
    have "0 \<le> r + q - 65536" "r + q - 65536 < 65536" using False assms by simp_all
    note d = quot_rem[OF this, of 1, folded e]
    have "ones (r + q) = ones (r + q - 65536 + 1)" using False by (subst ones.simps) (simp only: d if_False)
    also have "\<dots> = r + q - 65535" using assms by (subst ones.simps) simp
    finally show ?thesis using False by simp
  qed (subst ones.simps, simp)
  finally show ?thesis .
qed (use assms in \<open>subst ones.simps, simp\<close>)

lemma not_mask: "0xffff AND NOT x = 65535 - x mod (65536::int)"
proof -
  have "0xffff AND NOT x = take_bit 16 (NOT x)"
    using take_bit_eq_mask[of 16 "NOT x"] by (simp add: mask_eq_exp_minus_1 and.commute)
  also have "\<dots> = (- x - 1) mod 65536" by (simp add: take_bit_eq_mod not_int_def)
  also have "\<dots> = 65535 - x mod 65536"
  proof -
    define q r where "q = x div 65536" and "r = x mod 65536"
    have x: "x = 65536 * q + r" "0 \<le> r" "r < 65536" by (simp_all add: q_def r_def)
    have "- x - 1 = 65536 * (- q - 1) + (65535 - r)" using x(1) by simp
    then show ?thesis using x(2,3) quot_rem(2)[of "65535 - r" "- q - 1"] by (simp add: r_def)
  qed
  finally show ?thesis .
qed

lemma mask_id: "0 \<le> x \<Longrightarrow> x < 65536 \<Longrightarrow> 0xffff AND x = (x::int)"
  using take_bit_eq_mask[of 16 x] by (simp add: mask_eq_exp_minus_1 and.commute take_bit_int_eq_self)

lemma fold1_range [simp]: "0 \<le> fold1 s" "fold1 s < 65536"
  by (simp_all add: fold1_def)

lemma complement_fold:
  assumes "0 \<le> s" "s < 4294901760"
  shows "0xffff AND NOT (u32 (s + drop_bit 16 s)) = 65535 - fold1 s"
proof -
  have "s + s div 65536 < 4294967296" using assms by (simp add: div_less_iff_less_mult)
  then have "u32 (s + drop_bit 16 s) = s + s div 65536" using assms by (simp add: drop_bit_eq_div)
  then show ?thesis by (simp add: not_mask fold1_def)
qed

section \<open>The checksums of the code\<close>

lemma ipcksum_value:
  "ipcksum m p = (let c = 65535 - fold1 (wsum 10 m (p + 14)) in if c = 65535 then 0 else c)"
proof -
  let ?s = "wsum 10 m (p + 14)"
  have r: "0 \<le> ?s" "?s \<le> 655350" using wsum_range[where n = 10] by simp_all
  have "sum_words 10 m (p + 14) 0 = ?s" using sum_words_wsum[of 0 10 m "p + 14"] by simp
  moreover have "0xffff AND NOT (u32 (?s + drop_bit 16 ?s)) = 65535 - fold1 ?s" using complement_fold r by simp
  moreover have "0 \<le> 65535 - fold1 ?s" "65535 - fold1 ?s < 65536" using fold1_range[of ?s] by linarith+
  ultimately show ?thesis unfolding ipcksum_def Let_def net_ipvh_def by (simp only:) (simp add: mask_id)
qed

lemma icmp_cksum_value:
  assumes "len \<le> 65535"
  shows "icmp_cksum m a (int len) = 65535 - fold1 (msg_sum m a len)"
proof -
  let ?n = "len div 2" let ?s = "msg_sum m a len"
  have n: "int ?n * 65535 < 4294770690" using assms by simp
  have w: "0 \<le> wsum ?n m a" "wsum ?n m a \<le> int ?n * 65535" by (rule wsum_range)+
  have b: "ldb m i \<le> 255" for i using ldb_range(2)[of m i] by linarith
  have d: "drop_bit 1 (int len) = int ?n" by (simp add: drop_bit_eq_div)
  have o: "(int len AND 1 \<noteq> 0) = odd len" by (simp add: and_one_eq mod_2_eq_odd)
  have l: "a + 2 * int ?n = a + int (len - 1)" if "odd len" using that by (auto elim!: oddE)
  have "sum_words (nat (int ?n)) m a 0 = wsum ?n m a" using sum_words_wsum[of 0 ?n m a] n by simp
  moreover have "u32 (wsum ?n m a + push_bit 8 (ldb m (a + int (len - 1)))) = ?s" if "odd len"
    using that w n b[of "a + int (len - 1)"] by (simp add: msg_sum_def push_bit_eq_mult algebra_simps)
  moreover have "?s = wsum ?n m a" if "even len" using that by (simp add: msg_sum_def)
  ultimately have "(let cksum = sum_words (nat (drop_bit 1 (int len))) m a 0 in
      if int len AND 1 \<noteq> 0 then u32 (cksum + push_bit 8 (ldb m (a + 2 * int (nat (drop_bit 1 (int len)))))) else cksum) = ?s"
    unfolding d o Let_def by (cases "odd len") (simp_all only: l nat_int if_True if_False simp_thms)
  moreover have "0xffff AND NOT (u32 (?s + drop_bit 16 ?s)) = 65535 - fold1 ?s"
    by (rule complement_fold) (use msg_sum_range[of m a len] n in \<open>simp_all add: distrib_right\<close>)
  moreover have "0 \<le> 65535 - fold1 ?s" "65535 - fold1 ?s < 65536" using fold1_range[of ?s] by linarith+
  ultimately show ?thesis unfolding icmp_cksum_def Let_def by (simp only: mask_id)
qed

text \<open>
  A message with its checksum \<open>c\<close> in place sums to \<open>s + c\<close>, where \<open>s\<close> is the sum without it. The
  value \<open>c = 65535 - fold1 s\<close> makes it a valid sum unless a carry was lost.
\<close>

lemma sum_with_checksum:
  assumes s: "0 \<le> s" "s div 65536 < 65535"
  defines "t \<equiv> s + (65535 - fold1 s)"
  shows "fold1 t = (if lost_carry s then 0 else 65535)" "valid_sum t \<longleftrightarrow> \<not> lost_carry s"
proof -
  define q r where "q = s div 65536" and "r = s mod 65536"
  have e: "s = 65536 * q + r" and b: "0 \<le> r" "r < 65536" "0 \<le> q" "q < 65535" using s by (simp_all add: q_def r_def)
  have lost: "lost_carry s \<longleftrightarrow> r + q \<ge> 65536" by (simp add: lost_carry_def q_def r_def)
  have f: "fold1 s = (if r + q < 65536 then r + q else r + q - 65536)"
    unfolding e using fold1_quot[of r q] b by simp
  have "fold1 t = (if lost_carry s then 0 else 65535) \<and> (valid_sum t \<longleftrightarrow> \<not> lost_carry s)"
  proof (cases "lost_carry s")
    case False
    then have t: "t = 65536 * q + (65535 - q)" using e f lost by (simp add: t_def)
    then have "fold1 t = 65535" "ones t = 65535"
      unfolding t using fold1_quot[of "65535 - q" q] ones_quot[of "65535 - q" q] b by simp_all
    then show ?thesis using False by (simp add: valid_sum_def)
  next
    case True
    then have t: "t = 65536 * (q + 1) + (65535 - q)" using e f lost by (simp add: t_def)
    then have "fold1 t = 0" "ones t = 1"
      unfolding t using fold1_quot[of "65535 - q" "q + 1"] ones_quot[of "65535 - q" "q + 1"] b by simp_all
    then show ?thesis using True by (simp add: valid_sum_def)
  qed
  then show "fold1 t = (if lost_carry s then 0 else 65535)" "valid_sum t \<longleftrightarrow> \<not> lost_carry s" by simp_all
qed

lemma valid_fold1:
  assumes "0 \<le> s" "s div 65536 < 32768" "valid_sum s"
  shows "fold1 s = 65535"
proof -
  define q r where "q = s div 65536" and "r = s mod 65536"
  have e: "s = 65536 * q + r" and b: "0 \<le> r" "r < 65536" "0 \<le> q" "q < 32768" using assms(1,2) by (simp_all add: q_def r_def)
  then have "ones s = (if r + q < 65536 then r + q else r + q - 65535)" unfolding e using ones_quot[of r q] by simp
  then show ?thesis using fold1_quot[of r q] b assms(3) unfolding valid_sum_def e by (auto split: if_splits)
qed

section \<open>Sent headers and messages\<close>

text \<open>The message with its checksum field cleared, and with the checksum stored there.\<close>

definition with_cksum :: "int \<Rightarrow> (memory \<Rightarrow> int) \<Rightarrow> memory \<Rightarrow> memory" where
  "with_cksum a f m = (let m0 = sth a 0 m in sth a (htons (f m0)) m0)"

lemma ip_cksum_run:
  fixes m :: memory and p :: int
  assumes v: "ldb m (net_ipvh p) \<noteq> 0"
  defines "m1 \<equiv> with_cksum (net_ipcksum p) (\<lambda>m. ipcksum m p) m" and "s \<equiv> wsum 10 (sth (net_ipcksum p) 0 m) (net_ipvh p)"
  shows "ipcksum m1 p = 0 \<and> (valid_sum (wsum 10 m1 (net_ipvh p)) \<longleftrightarrow> \<not> lost_carry s) \<and>
    (\<forall>m. valid_sum (wsum 10 m (net_ipvh p)) \<longrightarrow> ipcksum m p = 0)"
proof -
  let ?m0 = "sth (p + 24) 0 m" let ?c = "ipcksum ?m0 p" let ?t = "wsum 10 m1 (p + 14)"
  have s: "s = wsum 10 ?m0 (p + 14)" by (simp add: s_def)
  have sr: "0 \<le> s" "s \<le> 655350" unfolding s using wsum_range[where n = 10] by simp_all
  then have q: "s div 65536 < 65535" and q': "s div 65536 < 32768" by simp_all
  have ok: "\<forall>m. valid_sum (wsum 10 m (p + 14)) \<longrightarrow> ipcksum m p = 0"
  proof (intro allI impI)
    fix m assume "valid_sum (wsum 10 m (p + 14))"
    moreover have "wsum 10 m (p + 14) \<le> 655350" "0 \<le> wsum 10 m (p + 14)" using wsum_range[where n = 10] by simp_all
    ultimately have "fold1 (wsum 10 m (p + 14)) = 65535" by (intro valid_fold1) simp_all
    then show "ipcksum m p = 0" by (simp add: ipcksum_value)
  qed
  have pos: "s \<noteq> 0"
  proof -
    have "0 < ldb m (p + 14)" using v ldb_range(1)[of m "p + 14"] by (simp del: ldb_range)
    then have "256 \<le> 256 * ldb m (p + 14) + ldb m (p + 14 + 1)" using ldb_range(1)[of m "p + 14 + 1"] by linarith
    then have "256 \<le> htons (ldh ?m0 (p + 14))" by (simp add: htons_ldh ldb_sth)
    moreover have "s = htons (ldh ?m0 (p + 14)) + wsum 9 ?m0 (p + 14 + 2)"
      unfolding s wsum.simps(2)[symmetric] by simp
    ultimately show ?thesis using wsum_range(1)[of 9 ?m0 "p + 14 + 2"] by linarith
  qed
  have "fold1 s \<le> 65535" "- 1 < fold1 s" using fold1_range[of s] by linarith+
  then have cr: "0 \<le> ?c" "?c < 65536" unfolding ipcksum_value Let_def s[symmetric] by simp_all
  have t: "?t = s + ?c"
    using wsum_sth[of 5 10 "p + 24" "p + 14" "htons ?c" ?m0] cr
    by (simp add: m1_def with_cksum_def Let_def s htons_htons) (simp add: htons_value)
  have "ipcksum m1 p = 0 \<and> (valid_sum ?t \<longleftrightarrow> \<not> lost_carry s)"
  proof (cases "fold1 s = 0")
    case True
    then have c: "?c = 0" by (simp add: ipcksum_value s[symmetric])
    then have "ipcksum m1 p = 0" using True t by (simp add: ipcksum_value)
    moreover have "\<not> valid_sum s" using valid_fold1[OF sr(1) q'] True by auto
    moreover have "lost_carry s"
    proof (rule ccontr)
      assume n: "\<not> lost_carry s"
      have "fold1 s = s mod 65536 + s div 65536"
        using fold1_quot[of "s mod 65536" "s div 65536"] sr n by (simp add: lost_carry_def)
      then have "s mod 65536 = 0 \<and> s div 65536 = 0" using True sr by (simp add: add_nonneg_eq_0_iff)
      then show False using pos by (metis div_mult_mod_eq mult_zero_left add_0)
    qed
    ultimately show ?thesis using t c by simp
  next
    case False
    then have "?c = 65535 - fold1 s" by (simp add: ipcksum_value s[symmetric])
    then have "?t = s + (65535 - fold1 s)" using t by simp
    then show ?thesis using sum_with_checksum[OF sr(1) q] by (simp add: ipcksum_value)
  qed
  then show ?thesis using ok by simp
qed

lemma icmp_cksum_run:
  fixes m :: memory and a :: int
  assumes len: "4 \<le> len" "len \<le> 65535"
  defines "m1 \<equiv> with_cksum (a + 2) (\<lambda>m. icmp_cksum m a (int len)) m" and "s \<equiv> msg_sum (sth (a + 2) 0 m) a len"
  shows "(icmp_cksum m1 a (int len) = 0 \<longleftrightarrow> \<not> lost_carry s) \<and> (valid_sum (msg_sum m1 a len) \<longleftrightarrow> \<not> lost_carry s)"
proof -
  let ?m0 = "sth (a + 2) 0 m" let ?c = "icmp_cksum ?m0 a (int len)"
  have "int (len div 2) + 1 \<le> 32768" using len(2) by simp
  then have "(int (len div 2) + 1) * 65535 \<le> 32768 * 65535" by simp
  then have sr: "0 \<le> s" "s \<le> 32768 * 65535" using msg_sum_range[of ?m0 a len] unfolding s_def by linarith+
  then have q: "s div 65536 < 65535" by simp
  have c: "?c = 65535 - fold1 s" using icmp_cksum_value[OF len(2)] by (simp add: s_def)
  have cr: "0 \<le> 65535 - fold1 s" "65535 - fold1 s < 65536" using fold1_range[of s] by linarith+
  have t: "msg_sum m1 a len = s + (65535 - fold1 s)"
    using msg_sum_sth[of 1 len "a + 2" a "htons ?c" ?m0] cr len(1)
    by (simp add: m1_def with_cksum_def Let_def s_def[symmetric] c htons_htons) (simp add: htons_value)
  then show ?thesis using sum_with_checksum[OF sr(1) q] icmp_cksum_value[OF len(2), of m1 a] by simp
qed

text \<open>C38: 
  A header that \<^verbatim>\<open>ip_out\<close> has given its checksum is accepted by \<^verbatim>\<open>ipcksum\<close> in every case, and so is
  every header whose checksum is right; but the stored checksum is right only if no carry was lost.
\<close>

theorem ip_cksum_sound:
  fixes m :: memory and p :: int
  assumes v: "ldb m (net_ipvh p) \<noteq> 0"
  defines "m1 \<equiv> with_cksum (net_ipcksum p) (\<lambda>m. ipcksum m p) m" and "s \<equiv> wsum 10 (sth (net_ipcksum p) 0 m) (net_ipvh p)"
  shows "ipcksum m1 p = 0 \<and> (valid_sum (wsum 10 m1 (net_ipvh p)) \<longleftrightarrow> \<not> lost_carry s) \<and>
    (\<forall>m. valid_sum (wsum 10 m (net_ipvh p)) \<longrightarrow> ipcksum m p = 0)"
  unfolding m1_def s_def by (rule ip_cksum_run[OF v])

text \<open>
  A message that \<^verbatim>\<open>ip_out\<close> has given its ICMP checksum is accepted by \<^verbatim>\<open>icmp_cksum\<close>, as \<^verbatim>\<open>ip_in\<close>
  applies it, just in case no carry was lost; otherwise its checksum is wrong and it is dropped.
\<close>

theorem icmp_cksum_sound:
  fixes m :: memory and a :: int
  assumes len: "4 \<le> len" "len \<le> 65535"
  defines "m1 \<equiv> with_cksum (a + 2) (\<lambda>m. icmp_cksum m a (int len)) m" and "s \<equiv> msg_sum (sth (a + 2) 0 m) a len"
  shows "(icmp_cksum m1 a (int len) = 0 \<longleftrightarrow> \<not> lost_carry s) \<and> (valid_sum (msg_sum m1 a len) \<longleftrightarrow> \<not> lost_carry s)"
  unfolding m1_def s_def by (rule icmp_cksum_run[OF len])

end
