(* ===== verification/Ether.thy ===== *)
theory Ether
  imports Net_State
begin

text \<open>
  The Ethernet driver \<^verbatim>\<open>device/eth\<close>: writing, reading, control and the interrupt handler. A descriptor
  at address \<open>d\<close> has \<^verbatim>\<open>next\<close> at \<open>d\<close>, \<^verbatim>\<open>buffer\<close> at \<open>d + 4\<close>, \<^verbatim>\<open>buflen\<close> at \<open>d + 8\<close>, \<^verbatim>\<open>bufoff\<close> at \<open>d + 10\<close>,
  \<^verbatim>\<open>packlen\<close> at \<open>d + 12\<close> and \<^verbatim>\<open>stat\<close> at \<open>d + 14\<close>. The DMA engine follows the queue of descriptors from
  the register \<^verbatim>\<open>tx_hdp\<close> or \<^verbatim>\<open>rx_hdp\<close> on, and clears the \<open>OWN\<close> bit of those it has done.
\<close>

section \<open>The code\<close>

definition ETH_AM335X_TDS :: int where [simp]: "ETH_AM335X_TDS = 0xE011"
definition ETH_AM335X_OWN :: int where [simp]: "ETH_AM335X_OWN = 0x2000"
definition ETH_AM335X_RXINT :: int where [simp]: "ETH_AM335X_RXINT = 41"
definition ETH_AM335X_TXINT :: int where [simp]: "ETH_AM335X_TXINT = 42"
definition ETH_CTRL_GET_MAC :: int where [simp]: "ETH_CTRL_GET_MAC = 1"

definition upeth :: "(ethcblk \<Rightarrow> ethcblk) \<Rightarrow> net \<Rightarrow> net" where
  "upeth f n = n\<lparr>eth := f (eth n)\<rparr>"

definition upcsr :: "(ethcsr \<Rightarrow> ethcsr) \<Rightarrow> net \<Rightarrow> net" where
  "upcsr f n = n\<lparr>csr := f (csr n)\<rparr>"

text \<open>The last descriptor of a queue; the walk does not end on a cycle.\<close>

partial_function (option) last_desc :: "memory \<Rightarrow> int \<Rightarrow> int option" where
  "last_desc m p = (if m p = NULL then Some p else last_desc m (m p))"

definition fill_tx :: "int \<Rightarrow> int \<Rightarrow> int \<Rightarrow> memory \<Rightarrow> memory" where
  "fill_tx d buf count m =
    (let m = m(d := NULL);
         m = sth (d + 8) count m;
         m = sth (d + 10) 0 m;
         m = sth (d + 12) count m;
         m = sth (d + 14) ETH_AM335X_TDS m;
         m = copyb (nat count) (ldw m (d + 4)) buf m
     in if count < 60
        then sth (d + 12) 60 (sth (d + 8) 60 (fillb (nat (60 - count)) (ldw m (d + 4) + count) 0 m))
        else m)"

definition ethwrite_rest :: "int \<Rightarrow> int \<Rightarrow> nstate \<Rightarrow> (nstate, int) step" where
  "ethwrite_rest buf count sd =
    (let e = eth (snd sd);
         d = txRing e + 16 * txTail e;
         count = (if count > PACKLEN then PACKLEN else count);
         sd = wr (fill_tx d buf count) sd;
         tail = (if txTail e + 1 \<ge> txRingSize e then 0 else txTail e + 1)
     in if tx_hdp (csr (snd sd)) = 0
        then Return count (upn (upeth (\<lambda>e. e\<lparr>txTail := tail\<rparr>) \<circ> upcsr (\<lambda>c. c\<lparr>tx_hdp := d\<rparr>)) sd)
        else (case last_desc (mm sd) (tx_hdp (csr (snd sd))) of
            None \<Rightarrow> Fault
          | Some prev \<Rightarrow> Return count (upn (upeth (\<lambda>e. e\<lparr>txTail := tail\<rparr>)) (wr (\<lambda>m. m(prev := d)) sd))))"

definition ethwrite :: "int \<Rightarrow> int \<Rightarrow> nstate \<Rightarrow> (nstate, int) step" where
  "ethwrite buf count sd = bindk (onk (wait (osem (eth (snd sd)))) sd) (\<lambda>_. ethwrite_rest buf count)"

text \<open>Taking a packet out of a descriptor and handing the descriptor back to the DMA engine.\<close>

definition drain_rx :: "int \<Rightarrow> int \<Rightarrow> int \<Rightarrow> memory \<Rightarrow> memory" where
  "drain_rx d buf n m =
    (let m = copyb (nat n) buf (ldw m (d + 4)) m;
         m = sth (d + 14) ETH_AM335X_OWN m;
         m = sth (d + 10) 0 m;
         m = sth (d + 8) PACKLEN m;
         m = sth (d + 12) 0 m
     in m(d := NULL))"

definition ethread_rest :: "int \<Rightarrow> int \<Rightarrow> nstate \<Rightarrow> (nstate, int) step" where
  "ethread_rest buf count sd =
    (let e = eth (snd sd);
         d = rxRing e + 16 * rxHead e;
         retval = ldh (mm sd) (d + 12);
         retval = (if retval > count then count else retval);
         sd = wr (drain_rx d buf retval) sd;
         head = (if rxHead e + 1 \<ge> rxRingSize e then 0 else rxHead e + 1)
     in if rx_hdp (csr (snd sd)) = 0
        then Return retval (upn (upeth (\<lambda>e. e\<lparr>rxHead := head\<rparr>) \<circ> upcsr (\<lambda>c. c\<lparr>rx_hdp := d\<rparr>)) sd)
        else (case last_desc (mm sd) (rx_hdp (csr (snd sd))) of
            None \<Rightarrow> Fault
          | Some prev \<Rightarrow> Return retval (upn (upeth (\<lambda>e. e\<lparr>rxHead := head\<rparr>)) (wr (\<lambda>m. m(prev := d)) sd))))"

definition ethread :: "int \<Rightarrow> int \<Rightarrow> nstate \<Rightarrow> (nstate, int) step" where
  "ethread buf count sd = bindk (onk (wait (isem (eth (snd sd)))) sd) (\<lambda>_. ethread_rest buf count)"

text \<open>\<^verbatim>\<open>ethcontrol\<close> copies the address of the device to the array \<^verbatim>\<open>arg1\<close>, given by what is stored there.\<close>

definition ethcontrol :: "int \<Rightarrow> (int list \<Rightarrow> net \<Rightarrow> net) \<Rightarrow> nstate \<Rightarrow> (nstate, int) step" where
  "ethcontrol func store sd =
    (if func = ETH_CTRL_GET_MAC then Return OK (upn (\<lambda>n. store (devAddress (eth n)) n) sd) else Return SYSERR sd)"

text \<open>
  The loops of the handler. Every round signals the semaphore, so they end when its count has reached
  the size of the ring; \<open>n\<close> is the number of rounds that takes.
\<close>

primrec tx_loop :: "nat \<Rightarrow> int \<Rightarrow> nstate \<Rightarrow> (nstate, unit) step" where
  "tx_loop 0 d sd = bindk (onk (semcount (osem (eth (snd sd)))) sd) (\<lambda>c sd.
     if c < txRingSize (eth (snd sd)) then Fault else Return () sd)"
| "tx_loop (Suc n) d sd = bindk (onk (semcount (osem (eth (snd sd)))) sd) (\<lambda>c sd.
     if c < txRingSize (eth (snd sd)) then
       if ldh (mm sd) (d + 14) AND ETH_AM335X_OWN \<noteq> 0 then
         Return () (if tx_hdp (csr (snd sd)) = 0 then upn (upcsr (\<lambda>c. c\<lparr>tx_hdp := d\<rparr>)) sd else sd)
       else
         let sd = upn (upcsr (\<lambda>c. c\<lparr>tx_cp := d\<rparr>)) sd;
             e = eth (snd sd);
             wrap = txHead e + 1 \<ge> txRingSize e;
             sd = upn (upeth (\<lambda>e. e\<lparr>txHead := (if wrap then 0 else txHead e + 1)\<rparr>)) sd
         in bindk (onk (signal (osem (eth (snd sd)))) sd) (\<lambda>_. tx_loop n (if wrap then txRing e else d + 16))
     else Return () sd)"

primrec rx_loop :: "nat \<Rightarrow> int \<Rightarrow> nstate \<Rightarrow> (nstate, unit) step" where
  "rx_loop 0 d sd = bindk (onk (semcount (isem (eth (snd sd)))) sd) (\<lambda>c sd.
     if c < rxRingSize (eth (snd sd)) then Fault else Return () sd)"
| "rx_loop (Suc n) d sd = bindk (onk (semcount (isem (eth (snd sd)))) sd) (\<lambda>c sd.
     if c < rxRingSize (eth (snd sd)) then
       if ldh (mm sd) (d + 14) AND ETH_AM335X_OWN \<noteq> 0 then
         Return () (if rx_hdp (csr (snd sd)) = 0 then upn (upcsr (\<lambda>c. c\<lparr>rx_hdp := d\<rparr>)) sd else sd)
       else
         let sd = upn (upcsr (\<lambda>c. c\<lparr>rx_cp := d\<rparr>)) sd;
             e = eth (snd sd);
             wrap = rxTail e + 1 \<ge> rxRingSize e;
             sd = upn (upeth (\<lambda>e. e\<lparr>rxTail := (if wrap then 0 else rxTail e + 1)\<rparr>)) sd
         in bindk (onk (signal (isem (eth (snd sd)))) sd) (\<lambda>_. rx_loop n (if wrap then rxRing e else d + 16))
     else Return () sd)"

definition rounds :: "int \<Rightarrow> int \<Rightarrow> nstate \<Rightarrow> nat" where
  "rounds sem ringsize sd = nat (ringsize - scount (semtab (fst sd) sem))"

definition ethhandler :: "int \<Rightarrow> nstate \<Rightarrow> (nstate, unit) step" where
  "ethhandler xnum sd =
    (let e = eth (snd sd) in
     if xnum = ETH_AM335X_TXINT then
       bindk (onk (resched_cntl DEFER_START) sd) (\<lambda>_ sd.
       bindk (tx_loop (rounds (osem e) (txRingSize e) sd) (txRing e + 16 * txHead e) sd) (\<lambda>_ sd.
       bindk (onk (resched_cntl DEFER_STOP) (upn (upcsr (\<lambda>c. c\<lparr>eoi_vector := 2\<rparr>)) sd)) (\<lambda>_. Return ())))
     else if xnum = ETH_AM335X_RXINT then
       bindk (onk (resched_cntl DEFER_START) sd) (\<lambda>_ sd.
       bindk (rx_loop (rounds (isem e) (rxRingSize e) sd) (rxRing e + 16 * rxTail e) sd) (\<lambda>_ sd.
       bindk (onk (resched_cntl DEFER_STOP) (upn (upcsr (\<lambda>c. c\<lparr>eoi_vector := 1\<rparr>)) sd)) (\<lambda>_. Return ())))
     else Return () sd)"

end
