(* ===== verification/Arp.thy ===== *)
theory Arp
  imports Ether
begin

text \<open>
  Address resolution, \<^verbatim>\<open>net/arp.c\<close>. The packet that \<^verbatim>\<open>arp_resolve\<close> and \<^verbatim>\<open>arp_in\<close> build is a local
  variable; its place on the stack is the argument \<open>apkt\<close>. \<^verbatim>\<open>write(ETHER0, ...)\<close> is the routine that
  the device switch table names for the device, \<^verbatim>\<open>ethwrite\<close>.
\<close>

section \<open>The code\<close>

text \<open>The search for a used entry with the address; the value is \<open>ARP_SIZ\<close> when there is none.\<close>

primrec arp_find :: "nat \<Rightarrow> int \<Rightarrow> int \<Rightarrow> net \<Rightarrow> int" where
  "arp_find 0 i addr n = i"
| "arp_find (Suc k) i addr n =
    (if arstate (arpcache n i) \<noteq> AR_FREE \<and> arpaddr (arpcache n i) = addr then i else arp_find k (i + 1) addr n)"

primrec arp_scan :: "nat \<Rightarrow> int \<Rightarrow> arstate_t \<Rightarrow> net \<Rightarrow> int" where
  "arp_scan 0 i st n = SYSERR"
| "arp_scan (Suc k) i st n = (if arstate (arpcache n i) = st then i else arp_scan k (i + 1) st n)"

definition arp_zero :: arpentry where
  "arp_zero = \<lparr>arstate = AR_FREE, arpaddr = 0, arpid = 0, arhaddr = [0, 0, 0, 0, 0, 0]\<rparr>"

definition arp_alloc :: "net \<Rightarrow> int \<times> net" where
  "arp_alloc n =
    (let slot = arp_scan (nat ARP_SIZ) 0 AR_FREE n in
     if slot \<noteq> SYSERR then (slot, uparp slot (\<lambda>_. arp_zero) n)
     else let slot = arp_scan (nat ARP_SIZ) 0 AR_RESOLVED n in
       if slot \<noteq> SYSERR then (slot, uparp slot (\<lambda>_. arp_zero) n) else (SYSERR, n))"

text \<open>\<^verbatim>\<open>arp_init\<close> starts with the second entry; the first is free initially.\<close>

primrec arp_init_loop :: "nat \<Rightarrow> int \<Rightarrow> net \<Rightarrow> net" where
  "arp_init_loop 0 i n = n"
| "arp_init_loop (Suc k) i n = arp_init_loop k (i + 1) (uparp i (\<lambda>e. e\<lparr>arstate := AR_FREE\<rparr>) n)"

definition arp_init :: "net \<Rightarrow> net" where
  "arp_init n = arp_init_loop (nat (ARP_SIZ - 1)) 1 n"

text \<open>The header fields that requests and replies have in common, and the rest of either.\<close>

definition arp_common :: "int \<Rightarrow> int list \<Rightarrow> int \<Rightarrow> net \<Rightarrow> memory \<Rightarrow> memory" where
  "arp_common apkt dst op n m =
    (let m = stbs dst (net_ethdst apkt) m;
         m = stbs (ethucast (NetData n)) (net_ethsrc apkt) m;
         m = sth (net_ethtype apkt) ETH_ARP m;
         m = sth (arp_htype apkt) ARP_HTYPE m;
         m = sth (arp_ptype apkt) ARP_PTYPE m;
         m = stb (arp_hlen apkt) ARP_HALEN m;
         m = stb (arp_plen apkt) ARP_PALEN m;
         m = sth (arp_op apkt) op m;
         m = stbs (ethucast (NetData n)) (arp_sndha apkt) m
     in stw (arp_sndpa apkt) (ipucast (NetData n)) m)"

definition arp_request :: "int \<Rightarrow> int \<Rightarrow> net \<Rightarrow> memory \<Rightarrow> memory" where
  "arp_request apkt nxthop n m =
    (let m = arp_common apkt (ethbcast (NetData n)) ARP_OP_REQ n m;
         m = fillb 6 (arp_tarha apkt) 0 m;
         m = stw (arp_tarpa apkt) nxthop m
     in eth_hton apkt (arp_hton apkt m))"

definition arp_reply :: "int \<Rightarrow> int \<Rightarrow> net \<Rightarrow> memory \<Rightarrow> memory" where
  "arp_reply apkt pktptr n m =
    (let ha = ldbs 6 m (arp_sndha pktptr); pa = ldw m (arp_sndpa pktptr);
         m = arp_common apkt ha ARP_OP_RPLY n m;
         m = stbs ha (arp_tarha apkt) m;
         m = stw (arp_tarpa apkt) pa m
     in eth_hton apkt (arp_hton apkt m))"

text \<open>Sending the request and waiting for the answer; the value is the last message.\<close>

primrec arp_retry :: "nat \<Rightarrow> int \<Rightarrow> int \<Rightarrow> nstate \<Rightarrow> (nstate, int) step" where
  "arp_retry 0 apkt msg sd = Return msg sd"
| "arp_retry (Suc k) apkt msg sd =
    bindk (ethwrite apkt arp_size sd) (\<lambda>_ sd.
    bindk (onk (recvtime ARP_TIMEOUT) sd) (\<lambda>msg sd.
      if i32 msg = TIMEOUT then arp_retry k apkt (i32 msg) sd else Return (i32 msg) sd))"

definition arp_answer :: "int \<Rightarrow> int \<Rightarrow> int \<Rightarrow> nstate \<Rightarrow> (nstate, int) step" where
  "arp_answer slot mac msg sd =
    (if msg = SYSERR then Return SYSERR sd
     else if msg = TIMEOUT then Return TIMEOUT (upn (uparp slot (\<lambda>e. e\<lparr>arstate := AR_FREE\<rparr>)) sd)
     else Return OK (wr (stbs (arhaddr (arpcache (snd sd) slot)) mac) sd))"

definition arp_ask :: "int \<Rightarrow> int \<Rightarrow> int \<Rightarrow> int \<Rightarrow> nstate \<Rightarrow> (nstate, int) step" where
  "arp_ask apkt nxthop slot mac sd =
    (let sd = upn (uparp slot (\<lambda>e. e\<lparr>arstate := AR_PENDING, arpaddr := nxthop, arpid := currpid (fst sd)\<rparr>)) sd;
         sd = wr (arp_request apkt nxthop (snd sd)) sd
     in bindk (onk recvclr sd) (\<lambda>msg sd.
        bindk (arp_retry ARP_RETRY apkt (i32 msg) sd) (arp_answer slot mac)))"

definition arp_resolve :: "int \<Rightarrow> int \<Rightarrow> int \<Rightarrow> nstate \<Rightarrow> (nstate, int) step" where
  "arp_resolve apkt nxthop mac sd =
    (if nxthop = IP_BCAST \<or> nxthop = ipbcast (NetData (snd sd))
     then Return OK (wr (stbs (ethbcast (NetData (snd sd))) mac) sd)
     else let i = arp_find (nat ARP_SIZ) 0 nxthop (snd sd) in
       if i < ARP_SIZ \<and> arstate (arpcache (snd sd) i) = AR_RESOLVED
       then Return OK (wr (stbs (arhaddr (arpcache (snd sd) i)) mac) sd)
       else if i < ARP_SIZ \<and> arstate (arpcache (snd sd) i) = AR_PENDING then Return SYSERR sd
       else case arp_alloc (snd sd) of (slot, n) \<Rightarrow>
         if slot = SYSERR then Return SYSERR (fst sd, n) else arp_ask apkt nxthop slot mac (fst sd, n))"

text \<open>
  \<^verbatim>\<open>arp_in\<close>. The entry of the sender is brought up to date first, and a process that waits for it is
  told; then a request for our address is answered.
\<close>

definition arp_update :: "int \<Rightarrow> int \<Rightarrow> nstate \<Rightarrow> (nstate, unit) step" where
  "arp_update pktptr slot sd =
    (if slot < ARP_SIZ then
       let ha = ldbs 6 (mm sd) (arp_sndha pktptr);
           sd = upn (uparp slot (\<lambda>e. e\<lparr>arhaddr := ha\<rparr>)) sd
       in if arstate (arpcache (snd sd) slot) = AR_PENDING then
            let sd = upn (uparp slot (\<lambda>e. e\<lparr>arstate := AR_RESOLVED\<rparr>)) sd
            in bindk (onk (send (arpid (arpcache (snd sd) slot)) OK) sd) (\<lambda>_. Return ())
          else Return () sd
     else Return () sd)"

definition arp_learn :: "int \<Rightarrow> nstate \<Rightarrow> int \<times> nstate" where
  "arp_learn pktptr sd =
    (case arp_alloc (snd sd) of (slot, n) \<Rightarrow>
      (slot, if slot = SYSERR then (fst sd, n)
       else (fst sd, uparp slot (\<lambda>e. e\<lparr>arpaddr := ldw (mm sd) (arp_sndpa pktptr),
              arhaddr := ldbs 6 (mm sd) (arp_sndha pktptr), arstate := AR_RESOLVED\<rparr>) n)))"

definition freepkt :: "int \<Rightarrow> nstate \<Rightarrow> (nstate, unit) step" where
  "freepkt pktptr sd = bindk (onk (freebuf pktptr) sd) (\<lambda>_. Return ())"

definition arp_respond :: "int \<Rightarrow> int \<Rightarrow> nstate \<Rightarrow> (nstate, unit) step" where
  "arp_respond apkt pktptr sd =
    bindk (ethwrite apkt arp_size (wr (arp_reply apkt pktptr (snd sd)) sd)) (\<lambda>_. freepkt pktptr)"

definition arp_in :: "int \<Rightarrow> int \<Rightarrow> nstate \<Rightarrow> (nstate, unit) step" where
  "arp_in apkt pktptr sd =
    (let sd = wr (arp_ntoh pktptr) sd in
     if ldh (mm sd) (arp_htype pktptr) \<noteq> ARP_HTYPE \<or> ldh (mm sd) (arp_ptype pktptr) \<noteq> ARP_PTYPE then freepkt pktptr sd
     else let slot = arp_find (nat ARP_SIZ) 0 (ldw (mm sd) (arp_sndpa pktptr)) (snd sd) in
       bindk (arp_update pktptr slot sd) (\<lambda>_ sd.
         if ldh (mm sd) (arp_op pktptr) = ARP_OP_RPLY then freepkt pktptr sd
         else if \<not> ipvalid (NetData (snd sd)) \<or> ldw (mm sd) (arp_tarpa pktptr) \<noteq> ipucast (NetData (snd sd))
         then freepkt pktptr sd
         else if slot < ARP_SIZ then arp_respond apkt pktptr sd
         else case arp_learn pktptr sd of (slot, sd) \<Rightarrow>
           if slot = SYSERR then freepkt pktptr sd else arp_respond apkt pktptr sd))"

end
