(* ===== verification/Net_Stack.thy ===== *)
theory Net_Stack
  imports Arp
begin

text \<open>
  The Internet protocols of \<^verbatim>\<open>net/udp.c\<close>, \<^verbatim>\<open>net/icmp.c\<close>, \<^verbatim>\<open>net/ip.c\<close> and \<^verbatim>\<open>net/net.c\<close>. A received packet
  goes from \<^verbatim>\<open>netin\<close> by its type to \<^verbatim>\<open>arp_in\<close> or \<^verbatim>\<open>ip_in\<close>, from there to \<^verbatim>\<open>udp_in\<close> or \<^verbatim>\<open>icmp_in\<close> and
  into the queue of an endpoint; a packet to be sent goes through \<^verbatim>\<open>ip_send\<close>, or through the queue of
  the process \<^verbatim>\<open>ipout\<close>, to \<^verbatim>\<open>ip_out\<close> and the Ethernet driver. Packets are network buffers, and whoever
  takes one from a queue gives it back. The index of a queue outside its array is undefined.
\<close>

section \<open>UDP\<close>

primrec udp_init_loop :: "nat \<Rightarrow> int \<Rightarrow> net \<Rightarrow> net" where
  "udp_init_loop 0 i n = n"
| "udp_init_loop (Suc k) i n = udp_init_loop k (i + 1) (upudp i (\<lambda>e. e\<lparr>udstate := UDP_FREE\<rparr>) n)"

definition udp_init :: "net \<Rightarrow> net" where
  "udp_init n = udp_init_loop (nat UDP_SLOTS) 0 n"

definition udp_match :: "memory \<Rightarrow> int \<Rightarrow> udpentry \<Rightarrow> bool" where
  "udp_match m pkt e \<longleftrightarrow> udstate e \<noteq> UDP_FREE \<and> ldh m (net_udpdport pkt) = udlocport e \<and>
     (udremport e = 0 \<or> ldh m (net_udpsport pkt) = udremport e) \<and>
     (udremip e = 0 \<or> ldw m (net_ipsrc pkt) = udremip e)"

text \<open>Entering a packet in the queue of an endpoint.\<close>

definition udp_put :: "int \<Rightarrow> udpentry \<Rightarrow> udpentry option" where
  "udp_put pkt e =
    (if udtail e < 0 \<or> udtail e \<ge> UDP_QSIZ then None
     else Some (e\<lparr>udtail := (if udtail e + 1 \<ge> UDP_QSIZ then 0 else udtail e + 1), udcount := udcount e + 1,
                  udqueue := (udqueue e)(udtail e := pkt)\<rparr>))"

definition udp_accept :: "int \<Rightarrow> int \<Rightarrow> nstate \<Rightarrow> (nstate, unit) step" where
  "udp_accept i pkt sd =
    (case udp_put pkt (udptab (snd sd) i) of
       None \<Rightarrow> Fault
     | Some e \<Rightarrow>
       if udstate e = UDP_RECV
       then bindk (onk (send (udpid e) OK) (upn (upudp i (\<lambda>_. e\<lparr>udstate := UDP_USED\<rparr>)) sd)) (\<lambda>_. Return ())
       else Return () (upn (upudp i (\<lambda>_. e)) sd))"

primrec udp_in_loop :: "nat \<Rightarrow> int \<Rightarrow> int \<Rightarrow> nstate \<Rightarrow> (nstate, unit) step" where
  "udp_in_loop 0 i pkt sd = freepkt pkt sd"
| "udp_in_loop (Suc k) i pkt sd =
    (if udp_match (mm sd) pkt (udptab (snd sd) i) \<and> udcount (udptab (snd sd) i) < UDP_QSIZ
     then udp_accept i pkt sd else udp_in_loop k (i + 1) pkt sd)"

definition udp_in :: "int \<Rightarrow> nstate \<Rightarrow> (nstate, unit) step" where
  "udp_in pkt sd = udp_in_loop (nat UDP_SLOTS) 0 pkt sd"

primrec udp_registered :: "nat \<Rightarrow> int \<Rightarrow> int \<Rightarrow> int \<Rightarrow> int \<Rightarrow> net \<Rightarrow> bool" where
  "udp_registered 0 i remip remport locport n = False"
| "udp_registered (Suc k) i remip remport locport n =
    (udstate (udptab n i) \<noteq> UDP_FREE \<and> remport = udremport (udptab n i) \<and> locport = udlocport (udptab n i) \<and>
       remip = udremip (udptab n i) \<or>
     udp_registered k (i + 1) remip remport locport n)"

primrec udp_free :: "nat \<Rightarrow> int \<Rightarrow> net \<Rightarrow> int" where
  "udp_free 0 i n = SYSERR"
| "udp_free (Suc k) i n = (if udstate (udptab n i) = UDP_FREE then i else udp_free k (i + 1) n)"

definition udp_register :: "int \<Rightarrow> int \<Rightarrow> int \<Rightarrow> net \<Rightarrow> int \<times> net" where
  "udp_register remip remport locport n =
    (if udp_registered (nat UDP_SLOTS) 0 remip remport locport n then (SYSERR, n)
     else let slot = udp_free (nat UDP_SLOTS) 0 n in
       if slot = SYSERR then (SYSERR, n)
       else (slot, upudp slot (\<lambda>e. e\<lparr>udstate := UDP_USED, udremip := remip, udremport := remport, udlocport := locport,
              udhead := 0, udtail := 0, udcount := 0, udpid := -1\<rparr>) n))"

text \<open>Taking the packet at the head of the queue.\<close>

definition udp_get :: "udpentry \<Rightarrow> (int \<times> udpentry) option" where
  "udp_get e =
    (if udhead e < 0 \<or> udhead e \<ge> UDP_QSIZ then None
     else Some (udqueue e (udhead e), e\<lparr>udhead := (if udhead e + 1 \<ge> UDP_QSIZ then 0 else udhead e + 1), udcount := udcount e - 1\<rparr>))"

text \<open>The length of the data that goes to the caller, copied by the loop of \<^verbatim>\<open>udp_recv\<close>.\<close>

definition udp_msglen :: "memory \<Rightarrow> int \<Rightarrow> int \<Rightarrow> int" where
  "udp_msglen m pkt len = (let msglen = ldh m (net_udplen pkt) - UDP_HDR_LEN in if len < msglen then len else msglen)"

definition udp_deliver :: "int \<Rightarrow> int \<Rightarrow> int \<Rightarrow> nstate \<Rightarrow> (nstate, int) step" where
  "udp_deliver pkt buff len sd =
    (let msglen = udp_msglen (mm sd) pkt len;
         sd = wr (copyb (nat msglen) buff (net_udpdata pkt)) sd
     in bindk (freepkt pkt sd) (\<lambda>_. Return msglen))"

definition udp_take :: "int \<Rightarrow> int \<Rightarrow> int \<Rightarrow> nstate \<Rightarrow> (nstate, int) step" where
  "udp_take slot buff len sd =
    (case udp_get (udptab (snd sd) slot) of
       None \<Rightarrow> Fault
     | Some (pkt, e) \<Rightarrow> udp_deliver pkt buff len (upn (upudp slot (\<lambda>_. e)) sd))"

text \<open>Waiting for a packet when there is none; the rest of the call is \<open>k\<close>.\<close>

definition udp_await :: "int \<Rightarrow> int \<Rightarrow> (nstate \<Rightarrow> (nstate, int) step) \<Rightarrow> nstate \<Rightarrow> (nstate, int) step" where
  "udp_await slot timeout k sd =
    (if udcount (udptab (snd sd) slot) = 0 then
       let sd = upn (upudp slot (\<lambda>e. e\<lparr>udstate := UDP_RECV, udpid := currpid (fst sd)\<rparr>)) sd
       in bindk (onk recvclr sd) (\<lambda>_ sd.
          bindk (onk (recvtime (i32 timeout)) sd) (\<lambda>msg sd.
            let sd = upn (upudp slot (\<lambda>e. e\<lparr>udstate := UDP_USED\<rparr>)) sd in
            if msg = u32 TIMEOUT then Return TIMEOUT sd
            else if msg \<noteq> OK then Return SYSERR sd
            else k sd))
     else k sd)"

definition udp_recv :: "int \<Rightarrow> int \<Rightarrow> int \<Rightarrow> int \<Rightarrow> nstate \<Rightarrow> (nstate, int) step" where
  "udp_recv slot buff len timeout sd =
    (if slot < 0 \<or> slot \<ge> UDP_SLOTS \<or> udstate (udptab (snd sd) slot) \<noteq> UDP_USED then Return SYSERR sd
     else udp_await slot (i32 timeout) (udp_take slot buff len) sd)"

text \<open>\<^verbatim>\<open>udp_recvaddr\<close> also stores the sender's address at \<^verbatim>\<open>remip\<close> and its port at \<^verbatim>\<open>remport\<close>.\<close>

definition udp_takeaddr :: "int \<Rightarrow> int \<Rightarrow> int \<Rightarrow> int \<Rightarrow> int \<Rightarrow> nstate \<Rightarrow> (nstate, int) step" where
  "udp_takeaddr slot remip remport buff len sd =
    (case udp_get (udptab (snd sd) slot) of
       None \<Rightarrow> Fault
     | Some (pkt, e) \<Rightarrow>
       let sd = upn (upudp slot (\<lambda>_. e)) sd;
           sd = wr (\<lambda>m. stw remip (ldw m (net_ipsrc pkt)) m) sd;
           sd = wr (\<lambda>m. sth remport (ldh m (net_udpsport pkt)) m) sd
       in udp_deliver pkt buff len sd)"

definition udp_recvaddr :: "int \<Rightarrow> int \<Rightarrow> int \<Rightarrow> int \<Rightarrow> int \<Rightarrow> int \<Rightarrow> nstate \<Rightarrow> (nstate, int) step" where
  "udp_recvaddr slot remip remport buff len timeout sd =
    (if slot < 0 \<or> slot \<ge> UDP_SLOTS \<or> udstate (udptab (snd sd) slot) \<noteq> UDP_USED then Return SYSERR sd
     else udp_await slot (i32 timeout) (udp_takeaddr slot remip remport buff len) sd)"

text \<open>\<^verbatim>\<open>udp_release\<close> frees the packets that nobody has read; every round takes one.\<close>

primrec udp_drain :: "nat \<Rightarrow> int \<Rightarrow> nstate \<Rightarrow> (nstate, unit) step" where
  "udp_drain 0 slot sd = Return () sd"
| "udp_drain (Suc k) slot sd =
    (case udp_get (udptab (snd sd) slot) of
       None \<Rightarrow> Fault
     | Some (pkt, e) \<Rightarrow> bindk (freepkt pkt (upn (upudp slot (\<lambda>d. e\<lparr>udcount := udcount d\<rparr>)) sd)) (\<lambda>_ sd.
         udp_drain k slot (upn (upudp slot (\<lambda>e. e\<lparr>udcount := udcount e - 1\<rparr>)) sd)))"

definition udp_release :: "int \<Rightarrow> nstate \<Rightarrow> (nstate, int) step" where
  "udp_release slot sd =
    (if slot < 0 \<or> slot \<ge> UDP_SLOTS \<or> udstate (udptab (snd sd) slot) = UDP_FREE then Return SYSERR sd
     else bindk (onk (resched_cntl DEFER_START) sd) (\<lambda>_ sd.
       bindk (udp_drain (nat (udcount (udptab (snd sd) slot))) slot sd) (\<lambda>_ sd.
       let sd = upn (upudp slot (\<lambda>e. e\<lparr>udstate := UDP_FREE\<rparr>)) sd
       in bindk (onk (resched_cntl DEFER_STOP) sd) (\<lambda>_. Return OK))))"

section \<open>ICMP\<close>

primrec icmp_init_loop :: "nat \<Rightarrow> int \<Rightarrow> net \<Rightarrow> net" where
  "icmp_init_loop 0 i n = n"
| "icmp_init_loop (Suc k) i n = icmp_init_loop k (i + 1) (upicmp i (\<lambda>e. e\<lparr>icstate := ICMP_FREE\<rparr>) n)"

definition icmp_init :: "net \<Rightarrow> net" where
  "icmp_init n = icmp_init_loop (nat ICMP_SLOTS) 0 n"

text \<open>The fields of the Ethernet and IP headers that UDP and ICMP packets have in common.\<close>

definition mk_header :: "int \<Rightarrow> int \<Rightarrow> int \<Rightarrow> int \<Rightarrow> int \<Rightarrow> net \<Rightarrow> memory \<Rightarrow> memory" where
  "mk_header pkt iplen ipid proto remip n m =
    (let m = stbs (ethucast (NetData n)) (net_ethsrc pkt) m;
         m = sth (net_ethtype pkt) 0x0800 m;
         m = stb (net_ipvh pkt) 0x45 m;
         m = stb (net_iptos pkt) 0 m;
         m = sth (net_iplen pkt) iplen m;
         m = sth (net_ipid pkt) ipid m;
         m = sth (net_ipfrag pkt) 0 m;
         m = stb (net_ipttl pkt) 0xff m;
         m = stb (net_ipproto pkt) proto m;
         m = sth (net_ipcksum pkt) 0 m;
         m = stw (net_ipsrc pkt) (ipucast (NetData n)) m
     in stw (net_ipdst pkt) remip m)"

definition icmp_fill :: "int \<Rightarrow> int \<Rightarrow> int \<Rightarrow> int \<Rightarrow> int \<Rightarrow> int \<Rightarrow> int \<Rightarrow> net \<Rightarrow> memory \<Rightarrow> memory" where
  "icmp_fill pkt remip type ident seq buf len n m =
    (let m = mk_header pkt (IP_HDR_LEN + ICMP_HDR_LEN + len) (ipident n) IP_ICMP remip n m;
         m = stb (net_ictype pkt) type m;
         m = stb (net_iccode pkt) 0 m;
         m = sth (net_iccksum pkt) 0 m;
         m = sth (net_icident pkt) ident m;
         m = sth (net_icseq pkt) seq m
     in copyb (nat len) (net_icdata pkt) buf m)"

definition icmp_mkpkt :: "int \<Rightarrow> int \<Rightarrow> int \<Rightarrow> int \<Rightarrow> int \<Rightarrow> int \<Rightarrow> nstate \<Rightarrow> (nstate, int) step" where
  "icmp_mkpkt remip type ident seq buf len sd =
    bindk (onk (getbuf (netbufpool (snd sd))) sd) (\<lambda>pkt sd.
      if i32 pkt = SYSERR then Fault
      else Return pkt (upn (\<lambda>n. n\<lparr>ipident := u32 (ipident n + 1)\<rparr>)
             (wr (icmp_fill pkt remip type ident seq buf len (snd sd)) sd)))"

text \<open>The output queue of IP.\<close>

definition ip_put :: "int \<Rightarrow> iqentry \<Rightarrow> iqentry option" where
  "ip_put pkt q =
    (if iqtail q < 0 \<or> iqtail q \<ge> IP_OQSIZ then None
     else Some (q\<lparr>iqtail := (if iqtail q + 1 \<ge> IP_OQSIZ then 0 else iqtail q + 1), iqbuf := (iqbuf q)(iqtail q := pkt)\<rparr>))"

definition ip_enqueue :: "int \<Rightarrow> nstate \<Rightarrow> (nstate, int) step" where
  "ip_enqueue pktptr sd =
    bindk (onk (semcount (iqsem (ipoqueue (snd sd)))) sd) (\<lambda>c sd.
      if c \<ge> IP_OQSIZ then bindk (freepkt pktptr sd) (\<lambda>_. Return SYSERR)
      else case ip_put pktptr (ipoqueue (snd sd)) of
        None \<Rightarrow> Fault
      | Some q \<Rightarrow> bindk (onk (signal (iqsem q)) (upn (\<lambda>n. n\<lparr>ipoqueue := q\<rparr>) sd)) (\<lambda>_. Return OK))"

text \<open>
  A reply is queued whether or not the queue of the endpoint is full: \<^verbatim>\<open>icmp_in\<close> has no test like the
  one of \<^verbatim>\<open>udp_in\<close>.
\<close>

definition icmp_put :: "int \<Rightarrow> icmpentry \<Rightarrow> icmpentry option" where
  "icmp_put pkt e =
    (if ictail e < 0 \<or> ictail e \<ge> ICMP_QSIZ then None
     else Some (e\<lparr>ictail := (if ictail e + 1 \<ge> ICMP_QSIZ then 0 else ictail e + 1), iccount := i32 (iccount e + 1),
                  icqueue := (icqueue e)(ictail e := pkt)\<rparr>))"

definition icmp_accept :: "int \<Rightarrow> int \<Rightarrow> nstate \<Rightarrow> (nstate, unit) step" where
  "icmp_accept slot pkt sd =
    (case icmp_put pkt (icmptab (snd sd) slot) of
       None \<Rightarrow> Fault
     | Some e \<Rightarrow>
       if icstate e = ICMP_RECV
       then bindk (onk (send (icpid e) OK) (upn (upicmp slot (\<lambda>_. e\<lparr>icstate := ICMP_USED\<rparr>)) sd)) (\<lambda>_. Return ())
       else Return () (upn (upicmp slot (\<lambda>_. e)) sd))"

definition icmp_echo :: "int \<Rightarrow> nstate \<Rightarrow> (nstate, unit) step" where
  "icmp_echo pkt sd =
    bindk (icmp_mkpkt (ldw (mm sd) (net_ipsrc pkt)) ICMP_ECHOREPLY (ldh (mm sd) (net_icident pkt))
        (ldh (mm sd) (net_icseq pkt)) (net_icdata pkt) (ldh (mm sd) (net_iplen pkt) - IP_HDR_LEN - ICMP_HDR_LEN) sd)
      (\<lambda>replypkt sd. bindk (ip_enqueue replypkt sd) (\<lambda>_. freepkt pkt))"

definition icmp_in :: "int \<Rightarrow> nstate \<Rightarrow> (nstate, unit) step" where
  "icmp_in pkt sd =
    (let type = ldb (mm sd) (net_ictype pkt) in
     if type \<noteq> ICMP_ECHOREPLY \<and> type \<noteq> ICMP_ECHOREQST then freepkt pkt sd
     else if type = ICMP_ECHOREQST then icmp_echo pkt sd
     else let slot = ldh (mm sd) (net_icident pkt) in
       if slot < 0 \<or> slot \<ge> ICMP_SLOTS then freepkt pkt sd
       else if icstate (icmptab (snd sd) slot) = ICMP_FREE \<or>
               ldw (mm sd) (net_ipsrc pkt) \<noteq> icremip (icmptab (snd sd) slot) then freepkt pkt sd
       else icmp_accept slot pkt sd)"

text \<open>The search of \<^verbatim>\<open>icmp_register\<close>; \<open>None\<close> when the address is registered already.\<close>

primrec icmp_scan :: "nat \<Rightarrow> int \<Rightarrow> int \<Rightarrow> int \<Rightarrow> net \<Rightarrow> int option" where
  "icmp_scan 0 i freeslot remip n = Some freeslot"
| "icmp_scan (Suc k) i freeslot remip n =
    (if icstate (icmptab n i) = ICMP_FREE
     then icmp_scan k (i + 1) (if freeslot = -1 then i else freeslot) remip n
     else if icremip (icmptab n i) = remip then None
     else icmp_scan k (i + 1) freeslot remip n)"

definition icmp_register :: "int \<Rightarrow> net \<Rightarrow> int \<times> net" where
  "icmp_register remip n =
    (case icmp_scan (nat ICMP_SLOTS) 0 (-1) remip n of
       None \<Rightarrow> (SYSERR, n)
     | Some slot \<Rightarrow>
       if slot = -1 then (SYSERR, n)
       else (slot, upicmp slot (\<lambda>e. e\<lparr>icstate := ICMP_USED, icremip := remip, ichead := 0, ictail := 0,
               iccount := 0, icpid := -1\<rparr>) n))"

text \<open>The head is wrapped at \<open>ICMP_SLOTS\<close>, which is more than the size of the queue.\<close>

definition icmp_get :: "icmpentry \<Rightarrow> (int \<times> icmpentry) option" where
  "icmp_get e =
    (if ichead e < 0 \<or> ichead e \<ge> ICMP_QSIZ then None
     else Some (icqueue e (ichead e),
       e\<lparr>ichead := (if ichead e + 1 \<ge> ICMP_SLOTS then 0 else ichead e + 1), iccount := iccount e - 1\<rparr>))"

definition icmp_take :: "int \<Rightarrow> int \<Rightarrow> int \<Rightarrow> nstate \<Rightarrow> (nstate, int) step" where
  "icmp_take icmpid buff len sd =
    (case icmp_get (icmptab (snd sd) icmpid) of
       None \<Rightarrow> Fault
     | Some (pkt, e) \<Rightarrow>
       let sd = upn (upicmp icmpid (\<lambda>_. e)) sd;
           datalen = ldh (mm sd) (net_iplen pkt) - IP_HDR_LEN - ICMP_HDR_LEN;
           i = max 0 (min datalen len);
           sd = wr (copyb (nat i) buff (net_icdata pkt)) sd
       in bindk (freepkt pkt sd) (\<lambda>_. Return i))"

definition icmp_recv :: "int \<Rightarrow> int \<Rightarrow> int \<Rightarrow> int \<Rightarrow> nstate \<Rightarrow> (nstate, int) step" where
  "icmp_recv icmpid buff len timeout sd =
    (if icmpid < 0 \<or> icmpid \<ge> ICMP_SLOTS \<or> icstate (icmptab (snd sd) icmpid) \<noteq> ICMP_USED then Return SYSERR sd
     else if iccount (icmptab (snd sd) icmpid) = 0 then
       let sd = upn (upicmp icmpid (\<lambda>e. e\<lparr>icstate := ICMP_RECV, icpid := currpid (fst sd)\<rparr>)) sd
       in bindk (onk recvclr sd) (\<lambda>_ sd.
          bindk (onk (recvtime (i32 timeout)) sd) (\<lambda>msg sd.
            let sd = upn (upicmp icmpid (\<lambda>e. e\<lparr>icstate := ICMP_USED\<rparr>)) sd in
            if msg = u32 TIMEOUT then Return TIMEOUT sd
            else if msg \<noteq> OK then Return SYSERR sd
            else icmp_take icmpid buff len sd))
     else icmp_take icmpid buff len sd)"

primrec icmp_drain :: "nat \<Rightarrow> int \<Rightarrow> nstate \<Rightarrow> (nstate, unit) step" where
  "icmp_drain 0 slot sd = Return () sd"
| "icmp_drain (Suc k) slot sd =
    (case icmp_get (icmptab (snd sd) slot) of
       None \<Rightarrow> Fault
     | Some (pkt, e) \<Rightarrow> bindk (freepkt pkt (upn (upicmp slot (\<lambda>d. e\<lparr>iccount := iccount d\<rparr>)) sd)) (\<lambda>_ sd.
         icmp_drain k slot (upn (upicmp slot (\<lambda>e. e\<lparr>iccount := iccount e - 1\<rparr>)) sd)))"

definition icmp_release :: "int \<Rightarrow> nstate \<Rightarrow> (nstate, int) step" where
  "icmp_release icmpid sd =
    (if icmpid < 0 \<or> icmpid \<ge> ICMP_SLOTS \<or> icstate (icmptab (snd sd) icmpid) \<noteq> ICMP_USED then Return SYSERR sd
     else bindk (onk (resched_cntl DEFER_START) sd) (\<lambda>_ sd.
       bindk (icmp_drain (nat (iccount (icmptab (snd sd) icmpid))) icmpid sd) (\<lambda>_ sd.
       let sd = upn (upicmp icmpid (\<lambda>e. e\<lparr>icstate := ICMP_FREE\<rparr>)) sd
       in bindk (onk (resched_cntl DEFER_STOP) sd) (\<lambda>_. Return OK))))"

section \<open>IP\<close>

definition ip_local :: "int \<Rightarrow> nstate \<Rightarrow> (nstate, unit) step" where
  "ip_local pktptr sd =
    (if ldb (mm sd) (net_ipproto pktptr) = IP_UDP then udp_in pktptr sd
     else if ldb (mm sd) (net_ipproto pktptr) = IP_ICMP then icmp_in pktptr sd
     else freepkt pktptr sd)"

text \<open>The end of \<^verbatim>\<open>ip_in\<close>: is the packet for us?\<close>

definition ip_filter :: "int \<Rightarrow> nstate \<Rightarrow> (nstate, unit) step" where
  "ip_filter pktptr sd =
    (let dst = ldw (mm sd) (net_ipdst pktptr); nd = NetData (snd sd) in
     if dst = IP_BCAST then ip_local pktptr sd
     else if \<not> ipvalid nd then
       (if ldb (mm sd) (net_ipproto pktptr) = IP_UDP then ip_local pktptr sd else freepkt pktptr sd)
     else if dst = ipucast nd \<or> dst = ipbcast nd \<or> dst = IP_BCAST then ip_local pktptr sd
     else freepkt pktptr sd)"

definition ip_in :: "int \<Rightarrow> nstate \<Rightarrow> (nstate, unit) step" where
  "ip_in pktptr sd =
    (if ipcksum (mm sd) pktptr \<noteq> 0 then freepkt pktptr sd
     else let sd = wr (ip_ntoh pktptr) sd in
       if ldb (mm sd) (net_ipvh pktptr) \<noteq> 0x45 then freepkt pktptr sd
       else if ldb (mm sd) (net_ipproto pktptr) = IP_UDP then ip_filter pktptr (wr (udp_ntoh pktptr) sd)
       else if ldb (mm sd) (net_ipproto pktptr) = IP_ICMP then
         let icmplen = ldh (mm sd) (net_iplen pktptr) - IP_HDR_LEN in
         if icmp_cksum (mm sd) (net_ictype pktptr) icmplen \<noteq> 0 then freepkt pktptr sd
         else ip_filter pktptr (wr (icmp_ntoh pktptr) sd)
       else ip_filter pktptr sd)"

text \<open>What \<^verbatim>\<open>ip_out\<close> does to the packet before it goes to the driver.\<close>

definition ip_finish :: "int \<Rightarrow> memory \<Rightarrow> memory" where
  "ip_finish pktptr m =
    (let m = (if ldb m (net_ipproto pktptr) = IP_UDP then udp_hton pktptr (sth (net_udpcksum pktptr) 0 m)
              else if ldb m (net_ipproto pktptr) = IP_ICMP then
                let m = icmp_hton pktptr m;
                    m = sth (net_iccksum pktptr) 0 m;
                    len = ldh m (net_iplen pktptr) - IP_HDR_LEN
                in sth (net_iccksum pktptr) (htons (icmp_cksum m (net_ictype pktptr) len)) m
              else m);
         m = ip_hton pktptr m;
         m = sth (net_ipcksum pktptr) 0 m;
         m = sth (net_ipcksum pktptr) (htons (ipcksum m pktptr)) m
     in eth_hton pktptr m)"

definition ip_out :: "int \<Rightarrow> nstate \<Rightarrow> (nstate, int) step" where
  "ip_out pktptr sd =
    (let pktlen = ldh (mm sd) (net_iplen pktptr) + ETH_HDR_LEN in
     bindk (ethwrite pktptr (u32 pktlen) (wr (ip_finish pktptr) sd)) (\<lambda>retval sd.
     bindk (freepkt pktptr sd) (\<lambda>_. Return (if retval = SYSERR then SYSERR else OK))))"

text \<open>
  The next hop to a destination: the destination itself on the local network, else the router.
\<close>

definition next_hop :: "network \<Rightarrow> int \<Rightarrow> int" where
  "next_hop nd dest = (if dest AND ipmask nd = ipprefix nd then dest else iprouter nd)"

text \<open>Resolving the next hop, common to \<^verbatim>\<open>ip_send\<close> and \<^verbatim>\<open>ipout\<close>.\<close>

definition ip_forward :: "int \<Rightarrow> int \<Rightarrow> int \<Rightarrow> nstate \<Rightarrow> (nstate, int) step" where
  "ip_forward apkt pktptr dest sd =
    (let nxthop = next_hop (NetData (snd sd)) dest in
     if nxthop = 0 then bindk (freepkt pktptr sd) (\<lambda>_. Return SYSERR)
     else bindk (arp_resolve apkt nxthop (net_ethdst pktptr) sd) (\<lambda>retval sd.
       if retval \<noteq> OK then bindk (freepkt pktptr sd) (\<lambda>_. Return SYSERR) else ip_out pktptr sd))"

definition ip_send :: "int \<Rightarrow> int \<Rightarrow> nstate \<Rightarrow> (nstate, int) step" where
  "ip_send apkt pktptr sd =
    (let dest = ldw (mm sd) (net_ipdst pktptr); nd = NetData (snd sd) in
     if dest AND 0xff000000 = 0x7f000000 then bindk (ip_local pktptr sd) (\<lambda>_. Return OK)
     else if dest = ipucast nd then bindk (ip_local pktptr sd) (\<lambda>_. Return OK)
     else if dest = IP_BCAST \<or> dest = ipbcast nd then ip_out pktptr (wr (stbs (ethbcast nd) (net_ethdst pktptr)) sd)
     else ip_forward apkt pktptr dest sd)"

text \<open>The process \<^verbatim>\<open>ipout\<close>: one round of its loop.\<close>

definition ip_get :: "iqentry \<Rightarrow> (int \<times> iqentry) option" where
  "ip_get q =
    (if iqhead q < 0 \<or> iqhead q \<ge> IP_OQSIZ then None
     else Some (iqbuf q (iqhead q), q\<lparr>iqhead := (if iqhead q + 1 \<ge> IP_OQSIZ then 0 else iqhead q + 1)\<rparr>))"

definition ipout_packet :: "int \<Rightarrow> int \<Rightarrow> nstate \<Rightarrow> (nstate, unit) step" where
  "ipout_packet apkt pktptr sd =
    (let sd = wr (stbs (ethucast (NetData (snd sd))) (net_ethsrc pktptr)) sd;
         destip = ldw (mm sd) (net_ipdst pktptr); nd = NetData (snd sd) in
     if destip = IP_BCAST \<or> destip = ipbcast nd then freepkt pktptr sd
     else if destip = ipucast nd then ip_local pktptr sd
     else bindk (ip_forward apkt pktptr destip sd) (\<lambda>_. Return ()))"

definition ipout_round :: "int \<Rightarrow> nstate \<Rightarrow> (nstate, unit) step" where
  "ipout_round apkt sd =
    bindk (onk (wait (iqsem (ipoqueue (snd sd)))) sd) (\<lambda>_ sd.
      case ip_get (ipoqueue (snd sd)) of
        None \<Rightarrow> Fault
      | Some (pktptr, q) \<Rightarrow> ipout_packet apkt pktptr (upn (\<lambda>n. n\<lparr>ipoqueue := q\<rparr>) sd))"

section \<open>Sending datagrams\<close>

definition icmp_send :: "int \<Rightarrow> int \<Rightarrow> int \<Rightarrow> int \<Rightarrow> int \<Rightarrow> int \<Rightarrow> int \<Rightarrow> nstate \<Rightarrow> (nstate, int) step" where
  "icmp_send apkt remip type ident seq buf len sd =
    bindk (icmp_mkpkt remip type ident seq buf len sd) (ip_send apkt)"

definition udp_fill :: "int \<Rightarrow> int \<Rightarrow> int \<Rightarrow> int \<Rightarrow> int \<Rightarrow> int \<Rightarrow> int \<Rightarrow> net \<Rightarrow> memory \<Rightarrow> memory" where
  "udp_fill pkt ident remip remport locport buff len n m =
    (let pktlen = 42 + len;
         m = mk_header pkt (pktlen - ETH_HDR_LEN) ident IP_UDP remip n m;
         m = sth (net_udpsport pkt) locport m;
         m = sth (net_udpdport pkt) remport m;
         m = sth (net_udplen pkt) (UDP_HDR_LEN + len) m;
         m = sth (net_udpcksum pkt) 0 m
     in copyb (nat len) (net_udpdata pkt) buff m)"

definition udp_send :: "int \<Rightarrow> int \<Rightarrow> int \<Rightarrow> int \<Rightarrow> nstate \<Rightarrow> (nstate, int) step" where
  "udp_send apkt slot buff len sd =
    (if slot < 0 \<or> slot \<ge> UDP_SLOTS \<or> udstate (udptab (snd sd) slot) = UDP_FREE \<or> udremip (udptab (snd sd) slot) = 0
     then Return SYSERR sd
     else let remip = udremip (udptab (snd sd) slot); remport = udremport (udptab (snd sd) slot);
              locport = udlocport (udptab (snd sd) slot) in
       bindk (onk (getbuf (netbufpool (snd sd))) sd) (\<lambda>pkt sd.
         if i32 pkt = SYSERR then Return SYSERR sd
         else let sd = wr (udp_fill pkt (ident_send (snd sd)) remip remport locport buff len (snd sd)) sd;
                  sd = upn (\<lambda>n. n\<lparr>ident_send := u16 (ident_send n + 1)\<rparr>) sd
              in bindk (ip_send apkt pkt sd) (\<lambda>_. Return OK)))"

definition udp_sendto :: "int \<Rightarrow> int \<Rightarrow> int \<Rightarrow> int \<Rightarrow> int \<Rightarrow> int \<Rightarrow> nstate \<Rightarrow> (nstate, int) step" where
  "udp_sendto apkt slot remip remport buff len sd =
    (if slot < 0 \<or> slot \<ge> UDP_SLOTS \<or> udstate (udptab (snd sd) slot) = UDP_FREE then Return SYSERR sd
     else bindk (onk (getbuf (netbufpool (snd sd))) sd) (\<lambda>pkt sd.
       if i32 pkt = SYSERR then Return SYSERR sd
       else let locport = udlocport (udptab (snd sd) slot);
                sd = wr (udp_fill pkt (ident_sendto (snd sd)) remip remport locport buff len (snd sd)) sd;
                sd = upn (\<lambda>n. n\<lparr>ident_sendto := u16 (ident_sendto n + 1)\<rparr>) sd
            in bindk (ip_send apkt pkt sd) (\<lambda>_. Return OK)))"

section \<open>The input process and the start of the network\<close>

text \<open>One round of the loop of \<^verbatim>\<open>netin\<close>.\<close>

definition netin_packet :: "int \<Rightarrow> int \<Rightarrow> nstate \<Rightarrow> (nstate, unit) step" where
  "netin_packet apkt pkt sd =
    (let sd = wr (eth_ntoh pkt) sd; type = ldh (mm sd) (net_ethtype pkt) in
     if type = ETH_ARP then arp_in apkt pkt sd
     else if type = ETH_IP then ip_in pkt sd
     else freepkt pkt sd)"

definition netin_round :: "int \<Rightarrow> nstate \<Rightarrow> (nstate, unit) step" where
  "netin_round apkt sd =
    bindk (onk (getbuf (netbufpool (snd sd))) sd) (\<lambda>pkt sd.
    bindk (ethread pkt PACKLEN sd) (\<lambda>retval sd.
      if retval = SYSERR then Fault else netin_packet apkt pkt sd))"

definition net_zero :: network where
  "net_zero = \<lparr>ipucast = 0, ipbcast = 0, ipmask = 0, ipprefix = 0, iprouter = 0, bootserver = 0, dnsserver = 0,
     ntpserver = 0, ipvalid = False, ethucast = replicate 6 0, ethbcast = replicate 6 0\<rparr>"

definition NETSTK :: int where [simp]: "NETSTK = 8192"
definition NETPRIO :: int where [simp]: "NETPRIO = 500"

text \<open>
  \<^verbatim>\<open>net_init\<close>. The arguments are the value of the cycle counter, the address to which a process
  returns, and the addresses of the code of \<^verbatim>\<open>ipout\<close> and \<^verbatim>\<open>netin\<close>.
\<close>

definition net_tables :: "int \<Rightarrow> nstate \<Rightarrow> (nstate, int) step" where
  "net_tables ticks sd =
    (let sd = upn (\<lambda>n. n\<lparr>NetData := net_zero\<rparr>) sd in
     bindk (ethcontrol ETH_CTRL_GET_MAC (\<lambda>a n. n\<lparr>NetData := NetData n\<lparr>ethucast := a\<rparr>\<rparr>) sd) (\<lambda>_ sd.
     let sd = upn (\<lambda>n. n\<lparr>NetData := NetData n\<lparr>ethbcast := replicate 6 0xff\<rparr>\<rparr>) sd;
         sd = upn (\<lambda>n. n\<lparr>netportseed := ticks\<rparr>) sd
     in bindk (onk (mkbufpool PACKLEN (UDP_SLOTS * UDP_QSIZ + ICMP_SLOTS * ICMP_QSIZ + 1)) sd) (\<lambda>pool sd.
       let sd = upn (\<lambda>n. icmp_init (udp_init (arp_init (n\<lparr>netbufpool := pool\<rparr>)))) sd;
           sd = upn (\<lambda>n. n\<lparr>ipoqueue := ipoqueue n\<lparr>iqhead := 0, iqtail := 0\<rparr>\<rparr>) sd
       in bindk (onk (semcreate 0) sd) (\<lambda>sem sd.
         Return sem (upn (\<lambda>n. n\<lparr>ipoqueue := ipoqueue n\<lparr>iqsem := sem\<rparr>\<rparr>) sd)))))"

definition net_init :: "int \<Rightarrow> int \<Rightarrow> int \<Rightarrow> int \<Rightarrow> nstate \<Rightarrow> (nstate, unit) step" where
  "net_init ticks initret ipout netin sd =
    bindk (net_tables ticks sd) (\<lambda>sem sd.
      if sem = SYSERR then Fault
      else bindk (onk (create initret ipout NETSTK NETPRIO ''ipout'' []) sd) (\<lambda>pid sd.
        bindk (onk (resume pid) sd) (\<lambda>_ sd.
        bindk (onk (create initret netin NETSTK NETPRIO ''netin'' []) sd) (\<lambda>pid sd.
        bindk (onk (resume pid) sd) (\<lambda>_. Return ())))))"

end
