(* ===== verification/Udp_Spec.thy ===== *)
theory Udp_Spec
  imports Net_Stack
begin

text \<open>
  What UDP promises: an endpoint is a bounded queue of datagrams, filled by \<^verbatim>\<open>udp_in\<close> and emptied by
  \<^verbatim>\<open>udp_recv\<close>; the data of every datagram reach the reader unchanged and in order, and the buffers go
  back to the pool. The queues of packets of UDP and IP are rings.
\<close>

section \<open>Network buffers\<close>

lemma upmem_fields [simp]:
  "queuetab (upmem f s) = queuetab s" "proctab (upmem f s) = proctab s" "semtab (upmem f s) = semtab s"
  "currpid (upmem f s) = currpid s" "ndefers (upmem f s) = ndefers s" "buftab (upmem f s) = buftab s"
  "nbpools (upmem f s) = nbpools s" "mem (hp (upmem f s)) = f (mem (hp s))" "attempt (upmem f s) = attempt s"
  by (simp_all add: upmem_def)

lemma mm_wr [simp]: "mm (wr f sd) = f (mm sd)" "snd (wr f sd) = snd sd" "fst (wr f sd) = upmem f (fst sd)"
  by (simp_all add: mm_def wr_def)

lemma mm_upn [simp]: "mm (upn f sd) = mm sd" "snd (upn f sd) = f (snd sd)" "fst (upn f sd) = fst sd"
  by (simp_all add: mm_def upn_def)

lemma sem_has_upmem [simp]: "sem_has (upmem f s) i c = sem_has s i c"
  by (simp add: sem_has_def)

text \<open>The pool has \<open>c\<close> free buffers and nobody waits for one; \<open>pkt\<close> is a buffer of it that is in use.\<close>

definition pool_has :: "kstate \<Rightarrow> int \<Rightarrow> nat \<Rightarrow> bool" where
  "pool_has s pool c \<longleftrightarrow> 0 \<le> pool \<and> pool < nbpools s \<and> nbpools s \<le> NBPOOLS \<and> sem_has s (bpsem (buftab s pool)) (int c)"

definition is_packet :: "int \<Rightarrow> memory \<Rightarrow> int \<Rightarrow> bool" where
  "is_packet pool m pkt \<longleftrightarrow> pkt mod 4 = 0 \<and> m (pkt - 4) = pool"

text \<open>A block of \<open>n\<close> bytes outside the buffer of a packet; and buffers that do not overlap.\<close>

definition outside :: "int \<Rightarrow> int \<Rightarrow> int \<Rightarrow> bool" where
  "outside pkt a n \<longleftrightarrow> a + n \<le> pkt - 4 \<or> pkt + PACKLEN \<le> a"

fun apart :: "int list \<Rightarrow> bool" where
  "apart [] = True"
| "apart (p # ps) = ((\<forall>q\<in>set ps. \<bar>p - q\<bar> \<ge> PACKLEN + 4) \<and> apart ps)"

lemma apart_bufs_append: "apart (ps @ qs) \<longleftrightarrow> apart ps \<and> apart qs \<and> (\<forall>p\<in>set ps. \<forall>q\<in>set qs. \<bar>p - q\<bar> \<ge> PACKLEN + 4)"
  by (induction ps) auto

definition freed :: "int \<Rightarrow> nat \<Rightarrow> int \<Rightarrow> kstate \<Rightarrow> kstate" where
  "freed pool c pkt s = set_count (bpsem (buftab s pool)) (int c + 1) (give_buf pool (pkt - 4) s)"

lemma freebuf_has:
  assumes "pool_has s pool c" "is_packet pool (mem (hp s)) pkt" "int c < 2147483647"
  shows "freebuf pkt s = Return OK (freed pool c pkt s)"
proof -
  let ?g = "give_buf pool (pkt - 4) s"
  have p: "0 \<le> pool" "pool < nbpools s" "pool < 20" "mem (hp s) (pkt - 4) = pool"
    using assms(1,2) by (auto simp: pool_has_def is_packet_def)
  have "sem_has ?g (bpsem (buftab s pool)) (int c)"
    using assms(1) by (simp add: pool_has_def give_buf_def upbuf_def setword_def sem_has_def)
  then have "signal (bpsem (buftab s pool)) ?g = Return OK (freed pool c pkt s)"
    using signal_has assms(3) unfolding freed_def by blast
  moreover have "bpsem (buftab ?g pool) = bpsem (buftab s pool)" by (simp add: give_buf_def upbuf_def setword_def)
  ultimately show ?thesis using p by (simp add: freebuf_def Let_def)
qed

lemma freepkt_has:
  assumes "pool_has s pool c" "is_packet pool (mem (hp s)) pkt" "int c < 2147483647"
  shows "freepkt pkt (s, n) = Return () (freed pool c pkt s, n)"
  using freebuf_has[OF assms] by (simp add: freepkt_def onk_def)

lemma pool_has_freed: "pool_has s pool c \<Longrightarrow> pool_has (freed pool c pkt s) pool (Suc c)"
  by (auto simp: pool_has_def freed_def give_buf_def upbuf_def setword_def set_count_def upsem_def sem_has_def add.commute)

lemma pool_has_upmem [simp]: "pool_has (upmem f s) pool c = pool_has s pool c"
  by (simp add: pool_has_def)

lemma mem_freed: "mem (hp (freed pool c pkt s)) = (mem (hp s))(pkt - 4 := bpnext (buftab s pool))"
  by (simp add: freed_def give_buf_def upbuf_def setword_def set_count_def upsem_def)

text \<open>Freeing a packet leaves the bytes of the others alone.\<close>

lemma ldb_upd_word: "w mod 4 = 0 \<Longrightarrow> b < w \<or> w + 4 \<le> b \<Longrightarrow> ldb (m(w := v)) b = ldb m b"
  by (auto simp: ldb_def word_at_def)

lemma stb_word_other: "w mod 4 = 0 \<Longrightarrow> a < w \<or> w + 4 \<le> a \<Longrightarrow> stb a v m w = m w"
  by (auto simp: stb_def word_at_def)

lemma copyb_word_other:
  "w mod 4 = 0 \<Longrightarrow> dst + int n \<le> w \<or> w + 4 \<le> dst \<Longrightarrow> copyb n dst src m w = m w"
  by (induction n arbitrary: dst src m) (auto simp: stb_word_other)

lemma sth_word_other: "w mod 4 = 0 \<Longrightarrow> a + 1 < w \<or> w + 4 \<le> a \<Longrightarrow> sth a v m w = m w"
  unfolding sth_def by (subst stb_word_other, simp, force, rule stb_word_other, simp, force)

lemma stw_word_other: "w mod 4 = 0 \<Longrightarrow> a + 3 < w \<or> w + 4 \<le> a \<Longrightarrow> stw a v m w = m w"
  unfolding stw_def by (subst sth_word_other, simp, force, rule sth_word_other, simp, force)

lemma stbs_word_other: "w mod 4 = 0 \<Longrightarrow> a + int (length bs) \<le> w \<or> w + 4 \<le> a \<Longrightarrow> stbs bs a m w = m w"
  by (induction bs arbitrary: a m) (auto simp: stb_word_other)

text \<open>Two memories that agree on the buffer of a packet, its pool number included.\<close>

definition same_packet :: "memory \<Rightarrow> memory \<Rightarrow> int \<Rightarrow> bool" where
  "same_packet m m' pkt \<longleftrightarrow> m' (pkt - 4) = m (pkt - 4) \<and> (\<forall>a. pkt \<le> a \<and> a < pkt + PACKLEN \<longrightarrow> ldb m' a = ldb m a)"

lemma same_packet_refl [simp]: "same_packet m m pkt"
  by (simp add: same_packet_def)

lemma same_packet_trans: "same_packet m m1 pkt \<Longrightarrow> same_packet m1 m2 pkt \<Longrightarrow> same_packet m m2 pkt"
  by (simp add: same_packet_def)

lemma same_packet_freed:
  assumes "pkt mod 4 = 0" "q mod 4 = 0" "\<bar>pkt - q\<bar> \<ge> PACKLEN + 4"
  shows "same_packet m (m(pkt - 4 := v)) q"
proof -
  have w: "(pkt - 4) mod 4 = 0" using assms(1) by presburger
  show ?thesis unfolding same_packet_def
  proof (intro conjI allI impI)
    show "(m(pkt - 4 := v)) (q - 4) = m (q - 4)" using assms(3) by auto
    fix a assume a: "q \<le> a \<and> a < q + PACKLEN"
    have "a < pkt - 4 \<or> pkt - 4 + 4 \<le> a" using a assms(3) by auto
    then show "ldb (m(pkt - 4 := v)) a = ldb m a" by (rule ldb_upd_word[OF w])
  qed
qed

lemma same_packet_copyb:
  assumes "q mod 4 = 0" "outside q dst (int n)" "src + int n \<le> dst \<or> dst + int n \<le> src"
  shows "same_packet m (copyb n dst src m) q"
proof -
  have w: "(q - 4) mod 4 = 0" using assms(1) by presburger
  show ?thesis unfolding same_packet_def
  proof (intro conjI allI impI)
    show "copyb n dst src m (q - 4) = m (q - 4)"
      by (rule copyb_word_other[OF w]) (use assms(2) in \<open>auto simp: outside_def\<close>)
    fix a assume "q \<le> a \<and> a < q + PACKLEN"
    then show "ldb (copyb n dst src m) a = ldb m a" using assms(2) by (auto simp: ldb_copyb[OF assms(3)] outside_def)
  qed
qed

text \<open>What agrees with the packet: its fields and its data.\<close>

lemma same_ldh: "same_packet m m' pkt \<Longrightarrow> 0 \<le> k \<Longrightarrow> k + 1 < PACKLEN \<Longrightarrow> ldh m' (pkt + k) = ldh m (pkt + k)"
  by (auto simp: same_packet_def ldh_def)

lemma same_ldw: "same_packet m m' pkt \<Longrightarrow> 0 \<le> k \<Longrightarrow> k + 3 < PACKLEN \<Longrightarrow> ldw m' (pkt + k) = ldw m (pkt + k)"
  using same_ldh[of m m' pkt k] same_ldh[of m m' pkt "k + 2"] by (simp add: ldw_def add.assoc)

lemma same_ldbs: "same_packet m m' pkt \<Longrightarrow> 0 \<le> k \<Longrightarrow> k + int n \<le> PACKLEN \<Longrightarrow> ldbs n m' (pkt + k) = ldbs n m (pkt + k)"
  by (rule ldbs_cong) (auto simp: same_packet_def)

section \<open>The queue of an endpoint\<close>

definition udp_holds :: "udpentry \<Rightarrow> int list \<Rightarrow> nat \<Rightarrow> bool" where
  "udp_holds e ps n \<longleftrightarrow> ring 8 (udqueue e) (udhead e) (udtail e) ps \<and> udcount e = int (length ps) \<and> length ps + n = 8"

interpretation udp_q: fifo udp_holds udp_put udp_get
proof (unfold_locales, goal_cases)
  case (1 e ps n p)
  then have r: "ring 8 (udqueue e) (udhead e) (udtail e) ps" "int (length ps) < 8" by (auto simp: udp_holds_def)
  then show ?case
    using ring_bounds[OF r(1)] ring_append[OF r, of p] 1 by (auto simp: udp_holds_def udp_put_def advance_def)
next
  case (2 e p ps n)
  then have r: "ring 8 (udqueue e) (udhead e) (udtail e) (p # ps)" by (simp add: udp_holds_def)
  then show ?case
    using ring_pop[OF r] ring_bounds[OF r] 2 by (auto simp: udp_holds_def udp_get_def advance_def)
qed

definition ip_holds :: "iqentry \<Rightarrow> int list \<Rightarrow> nat \<Rightarrow> bool" where
  "ip_holds q ps n \<longleftrightarrow> ring 8 (iqbuf q) (iqhead q) (iqtail q) ps \<and> length ps + n = 8"

interpretation ip_q: fifo ip_holds ip_put ip_get
proof (unfold_locales, goal_cases)
  case (1 q ps n p)
  then have r: "ring 8 (iqbuf q) (iqhead q) (iqtail q) ps" "int (length ps) < 8" by (auto simp: ip_holds_def)
  then show ?case
    using ring_bounds[OF r(1)] ring_append[OF r, of p] 1 by (auto simp: ip_holds_def ip_put_def advance_def)
next
  case (2 q p ps n)
  then have r: "ring 8 (iqbuf q) (iqhead q) (iqtail q) (p # ps)" by (simp add: ip_holds_def)
  then show ?case
    using ring_pop[OF r] ring_bounds[OF r] 2 by (auto simp: ip_holds_def ip_get_def advance_def)
qed

section \<open>An endpoint as a queue of datagrams\<close>

text \<open>The endpoint \<open>slot\<close> is the first that the packet is for.\<close>

definition udp_first :: "int \<Rightarrow> nstate \<Rightarrow> int \<Rightarrow> bool" where
  "udp_first slot sd pkt \<longleftrightarrow> udp_match (mm sd) pkt (udptab (snd sd) slot) \<and>
     (\<forall>j. 0 \<le> j \<and> j < slot \<longrightarrow> \<not> udp_match (mm sd) pkt (udptab (snd sd) j))"

definition udp_rep :: "int \<Rightarrow> nstate \<Rightarrow> int list \<Rightarrow> nat \<Rightarrow> bool" where
  "udp_rep slot sd ps n \<longleftrightarrow> 0 \<le> slot \<and> slot < UDP_SLOTS \<and> udstate (udptab (snd sd) slot) = UDP_USED \<and>
     udp_holds (udptab (snd sd) slot) ps n"

text \<open>
  The packets are buffers of the pool, apart from each other and from the reader's array; they and the free
  buffers of the pool are \<open>tot\<close> together.
\<close>

definition udp_fits :: "int \<Rightarrow> nat \<Rightarrow> int \<Rightarrow> int \<Rightarrow> int \<Rightarrow> nstate \<Rightarrow> int list \<Rightarrow> bool" where
  "udp_fits pool tot slot buff len sd ps \<longleftrightarrow> 0 \<le> len \<and> apart ps \<and> length ps \<le> tot \<and>
     pool_has (fst sd) pool (tot - length ps) \<and> int tot < 2147483647 \<and>
     (\<forall>pkt\<in>set ps. is_packet pool (mm sd) pkt \<and> outside pkt buff len \<and> ldh (mm sd) (net_udplen pkt) \<le> 1480 \<and>
        udp_first slot sd pkt)"

definition udp_payload :: "int \<Rightarrow> nstate \<Rightarrow> int \<Rightarrow> int list" where
  "udp_payload len sd pkt = ldbs (nat (udp_msglen (mm sd) pkt len)) (mm sd) (net_udpdata pkt)"

definition udp_arrive :: "int \<Rightarrow> nstate \<Rightarrow> nstate option" where
  "udp_arrive pkt sd = (case udp_in pkt sd of Return _ sd' \<Rightarrow> Some sd' | _ \<Rightarrow> None)"

definition udp_read :: "int \<Rightarrow> int \<Rightarrow> int \<Rightarrow> int \<Rightarrow> nstate \<Rightarrow> (int list \<times> nstate) option" where
  "udp_read slot buff len timeout sd =
    (case udp_recv slot buff len timeout sd of Return n sd' \<Rightarrow> Some (ldbs (nat n) (mm sd') buff, sd') | _ \<Rightarrow> None)"

lemma udp_in_loop_first:
  assumes "i \<le> slot" "slot < i + int k" "udp_match (mm sd) pkt (udptab (snd sd) slot)" "udcount (udptab (snd sd) slot) < UDP_QSIZ"
    "\<forall>j. i \<le> j \<and> j < slot \<longrightarrow> \<not> udp_match (mm sd) pkt (udptab (snd sd) j)"
  shows "udp_in_loop k i pkt sd = udp_accept slot pkt sd"
  using assms
proof (induction k arbitrary: i)
  case (Suc k)
  show ?case
  proof (cases "i = slot")
    case False
    then have "\<not> udp_match (mm sd) pkt (udptab (snd sd) i)" using Suc.prems(1,5) by simp
    then show ?thesis using Suc.IH[of "i + 1"] Suc.prems False by simp
  qed (use Suc.prems in simp)
qed simp

lemma udp_put_fields:
  "udp_put pkt e = Some e' \<Longrightarrow> udstate e' = udstate e \<and> udremip e' = udremip e \<and> udremport e' = udremport e \<and>
     udlocport e' = udlocport e \<and> udpid e' = udpid e"
  by (auto simp: udp_put_def split: if_splits)

lemma udp_get_fields:
  "udp_get e = Some (pkt, e') \<Longrightarrow> udstate e' = udstate e \<and> udremip e' = udremip e \<and> udremport e' = udremport e \<and>
     udlocport e' = udlocport e \<and> udpid e' = udpid e"
  by (auto simp: udp_get_def split: if_splits)

text \<open>Whether a packet is for an endpoint depends on the packet and on the addresses of the endpoint.\<close>

lemma udp_match_same:
  assumes "same_packet m m' pkt" "udstate e' = udstate e \<and> udremip e' = udremip e \<and> udremport e' = udremport e \<and> udlocport e' = udlocport e \<and> udpid e' = udpid e"
  shows "udp_match m' pkt e' = udp_match m pkt e"
  using assms same_ldh[of m m' pkt 34] same_ldh[of m m' pkt 36] same_ldw[of m m' pkt 26] by (simp add: udp_match_def)

lemma udp_first_same:
  assumes "same_packet (mm sd) (mm sd') pkt" "udp_first slot sd pkt" "udptab (snd sd') = (udptab (snd sd))(slot := e)"
    "udstate e = udstate (udptab (snd sd) slot) \<and> udremip e = udremip (udptab (snd sd) slot) \<and>
     udremport e = udremport (udptab (snd sd) slot) \<and> udlocport e = udlocport (udptab (snd sd) slot) \<and> udpid e = udpid (udptab (snd sd) slot)"
  shows "udp_first slot sd' pkt"
  using assms(2) udp_match_same[OF assms(1,4)] udp_match_same[OF assms(1), of "udptab (snd sd) j" "udptab (snd sd) j" for j]
  by (simp add: udp_first_def assms(3))

lemma udp_fits_same:
  assumes fits: "udp_fits pool tot slot buff len sd ps" and same: "\<forall>pkt\<in>set qs. same_packet (mm sd) (mm sd') pkt"
    and tab: "udptab (snd sd') = (udptab (snd sd))(slot := e)"
    and e: "udstate e = udstate (udptab (snd sd) slot) \<and> udremip e = udremip (udptab (snd sd) slot) \<and>
     udremport e = udremport (udptab (snd sd) slot) \<and> udlocport e = udlocport (udptab (snd sd) slot) \<and> udpid e = udpid (udptab (snd sd) slot)"
    and pool: "pool_has (fst sd') pool (tot - length qs)"
    and qs: "set qs \<subseteq> set ps" "apart qs" "length qs \<le> length ps"
  shows "udp_fits pool tot slot buff len sd' qs \<and> (\<forall>pkt\<in>set qs. udp_payload len sd' pkt = udp_payload len sd pkt)"
proof -
  have p: "\<forall>pkt\<in>set ps. is_packet pool (mm sd) pkt \<and> outside pkt buff len \<and> ldh (mm sd) (pkt + 38) \<le> 1480 \<and> udp_first slot sd pkt"
    and len: "0 \<le> len" "length ps \<le> tot" "int tot < 2147483647" using fits by (auto simp: udp_fits_def)
  have udplen: "ldh (mm sd') (pkt + 38) = ldh (mm sd) (pkt + 38)" if "pkt \<in> set qs" for pkt
    by (rule same_ldh) (use same that in auto)
  have "is_packet pool (mm sd') pkt \<and> outside pkt buff len \<and> ldh (mm sd') (pkt + 38) \<le> 1480 \<and> udp_first slot sd' pkt"
    if "pkt \<in> set qs" for pkt
    using p same that qs(1) udp_first_same[OF _ _ tab e, of pkt] by (auto simp: is_packet_def same_packet_def udplen[OF that])
  then have "udp_fits pool tot slot buff len sd' qs" using len qs(2,3) pool unfolding udp_fits_def by auto
  moreover have "udp_payload len sd' pkt = udp_payload len sd pkt" if pkt: "pkt \<in> set qs" for pkt
  proof -
    let ?k = "nat (udp_msglen (mm sd) pkt len)"
    have l: "udp_msglen (mm sd') pkt len = udp_msglen (mm sd) pkt len" by (simp add: udp_msglen_def udplen[OF pkt])
    have "ldh (mm sd) (pkt + 38) \<le> 1480" using p qs(1) pkt by auto
    then have "udp_msglen (mm sd) pkt len \<le> 1472" by (auto simp: udp_msglen_def Let_def)
    then have "ldbs ?k (mm sd') (pkt + 42) = ldbs ?k (mm sd) (pkt + 42)"
      by (intro same_ldbs) (use same pkt in auto)
    then show ?thesis by (simp add: udp_payload_def l)
  qed
  ultimately show ?thesis by blast
qed

lemma udp_arrive_run:
  assumes rep: "udp_rep slot sd ps (Suc n)" and first: "udp_first slot sd pkt"
  obtains e where "udp_in pkt sd = Return () (upn (upudp slot (\<lambda>_. e)) sd)" "udp_put pkt (udptab (snd sd) slot) = Some e"
    "udp_holds e (ps @ [pkt]) n" "udstate e = UDP_USED"
proof -
  let ?e = "udptab (snd sd) slot"
  have h: "udp_holds ?e ps (Suc n)" and st: "udstate ?e = UDP_USED" and sl: "0 \<le> slot" "slot < 6"
    using rep by (auto simp: udp_rep_def)
  obtain e where e: "udp_put pkt ?e = Some e" "udp_holds e (ps @ [pkt]) n" using udp_q.enq[OF h] by blast
  have "udcount ?e < 8" using h by (simp add: udp_holds_def)
  moreover have "int (nat UDP_SLOTS) = 6" by simp
  ultimately have "udp_in pkt sd = udp_accept slot pkt sd"
    unfolding udp_in_def using first sl by (intro udp_in_loop_first) (simp_all add: udp_first_def)
  also have "\<dots> = Return () (upn (upudp slot (\<lambda>_. e)) sd)"
    using e(1) st udp_put_fields[OF e(1)] by (simp add: udp_accept_def)
  finally show thesis using that e udp_put_fields[OF e(1)] st by simp
qed

lemma udp_recv_run:
  assumes rep: "udp_rep slot sd (pkt # ps) n" and pool: "pool_has (fst sd) pool c" "int c < 2147483647"
    and pkt: "is_packet pool (mm sd) pkt" "outside pkt buff len" "ldh (mm sd) (pkt + 38) \<le> 1480" and len: "0 \<le> len"
  defines "k \<equiv> nat (udp_msglen (mm sd) pkt len)"
  obtains e s' where "udp_recv slot buff len timeout sd = Return (udp_msglen (mm sd) pkt len) (s', upudp slot (\<lambda>_. e) (snd sd))"
    "udp_get (udptab (snd sd) slot) = Some (pkt, e)" "udp_holds e ps (Suc n)"
    "s' = freed pool c pkt (upmem (copyb k buff (pkt + 42)) (fst sd))"
proof -
  let ?e = "udptab (snd sd) slot" let ?s = "upmem (copyb k buff (pkt + 42)) (fst sd)"
  have h: "udp_holds ?e (pkt # ps) n" and st: "udstate ?e = UDP_USED" and sl: "0 \<le> slot" "slot < 6"
    using rep by (auto simp: udp_rep_def)
  obtain e where e: "udp_get ?e = Some (pkt, e)" "udp_holds e ps (Suc n)" using udp_q.deq[OF h] by blast
  have k: "int k \<le> len" "k \<le> 1472" using len pkt(3) by (auto simp: k_def udp_msglen_def Let_def)
  then have o: "outside pkt buff (int k)" using pkt(2) by (auto simp: outside_def)
  have "same_packet (mm sd) (copyb k buff (pkt + 42) (mm sd)) pkt"
    by (rule same_packet_copyb[OF _ o]) (use pkt(1) o k in \<open>auto simp: is_packet_def outside_def\<close>)
  then have "is_packet pool (mem (hp ?s)) pkt" using pkt(1) by (simp add: is_packet_def same_packet_def mm_def)
  then have f: "freepkt pkt (?s, upudp slot (\<lambda>_. e) (snd sd)) = Return () (freed pool c pkt ?s, upudp slot (\<lambda>_. e) (snd sd))"
    using pool by (intro freepkt_has) simp_all
  have "udcount ?e \<noteq> 0" using h by (simp add: udp_holds_def)
  then have "udp_recv slot buff len timeout sd = udp_take slot buff len sd"
    using sl st by (simp add: udp_recv_def udp_await_def)
  also have "\<dots> = Return (udp_msglen (mm sd) pkt len) (freed pool c pkt ?s, upudp slot (\<lambda>_. e) (snd sd))"
    using e(1) f by (simp add: udp_take_def udp_deliver_def Let_def wr_def k_def mm_def upn_def)
  finally show thesis using that e by blast
qed

lemma map_eq_ball: "map f xs = map g xs \<longleftrightarrow> (\<forall>x\<in>set xs. f x = g x)"
  by (induction xs) auto

interpretation udp_ep: item_queue "udp_rep slot" "udp_fits pool tot slot buff len" "udp_payload len" udp_arrive "udp_read slot buff len timeout"
  for pool tot slot buff len timeout
proof (unfold_locales, goal_cases)
  case (1 sd ps n pkt qs)
  let ?all = "ps @ pkt # qs"
  have "udp_first slot sd pkt" using 1(2) by (auto simp: udp_fits_def)
  then obtain e where e: "udp_in pkt sd = Return () (upn (upudp slot (\<lambda>_. e)) sd)" "udp_put pkt (udptab (snd sd) slot) = Some e"
    "udp_holds e (ps @ [pkt]) n" "udstate e = UDP_USED" using udp_arrive_run[OF 1(1)] by blast
  let ?sd = "upn (upudp slot (\<lambda>_. e)) sd"
  have t: "udptab (snd ?sd) = (udptab (snd sd))(slot := e)" by (simp add: upudp_def)
  have "apart ?all" using 1(2) by (simp add: udp_fits_def)
  have "pool_has (fst ?sd) pool (tot - length ?all)" using 1(2) by (simp add: udp_fits_def upn_def)
  then have "udp_fits pool tot slot buff len ?sd ?all \<and> (\<forall>p\<in>set ?all. udp_payload len ?sd p = udp_payload len sd p)"
    by (intro udp_fits_same[OF 1(2) _ t udp_put_fields[OF e(2)]]) (use \<open>apart ?all\<close> in auto)
  moreover have "udp_rep slot ?sd (ps @ [pkt]) n" using e(3,4) 1(1) t by (auto simp: udp_rep_def)
  moreover have "udp_arrive pkt sd = Some ?sd" by (simp add: udp_arrive_def e(1))
  ultimately show ?case unfolding map_eq_ball by blast
next
  case (2 sd pkt ps n)
  define c where "c = tot - Suc (length ps)"
  have c: "pool_has (fst sd) pool c" "int c + int (length (pkt # ps)) < 2147483647" "tot - length ps = Suc c"
    and p: "\<forall>q\<in>set (pkt # ps). is_packet pool (mm sd) q \<and> outside q buff len \<and> ldh (mm sd) (q + 38) \<le> 1480 \<and> udp_first slot sd q"
    and len: "0 \<le> len" and ap: "apart (pkt # ps)" using 2(2) by (auto simp: udp_fits_def c_def)
  have pk: "is_packet pool (mm sd) pkt" "outside pkt buff len" "ldh (mm sd) (pkt + 38) \<le> 1480" using p by auto
  define k where "k = nat (udp_msglen (mm sd) pkt len)"
  obtain e s' where e: "udp_recv slot buff len timeout sd = Return (udp_msglen (mm sd) pkt len) (s', upudp slot (\<lambda>_. e) (snd sd))"
    "udp_get (udptab (snd sd) slot) = Some (pkt, e)" "udp_holds e ps (Suc n)"
    "s' = freed pool c pkt (upmem (copyb k buff (pkt + 42)) (fst sd))"
    unfolding k_def by (rule udp_recv_run[OF 2(1) c(1) _ pk len, of timeout]) (use c(2) in simp_all)
  let ?sd = "(s', upudp slot (\<lambda>_. e) (snd sd))" let ?m1 = "copyb k buff (pkt + 42) (mm sd)"
  have t: "udptab (snd ?sd) = (udptab (snd sd))(slot := e)" by (simp add: upudp_def)
  have k: "int k \<le> len" "k \<le> 1472" using len p by (auto simp: k_def udp_msglen_def Let_def)
  have al: "\<forall>q\<in>set (pkt # ps). q mod 4 = 0" using p by (auto simp: is_packet_def)
  have out: "outside q buff (int k)" if "q \<in> set (pkt # ps)" for q using p that k(1) by (auto simp: outside_def)
  have dis: "pkt + 42 + int k \<le> buff \<or> buff + int k \<le> pkt + 42" using out[of pkt] k(2) by (auto simp: outside_def)
  have m: "mm ?sd = ?m1(pkt - 4 := bpnext (buftab (fst sd) pool))" by (simp add: e(4) mm_def mem_freed)
  have same: "same_packet (mm sd) (mm ?sd) q" if "q \<in> set ps" for q
  proof (rule same_packet_trans)
    show "same_packet (mm sd) ?m1 q" by (rule same_packet_copyb) (use al out that dis in auto)
    show "same_packet ?m1 (mm ?sd) q" unfolding m by (rule same_packet_freed) (use al ap that in auto)
  qed
  have "pool_has (upmem (copyb k buff (pkt + 42)) (fst sd)) pool c" using c(1) by (simp add: pool_has_def sem_has_def upmem_def)
  then have pool: "pool_has (fst ?sd) pool (tot - length ps)" using pool_has_freed by (simp add: e(4) c(3))
  have "udp_fits pool tot slot buff len ?sd ps \<and> (\<forall>q\<in>set ps. udp_payload len ?sd q = udp_payload len sd q)"
    by (rule udp_fits_same[OF 2(2) _ t udp_get_fields[OF e(2)] pool]) (use same ap in auto)
  moreover have "udp_rep slot ?sd ps (Suc n)" using e(3) 2(1) t udp_get_fields[OF e(2)] by (auto simp: udp_rep_def)
  moreover have "ldbs k (mm ?sd) buff = udp_payload len sd pkt"
  proof -
    have w: "(pkt - 4) mod 4 = 0" using al by auto
    have "ldbs k (mm ?sd) buff = ldbs k ?m1 buff"
      unfolding m by (rule ldbs_cong, rule ldb_upd_word[OF w]) (use out[of pkt] in \<open>auto simp: outside_def\<close>)
    also have "\<dots> = ldbs k (mm sd) (pkt + 42)" by (rule ldbs_copyb[OF dis])
    finally show ?thesis by (simp add: udp_payload_def k_def)
  qed
  ultimately show ?case unfolding map_eq_ball by (simp add: udp_read_def e(1) k_def)
qed

text \<open>C12: 
  Datagrams that arrive for an endpoint with room for them are delivered by the calls of \<^verbatim>\<open>udp_recv\<close> one
  by one in the order of their arrival, behind those that were waiting already, each with its data (or as
  much of them as the reader asks for), and the queue is empty afterwards. Each buffer goes back to its
  pool when it has been read: the pool then has all of them free, besides those that were free before.
\<close>

theorem udp_datagrams_in_order:
  assumes "udp_rep slot sd ps (length qs + n)" "udp_fits pool tot slot buff len sd (ps @ qs)"
  shows "pool_has (fst sd) pool (tot - (length ps + length qs)) \<and> (\<exists>sd1 sd2. enq_all udp_arrive qs sd = Some sd1 \<and>
    deq_all (udp_read slot buff len timeout) (length ps + length qs) sd1 = Some (map (udp_payload len sd) (ps @ qs), sd2) \<and>
    udp_rep slot sd2 [] (n + length ps + length qs) \<and> pool_has (fst sd2) pool tot)"
proof (rule conjI)
  show "pool_has (fst sd) pool (tot - (length ps + length qs))" using assms(2) by (simp add: udp_fits_def)
  have "pool_has (fst s) pool tot" if "udp_fits pool tot slot buff len s []" for s using that by (simp add: udp_fits_def)
  then show "\<exists>sd1 sd2. enq_all udp_arrive qs sd = Some sd1 \<and>
    deq_all (udp_read slot buff len timeout) (length ps + length qs) sd1 = Some (map (udp_payload len sd) (ps @ qs), sd2) \<and>
    udp_rep slot sd2 [] (n + length ps + length qs) \<and> pool_has (fst sd2) pool tot"
    using udp_ep.in_order[OF assms, of timeout] by blast
qed

section \<open>Demultiplexing\<close>

text \<open>The first endpoint, from \<open>i\<close> on, that a packet is for and that has room for it.\<close>

definition udp_dest :: "memory \<Rightarrow> int \<Rightarrow> net \<Rightarrow> int option" where
  "udp_dest m pkt n = find (\<lambda>i. udp_match m pkt (udptab n i) \<and> udcount (udptab n i) < UDP_QSIZ) [0, 1, 2, 3, 4, 5]"

lemma udp_in_dest: "udp_in pkt sd = (case udp_dest (mm sd) pkt (snd sd) of None \<Rightarrow> freepkt pkt sd | Some i \<Rightarrow> udp_accept i pkt sd)"
  by (simp add: udp_in_def udp_dest_def numeral_nat)

lemma udp_destD:
  assumes "udp_dest m pkt n = Some i"
  shows "0 \<le> i" "i < 6" "udp_match m pkt (udptab n i)" "udcount (udptab n i) < 8"
  using assms by (auto simp: udp_dest_def split: if_splits)

text \<open>C31: 
  An arriving packet goes to the first endpoint that it is for and that has room. A process that waits
  there is sent \<^verbatim>\<open>OK\<close>, after the packet has been queued and the endpoint is no longer waiting. A packet
  that no endpoint takes goes back to its pool, and nothing else changes.
\<close>

theorem udp_in_demultiplexes:
  assumes pool: "pool_has s pool c" "is_packet pool (mem (hp s)) pkt" "int c < 2147483647"
    and queues: "\<forall>i. 0 \<le> i \<and> i < UDP_SLOTS \<longrightarrow> (\<exists>ps k. udp_holds (udptab n i) ps k)"
  shows "case udp_dest (mem (hp s)) pkt n of
      None \<Rightarrow> udp_in pkt (s, n) = Return () (freed pool c pkt s, n)
    | Some i \<Rightarrow> \<exists>ps k e. udp_holds (udptab n i) ps (Suc k) \<and> udp_holds e (ps @ [pkt]) k \<and> udstate e = UDP_USED \<and>
        udremip e = udremip (udptab n i) \<and> udremport e = udremport (udptab n i) \<and> udlocport e = udlocport (udptab n i) \<and>
        udp_in pkt (s, n) =
          (if udstate (udptab n i) = UDP_RECV
           then bindk (onk (send (udpid (udptab n i)) OK) (s, upudp i (\<lambda>_. e) n)) (\<lambda>_. Return ())
           else Return () (s, upudp i (\<lambda>_. e) n))"
proof (cases "udp_dest (mem (hp s)) pkt n")
  case None
  then show ?thesis using freepkt_has[OF pool] by (simp add: udp_in_dest mm_def)
next
  case (Some i)
  note d = udp_destD[OF Some]
  then obtain ps k where h: "udp_holds (udptab n i) ps k" using queues by auto
  then have "length ps < 8" using d(4) by (simp add: udp_holds_def)
  then obtain k' where k: "k = Suc k'" using h by (cases k) (auto simp: udp_holds_def)
  obtain e where e: "udp_put pkt (udptab n i) = Some e" "udp_holds e (ps @ [pkt]) k'" using udp_q.enq h k by blast
  note f = udp_put_fields[OF e(1)]
  have st: "udstate (udptab n i) = UDP_RECV \<or> udstate (udptab n i) = UDP_USED"
    using d(3) by (cases "udstate (udptab n i)") (auto simp: udp_match_def)
  let ?e = "e\<lparr>udstate := UDP_USED\<rparr>"
  have "udp_holds ?e (ps @ [pkt]) k'" using e(2) by (simp add: udp_holds_def)
  moreover have "udp_in pkt (s, n) = (if udstate (udptab n i) = UDP_RECV
      then bindk (onk (send (udpid (udptab n i)) OK) (s, upudp i (\<lambda>_. ?e) n)) (\<lambda>_. Return ())
      else Return () (s, upudp i (\<lambda>_. ?e) n))"
  proof -
    have "udp_in pkt (s, n) = udp_accept i pkt (s, n)" using Some by (simp add: udp_in_dest mm_def)
    moreover have "?e = e" if "udstate (udptab n i) \<noteq> UDP_RECV" using f st that by simp
    ultimately show ?thesis using e(1) f by (cases "udstate (udptab n i) = UDP_RECV") (simp_all add: udp_accept_def upn_def)
  qed
  ultimately show ?thesis unfolding Some option.case using h k f by (intro exI[of _ ps] exI[of _ k'] exI[of _ ?e]) simp
qed

section \<open>Registration\<close>

definition udp_used :: "net \<Rightarrow> int \<Rightarrow> bool" where
  "udp_used n i \<longleftrightarrow> 0 \<le> i \<and> i < UDP_SLOTS \<and> udstate (udptab n i) \<noteq> UDP_FREE"

definition udp_key :: "udpentry \<Rightarrow> int \<times> int \<times> int" where
  "udp_key e = (udremip e, udremport e, udlocport e)"

lemma udp_registered_iff:
  "udp_registered k i remip remport locport n \<longleftrightarrow>
   (\<exists>j. i \<le> j \<and> j < i + int k \<and> udstate (udptab n j) \<noteq> UDP_FREE \<and> udp_key (udptab n j) = (remip, remport, locport))"
proof (induction k arbitrary: i)
  case (Suc k)
  have "(\<exists>j. i \<le> j \<and> j < i + int (Suc k) \<and> P j) \<longleftrightarrow> P i \<or> (\<exists>j. i + 1 \<le> j \<and> j < i + 1 + int k \<and> P j)" for P
    by (metis add.assoc add.commute add1_zle_eq le_less of_nat_Suc less_add_same_cancel1 of_nat_0_less_iff zero_less_Suc)
  then show ?case using Suc.IH[of "i + 1"] by (auto simp: udp_key_def)
qed simp

lemma udp_free_spec:
  assumes "0 \<le> i"
  shows "if udp_free k i n = SYSERR then \<forall>j. i \<le> j \<and> j < i + int k \<longrightarrow> udstate (udptab n j) \<noteq> UDP_FREE
    else i \<le> udp_free k i n \<and> udp_free k i n < i + int k \<and> udstate (udptab n (udp_free k i n)) = UDP_FREE"
  using assms
proof (induction k arbitrary: i)
  case (Suc k)
  show ?case
  proof (cases "udstate (udptab n i) = UDP_FREE")
    case False
    have "j = i \<or> i + 1 \<le> j" if "i \<le> j" for j using that by linarith
    then show ?thesis using Suc.IH[of "i + 1"] Suc.prems False by (auto simp: algebra_simps split: if_splits)
  qed (use Suc.prems in simp)
qed auto

text \<open>C32: 
  Registering an endpoint takes a free entry and makes it an empty queue with the given addresses; it
  fails just in case they are registered already or no entry is free. So no two endpoints in use ever
  have the same addresses.
\<close>

theorem udp_register_correct:
  "case udp_register remip remport locport n of (slot, n') \<Rightarrow>
     (if (\<exists>i. udp_used n i \<and> udp_key (udptab n i) = (remip, remport, locport)) \<or> (\<forall>i. 0 \<le> i \<and> i < UDP_SLOTS \<longrightarrow> udp_used n i)
      then slot = SYSERR \<and> n' = n
      else 0 \<le> slot \<and> slot < UDP_SLOTS \<and> \<not> udp_used n slot \<and> udp_holds (udptab n' slot) [] 8 \<and>
        udstate (udptab n' slot) = UDP_USED \<and> udp_key (udptab n' slot) = (remip, remport, locport) \<and>
        n' = n\<lparr>udptab := (udptab n)(slot := udptab n' slot)\<rparr>) \<and>
     (inj_on (udp_key \<circ> udptab n) (Collect (udp_used n)) \<longrightarrow> inj_on (udp_key \<circ> udptab n') (Collect (udp_used n')))"
proof -
  let ?R = "udp_registered (nat UDP_SLOTS) 0 remip remport locport n" let ?f = "udp_free (nat UDP_SLOTS) 0 n"
  let ?k = "(remip, remport, locport)"
  have reg: "?R \<longleftrightarrow> (\<exists>i. udp_used n i \<and> udp_key (udptab n i) = ?k)"
    unfolding udp_registered_iff udp_used_def by auto
  have free: "if ?f = SYSERR then \<forall>j. 0 \<le> j \<and> j < 6 \<longrightarrow> udp_used n j else 0 \<le> ?f \<and> ?f < 6 \<and> \<not> udp_used n ?f"
    using udp_free_spec[of 0 "nat UDP_SLOTS" n] by (auto simp: udp_used_def split: if_splits)
  show ?thesis
  proof (cases "?R \<or> ?f = SYSERR")
    case True
    then have "udp_register remip remport locport n = (SYSERR, n)" by (auto simp: udp_register_def)
    moreover have "(\<exists>i. udp_used n i \<and> udp_key (udptab n i) = ?k) \<or> (\<forall>i. 0 \<le> i \<and> i < UDP_SLOTS \<longrightarrow> udp_used n i)"
      using True reg free by (auto split: if_splits)
    ultimately show ?thesis by simp
  next
    case False
    then have f: "0 \<le> ?f" "?f < 6" "\<not> udp_used n ?f" using free by (auto split: if_splits)
    obtain n' where r: "udp_register remip remport locport n = (?f, n')" and
      n': "n' = upudp ?f (\<lambda>e. e\<lparr>udstate := UDP_USED, udremip := remip, udremport := remport, udlocport := locport,
              udhead := 0, udtail := 0, udcount := 0, udpid := -1\<rparr>) n"
      using False by (simp add: udp_register_def Let_def)
    have c: "\<not> ((\<exists>i. udp_used n i \<and> udp_key (udptab n i) = ?k) \<or> (\<forall>i. 0 \<le> i \<and> i < UDP_SLOTS \<longrightarrow> udp_used n i))"
      using False reg f by auto
    have u: "Collect (udp_used n') = insert ?f (Collect (udp_used n))" using f by (auto simp: n' upudp_def udp_used_def)
    have k: "udp_key (udptab n' ?f) = ?k" "\<And>i. i \<noteq> ?f \<Longrightarrow> udptab n' i = udptab n i" by (auto simp: n' upudp_def udp_key_def)
    have "inj_on (udp_key \<circ> udptab n') (Collect (udp_used n'))" if "inj_on (udp_key \<circ> udptab n) (Collect (udp_used n))"
    proof -
      have "inj_on (udp_key \<circ> udptab n') (Collect (udp_used n))"
        using that f(3) k(2) unfolding inj_on_def by (metis comp_apply mem_Collect_eq)
      moreover have "(udp_key \<circ> udptab n') ?f \<notin> (udp_key \<circ> udptab n') ` (Collect (udp_used n))"
        using c k f(3) by (auto simp: image_iff) (metis k(2))
      ultimately show ?thesis using f(3) by (simp add: u)
    qed
    moreover have "udp_holds (udptab n' ?f) [] 8" by (simp add: n' upudp_def udp_holds_def ring_def)
    ultimately show ?thesis unfolding r prod.case if_not_P[OF c] using f k by (simp add: n' upudp_def)
  qed
qed

end
