(* ===== verification/Ip_Spec.thy ===== *)
theory Ip_Spec
  imports Net_Cksum Udp_Spec
begin

text \<open>
  What goes over the wire: a packet that \<^verbatim>\<open>ip_out\<close> has prepared is turned back into the same packet by
  \<^verbatim>\<open>ip_in\<close>, up to the checksums, and is accepted by its checks.
\<close>

section \<open>The conversions permute bytes\<close>

definition swap2 :: "int \<Rightarrow> int \<Rightarrow> int" where
  "swap2 a b = (if b = a then a + 1 else if b = a + 1 then a else b)"

definition swap4 :: "int \<Rightarrow> int \<Rightarrow> int" where
  "swap4 a b = (if b = a then a + 3 else if b = a + 1 then a + 2 else if b = a + 2 then a + 1 else if b = a + 3 then a else b)"

lemma ldb_swaph2: "ldb (swaph a m) b = ldb m (swap2 a b)"
  by (simp add: swaph_def ldb_swaph swap2_def)

lemma ldb_swapw4: "ldb (swapw a m) b = ldb m (swap4 a b)"
  by (simp add: swapw_def ldb_swapw swap4_def)

lemma swap2_swap2 [simp]: "swap2 a (swap2 a b) = b"
  by (simp add: swap2_def)

lemma swap4_swap4 [simp]: "swap4 a (swap4 a b) = b"
  by (simp add: swap4_def)

text \<open>The fields of the headers from \<open>p\<close> on, as permutations of the bytes.\<close>

definition udp_perm :: "int \<Rightarrow> int \<Rightarrow> int" where
  "udp_perm p b = swap2 (p + 34) (swap2 (p + 36) (swap2 (p + 38) b))"

definition icmp_perm :: "int \<Rightarrow> int \<Rightarrow> int" where
  "icmp_perm p b = swap2 (p + 36) (swap2 (p + 38) (swap2 (p + 40) b))"

definition ip_swaps :: "int \<Rightarrow> int \<Rightarrow> int" where
  "ip_swaps p b = swap2 (p + 16) (swap2 (p + 18) (swap2 (p + 20) (swap4 (p + 26) (swap4 (p + 30) b))))"

text \<open>Swaps of disjoint fields commute.\<close>

lemma swap2_swap2_commute: "a + 1 < a' \<Longrightarrow> swap2 a (swap2 a' b) = swap2 a' (swap2 a b)"
  by (auto simp: swap2_def)

lemma swap4_swap4_commute: "a + 3 < a' \<Longrightarrow> swap4 a (swap4 a' b) = swap4 a' (swap4 a b)"
  by (auto simp: swap4_def)

lemma swap2_swap4_commute: "a + 1 < a' \<Longrightarrow> swap2 a (swap4 a' b) = swap4 a' (swap2 a b)"
  by (auto simp: swap2_def swap4_def)

lemma ldb_ip_ntoh: "ldb (ip_ntoh p m) b = ldb m (ip_swaps p b)" "ldb (ip_hton p m) b = ldb m (ip_swaps p b)"
  by (simp_all add: ip_ntoh_def ip_hton_def ldb_swaph2 ldb_swapw4 ip_swaps_def)

lemma ldb_udp_ntoh: "ldb (udp_ntoh p m) b = ldb m (udp_perm p b)" "ldb (udp_hton p m) b = ldb m (udp_perm p b)"
  by (simp_all add: udp_ntoh_def udp_hton_def ldb_swaph2 udp_perm_def)

lemma ldb_icmp_ntoh: "ldb (icmp_ntoh p m) b = ldb m (icmp_perm p b)" "ldb (icmp_hton p m) b = ldb m (icmp_perm p b)"
  by (simp_all add: icmp_ntoh_def icmp_hton_def ldb_swaph2 icmp_perm_def)

lemma ldb_eth_ntoh: "ldb (eth_ntoh p m) b = ldb m (swap2 (p + 12) b)" "ldb (eth_hton p m) b = ldb m (swap2 (p + 12) b)"
  by (simp_all add: eth_ntoh_def eth_hton_def ldb_swaph2)

lemma perm_perm [simp]: "udp_perm p (udp_perm p b) = b" "icmp_perm p (icmp_perm p b) = b" "ip_swaps p (ip_swaps p b) = b"
proof -
  have c2: "swap2 (p + i) (swap2 (p + j) c) = swap2 (p + j) (swap2 (p + i) c)" if "i + 1 < j" for i j c
    by (rule swap2_swap2_commute) (use that in simp)
  have c24: "swap2 (p + i) (swap4 (p + j) c) = swap4 (p + j) (swap2 (p + i) c)" if "i + 1 < j" for i j c
    by (rule swap2_swap4_commute) (use that in simp)
  have c4: "swap4 (p + i) (swap4 (p + j) c) = swap4 (p + j) (swap4 (p + i) c)" if "i + 3 < j" for i j c
    by (rule swap4_swap4_commute) (use that in simp)
  show "udp_perm p (udp_perm p b) = b" unfolding udp_perm_def
    by (simp add: c2[of 34 36] c2[of 34 38] c2[of 36 38])
  show "icmp_perm p (icmp_perm p b) = b" unfolding icmp_perm_def
    by (simp add: c2[of 36 38] c2[of 36 40] c2[of 38 40])
  show "ip_swaps p (ip_swaps p b) = b" unfolding ip_swaps_def
    by (simp add: c2[of 16 18] c2[of 16 20] c2[of 18 20] c24[of 16 26] c24[of 16 30] c24[of 18 26] c24[of 18 30]
        c24[of 20 26] c24[of 20 30] c4[of 26 30])
qed

text \<open>The checksum fields stay where they are, and the ports and the type are not touched by the IP header.\<close>

lemma ip_swaps_fix: "b < p + 16 \<or> p + 22 \<le> b \<and> b < p + 26 \<or> p + 34 \<le> b \<Longrightarrow> ip_swaps p b = b"
  by (auto simp: ip_swaps_def swap2_def swap4_def)

lemma ip_swaps_cksum: "b < p + 24 \<or> p + 25 < b \<Longrightarrow> ip_swaps p b < p + 24 \<or> p + 25 < ip_swaps p b"
  using perm_perm(3)[of p b] ip_swaps_fix[of "ip_swaps p b" p] by force

lemma udp_perm_fix: "b < p + 34 \<or> p + 40 \<le> b \<Longrightarrow> udp_perm p b = b"
  by (auto simp: udp_perm_def swap2_def)

lemma icmp_perm_fix: "b < p + 36 \<or> p + 42 \<le> b \<Longrightarrow> icmp_perm p b = b"
  by (auto simp: icmp_perm_def swap2_def)

lemma ldb_with_cksum: "b < a \<or> a + 1 < b \<Longrightarrow> ldb (with_cksum a f m) b = ldb m b"
  by (auto simp: with_cksum_def Let_def ldb_sth)

section \<open>Packets on the wire\<close>

text \<open>The transport header in network order, and the whole packet as the receiver's \<^verbatim>\<open>netin\<close> hands it on.\<close>

definition transport :: "int \<Rightarrow> memory \<Rightarrow> memory" where
  "transport p m =
    (if ldb m (p + 23) = IP_UDP then udp_hton p (sth (p + 40) 0 m)
     else if ldb m (p + 23) = IP_ICMP then with_cksum (p + 36) (\<lambda>m. icmp_cksum m (p + 34) (ldh m (p + 16) - IP_HDR_LEN)) (icmp_hton p m)
     else m)"

lemma ip_finish_eq:
  "ip_finish p m = eth_hton p (with_cksum (p + 24) (\<lambda>m. ipcksum m p) (ip_hton p (transport p m)))"
  by (simp add: ip_finish_def transport_def with_cksum_def Let_def)

lemma transport_header: "b < p + 34 \<Longrightarrow> ldb (transport p m) b = ldb m b"
  by (simp add: transport_def ldb_udp_ntoh ldb_icmp_ntoh udp_perm_fix icmp_perm_fix ldb_sth ldb_with_cksum)

lemma wire_bytes:
  assumes "b < p + 24 \<or> p + 25 < b"
  shows "ldb (eth_ntoh p (ip_finish p m)) b = ldb (transport p m) (ip_swaps p b)"
proof -
  have "ldb (with_cksum (p + 24) (\<lambda>m. ipcksum m p) (ip_hton p (transport p m))) b = ldb (ip_hton p (transport p m)) b"
    by (rule ldb_with_cksum) (use assms in auto)
  then show ?thesis by (simp add: ip_finish_eq ldb_eth_ntoh ldb_ip_ntoh)
qed

text \<open>What the receiver sees after \<^verbatim>\<open>ip_ntoh\<close>.\<close>

lemma wire_ip:
  assumes "b < p + 24 \<or> p + 25 < b"
  shows "ldb (ip_ntoh p (eth_ntoh p (ip_finish p m))) b = ldb (transport p m) b"
  using wire_bytes[OF ip_swaps_cksum[OF assms], of m] by (simp add: ldb_ip_ntoh)

lemma wire_cksum:
  assumes "ldb m (p + 14) \<noteq> 0"
  shows "ipcksum (eth_ntoh p (ip_finish p m)) p = 0"
proof -
  let ?h = "ip_hton p (transport p m)" let ?w = "with_cksum (p + 24) (\<lambda>m. ipcksum m p) ?h"
  have "ldb ?h (p + 14) = ldb m (p + 14)" by (simp add: ldb_ip_ntoh ip_swaps_fix transport_header)
  then have "ipcksum ?w p = 0" using ip_cksum_run[of ?h p] assms by simp
  moreover have "wsum 10 (eth_ntoh p (ip_finish p m)) (p + 14) = wsum 10 ?w (p + 14)"
    by (rule wsum_cong) (simp add: ip_finish_eq ldb_eth_ntoh)
  ultimately show ?thesis by (simp add: ipcksum_value)
qed

text \<open>C15: 
  A UDP packet, or one of a protocol that the stack does not know, comes out of \<^verbatim>\<open>ip_in\<close>'s checks and
  conversions as the packet that was given to \<^verbatim>\<open>ip_out\<close>: only the checksum fields may differ.
\<close>

theorem ip_wire_roundtrip:
  assumes wire: "mm sd = eth_ntoh p (ip_finish p m)" and vh: "ldb m (net_ipvh p) = 0x45" and proto: "ldb m (net_ipproto p) \<noteq> IP_ICMP"
  shows "\<exists>m'. ip_in p sd = ip_filter p (wr (\<lambda>_. m') sd) \<and>
    (\<forall>b. (b < net_ipcksum p \<or> net_ipsrc p \<le> b) \<and> (b < net_udpcksum p \<or> net_udpdata p \<le> b) \<longrightarrow> ldb m' b = ldb m b)"
proof -
  let ?m1 = "ip_ntoh p (mm sd)"
  let ?m' = "if ldb m (p + 23) = IP_UDP then udp_ntoh p ?m1 else ?m1"
  have b: "ldb ?m1 b = ldb (transport p m) b" if "b < p + 24 \<or> p + 25 < b" for b using wire_ip[OF that] wire by simp
  have h: "ldb ?m1 (p + 14) = 0x45" "ldb ?m1 (p + 23) = ldb m (p + 23)" using vh by (simp_all add: b transport_header)
  have w: "wr (udp_ntoh p) (wr (ip_ntoh p) sd) = wr (\<lambda>_. udp_ntoh p ?m1) sd" "wr (ip_ntoh p) sd = wr (\<lambda>_. ?m1) sd"
    by (simp_all add: wr_def upmem_def mm_def)
  have "ipcksum (mm sd) p = 0" unfolding wire by (rule wire_cksum) (use vh in simp)
  then have "ip_in p sd = ip_filter p (wr (\<lambda>_. ?m') sd)"
    using h proto w by (auto simp: ip_in_def Let_def)
  moreover have "ldb ?m' b = ldb m b" if o: "(b < p + 24 \<or> p + 26 \<le> b) \<and> (b < p + 40 \<or> p + 42 \<le> b)" for b
  proof (cases "ldb m (p + 23) = IP_UDP")
    case True
    have "udp_perm p b < p + 24 \<or> p + 25 < udp_perm p b" using o by (auto simp: udp_perm_def swap2_def)
    then have "ldb ?m' b = ldb (transport p m) (udp_perm p b)" using True by (simp add: ldb_udp_ntoh b)
    also have "\<dots> = ldb m b" using True o by (auto simp: transport_def ldb_udp_ntoh ldb_sth)
    finally show ?thesis .
  next
    case False
    then show ?thesis using proto o b[of b] by (auto simp: transport_def)
  qed
  ultimately show ?thesis by (intro exI[of _ ?m']) simp
qed

text \<open>C30: 
  An ICMP packet comes out in the same way unless the sum of its message has lost a carry; then the
  receiver finds its checksum wrong and drops it.
\<close>

theorem icmp_wire_roundtrip:
  assumes wire: "mm sd = eth_ntoh p (ip_finish p m)" and vh: "ldb m (net_ipvh p) = 0x45" and proto: "ldb m (net_ipproto p) = IP_ICMP"
    and len: "ldh m (net_iplen p) = IP_HDR_LEN + int len" "4 \<le> len"
  shows "if lost_carry (msg_sum (sth (net_iccksum p) 0 (icmp_hton p m)) (net_ictype p) len)
    then ip_in p sd = freepkt p (wr (ip_ntoh p) sd)
    else \<exists>m'. ip_in p sd = ip_filter p (wr (\<lambda>_. m') sd) \<and>
      (\<forall>b. (b < net_ipcksum p \<or> net_ipsrc p \<le> b) \<and> (b < net_iccksum p \<or> net_icident p \<le> b) \<longrightarrow> ldb m' b = ldb m b)"
proof -
  let ?m1 = "ip_ntoh p (mm sd)" let ?t = "transport p m" let ?h = "icmp_hton p m"
  have len2: "len \<le> 65535" using ldh_range(2)[of m "p + 16"] len(1) unfolding IP_HDR_LEN_def net_iplen_def by linarith
  have b: "ldb ?m1 b = ldb ?t b" if "b < p + 24 \<or> p + 25 < b" for b using wire_ip[OF that] wire by simp
  have h: "ldb ?m1 (p + 14) = 0x45" "ldb ?m1 (p + 23) = 1" "ldh ?m1 (p + 16) = 20 + int len"
    using vh proto len(1) by (simp_all add: b transport_header ldh_def add.assoc)
  have "ldh (sth (p + 36) 0 ?h) (p + 16) = 20 + int len"
    using len(1) by (simp add: ldh_def ldb_sth ldb_icmp_ntoh icmp_perm_fix add.assoc)
  then have t: "?t = with_cksum (p + 34 + 2) (\<lambda>m. icmp_cksum m (p + 34) (int len)) ?h"
    using proto by (simp add: transport_def with_cksum_def Let_def add.assoc)
  have "msg_sum ?m1 (p + 34) len = msg_sum ?t (p + 34) len" by (rule msg_sum_cong) (simp add: b)
  then have c: "icmp_cksum ?m1 (p + 34) (int len) = 0 \<longleftrightarrow> \<not> lost_carry (msg_sum (sth (p + 36) 0 ?h) (p + 34) len)"
    using icmp_cksum_run[OF len(2) len2, of "p + 34" ?h] icmp_cksum_value[OF len2] by (simp add: t add.assoc)
  have w: "wr (icmp_ntoh p) (wr (ip_ntoh p) sd) = wr (\<lambda>_. icmp_ntoh p ?m1) sd" by (simp add: wr_def upmem_def mm_def)
  have ck: "ipcksum (mm sd) p = 0" unfolding wire by (rule wire_cksum) (use vh in simp)
  show ?thesis
  proof (cases "lost_carry (msg_sum (sth (p + 36) 0 ?h) (p + 34) len)")
    case True
    then show ?thesis using h ck c by (simp add: ip_in_def Let_def)
  next
    case False
    then have "ip_in p sd = ip_filter p (wr (\<lambda>_. icmp_ntoh p ?m1) sd)" using h ck c w by (simp add: ip_in_def Let_def)
    moreover have "ldb (icmp_ntoh p ?m1) b = ldb m b" if o: "(b < p + 24 \<or> p + 26 \<le> b) \<and> (b < p + 36 \<or> p + 38 \<le> b)" for b
    proof -
      have q: "icmp_perm p b < p + 24 \<or> p + 25 < icmp_perm p b" "icmp_perm p b < p + 36 \<or> p + 37 < icmp_perm p b"
        using o by (auto simp: icmp_perm_def swap2_def)
      then have "ldb (icmp_ntoh p ?m1) b = ldb ?t (icmp_perm p b)" by (simp add: ldb_icmp_ntoh b)
      also have "\<dots> = ldb m b" unfolding t using q(2) by (subst ldb_with_cksum) (simp_all add: ldb_icmp_ntoh add.assoc)
      finally show ?thesis .
    qed
    ultimately show ?thesis using False by auto
  qed
qed

end
