(* ===== verification/Arp_Spec.thy ===== *)
theory Arp_Spec
  imports Udp_Spec
begin

text \<open>
  What address resolution promises, whatever other processes do in between: no two entries of the cache
  in use have the same address; and a reply that comes in while a process waits resolves the entry and
  tells that process. Also here: the queue of an ICMP endpoint, which wears out.
\<close>

section \<open>Invariants of steps\<close>

text \<open>
  \<open>I\<close> holds at every switch and at the end, provided that it holds whenever the caller is resumed. An
  operation that faults does not return, so nothing is claimed of it.
\<close>

primrec keeps :: "('s \<Rightarrow> bool) \<Rightarrow> ('s, 'a) step \<Rightarrow> bool" where
  "keeps I Fault = True"
| "keeps I (Return a s) = I s"
| "keeps I (Switch s k) = (I s \<and> (\<forall>s'. I s' \<longrightarrow> keeps I (k s')))"

lemma keeps_bindk: "keeps I t \<Longrightarrow> (\<And>a s. I s \<Longrightarrow> keeps I (f a s)) \<Longrightarrow> keeps I (bindk t f)"
  by (induction t) auto

definition arp_used :: "net \<Rightarrow> int \<Rightarrow> bool" where
  "arp_used n i \<longleftrightarrow> 0 \<le> i \<and> i < ARP_SIZ \<and> arstate (arpcache n i) \<noteq> AR_FREE"

definition arp_ok :: "net \<Rightarrow> bool" where
  "arp_ok n \<longleftrightarrow> (\<forall>i j. arp_used n i \<longrightarrow> arp_used n j \<longrightarrow> arpaddr (arpcache n i) = arpaddr (arpcache n j) \<longrightarrow> i = j)"

abbreviation arp_keeps :: "(nstate, 'a) step \<Rightarrow> bool" where
  "arp_keeps t \<equiv> keeps (\<lambda>sd. arp_ok (snd sd)) t"

named_theorems keeps_intros \<open>rules for the operations that keep the cache consistent\<close>

lemma keeps_onk [keeps_intros]: "arp_ok (snd sd) \<Longrightarrow> arp_keeps (onk f sd)"
proof -
  have "arp_ok d \<Longrightarrow> arp_keeps (ext t d)" for t :: "(kstate, 'a) step" and d
    by (induction t arbitrary: d) auto
  then show "arp_ok (snd sd) \<Longrightarrow> arp_keeps (onk f sd)" by (simp add: onk_def)
qed

lemma keeps_Return [keeps_intros]: "arp_ok (snd sd) \<Longrightarrow> arp_keeps (Return a sd)"
  by simp

lemma keeps_if [keeps_intros]: "(b \<Longrightarrow> arp_keeps t) \<Longrightarrow> (\<not> b \<Longrightarrow> arp_keeps u) \<Longrightarrow> arp_keeps (if b then t else u)"
  by simp

lemmas [keeps_intros] = keeps_bindk

text \<open>A change of the state that leaves the cache alone.\<close>

lemma arp_ok_same: "arpcache n' = arpcache n \<Longrightarrow> arp_ok n' = arp_ok n"
  by (simp add: arp_ok_def arp_used_def)

lemma arp_ok_other [simp]:
  "arp_ok (upudp i f n) = arp_ok n" "arp_ok (upicmp i g n) = arp_ok n" "arp_ok (upeth h n) = arp_ok n" "arp_ok (upcsr c n) = arp_ok n"
  "arp_ok (n\<lparr>ipoqueue := q\<rparr>) = arp_ok n" "arp_ok (n\<lparr>ipident := x\<rparr>) = arp_ok n" "arp_ok (n\<lparr>ident_send := x\<rparr>) = arp_ok n"
  "arp_ok (n\<lparr>ident_sendto := x\<rparr>) = arp_ok n"
  by (simp_all add: arp_ok_def arp_used_def upudp_def upicmp_def upeth_def upcsr_def)

section \<open>The cache\<close>

lemma arp_find_spec:
  "i \<le> arp_find k i addr n \<and> arp_find k i addr n \<le> i + int k \<and>
   (arp_find k i addr n < i + int k \<longrightarrow> arstate (arpcache n (arp_find k i addr n)) \<noteq> AR_FREE \<and>
      arpaddr (arpcache n (arp_find k i addr n)) = addr) \<and>
   (\<forall>j. i \<le> j \<and> j < arp_find k i addr n \<longrightarrow> arstate (arpcache n j) = AR_FREE \<or> arpaddr (arpcache n j) \<noteq> addr)"
proof (induction k arbitrary: i)
  case (Suc k)
  have j: "j = i \<or> i + 1 \<le> j" if "i \<le> j" for j using that by linarith
  show ?case
  proof (cases "arstate (arpcache n i) \<noteq> AR_FREE \<and> arpaddr (arpcache n i) = addr")
    case False
    then have "arp_find (Suc k) i addr n = arp_find k (i + 1) addr n" by auto
    then show ?thesis using Suc.IH[of "i + 1"] False j by (auto simp: algebra_simps)
  qed auto
qed auto

lemma arp_find_none:
  assumes "arp_find (nat ARP_SIZ) 0 addr n \<ge> ARP_SIZ" "arp_used n j"
  shows "arpaddr (arpcache n j) \<noteq> addr"
proof -
  have "\<forall>j. 0 \<le> j \<and> j < arp_find (nat ARP_SIZ) 0 addr n \<longrightarrow> arstate (arpcache n j) = AR_FREE \<or> arpaddr (arpcache n j) \<noteq> addr"
    using arp_find_spec[of 0 "nat ARP_SIZ" addr n] by blast
  then show ?thesis using assms by (auto simp: arp_used_def)
qed

lemma arp_find_unique:
  assumes "arp_ok n" "arp_used n i"
  shows "arp_find (nat ARP_SIZ) 0 (arpaddr (arpcache n i)) n = i"
proof -
  let ?f = "arp_find (nat ARP_SIZ) 0 (arpaddr (arpcache n i)) n"
  note f = arp_find_spec[of 0 "nat ARP_SIZ" "arpaddr (arpcache n i)" n]
  have "?f < ARP_SIZ" using arp_find_none[of "arpaddr (arpcache n i)" n i] assms by force
  then have "arp_used n ?f" "arpaddr (arpcache n ?f) = arpaddr (arpcache n i)"
    using f by (auto simp: arp_used_def)
  then show ?thesis using assms unfolding arp_ok_def by blast
qed

lemma arp_scan_spec:
  "0 \<le> i \<Longrightarrow> arp_scan k i st n \<noteq> SYSERR \<Longrightarrow> i \<le> arp_scan k i st n \<and> arp_scan k i st n < i + int k \<and> arstate (arpcache n (arp_scan k i st n)) = st"
proof (induction k arbitrary: i)
  case (Suc k)
  show ?case
  proof (cases "arstate (arpcache n i) = st")
    case False
    then have "i + 1 \<le> arp_scan k (i + 1) st n \<and> arp_scan k (i + 1) st n < i + 1 + int k \<and>
        arstate (arpcache n (arp_scan k (i + 1) st n)) = st" using Suc.IH[of "i + 1"] Suc.prems by simp
    then show ?thesis using False by simp
  qed simp
qed simp

lemma arp_alloc_spec:
  assumes "arp_alloc n = (slot, n')"
  shows "slot = SYSERR \<and> n' = n \<or> 0 \<le> slot \<and> slot < ARP_SIZ \<and> arstate (arpcache n slot) \<noteq> AR_PENDING \<and> n' = uparp slot (\<lambda>_. arp_zero) n"
  using assms arp_scan_spec[of 0 "nat ARP_SIZ" AR_FREE n] arp_scan_spec[of 0 "nat ARP_SIZ" AR_RESOLVED n]
  by (auto simp: arp_alloc_def Let_def split: if_splits)

text \<open>Changes of one entry that keep the cache consistent.\<close>

lemma uparp_cache: "arpcache (uparp i f n) j = (if j = i then f (arpcache n i) else arpcache n j)"
  by (simp add: uparp_def)

lemma arp_ok_free:
  assumes "arp_ok n" "arstate (f (arpcache n i)) = AR_FREE"
  shows "arp_ok (uparp i f n)"
proof -
  have "arp_used n j \<and> j \<noteq> i" if "arp_used (uparp i f n) j" for j
    using that assms(2) by (auto simp: arp_used_def uparp_cache split: if_splits)
  then show ?thesis using assms(1) unfolding arp_ok_def uparp_cache by metis
qed

lemma arp_ok_keep:
  assumes "arp_ok n" "arpaddr (f (arpcache n i)) = arpaddr (arpcache n i)" "arstate (arpcache n i) \<noteq> AR_FREE"
  shows "arp_ok (uparp i f n)"
proof -
  have "arp_used n j" if "arp_used (uparp i f n) j" for j
    using that assms(3) by (auto simp: arp_used_def uparp_cache split: if_splits)
  moreover have "arpaddr (arpcache (uparp i f n) j) = arpaddr (arpcache n j)" for j using assms(2) by (simp add: uparp_cache)
  ultimately show ?thesis using assms(1) unfolding arp_ok_def by simp
qed

lemma arp_ok_new:
  assumes "arp_ok n" "\<And>j. arp_used n j \<Longrightarrow> arpaddr (arpcache n j) \<noteq> addr" "arpaddr (f (arpcache n i)) = addr"
  shows "arp_ok (uparp i f n)"
proof -
  have "j = i \<or> arp_used n j" if "arp_used (uparp i f n) j" for j
    using that by (auto simp: arp_used_def uparp_cache)
  then show ?thesis using assms unfolding arp_ok_def uparp_cache by metis
qed

text \<open>A fresh entry for an address that is not in the cache.\<close>

lemma arp_ok_alloc:
  assumes ok: "arp_ok n" and none: "arp_find (nat ARP_SIZ) 0 addr n \<ge> ARP_SIZ" and al: "arp_alloc n = (slot, n')" "slot \<noteq> SYSERR"
    and f: "arpaddr (f (arpcache n' slot)) = addr"
  shows "arp_ok (uparp slot f n')"
proof -
  have s: "0 \<le> slot" "slot < ARP_SIZ" "n' = uparp slot (\<lambda>_. arp_zero) n" using arp_alloc_spec[OF al(1)] al(2) by auto
  have "arp_ok n'" unfolding s(3) by (rule arp_ok_free[OF ok]) (simp add: arp_zero_def)
  moreover have "arpaddr (arpcache n' j) \<noteq> addr" if "arp_used n' j" for j
  proof -
    have "j \<noteq> slot" "arp_used n j" using that by (auto simp: s(3) arp_used_def uparp_cache arp_zero_def split: if_splits)
    then show ?thesis using arp_find_none[OF none] by (simp add: s(3) uparp_cache)
  qed
  ultimately show ?thesis using f by (rule arp_ok_new)
qed

section \<open>Keeping the cache consistent\<close>

lemma keeps_ethwrite [keeps_intros]: "arp_ok (snd sd) \<Longrightarrow> arp_keeps (ethwrite buf count sd)"
  unfolding ethwrite_def ethwrite_rest_def Let_def
  by (intro keeps_intros) (auto split: option.splits)

lemma keeps_freepkt [keeps_intros]: "arp_ok (snd sd) \<Longrightarrow> arp_keeps (freepkt pkt sd)"
  unfolding freepkt_def by (intro keeps_intros)

lemma keeps_retry [keeps_intros]: "arp_ok (snd sd) \<Longrightarrow> arp_keeps (arp_retry k apkt msg sd)"
proof (induction k arbitrary: msg sd)
  case (Suc k)
  show ?case unfolding arp_retry.simps by (intro keeps_intros Suc)
qed simp

lemma keeps_answer [keeps_intros]: "arp_ok (snd sd) \<Longrightarrow> arp_keeps (arp_answer slot mac msg sd)"
  unfolding arp_answer_def by (intro keeps_intros) (simp_all add: arp_ok_free)

lemma keeps_resolve [keeps_intros]:
  assumes "arp_ok (snd sd)"
  shows "arp_keeps (arp_resolve apkt nxthop mac sd)"
proof -
  let ?n = "snd sd"
  obtain slot n' where al: "arp_alloc ?n = (slot, n')" by (cases "arp_alloc ?n")
  have "arp_keeps (arp_ask apkt nxthop slot mac (fst sd, n'))"
    if "arp_find (nat ARP_SIZ) 0 nxthop ?n \<ge> ARP_SIZ" "slot \<noteq> SYSERR"
    unfolding arp_ask_def Let_def
    by (intro keeps_intros) (use arp_ok_alloc[OF assms that(1) al that(2)] in simp_all)
  moreover have "arp_ok n'" using arp_alloc_spec[OF al] assms by (auto intro: arp_ok_free simp: arp_zero_def)
  moreover have "arstate (arpcache ?n (arp_find (nat ARP_SIZ) 0 nxthop ?n)) \<noteq> AR_FREE"
    if "arp_find (nat ARP_SIZ) 0 nxthop ?n < ARP_SIZ"
    using arp_find_spec[of 0 "nat ARP_SIZ" nxthop ?n] that by simp
  ultimately show ?thesis unfolding arp_resolve_def Let_def al prod.case
    by (cases "arp_find (nat ARP_SIZ) 0 nxthop ?n < ARP_SIZ";
        cases "arstate (arpcache ?n (arp_find (nat ARP_SIZ) 0 nxthop ?n))"; intro keeps_if keeps_Return)
      (use assms in simp_all)
qed

lemma keeps_update [keeps_intros]:
  assumes "arp_ok (snd sd)" "slot < ARP_SIZ \<Longrightarrow> arstate (arpcache (snd sd) slot) \<noteq> AR_FREE"
  shows "arp_keeps (arp_update pktptr slot sd)"
  unfolding arp_update_def Let_def
  by (intro keeps_intros) (use assms in \<open>auto intro!: arp_ok_keep simp: uparp_cache\<close>)

lemma keeps_respond [keeps_intros]: "arp_ok (snd sd) \<Longrightarrow> arp_keeps (arp_respond apkt pktptr sd)"
  unfolding arp_respond_def by (intro keeps_intros) simp_all

lemma keeps_arp_in [keeps_intros]:
  assumes "arp_ok (snd sd)"
  shows "arp_keeps (arp_in apkt pktptr sd)"
proof -
  let ?sd = "wr (arp_ntoh pktptr) sd" let ?addr = "ldw (mm ?sd) (arp_sndpa pktptr)"
  let ?slot = "arp_find (nat ARP_SIZ) 0 ?addr (snd sd)"
  have ok: "arp_ok (snd ?sd)" using assms by simp
  show ?thesis
  proof (cases "?slot < ARP_SIZ")
    case True
    then have "arstate (arpcache (snd ?sd) ?slot) \<noteq> AR_FREE" using arp_find_spec[of 0 "nat ARP_SIZ" ?addr "snd sd"] by simp
    then show ?thesis unfolding arp_in_def Let_def mm_wr(2) if_P[OF True] by (intro keeps_intros) (use ok in simp_all)
  next
    case False
    obtain slot n' where al: "arp_alloc (snd sd) = (slot, n')" by (cases "arp_alloc (snd sd)")
    have up: "arp_update pktptr ?slot ?sd = Return () ?sd" unfolding arp_update_def if_not_P[OF False] by simp
    have "arp_ok (snd (snd (arp_learn pktptr ?sd)))"
    proof (cases "slot = SYSERR")
      case True
      then show ?thesis using arp_alloc_spec[OF al] assms by (simp add: arp_learn_def al)
    next
      case s: False
      then show ?thesis using arp_ok_alloc[OF assms _ al s, of ?addr] False by (simp add: arp_learn_def al)
    qed
    then show ?thesis unfolding arp_in_def Let_def mm_wr(2) up bindk.simps if_not_P[OF False] case_prod_beta
      by (intro keeps_intros) (use ok in simp_all)
  qed
qed

section \<open>The rest of the stack\<close>

lemma keeps_wr [keeps_intros]: "arp_keeps (f (wr g sd)) \<Longrightarrow> arp_keeps (let sd = wr g sd in f sd)"
  by simp

lemma keeps_udp_accept [keeps_intros]: "arp_ok (snd sd) \<Longrightarrow> arp_keeps (udp_accept i pkt sd)"
  unfolding udp_accept_def by (cases "udp_put pkt (udptab (snd sd) i)") (auto intro!: keeps_intros)

lemma keeps_udp_in [keeps_intros]: "arp_ok (snd sd) \<Longrightarrow> arp_keeps (udp_in pkt sd)"
  unfolding udp_in_dest by (cases "udp_dest (mm sd) pkt (snd sd)") (auto intro!: keeps_intros)

lemma keeps_mkpkt [keeps_intros]: "arp_ok (snd sd) \<Longrightarrow> arp_keeps (icmp_mkpkt remip type ident seq buf len sd)"
  unfolding icmp_mkpkt_def by (intro keeps_intros) simp_all

lemma keeps_ip_enqueue [keeps_intros]: "arp_ok (snd sd) \<Longrightarrow> arp_keeps (ip_enqueue pkt sd)"
  unfolding ip_enqueue_def by (intro keeps_intros) (auto split: option.split intro!: keeps_intros)

lemma keeps_icmp_accept [keeps_intros]: "arp_ok (snd sd) \<Longrightarrow> arp_keeps (icmp_accept i pkt sd)"
  unfolding icmp_accept_def by (cases "icmp_put pkt (icmptab (snd sd) i)") (auto intro!: keeps_intros)

lemma keeps_icmp_in [keeps_intros]: "arp_ok (snd sd) \<Longrightarrow> arp_keeps (icmp_in pkt sd)"
  unfolding icmp_in_def icmp_echo_def Let_def by (intro keeps_intros)

lemma keeps_ip_local [keeps_intros]: "arp_ok (snd sd) \<Longrightarrow> arp_keeps (ip_local pkt sd)"
  unfolding ip_local_def by (intro keeps_intros)

lemma keeps_ip_in [keeps_intros]: "arp_ok (snd sd) \<Longrightarrow> arp_keeps (ip_in pkt sd)"
  unfolding ip_in_def ip_filter_def Let_def by (intro keeps_intros) simp_all

lemma keeps_ip_out [keeps_intros]: "arp_ok (snd sd) \<Longrightarrow> arp_keeps (ip_out pkt sd)"
  unfolding ip_out_def Let_def by (intro keeps_intros) simp_all

lemma keeps_ip_forward [keeps_intros]: "arp_ok (snd sd) \<Longrightarrow> arp_keeps (ip_forward apkt pkt dest sd)"
  unfolding ip_forward_def Let_def by (intro keeps_intros)

lemma keeps_ip_send [keeps_intros]: "arp_ok (snd sd) \<Longrightarrow> arp_keeps (ip_send apkt pkt sd)"
  unfolding ip_send_def Let_def by (intro keeps_intros) simp_all

lemma keeps_ipout [keeps_intros]: "arp_ok (snd sd) \<Longrightarrow> arp_keeps (ipout_round apkt sd)"
  unfolding ipout_round_def
  by (intro keeps_intros) (auto simp: ipout_packet_def Let_def split: option.split intro!: keeps_intros)

lemma keeps_netin [keeps_intros]: "arp_ok (snd sd) \<Longrightarrow> arp_keeps (netin_round apkt sd)"
  unfolding netin_round_def netin_packet_def ethread_def ethread_rest_def Let_def
  by (intro keeps_intros) (auto split: option.splits intro!: keeps_intros)

lemma keeps_udp_send [keeps_intros]: "arp_ok (snd sd) \<Longrightarrow> arp_keeps (udp_send apkt slot buff len sd)"
  unfolding udp_send_def Let_def by (intro keeps_intros) simp_all

lemma keeps_udp_sendto [keeps_intros]: "arp_ok (snd sd) \<Longrightarrow> arp_keeps (udp_sendto apkt slot remip remport buff len sd)"
  unfolding udp_sendto_def Let_def by (intro keeps_intros) simp_all

lemma keeps_icmp_send [keeps_intros]: "arp_ok (snd sd) \<Longrightarrow> arp_keeps (icmp_send apkt remip type ident seq buf len sd)"
  unfolding icmp_send_def by (intro keeps_intros)

lemma arp_init_ok:
  assumes "arstate (arpcache n 0) = AR_FREE"
  shows "arp_ok (arp_init n)"
proof -
  have "\<not> arp_used (arp_init n) j" for j
  proof -
    have l: "arpcache (arp_init_loop k i n) j = (if i \<le> j \<and> j < i + int k then (arpcache n j)\<lparr>arstate := AR_FREE\<rparr> else arpcache n j)" for k i n j
      by (induction k arbitrary: i n) (auto simp: uparp_cache)
    show ?thesis using assms by (cases "j = 0") (auto simp: arp_used_def arp_init_def l)
  qed
  then show ?thesis by (simp add: arp_ok_def)
qed

text \<open>C16: 
  No two entries of the cache in use ever have the same address: this holds after \<^verbatim>\<open>arp_init\<close>, and every
  round of the two network processes and every call that sends a packet keep it, at every point where
  another process may run as well as at the end.
\<close>

theorem arp_cache_consistent:
  "(arstate (arpcache n 0) = AR_FREE \<longrightarrow> arp_ok (arp_init n)) \<and>
   (arp_ok (snd sd) \<longrightarrow> arp_keeps (netin_round apkt sd) \<and> arp_keeps (ipout_round apkt sd) \<and>
     arp_keeps (udp_send apkt slot buff len sd) \<and> arp_keeps (udp_sendto apkt slot remip remport buff len sd) \<and>
     arp_keeps (icmp_send apkt remip type ident seq buff len sd) \<and> arp_keeps (arp_resolve apkt remip mac sd))"
  by (intro conjI impI arp_init_ok keeps_intros)

section \<open>Resolving an address\<close>

text \<open>The state in which \<^verbatim>\<open>arp_resolve\<close> makes its request: the entry is pending for the current process.\<close>

definition asking :: "int \<Rightarrow> int \<Rightarrow> nstate \<Rightarrow> nstate" where
  "asking i nxthop sd = upn (uparp i (\<lambda>e. e\<lparr>arstate := AR_PENDING, arpaddr := nxthop, arpid := currpid (fst sd)\<rparr>)) sd"

lemma resched_switch: "resched s = Switch s' k \<Longrightarrow> k = Return ()"
  by (auto simp: resched_def resched_force_def Let_def liftk_def split: if_splits option.splits prod.splits)

text \<open>A process that waits in \<^verbatim>\<open>recvtime\<close> and is switched in with a message takes the message.\<close>

lemma recvtime_resumed:
  assumes "recvtime w s = Switch s1 c" "prhasmsg (proctab s' (currpid s))"
  shows "c s' = Return (prmsg (proctab s' (currpid s))) (upp (currpid s) (\<lambda>e. e\<lparr>prhasmsg := False\<rparr>) s')"
proof -
  let ?take = "\<lambda>s'. if prhasmsg (proctab s' (currpid s))
    then Return (prmsg (proctab s' (currpid s))) (upp (currpid s) (\<lambda>e. e\<lparr>prhasmsg := False\<rparr>) s') else Return (u32 TIMEOUT) s'"
  obtain r t where "insertd (currpid s) (sleepq s) w s = Some (r, t)" "r \<noteq> SYSERR"
    "bindk (resched (set_prstate (currpid s) PR_RECTIM t)) (\<lambda>_. ?take) = Switch s1 c"
    using assms(1) by (auto simp: recvtime_def Let_def liftk_def bindk_assoc split: if_splits option.splits prod.splits)
  then show ?thesis
  proof (cases "resched (set_prstate (currpid s) PR_RECTIM t)")
    case (Switch s2 k)
    then have "k = Return ()" "c = (\<lambda>s'. bindk (k s') (\<lambda>_. ?take))" using \<open>bindk _ _ = _\<close> resched_switch by simp_all
    then show ?thesis using assms(2) by simp
  qed (auto split: if_splits)
qed

text \<open>
  The call \<open>t\<close> of process \<open>pid\<close> has lost the processor. When it gets it back with the message \<^verbatim>\<open>OK\<close> and the
  network's data \<open>n\<close>, it takes the message, stores the bytes \<open>ha\<close> at \<open>mac\<close> and returns \<^verbatim>\<open>OK\<close>.
\<close>

definition delivers :: "(nstate, int) step \<Rightarrow> int \<Rightarrow> net \<Rightarrow> int list \<Rightarrow> int \<Rightarrow> bool" where
  "delivers t pid n ha mac \<longleftrightarrow> (\<exists>sd k. t = Switch sd k \<and>
     (\<forall>s. prhasmsg (proctab s pid) \<and> prmsg (proctab s pid) = OK \<longrightarrow>
        k (s, n) = Return OK (wr (stbs ha mac) (upp pid (\<lambda>e. e\<lparr>prhasmsg := False\<rparr>) s, n))))"

lemma arp_retry_answered:
  assumes "ethwrite apkt arp_size sd0 = Return v sd1" "recvtime ARP_TIMEOUT (fst sd1) = Switch s1 c"
  shows "delivers (bindk (arp_retry (Suc k) apkt msg sd0) (arp_answer slot mac)) (currpid (fst sd1)) n (arhaddr (arpcache n slot)) mac"
  unfolding delivers_def using assms recvtime_resumed[OF assms(2)[unfolded ARP_TIMEOUT_def]]
  by (auto simp: onk_def arp_answer_def)

text \<open>C28: 
  A reply for an address that a process waits for. The reply fills in the pending entry and sends \<^verbatim>\<open>OK\<close> to
  the process. The call of \<^verbatim>\<open>arp_resolve\<close> in that process, wherever it waits, after its first request or after
  a repeated one, is not repeated once more: switched in with the message, it stores the address from the
  reply and returns \<^verbatim>\<open>OK\<close>. A call for the same address in any later state in which the entry is still
  as the reply has left it (it may have been evicted or overwritten) delivers that address at once.
\<close>

theorem arp_reply_resolves:
  assumes ok: "arp_ok n" and i: "arp_used n i" "arstate (arpcache n i) = AR_PENDING" "arpaddr (arpcache n i) = ldw m (arp_sndpa p)"
    and m: "m = arp_ntoh p (mem (hp s))" "ldh m (arp_htype p) = ARP_HTYPE" "ldh m (arp_ptype p) = ARP_PTYPE"
  defines "ha \<equiv> ldbs 6 m (arp_sndha p)"
    and "n' \<equiv> uparp i (\<lambda>e. e\<lparr>arhaddr := ldbs 6 m (arp_sndha p), arstate := AR_RESOLVED\<rparr>) n"
  shows "arp_in apkt p (s, n) = bindk (onk (send (arpid (arpcache n i)) OK) (upmem (\<lambda>_. m) s, n')) (\<lambda>_ sd.
      if ldh (mm sd) (arp_op p) = ARP_OP_RPLY then freepkt p sd
      else if \<not> ipvalid (NetData (snd sd)) \<or> ldw (mm sd) (arp_tarpa p) \<noteq> ipucast (NetData (snd sd)) then freepkt p sd
      else arp_respond apkt p sd) \<and>
    (\<forall>apkt mac nxthop sd0 v sd1 w sd2 s3 c.
      onk recvclr (wr (arp_request apkt nxthop (snd (asking i nxthop sd0))) (asking i nxthop sd0)) = Return v sd1 \<and>
      ethwrite apkt arp_size sd1 = Return w sd2 \<and> recvtime ARP_TIMEOUT (fst sd2) = Switch s3 c \<longrightarrow>
      delivers (arp_ask apkt nxthop i mac sd0) (currpid (fst sd2)) n' ha mac) \<and>
    (\<forall>apkt mac k msg sd1 w sd2 s3 c.
      ethwrite apkt arp_size sd1 = Return w sd2 \<and> recvtime ARP_TIMEOUT (fst sd2) = Switch s3 c \<longrightarrow>
      delivers (bindk (arp_retry (Suc k) apkt msg sd1) (arp_answer i mac)) (currpid (fst sd2)) n' ha mac) \<and>
    (\<forall>apkt mac s'' n''. arp_ok n'' \<and> arpcache n'' i = arpcache n' i \<and>
      ldw m (arp_sndpa p) \<noteq> IP_BCAST \<and> ldw m (arp_sndpa p) \<noteq> ipbcast (NetData n'') \<longrightarrow>
      arp_resolve apkt (ldw m (arp_sndpa p)) mac (s'', n'') = Return OK (wr (stbs ha mac) (s'', n'')))"
proof -
  let ?sd = "(upmem (\<lambda>_. m) s, n)"
  have w: "wr (arp_ntoh p) (s, n) = ?sd" by (simp add: wr_def upmem_def m(1))
  have mm: "mm ?sd = m" by (simp add: mm_def)
  have slot: "arp_find (nat ARP_SIZ) 0 (ldw m (arp_sndpa p)) n = i" using arp_find_unique[OF ok i(1)] i(3) by simp
  have lt: "i < ARP_SIZ" using i(1) by (simp add: arp_used_def)
  have up: "arp_update p i ?sd = bindk (onk (send (arpid (arpcache n i)) OK) (upmem (\<lambda>_. m) s, n')) (\<lambda>_. Return ())"
    using lt i(2) by (simp add: arp_update_def mm Let_def upn_def uparp_def n'_def fun_upd_def cong: if_cong)
  have 1: "arp_in apkt p (s, n) = bindk (onk (send (arpid (arpcache n i)) OK) (upmem (\<lambda>_. m) s, n')) (\<lambda>_ sd.
      if ldh (mm sd) (arp_op p) = ARP_OP_RPLY then freepkt p sd
      else if \<not> ipvalid (NetData (snd sd)) \<or> ldw (mm sd) (arp_tarpa p) \<noteq> ipucast (NetData (snd sd)) then freepkt p sd
      else arp_respond apkt p sd)"
    unfolding arp_in_def w Let_def mm snd_conv slot up if_P[OF lt] bindk_assoc bindk.simps using m(2,3) by simp
  have e: "arpcache n' i = (arpcache n i)\<lparr>arhaddr := ha, arstate := AR_RESOLVED\<rparr>"
    by (simp add: n'_def ha_def uparp_def)
  have ha: "arhaddr (arpcache n' i) = ha" by (simp add: e)
  note told = arp_retry_answered[where slot = i and n = n', unfolded ha]
  have 2: "delivers (arp_ask apkt nxthop i mac sd0) (currpid (fst sd2)) n' ha mac"
    if "onk recvclr (wr (arp_request apkt nxthop (snd (asking i nxthop sd0))) (asking i nxthop sd0)) = Return v sd1"
      "ethwrite apkt arp_size sd1 = Return w sd2" "recvtime ARP_TIMEOUT (fst sd2) = Switch s3 c" for apkt mac nxthop sd0 v sd1 w sd2 s3 c
    using told[OF that(2,3), of 2 "i32 v" mac] that(1)
    by (simp add: arp_ask_def asking_def Let_def numeral_2_eq_2 numeral_3_eq_3)
  have 3: "arp_resolve apkt (ldw m (arp_sndpa p)) mac (s'', n'') = Return OK (wr (stbs ha mac) (s'', n''))"
    if "arp_ok n''" "arpcache n'' i = arpcache n' i" "ldw m (arp_sndpa p) \<noteq> IP_BCAST" "ldw m (arp_sndpa p) \<noteq> ipbcast (NetData n'')"
    for apkt mac s'' n''
  proof -
    have "arp_used n'' i" using i(1) e that(2) by (simp add: arp_used_def)
    then have "arp_find (nat ARP_SIZ) 0 (ldw m (arp_sndpa p)) n'' = i" using arp_find_unique[OF that(1), of i] i(3) e that(2) by simp
    then show ?thesis using that(2-4) lt e unfolding arp_resolve_def Let_def snd_conv by simp
  qed
  show ?thesis
    by (intro conjI allI impI 1) (elim conjE, erule (2) 2, elim conjE, erule (1) told, elim conjE, erule (3) 3)
qed

end
