(* ===== verification/Icmp_Spec.thy ===== *)
theory Icmp_Spec
  imports Ip_Spec Arp_Spec
begin

text \<open>
  Echo requests and replies: a request is answered with a packet that has its identifier, sequence number
  and data, in the queue of the output process; and the queue of an endpoint for replies wears out after
  as many packets as it has places, because its head is wrapped at the wrong bound.
\<close>

section \<open>Endpoints for replies\<close>

text \<open>Replies that arrive and are read one after the other.\<close>

fun icmp_rounds :: "int list \<Rightarrow> icmpentry \<Rightarrow> (int list \<times> icmpentry) option" where
  "icmp_rounds [] e = Some ([], e)"
| "icmp_rounds (p # ps) e = Option.bind (icmp_put p e) (\<lambda>e. Option.bind (icmp_get e) (\<lambda>(q, e).
     map_option (apfst ((#) q)) (icmp_rounds ps e)))"

lemma icmp_rounds_from:
  "ichead e = int k \<Longrightarrow> ictail e = int k mod 8 \<Longrightarrow> iccount e = 0 \<Longrightarrow> k \<le> 8 \<Longrightarrow>
   map_option fst (icmp_rounds ps e) = (if k + length ps \<le> 8 then Some ps else None)"
proof (induction ps arbitrary: k e)
  case (Cons p ps)
  show ?case
  proof (cases "k = 8")
    case True
    then have "icmp_get e' = None" if "icmp_put p e = Some e'" for e'
      using Cons.prems that by (auto simp: icmp_put_def icmp_get_def split: if_splits)
    then show ?thesis using True by (cases "icmp_put p e") auto
  next
    case False
    then have k: "k < 8" "int k mod 8 = int k" using Cons.prems(4) by simp_all
    define e1 where "e1 = e\<lparr>ictail := (if int k + 1 \<ge> 8 then 0 else int k + 1), iccount := 1, icqueue := (icqueue e)(int k := p)\<rparr>"
    define e2 where "e2 = e1\<lparr>ichead := int (Suc k), iccount := 0\<rparr>"
    have put: "icmp_put p e = Some e1" using Cons.prems k by (simp add: icmp_put_def e1_def)
    have get: "icmp_get e1 = Some (p, e2)" using Cons.prems k by (simp add: icmp_get_def e1_def e2_def add.commute)
    have "ictail e2 = int (Suc k) mod 8" using k by (cases "k = 7") (auto simp: e2_def e1_def)
    then have "map_option fst (icmp_rounds ps e2) = (if Suc k + length ps \<le> 8 then Some ps else None)"
      using Cons.IH[of e2 "Suc k"] k by (simp add: e2_def)
    then show ?thesis by (cases "icmp_rounds ps e2") (auto simp: put get split: if_splits)
  qed
qed simp

lemma icmp_register_entry:
  assumes "icmp_register remip n = (slot, n')" "slot \<noteq> SYSERR"
  shows "ichead (icmptab n' slot) = 0" "ictail (icmptab n' slot) = 0" "iccount (icmptab n' slot) = 0"
    "icstate (icmptab n' slot) = ICMP_USED" "icremip (icmptab n' slot) = remip"
  using assms by (auto simp: icmp_register_def Let_def upicmp_def split: option.splits if_splits)

text \<open>C39: 
  A freshly registered endpoint delivers eight replies, each read before the next comes, but reading a
  ninth accesses its queue outside its bounds. And a ninth reply that comes while eight are unread takes
  the place of the first, which is lost together with its buffer.
\<close>

theorem icmp_endpoint_wears_out:
  assumes "icmp_register remip n = (slot, n')" "slot \<noteq> SYSERR"
  shows "map_option fst (icmp_rounds ps (icmptab n' slot)) = (if length ps \<le> 8 then Some ps else None) \<and>
    (\<exists>e. enq_all icmp_put [p0, p1, p2, p3, p4, p5, p6, p7, p8] (icmptab n' slot) = Some e \<and> iccount e = 9 \<and>
       map_option fst (icmp_get e) = Some p8)"
proof -
  note e = icmp_register_entry[OF assms]
  have "map_option fst (icmp_rounds ps (icmptab n' slot)) = (if length ps \<le> 8 then Some ps else None)"
    using icmp_rounds_from[of "icmptab n' slot" 0 ps] e by simp
  moreover have "\<exists>e. enq_all icmp_put [p0, p1, p2, p3, p4, p5, p6, p7, p8] (icmptab n' slot) = Some e \<and> iccount e = 9 \<and>
       map_option fst (icmp_get e) = Some p8"
    using e by (simp add: icmp_put_def icmp_get_def)
  ultimately show ?thesis by blast
qed

section \<open>Answering echo requests\<close>

text \<open>Taking a buffer when the pool has some.\<close>

definition taken :: "int \<Rightarrow> nat \<Rightarrow> kstate \<Rightarrow> kstate" where
  "taken pool c s = snd (take_buf pool (set_count (bpsem (buftab s pool)) (int c) s))"

lemma getbuf_has:
  assumes "pool_has s pool (Suc c)" "int c < 2147483647"
  shows "getbuf pool s = Return (bpnext (buftab s pool) + 4) (taken pool c s)"
proof -
  have "wait (bpsem (buftab s pool)) s = Return OK (set_count (bpsem (buftab s pool)) (int c) s)"
    using wait_has assms by (simp add: pool_has_def add.commute)
  moreover have "buftab (set_count i x s) = buftab s" for i x by (simp add: set_count_def upsem_def)
  ultimately show ?thesis using assms(1) by (simp add: getbuf_def pool_has_def taken_def take_buf_def Let_def)
qed

lemma mem_taken: "mem (hp (taken pool c s)) = (mem (hp s))(bpnext (buftab s pool) := pool)"
  by (simp add: taken_def take_buf_def Let_def setword_def upbuf_def set_count_def upsem_def)

lemma pool_has_taken: "pool_has s pool (Suc c) \<Longrightarrow> pool_has (taken pool c s) pool c"
  by (auto simp: pool_has_def taken_def take_buf_def Let_def setword_def upbuf_def set_count_def upsem_def sem_has_def)

lemma sem_has_taken:
  "sem_has s i x \<Longrightarrow> i \<noteq> bpsem (buftab s pool) \<Longrightarrow> sem_has (taken pool c s) i x"
  by (auto simp: taken_def take_buf_def Let_def setword_def upbuf_def set_count_def upsem_def sem_has_def)

lemma bpsem_taken: "bpsem (buftab (taken pool c s) p) = bpsem (buftab s p)"
  by (simp add: taken_def take_buf_def Let_def setword_def upbuf_def set_count_def upsem_def)

lemma bpsem_set_count [simp]: "buftab (set_count i c s) = buftab s"
  by (simp add: set_count_def upsem_def)

text \<open>What the new packet contains.\<close>

lemma mk_header_fields:
  assumes "length (ethucast (NetData n)) = 6"
  shows "a < p + 6 \<or> p + 34 \<le> a \<Longrightarrow> ldb (mk_header p il iden pr ip n m) a = ldb m a"
    "ldw (mk_header p il iden pr ip n m) (p + 30) = u32 ip" "ldw (mk_header p il iden pr ip n m) (p + 26) = u32 (ipucast (NetData n))"
    "ldh (mk_header p il iden pr ip n m) (p + 16) = u16 il" "ldb (mk_header p il iden pr ip n m) (p + 14) = 0x45"
    "ldb (mk_header p il iden pr ip n m) (p + 23) = pr mod 256"
proof -
  show "a < p + 6 \<or> p + 34 \<le> a \<Longrightarrow> ldb (mk_header p il iden pr ip n m) a = ldb m a"
    using assms by (auto simp: mk_header_def Let_def ldb_stw ldb_sth ldb_stbs)
  show "ldw (mk_header p il iden pr ip n m) (p + 30) = u32 ip" by (simp add: mk_header_def Let_def)
  have "ldb (mk_header p il iden pr ip n m) b = ldb (stw (p + 26) (ipucast (NetData n)) m) b" if "p + 26 \<le> b" "b < p + 30" for b
    using that by (simp add: mk_header_def Let_def ldb_stw)
  then have "ldw (mk_header p il iden pr ip n m) (p + 26) = ldw (stw (p + 26) (ipucast (NetData n)) m) (p + 26)"
    by (simp add: ldw_def ldh_def)
  then show "ldw (mk_header p il iden pr ip n m) (p + 26) = u32 (ipucast (NetData n))" by simp
  have "ldb (mk_header p il iden pr ip n m) b = ldb (sth (p + 16) il m) b" if "p + 16 \<le> b" "b < p + 18" for b
    using that assms by (simp add: mk_header_def Let_def ldb_stw ldb_sth)
  then have "ldh (mk_header p il iden pr ip n m) (p + 16) = ldh (sth (p + 16) il m) (p + 16)" by (simp add: ldh_def)
  then show "ldh (mk_header p il iden pr ip n m) (p + 16) = u16 il" by simp
  show "ldb (mk_header p il iden pr ip n m) (p + 14) = 0x45" "ldb (mk_header p il iden pr ip n m) (p + 23) = pr mod 256"
    using assms by (simp_all add: mk_header_def Let_def ldb_stw ldb_sth)
qed

lemma icmp_fill_fields:
  assumes "length (ethucast (NetData n)) = 6" "p + 42 + int len \<le> buf \<or> buf + int len \<le> p"
    and m: "mr = icmp_fill p ip ty iden sq buf (int len) n m"
  shows "ldw mr (p + 30) = u32 ip" "ldw mr (p + 26) = u32 (ipucast (NetData n))" "ldh mr (p + 16) = u16 (28 + int len)"
    "ldb mr (p + 23) = 1" "ldb mr (p + 34) = ty mod 256" "ldh mr (p + 38) = u16 iden" "ldh mr (p + 40) = u16 sq"
    "ldbs len mr (p + 42) = ldbs len m buf" "a < p + 6 \<or> p + 42 + int len \<le> a \<Longrightarrow> ldb mr a = ldb m a"
proof -
  let ?h = "mk_header p (28 + int len) (ipident n) 1 ip n m"
  let ?f = "sth (p + 40) sq (sth (p + 38) iden (sth (p + 36) 0 (stb (p + 35) 0 (stb (p + 34) ty ?h))))"
  have mr: "mr = copyb len (p + 42) buf ?f" by (simp add: m icmp_fill_def Let_def)
  have dis: "buf + int len \<le> p + 42 \<or> p + 42 + int len \<le> buf" using assms(2) by auto
  have b: "ldb mr a = (if p + 42 \<le> a \<and> a < p + 42 + int len then ldb ?f (buf + (a - (p + 42))) else ldb ?f a)" for a
    unfolding mr by (rule ldb_copyb[OF dis])
  have h: "ldb mr a = ldb ?h a" if "a < p + 34" for a using that by (simp add: b ldb_sth)
  note hf = mk_header_fields[OF assms(1), where p = p and il = "28 + int len" and iden = "ipident n" and pr = 1 and ip = ip and m = m]
  show "ldw mr (p + 30) = u32 ip" using hf(2) by (simp add: ldw_def ldh_def h)
  show "ldw mr (p + 26) = u32 (ipucast (NetData n))" using hf(3) by (simp add: ldw_def ldh_def h)
  show "ldh mr (p + 16) = u16 (28 + int len)" using hf(4) by (simp add: ldh_def h)
  show "ldb mr (p + 23) = 1" using hf(6) by (simp add: h)
  show "ldb mr (p + 34) = ty mod 256" by (simp add: b ldb_sth)
  have "ldh mr (p + 38) = ldh (sth (p + 38) iden m) (p + 38)" by (simp add: ldh_def b ldb_sth)
  then show "ldh mr (p + 38) = u16 iden" by simp
  have "ldh mr (p + 40) = ldh (sth (p + 40) sq m) (p + 40)" by (simp add: ldh_def b ldb_sth)
  then show "ldh mr (p + 40) = u16 sq" by simp
  have far: "ldb ?f a = ldb m a" if "a < p + 6 \<or> p + 42 \<le> a" for a using that hf(1) by (auto simp: ldb_sth)
  show "ldb mr a = ldb m a" if "a < p + 6 \<or> p + 42 + int len \<le> a" for a using that by (auto simp: b far)
  have "ldbs len mr (p + 42) = ldbs len ?f buf" unfolding mr by (rule ldbs_copyb[OF dis])
  also have "\<dots> = ldbs len m buf" by (rule ldbs_cong, rule far) (use assms(2) in auto)
  finally show "ldbs len mr (p + 42) = ldbs len m buf" .
qed

lemma icmp_fill_word:
  assumes "w mod 4 = 0" "w + 4 \<le> p \<or> p + 42 + int len \<le> w" "length (ethucast (NetData n)) = 6"
  shows "icmp_fill p ip ty iden sq buf (int len) n m w = m w"
proof -
  note other = copyb_word_other[OF assms(1)] stb_word_other[OF assms(1)] sth_word_other[OF assms(1)] stw_word_other[OF assms(1)]
    stbs_word_other[OF assms(1)]
  show ?thesis
  proof (cases "w + 4 \<le> p")
    case True
    then show ?thesis using assms(3) unfolding icmp_fill_def mk_header_def Let_def by (simp add: other)
  next
    case False
    then have "p + 42 + int len \<le> w" using assms(2) by simp
    then show ?thesis using assms(3) unfolding icmp_fill_def mk_header_def Let_def by (simp add: other)
  qed
qed

text \<open>C29: 
  An echo request is answered: a new packet with the request's identifier, sequence number and data, for
  the sender of the request, is put at the end of the output queue, and the request's buffer goes back
  to the pool.
\<close>

theorem echo_request_answered:
  fixes s :: kstate and n :: net
  defines "m \<equiv> mem (hp s)" and "pool \<equiv> netbufpool n" and "reply \<equiv> bpnext (buftab s (netbufpool n)) + 4"
  assumes pool: "pool_has s pool (Suc c)" "int c + 1 < 2147483647" "reply mod 4 = 0" "i32 reply \<noteq> SYSERR"
    and pkt: "is_packet pool m pkt" "\<bar>reply - pkt\<bar> \<ge> PACKLEN + 4" "ldb m (net_ictype pkt) = ICMP_ECHOREQST"
    and len: "ldh m (net_iplen pkt) = IP_HDR_LEN + ICMP_HDR_LEN + int len" "int len \<le> 1472"
    and queue: "ip_holds (ipoqueue n) ps (Suc k)" "sem_has s (iqsem (ipoqueue n)) (int j)" "int j < IP_OQSIZ"
      "iqsem (ipoqueue n) \<noteq> bpsem (buftab s pool)"
    and eth: "length (ethucast (NetData n)) = 6"
  shows "\<exists>s' n'. icmp_in pkt (s, n) = Return () (s', n') \<and>
    ip_holds (ipoqueue n') (ps @ [reply]) k \<and> sem_has s' (iqsem (ipoqueue n')) (int j + 1) \<and> pool_has s' pool (Suc c) \<and>
    (let m' = mem (hp s') in ldw m' (net_ipdst reply) = ldw m (net_ipsrc pkt) \<and> ldw m' (net_ipsrc reply) = u32 (ipucast (NetData n)) \<and>
       ldh m' (net_iplen reply) = ldh m (net_iplen pkt) \<and> ldb m' (net_ipproto reply) = IP_ICMP \<and>
       ldb m' (net_ictype reply) = ICMP_ECHOREPLY \<and> ldh m' (net_icident reply) = ldh m (net_icident pkt) \<and>
       ldh m' (net_icseq reply) = ldh m (net_icseq pkt) \<and> ldbs len m' (net_icdata reply) = ldbs len m (net_icdata pkt))"
proof -
  define s1 where "s1 = taken pool c s"
  define m1 where "m1 = mem (hp s1)"
  define F where "F = icmp_fill reply (ldw m (pkt + 26)) 0 (ldh m (pkt + 38)) (ldh m (pkt + 40)) (pkt + 42) (int len) n"
  define n2 where "n2 = n\<lparr>ipident := u32 (ipident n + 1)\<rparr>"
  define s2 where "s2 = upmem F s1"
  obtain q where q: "ip_put reply (ipoqueue n) = Some q" "ip_holds q (ps @ [reply]) k" using ip_q.enq[OF queue(1)] by blast
  have iq: "iqsem q = iqsem (ipoqueue n)" using q(1) by (auto simp: ip_put_def split: if_splits)
  define s3 where "s3 = set_count (iqsem q) (int j + 1) s2"
  define s4 where "s4 = freed pool c pkt s3"
  have m1: "m1 = m(reply - 4 := pool)" by (simp add: m1_def s1_def mem_taken m_def reply_def pool_def)
  have get: "onk (getbuf pool) (s, n) = Return reply (s1, n)"
    using getbuf_has[OF pool(1)] pool(2) by (simp add: onk_def s1_def reply_def pool_def)
  have mk: "icmp_mkpkt (ldw m (pkt + 26)) 0 (ldh m (pkt + 38)) (ldh m (pkt + 40)) (pkt + 42) (int len) (s, n) = Return reply (s2, n2)"
    using get pool(4) by (simp add: icmp_mkpkt_def pool_def[symmetric] wr_def upn_def s2_def n2_def F_def)
  have p2: "pool_has s2 pool c" using pool_has_taken[OF pool(1)] by (simp add: s2_def s1_def)
  have h2: "sem_has s2 (iqsem q) (int j)" using sem_has_taken[OF queue(2,4)] by (simp add: s2_def s1_def iq)
  have ne: "iqsem q \<noteq> bpsem (buftab s2 pool)" using queue(4) by (simp add: iq s2_def s1_def bpsem_taken)
  have enq: "ip_enqueue reply (s2, n2) = Return OK (s3, n2\<lparr>ipoqueue := q\<rparr>)"
    using h2 queue(3) semcount_has[OF h2[unfolded iq]] signal_has[OF h2] q(1)
    by (simp add: ip_enqueue_def onk_def n2_def upn_def s3_def)
  have p3: "pool_has s3 pool c" using p2 ne by (auto simp: pool_has_def s3_def sem_has_def set_count_def upsem_def)
  have w: "(pkt - 4) mod 4 = 0" using pkt(1) unfolding is_packet_def by presburger
  have m3: "mem (hp s3) = F m1" by (simp add: s3_def s2_def m1_def set_count_def upsem_def)
  have "F m1 (pkt - 4) = m1 (pkt - 4)"
    unfolding F_def by (rule icmp_fill_word[OF w _ eth]) (use pkt(2) len(2) in auto)
  then have "is_packet pool (mem (hp s3)) pkt" using pkt(1,2) by (auto simp: m3 is_packet_def m1)
  then have fr: "freepkt pkt (s3, n2\<lparr>ipoqueue := q\<rparr>) = Return () (s4, n2\<lparr>ipoqueue := q\<rparr>)"
    unfolding s4_def using p3 pool(2) by (intro freepkt_has) simp_all
  have run: "icmp_in pkt (s, n) = Return () (s4, n2\<lparr>ipoqueue := q\<rparr>)"
    using pkt(3) len(1) mk enq fr by (simp add: icmp_in_def icmp_echo_def mm_def m_def Let_def)
  have p4: "pool_has s4 pool (Suc c)" unfolding s4_def by (rule pool_has_freed[OF p3])
  have h4: "sem_has s4 (iqsem q) (int j + 1)"
    unfolding s4_def freed_def
  proof (rule set_count_other)
    have "sem_has s3 (iqsem q) (int j + 1)" unfolding s3_def by (rule set_count_has[OF h2])
    then show "sem_has (give_buf pool (pkt - 4) s3) (iqsem q) (int j + 1)"
      by (simp add: sem_has_def give_buf_def upbuf_def setword_def)
    show "bpsem (buftab s3 pool) \<noteq> iqsem q" using ne by (simp add: s3_def)
  qed
  have m4: "mem (hp s4) = (F m1)(pkt - 4 := bpnext (buftab s3 pool))" by (simp add: s4_def mem_freed m3)
  have same: "ldb (mem (hp s4)) a = ldb (F m1) a" if "reply \<le> a" "a < reply + PACKLEN" for a
    unfolding m4 by (rule ldb_upd_word[OF w]) (use that pkt(2) in auto)
  have req: "ldbs len m1 (pkt + 42) = ldbs len m (pkt + 42)"
    unfolding m1 by (rule ldbs_cong, rule ldb_upd_word) (use pool(3) pkt(2) len(2) in \<open>presburger, auto\<close>)
  have "reply + 42 + int len \<le> pkt + 42 \<or> pkt + 42 + int len \<le> reply" using pkt(2) len(2) by auto
  note f = icmp_fill_fields[OF eth this refl, where ip = "ldw m (pkt + 26)" and ty = 0 and iden = "ldh m (pkt + 38)" and
      sq = "ldh m (pkt + 40)" and m = m1, folded F_def]
  have fields: "ldw (mem (hp s4)) (reply + 30) = ldw (F m1) (reply + 30)" "ldw (mem (hp s4)) (reply + 26) = ldw (F m1) (reply + 26)"
    "ldh (mem (hp s4)) (reply + 16) = ldh (F m1) (reply + 16)" "ldh (mem (hp s4)) (reply + 38) = ldh (F m1) (reply + 38)"
    "ldh (mem (hp s4)) (reply + 40) = ldh (F m1) (reply + 40)"
    by (simp_all add: ldw_def ldh_def same)
  have "ldbs len (mem (hp s4)) (reply + 42) = ldbs len (F m1) (reply + 42)"
    by (rule ldbs_cong, rule same) (use len(2) in auto)
  then show ?thesis
    using run q(2) h4 p4 f fields req pkt(2) len
    by (intro exI[of _ s4] exI[of _ "n2\<lparr>ipoqueue := q\<rparr>"]) (simp add: Let_def same)
qed

end
