(* ===== verification/Ether_Spec.thy ===== *)
theory Ether_Spec
  imports Udp_Spec
begin

text \<open>
  What the Ethernet driver promises: \<^verbatim>\<open>ethwrite\<close> appends a frame to the queue of the DMA engine without
  disturbing the frames that are queued, and an interrupt takes back just those descriptors that the
  engine is done with.
\<close>

section \<open>Rings of descriptors\<close>

definition tx_slot :: "ethcblk \<Rightarrow> int \<Rightarrow> int" where
  "tx_slot e i = txRing e + 16 * i"

definition tx_slots :: "ethcblk \<Rightarrow> int set" where
  "tx_slots e = tx_slot e ` {0..<txRingSize e}"

text \<open>The frame of a descriptor.\<close>

definition frame :: "memory \<Rightarrow> int \<Rightarrow> int list" where
  "frame m d = ldbs (nat (ldh m (d + 12))) m (ldw m (d + 4))"

text \<open>
  The ring as \<^verbatim>\<open>ethinit\<close> lays it out: aligned descriptors, and their buffers one behind the other in a
  block of their own from \<open>B\<close> on.
\<close>

definition tx_layout :: "memory \<Rightarrow> ethcblk \<Rightarrow> int \<Rightarrow> bool" where
  "tx_layout m e B \<longleftrightarrow> txRing e mod 4 = 0 \<and> 0 < txRing e \<and> 0 < txRingSize e \<and>
     (\<forall>i. 0 \<le> i \<and> i < txRingSize e \<longrightarrow> ldw m (tx_slot e i + 4) = B + PACKLEN * i) \<and>
     (txRing e + 16 * txRingSize e \<le> B \<or> B + PACKLEN * txRingSize e \<le> txRing e)"

lemma last_desc_linked: "linked m 0 p ds \<Longrightarrow> ds \<noteq> [] \<Longrightarrow> last_desc m p = Some (last ds)"
proof (induction ds arbitrary: p)
  case (Cons d ds)
  then show ?case by (cases ds) (auto simp: last_desc.simps[of m d])
qed simp

lemma ldh_upd_word: "w mod 4 = 0 \<Longrightarrow> a + 1 < w \<or> w + 4 \<le> a \<Longrightarrow> ldh (m(w := v)) a = ldh m a"
  by (rule ldh_cong, rule ldb_upd_word) auto

lemma ldw_upd_word: "w mod 4 = 0 \<Longrightarrow> a + 3 < w \<or> w + 4 \<le> a \<Longrightarrow> ldw (m(w := v)) a = ldw m a"
  by (rule ldw_cong, rule ldb_upd_word) auto

section \<open>Filling a descriptor\<close>

definition fill_desc :: "int \<Rightarrow> int \<Rightarrow> memory \<Rightarrow> memory" where
  "fill_desc d count m = sth (d + 14) ETH_AM335X_TDS (sth (d + 12) count (sth (d + 10) 0 (sth (d + 8) count (m(d := NULL)))))"

lemma fill_tx_eq:
  "fill_tx d buf count m =
    (let m1 = fill_desc d count m; m2 = copyb (nat count) (ldw m1 (d + 4)) buf m1 in
     if count < 60 then sth (d + 12) 60 (sth (d + 8) 60 (fillb (nat (60 - count)) (ldw m2 (d + 4) + count) 0 m2)) else m2)"
  by (simp add: fill_tx_def fill_desc_def Let_def)

lemma ldb_fill_desc:
  "d mod 4 = 0 \<Longrightarrow> a < d \<or> d + 4 \<le> a \<and> a < d + 8 \<or> d + 16 \<le> a \<Longrightarrow> ldb (fill_desc d count m) a = ldb m a"
  unfolding fill_desc_def by (auto simp: ldb_sth ldb_upd_word simp del: fun_upd_apply)

lemma fillb_word_other: "w mod 4 = 0 \<Longrightarrow> a + int n \<le> w \<or> w + 4 \<le> a \<Longrightarrow> fillb n a c m w = m w"
  by (induction n arbitrary: a m) (auto simp: stb_word_other)

text \<open>The places that belong to the descriptor at \<open>d\<close> with its buffer at \<open>b\<close>.\<close>

definition elsewhere :: "int \<Rightarrow> int \<Rightarrow> int \<Rightarrow> int \<Rightarrow> bool" where
  "elsewhere d b a n \<longleftrightarrow> (a + n \<le> d \<or> d + 16 \<le> a) \<and> (a + n \<le> b \<or> b + PACKLEN \<le> a)"

lemma fill_tx_spec:
  assumes d: "d mod 4 = 0" and b: "ldw m (d + 4) = b" "d + 16 \<le> b \<or> b + PACKLEN \<le> d"
    and n: "n \<le> 1514" and buf: "elsewhere d b buf (int n)"
  defines "m' \<equiv> fill_tx d buf (int n) m"
  shows "frame m' d = ldbs n m buf @ replicate (60 - n) 0" "m' d = NULL" "ldh m' (d + 14) = ETH_AM335X_TDS" "ldw m' (d + 4) = b"
    "\<And>a. elsewhere d b a 1 \<Longrightarrow> ldb m' a = ldb m a" "\<And>w. w mod 4 = 0 \<Longrightarrow> elsewhere d b w 4 \<Longrightarrow> m' w = m w"
proof -
  define m1 where "m1 = fill_desc d (int n) m"
  define m2 where "m2 = copyb n b buf m1"
  define m3 where "m3 = fillb (60 - n) (b + int n) 0 m2"
  have b1: "ldw m1 (d + 4) = b" unfolding m1_def b(1)[symmetric] by (simp add: ldw_def ldh_def ldb_fill_desc[OF d])
  have dis: "buf + int n \<le> b \<or> b + int n \<le> buf" using buf n by (auto simp: elsewhere_def)
  have c2: "ldb m2 a = (if b \<le> a \<and> a < b + int n then ldb m1 (buf + (a - b)) else ldb m1 a)" for a
    unfolding m2_def by (rule ldb_copyb[OF dis])
  have "ldw m2 (d + 4) = ldw m1 (d + 4)" by (rule ldw_cong) (use b(2) n in \<open>auto simp: c2\<close>)
  then have b2: "ldw m2 (d + 4) = b" using b1 by simp
  have m': "m' = (if n < 60 then sth (d + 12) 60 (sth (d + 8) 60 m3) else m2)"
    by (simp add: m'_def fill_tx_eq Let_def m1_def[symmetric] b1 m2_def[symmetric] b2 m3_def nat_diff_distrib)
  have c3: "ldb m3 a = (if b + int n \<le> a \<and> a < b + int n + int (60 - n) then 0 else ldb m2 a)" for a
    unfolding m3_def by (simp add: ldb_fillb)
  have bytes: "ldb m' a = (if b \<le> a \<and> a < b + int n then ldb m1 (buf + (a - b))
      else if b + int n \<le> a \<and> a < b + int n + int (60 - n) then 0 else ldb m1 a)"
    if "a < d \<or> d + 4 \<le> a \<and> a < d + 8 \<or> d + 14 \<le> a" for a
    using that by (auto simp: m' ldb_sth c3 c2)
  have src: "ldbs n m1 buf = ldbs n m buf"
    by (rule ldbs_cong, unfold m1_def, rule ldb_fill_desc[OF d]) (use buf in \<open>auto simp: elsewhere_def\<close>)
  have len: "ldh m' (d + 12) = int (max n 60)"
  proof (cases "n < 60")
    case True
    then show ?thesis by (simp add: m')
  next
    case False
    have "ldh m1 (d + 12) = int n" using n by (simp add: m1_def fill_desc_def ldh_sth_other)
    moreover have "ldh m2 (d + 12) = ldh m1 (d + 12)" by (rule ldh_cong) (use b(2) n in \<open>auto simp: c2\<close>)
    ultimately show ?thesis using False by (simp add: m')
  qed
  have "ldw m' (d + 4) = ldw m1 (d + 4)" by (rule ldw_cong, subst bytes) (use b(2) n in auto)
  then show b': "ldw m' (d + 4) = b" using b1 by simp
  show "frame m' d = ldbs n m buf @ replicate (60 - n) 0"
  proof (rule nth_equalityI)
    show "length (frame m' d) = length (ldbs n m buf @ replicate (60 - n) 0)" by (simp add: frame_def len)
    fix i assume "i < length (frame m' d)"
    then have i: "i < max n 60" by (simp add: frame_def len)
    have "frame m' d ! i = ldb m' (b + int i)" using i by (simp add: frame_def len b' nth_ldbs)
    also have "\<dots> = (if i < n then ldb m1 (buf + int i) else 0)" using i b(2) n by (subst bytes) auto
    also have "\<dots> = (ldbs n m buf @ replicate (60 - n) 0) ! i"
      using i src nth_ldbs[of i n m1 buf] nth_ldbs[of i n m buf] by (auto simp: nth_append)
    finally show "frame m' d ! i = (ldbs n m buf @ replicate (60 - n) 0) ! i" .
  qed
  have "ldh m1 (d + 14) = ETH_AM335X_TDS" by (simp add: m1_def fill_desc_def)
  moreover have "ldh m' (d + 14) = ldh m1 (d + 14)" by (rule ldh_cong, subst bytes) (use b(2) n in auto)
  ultimately show "ldh m' (d + 14) = ETH_AM335X_TDS" by simp
  show "ldb m' a = ldb m a" if "elsewhere d b a 1" for a
    using that n bytes[of a] ldb_fill_desc[OF d, of a "int n" m] by (auto simp: elsewhere_def m1_def)
  have words: "m' w = m1 w" if "w mod 4 = 0" "w + 4 \<le> d + 8 \<or> d + 16 \<le> w" "w + 4 \<le> b \<or> b + PACKLEN \<le> w" for w
  proof -
    have "m2 w = m1 w" unfolding m2_def by (rule copyb_word_other[OF that(1)]) (use that(3) n in auto)
    moreover have "m3 w = m2 w" if "n < 60" unfolding m3_def
      by (rule fillb_word_other[OF \<open>w mod 4 = 0\<close>]) (use \<open>w + 4 \<le> b \<or> b + PACKLEN \<le> w\<close> that in auto)
    ultimately show ?thesis using that(1,2) by (auto simp: m' sth_word_other)
  qed
  have "m1 d = 0" using d by (simp add: m1_def fill_desc_def sth_word_other)
  then show "m' d = NULL" using words[of d] d b(2) by auto
  show "m' w = m w" if "w mod 4 = 0" "elsewhere d b w 4" for w
  proof -
    have "m1 w = m w" using that by (auto simp: m1_def fill_desc_def sth_word_other elsewhere_def)
    then show ?thesis using words[of w] that by (auto simp: elsewhere_def)
  qed
qed

section \<open>Writing\<close>

text \<open>The queue of the DMA engine: the descriptors \<open>ds\<close>, with frames of at most the size of a buffer.\<close>

definition tx_queue :: "memory \<Rightarrow> net \<Rightarrow> int \<Rightarrow> int list \<Rightarrow> bool" where
  "tx_queue m n B ds \<longleftrightarrow> tx_layout m (eth n) B \<and> linked m 0 (tx_hdp (csr n)) ds \<and> distinct ds \<and>
     set ds \<subseteq> tx_slots (eth n) \<and> (\<forall>d\<in>set ds. ldh m (d + 12) \<le> PACKLEN)"

text \<open>A change of memory outside the descriptor and the buffer of a slot.\<close>

definition keeps_slot :: "int \<Rightarrow> int \<Rightarrow> memory \<Rightarrow> memory \<Rightarrow> bool" where
  "keeps_slot d b m m' \<longleftrightarrow> (\<forall>a. d + 4 \<le> a \<and> a < d + 16 \<or> b \<le> a \<and> a < b + PACKLEN \<longrightarrow> ldb m' a = ldb m a)"

lemma keeps_slotD:
  assumes "keeps_slot d b m m'" "ldw m (d + 4) = b"
  shows "ldw m' (d + 4) = b" "ldh m' (d + 12) = ldh m (d + 12)" "ldh m' (d + 14) = ldh m (d + 14)"
    "ldh m (d + 12) \<le> PACKLEN \<Longrightarrow> frame m' d = frame m d"
proof -
  have "ldw m' (d + 4) = ldw m (d + 4)" by (rule ldw_cong) (use assms(1) in \<open>auto simp: keeps_slot_def\<close>)
  then show w: "ldw m' (d + 4) = b" using assms(2) by simp
  show h: "ldh m' (d + 12) = ldh m (d + 12)" by (rule ldh_cong) (use assms(1) in \<open>auto simp: keeps_slot_def\<close>)
  show "ldh m' (d + 14) = ldh m (d + 14)" by (rule ldh_cong) (use assms(1) in \<open>auto simp: keeps_slot_def\<close>)
  assume l: "ldh m (d + 12) \<le> PACKLEN"
  have "ldbs (nat (ldh m (d + 12))) m' b = ldbs (nat (ldh m (d + 12))) m b"
    by (rule ldbs_cong) (use assms(1) l in \<open>auto simp: keeps_slot_def\<close>)
  then show "frame m' d = frame m d" by (simp add: frame_def w h assms(2))
qed

lemma slots_apart:
  assumes "tx_layout m e B" "0 \<le> i" "i < txRingSize e" "0 \<le> j" "j < txRingSize e"
  shows "i \<noteq> j \<Longrightarrow> tx_slot e i \<le> a \<and> a + k \<le> tx_slot e i + 16 \<or> B + PACKLEN * i \<le> a \<and> a + k \<le> B + PACKLEN * i + PACKLEN \<Longrightarrow>
      0 \<le> k \<Longrightarrow> elsewhere (tx_slot e j) (B + PACKLEN * j) a k"
    "tx_slot e i + 16 \<le> B + PACKLEN * j \<or> B + PACKLEN * j + PACKLEN \<le> tx_slot e i" "tx_slot e i mod 4 = 0" "0 < tx_slot e i"
proof -
  have r: "txRing e + 16 * txRingSize e \<le> B \<or> B + 1514 * txRingSize e \<le> txRing e" using assms(1) by (simp add: tx_layout_def)
  show "tx_slot e i + 16 \<le> B + PACKLEN * j \<or> B + PACKLEN * j + PACKLEN \<le> tx_slot e i"
    using r assms(2-5) unfolding tx_slot_def PACKLEN_def by linarith
  show "elsewhere (tx_slot e j) (B + PACKLEN * j) a k" if "i \<noteq> j"
    "tx_slot e i \<le> a \<and> a + k \<le> tx_slot e i + 16 \<or> B + PACKLEN * i \<le> a \<and> a + k \<le> B + PACKLEN * i + PACKLEN" "0 \<le> k"
  proof -
    have "i + 1 \<le> j \<or> j + 1 \<le> i" using that(1) by linarith
    then show ?thesis using that(2,3) r assms(2-5) unfolding elsewhere_def tx_slot_def PACKLEN_def by linarith
  qed
  have "txRing e mod 4 = 0" "0 < txRing e" using assms(1) by (simp_all add: tx_layout_def)
  then show "tx_slot e i mod 4 = 0" "0 < tx_slot e i" using assms(2) unfolding tx_slot_def by (presburger, simp)
qed

lemma linked_cong: "linked m k p xs \<Longrightarrow> (\<And>x. x \<in> set xs \<Longrightarrow> m' (x + k) = m (x + k)) \<Longrightarrow> linked m' k p xs"
  by (induction xs arbitrary: p) auto

lemma inj_slot: "tx_slot e i = tx_slot e j \<longleftrightarrow> i = j"
  by (simp add: tx_slot_def)

text \<open>C26: 
  A frame that is written with a free descriptor is appended to the queue of the DMA engine, padded to 60
  bytes and marked as owned by the engine; the frames that are queued stay as they are.
\<close>

theorem ethwrite_appends:
  fixes s :: kstate and n :: net
  defines "m \<equiv> mem (hp s)" and "e \<equiv> eth n"
  assumes sem: "sem_has s (osem e) (int c + 1)" "int c < 2147483647"
    and queue: "tx_queue m n B ds" and tail: "0 \<le> txTail e" "txTail e < txRingSize e" "tx_slot e (txTail e) \<notin> set ds"
    and buf: "int len \<le> PACKLEN" "elsewhere (tx_slot e (txTail e)) (B + PACKLEN * txTail e) buf (int len)"
  shows "\<exists>s' n'. ethwrite buf (int len) (s, n) = Return (int len) (s', n') \<and> sem_has s' (osem e) (int c) \<and>
    tx_queue (mem (hp s')) n' B (ds @ [tx_slot e (txTail e)]) \<and>
    map (frame (mem (hp s'))) (ds @ [tx_slot e (txTail e)]) = map (frame m) ds @ [ldbs len m buf @ replicate (60 - len) 0] \<and>
    eth n' = e\<lparr>txTail := (txTail e + 1) mod txRingSize e\<rparr> \<and> ldh (mem (hp s')) (tx_slot e (txTail e) + 14) = ETH_AM335X_TDS"
proof -
  let ?d = "tx_slot e (txTail e)" let ?b = "B + PACKLEN * txTail e" let ?s1 = "set_count (osem e) (int c) s"
  define m1 where "m1 = fill_tx ?d buf (int len) m"
  define m2 where "m2 = (if ds = [] then m1 else m1(last ds := ?d))"
  have lay: "tx_layout m e B" and lk: "linked m 0 (tx_hdp (csr n)) ds" and dist: "distinct ds" and sub: "set ds \<subseteq> tx_slots e"
    and pl: "\<And>x. x \<in> set ds \<Longrightarrow> ldh m (x + 12) \<le> PACKLEN" using queue by (simp_all add: tx_queue_def e_def)
  have b: "ldw m (tx_slot e i + 4) = B + PACKLEN * i" if "0 \<le> i" "i < txRingSize e" for i using lay that by (simp add: tx_layout_def)
  note sa = slots_apart[OF lay _ _ tail(1,2)]
  have d: "?d mod 4 = 0" "0 < ?d" "?d + 16 \<le> ?b \<or> ?b + PACKLEN \<le> ?d" using sa(2-4)[OF tail(1,2)] by auto
  have len: "len \<le> 1514" using buf(1) by simp
  note f = fill_tx_spec[OF d(1) b[OF tail(1,2)] d(3) len buf(2), folded m1_def]
  obtain idx where idx: "\<And>x. x \<in> set ds \<Longrightarrow> x = tx_slot e (idx x) \<and> 0 \<le> idx x \<and> idx x < txRingSize e \<and> idx x \<noteq> txTail e"
  proof -
    have "\<forall>x\<in>set ds. \<exists>i. x = tx_slot e i \<and> 0 \<le> i \<and> i < txRingSize e \<and> i \<noteq> txTail e"
    proof
      fix x assume x: "x \<in> set ds"
      then obtain i where "i \<in> {0..<txRingSize e}" "x = tx_slot e i" using sub by (auto simp: tx_slots_def)
      then show "\<exists>i. x = tx_slot e i \<and> 0 \<le> i \<and> i < txRingSize e \<and> i \<noteq> txTail e"
        using x tail(3) by (intro exI[of _ i]) auto
    qed
    then show thesis using that by metis
  qed
  have lastm: "last ds mod 4 = 0" "0 < last ds" if "ds \<noteq> []"
    using sa(3,4)[of "idx (last ds)"] idx[of "last ds"] that by auto
  have link: "ldb m2 a = ldb m1 a" if "\<And>x. x \<in> set ds \<Longrightarrow> a < x \<or> x + 4 \<le> a" for a
    using that[of "last ds"] lastm by (auto simp: m2_def intro!: ldb_upd_word)
  have all: "keeps_slot (tx_slot e i) (B + PACKLEN * i) (if i = txTail e then m1 else m) m2" if i: "0 \<le> i" "i < txRingSize e" for i
    unfolding keeps_slot_def
  proof (intro allI impI)
    fix a assume a: "tx_slot e i + 4 \<le> a \<and> a < tx_slot e i + 16 \<or> B + PACKLEN * i \<le> a \<and> a < B + PACKLEN * i + PACKLEN"
    have "ldb m2 a = ldb m1 a"
    proof (rule link)
      fix x assume "x \<in> set ds"
      then obtain j where j: "x = tx_slot e j" "0 \<le> j" "j < txRingSize e" using idx by blast
      show "a < x \<or> x + 4 \<le> a"
      proof (cases "i = j")
        case True
        then show ?thesis using a j slots_apart(2)[OF lay i i] by auto
      next
        case False
        then show ?thesis using slots_apart(1)[OF lay i j(2,3) False, of a 1] a j(1) by (auto simp: elsewhere_def)
      qed
    qed
    moreover have "ldb m1 a = ldb m a" if "i \<noteq> txTail e" by (rule f(5), rule sa(1)[OF i that]) (use a in auto)
    ultimately show "ldb m2 a = ldb (if i = txTail e then m1 else m) a" by simp
  qed
  have new: "frame m2 ?d = ldbs len m buf @ replicate (60 - len) 0" "ldh m2 (?d + 14) = ETH_AM335X_TDS" "ldh m2 (?d + 12) \<le> PACKLEN"
    "ldw m2 (?d + 4) = ?b"
  proof -
    have k: "keeps_slot ?d ?b m1 m2" using all[OF tail(1,2)] by simp
    have l: "ldh m1 (?d + 12) \<le> PACKLEN"
    proof -
      have "length (frame m1 ?d) = max len 60" by (simp add: f(1))
      then have "nat (ldh m1 (?d + 12)) = max len 60" by (simp add: frame_def)
      then show ?thesis using len by simp
    qed
    note k = keeps_slotD[OF k f(4)]
    show "frame m2 ?d = ldbs len m buf @ replicate (60 - len) 0" "ldh m2 (?d + 14) = ETH_AM335X_TDS" "ldh m2 (?d + 12) \<le> PACKLEN"
      "ldw m2 (?d + 4) = ?b" using k f(1,3) l by simp_all
  qed
  have old: "frame m2 x = frame m x" "ldh m2 (x + 12) \<le> PACKLEN" if x: "x \<in> set ds" for x
    using keeps_slotD[of x "B + PACKLEN * idx x" m m2] all[of "idx x"] idx[OF x] b[of "idx x"] pl[OF x] by auto
  have w1: "m1 x = m x" if x: "x \<in> set ds" for x
    by (rule f(6)) (use idx[OF x] sa(1)[of "idx x" x 4] sa(3)[of "idx x"] in auto)
  have lk1: "linked m1 0 (tx_hdp (csr n)) ds" using lk w1 by (auto intro: linked_cong)
  have lk2: "linked m2 0 (if ds = [] then ?d else tx_hdp (csr n)) (ds @ [?d])"
  proof (cases "ds = []")
    case True
    then show ?thesis using d(2) f(2) by (simp add: m2_def)
  next
    case False
    have "linked m1 0 ?d [?d]" using d(2) f(2) by simp
    then have "linked (m1(last ds + 0 := ?d)) 0 (tx_hdp (csr n)) (ds @ [?d])"
      using lk1 dist tail(3) False by (intro linked_extend) auto
    then show ?thesis using False by (simp add: m2_def del: fun_upd_apply)
  qed
  let ?t = "(txTail e + 1) mod txRingSize e"
  let ?F = "\<lambda>m. fill_tx ?d buf (int len) m"
  define s' where "s' = (if ds = [] then upmem ?F ?s1 else upmem (\<lambda>m. m(last ds := ?d)) (upmem ?F ?s1))"
  define n' where "n' = upeth (\<lambda>e. e\<lparr>txTail := ?t\<rparr>) (if ds = [] then upcsr (\<lambda>c. c\<lparr>tx_hdp := ?d\<rparr>) n else n)"
  have ms1: "mem (hp ?s1) = m" by (simp add: m_def set_count_def upsem_def)
  have ms: "mem (hp s') = m2" by (simp add: s'_def m2_def m1_def ms1 del: fun_upd_apply)
  have t: "(if txTail e + 1 \<ge> txRingSize e then 0 else txTail e + 1) = ?t"
    using advance_mod[OF tail(1,2)] by (simp add: advance_def)
  have hdp: "tx_hdp (csr n) = 0 \<longleftrightarrow> ds = []" using lk by (cases ds) auto
  have last: "last_desc m1 (tx_hdp (csr n)) = Some (last ds)" if "ds \<noteq> []" using last_desc_linked[OF lk1 that] .
  have "wait (osem e) s = Return OK ?s1" using wait_has[OF sem] .
  then have "ethwrite buf (int len) (s, n) = ethwrite_rest buf (int len) (?s1, n)"
    by (simp add: ethwrite_def onk_def e_def)
  also have "\<dots> = Return (int len) (s', n')"
    using hdp last buf(1) ms1 unfolding ethwrite_rest_def Let_def snd_conv e_def[symmetric] t
    by (simp add: tx_slot_def wr_def upn_def mm_def s'_def n'_def m1_def)
  finally have run: "ethwrite buf (int len) (s, n) = Return (int len) (s', n')" .
  have e': "eth n' = e\<lparr>txTail := ?t\<rparr>" by (simp add: n'_def e_def upeth_def upcsr_def)
  have hdp': "tx_hdp (csr n') = (if ds = [] then ?d else tx_hdp (csr n))" by (simp add: n'_def upeth_def upcsr_def)
  have slot': "tx_slot (eth n') = tx_slot e" by (simp add: e' tx_slot_def fun_eq_iff)
  have "ldw m2 (tx_slot e i + 4) = B + PACKLEN * i" if i: "0 \<le> i" "i < txRingSize e" for i
    using keeps_slotD(1)[OF all[OF i]] b[OF i] f(4) by (cases "i = txTail e") auto
  then have lay': "tx_layout m2 (eth n') B" using lay by (simp add: tx_layout_def slot') (simp add: e')
  have "sem_has s' (osem e) (int c)" using set_count_has[OF sem(1), of "int c"] by (simp add: s'_def)
  moreover have "tx_queue m2 n' B (ds @ [?d])"
    using lay' lk2 dist sub tail new(3) old(2) unfolding tx_queue_def hdp' tx_slots_def slot' by (auto simp: e')
  moreover have "map (frame m2) (ds @ [?d]) = map (frame m) ds @ [ldbs len m buf @ replicate (60 - len) 0]"
    using new(1) old(1) by simp
  ultimately show ?thesis using run ms e' new(2) by (intro exI[of _ s'] exI[of _ n']) simp
qed

section \<open>Interrupts\<close>

definition tx_owned :: "memory \<Rightarrow> ethcblk \<Rightarrow> nat \<Rightarrow> bool" where
  "tx_owned m e i \<longleftrightarrow> ldh m (tx_slot e ((txHead e + int i) mod txRingSize e) + 14) AND ETH_AM335X_OWN \<noteq> 0"

lemma tx_loop_run:
  assumes "sem_has s (osem (eth n)) (int c)" "int c + int N = txRingSize (eth n)" "txRingSize (eth n) < 2147483647"
    "0 \<le> txHead (eth n)" "txHead (eth n) < txRingSize (eth n)" "k \<le> N"
    "\<forall>i<k. \<not> tx_owned (mem (hp s)) (eth n) i" "k < N \<longrightarrow> tx_owned (mem (hp s)) (eth n) k"
  shows "\<exists>n'. tx_loop N (tx_slot (eth n) (txHead (eth n))) (s, n) = Return () (set_count (osem (eth n)) (int c + int k) s, n') \<and>
    eth n' = (eth n)\<lparr>txHead := (txHead (eth n) + int k) mod txRingSize (eth n)\<rparr> \<and>
    tx_hdp (csr n') = (if k < N \<and> tx_hdp (csr n) = 0 then tx_slot (eth n) ((txHead (eth n) + int k) mod txRingSize (eth n)) else tx_hdp (csr n))"
  using assms
proof (induction k arbitrary: s n c N)
  case 0
  let ?e = "eth n"
  have id: "set_count (osem ?e) (int c) s = s" using set_count_same 0(1) by blast
  have same: "?e\<lparr>txHead := txHead ?e mod txRingSize ?e\<rparr> = ?e" using 0(4,5) by simp
  have sc: "onk (semcount (osem ?e)) (s, n) = Return (int c) (s, n)" using semcount_has[OF 0(1)] by (simp add: onk_def)
  show ?case
  proof (cases N)
    case 0
    then show ?thesis using sc id same \<open>int c + int N = txRingSize ?e\<close> by simp
  next
    case (Suc N')
    then have own: "ldh (mem (hp s)) (tx_slot ?e (txHead ?e) + 14) AND 8192 \<noteq> 0" using 0(4,5,8) by (simp add: tx_owned_def)
    have "int c < txRingSize ?e" using 0(2) Suc by simp
    then show ?thesis using sc own id same Suc 0(4,5) by (simp add: mm_def upn_def upcsr_def)
  qed
next
  case (Suc k)
  let ?e = "eth n" let ?h = "(txHead ?e + 1) mod txRingSize ?e"
  obtain N' where N: "N = Suc N'" "k \<le> N'" using Suc.prems(6) by (cases N) auto
  define n1 where "n1 = upeth (\<lambda>e. e\<lparr>txHead := ?h\<rparr>) (upcsr (\<lambda>c. c\<lparr>tx_cp := tx_slot ?e (txHead ?e)\<rparr>) n)"
  define s1 where "s1 = set_count (osem ?e) (int c + 1) s"
  have e1: "eth n1 = ?e\<lparr>txHead := ?h\<rparr>" and c1: "tx_hdp (csr n1) = tx_hdp (csr n)" by (simp_all add: n1_def upeth_def upcsr_def)
  have sc: "onk (semcount (osem ?e)) (s, n) = Return (int c) (s, n)" using semcount_has[OF Suc.prems(1)] by (simp add: onk_def)
  have lt: "int c < txRingSize ?e" using Suc.prems(2) N by simp
  have wrap: "(if txHead ?e + 1 \<ge> txRingSize ?e then 0 else txHead ?e + 1) = ?h"
    using advance_mod[OF Suc.prems(4,5)] by (simp add: advance_def)
  have nxt: "(if txHead ?e + 1 \<ge> txRingSize ?e then txRing ?e else tx_slot ?e (txHead ?e) + 16) = tx_slot (eth n1) (txHead (eth n1))"
    unfolding e1 by (simp add: wrap[symmetric] tx_slot_def)
  have own: "\<not> (ldh (mem (hp s)) (tx_slot ?e (txHead ?e) + 14) AND 8192 \<noteq> 0)"
    using Suc.prems(4,5,7) by (auto simp: tx_owned_def)
  have sg: "onk (signal (osem (eth n1))) (s, n1) = Return OK (s1, n1)"
    using signal_has[OF Suc.prems(1)] lt Suc.prems(3) by (simp add: onk_def e1 s1_def)
  have step: "tx_loop N (tx_slot ?e (txHead ?e)) (s, n) = tx_loop N' (tx_slot (eth n1) (txHead (eth n1))) (s1, n1)"
  proof -
    have "tx_loop N (tx_slot ?e (txHead ?e)) (s, n) =
        bindk (onk (signal (osem (eth n1))) (s, n1)) (\<lambda>_. tx_loop N' (tx_slot (eth n1) (txHead (eth n1))))"
      unfolding N(1) tx_loop.simps snd_conv sc bindk.simps if_P[OF lt] Let_def nxt[symmetric] n1_def wrap[symmetric]
      using own by (simp add: mm_def upn_def upcsr_def upeth_def tx_slot_def add.assoc)
    then show ?thesis using sg by simp
  qed
  have mem1: "mem (hp s1) = mem (hp s)" by (simp add: s1_def set_count_def upsem_def)
  have shift: "tx_owned (mem (hp s1)) (eth n1) i = tx_owned (mem (hp s)) ?e (Suc i)" for i
    by (simp add: tx_owned_def mem1 e1 tx_slot_def mod_simps algebra_simps)
  have "\<exists>n'. tx_loop N' (tx_slot (eth n1) (txHead (eth n1))) (s1, n1) = Return () (set_count (osem (eth n1)) (int (Suc c) + int k) s1, n') \<and>
    eth n' = (eth n1)\<lparr>txHead := (txHead (eth n1) + int k) mod txRingSize (eth n1)\<rparr> \<and>
    tx_hdp (csr n') = (if k < N' \<and> tx_hdp (csr n1) = 0 then tx_slot (eth n1) ((txHead (eth n1) + int k) mod txRingSize (eth n1)) else tx_hdp (csr n1))"
  proof (rule Suc.IH)
    show "sem_has s1 (osem (eth n1)) (int (Suc c))" using set_count_has[OF Suc.prems(1), of "int c + 1"] by (simp add: s1_def e1 add.commute)
    show "\<forall>i<k. \<not> tx_owned (mem (hp s1)) (eth n1) i" "k < N' \<longrightarrow> tx_owned (mem (hp s1)) (eth n1) k"
      unfolding shift using Suc.prems(7,8) N by auto
    have "0 < txRingSize ?e" using Suc.prems(4,5) by simp
    then show "0 \<le> txHead (eth n1)" "txHead (eth n1) < txRingSize (eth n1)" by (simp_all add: e1)
  qed (use Suc.prems(2,3) N in \<open>simp_all add: e1\<close>)
  then show ?case unfolding step
    by (auto simp: e1 c1 s1_def N(1) tx_slot_def mod_simps algebra_simps)
qed

text \<open>C27: 
  A transmit interrupt gives back exactly the descriptors at the head of the ring that the DMA engine has
  finished: the semaphore counts as many more, the head moves past them, and if the engine has stopped
  before the next one it is started again there.
\<close>

theorem eth_tx_interrupt:
  fixes s :: kstate and n :: net
  defines "m \<equiv> mem (hp s)" and "e \<equiv> eth n"
  assumes sem: "sem_has s (osem e) (int c)" "int c \<le> txRingSize e" "txRingSize e < 2147483647"
    and head: "0 \<le> txHead e" "txHead e < txRingSize e" and nd: "ndefers s = 0"
    and finished: "int c + int k \<le> txRingSize e" "\<forall>i<k. \<not> tx_owned m e i" "int c + int k < txRingSize e \<longrightarrow> tx_owned m e k"
  shows "\<exists>s' n'. ethhandler ETH_AM335X_TXINT (s, n) = Return () (s', n') \<and> sem_has s' (osem e) (int c + int k) \<and>
    mem (hp s') = m \<and> eth n' = e\<lparr>txHead := (txHead e + int k) mod txRingSize e\<rparr> \<and> eoi_vector (csr n') = 2 \<and>
    tx_hdp (csr n') = (if int c + int k < txRingSize e \<and> tx_hdp (csr n) = 0 then tx_slot e ((txHead e + int k) mod txRingSize e)
      else tx_hdp (csr n))"
proof -
  let ?s1 = "s\<lparr>ndefers := 1, attempt := False\<rparr>"
  define N where "N = nat (txRingSize e - int c)"
  have N: "int c + int N = txRingSize e" using sem(2) by (simp add: N_def)
  have st: "onk (resched_cntl DEFER_START) (s, n) = Return OK (?s1, n)" using nd by (simp add: onk_def resched_cntl_def DEFER_START_def Let_def)
  have h1: "sem_has ?s1 (osem e) (int c)" using sem(1) by (simp add: sem_has_def)
  have "rounds (osem e) (txRingSize e) (?s1, n) = N" using sem(1) by (simp add: rounds_def N_def sem_has_def)
  moreover obtain n1 where n1: "tx_loop N (tx_slot e (txHead e)) (?s1, n) = Return () (set_count (osem e) (int c + int k) ?s1, n1)"
    "eth n1 = e\<lparr>txHead := (txHead e + int k) mod txRingSize e\<rparr>"
    "tx_hdp (csr n1) = (if k < N \<and> tx_hdp (csr n) = 0 then tx_slot e ((txHead e + int k) mod txRingSize e) else tx_hdp (csr n))"
    using tx_loop_run[of ?s1 n c N k] h1 N sem(3) head finished by (auto simp: e_def m_def)
  define s2 where "s2 = set_count (osem e) (int c + int k) ?s1"
  define n2 where "n2 = upcsr (\<lambda>c. c\<lparr>eoi_vector := 2\<rparr>) n1"
  have "onk (resched_cntl DEFER_STOP) (s2, n2) = Return OK (s2\<lparr>ndefers := 0\<rparr>, n2)"
    by (simp add: onk_def resched_cntl_def DEFER_START_def DEFER_STOP_def Let_def s2_def set_count_def upsem_def)
  ultimately have "ethhandler ETH_AM335X_TXINT (s, n) = Return () (s2\<lparr>ndefers := 0\<rparr>, n2)"
    using st n1(1) by (simp add: ethhandler_def Let_def e_def[symmetric] tx_slot_def upn_def n2_def s2_def)
  moreover have "sem_has (s2\<lparr>ndefers := 0\<rparr>) (osem e) (int c + int k)"
    using set_count_has[OF h1, of "int c + int k"] by (simp add: s2_def sem_has_def)
  moreover have "k < N \<longleftrightarrow> int c + int k < txRingSize e" using N by linarith
  ultimately show ?thesis
    by (intro exI[of _ "s2\<lparr>ndefers := 0\<rparr>"] exI[of _ n2])
      (use n1 in \<open>simp add: n2_def upcsr_def s2_def m_def set_count_def upsem_def\<close>)
qed

end
