(* ===== verification/Net_Examples.thy ===== *)
theory Net_Examples
  imports Tty_Examples Icmp_Spec Ether_Spec
begin

text \<open>Concrete packets, tables and rings for the properties of the network code.\<close>

section \<open>A kernel with a pool of network buffers\<close>

text \<open>
  Pool 0 has the semaphore 5 and its next buffer at 9000; the semaphore 6 counts packets to be sent, or
  free descriptors.
\<close>

definition nk :: "int \<Rightarrow> int \<Rightarrow> memory \<Rightarrow> kstate" where
  "nk c j m = upmem (\<lambda>_. m) ((tk c j)\<lparr>nbpools := 1, buftab := \<lambda>_. \<lparr>bpnext = 9000, bpsem = 5, bpsize = 1520\<rparr>\<rparr>)"

lemma nk: "sem_has (nk c j m) 5 c" "sem_has (nk c j m) 6 j" "pool_has (nk (int k) j m) 0 k" "mem (hp (nk c j m)) = m"
  "buftab (nk c j m) 0 = \<lparr>bpnext = 9000, bpsem = 5, bpsize = 1520\<rparr>" "ndefers (nk c j m) = 0"
  using tk[of c j] tk[of "int k" j] by (auto simp: nk_def pool_has_def sem_has_def upmem_def)

definition ring0 :: ethcblk where
  "ring0 = \<lparr>devAddress = replicate 6 0, rxRing = 0, rxHead = 0, rxTail = 0, rxRingSize = 0, txRing = 40000, txHead = 1,
     txTail = 0, txRingSize = 2, isem = 0, osem = 6\<rparr>"

definition net0 :: net where
  "net0 = \<lparr>NetData = net_zero, netbufpool = 0, netportseed = 0, arpcache = \<lambda>_. arp_zero,
     udptab = \<lambda>_. \<lparr>udstate = UDP_FREE, udremip = 0, udremport = 0, udlocport = 0, udhead = 0, udtail = 0, udcount = 0,
       udpid = 0, udqueue = \<lambda>_. 0\<rparr>,
     icmptab = \<lambda>_. \<lparr>icstate = ICMP_FREE, icremip = 0, ichead = 0, ictail = 0, iccount = 0, icpid = 0, icqueue = \<lambda>_. 0\<rparr>,
     ipoqueue = \<lparr>iqhead = 0, iqtail = 0, iqsem = 6, iqbuf = \<lambda>_. 0\<rparr>, ident_send = 0, ident_sendto = 0, ipident = 0,
     eth = ring0, csr = \<lparr>tx_hdp = 0, rx_hdp = 0, tx_cp = 0, rx_cp = 0, eoi_vector = 0\<rparr>\<rparr>"

section \<open>Checksums and packets on the wire\<close>

text \<open>A header whose sum, \<open>0x1bb00 + 0x4500 = 0x20000\<close>, keeps no carry, and one that loses a carry.\<close>

lemma ldb_zero [simp]: "ldb (\<lambda>_. 0) a = 0"
  by (simp add: ldb_def byte_def)

definition header :: "int \<Rightarrow> memory" where
  "header x = sth 18 (htons x) (sth 16 0xffff (sth 14 0x0045 (\<lambda>_. 0)))"

theorem ip_cksum_sound_witness:
  "ipcksum (with_cksum 24 (\<lambda>m. ipcksum m 0) (header 0x1234)) 0 = 0 \<and>
   valid_sum (wsum 10 (with_cksum 24 (\<lambda>m. ipcksum m 0) (header 0x1234)) 14) \<and>
   \<not> valid_sum (wsum 10 (with_cksum 24 (\<lambda>m. ipcksum m 0) (header 0xbb00)) 14)"
proof -
  have v: "ldb (header x) (net_ipvh 0) \<noteq> 0" for x by (simp add: header_def ldb_sth)
  have w: "wsum 10 (sth 24 0 (header x)) 14 = 0x4500 + 0xffff + htons (htons x)" for x
    by (simp add: header_def numeral_eq_Suc ldh_def ldb_sth htons_value)
  show ?thesis
    using ip_cksum_sound[OF v[of "0x1234"]] ip_cksum_sound[OF v[of "0xbb00"]]
    by (simp add: w lost_carry_def htons_value)
qed

lemma msg_sum_8: "msg_sum m a 8 = htons (ldh m a) + htons (ldh m (a + 2)) + htons (ldh m (a + 4)) + htons (ldh m (a + 6))"
proof -
  have "wsum 4 m a = htons (ldh m a) + htons (ldh m (a + 2)) + htons (ldh m (a + 4)) + htons (ldh m (a + 6))"
    by (simp add: numeral_eq_Suc add.assoc)
  then show ?thesis by (simp add: msg_sum_def)
qed

text \<open>A message whose words add up to \<open>0x1ffff\<close>, where the carry is lost, and one that keeps it.\<close>

definition message :: "int \<Rightarrow> memory" where
  "message x = sth 6 (htons x) (sth 4 0xffff (sth 0 0x0008 (\<lambda>_. 0)))"

theorem icmp_cksum_sound_witness:
  "icmp_cksum (with_cksum 2 (\<lambda>m. icmp_cksum m 0 8) (message 0x1234)) 0 8 = 0 \<and>
   icmp_cksum (with_cksum 2 (\<lambda>m. icmp_cksum m 0 8) (message 0xf800)) 0 8 \<noteq> 0"
proof -
  have w: "msg_sum (sth 2 0 (message x)) 0 8 = 0x0800 + 0xffff + htons (htons x)" for x
    by (simp add: msg_sum_8 message_def ldh_def ldb_sth htons_value)
  show ?thesis
    using icmp_cksum_sound[of 8 0 "message 0x1234"] icmp_cksum_sound[of 8 0 "message 0xf800"]
    by (simp add: w lost_carry_def htons_value)
qed

definition wired :: "memory \<Rightarrow> nstate" where
  "wired m = (nk 3 0 (eth_ntoh 0 (ip_finish 0 m)), net0)"

lemma mm_wired: "mm (wired m) = eth_ntoh 0 (ip_finish 0 m)"
  by (simp add: wired_def mm_def nk)

text \<open>A datagram for port 7.\<close>

theorem ip_wire_roundtrip_witness:
  "\<exists>m'. ip_in 0 (wired (sth 36 7 (stb 23 17 (stb 14 0x45 (\<lambda>_. 0))))) = ip_filter 0 (wr (\<lambda>_. m') (wired (sth 36 7 (stb 23 17 (stb 14 0x45 (\<lambda>_. 0)))))) \<and>
     ldh m' 36 = 7"
  using ip_wire_roundtrip[OF mm_wired, of "sth 36 7 (stb 23 17 (stb 14 0x45 (\<lambda>_. 0)))"]
  by (auto simp: ldb_sth ldh_def)

text \<open>An echo request, which passes, and one whose sum loses a carry.\<close>

definition echo :: "int \<Rightarrow> memory" where
  "echo x = sth 40 x (sth 38 0xffff (sth 34 0x0008 (sth 16 28 (stb 23 1 (stb 14 0x45 (\<lambda>_. 0))))))"

theorem icmp_wire_roundtrip_witness:
  "(\<exists>m'. ip_in 0 (wired (echo 0x1234)) = ip_filter 0 (wr (\<lambda>_. m') (wired (echo 0x1234))) \<and> ldh m' 40 = 0x1234) \<and>
   ip_in 0 (wired (echo 0xf800)) = freepkt 0 (wr (ip_ntoh 0) (wired (echo 0xf800)))"
proof -
  have l: "ldb (echo x) 14 = 0x45" "ldb (echo x) 23 = 1" "ldh (echo x) 16 = 20 + int 8" for x
    by (simp_all add: echo_def ldb_sth ldh_def)
  have w: "msg_sum (sth 36 0 (icmp_hton 0 (echo x))) 34 8 = 0x0800 + 0xffff + u16 x" for x
    by (simp add: msg_sum_8 echo_def htons_ldh ldb_sth ldb_icmp_ntoh icmp_perm_def swap2_def u16_bytes[symmetric] htons_value[of 0])
  have f: "ldb (echo x) 40 = x mod 256" "ldb (echo x) 41 = x div 256 mod 256" for x by (simp_all add: echo_def ldb_sth)
  show ?thesis
    using icmp_wire_roundtrip[OF mm_wired[of "echo 0x1234"], of 8] icmp_wire_roundtrip[OF mm_wired[of "echo 0xf800"], of 8] l
    by (auto simp: w f lost_carry_def ldh_def)
qed

section \<open>Endpoints\<close>

text \<open>Endpoint 1 takes datagrams for port 7; two of them, with the data \<open>A B\<close> and \<open>C\<close>.\<close>

definition udp7 :: net where
  "udp7 = upudp 1 (\<lambda>e. e\<lparr>udstate := UDP_USED, udlocport := 7\<rparr>) net0"

definition dgram :: "int \<Rightarrow> int list \<Rightarrow> memory \<Rightarrow> memory" where
  "dgram p bs m = stbs bs (p + 42) (sth (p + 38) (8 + int (length bs)) (sth (p + 36) 7 m))"

definition dgrams :: memory where
  "dgrams = dgram 4000 [65, 66] (dgram 8000 [67] (\<lambda>_. 0))"

lemma dgrams:
  "ldh dgrams 4036 = 7" "ldh dgrams 4038 = 10" "ldh dgrams 8036 = 7" "ldh dgrams 8038 = 9" "dgrams 3996 = 0" "dgrams 7996 = 0"
  "ldb dgrams 4042 = 65" "ldb dgrams 4043 = 66" "ldb dgrams 8042 = 67"
  by (simp_all add: dgrams_def dgram_def ldh_def ldb_sth stb_other sth_def word_at_def)

lemma udp7: "udptab udp7 0 = udptab net0 0" "udptab udp7 1 = (udptab net0 1)\<lparr>udstate := UDP_USED, udlocport := 7\<rparr>"
  "udstate (udptab net0 i) = UDP_FREE" "udp_holds ((udptab net0 i)\<lparr>udstate := UDP_USED, udlocport := 7\<rparr>) [] 8"
  "udp_holds (udptab net0 i) [] 8"
  by (simp_all add: udp7_def upudp_def net0_def udp_holds_def ring_def)

lemma udp7_match: "ldh m (net_udpdport pkt) = 7 \<Longrightarrow> udp_match m pkt (udptab udp7 i) \<longleftrightarrow> i = 1"
  by (simp add: udp_match_def udp7_def upudp_def net0_def)

theorem udp_datagrams_in_order_witness:
  "\<exists>sd1 sd2. enq_all udp_arrive [4000, 8000] (nk 3 0 dgrams, udp7) = Some sd1 \<and>
     deq_all (udp_read 1 20000 100 10) 2 sd1 = Some ([[65, 66], [67]], sd2) \<and> udp_rep 1 sd2 [] 8 \<and>
     pool_has (fst sd2) 0 5"
proof -
  let ?sd = "(nk 3 0 dgrams, udp7)"
  have m: "mm ?sd = dgrams" by (simp add: mm_def nk)
  have "udp_rep 1 ?sd [] (length [4000::int, 8000] + 6)" using udp7(4)[of 1] by (simp add: udp_rep_def udp7 del: One_nat_def)
  moreover have "udp_fits 0 5 1 20000 100 ?sd ([] @ [4000, 8000])"
    using nk(3)[of 3 0 dgrams] udp7_match
    by (auto simp: udp_fits_def m is_packet_def outside_def udp_first_def dgrams)
  moreover have "map (udp_payload 100 ?sd) [4000, 8000] = [[65, 66], [67]]"
    by (simp add: udp_payload_def m udp_msglen_def dgrams numeral_eq_Suc)
  ultimately show ?thesis
    using udp_datagrams_in_order[of 1 ?sd "[]" "[4000, 8000]" 6 0 5 20000 100 10] by (simp add: numeral_2_eq_2)
qed

theorem udp_in_demultiplexes_witness:
  "\<exists>e. udp_in 4000 (nk 3 0 dgrams, udp7) = Return () (nk 3 0 dgrams, upudp 1 (\<lambda>_. e) udp7) \<and> udp_holds e [4000] 7"
proof -
  have "\<exists>ps k. udp_holds (udptab udp7 i) ps k" for i
    using udp7(4,5)[of i] by (auto simp: udp7_def upudp_def intro!: exI[of _ "[]"] exI[of _ 8])
  moreover have "udp_dest dgrams 4000 udp7 = Some 1"
    using udp7_match[of dgrams 4000] udp7(2) by (simp add: udp_dest_def dgrams net0_def)
  ultimately show ?thesis
    using udp_in_demultiplexes[OF nk(3)[of 3 0 dgrams], of 4000 udp7] udp7(2) nk(4)
    by (auto simp: is_packet_def dgrams udp_holds_def net0_def ring_def)
qed

text \<open>Registering port 7 once more fails; port 8 gets the first entry.\<close>

theorem udp_register_correct_witness:
  "udp_register 0 0 7 udp7 = (SYSERR, udp7) \<and> fst (udp_register 0 0 8 udp7) = 0 \<and>
   inj_on (udp_key \<circ> udptab (snd (udp_register 0 0 8 udp7))) (Collect (udp_used (snd (udp_register 0 0 8 udp7))))"
proof -
  have u: "udp_used udp7 i \<longleftrightarrow> i = 1" for i by (simp add: udp_used_def udp7_def upudp_def net0_def)
  then have "inj_on (udp_key \<circ> udptab udp7) (Collect (udp_used udp7))" by (simp add: inj_on_def)
  moreover have "udp_key (udptab udp7 1) = (0, 0, 7)" by (simp add: udp_key_def udp7 net0_def del: One_nat_def)
  moreover have "udp_register 0 0 8 udp7 = (0, snd (udp_register 0 0 8 udp7))"
    by (simp add: udp_register_def Let_def numeral_eq_Suc udp7_def upudp_def net0_def)
  ultimately show ?thesis
    using udp_register_correct[where remip = 0 and remport = 0 and locport = 7 and n = udp7]
      udp_register_correct[where remip = 0 and remport = 0 and locport = 8 and n = udp7] u
    by (auto split: prod.splits if_splits)
qed

section \<open>Address resolution\<close>

text \<open>Process 1 waits for the hardware address of \<open>9\<close>, and the reply has come to 4000.\<close>

definition asked :: net where
  "asked = uparp 3 (\<lambda>e. e\<lparr>arstate := AR_PENDING, arpaddr := 9, arpid := 1\<rparr>) net0"

definition reply :: memory where
  "reply = stw 4028 (htonl 9) (stbs [1, 2, 3, 4, 5, 6] 4022 (sth 4020 (htons 2) (sth 4016 (htons 0x0800) (sth 4014 (htons 1) (\<lambda>_. 0)))))"

lemma asked: "arp_ok asked" "arp_used asked 3" "arstate (arpcache asked 3) = AR_PENDING" "arpaddr (arpcache asked 3) = 9"
  "arpid (arpcache asked 3) = 1" "NetData asked = net_zero"
  by (auto simp: arp_ok_def arp_used_def asked_def uparp_def net0_def arp_zero_def)

theorem arp_cache_consistent_witness:
  "arp_ok (arp_init net0) \<and> arp_keeps (netin_round 500 (nk 3 0 reply, asked)) \<and> arp_keeps (udp_send 500 1 20000 3 (nk 3 0 reply, asked))"
  using arp_cache_consistent[of net0 "(nk 3 0 reply, asked)" 500 1 20000 3] asked(1)
  by (simp add: net0_def arp_zero_def)

lemma ldbs_6: "ldbs 6 m a = [ldb m a, ldb m (a + 1), ldb m (a + 2), ldb m (a + 3), ldb m (a + 4), ldb m (a + 5)]"
  by (simp add: numeral_eq_Suc add.assoc)

lemma reply: "ldh (arp_ntoh 4000 reply) 4014 = 1" "ldh (arp_ntoh 4000 reply) 4016 = 0x0800" "ldh (arp_ntoh 4000 reply) 4020 = 2"
  "ldbs 6 (arp_ntoh 4000 reply) 4022 = [1, 2, 3, 4, 5, 6]" "ldw (arp_ntoh 4000 reply) 4028 = 9"
proof -
  have l: "ldb reply 4014 = 0" "ldb reply 4015 = 1" "ldb reply 4016 = 8" "ldb reply 4017 = 0" "ldb reply 4020 = 0"
    "ldb reply 4021 = 2" "ldb reply 4022 = 1" "ldb reply 4023 = 2" "ldb reply 4024 = 3" "ldb reply 4025 = 4"
    "ldb reply 4026 = 5" "ldb reply 4027 = 6" "ldb reply 4028 = 0" "ldb reply 4029 = 0" "ldb reply 4030 = 0" "ldb reply 4031 = 9"
    by (simp_all add: reply_def ldb_stw ldb_sth ldb_stbs htons_value htonl_def)
  have b: "ldb (arp_ntoh 4000 reply) b =
      ldb reply (swap2 4014 (swap2 4016 (swap2 4020 (swap4 4028 (swap4 4038 b)))))" for b
    by (simp add: arp_ntoh_def ldb_swaph2 ldb_swapw4)
  have c: "ldb (arp_ntoh 4000 reply) 4014 = 1" "ldb (arp_ntoh 4000 reply) 4015 = 0" 
    "ldb (arp_ntoh 4000 reply) 4016 = 0" "ldb (arp_ntoh 4000 reply) 4017 = 8" 
    "ldb (arp_ntoh 4000 reply) 4020 = 2" "ldb (arp_ntoh 4000 reply) 4021 = 0" 
    unfolding b by (simp_all add: l swap2_def swap4_def)
  have d: "ldb (arp_ntoh 4000 reply) 4022 = 1" "ldb (arp_ntoh 4000 reply) 4023 = 2" "ldb (arp_ntoh 4000 reply) 4024 = 3"
    "ldb (arp_ntoh 4000 reply) 4025 = 4" "ldb (arp_ntoh 4000 reply) 4026 = 5" "ldb (arp_ntoh 4000 reply) 4027 = 6"
    unfolding b by (simp_all add: l swap2_def swap4_def)
  have e: "ldb (arp_ntoh 4000 reply) 4028 = 9" "ldb (arp_ntoh 4000 reply) 4029 = 0" "ldb (arp_ntoh 4000 reply) 4030 = 0"
    "ldb (arp_ntoh 4000 reply) 4031 = 0"
    unfolding b by (simp_all add: l swap2_def swap4_def)
  show "ldh (arp_ntoh 4000 reply) 4014 = 1" "ldh (arp_ntoh 4000 reply) 4016 = 0x0800" "ldh (arp_ntoh 4000 reply) 4020 = 2"
    "ldbs 6 (arp_ntoh 4000 reply) 4022 = [1, 2, 3, 4, 5, 6]" "ldw (arp_ntoh 4000 reply) 4028 = 9"
    by (simp_all add: ldh_def c) (simp_all add: ldbs_6 d, simp add: ldw_def ldh_def e)
qed

text \<open>The process that asks: process 1 runs, process 0 is ready, nobody sleeps, and the driver has a free descriptor.\<close>

definition links :: "int \<Rightarrow> qentry" where
  "links = (\<lambda>_. \<lparr>qkey = 0, qnext = -1, qprev = -1\<rparr>)(300 := \<lparr>qkey = 0, qnext = 0, qprev = -1\<rparr>, 0 := \<lparr>qkey = 0, qnext = 301, qprev = 300\<rparr>,
     301 := \<lparr>qkey = 0, qnext = -1, qprev = 0\<rparr>, 302 := \<lparr>qkey = 0, qnext = 303, qprev = -1\<rparr>, 303 := \<lparr>qkey = 0, qnext = -1, qprev = 302\<rparr>)"

lemma recvtime_blocks:
  assumes "queuetab s = links" "currpid s = 1" "prstate (proctab s 1) \<noteq> PR_FREE" "\<not> prhasmsg (proctab s 1)"
    "sleepq s = 302" "readylist s = 300" "ndefers s = 0"
  shows "\<exists>s' c. recvtime 300 s = Switch s' c"
proof -
  define s1 where "s1 = s\<lparr>queuetab := links(1 := \<lparr>qkey = 300, qnext = 303, qprev = 302\<rparr>, 302 := (links 302)\<lparr>qnext := 1\<rparr>, 303 := (links 303)\<lparr>qprev := 1\<rparr>)\<rparr>"
  have "insertd_scan 302 302 303 300 s = Some (302, 303, 300)" by (simp add: insertd_scan.simps)
  then have "insertd 1 302 300 s = Some (OK, s1)"
    using assms by (simp add: insertd_def isbadqid_def isbadpid_def firstid_def rdq_def upq_def inq_def links_def s1_def fun_upd_twist)
  moreover have "\<exists>s' c. resched (set_prstate 1 PR_RECTIM s1) = Switch s' c"
    using assms by (simp add: s1_def resched_def resched_force_def Let_def dequeue_def isempty_def getfirst_def getitem_def isbadqid_def
      firstid_def rdq_def upq_def inq_def links_def)
  ultimately show ?thesis using assms by (auto simp: recvtime_def)
qed

definition asker :: kstate where
  "asker = (nk 3 1 (\<lambda>_. 0))\<lparr>currpid := 1, queuetab := links, sleepq := 302, readylist := 300,
     proctab := \<lambda>_. (proctab boot0 0)\<lparr>prstate := PR_CURR, prhasmsg := False\<rparr>\<rparr>"

lemma asker_blocks:
  "\<exists>v sd1 w sd2 s3 c. onk recvclr (wr (arp_request 500 9 (snd (asking 3 9 (asker, net0)))) (asking 3 9 (asker, net0))) = Return v sd1 \<and>
     ethwrite 500 arp_size sd1 = Return w sd2 \<and> recvtime ARP_TIMEOUT (fst sd2) = Switch s3 c \<and> currpid (fst sd2) = 1"
proof -
  define s where "s = fst (wr (arp_request 500 9 (snd (asking 3 9 (asker, net0)))) (asking 3 9 (asker, net0)))"
  have sd: "wr (arp_request 500 9 (snd (asking 3 9 (asker, net0)))) (asking 3 9 (asker, net0)) = (s, asked)"
    by (simp add: s_def wr_def asking_def asked_def asker_def upn_def)
  have f: "currpid s = 1" "prhasmsg (proctab s 1) = False" "prstate (proctab s 1) = PR_CURR"
    "queuetab s = links" "sleepq s = 302" "readylist s = 300" "ndefers s = 0" "semtab s = semtab (nk 3 1 (\<lambda>_. 0))"
    by (simp_all add: s_def wr_def asking_def asker_def upn_def upmem_def nk)
  let ?s = "upsem 6 (\<lambda>e. e\<lparr>scount := i32 (scount e - 1)\<rparr>) s"
  have c: "onk recvclr (s, asked) = Return (u32 OK) (s, asked)" using f by (simp add: onk_def recvclr_def Let_def)
  have "sstate (semtab s 6) = S_USED" "scount (semtab s 6) = 1"
    using nk(2)[of 3 1 "\<lambda>_. 0"] f(8) by (simp_all add: sem_has_def)
  then have w: "wait 6 s = Return OK ?s" by (simp add: wait_def isbadsem_def Let_def)
  obtain g x v where r: "ethwrite 500 arp_size (s, asked) = Return v (upmem g ?s, x)"
    using w by (auto simp: ethwrite_def ethwrite_rest_def onk_def Let_def asked_def uparp_def net0_def ring0_def wr_def upn_def)
  have "\<exists>s' c. recvtime 300 (upmem g ?s) = Switch s' c"
    by (rule recvtime_blocks) (use f in \<open>simp_all add: upmem_def\<close>)
  then show ?thesis using c r f(1) unfolding sd by (auto simp: upmem_def)
qed

theorem arp_reply_resolves_witness:
  "(\<exists>m. arp_in 500 4000 (nk 3 0 reply, asked) =
      bindk (onk (send 1 OK) (upmem (\<lambda>_. m) (nk 3 0 reply), uparp 3 (\<lambda>e. e\<lparr>arhaddr := [1, 2, 3, 4, 5, 6], arstate := AR_RESOLVED\<rparr>) asked))
        (\<lambda>_ sd. if ldh (mm sd) 4020 = 2 then freepkt 4000 sd
          else if \<not> ipvalid (NetData (snd sd)) \<or> ldw (mm sd) 4038 \<noteq> ipucast (NetData (snd sd)) then freepkt 4000 sd
          else arp_respond 500 4000 sd) \<and> ldh m 4020 = 2) \<and>
   delivers (arp_ask 500 9 3 20000 (asker, net0)) 1
     (uparp 3 (\<lambda>e. e\<lparr>arhaddr := [1, 2, 3, 4, 5, 6], arstate := AR_RESOLVED\<rparr>) asked) [1, 2, 3, 4, 5, 6] 20000"
proof -
  have h: "arpaddr (arpcache asked 3) = ldw (arp_ntoh 4000 reply) (arp_sndpa 4000)" "arp_ntoh 4000 reply = arp_ntoh 4000 (mem (hp (nk 3 0 reply)))"
    "ldh (arp_ntoh 4000 reply) (arp_htype 4000) = ARP_HTYPE" "ldh (arp_ntoh 4000 reply) (arp_ptype 4000) = ARP_PTYPE"
    using reply asked(4) by (simp_all add: nk)
  note t = arp_reply_resolves[OF asked(1-3) h, of 500]
  have places: "4000 + 20 = (4020::int)" "4000 + 22 = (4022::int)" "4000 + 38 = (4038::int)" by simp_all
  from conjunct1[OF t] have "arp_in 500 4000 (nk 3 0 reply, asked) =
      bindk (onk (send 1 OK) (upmem (\<lambda>_. arp_ntoh 4000 reply) (nk 3 0 reply),
          uparp 3 (\<lambda>e. e\<lparr>arhaddr := [1, 2, 3, 4, 5, 6], arstate := AR_RESOLVED\<rparr>) asked))
        (\<lambda>_ sd. if ldh (mm sd) 4020 = 2 then freepkt 4000 sd
          else if \<not> ipvalid (NetData (snd sd)) \<or> ldw (mm sd) 4038 \<noteq> ipucast (NetData (snd sd)) then freepkt 4000 sd
          else arp_respond 500 4000 sd)"
    by (simp only: asked(5) places reply arp_sndha_def arp_op_def arp_tarpa_def ARP_OP_RPLY_def)
  moreover from conjunct1[OF conjunct2[OF t]] asker_blocks
  have "delivers (arp_ask 500 9 3 20000 (asker, net0)) 1
     (uparp 3 (\<lambda>e. e\<lparr>arhaddr := ldbs 6 (arp_ntoh 4000 reply) (arp_sndha 4000), arstate := AR_RESOLVED\<rparr>) asked)
     (ldbs 6 (arp_ntoh 4000 reply) (arp_sndha 4000)) 20000" by metis
  ultimately show ?thesis using reply(3,4) by (auto simp del: One_nat_def)
qed

section \<open>Replies\<close>

theorem icmp_endpoint_wears_out_witness:
  "\<exists>n. icmp_register 9 net0 = (0, n) \<and> map_option fst (icmp_rounds [1, 2, 3, 4, 5, 6, 7, 8] (icmptab n 0)) = Some [1, 2, 3, 4, 5, 6, 7, 8] \<and>
     map_option fst (icmp_rounds [1, 2, 3, 4, 5, 6, 7, 8, 9] (icmptab n 0)) = None"
proof -
  obtain n where n: "icmp_register 9 net0 = (0, n)"
    by (simp add: icmp_register_def net0_def numeral_eq_Suc)
  show ?thesis
    using icmp_endpoint_wears_out[OF n, of "[1, 2, 3, 4, 5, 6, 7, 8]"] icmp_endpoint_wears_out[OF n, of "[1, 2, 3, 4, 5, 6, 7, 8, 9]"] n
    by simp
qed

text \<open>An echo request with the data \<open>D E\<close> at 4000, identifier 3 and sequence number 5.\<close>

definition ping :: memory where
  "ping = stbs [68, 69] 4042 (sth 4040 5 (sth 4038 3 (stb 4034 8 (stw 4026 9 (sth 4016 30 (\<lambda>_. 0))))))"

lemma ping: "ping 3996 = 0" "ldb ping 4034 = 8" "ldh ping 4016 = 30" "ldh ping 4038 = 3" "ldh ping 4040 = 5" "ldw ping 4026 = 9"
  "ldbs 2 ping 4042 = [68, 69]"
  by (simp_all add: ping_def stb_other sth_def stw_def word_at_def)
    (simp_all add: ldw_def ldh_def ldb_stw ldb_sth numeral_2_eq_2)

theorem echo_request_answered_witness:
  "\<exists>s' n'. icmp_in 4000 (nk 3 0 ping, net0) = Return () (s', n') \<and> ip_holds (ipoqueue n') [9004] 7 \<and>
     sem_has s' (iqsem (ipoqueue n')) 1 \<and> ldw (mem (hp s')) 9034 = 9 \<and> ldb (mem (hp s')) 9038 = 0 \<and>
     ldh (mem (hp s')) 9042 = 3 \<and> ldh (mem (hp s')) 9044 = 5 \<and> ldbs 2 (mem (hp s')) 9046 = [68, 69]"
proof -
  have n: "netbufpool net0 = 0" "ip_holds (ipoqueue net0) [] (Suc 7)" "iqsem (ipoqueue net0) = 6" "length (ethucast (NetData net0)) = 6"
    by (simp_all add: net0_def net_zero_def ip_holds_def ring_def)
  have p: "pool_has (nk 3 0 ping) 0 (Suc 2)" using nk(3)[of 3 0 ping] by simp
  show ?thesis
    using echo_request_answered[where s = "nk 3 0 ping" and n = net0 and c = 2 and pkt = 4000 and len = 2 and ps = "[]" and k = 7 and j = 0]
      p n nk(2,4,5)[of 3 0 ping] ping
    by (auto simp: is_packet_def i32_def Let_def)
qed

section \<open>Rings of descriptors\<close>

text \<open>A ring of two descriptors at 40000 with buffers at 50000 and 51514.\<close>

definition txmem :: memory where
  "txmem = stw 40020 51514 (stw 40004 50000 (\<lambda>_. 0))"

lemma txmem: "tx_layout txmem (eth net0) 50000"
proof -
  have "ldw txmem 40004 = 50000" "ldw txmem 40020 = 51514" by (simp_all add: txmem_def ldw_def ldh_def ldb_stw)
  moreover have "ldw txmem (40004 + 16 * i) = 50000 + 1514 * i" if "0 \<le> i" "i < 2" for i
  proof -
    have "i = 0 \<or> i = 1" using that by auto
    then show ?thesis using calculation by auto
  qed
  ultimately show ?thesis by (auto simp: tx_layout_def net0_def ring0_def tx_slot_def)
qed

theorem ethwrite_appends_witness:
  "\<exists>s' n'. ethwrite 60000 (int 3) (nk 3 2 txmem, net0) = Return 3 (s', n') \<and> sem_has s' 6 1 \<and>
     tx_queue (mem (hp s')) n' 50000 [40000] \<and> frame (mem (hp s')) 40000 = replicate 60 0"
proof -
  have q: "tx_queue (mem (hp (nk 3 2 txmem))) net0 50000 []" using txmem by (simp add: tx_queue_def nk net0_def)
  have r: "eth net0 = ring0" by (simp add: net0_def)
  have "ldbs 3 txmem 60000 = replicate 3 0" by (simp add: txmem_def ldb_stw numeral_eq_Suc)
  then show ?thesis
    using ethwrite_appends[OF _ _ q, of 1 3 60000] nk(2)[of 3 2 txmem]
    by (simp add: r nk ring0_def tx_slot_def elsewhere_def flip: replicate_add) blast
qed

theorem eth_tx_interrupt_witness:
  "\<exists>s' n'. ethhandler ETH_AM335X_TXINT (nk 3 0 txmem, net0) = Return () (s', n') \<and> sem_has s' 6 2 \<and> txHead (eth n') = 1"
proof -
  have r: "eth net0 = ring0" by (simp add: net0_def)
  have o: "\<not> tx_owned txmem ring0 i" for i by (simp add: tx_owned_def txmem_def ldh_def ldb_stw tx_slot_def ring0_def)
  show ?thesis
    using eth_tx_interrupt[of "nk 3 0 txmem" net0 0 2] nk(2,6)[of 3 0 txmem] o
    by (auto simp: r nk ring0_def)
qed

end
