(* ===== verification/Doprnt.thy ===== *)
theory Doprnt
  imports Cstring "HOL-Library.Signed_Division" "HOL-Library.Monad_Syntax"
begin

unbundle bit_operations_syntax

text \<open>
  Formatted output: \<^verbatim>\<open>_doprnt\<close> (\<^verbatim>\<open>lib/doprnt.c\<close>, behind \<^verbatim>\<open>printf\<close> and \<^verbatim>\<open>kprintf\<close>) and \<^verbatim>\<open>_fdoprnt\<close>
  (\<^verbatim>\<open>lib/fdoprnt.c\<close>, behind \<^verbatim>\<open>sprintf\<close> and \<^verbatim>\<open>fprintf\<close>). A format is the list of its bytes; \<^verbatim>\<open>*fmt\<close> is the
  first byte of the rest of the list, or the null byte at its end. Characters are their codes:
  37 \<^verbatim>\<open>%\<close>, 42 \<^verbatim>\<open>*\<close>, 45 \<^verbatim>\<open>-\<close>, 46 \<^verbatim>\<open>.\<close>, 48 \<^verbatim>\<open>0\<close>, 57 \<^verbatim>\<open>9\<close>, 32 blank, 66 \<^verbatim>\<open>B\<close> and so on. The function that takes
  the characters is represented by the list of the characters it is called with.

  The array \<^verbatim>\<open>string[20]\<close>, which lives through the whole call, is a list of 20 bytes with arbitrary
  contents at first. A conversion that writes beyond it, a search for its null byte that leaves it,
  and a missing or mistyped argument are undefined (\<open>None\<close>). A \<^verbatim>\<open>double\<close> argument stands for what the
  floating-point operations of \<^verbatim>\<open>_prtdbl\<close> compute from it: whether it is negative, and the values of
  \<^verbatim>\<open>w\<close> and \<^verbatim>\<open>p\<close>.
\<close>

section \<open>Numbers to strings\<close>

text \<open>
  The conversions fill \<^verbatim>\<open>temp[1..n]\<close> with the digits, lowest first, search from the top for the first
  that is not \<^verbatim>\<open>0\<close>, and copy from there down to \<^verbatim>\<open>temp[0]\<close>, the null byte.
\<close>

primrec top_digit :: "int list \<Rightarrow> nat \<Rightarrow> nat" where
  "top_digit temp 0 = 0"
| "top_digit temp (Suc i) = (if temp ! Suc i = 48 then top_digit temp i else Suc i)"

definition numstr :: "int list \<Rightarrow> int list" where
  "numstr temp =
    (let i = top_digit temp (length temp - 1); i = (if i = 0 then i + 1 else i)
     in rev (take (i + 1) temp))"

primrec digits10 :: "nat \<Rightarrow> int \<Rightarrow> int list" where
  "digits10 0 num = []"
| "digits10 (Suc k) num = u8 (num smod 10 + 48) # digits10 k (num sdiv 10)"

definition prtl10 :: "int \<Rightarrow> int list" where
  "prtl10 num =
    (let d = u8 ((if num < 0 then - (num smod 10) else num smod 10) + 48);
         num = num sdiv (if num < 0 then -10 else 10)
     in numstr (0 # d # digits10 9 num))"

primrec digits8 :: "nat \<Rightarrow> int \<Rightarrow> int list" where
  "digits8 0 num = []"
| "digits8 (Suc k) num = ((num AND 7) + 48) # digits8 k (drop_bit 3 num)"

definition prtl8 :: "int \<Rightarrow> int list" where
  "prtl8 num = (let temp = 0 # digits8 11 num in numstr (temp[11 := temp ! 11 AND 51]))"

definition hexdigits :: "int list" where
  "hexdigits = [48, 49, 50, 51, 52, 53, 54, 55, 56, 57, 97, 98, 99, 100, 101, 102]"

definition Hexdigits :: "int list" where
  "Hexdigits = [48, 49, 50, 51, 52, 53, 54, 55, 56, 57, 65, 66, 67, 68, 69, 70]"

primrec digits16 :: "int list \<Rightarrow> nat \<Rightarrow> int \<Rightarrow> int list" where
  "digits16 hex 0 num = []"
| "digits16 hex (Suc k) num = hex ! nat (num AND 15) # digits16 hex k (drop_bit 4 num)"

definition prtl16 :: "int \<Rightarrow> int list" where
  "prtl16 num = numstr (0 # digits16 hexdigits 8 num)"

definition prtX16 :: "int \<Rightarrow> int list" where
  "prtX16 num = numstr (0 # digits16 Hexdigits 8 num)"

primrec digits2 :: "nat \<Rightarrow> int \<Rightarrow> int list" where
  "digits2 0 num = []"
| "digits2 (Suc k) num = (if num smod 2 = 0 then 48 else 49) # digits2 k (drop_bit 1 num)"

definition prtl2 :: "int \<Rightarrow> int list" where
  "prtl2 num = numstr (0 # digits2 32 num)"

text \<open>\<^verbatim>\<open>_prtdbl\<close> after the floating-point part; the null byte behind \<^verbatim>\<open>w\<close> is overwritten by the point.\<close>

definition prtdbl :: "int \<Rightarrow> int \<Rightarrow> int list" where
  "prtdbl w p = butlast (prtl10 w) @ [46] @ prtl10 p"

section \<open>Conversion specifications\<close>

datatype varg = Vlong int | Vstr "int list option" | Vdbl bool int int

definition cur :: "int list \<Rightarrow> int" where
  "cur fmt = (case fmt of [] \<Rightarrow> 0 | c # _ \<Rightarrow> c)"

text \<open>The characters up to the next \<^verbatim>\<open>%\<close>, and the format behind it unless it ends before.\<close>

primrec echo :: "int list \<Rightarrow> int list \<times> int list option" where
  "echo [] = ([], None)"
| "echo (c # fmt) = (if c = 37 then ([], Some fmt) else case echo fmt of (out, r) \<Rightarrow> (c # out, r))"

primrec fnum :: "int \<Rightarrow> int list \<Rightarrow> int \<times> int list" where
  "fnum n [] = (n, [])"
| "fnum n (c # fmt) = (if 48 \<le> c \<and> c \<le> 57 then fnum (i32 (n * 10 + c - 48)) fmt else (n, c # fmt))"

definition fwidth :: "int list \<Rightarrow> varg list \<Rightarrow> (int \<times> int list \<times> varg list) option" where
  "fwidth fmt args =
    (if cur fmt = 42 then (case args of Vlong n # args \<Rightarrow> Some (n, tl fmt, args) | _ \<Rightarrow> None)
     else case fnum 0 fmt of (n, fmt) \<Rightarrow> Some (n, fmt, args))"

text \<open>Left-justification, fill character, \<^verbatim>\<open>fmin\<close>, \<^verbatim>\<open>fmax\<close>, the rest of the format and of the arguments.\<close>

definition parse_spec :: "int list \<Rightarrow> varg list \<Rightarrow> (bool \<times> int \<times> int \<times> int \<times> int list \<times> varg list) option" where
  "parse_spec fmt args =
    (let left = (cur fmt = 45); fmt = (if left then tl fmt else fmt);
         fill = (if cur fmt = 48 then 48 else 32); fmt = (if cur fmt = 48 then tl fmt else fmt)
     in do {
       (fmin, fmt, args) \<leftarrow> fwidth fmt args;
       (fmax, fmt, args) \<leftarrow> (if cur fmt = 46 then fwidth (tl fmt) args else Some (0, fmt, args));
       Some (left, fill, fmin, fmax, fmt, args) })"

text \<open>
  What a conversion leaves: the characters it has put out itself, the string to be put out, whether
  a minus sign belongs to it, the fill character, \<^verbatim>\<open>fmax\<close>, the array and the rest of the arguments.
\<close>

type_synonym conv = "int list \<times> int list \<times> bool \<times> int \<times> int \<times> int list \<times> varg list"

definition put :: "int \<Rightarrow> int list \<Rightarrow> int list \<Rightarrow> int list option" where
  "put off bs buf =
    (if nat off + length bs \<le> length buf
     then Some (take (nat off) buf @ bs @ drop (nat off + length bs) buf) else None)"

definition cstring :: "int list \<Rightarrow> int list option" where
  "cstring buf = (if 0 \<in> set buf then Some (takeWhile (\<lambda>c. c \<noteq> 0) buf) else None)"

definition conv_buf :: "bool \<Rightarrow> int \<Rightarrow> int \<Rightarrow> int list option \<Rightarrow> varg list \<Rightarrow> conv option" where
  "conv_buf sign fill fmax buf args = do { buf \<leftarrow> buf; str \<leftarrow> cstring buf; Some ([], str, sign, fill, fmax, buf, args) }"

definition va_long :: "varg list \<Rightarrow> (int \<times> varg list) option" where
  "va_long args = (case args of Vlong n # args \<Rightarrow> Some (n, args) | _ \<Rightarrow> None)"

text \<open>The loop of the conversion \<^verbatim>\<open>u\<close>; the subtraction wraps around below the least \<^verbatim>\<open>long\<close>.\<close>

partial_function (option) unsigned_loop :: "int \<Rightarrow> int \<Rightarrow> (int \<times> int) option" where
  "unsigned_loop larg d1 =
    (if larg < 0 then unsigned_loop (i32 (larg - 1000000000)) (u8 (d1 + 1)) else Some (larg, d1))"

definition conv_c :: "int list \<Rightarrow> varg list \<Rightarrow> conv option" where
  "conv_c buf args = do { (n, args) \<leftarrow> va_long args; conv_buf False 32 0 (put 0 [u8 n, 0] buf) args }"

definition conv_s :: "int \<Rightarrow> int list \<Rightarrow> varg list \<Rightarrow> conv option" where
  "conv_s fmax buf args =
    (case args of
       Vstr None # args \<Rightarrow> Some ([], [40, 110, 117, 108, 108, 41], False, 32, fmax, buf, args)
     | Vstr (Some str) # args \<Rightarrow> Some ([], str, False, 32, fmax, buf, args)
     | _ \<Rightarrow> None)"

definition conv_u :: "(int \<Rightarrow> int list) \<Rightarrow> int \<Rightarrow> int list \<Rightarrow> varg list \<Rightarrow> conv option" where
  "conv_u prt fill buf args = do {
     (n, args) \<leftarrow> va_long args;
     (n, d1) \<leftarrow> unsigned_loop n 0;
     buf \<leftarrow> put 0 (prt n) buf;
     conv_buf False fill 0 (Some (buf[0 := u8 (buf ! 0 + d1)])) args }"

definition conv_num :: "(int \<Rightarrow> int list) \<Rightarrow> int \<Rightarrow> int list \<Rightarrow> varg list \<Rightarrow> conv option" where
  "conv_num prt fill buf args = do { (n, args) \<leftarrow> va_long args; conv_buf False fill 0 (put 0 (prt n) buf) args }"

text \<open>\<^verbatim>\<open>H\<close> and \<^verbatim>\<open>h\<close>: two words, the second behind eight characters for the first.\<close>

definition conv_num2 :: "(int \<Rightarrow> int list) \<Rightarrow> int \<Rightarrow> int list \<Rightarrow> varg list \<Rightarrow> conv option" where
  "conv_num2 prt fill buf args = do {
     (n, args) \<leftarrow> va_long args;
     buf \<leftarrow> put 0 (prt n) buf;
     (n, args) \<leftarrow> va_long args;
     conv_buf False fill 0 (put 8 (prt n) buf) args }"

definition conv_other :: "int \<Rightarrow> int \<Rightarrow> int \<Rightarrow> int list \<Rightarrow> varg list \<Rightarrow> conv option" where
  "conv_other f fill fmax buf args = do { str \<leftarrow> cstring buf; Some ([f], str, False, fill, fmax, buf, args) }"

text \<open>The switch of \<^verbatim>\<open>_doprnt\<close>.\<close>

definition doconv :: "int \<Rightarrow> int \<Rightarrow> int \<Rightarrow> int list \<Rightarrow> varg list \<Rightarrow> conv option" where
  "doconv f fill fmax buf args =
    (if f = 99 then conv_c buf args
     else if f = 115 then conv_s fmax buf args
     else if f = 100 then do { (n, args) \<leftarrow> va_long args; conv_buf (n < 0) fill fmax (put 0 (prtl10 n) buf) args }
     else if f = 102 then (case args of
         Vdbl neg w p # args \<Rightarrow> conv_buf neg fill fmax (put 0 (prtdbl w p) buf) args | _ \<Rightarrow> None)
     else if f = 117 then conv_u prtl10 fill buf args
     else if f = 111 then conv_num prtl8 fill buf args
     else if f = 88 then conv_num prtX16 fill buf args
     else if f = 120 then conv_num prtl16 fill buf args
     else if f = 72 then conv_num2 prtX16 fill buf args
     else if f = 104 then conv_num2 prtl16 fill buf args
     else if f = 98 then conv_num prtl2 fill buf args
     else conv_other f fill fmax buf args)"

section \<open>Putting out a field\<close>

definition clip :: "int \<Rightarrow> int" where
  "clip n = (if n > 80 \<or> n < 0 then 0 else n)"

definition emit :: "bool \<Rightarrow> int \<Rightarrow> int \<Rightarrow> int \<Rightarrow> bool \<Rightarrow> int list \<Rightarrow> int list" where
  "emit left fill fmin fmax sign str =
    (let fmin = clip fmin; fmax = clip fmax; len = int (length str);
         len = (if fmax \<noteq> 0 \<and> len > fmax then fmax else len);
         leading = (if fmax \<noteq> 0 \<or> fmin \<noteq> 0
                    then (if fmin \<noteq> 0 then fmin - len else 0) - (if sign then 1 else 0) else 0);
         pad = replicate (nat leading) fill
     in (if sign \<and> fill = 48 then [45] else []) @ (if left then [] else pad) @
        (if sign \<and> fill = 32 then [45] else []) @ take (nat len) str @ (if left then pad else []))"

lemma echo_shorter: "echo fmt = (out, Some r) \<Longrightarrow> length r < length fmt"
  by (induction fmt arbitrary: out) (auto split: if_splits prod.splits)

lemma fnum_shorter: "fnum n fmt = (k, r) \<Longrightarrow> length r \<le> length fmt"
  by (induction fmt arbitrary: n) (auto split: if_splits intro: le_SucI)

lemma fwidth_shorter: "fwidth fmt args = Some (n, r, args') \<Longrightarrow> length r \<le> length fmt"
  by (auto simp: fwidth_def split: if_splits list.splits varg.splits prod.splits dest: fnum_shorter)

lemma parse_spec_shorter:
  "parse_spec fmt args = Some (left, fill, fmin, fmax, r, args') \<Longrightarrow> length r \<le> length fmt"
  by (auto simp: parse_spec_def Let_def bind_eq_Some_conv split: if_splits prod.splits dest!: fwidth_shorter)

section \<open>The loop over the format\<close>

text \<open>One pass of the outer loop: the characters put out, and what is left to do, if anything.\<close>

definition doprnt_pass :: "(int \<Rightarrow> int \<Rightarrow> int \<Rightarrow> int list \<Rightarrow> varg list \<Rightarrow> conv option) \<Rightarrow> int list \<Rightarrow> varg list \<Rightarrow>
    int list \<Rightarrow> (int list \<times> (int list \<times> varg list \<times> int list) option) option" where
  "doprnt_pass conv fmt args buf =
    (case echo fmt of
       (out, None) \<Rightarrow> Some (out, None)
     | (out, Some fmt) \<Rightarrow>
         if cur fmt = 37 then Some (out @ [37], Some (tl fmt, args, buf))
         else do {
           (left, fill, fmin, fmax, fmt, args) \<leftarrow> parse_spec fmt args;
           if cur fmt = 0 then Some (out @ [37], None)
           else do {
             (out', str, sign, fill, fmax, buf, args) \<leftarrow> conv (cur fmt) fill fmax buf args;
             Some (out @ out' @ emit left fill fmin fmax sign str, Some (tl fmt, args, buf)) } })"

lemma doprnt_pass_shorter:
  assumes "doprnt_pass conv fmt args buf = Some (out, Some (fmt', args', buf'))"
  shows "length fmt' < length fmt"
proof -
  have tl: "length (tl r) < length fmt" if "length r < length fmt" for r :: "int list"
    using that by simp
  show ?thesis
    using assms unfolding doprnt_pass_def
    by (auto simp: bind_eq_Some_conv split: prod.splits option.splits if_splits
        dest!: echo_shorter parse_spec_shorter intro!: tl)
qed

function doprnt_loop :: "(int \<Rightarrow> int \<Rightarrow> int \<Rightarrow> int list \<Rightarrow> varg list \<Rightarrow> conv option) \<Rightarrow> int list \<Rightarrow> varg list \<Rightarrow>
    int list \<Rightarrow> int list option" where
  "doprnt_loop conv fmt args buf =
    (case doprnt_pass conv fmt args buf of
       None \<Rightarrow> None
     | Some (out, None) \<Rightarrow> Some out
     | Some (out, Some (fmt, args, buf)) \<Rightarrow> map_option (\<lambda>rest. out @ rest) (doprnt_loop conv fmt args buf))"
  by pat_completeness auto
termination by (relation "measure (\<lambda>(_, fmt, _, _). length fmt)") (auto dest: doprnt_pass_shorter)

declare doprnt_loop.simps [simp del]

definition doprnt :: "int list \<Rightarrow> varg list \<Rightarrow> int list \<Rightarrow> int list option" where
  "doprnt fmt args buf = doprnt_loop doconv fmt args buf"

section \<open>The variant for sprintf and fprintf\<close>

text \<open>Its \<^verbatim>\<open>_prtl10\<close> expects a number that is not negative; \<^verbatim>\<open>d\<close> negates a negative one before.\<close>

definition fprtl10 :: "int \<Rightarrow> int list" where
  "fprtl10 num = numstr (0 # digits10 10 num)"

definition fdoconv :: "int \<Rightarrow> int \<Rightarrow> int \<Rightarrow> int list \<Rightarrow> varg list \<Rightarrow> conv option" where
  "fdoconv f fill fmax buf args =
    (if f = 99 then conv_c buf args
     else if f = 115 then conv_s fmax buf args
     else if f = 100 then do {
       (n, args) \<leftarrow> va_long args;
       conv_buf (n < 0) fill fmax (put 0 (fprtl10 (if n < 0 then i32 (- n) else n)) buf) args }
     else if f = 117 then conv_u fprtl10 fill buf args
     else if f = 111 then conv_num prtl8 fill buf args
     else if f = 88 then conv_num prtX16 fill buf args
     else if f = 120 then conv_num prtl16 fill buf args
     else if f = 98 then conv_num prtl2 fill buf args
     else conv_other f fill fmax buf args)"

definition fdoprnt :: "int list \<Rightarrow> varg list \<Rightarrow> int list \<Rightarrow> int list option" where
  "fdoprnt fmt args buf = doprnt_loop fdoconv fmt args buf"

text \<open>\<^verbatim>\<open>sprintf\<close>: the characters go to the store from \<^verbatim>\<open>str\<close> on, then a null byte.\<close>

primrec sprntf :: "int list \<Rightarrow> int \<Rightarrow> store \<Rightarrow> int \<times> store" where
  "sprntf [] s M = (s, M)"
| "sprntf (c # cs) s M = sprntf cs (s + 1) (M(s := u8 c))"

definition sprintf :: "int \<Rightarrow> int list \<Rightarrow> varg list \<Rightarrow> int list \<Rightarrow> store \<Rightarrow> (int \<times> store) option" where
  "sprintf str fmt args buf M =
    (case fdoprnt fmt args buf of None \<Rightarrow> None
     | Some out \<Rightarrow> (case sprntf out str M of (s, M) \<Rightarrow> Some (str, M(s := 0))))"

end
