(* ===== verification/Doprnt_Correct.thy ===== *)
theory Doprnt_Correct
  imports Doprnt
begin

text \<open>
  What formatted output prints: the numerals of the five conversions, the field widths, the round
  trip of \<^verbatim>\<open>%d\<close> through \<^verbatim>\<open>atoi\<close>, and where the array of 20 bytes is too small.
\<close>

section \<open>Numerals\<close>

text \<open>\<open>ds\<close> is the numeral of \<open>v\<close> in base \<open>b\<close>, the highest digit first and not 0 unless alone.\<close>

definition nval :: "int \<Rightarrow> int list \<Rightarrow> int" where
  "nval b ds = foldl (\<lambda>a d. a * b + d) 0 ds"

definition is_numeral :: "int \<Rightarrow> int list \<Rightarrow> int \<Rightarrow> bool" where
  "is_numeral b ds v \<longleftrightarrow> ds \<noteq> [] \<and> (\<forall>d\<in>set ds. 0 \<le> d \<and> d < b) \<and> nval b ds = v \<and> (hd ds = 0 \<longrightarrow> ds = [0])"

lemma nval_snoc [simp]: "nval b (ds @ [d]) = nval b ds * b + d" "nval b [] = 0"
  by (simp_all add: nval_def)

lemma foldl_numeral: "foldl (\<lambda>a d. a * b + d) (c::int) ds = c * b ^ length ds + nval b ds"
proof (induction ds rule: rev_induct)
  case (snoc x xs)
  then show ?case by (simp add: algebra_simps)
qed simp

lemma nval_Cons: "nval b (d # ds) = d * b ^ length ds + nval b ds"
  using foldl_numeral[of b d ds] by (simp add: nval_def)

lemma nval_range: "\<forall>d\<in>set ds. 0 \<le> d \<and> d < b \<Longrightarrow> 0 \<le> nval b ds \<and> nval b ds < b ^ length ds"
proof (induction ds)
  case (Cons d ds)
  then have r: "0 \<le> nval b ds" "nval b ds < b ^ length ds" and d: "0 \<le> d" "d \<le> b - 1" by auto
  have "d * b ^ length ds \<le> (b - 1) * b ^ length ds" using d(2) r by (intro mult_right_mono) auto
  then show ?case using r d(1) by (simp add: nval_Cons algebra_simps)
qed simp

lemma is_numeral_length:
  assumes "is_numeral b ds v" "1 < b" "0 < k"
  shows "length ds \<le> k \<longleftrightarrow> v < b ^ k"
proof -
  obtain d ds' where ds: "ds = d # ds'" using assms(1) by (cases ds) (auto simp: is_numeral_def)
  have r: "\<forall>d\<in>set ds. 0 \<le> d \<and> d < b" and v: "v = nval b ds" using assms(1) by (auto simp: is_numeral_def)
  show ?thesis
  proof
    assume "length ds \<le> k"
    then have "b ^ length ds \<le> b ^ k" using assms(2) by (intro power_increasing) auto
    then show "v < b ^ k" using nval_range[OF r] v by linarith
  next
    assume lt: "v < b ^ k"
    show "length ds \<le> k"
    proof (cases "d = 0")
      case True
      then show ?thesis using assms(1,3) ds by (auto simp: is_numeral_def)
    next
      case False
      then have "1 \<le> d" using r ds by auto
      then have "b ^ length ds' \<le> d * b ^ length ds'" using assms(2) by simp
      also have "\<dots> \<le> v" using nval_range[of ds' b] r ds v by (simp add: nval_Cons)
      finally have "b ^ length ds' < b ^ k" using lt by simp
      then have "length ds' < k" using assms(2) by (simp add: power_strict_increasing_iff)
      then show ?thesis using ds by simp
    qed
  qed
qed

primrec places :: "int \<Rightarrow> nat \<Rightarrow> int \<Rightarrow> int list" where
  "places b 0 n = []"
| "places b (Suc k) n = n mod b # places b k (n div b)"

lemma length_places [simp]: "length (places b k n) = k"
  by (induction k arbitrary: n) auto

lemma places_range: "0 < b \<Longrightarrow> d \<in> set (places b k n) \<Longrightarrow> 0 \<le> d \<and> d < b"
  by (induction k arbitrary: n) auto

lemma nval_places: "0 < b \<Longrightarrow> nval b (rev (places b k n)) = n mod b ^ k"
proof (induction k arbitrary: n)
  case (Suc k)
  have "nval b (rev (places b (Suc k) n)) = (n div b mod b ^ k) * b + n mod b" using Suc by simp
  also have "\<dots> = n mod (b * b ^ k)"
    using Suc.prems by (simp add: zmod_zmult2_eq mult.commute)
  finally show ?case by simp
qed simp

lemma places_cong: "0 < b \<Longrightarrow> n mod b ^ k = m mod b ^ k \<Longrightarrow> places b k n = places b k m"
proof (induction k arbitrary: n m)
  case (Suc k)
  have n: "n mod (b * b ^ k) = m mod (b * b ^ k)" using Suc.prems(2) by simp
  have "n mod b = m mod b" using arg_cong[OF n, of "\<lambda>x. x mod b"] by (simp add: mod_mod_cancel)
  moreover from n calculation have "b * (n div b mod b ^ k) = b * (m div b mod b ^ k)"
    using Suc.prems(1) by (simp add: zmod_zmult2_eq)
  then have "n div b mod b ^ k = m div b mod b ^ k" using Suc.prems(1) by simp
  ultimately show ?case using Suc.IH[of "n div b" "m div b"] Suc.prems(1) by simp
qed simp

section \<open>Stripping leading zeros\<close>

lemma top_digit_eq: "top_digit (0 # ds @ es) (length ds) = length (dropWhile (\<lambda>c. c = 48) (rev ds))"
proof (induction ds arbitrary: es rule: rev_induct)
  case (snoc d ds)
  have "(0 # (ds @ [d]) @ es) ! Suc (length ds) = d" by (simp add: nth_append)
  then show ?case using snoc[of "d # es"] by (cases "d = 48") simp_all
qed simp

lemma take_dropWhile_rev: "rev (take (length (dropWhile P (rev ds))) ds) = dropWhile P (rev ds)"
proof (induction ds rule: rev_induct)
  case (snoc x xs)
  have "length (dropWhile P (rev xs)) \<le> length xs" using length_dropWhile_le[of P "rev xs"] by simp
  then show ?case using snoc by auto
qed simp

lemma numstr_eq:
  assumes "ds \<noteq> []"
  shows "numstr (0 # ds) = (let r = dropWhile (\<lambda>c. c = 48) (rev ds) in if r = [] then [hd ds] else r) @ [0]"
proof -
  let ?r = "dropWhile (\<lambda>c. c = 48) (rev ds)"
  have t: "top_digit (0 # ds) (length ds) = length ?r" using top_digit_eq[of ds "[]"] by simp
  show ?thesis
  proof (cases "?r = []")
    case True
    then have "top_digit (0 # ds) (length ds) = 0" using t by (metis list.size(3))
    then show ?thesis using True assms by (cases ds) (simp_all add: numstr_def Let_def)
  next
    case False
    then obtain m where "length ?r = Suc m" by (cases "length ?r") auto
    then have "numstr (0 # ds) = rev (take (length ?r) ds) @ [0]" using t by (simp add: numstr_def Let_def)
    then show ?thesis using False take_dropWhile_rev[of "\<lambda>c. c = 48" ds] unfolding Let_def by (simp only: if_False)
  qed
qed

lemma dropWhile_zero_numeral:
  assumes "\<forall>d\<in>set ds. 0 \<le> d \<and> d < b" "ds \<noteq> []" "last ds = z"
  shows "is_numeral b (let r = dropWhile (\<lambda>d. d = 0) ds in if r = [] then [z] else r) (nval b ds)"
proof -
  let ?r = "dropWhile (\<lambda>d. d = 0) ds"
  have v: "nval b (dropWhile (\<lambda>d. d = 0) es) = nval b es" for es
    by (induction es) (auto simp: nval_Cons)
  have sub: "\<forall>d\<in>set ?r. 0 \<le> d \<and> d < b" using assms(1) set_dropWhileD by fast
  show ?thesis
  proof (cases "?r = []")
    case True
    have "z \<in> set ds" using assms(2,3) last_in_set by blast
    then have "z = 0" "0 < b" using True assms(1) by (auto simp: dropWhile_eq_Nil_conv)
    moreover have "nval b ds = 0" using v[of ds] True by simp
    ultimately show ?thesis unfolding Let_def if_P[OF True] by (simp add: is_numeral_def nval_def)
  next
    case False
    then have "hd ?r \<noteq> 0" using hd_dropWhile by fast
    then show ?thesis unfolding Let_def if_not_P[OF False] is_numeral_def using False sub v[of ds] by blast
  qed
qed

text \<open>Digits written by a function that gives \<^verbatim>\<open>0\<close> for the digit 0 only.\<close>

lemma numstr_numeral:
  assumes "0 < b" "0 < k" "\<And>d. 0 \<le> d \<Longrightarrow> d < b \<Longrightarrow> f d = 48 \<longleftrightarrow> d = 0"
  shows "\<exists>ds. numstr (0 # map f (places b k n)) = map f ds @ [0] \<and> is_numeral b ds (n mod b ^ k)"
proof -
  let ?ps = "places b k n" let ?r = "dropWhile (\<lambda>d. d = 0) (rev ?ps)"
  let ?ds = "let r = ?r in if r = [] then [hd ?ps] else r"
  have ne: "?ps \<noteq> []" using assms(2) by (metis length_places length_greater_0_conv)
  have "dropWhile (\<lambda>c. c = 48) (map f (rev ?ps)) = map f (dropWhile (\<lambda>d. f d = 48) (rev ?ps))"
    by (simp add: dropWhile_map comp_def)
  also have "dropWhile (\<lambda>d. f d = 48) (rev ?ps) = ?r"
    using places_range[OF assms(1)] assms(3) by (intro dropWhile_cong) auto
  finally have "numstr (0 # map f ?ps) = map f ?ds @ [0]"
    using ne by (subst numstr_eq) (simp_all add: rev_map Let_def hd_map)
  moreover have "is_numeral b ?ds (nval b (rev ?ps))"
    by (rule dropWhile_zero_numeral) (use places_range[OF assms(1)] ne in \<open>auto simp: last_rev\<close>)
  ultimately show ?thesis unfolding nval_places[OF assms(1)] by (intro exI conjI)
qed

section \<open>The conversions\<close>

lemma digits10_places: "0 \<le> n \<Longrightarrow> digits10 k n = map (\<lambda>d. d + 48) (places 10 k n)"
proof (induction k arbitrary: n)
  case (Suc k)
  have "n smod 10 = n mod 10" "n sdiv 10 = n div 10" using Suc.prems by (auto simp: signed_modulo_int_def signed_divide_int_def sgn_if)
  then show ?case using Suc by (simp add: u8_def)
qed simp

lemma prtl10_abs: "prtl10 n = fprtl10 \<bar>n\<bar>"
proof -
  have m: "(if n < 0 then - (n smod 10) else n smod 10) = \<bar>n\<bar> smod 10"
    by (auto simp: signed_modulo_int_def sgn_if)
  have d: "n sdiv (if n < 0 then -10 else 10) = \<bar>n\<bar> sdiv 10"
    by (auto simp: signed_divide_int_def sgn_if)
  have "digits10 10 k = u8 (k smod 10 + 48) # digits10 9 (k sdiv 10)" for k
    by (simp add: eval_nat_numeral(3)[of Num.One] numeral_eq_Suc)
  then show ?thesis unfolding prtl10_def fprtl10_def m d Let_def by simp
qed

lemma fprtl10_numeral:
  assumes "0 \<le> n" "n < 10000000000"
  shows "\<exists>ds. fprtl10 n = map (\<lambda>d. d + 48) ds @ [0] \<and> is_numeral 10 ds n"
  using numstr_numeral[of 10 10 "\<lambda>d. d + 48" n] assms
  by (simp add: fprtl10_def digits10_places)

lemma and_7: "(n::int) AND 7 = n mod 8" and and_15: "(n::int) AND 15 = n mod 16"
  using take_bit_eq_mask[of 3 n] take_bit_eq_mask[of 4 n]
  by (simp_all add: take_bit_eq_mod mask_eq_exp_minus_1)

lemma digits8_places: "digits8 k n = map (\<lambda>d. d + 48) (places 8 k n)"
  by (induction k arbitrary: n) (simp_all add: and_7 drop_bit_eq_div)

lemma digits16_places: "digits16 hex k n = map (\<lambda>d. hex ! nat d) (places 16 k n)"
  by (induction k arbitrary: n) (simp_all add: and_15 drop_bit_eq_div)

lemma digits2_places: "digits2 k n = map (\<lambda>d. d + 48) (places 2 k n)"
proof (induction k arbitrary: n)
  case (Suc k)
  have "n smod 2 = 0 \<longleftrightarrow> n mod 2 = 0" by (auto simp: signed_modulo_int_def sgn_if)
  then show ?case using Suc by (auto simp: drop_bit_eq_div)
qed simp
lemma places_add: "0 < b \<Longrightarrow> places b (j + k) n = places b j n @ places b k (n div b ^ j)"
  by (induction j arbitrary: n) (simp_all add: zdiv_zmult2_eq)

lemma u32_int32: "- 2147483648 \<le> n \<Longrightarrow> n < 2147483648 \<Longrightarrow> u32 n = (if n < 0 then n + 4294967296 else n)"
proof -
  assume n: "- 2147483648 \<le> n" "n < 2147483648"
  have "u32 n = (n + 4294967296) mod 4294967296" unfolding u32_def by (metis mod_add_self2)
  also have "\<dots> = n + 4294967296" if "n < 0" using n that by (intro mod_pos_pos_trivial) auto
  finally show ?thesis using n by (cases "n < 0") simp_all
qed

lemma prtl8_numeral:
  assumes n: "- 2147483648 \<le> n" "n < 2147483648"
  shows "\<exists>ds. prtl8 n = map (\<lambda>d. d + 48) ds @ [0] \<and> is_numeral 8 ds (u32 n)"
proof -
  let ?top = "\<lambda>n. n div 1073741824 mod 8 :: int"
  have pl: "places 8 11 m = places 8 10 m @ [?top m]" for m
    using places_add[of 8 10 1 m] by simp
  have "u32 n mod 1073741824 = n mod 1073741824" unfolding u32_def by (rule mod_mod_cancel) simp
  then have low: "places 8 10 n = places 8 10 (u32 n)" by (intro places_cong) simp_all
  have "-2 \<le> n div 1073741824" "n div 1073741824 \<le> 1"
    using n zdiv_mono1[of "-2147483648" n 1073741824] zdiv_mono1[of n 2147483647 1073741824] by simp_all
  then have "n div 1073741824 = -2 \<or> n div 1073741824 = -1 \<or> n div 1073741824 = 0 \<or> n div 1073741824 = 1"
    by linarith
  moreover have "u32 n div 1073741824 = n div 1073741824 + (if n < 0 then 4 else 0)"
    using n by (auto simp: u32_int32)
  ultimately have top: "(?top n + 48) AND 51 = ?top (u32 n) + 48"
    by (elim disjE) (simp_all split: if_splits)
  have "digits8 11 n = map (\<lambda>d. d + 48) (places 8 10 n) @ [?top n + 48]"
    by (simp add: digits8_places pl)
  then have "(0 # digits8 11 n)[11 := (0 # digits8 11 n) ! 11 AND 51] = 0 # map (\<lambda>d. d + 48) (places 8 11 (u32 n))"
    by (simp add: pl low top list_update_append nth_append)
  then have "prtl8 n = numstr (0 # map (\<lambda>d. d + 48) (places 8 11 (u32 n)))" by (simp add: prtl8_def Let_def)
  moreover have "u32 n mod 8 ^ 11 = u32 n" using u32_range[of n] by simp
  ultimately show ?thesis using numstr_numeral[of 8 11 "\<lambda>d. d + 48" "u32 n"] by simp
qed

lemma hex_zero:
  assumes "0 \<le> d" "d < 16"
  shows "hexdigits ! nat d = 48 \<longleftrightarrow> d = 0" "Hexdigits ! nat d = 48 \<longleftrightarrow> d = 0"
    "0 < hexdigits ! nat d" "0 < Hexdigits ! nat d"
proof -
  have "d \<in> set [0..15]" using assms by auto
  then show "hexdigits ! nat d = 48 \<longleftrightarrow> d = 0" "Hexdigits ! nat d = 48 \<longleftrightarrow> d = 0"
    "0 < hexdigits ! nat d" "0 < Hexdigits ! nat d"
    by (auto simp: upto_rec1 hexdigits_def Hexdigits_def)
qed

lemma u32_mod_16: "n mod 16 ^ 8 = u32 n" "n mod 2 ^ 32 = u32 n"
  by (simp_all add: u32_def)

lemma prt_numerals:
  "\<exists>ds. prtl16 n = map (\<lambda>d. hexdigits ! nat d) ds @ [0] \<and> is_numeral 16 ds (u32 n)"
  "\<exists>ds. prtX16 n = map (\<lambda>d. Hexdigits ! nat d) ds @ [0] \<and> is_numeral 16 ds (u32 n)"
  "\<exists>ds. prtl2 n = map (\<lambda>d. d + 48) ds @ [0] \<and> is_numeral 2 ds (u32 n)"
  using numstr_numeral[of 16 8 "\<lambda>d. hexdigits ! nat d" n] numstr_numeral[of 16 8 "\<lambda>d. Hexdigits ! nat d" n]
    numstr_numeral[of 2 32 "\<lambda>d. d + 48" n] hex_zero
  unfolding prtl16_def prtX16_def prtl2_def digits16_places digits2_places u32_mod_16 by simp_all

text \<open>The number conversions print numerals without leading zeros: decimal for the absolute value, and
  octal, hexadecimal in both cases and binary for the 32-bit pattern read as unsigned; also for the
  least \<^verbatim>\<open>int\<close>.\<close>

theorem numerals_printed:
  assumes "- 2147483648 \<le> n" "n < 2147483648"
  shows "(\<exists>ds. prtl10 n = map (\<lambda>d. d + 48) ds @ [0] \<and> is_numeral 10 ds \<bar>n\<bar>) \<and>
    (\<exists>ds. prtl8 n = map (\<lambda>d. d + 48) ds @ [0] \<and> is_numeral 8 ds (u32 n)) \<and>
    (\<exists>ds. prtl16 n = map (\<lambda>d. hexdigits ! nat d) ds @ [0] \<and> is_numeral 16 ds (u32 n)) \<and>
    (\<exists>ds. prtX16 n = map (\<lambda>d. Hexdigits ! nat d) ds @ [0] \<and> is_numeral 16 ds (u32 n)) \<and>
    (\<exists>ds. prtl2 n = map (\<lambda>d. d + 48) ds @ [0] \<and> is_numeral 2 ds (u32 n))"
  using fprtl10_numeral[of "\<bar>n\<bar>"] prtl8_numeral[OF assms] prt_numerals[of n] assms
  by (simp add: prtl10_abs)

section \<open>Whole formats\<close>

lemma conv_buf_put:
  assumes "0 \<notin> set bs" "length bs < length buf"
  shows "conv_buf sign fill fmax (put 0 (bs @ [0]) buf) args =
    Some ([], bs, sign, fill, fmax, (bs @ [0]) @ drop (length bs + 1) buf, args)"
proof -
  have "takeWhile (\<lambda>c. c \<noteq> 0) (bs @ 0 # r) = bs" for r
    using assms(1) by (metis (mono_tags, lifting) takeWhile_append2 takeWhile.simps(2) append.right_neutral)
  then show ?thesis using assms(2) by (simp add: conv_buf_def put_def cstring_def)
qed

lemma put_overflow: "length buf < length bs \<Longrightarrow> put 0 bs buf = None"
  by (simp add: put_def)

lemma doprnt_loop_Nil: "doprnt_loop conv [] args buf = Some []"
  by (subst doprnt_loop.simps) (simp add: doprnt_pass_def)

lemma one_spec:
  assumes "f \<noteq> 0" "f \<noteq> 37" "f \<noteq> 45" "f \<noteq> 42" "f \<noteq> 46" "\<not> (48 \<le> f \<and> f \<le> 57)"
  shows "doprnt_loop conv [37, f] args buf =
    (case conv f 32 0 buf args of None \<Rightarrow> None
     | Some (out', str, sign, fill, fmax, buf, args) \<Rightarrow> Some (out' @ emit False fill 0 fmax sign str))"
  using assms
  by (subst doprnt_loop.simps)
    (auto simp: doprnt_pass_def cur_def parse_spec_def fwidth_def Let_def doprnt_loop_Nil split: option.splits)

lemma emit_plain:
  "fill = 32 \<Longrightarrow> emit False fill 0 0 sign str = (if sign then [45] else []) @ str"
  by (simp add: emit_def clip_def Let_def)

lemma digit_codes: "is_numeral b ds v \<Longrightarrow> 0 \<notin> set (map (\<lambda>d. d + 48) ds)"
  by (auto simp: is_numeral_def)

lemma percent_d:
  assumes "length buf = 20" "- 2147483648 \<le> n" "n < 2147483648"
  shows "\<exists>ds. is_numeral 10 ds \<bar>n\<bar> \<and> length ds \<le> 10 \<and>
    doprnt [37, 100] [Vlong n] buf = Some ((if n < 0 then [45] else []) @ map (\<lambda>d. d + 48) ds) \<and>
    (n \<noteq> - 2147483648 \<longrightarrow>
      fdoprnt [37, 100] [Vlong n] buf = Some ((if n < 0 then [45] else []) @ map (\<lambda>d. d + 48) ds))"
proof -
  have "\<bar>n\<bar> < 10000000000" using assms(2,3) by linarith
  then obtain ds where ds: "fprtl10 \<bar>n\<bar> = map (\<lambda>d. d + 48) ds @ [0]" "is_numeral 10 ds \<bar>n\<bar>"
    using fprtl10_numeral[of "\<bar>n\<bar>"] by auto
  have len: "length ds \<le> 10" using is_numeral_length[OF ds(2), of 10] assms(2,3) by simp
  note put = conv_buf_put[OF digit_codes[OF ds(2)], of buf]
  have a: "i32 (- n) = \<bar>n\<bar>" if "n < 0" "n \<noteq> - 2147483648" using that assms(2) by simp
  have "doconv 100 32 0 buf [Vlong n] = conv_buf (n < 0) 32 0 (put 0 (prtl10 n) buf) []"
    by (simp add: doconv_def va_long_def)
  moreover have "fdoconv 100 32 0 buf [Vlong n] = conv_buf (n < 0) 32 0 (put 0 (fprtl10 \<bar>n\<bar>) buf) []" if "n \<noteq> - 2147483648"
    using that a by (simp add: fdoconv_def va_long_def)
  ultimately show ?thesis
    using put len assms(1) ds unfolding doprnt_def fdoprnt_def
    by (intro exI[of _ ds]) (simp add: one_spec prtl10_abs emit_plain)
qed

lemma dval_numeral: "dval (map (\<lambda>d. d + 48) ds) = nval 10 ds"
  by (simp add: dval_def nval_def foldl_map)

lemma atoi_printed:
  assumes "is_numeral 10 ds \<bar>n\<bar>" "- 2147483648 \<le> n" "n < 2147483648"
    "blk M p (length ((if n < 0 then [45] else []) @ map (\<lambda>d. d + 48) ds) + 1) =
      ((if n < 0 then [45] else []) @ map (\<lambda>d. d + 48) ds) @ [0]"
  shows "atoi M p = Some n"
proof -
  let ?sg = "if n < 0 then [45] else []" and ?cs = "map (\<lambda>d. d + 48) ds"
  have digits: "\<forall>c\<in>set ?cs. 48 \<le> c \<and> c \<le> 57" using assms(1) by (fastforce simp: is_numeral_def)
  have "blk M p (length ([] @ ?sg @ ?cs @ [0])) = [] @ ?sg @ ?cs @ [0]" using assms(4) by simp
  from atoi_value[OF this] have "atoi M p = Some (i32 (if ?sg = [45] then - dval ?cs else dval ?cs))"
    using digits assms(1) by (auto simp: is_numeral_def)
  also have "(if ?sg = [45] then - dval ?cs else dval ?cs) = n" using assms(1) by (simp add: dval_numeral is_numeral_def)
  finally show ?thesis using assms(2,3) by simp
qed
lemma sprntf_eq:
  "fst (sprntf cs s M) = s + int (length cs) \<and> blk (snd (sprntf cs s M)) s (length cs) = map u8 cs \<and>
   same_out s (int (length cs)) M (snd (sprntf cs s M))"
proof (induction cs arbitrary: s M)
  case (Cons c cs)
  let ?M = "snd (sprntf cs (s + 1) (M(s := u8 c)))"
  have ih: "fst (sprntf cs (s + 1) (M(s := u8 c))) = s + 1 + int (length cs)" "blk ?M (s + 1) (length cs) = map u8 cs"
      "same_out (s + 1) (int (length cs)) (M(s := u8 c)) ?M"
    using Cons[of "s + 1" "M(s := u8 c)"] by (auto simp del: fun_upd_apply)
  moreover have "?M s = u8 c" "same_out s (int (length (c # cs))) M ?M" using ih(3) by (auto simp: same_out_def)
  ultimately show ?case by simp
qed simp

lemma sprintf_store:
  assumes "fdoprnt fmt args buf = Some out" "\<forall>c\<in>set out. 0 \<le> c \<and> c < 256"
  shows "\<exists>M'. sprintf str fmt args buf M = Some (str, M') \<and> blk M' str (length out + 1) = out @ [0] \<and>
    same_out str (int (length out) + 1) M M'"
proof -
  let ?e = "str + int (length out)"
  have u: "map u8 out = out" using assms(2) by (simp add: map_idI)
  obtain M1 where M1: "sprntf out str M = (?e, M1)" "blk M1 str (length out) = out" "same_out str (int (length out)) M M1"
    using sprntf_eq[of out str M] u by (cases "sprntf out str M") auto
  have "blk (M1(?e := 0)) str (length out + 1) = blk (M1(?e := 0)) str (length out) @ [0]"
    by (simp only: blk_append) simp
  also have "blk (M1(?e := 0)) str (length out) = blk M1 str (length out)" by (rule blk_cong) auto
  finally have "blk (M1(?e := 0)) str (length out + 1) = out @ [0]" unfolding M1(2) .
  moreover have "same_out str (int (length out) + 1) M (M1(?e := 0))" using M1(3) by (auto simp: same_out_def)
  moreover have "sprintf str fmt args buf M = Some (str, M1(?e := 0))" using assms(1) M1(1) by (simp add: sprintf_def)
  ultimately show ?thesis by blast
qed

text \<open>C34: Printing and reading back: what \<^verbatim>\<open>_doprnt\<close> prints for \<^verbatim>\<open>%d\<close> is turned by \<^verbatim>\<open>atoi\<close> into the number
  again, for every \<^verbatim>\<open>int\<close>; and so is what \<^verbatim>\<open>sprintf\<close> stores, for every \<^verbatim>\<open>int\<close> but the least.\<close>

theorem print_read_decimal:
  assumes "length buf = 20" "- 2147483648 \<le> n" "n < 2147483648"
  shows "(\<exists>out. doprnt [37, 100] [Vlong n] buf = Some out \<and>
      (\<forall>M p. blk M p (length out + 1) = out @ [0] \<longrightarrow> atoi M p = Some n)) \<and>
    (n \<noteq> - 2147483648 \<longrightarrow>
      (\<exists>M'. sprintf str [37, 100] [Vlong n] buf M = Some (str, M') \<and> atoi M' str = Some n \<and> same_out str 12 M M'))"
proof -
  let ?out = "\<lambda>ds. (if n < 0 then [45] else []) @ map (\<lambda>d. d + 48) ds"
  obtain ds where ds: "is_numeral 10 ds \<bar>n\<bar>" "length ds \<le> 10" "doprnt [37, 100] [Vlong n] buf = Some (?out ds)"
      "n \<noteq> - 2147483648 \<Longrightarrow> fdoprnt [37, 100] [Vlong n] buf = Some (?out ds)"
    using percent_d[OF assms] by blast
  note read = atoi_printed[OF ds(1) assms(2,3)]
  have bytes: "\<forall>c\<in>set (?out ds). 0 \<le> c \<and> c < 256" using ds(1) by (fastforce simp: is_numeral_def)
  have "\<exists>M'. sprintf str [37, 100] [Vlong n] buf M = Some (str, M') \<and> atoi M' str = Some n \<and> same_out str 12 M M'"
    if ne: "n \<noteq> - 2147483648"
  proof -
    obtain M' where M': "sprintf str [37, 100] [Vlong n] buf M = Some (str, M')"
        "blk M' str (length (?out ds) + 1) = ?out ds @ [0]" "same_out str (int (length (?out ds)) + 1) M M'"
      using sprintf_store[OF ds(4)[OF ne] bytes] by blast
    moreover have "same_out str 12 M M'" using M'(3) ds(2) by (auto simp: same_out_def split: if_splits)
    ultimately show ?thesis using read[OF M'(2)] by blast
  qed
  then show ?thesis using ds(3) read by blast
qed

lemma fprtl10_least: "fprtl10 (- 2147483648) = [46, 47, 44, 41, 44, 40, 45, 42, 44, 40] @ [0]"
  by code_simp

text \<open>For the least \<^verbatim>\<open>int\<close> \<^verbatim>\<open>sprintf\<close> prints the characters \<^verbatim>\<open>-./,),(-*,(\<close>: \<^verbatim>\<open>-larg\<close> is still negative, so
  every remainder that should become a digit is negative too.\<close>

theorem sprintf_least_int:
  assumes "length buf = 20"
  shows "fdoprnt [37, 100] [Vlong (- 2147483648)] buf = Some [45, 46, 47, 44, 41, 44, 40, 45, 42, 44, 40]"
proof -
  have i: "i32 2147483648 = - 2147483648" by (simp add: i32_def)
  show ?thesis
    using conv_buf_put[of "[46, 47, 44, 41, 44, 40, 45, 42, 44, 40]" buf True 32 0 "[]"] assms
    by (simp add: fdoprnt_def one_spec fdoconv_def va_long_def i fprtl10_least emit_plain)
qed

text \<open>The array of 20 bytes is too small for binary: \<^verbatim>\<open>%b\<close> writes beyond its end exactly for the
  numbers with more than 19 binary digits, read as unsigned, and otherwise prints the numeral; all
  other numbers fit.\<close>

theorem binary_overflows_buffer:
  assumes "length buf = 20"
  shows "if u32 n < 2 ^ 19
    then \<exists>ds. doprnt [37, 98] [Vlong n] buf = Some (map (\<lambda>d. d + 48) ds) \<and> is_numeral 2 ds (u32 n)
    else doprnt [37, 98] [Vlong n] buf = None"
proof -
  obtain ds where ds: "prtl2 n = map (\<lambda>d. d + 48) ds @ [0]" "is_numeral 2 ds (u32 n)" using prt_numerals(3) by blast
  have conv: "doconv 98 32 0 buf [Vlong n] = conv_buf False 32 0 (put 0 (map (\<lambda>d. d + 48) ds @ [0]) buf) []"
    by (simp add: doconv_def conv_num_def va_long_def ds(1))
  have len: "length ds \<le> 19 \<longleftrightarrow> u32 n < 2 ^ 19" using is_numeral_length[OF ds(2), of 19] by simp
  show ?thesis
  proof (cases "u32 n < 2 ^ 19")
    case True
    then have "length (map (\<lambda>d. d + 48) ds) < length buf" using len assms by simp
    from conv_buf_put[OF digit_codes[OF ds(2)] this] show ?thesis
      using True ds(2) unfolding doprnt_def by (auto simp: one_spec conv emit_plain)
  next
    case False
    then have "put 0 (map (\<lambda>d. d + 48) ds @ [0]) buf = None" using len assms by (intro put_overflow) simp
    then show ?thesis using False by (simp add: doprnt_def one_spec conv conv_buf_def)
  qed
qed

section \<open>Unsigned numbers\<close>

lemma unsigned_loop_eq:
  assumes "- 2147483648 \<le> n" "n < 2147483648"
  shows "\<exists>m k. unsigned_loop n 0 = Some (m, k) \<and> m + k * 1000000000 = u32 n \<and> 0 \<le> m \<and> 0 \<le> k \<and> k \<le> 3 \<and>
    (k = 0 \<or> 1000000000 \<le> m) \<and> m < 2147483648"
proof (cases "n < 0")
  case False
  then show ?thesis using assms by (subst unsigned_loop.simps) (simp add: u32_int32)
next
  case True
  have wrap: "i32 x = x + 4294967296" if "x < - 2147483648" "- 6442450944 \<le> x" for x
    using i32_shift[of x 1] that by simp
  have u: "u32 n = n + 4294967296" using True assms by (simp add: u32_int32)
  have stop: "unsigned_loop m k = Some (m, k)" if "0 \<le> m" for m k using that by (subst unsigned_loop.simps) simp
  have go: "unsigned_loop m k = unsigned_loop (i32 (m - 1000000000)) (u8 (k + 1))" if "m < 0" for m k
    using that by (subst unsigned_loop.simps) simp
  consider "n < -1147483648" | "-1147483648 \<le> n" "n < -147483648" | "-147483648 \<le> n" by linarith
  then show ?thesis
  proof cases
    case 1
    then have "unsigned_loop n 0 = Some (n - 1000000000 + 4294967296, 1)"
      using True assms(1) by (simp add: go wrap stop u8_def)
    then show ?thesis using u 1 assms(1) by simp
  next
    case 2
    then have "unsigned_loop n 0 = Some (n - 2000000000 + 4294967296, 2)"
      by (simp add: go wrap stop u8_def)
    then show ?thesis using u 2 by simp
  next
    case 3
    then have "unsigned_loop n 0 = Some (n - 3000000000 + 4294967296, 3)"
      using True by (simp add: go wrap stop u8_def)
    then show ?thesis using u 3 True by simp
  qed
qed

text \<open>\<^verbatim>\<open>%u\<close> prints the decimal numeral of the 32-bit pattern read as unsigned: the loop that takes off
  thousand millions until the number is no longer negative, and the correction of the first digit
  afterwards, make up for the missing unsigned division.\<close>

theorem percent_u:
  assumes "length buf = 20" "- 2147483648 \<le> n" "n < 2147483648"
  shows "\<exists>ds. doprnt [37, 117] [Vlong n] buf = Some (map (\<lambda>d. d + 48) ds) \<and>
    fdoprnt [37, 117] [Vlong n] buf = Some (map (\<lambda>d. d + 48) ds) \<and> is_numeral 10 ds (u32 n)"
proof -
  obtain m k where mk: "unsigned_loop n 0 = Some (m, k)" "m + k * 1000000000 = u32 n" "0 \<le> m" "0 \<le> k" "k \<le> 3"
      "k = 0 \<or> 1000000000 \<le> m" "m < 2147483648"
    using unsigned_loop_eq[OF assms(2,3)] by blast
  have "m < 10000000000" using mk(7) by simp
  then obtain ds where ds: "fprtl10 m = map (\<lambda>d. d + 48) ds @ [0]" "is_numeral 10 ds m"
    using fprtl10_numeral[OF mk(3)] by blast
  have len: "length ds \<le> 10" using is_numeral_length[OF ds(2), of 10] mk(7) by simp
  obtain d es where de: "ds = d # es" using ds(2) by (cases ds) (auto simp: is_numeral_def)
  let ?ds = "(d + k) # es"
  have num: "is_numeral 10 ?ds (u32 n)"
  proof (cases "k = 0")
    case True
    then show ?thesis using ds(2) de mk(2) by simp
  next
    case False
    then have "\<not> length ds \<le> 9" using is_numeral_length[OF ds(2), of 9] mk(6) by simp
    then have es: "length es = 9" using len de by simp
    have r: "\<forall>d\<in>set es. 0 \<le> d \<and> d < 10" "0 \<le> d" using ds(2) de by (auto simp: is_numeral_def)
    have "m = d * 1000000000 + nval 10 es" using ds(2) de es by (simp add: is_numeral_def nval_Cons)
    moreover from this have "d \<le> 2" using nval_range[OF r(1)] mk(7) by simp
    ultimately show ?thesis using r False mk(2,4,5) es by (auto simp: is_numeral_def nval_Cons)
  qed
  have cs: "0 \<notin> set (map (\<lambda>d. d + 48) ?ds)" by (rule digit_codes[OF num])
  have d: "0 \<le> d + k" "d + k < 10" using num by (simp_all add: is_numeral_def)
  let ?buf = "(map (\<lambda>d. d + 48) ds @ [0]) @ drop (length ds + 1) buf"
  let ?buf' = "map (\<lambda>d. d + 48) ?ds @ 0 # drop (length ds + 1) buf"
  have put: "put 0 (map (\<lambda>d. d + 48) ds @ [0]) buf = Some ?buf" using len assms(1) by (simp add: put_def)
  have "?buf[0 := u8 (?buf ! 0 + k)] = ?buf'" using d by (simp add: de)
  moreover have "takeWhile (\<lambda>c. c \<noteq> 0) ?buf' = map (\<lambda>d. d + 48) ?ds"
    using cs by (subst takeWhile_append2) auto
  ultimately have conv: "conv_u prt 32 buf [Vlong n] = Some ([], map (\<lambda>d. d + 48) ?ds, False, 32, 0, ?buf', [])"
    if "prt m = fprtl10 m" for prt
    unfolding conv_u_def va_long_def using that ds(1) put mk(1) by (simp add: conv_buf_def cstring_def)
  have "prtl10 m = fprtl10 m" using mk(3) by (simp add: prtl10_abs)
  then have "doconv 117 32 0 buf [Vlong n] = Some ([], map (\<lambda>d. d + 48) ?ds, False, 32, 0, ?buf', [])"
    "fdoconv 117 32 0 buf [Vlong n] = Some ([], map (\<lambda>d. d + 48) ?ds, False, 32, 0, ?buf', [])"
    using conv[of prtl10] conv[of fprtl10] by (simp_all add: doconv_def fdoconv_def del: list.map)
  then have "doprnt [37, 117] [Vlong n] buf = Some (map (\<lambda>d. d + 48) ?ds)"
    "fdoprnt [37, 117] [Vlong n] buf = Some (map (\<lambda>d. d + 48) ?ds)"
    unfolding doprnt_def fdoprnt_def by (simp_all add: one_spec emit_plain del: list.map)
  then show ?thesis using num by blast
qed

section \<open>Field widths\<close>

text \<open>A field with a minimum width up to \<^verbatim>\<open>MAXSTR\<close> is as long as the width or the signed number, whichever
  is longer; the padding is in front of the sign and the number if it is blank, between them if it is
  \<^verbatim>\<open>0\<close>, and behind when the field is left-justified.\<close>

theorem field_width:
  assumes "1 \<le> fmin" "fmin \<le> 80"
  shows "let k = nat (fmin - int (length str) - (if sign then 1 else 0)); s = (if sign then [45] else []) in
    emit False 32 fmin 0 sign str = replicate k 32 @ s @ str \<and>
    emit False 48 fmin 0 sign str = s @ replicate k 48 @ str \<and>
    emit True 32 fmin 0 sign str = s @ str @ replicate k 32 \<and>
    int (length (replicate k 32 @ s @ str)) = max fmin (int (length (s @ str)))"
  using assms by (auto simp: emit_def clip_def Let_def)

end
