(* ===== verification/Shell_Lex.thy ===== *)
theory Shell_Lex
  imports Xinu_Prelude
begin

text \<open>
  The lexical analyser of the shell, \<^verbatim>\<open>shell/lexan.c\<close>. The rest of the line is a list of bytes, its
  end standing for the null byte; \<^verbatim>\<open>tokbuf\<close>, \<^verbatim>\<open>tok\<close> and \<^verbatim>\<open>toktyp\<close> are the lists of what has been
  stored in the arrays so far, so that \<^verbatim>\<open>tbindex\<close> and \<^verbatim>\<open>ntok\<close> are their lengths. The arrays are part
  of the result also when the analysis ends with \<^verbatim>\<open>SYSERR\<close>.
\<close>

definition SHELL_MAXTOK :: nat where [simp]: "SHELL_MAXTOK = 32"
definition TY_IBUFLEN :: nat where [simp]: "TY_IBUFLEN = 128"
definition SHELL_BUFLEN :: nat where [simp]: "SHELL_BUFLEN = TY_IBUFLEN + 1"
definition SHELL_ARGLEN :: nat where [simp]: "SHELL_ARGLEN = SHELL_BUFLEN + SHELL_MAXTOK"

definition SH_NEWLINE :: int where [simp]: "SH_NEWLINE = 10"
definition SH_AMPER :: int where [simp]: "SH_AMPER = 38"
definition SH_BLANK :: int where [simp]: "SH_BLANK = 32"
definition SH_TAB :: int where [simp]: "SH_TAB = 9"
definition SH_SQUOTE :: int where [simp]: "SH_SQUOTE = 39"
definition SH_DQUOTE :: int where [simp]: "SH_DQUOTE = 34"
definition SH_LESS :: int where [simp]: "SH_LESS = 60"
definition SH_GREATER :: int where [simp]: "SH_GREATER = 62"

definition SH_TOK_AMPER :: int where [simp]: "SH_TOK_AMPER = 0"
definition SH_TOK_LESS :: int where [simp]: "SH_TOK_LESS = 1"
definition SH_TOK_GREATER :: int where [simp]: "SH_TOK_GREATER = 2"
definition SH_TOK_OTHER :: int where [simp]: "SH_TOK_OTHER = 3"

section \<open>The code\<close>

definition deref :: "int list \<Rightarrow> int" where
  "deref p = (case p of [] \<Rightarrow> 0 | c # _ \<Rightarrow> c)"

primrec skip_blanks :: "int list \<Rightarrow> int list" where
  "skip_blanks [] = []"
| "skip_blanks (c # p) = (if c = SH_BLANK \<or> c = SH_TAB then skip_blanks p else c # p)"

text \<open>
  The rest of a quoted string: the characters copied, and the line behind the closing quote unless
  the line ends before.
\<close>

primrec quoted :: "int \<Rightarrow> int list \<Rightarrow> int list \<times> int list option" where
  "quoted quote [] = ([], None)"
| "quoted quote (c # p) =
    (if c = quote then ([], Some p)
     else if c = SH_NEWLINE \<or> c = 0 then ([], None)
     else case quoted quote p of (s, r) \<Rightarrow> (c # s, r))"

definition ends_token :: "int \<Rightarrow> bool" where
  "ends_token ch \<longleftrightarrow> ch = SH_NEWLINE \<or> ch = 0 \<or> ch = SH_LESS \<or> ch = SH_GREATER \<or> ch = SH_BLANK \<or>
    ch = SH_TAB \<or> ch = SH_AMPER \<or> ch = SH_SQUOTE \<or> ch = SH_DQUOTE"

primrec word_rest :: "int list \<Rightarrow> int list \<times> int list" where
  "word_rest [] = ([], [])"
| "word_rest (c # p) = (if ends_token c then ([], c # p) else case word_rest p of (w, r) \<Rightarrow> (c # w, r))"

lemma skip_blanks_shorter: "length (skip_blanks p) \<le> length p"
  by (induction p) auto

lemma quoted_shorter: "quoted q p = (s, Some r) \<Longrightarrow> length s + length r < length p"
  by (induction p arbitrary: s r) (auto split: if_splits prod.splits)

lemma quoted_short: "length (fst (quoted q p)) \<le> length p"
  by (induction p) (auto split: prod.splits)

lemma word_rest_shorter: "word_rest p = (w, r) \<Longrightarrow> length w + length r = length p"
  by (induction p arbitrary: w r) (auto split: if_splits prod.splits)

lemma word_rest_le: "length (snd (word_rest p)) \<le> length p"
  using word_rest_shorter[of p] by (cases "word_rest p") fastforce

lemma deref_nonempty: "deref p \<noteq> 0 \<Longrightarrow> p \<noteq> []"
  by (auto simp: deref_def)

text \<open>
  One token at \<open>p\<close>, which points to its first character: what is stored in \<^verbatim>\<open>tokbuf\<close>, the type of the
  token, and the rest of the line unless the token is in error (a quoted string that does not end, or
  a word with a quote or a redirection right behind it).
\<close>

definition token :: "int list \<Rightarrow> int list \<times> int \<times> int list option" where
  "token p =
    (let ch = deref p in
     if ch = SH_AMPER then ([ch, 0], SH_TOK_AMPER, Some (tl p))
     else if ch = SH_LESS then ([ch, 0], SH_TOK_LESS, Some (tl p))
     else if ch = SH_GREATER then ([ch, 0], SH_TOK_GREATER, Some (tl p))
     else if ch = SH_SQUOTE \<or> ch = SH_DQUOTE then
       (case quoted ch (tl p) of
          (s, None) \<Rightarrow> (s, SH_TOK_OTHER, None)
        | (s, Some p) \<Rightarrow> (s @ [0], SH_TOK_OTHER, Some p))
     else
       (case word_rest (tl p) of (w, p) \<Rightarrow>
          if deref p = SH_SQUOTE \<or> deref p = SH_DQUOTE \<or> deref p = SH_LESS \<or> deref p = SH_GREATER
          then (ch # w, SH_TOK_OTHER, None)
          else (ch # w @ [0], SH_TOK_OTHER, Some p)))"

lemma token_bounds:
  assumes "token p = (s, t, r)" "deref p \<noteq> 0"
  shows "case r of None \<Rightarrow> length s \<le> length p | Some q \<Rightarrow> length q < length p \<and> length s + length q \<le> length p + 1"
proof -
  obtain c p' where "p = c # p'" using deref_nonempty[OF assms(2)] by (cases p) auto
  then show ?thesis
    using assms quoted_shorter[of c p'] quoted_short[of c p'] word_rest_shorter[of p']
    by (auto simp: token_def Let_def deref_def split: if_splits prod.splits option.splits)
qed

text \<open>
  The loop over the tokens. The result says whether the line was accepted; the number of tokens
  returned is then the length of \<^verbatim>\<open>tok\<close>, and \<^verbatim>\<open>*tlen\<close> the length of \<^verbatim>\<open>tokbuf\<close>.
\<close>

function lexan_loop :: "int list \<Rightarrow> int list \<Rightarrow> int list \<Rightarrow> int list \<Rightarrow> bool \<times> int list \<times> int list \<times> int list" where
  "lexan_loop p tokbuf tok toktyp =
    (if deref p = 0 \<or> deref p = SH_NEWLINE then (True, tokbuf, tok, toktyp)
     else if length tok \<ge> SHELL_MAXTOK then (False, tokbuf, tok, toktyp)
     else
       let p = skip_blanks p in
       if deref p = SH_NEWLINE \<or> deref p = 0 then (True, tokbuf, tok, toktyp)
       else let tok = tok @ [int (length tokbuf)] in
         (case token p of
            (s, t, None) \<Rightarrow> (False, tokbuf @ s, tok, toktyp @ [t])
          | (s, t, Some p) \<Rightarrow> lexan_loop p (tokbuf @ s) tok (toktyp @ [t])))"
  by pat_completeness auto

termination
proof (relation "measure (\<lambda>(p, _, _, _). length p)", rule wf_measure, goal_cases)
  case (1 p tokbuf tok toktyp x xa s y t r q)
  then show ?case using token_bounds[of x s t r] skip_blanks_shorter[of p] by auto
qed

declare lexan_loop.simps [simp del]

text \<open>What \<^verbatim>\<open>lexan\<close> returns, with the final contents of the arrays.\<close>

definition lexan :: "int list \<Rightarrow> int \<times> int list \<times> int list \<times> int list" where
  "lexan line = (case lexan_loop line [] [] [] of (acc, tokbuf, tok, toktyp) \<Rightarrow>
     (if acc then int (length tok) else -1, tokbuf, tok, toktyp))"

section \<open>The arrays are large enough\<close>

text \<open>Every step stores at most as much as it consumes, and one null byte per token.\<close>

lemma lexan_loop_bounds:
  assumes "lexan_loop p tokbuf tok toktyp = (acc, tokbuf', tok', toktyp')"
    "length tokbuf + length p \<le> n + length tok" "length tok \<le> 32" "length toktyp = length tok"
  shows "length tokbuf' \<le> n + length tok' \<and> length tok' \<le> 32 \<and> length toktyp' = length tok'"
  using assms
proof (induction p tokbuf tok toktyp rule: lexan_loop.induct)
  case (1 p tokbuf tok toktyp)
  note prems = "1.prems"
  let ?p = "skip_blanks p" and ?tok = "tok @ [int (length tokbuf)]"
  note sk = skip_blanks_shorter[of p]
  show ?case
  proof (cases "deref p = 0 \<or> deref p = SH_NEWLINE \<or> length tok \<ge> SHELL_MAXTOK \<or> deref ?p = SH_NEWLINE \<or> deref ?p = 0")
    case True
    then show ?thesis using prems by (subst (asm) lexan_loop.simps) (auto simp: Let_def split: if_splits)
  next
    case False
    then have go: "\<not> (deref p = 0 \<or> deref p = SH_NEWLINE)" "\<not> length tok \<ge> SHELL_MAXTOK" "\<not> (deref ?p = SH_NEWLINE \<or> deref ?p = 0)"
      by simp_all
    obtain s t r where tk: "token ?p = (s, t, r)" by (cases "token ?p")
    have b: "case r of None \<Rightarrow> length s \<le> length ?p | Some q \<Rightarrow> length q < length ?p \<and> length s + length q \<le> length ?p + 1"
      using token_bounds[OF tk] go(3) by simp
    show ?thesis
    proof (cases r)
      case None
      then show ?thesis using prems go tk b sk by (subst (asm) lexan_loop.simps) (auto simp: Let_def)
    next
      case (Some q)
      then have "lexan_loop q (tokbuf @ s) ?tok (toktyp @ [t]) = (acc, tokbuf', tok', toktyp')"
        using prems(1) go tk by (subst (asm) lexan_loop.simps) (auto simp: Let_def)
      then show ?thesis
        using "1.IH"[OF go(1,2) refl go(3) refl tk[symmetric] refl Some] prems(2-4) go(2) b Some sk by simp
    qed
  qed
qed

text \<open>A line of at most \<^verbatim>\<open>SHELL_BUFLEN\<close> characters never makes \<^verbatim>\<open>lexan\<close> write beyond the shell's arrays:
  at most \<^verbatim>\<open>SHELL_MAXTOK\<close> tokens, each with a type, and at most \<^verbatim>\<open>SHELL_ARGLEN\<close> bytes of token text, also
  when it ends with an error.\<close>

theorem lexan_in_bounds:
  assumes "length line \<le> SHELL_BUFLEN" "lexan line = (n, tokbuf, tok, toktyp)"
  shows "length tokbuf \<le> SHELL_ARGLEN \<and> length tok \<le> SHELL_MAXTOK \<and> length toktyp = length tok \<and>
    (n = -1 \<or> n = int (length tok))"
proof -
  obtain acc where a: "lexan_loop line [] [] [] = (acc, tokbuf, tok, toktyp)" "n = (if acc then int (length tok) else -1)"
    using assms(2) by (cases "lexan_loop line [] [] []") (auto simp: lexan_def)
  show ?thesis using lexan_loop_bounds[OF a(1), of "length line"] assms(1) a(2) by auto
qed

section \<open>Words come back\<close>

definition plain :: "int list \<Rightarrow> bool" where
  "plain w \<longleftrightarrow> w \<noteq> [] \<and> (\<forall>c\<in>set w. \<not> ends_token c)"

text \<open>A line of words, each behind at least one blank or tab but for the first.\<close>

primrec spaced :: "(int list \<times> int list) list \<Rightarrow> int list" where
  "spaced [] = []"
| "spaced (bw # ws) = fst bw @ snd bw @ spaced ws"

primrec offsets :: "nat \<Rightarrow> int list list \<Rightarrow> int list" where
  "offsets k [] = []"
| "offsets k (w # ws) = int k # offsets (k + length w + 1) ws"

lemma skip_blanks_eq: "\<forall>c\<in>set bs. c = 32 \<or> c = 9 \<Longrightarrow> skip_blanks (bs @ p) = skip_blanks p"
  by (induction bs) auto

lemma word_rest_eq: "\<forall>c\<in>set w. \<not> ends_token c \<Longrightarrow> (p = [] \<or> ends_token (hd p)) \<Longrightarrow> word_rest (w @ p) = (w, p)"
  by (induction w) (cases p, auto)

lemma lexan_loop_words:
  assumes "\<forall>(bs, w)\<in>set ws. plain w \<and> (\<forall>c\<in>set bs. c = 32 \<or> c = 9)" "\<forall>(bs, w)\<in>set (tl ws). bs \<noteq> []"
    "length tok + length ws \<le> 32"
  shows "lexan_loop (spaced ws) tokbuf tok toktyp =
    (True, tokbuf @ concat (map (\<lambda>(_, w). w @ [0]) ws), tok @ offsets (length tokbuf) (map snd ws),
     toktyp @ replicate (length ws) SH_TOK_OTHER)"
  using assms
proof (induction ws arbitrary: tokbuf tok toktyp)
  case Nil
  then show ?case by (subst lexan_loop.simps) (simp add: deref_def)
next
  case (Cons bw ws)
  obtain bs w where bw: "bw = (bs, w)" by (cases bw)
  have w: "plain w" and bs: "\<forall>c\<in>set bs. c = 32 \<or> c = 9" using Cons.prems(1) bw by auto
  obtain c w' where cw: "w = c # w'" using w by (cases w) (auto simp: plain_def)
  have c: "\<not> ends_token c" "\<forall>c\<in>set w'. \<not> ends_token c" using w cw by (auto simp: plain_def)
  have rest: "spaced ws = [] \<or> hd (spaced ws) = 32 \<or> hd (spaced ws) = 9"
    using Cons.prems(1,2) by (cases ws) (auto simp: neq_Nil_conv)
  have tl: "\<forall>(bs, w)\<in>set (tl ws). bs \<noteq> []" using Cons.prems(2) by (cases ws) auto
  have start: "skip_blanks (spaced (bw # ws)) = c # w' @ spaced ws"
    using c(1) skip_blanks_eq[OF bs, of "c # w' @ spaced ws"] by (simp add: bw cw ends_token_def)
  have "deref (spaced (bw # ws)) \<noteq> 0 \<and> deref (spaced (bw # ws)) \<noteq> 10"
    using bs c(1) by (cases bs) (auto simp: bw cw deref_def ends_token_def)
  moreover have "word_rest (w' @ spaced ws) = (w', spaced ws)"
    using word_rest_eq[OF c(2), of "spaced ws"] rest by (auto simp: ends_token_def)
  then have "token (c # w' @ spaced ws) = (w @ [0], SH_TOK_OTHER, Some (spaced ws))"
    using c(1) rest by (cases "spaced ws") (auto simp: token_def Let_def deref_def ends_token_def cw)
  moreover have "deref (c # w' @ spaced ws) \<noteq> 10 \<and> deref (c # w' @ spaced ws) \<noteq> 0"
    using c(1) by (auto simp: deref_def ends_token_def)
  ultimately have "lexan_loop (spaced (bw # ws)) tokbuf tok toktyp =
      lexan_loop (spaced ws) (tokbuf @ w @ [0]) (tok @ [int (length tokbuf)]) (toktyp @ [SH_TOK_OTHER])"
    using Cons.prems(3) by (subst lexan_loop.simps) (simp add: start Let_def del: spaced.simps)
  also have "\<dots> = (True, (tokbuf @ w @ [0]) @ concat (map (\<lambda>(_, w). w @ [0]) ws),
      (tok @ [int (length tokbuf)]) @ offsets (length (tokbuf @ w @ [0])) (map snd ws),
      (toktyp @ [SH_TOK_OTHER]) @ replicate (length ws) SH_TOK_OTHER)"
    by (rule Cons.IH) (use Cons.prems tl in auto)
  finally show ?case by (simp add: bw replicate_app_Cons_same)
qed

text \<open>C35: A line of up to \<^verbatim>\<open>SHELL_MAXTOK\<close> words without special characters, separated by blanks and tabs, is
  taken apart into exactly these words: the token text holds them in order, each ended by a null
  byte, and \<^verbatim>\<open>tok\<close> has their offsets.\<close>

theorem lexan_words:
  assumes "\<forall>(bs, w)\<in>set ws. plain w \<and> (\<forall>c\<in>set bs. c = 32 \<or> c = 9)" "\<forall>(bs, w)\<in>set (tl ws). bs \<noteq> []"
    "length ws \<le> SHELL_MAXTOK"
  shows "lexan (spaced ws) = (int (length ws), concat (map (\<lambda>(_, w). w @ [0]) ws), offsets 0 (map snd ws),
    replicate (length ws) SH_TOK_OTHER)"
proof -
  have "length (offsets k xs) = length xs" for k xs by (induction xs arbitrary: k) auto
  then show ?thesis using lexan_loop_words[OF assms(1,2), of "[]" "[]" "[]"] assms(3) by (simp add: lexan_def)
qed

end
