(* ===== verification/Dot2ip.thy ===== *)
theory Dot2ip
  imports Cstring
begin

text \<open>
  Internet addresses in dotted decimal notation, \<^verbatim>\<open>net/dot2ip.c\<close>. The value is the number that is stored
  through \<^verbatim>\<open>result\<close> when the code returns \<^verbatim>\<open>OK\<close>, and \<open>None\<close> when it returns \<^verbatim>\<open>SYSERR\<close>.
\<close>

unbundle bit_operations_syntax

section \<open>The code\<close>

text \<open>The inner loop: at most \<open>k\<close> more characters of a segment, of which \<open>nch\<close> have been read.\<close>

primrec dot_chars :: "nat \<Rightarrow> int \<Rightarrow> int \<Rightarrow> store \<Rightarrow> int \<Rightarrow> (int \<times> int \<times> int) option" where
  "dot_chars 0 nch val M p = Some (val, M (p - 1), p)"
| "dot_chars (Suc k) nch val M p =
    (let ch = M p; p = p + 1 in
     if ch = 0 \<or> ch = 46 then (if nch = 0 then None else Some (val, ch, p))
     else if nch \<ge> 3 \<or> ch < 48 \<or> ch > 57 then None
     else dot_chars k (nch + 1) (10 * val + (ch - 48)) M p)"

primrec dot_segs :: "nat \<Rightarrow> int \<Rightarrow> store \<Rightarrow> int \<Rightarrow> int option" where
  "dot_segs 0 ipaddr M p = None"
| "dot_segs (Suc k) ipaddr M p =
    (case dot_chars 4 0 0 M p of
       None \<Rightarrow> None
     | Some (val, ch, p) \<Rightarrow>
       if val > 255 then None
       else let ipaddr = u32 (push_bit 8 ipaddr) OR val in
         if ch = 0 then Some ipaddr else dot_segs k ipaddr M p)"

definition dot2ip :: "store \<Rightarrow> int \<Rightarrow> int option" where
  "dot2ip M dotted = dot_segs 4 0 M dotted"

section \<open>Specification\<close>

definition is_segment :: "int list \<Rightarrow> bool" where
  "is_segment ds \<longleftrightarrow> 1 \<le> length ds \<and> length ds \<le> 3 \<and> (\<forall>d\<in>set ds. 48 \<le> d \<and> d \<le> 57) \<and> dval ds \<le> 255"

fun with_dots :: "int list list \<Rightarrow> int list" where
  "with_dots [] = []"
| "with_dots [ds] = ds"
| "with_dots (ds # segs) = ds @ 46 # with_dots segs"

definition address :: "int list list \<Rightarrow> int" where
  "address segs = foldl (\<lambda>a ds. 256 * a + dval ds) 0 segs"

section \<open>Properties\<close>

definition digits_at :: "store \<Rightarrow> int \<Rightarrow> int list \<Rightarrow> bool" where
  "digits_at M p ds \<longleftrightarrow> blk M p (length ds) = ds \<and> (\<forall>d\<in>set ds. 48 \<le> d \<and> d \<le> 57)"

lemma digits_at_Cons: "digits_at M p (d # ds) \<longleftrightarrow> M p = d \<and> 48 \<le> d \<and> d \<le> 57 \<and> digits_at M (p + 1) ds"
  by (auto simp: digits_at_def)

lemma digits_at_Nil [simp]: "digits_at M p []"
  by (simp add: digits_at_def)

lemma ex_list: "(\<exists>xs. P xs) \<longleftrightarrow> P [] \<or> (\<exists>x xs. P (x # xs))"
  by (metis neq_Nil_conv)

lemma dot_chars_iff:
  assumes "int k + nch = 4" "0 \<le> nch" "nch \<le> 3"
  shows "dot_chars k nch val M p = Some (v, ch, p') \<longleftrightarrow>
    (\<exists>ds. digits_at M p ds \<and> 1 \<le> nch + int (length ds) \<and> nch + int (length ds) \<le> 3 \<and> ch = M (p + int (length ds)) \<and>
       (ch = 0 \<or> ch = 46) \<and> p' = p + int (length ds) + 1 \<and> v = foldl (\<lambda>a d. a * 10 + (d - 48)) val ds)"
  using assms
proof (induction k arbitrary: nch val p)
  case (Suc k)
  let ?R = "\<lambda>nch val p ds. digits_at M p ds \<and> 1 \<le> nch + int (length ds) \<and> nch + int (length ds) \<le> 3 \<and> ch = M (p + int (length ds)) \<and>
       (ch = 0 \<or> ch = 46) \<and> p' = p + int (length ds) + 1 \<and> v = foldl (\<lambda>a d. a * 10 + (d - 48)) val ds"
  have split: "(\<exists>ds. ?R nch val p ds) \<longleftrightarrow> ?R nch val p [] \<or> (\<exists>d ds. ?R nch val p (d # ds))" by (rule ex_list)
  consider (stop) "M p = 0 \<or> M p = 46" | (bad) "M p \<noteq> 0" "M p \<noteq> 46" "nch \<ge> 3 \<or> M p < 48 \<or> M p > 57"
    | (digit) "nch < 3" "48 \<le> M p" "M p \<le> 57" by linarith
  then show ?case
  proof cases
    case stop
    then have "\<not> ?R nch val p (d # ds)" for d ds by (auto simp: digits_at_Cons)
    then show ?thesis using stop Suc.prems unfolding split by (auto simp: Let_def)
  next
    case bad
    then have "\<not> ?R nch val p (d # ds)" for d ds by (auto simp: digits_at_Cons)
    then show ?thesis using bad Suc.prems unfolding split by (auto simp: Let_def)
  next
    case digit
    have "?R nch val p (d # ds) \<longleftrightarrow> d = M p \<and> ?R (nch + 1) (10 * val + (M p - 48)) (p + 1) ds" for d ds
      using digit by (auto simp: digits_at_Cons algebra_simps)
    then have "(\<exists>ds. ?R nch val p ds) \<longleftrightarrow> (\<exists>ds. ?R (nch + 1) (10 * val + (M p - 48)) (p + 1) ds)"
      unfolding split using digit by auto
    moreover have "dot_chars (Suc k) nch val M p = dot_chars k (nch + 1) (10 * val + (M p - 48)) M (p + 1)"
      using digit by (simp add: Let_def)
    moreover have "int k + (nch + 1) = 4" "0 \<le> nch + 1" "nch + 1 \<le> 3" using Suc.prems digit by simp_all
    ultimately show ?thesis using Suc.IH[of "nch + 1" "10 * val + (M p - 48)" "p + 1"] by simp
  qed
qed simp

lemma dot_seg_iff:
  "dot_chars 4 0 0 M p = Some (v, ch, p') \<longleftrightarrow>
    (\<exists>ds. digits_at M p ds \<and> 1 \<le> length ds \<and> length ds \<le> 3 \<and> ch = M (p + int (length ds)) \<and>
       (ch = 0 \<or> ch = 46) \<and> p' = p + int (length ds) + 1 \<and> v = dval ds)"
proof -
  have "(1 \<le> 0 + int (length ds)) = (1 \<le> length ds)" "(0 + int (length ds) \<le> 3) = (length ds \<le> 3)" for ds :: "int list" by auto
  then show ?thesis using dot_chars_iff[of 4 0 0 M p v ch p'] by (simp only: dval_def)
qed

lemma cstr_digits: "digits_at M p ds \<Longrightarrow> cstr M p (ds @ xs) = cstr M (p + int (length ds)) xs"
  by (induction ds arbitrary: p) (auto simp: digits_at_Cons algebra_simps)

lemma cstr_digitsD: "cstr M p (ds @ xs) \<Longrightarrow> \<forall>d\<in>set ds. 48 \<le> d \<and> d \<le> 57 \<Longrightarrow> digits_at M p ds"
  by (induction ds arbitrary: p) (auto simp: digits_at_Cons)

text \<open>The digits up to the next character that is none are determined.\<close>

lemma digits_at_unique:
  assumes "digits_at M p ds" "digits_at M p ds'" "M (p + int (length ds)) \<notin> {48..57}" "M (p + int (length ds')) \<notin> {48..57}"
  shows "ds = ds'"
  using assms
proof (induction ds arbitrary: p ds')
  case Nil
  then show ?case by (cases ds') (auto simp: digits_at_Cons)
next
  case (Cons d ds)
  then show ?case by (cases ds') (auto simp: digits_at_Cons algebra_simps)
qed

lemma dval_nonneg: "\<forall>d\<in>set ds. 48 \<le> d \<Longrightarrow> 0 \<le> dval ds"
proof -
  have "0 \<le> a \<Longrightarrow> \<forall>d\<in>set ds. 48 \<le> d \<Longrightarrow> 0 \<le> foldl (\<lambda>a d. a * 10 + (d - 48)) a ds" for a
    by (induction ds arbitrary: a) auto
  then show "\<forall>d\<in>set ds. 48 \<le> d \<Longrightarrow> 0 \<le> dval ds" by (simp add: dval_def)
qed

lemma shift_or:
  assumes "0 \<le> a" "a < 16777216" "0 \<le> v" "v \<le> (255::int)"
  shows "u32 (push_bit 8 a) OR v = 256 * a + v"
proof -
  have "take_bit 8 v = v" using assms by (simp add: take_bit_int_eq_self)
  then have "\<not> bit v i" if "8 \<le> i" for i using that by (metis bit_take_bit_iff not_le)
  then have "push_bit 8 a + v = push_bit 8 a OR v" by (intro disjunctive_add) (auto simp: bit_push_bit_iff)
  then show ?thesis using assms by (simp add: push_bit_eq_mult)
qed

lemma with_dots_Cons: "segs \<noteq> [] \<Longrightarrow> with_dots (ds # segs) = ds @ 46 # with_dots segs"
  by (cases segs) auto

lemma dot_segs_iff:
  assumes "k \<le> 4" "0 \<le> a" "a < 256 ^ (4 - k)"
  shows "dot_segs k a M p = Some ip \<longleftrightarrow>
    (\<exists>segs. segs \<noteq> [] \<and> length segs \<le> k \<and> (\<forall>ds\<in>set segs. is_segment ds) \<and> cstr M p (with_dots segs) \<and>
       ip = foldl (\<lambda>a ds. 256 * a + dval ds) a segs)"
  using assms
proof (induction k arbitrary: a p)
  case (Suc k)
  have "(256::int) ^ (4 - Suc k) \<le> 256 ^ 3" using Suc.prems(1) by (intro power_increasing) auto
  then have a3: "a < 16777216" using Suc.prems(3) by simp
  have a': "0 \<le> 256 * a + v" "256 * a + v < 256 ^ (4 - k)" "u32 (push_bit 8 a) OR v = 256 * a + v" if "0 \<le> v" "v \<le> 255" for v
  proof -
    have "(256::int) ^ (4 - k) = 256 * 256 ^ (4 - Suc k)" using Suc.prems(1) by (simp add: Suc_diff_Suc flip: power_Suc)
    then show "0 \<le> 256 * a + v" "256 * a + v < 256 ^ (4 - k)" using Suc.prems(2,3) that by auto
    show "u32 (push_bit 8 a) OR v = 256 * a + v" using shift_or[OF Suc.prems(2) a3 that] .
  qed
  have "k \<le> 4" using Suc.prems(1) by simp
  note IH = Suc.IH[OF this a'(1,2)]
  show ?case (is "?L \<longleftrightarrow> (\<exists>segs. ?P k a p segs)")
  proof
    assume ?L
    then obtain v ch p' where dc: "dot_chars 4 0 0 M p = Some (v, ch, p')" and v: "v \<le> 255"
      and r: "(if ch = 0 then Some (u32 (push_bit 8 a) OR v) else dot_segs k (u32 (push_bit 8 a) OR v) M p') = Some ip"
      by (auto simp: Let_def split: option.splits prod.splits if_splits)
    obtain ds where ds: "digits_at M p ds" "1 \<le> length ds" "length ds \<le> 3" "ch = M (p + int (length ds))" "ch = 0 \<or> ch = 46"
      "p' = p + int (length ds) + 1" "v = dval ds" using dc[unfolded dot_seg_iff] by blast
    have dig: "\<forall>d\<in>set ds. 48 \<le> d \<and> d \<le> 57" using ds(1) by (simp add: digits_at_def)
    have seg: "is_segment ds" using ds v dig by (simp add: is_segment_def)
    have v0: "0 \<le> v" using dval_nonneg[of ds] dig ds(7) by simp
    show "\<exists>segs. ?P k a p segs"
    proof (cases "ch = 0")
      case True
      then show ?thesis using r seg ds a'(3)[OF v0 v] cstr_digits[OF ds(1), of "[]"] by (intro exI[of _ "[ds]"]) simp
    next
      case False
      then have "dot_segs k (256 * a + v) M p' = Some ip" using r a'(3)[OF v0 v] by simp
      then obtain segs where sg: "segs \<noteq> []" "length segs \<le> k" "\<forall>ds\<in>set segs. is_segment ds" "cstr M p' (with_dots segs)"
        "ip = foldl (\<lambda>a ds. 256 * a + dval ds) (256 * a + v) segs"
        using IH[OF v0 v v0 v, of p'] Suc.prems(1) by auto
      have "cstr M p (with_dots (ds # segs))"
        using sg(1,4) False ds cstr_digits[OF ds(1), of "46 # with_dots segs"] by (simp add: with_dots_Cons)
      then show ?thesis using sg seg ds(7) by (intro exI[of _ "ds # segs"]) simp
    qed
  next
    assume "\<exists>segs. ?P k a p segs"
    then obtain ds segs where sg: "?P k a p (ds # segs)" by (metis neq_Nil_conv)
    then have seg: "is_segment ds" by simp
    then have dig: "\<forall>d\<in>set ds. 48 \<le> d \<and> d \<le> 57" and v: "dval ds \<le> 255" by (simp_all add: is_segment_def)
    have v0: "0 \<le> dval ds" using dval_nonneg[of ds] dig by simp
    define xs where "xs = (if segs = [] then [] else 46 # with_dots segs)"
    have wd: "with_dots (ds # segs) = ds @ xs" by (cases segs) (simp_all add: xs_def)
    have da: "digits_at M p ds" using sg dig unfolding wd by (intro cstr_digitsD[of M p ds xs]) auto
    have rest: "cstr M (p + int (length ds)) xs" using sg cstr_digits[OF da, of xs] unfolding wd by simp
    let ?ch = "M (p + int (length ds))"
    have ch: "?ch = (if segs = [] then 0 else 46)" using rest by (simp add: xs_def split: if_splits)
    have dc: "dot_chars 4 0 0 M p = Some (dval ds, ?ch, p + int (length ds) + 1)"
      unfolding dot_seg_iff using da seg ch by (intro exI[of _ ds]) (simp add: is_segment_def)
    show ?L
    proof (cases "segs = []")
      case True
      then show ?thesis using dc ch v sg a'(3)[OF v0 v] by (simp add: Let_def)
    next
      case False
      have "cstr M (p + int (length ds) + 1) (with_dots segs)" using rest False by (simp add: xs_def)
      then have "dot_segs k (256 * a + dval ds) M (p + int (length ds) + 1) = Some ip"
        using IH[OF v0 v v0 v, of "p + int (length ds) + 1"] Suc.prems(1) sg False by auto
      then show ?thesis using dc ch v a'(3)[OF v0 v] False by (simp add: Let_def)
    qed
  qed
qed simp

text \<open>
  \<^verbatim>\<open>dot2ip\<close> accepts exactly the strings of one to four numbers up to 255, of at most three digits each,
  with dots between them, and its value is the number they stand for. The comment in the code asks for
  four numbers, but fewer are accepted.
\<close>

theorem dot2ip_correct:
  "dot2ip M p = Some ip \<longleftrightarrow>
    (\<exists>segs. segs \<noteq> [] \<and> length segs \<le> 4 \<and> (\<forall>ds\<in>set segs. is_segment ds) \<and> cstr M p (with_dots segs) \<and> ip = address segs)"
  using dot_segs_iff[of 4 0 M p ip] by (simp add: dot2ip_def address_def)

end
