(* ===== verification/Lib_Examples.thy ===== *)
theory Lib_Examples
  imports Doprnt_Correct Shell_Lex Dot2ip
begin

text \<open>Concrete inputs for the properties of the C library and of the shell's lexical analyser.\<close>

section \<open>Strings\<close>

text \<open>A store with the strings \<^verbatim>\<open>"ab"\<close> at 100 and \<^verbatim>\<open>"ac"\<close> at 200.\<close>

definition abac :: store where
  "abac = (\<lambda>_. 0)(100 := 97, 101 := 98, 200 := 97, 201 := 99)"

lemma abac: "cstr abac 100 [97, 98]" "cstr abac 200 [97, 99]"
  by (simp_all add: abac_def)

theorem strcmp_lexicographic_witness:
  "strcmp abac 100 200 = Some (-1) \<and> strcmp abac 100 100 = Some 0 \<and> sgn (strncmp abac 200 100 (int 2)) = 1"
  using strcmp_lexicographic[OF abac, of 2] strcmp_lexicographic[OF abac(1,1), of 2] strcmp_lexicographic[OF abac(2,1), of 2]
  by simp

theorem strcpy_strncpy_exact_witness:
  "(\<exists>M'. strcpy 300 100 abac = Some (0, M') \<and> cstr M' 300 [97, 98] \<and> same_out 300 3 abac M') \<and>
   (case strncpy 300 100 (int 4) abac of (r, M') \<Rightarrow> r = 300 \<and> blk M' 300 4 = [97, 98, 0, 0] \<and> same_out 300 4 abac M')"
  using strcpy_strncpy_exact[OF abac(1), of 300 4] by (simp add: numeral_eq_Suc)

theorem memory_blocks_witness:
  "(case memcpy 300 100 (int 2) abac of (r, M') \<Rightarrow> blk M' 300 2 = [97, 98] \<and> memcmp M' 300 100 (int 2) = 0) \<and>
   sgn (memcmp abac 100 200 (int 2)) = -1"
proof -
  have b: "blk abac 100 2 = [97, 98]" "blk abac 200 2 = [97, 99]" by (simp_all add: abac_def numeral_2_eq_2)
  show ?thesis using memory_blocks[of 300 100 2 abac 0] memory_blocks[of 100 200 2 abac 0] b by auto
qed

text \<open>The string \<^verbatim>\<open>" -12"\<close>.\<close>

theorem atoi_value_witness:
  "atoi ((\<lambda>_. 0)(100 := 32, 101 := 45, 102 := 49, 103 := 50)) 100 = Some (-12)"
  using atoi_value[of "(\<lambda>_. 0)(100 := 32, 101 := 45, 102 := 49, 103 := 50)" 100 "[32]" "[45]" "[49, 50]" 0]
  by (simp add: dval_def)

section \<open>Formatted output\<close>

theorem numerals_printed_witness:
  "(\<exists>ds. prtl10 (- 2147483648) = map (\<lambda>d. d + 48) ds @ [0] \<and> is_numeral 10 ds 2147483648) \<and>
   (\<exists>ds. prtl16 (- 2147483648) = map (\<lambda>d. hexdigits ! nat d) ds @ [0] \<and> is_numeral 16 ds 2147483648)"
  using numerals_printed[of "- 2147483648"] by (simp add: u32_def)

theorem print_read_decimal_witness:
  "\<exists>out. doprnt [37, 100] [Vlong (- 42)] (replicate 20 0) = Some out \<and>
     (\<forall>M p. blk M p (length out + 1) = out @ [0] \<longrightarrow> atoi M p = Some (- 42))"
  using print_read_decimal[of "replicate 20 0" "- 42"] by simp

theorem sprintf_least_int_witness:
  "fdoprnt [37, 100] [Vlong (- 2147483648)] (replicate 20 0) = Some [45, 46, 47, 44, 41, 44, 40, 45, 42, 44, 40]"
  by (rule sprintf_least_int) simp

theorem binary_overflows_buffer_witness:
  "(\<exists>ds. doprnt [37, 98] [Vlong 5] (replicate 20 0) = Some (map (\<lambda>d. d + 48) ds) \<and> is_numeral 2 ds 5) \<and>
   doprnt [37, 98] [Vlong 524288] (replicate 20 0) = None"
  using binary_overflows_buffer[of "replicate 20 0" 5] binary_overflows_buffer[of "replicate 20 0" 524288] by simp

section \<open>The lexical analyser\<close>

text \<open>The line \<^verbatim>\<open>"a <b"\<close> with its newline.\<close>

theorem lexan_in_bounds_witness:
  "case lexan [97, 32, 60, 98, 10] of (n, tokbuf, tok, toktyp) \<Rightarrow>
     length tokbuf \<le> SHELL_ARGLEN \<and> length tok \<le> SHELL_MAXTOK \<and> length toktyp = length tok"
proof -
  obtain n tokbuf tok toktyp where l: "lexan [97, 32, 60, 98, 10] = (n, tokbuf, tok, toktyp)" by (metis prod_cases4)
  show ?thesis using lexan_in_bounds[OF _ l] by (simp add: l)
qed

text \<open>The line \<^verbatim>\<open>"a  bc"\<close>.\<close>

theorem lexan_words_witness:
  "lexan [97, 32, 9, 98, 99] = (2, [97, 0, 98, 99, 0], [0, 2], [3, 3])"
  using lexan_words[of "[([], [97]), ([32, 9], [98, 99])]"] by (simp add: plain_def ends_token_def numeral_2_eq_2)

section \<open>Internet addresses\<close>

text \<open>The string \<^verbatim>\<open>"1.20"\<close>.\<close>

theorem dot2ip_correct_witness:
  "dot2ip ((\<lambda>_. 0)(100 := 49, 101 := 46, 102 := 50, 103 := 48)) 100 = Some 276"
  using dot2ip_correct[of "(\<lambda>_. 0)(100 := 49, 101 := 46, 102 := 50, 103 := 48)" 100 276]
  by (rule iffD2) (rule exI[of _ "[[49], [50, 48]]"], simp add: is_segment_def address_def dval_def)

end
