(* ===== verification/Lfs_State.thy ===== *)
theory Lfs_State
  imports Bytes Device_State Cstring "HOL-Library.Monad_Syntax"
begin

text \<open>
  The data of the local file system, \<^verbatim>\<open>include/lfilesys.h\<close>, and the disk below it, the RAM disk of
  \<^verbatim>\<open>device/ram\<close>, which \<^verbatim>\<open>LF_DISK_DEV\<close> of \<^verbatim>\<open>include/conf.h\<close> names. The disk is an array of bytes; the
  code copies structures to it and from it byte by byte, so here are also the bytes of each structure
  (little-endian words).
\<close>

section \<open>The RAM disk\<close>

definition RM_BLKSIZ :: int where [simp]: "RM_BLKSIZ = 512"
definition RM_BLKS :: int where [simp]: "RM_BLKS = 200"

definition putb :: "int \<Rightarrow> int list \<Rightarrow> store \<Rightarrow> store" where
  "putb p bs M = (\<lambda>a. if p \<le> a \<and> a < p + int (length bs) then bs ! nat (a - p) else M a)"

text \<open>Blocks that are not on the disk would be outside the array.\<close>

definition ramread :: "int \<Rightarrow> store \<Rightarrow> int list option" where
  "ramread b M = (if 0 \<le> b \<and> b < RM_BLKS then Some (blk M (RM_BLKSIZ * b) (nat RM_BLKSIZ)) else None)"

definition ramwrite :: "int \<Rightarrow> int list \<Rightarrow> store \<Rightarrow> store option" where
  "ramwrite b bs M = (if 0 \<le> b \<and> b < RM_BLKS then Some (putb (RM_BLKSIZ * b) bs M) else None)"

definition raminit :: "store \<Rightarrow> store" where
  "raminit M = snd (memcpy 8 0 (RM_BLKSIZ * RM_BLKS - 8) (putb 0 [104, 111, 112, 101, 108, 101, 115, 115] M))"

section \<open>Constants\<close>

definition Nlfl :: int where [simp]: "Nlfl = 6"
definition LF_MODE_R :: int where [simp]: "LF_MODE_R = 1"
definition LF_MODE_W :: int where [simp]: "LF_MODE_W = 2"
definition LF_MODE_RW :: int where [simp]: "LF_MODE_RW = 3"
definition LF_MODE_N :: int where [simp]: "LF_MODE_N = 4"
definition LF_MODE_O :: int where [simp]: "LF_MODE_O = 8"
definition LF_CTL_TRUNC :: int where [simp]: "LF_CTL_TRUNC = 2"
definition LF_BLKSIZ :: int where [simp]: "LF_BLKSIZ = 512"
definition LF_NAME_LEN :: int where [simp]: "LF_NAME_LEN = 16"
definition LF_NUM_DIR_ENT :: int where [simp]: "LF_NUM_DIR_ENT = 20"
definition LF_INULL :: int where [simp]: "LF_INULL = -1"
definition LF_DNULL :: int where [simp]: "LF_DNULL = -1"
definition LF_IBLEN :: nat where [simp]: "LF_IBLEN = 16"
definition LF_IDATA :: int where [simp]: "LF_IDATA = 8192"
definition LF_IMASK :: int where [simp]: "LF_IMASK = 0x1fff"
definition LF_DMASK :: int where [simp]: "LF_DMASK = 0x1ff"
definition LF_AREA_IB :: int where [simp]: "LF_AREA_IB = 1"
definition LF_AREA_DIR :: int where [simp]: "LF_AREA_DIR = 0"
definition LFS_ID :: int where [simp]: "LFS_ID = 0x58696E75"
definition EOF :: int where [simp]: "EOF = -2"

section \<open>Structures\<close>

record lfiblk =
  ib_next :: int
  ib_offset :: int
  ib_dba :: "int list"

record ldentry =
  ld_size :: int
  ld_ilist :: int
  ld_name :: "int list"

record lfdir =
  lfd_fsysid :: int
  lfd_vers :: int
  lfd_subvers :: int
  lfd_allzeros :: int
  lfd_allones :: int
  lfd_dfree :: int
  lfd_ifree :: int
  lfd_nfiles :: int
  lfd_files :: "int \<Rightarrow> ldentry"
  lfd_revid :: int

text \<open>
  The pointer \<^verbatim>\<open>lfdirptr\<close> into the array of directory entries is its index, the pointer \<^verbatim>\<open>lfbyte\<close> into
  the block of data its offset there, 512 if it points behind the block.
\<close>

datatype lfstate_t = LF_FREE | LF_USED

record lflcblk =
  lfstate :: lfstate_t
  lfdev :: int
  lfmutex :: int
  lfdirptr :: int
  lfmode :: int
  lfpos :: int
  lfname :: "int list"
  lfinum :: int
  lfiblock :: lfiblk
  lfdnum :: int
  lfdblock :: "int list"
  lfbyte :: int
  lfibdirty :: bool
  lfdbdirty :: bool

text \<open>The global variables \<^verbatim>\<open>Lf_data\<close> and \<^verbatim>\<open>lfltab\<close>, and the disk.\<close>

record lfs =
  lf_mutex :: int
  lf_dir :: lfdir
  lf_dirpresent :: bool
  lf_dirdirty :: bool
  lfltab :: "int \<Rightarrow> lflcblk"
  ram :: store

type_synonym fstate = "kstate \<times> lfs"

definition upc :: "int \<Rightarrow> (lflcblk \<Rightarrow> lflcblk) \<Rightarrow> lfs \<Rightarrow> lfs" where
  "upc k f d = d\<lparr>lfltab := (lfltab d)(k := f (lfltab d k))\<rparr>"

definition updir :: "(lfdir \<Rightarrow> lfdir) \<Rightarrow> lfs \<Rightarrow> lfs" where
  "updir f d = d\<lparr>lf_dir := f (lf_dir d)\<rparr>"

definition upent :: "int \<Rightarrow> (ldentry \<Rightarrow> ldentry) \<Rightarrow> lfs \<Rightarrow> lfs" where
  "upent e f = updir (\<lambda>r. r\<lparr>lfd_files := (lfd_files r)(e := f (lfd_files r e))\<rparr>)"

abbreviation entry :: "lfs \<Rightarrow> int \<Rightarrow> ldentry" where
  "entry d e \<equiv> lfd_files (lf_dir d) e"

section \<open>The bytes of structures\<close>

definition hbytes :: "int \<Rightarrow> int list" where
  "hbytes x = [x mod 256, x div 256 mod 256]"

definition wbytes :: "int \<Rightarrow> int list" where
  "wbytes x = [x mod 256, x div 256 mod 256, x div 65536 mod 256, x div 16777216 mod 256]"

definition hat :: "int list \<Rightarrow> nat \<Rightarrow> int" where
  "hat bs k = bs ! k + 256 * bs ! (k + 1)"

definition wat :: "int list \<Rightarrow> nat \<Rightarrow> int" where
  "wat bs k = hat bs k + 65536 * hat bs (k + 2)"

definition enc_ib :: "lfiblk \<Rightarrow> int list" where
  "enc_ib b = wbytes (ib_next b) @ wbytes (ib_offset b) @ concat (map wbytes (ib_dba b))"

definition dec_ib :: "int list \<Rightarrow> lfiblk" where
  "dec_ib bs = \<lparr>ib_next = i32 (wat bs 0), ib_offset = wat bs 4, ib_dba = map (\<lambda>j. i32 (wat bs (8 + 4 * j))) [0..<LF_IBLEN]\<rparr>"

definition enc_ent :: "ldentry \<Rightarrow> int list" where
  "enc_ent e = wbytes (ld_size e) @ wbytes (ld_ilist e) @ ld_name e"

definition dec_ent :: "int list \<Rightarrow> nat \<Rightarrow> ldentry" where
  "dec_ent bs k = \<lparr>ld_size = wat bs k, ld_ilist = i32 (wat bs (k + 4)), ld_name = take 16 (drop (k + 8) bs)\<rparr>"

definition enc_dir :: "lfdir \<Rightarrow> int list" where
  "enc_dir r = wbytes (lfd_fsysid r) @ hbytes (lfd_vers r) @ hbytes (lfd_subvers r) @ wbytes (lfd_allzeros r) @
     wbytes (lfd_allones r) @ wbytes (lfd_dfree r) @ wbytes (lfd_ifree r) @ wbytes (lfd_nfiles r) @
     concat (map (\<lambda>i. enc_ent (lfd_files r (int i))) [0..<20]) @ wbytes (lfd_revid r)"

definition dec_dir :: "int list \<Rightarrow> lfdir" where
  "dec_dir bs = \<lparr>lfd_fsysid = wat bs 0, lfd_vers = i16 (hat bs 4), lfd_subvers = i16 (hat bs 6), lfd_allzeros = wat bs 8,
     lfd_allones = wat bs 12, lfd_dfree = i32 (wat bs 16), lfd_ifree = i32 (wat bs 20), lfd_nfiles = i32 (wat bs 24),
     lfd_files = (\<lambda>i. dec_ent bs (28 + 24 * nat i)), lfd_revid = wat bs 508\<rparr>"

section \<open>Laws of bytes\<close>

lemma putb_in: "p \<le> a \<Longrightarrow> a < p + int (length bs) \<Longrightarrow> putb p bs M a = bs ! nat (a - p)"
  by (simp add: putb_def)

lemma putb_out: "a < p \<or> p + int (length bs) \<le> a \<Longrightarrow> putb p bs M a = M a"
  by (auto simp: putb_def)

lemma blk_putb: "blk (putb p bs M) p (length bs) = bs"
  by (rule nth_equalityI) (simp_all add: blk_nth putb_in)

lemma blk_putb_other: "q + int n \<le> p \<or> p + int (length bs) \<le> q \<Longrightarrow> blk (putb p bs M) q n = blk M q n"
  by (rule blk_cong) (auto simp: putb_def)

lemma wat_wbytes: "wat (wbytes x @ bs) 0 = u32 x"
proof -
  have 1: "x div 16777216 = x div 65536 div 256" using zdiv_zmult2_eq[of 256 x 65536] by simp
  have 2: "hat (a # b # c # e # bs) 0 = a + 256 * b" "hat (a # b # c # e # bs) (0 + 2) = c + 256 * e" for a b c e
    by (simp_all add: hat_def numeral_2_eq_2)
  show ?thesis unfolding wat_def wbytes_def append_Cons append_Nil 2 1 u16_bytes u32_halves ..
qed

end
