(* ===== verification/Lfs.thy ===== *)
theory Lfs
  imports Lfs_State
begin

text \<open>
  The local file system of \<^verbatim>\<open>device/lfs\<close>: files of data blocks, found through lists of index blocks, on
  the RAM disk, with one index block and one data block of each open file in memory. \<^verbatim>\<open>panic\<close>, an access
  outside an array and a loop that does not end are \<open>None\<close>. The file of minor number \<open>k\<close> has the control
  block \<open>lfltab k\<close>.
\<close>

unbundle bit_operations_syntax

section \<open>Index blocks\<close>

definition ib2sect :: "int \<Rightarrow> int" where
  "ib2sect ib = ib div 7 + LF_AREA_IB"

definition ib2disp :: "int \<Rightarrow> int" where
  "ib2disp ib = ib mod 7 * 72"

definition splice :: "nat \<Rightarrow> int list \<Rightarrow> int list \<Rightarrow> int list" where
  "splice k xs bs = take k bs @ xs @ drop (k + length xs) bs"

text \<open>
  The division of C truncates: a negative number other than \<open>-7\<close> gives a place before the buffer or before
  the disk, and \<open>-7\<close> the first 72 bytes of block 0.
\<close>

definition lfibget :: "int \<Rightarrow> store \<Rightarrow> lfiblk option" where
  "lfibget inum M =
    (if inum < 0 \<and> inum \<noteq> -7 then None
     else map_option (\<lambda>dbuff. dec_ib (take 72 (drop (nat (ib2disp inum)) dbuff))) (ramread (ib2sect inum) M))"

definition lfibput :: "int \<Rightarrow> lfiblk \<Rightarrow> store \<Rightarrow> store option" where
  "lfibput inum ib M =
    (if inum < 0 \<and> inum \<noteq> -7 then None
     else do {
       dbuff \<leftarrow> ramread (ib2sect inum) M;
       ramwrite (ib2sect inum) (splice (nat (ib2disp inum)) (enc_ib ib) dbuff) M
     })"

definition lfibclear :: "int \<Rightarrow> lfiblk" where
  "lfibclear offset = \<lparr>ib_next = LF_INULL, ib_offset = u32 offset, ib_dba = replicate LF_IBLEN LF_DNULL\<rparr>"

section \<open>Allocation\<close>

definition upram :: "(store \<Rightarrow> store option) \<Rightarrow> lfs \<Rightarrow> lfs option" where
  "upram f d = map_option (\<lambda>M. d\<lparr>ram := M\<rparr>) (f (ram d))"

definition write_dir :: "lfs \<Rightarrow> lfs option" where
  "write_dir d = upram (ramwrite LF_AREA_DIR (enc_dir (lf_dir d))) d"

definition lfiballoc :: "lfs \<Rightarrow> (int \<times> lfs) option" where
  "lfiballoc d =
    (let ibnum = lfd_ifree (lf_dir d) in
     if ibnum = LF_INULL then None
     else do {
       iblock \<leftarrow> lfibget ibnum (ram d);
       d \<leftarrow> write_dir (updir (\<lambda>r. r\<lparr>lfd_ifree := ib_next iblock\<rparr>) d);
       Some (ibnum, d\<lparr>lf_dirdirty := False\<rparr>)
     })"

text \<open>The buffer is filled with the character \<^verbatim>\<open>'+'\<close>.\<close>

definition lfdballoc :: "lfs \<Rightarrow> (int \<times> int list \<times> lfs) option" where
  "lfdballoc d =
    (let dnum = lfd_dfree (lf_dir d) in
     if dnum = LF_DNULL then None
     else do {
       dbuff \<leftarrow> ramread dnum (ram d);
       d \<leftarrow> write_dir (updir (\<lambda>r. r\<lparr>lfd_dfree := i32 (wat dbuff 0)\<rparr>) d);
       Some (dnum, replicate (nat LF_BLKSIZ) 43, d\<lparr>lf_dirdirty := False\<rparr>)
     })"

text \<open>The bytes of the freed block after its link are what is on the stack, \<open>junk\<close>.\<close>

definition lfdbfree :: "(int \<Rightarrow> int list) \<Rightarrow> int \<Rightarrow> lfs \<Rightarrow> lfs option" where
  "lfdbfree junk dnum d = do {
     let nextdb = lfd_dfree (lf_dir d);
     d \<leftarrow> upram (ramwrite dnum (wbytes nextdb @ junk dnum)) (updir (\<lambda>r. r\<lparr>lfd_dfree := dnum\<rparr>) d);
     write_dir d
   }"

section \<open>Blocks in memory\<close>

definition flush_dir :: "lfs \<Rightarrow> lfs option" where
  "flush_dir d = (if lf_dirdirty d then map_option (\<lambda>d. d\<lparr>lf_dirdirty := False\<rparr>) (write_dir d) else Some d)"

definition flush_db :: "int \<Rightarrow> lfs \<Rightarrow> lfs option" where
  "flush_db k d =
    (let c = lfltab d k in
     if lfdbdirty c
     then map_option (upc k (\<lambda>c. c\<lparr>lfdbdirty := False\<rparr>)) (upram (ramwrite (lfdnum c) (lfdblock c)) d)
     else Some d)"

definition flush_ib :: "int \<Rightarrow> lfs \<Rightarrow> lfs option" where
  "flush_ib k d =
    (let c = lfltab d k in
     if lfibdirty c
     then map_option (upc k (\<lambda>c. c\<lparr>lfibdirty := False\<rparr>)) (upram (lfibput (lfinum c) (lfiblock c)) d)
     else Some d)"

definition lfflush :: "int \<Rightarrow> lfs \<Rightarrow> (int \<times> lfs) option" where
  "lfflush k d =
    (if lfstate (lfltab d k) = LF_FREE then Some (SYSERR, d)
     else do { d \<leftarrow> flush_dir d; d \<leftarrow> flush_db k d; d \<leftarrow> flush_ib k d; Some (OK, d) })"

text \<open>\<^verbatim>\<open>lfsetup\<close> in four parts: writing changed blocks, a first index block, the walk, the data block.\<close>

definition setup_flush :: "int \<Rightarrow> lfs \<Rightarrow> lfs option" where
  "setup_flush k d =
    (if lfibdirty (lfltab d k) \<or> lfdbdirty (lfltab d k) then map_option snd (lfflush k d) else Some d)"

definition load_ib :: "int \<Rightarrow> int \<Rightarrow> lfs \<Rightarrow> lfs option" where
  "load_ib k ibnum d = map_option (\<lambda>ib. upc k (\<lambda>c. c\<lparr>lfiblock := ib, lfinum := ibnum\<rparr>) d) (lfibget ibnum (ram d))"

definition setup_first :: "int \<Rightarrow> lfs \<Rightarrow> lfs option" where
  "setup_first k d =
    (let c = lfltab d k; e = lfdirptr c in
     if lfinum c = LF_INULL then
       if ld_ilist (entry d e) = LF_INULL then do {
         (ibnum, d) \<leftarrow> lfiballoc d;
         Some (upc k (\<lambda>c. c\<lparr>lfiblock := lfibclear 0, lfibdirty := True, lfinum := ibnum\<rparr>)
           (upent e (\<lambda>l. l\<lparr>ld_ilist := ibnum\<rparr>) d))
       } else load_ib k (ld_ilist (entry d e)) d
     else if lfpos c < ib_offset (lfiblock c) then load_ib k (ld_ilist (entry d e)) d
     else Some d)"

partial_function (option) setup_walk :: "int \<Rightarrow> lfs \<Rightarrow> lfs option" where
  "setup_walk k d =
    (let c = lfltab d k; ib = lfiblock c in
     if lfpos c AND NOT LF_IMASK > ib_offset ib then
       if ib_next ib = LF_INULL then
         Option.bind (lfiballoc d) (\<lambda>(ibnum, d).
         Option.bind (upram (lfibput (lfinum c) (ib\<lparr>ib_next := ibnum\<rparr>)) d) (\<lambda>d.
           setup_walk k (upc k (\<lambda>c. c\<lparr>lfinum := ibnum, lfiblock := lfibclear (u32 (ib_offset ib + LF_IDATA)),
             lfibdirty := True, lfdnum := LF_DNULL\<rparr>) d)))
       else Option.bind (load_ib k (ib_next ib) d) (\<lambda>d. setup_walk k (upc k (\<lambda>c. c\<lparr>lfdnum := LF_DNULL\<rparr>) d))
     else Some d)"

definition setup_block :: "int \<Rightarrow> lfs \<Rightarrow> lfs option" where
  "setup_block k d =
    (let c = lfltab d k; dindex = nat (drop_bit 9 (lfpos c AND LF_IMASK)); dnum = ib_dba (lfiblock c) ! dindex in
     if dnum = LF_DNULL then do {
       (dnum, dbuff, d) \<leftarrow> lfdballoc d;
       Some (upc k (\<lambda>c. c\<lparr>lfdblock := dbuff, lfdnum := dnum, lfibdirty := True,
         lfiblock := (lfiblock c)\<lparr>ib_dba := (ib_dba (lfiblock c))[dindex := dnum]\<rparr>\<rparr>) d)
     } else if dnum \<noteq> lfdnum c then do {
       dbuff \<leftarrow> ramread dnum (ram d);
       Some (upc k (\<lambda>c. c\<lparr>lfdblock := dbuff, lfdbdirty := False, lfdnum := dnum\<rparr>) d)
     } else Some d)"

definition setup_byte :: "int \<Rightarrow> lfs \<Rightarrow> lfs" where
  "setup_byte k = upc k (\<lambda>c. c\<lparr>lfbyte := lfpos c AND LF_DMASK\<rparr>)"

definition lfs_setup :: "int \<Rightarrow> lfs \<Rightarrow> lfs option" where
  "lfs_setup k d = do {
     d \<leftarrow> setup_flush k d;
     d \<leftarrow> setup_first k d;
     d \<leftarrow> setup_walk k d;
     d \<leftarrow> setup_block k d;
     Some (setup_byte k d)
   }"

definition lfsetup :: "int \<Rightarrow> fstate \<Rightarrow> (fstate, int) step" where
  "lfsetup k sd =
    bindk (onk (wait (lf_mutex (snd sd))) sd) (\<lambda>_ sd.
    bindk (onu (lfs_setup k) sd) (\<lambda>_ sd.
    bindk (onk (signal (lf_mutex (snd sd))) sd) (\<lambda>_. Return OK)))"

section \<open>Open files\<close>

text \<open>Leaving a file's mutex with a value.\<close>

definition release :: "int \<Rightarrow> 'a \<Rightarrow> fstate \<Rightarrow> (fstate, 'a) step" where
  "release k r sd = bindk (onk (signal (lfmutex (lfltab (snd sd) k))) sd) (\<lambda>_. Return r)"

definition enter :: "int \<Rightarrow> fstate \<Rightarrow> (fstate, int) step" where
  "enter k sd = onk (wait (lfmutex (lfltab (snd sd) k))) sd"

definition setup_if :: "int \<Rightarrow> fstate \<Rightarrow> (fstate, int) step" where
  "setup_if k sd = (if lfbyte (lfltab (snd sd) k) \<ge> LF_BLKSIZ then lfsetup k sd else Return OK sd)"

definition next_byte :: "int \<Rightarrow> lfs \<Rightarrow> lfs" where
  "next_byte k = upc k (\<lambda>c. c\<lparr>lfbyte := lfbyte c + 1, lfpos := u32 (lfpos c + 1)\<rparr>)"

definition lflgetc :: "int \<Rightarrow> fstate \<Rightarrow> (fstate, int) step" where
  "lflgetc k sd = bindk (enter k sd) (\<lambda>_ sd.
     let c = lfltab (snd sd) k in
     if lfstate c \<noteq> LF_USED then release k SYSERR sd
     else if lfpos c \<ge> ld_size (entry (snd sd) (lfdirptr c)) then release k EOF sd
     else bindk (setup_if k sd) (\<lambda>_ sd.
       let c = lfltab (snd sd) k; onebyte = 0xff AND lfdblock c ! nat (lfbyte c)
       in release k onebyte (fst sd, next_byte k (snd sd))))"

text \<open>Storing a byte; a file that grows changes the directory.\<close>

definition grow :: "int \<Rightarrow> lfs \<Rightarrow> lfs" where
  "grow k d =
    (let e = lfdirptr (lfltab d k) in
     if lfpos (lfltab d k) \<ge> ld_size (entry d e)
     then (upent e (\<lambda>l. l\<lparr>ld_size := u32 (ld_size l + 1)\<rparr>) d)\<lparr>lf_dirdirty := True\<rparr> else d)"

definition store_byte :: "int \<Rightarrow> int \<Rightarrow> lfs \<Rightarrow> lfs" where
  "store_byte k ch = upc k (\<lambda>c. c\<lparr>lfdblock := (lfdblock c)[nat (lfbyte c) := ch], lfdbdirty := True\<rparr>)"

definition lflputc :: "int \<Rightarrow> int \<Rightarrow> fstate \<Rightarrow> (fstate, int) step" where
  "lflputc k ch sd = bindk (enter k sd) (\<lambda>_ sd.
     let c = lfltab (snd sd) k in
     if lfstate c \<noteq> LF_USED then release k SYSERR sd
     else if lfpos c > ld_size (entry (snd sd) (lfdirptr c)) then release k SYSERR sd
     else bindk (setup_if k sd) (\<lambda>_ sd. release k OK (fst sd, next_byte k (store_byte k ch (grow k (snd sd))))))"

text \<open>The bytes read are the second value of \<^verbatim>\<open>lflread\<close>.\<close>

primrec read_loop :: "nat \<Rightarrow> int \<Rightarrow> int list \<Rightarrow> fstate \<Rightarrow> (fstate, int \<times> int list) step" where
  "read_loop 0 k acc sd = Return (int (length acc), acc) sd"
| "read_loop (Suc n) k acc sd = bindk (lflgetc k sd) (\<lambda>nxtbyte sd.
     if nxtbyte = SYSERR then Return (SYSERR, acc) sd
     else if nxtbyte = EOF then Return (if acc = [] then EOF else int (length acc), acc) sd
     else read_loop n k (acc @ [0xff AND nxtbyte]) sd)"

definition lflread :: "int \<Rightarrow> int \<Rightarrow> fstate \<Rightarrow> (fstate, int \<times> int list) step" where
  "lflread k count sd = (if count < 0 then Return (SYSERR, []) sd else read_loop (nat count) k [] sd)"

primrec write_loop :: "nat \<Rightarrow> int \<Rightarrow> (int \<Rightarrow> int) \<Rightarrow> int \<Rightarrow> int \<Rightarrow> fstate \<Rightarrow> (fstate, int) step" where
  "write_loop 0 k buff i count sd = Return count sd"
| "write_loop (Suc n) k buff i count sd = bindk (lflputc k (buff i) sd) (\<lambda>r sd.
     if r = SYSERR then Return SYSERR sd else write_loop n k buff (i + 1) count sd)"

definition lflwrite :: "int \<Rightarrow> (int \<Rightarrow> int) \<Rightarrow> int \<Rightarrow> fstate \<Rightarrow> (fstate, int) step" where
  "lflwrite k buff count sd = (if count < 0 then Return SYSERR sd else write_loop (nat count) k buff 0 count sd)"

definition lflseek :: "int \<Rightarrow> int \<Rightarrow> fstate \<Rightarrow> (fstate, int) step" where
  "lflseek k offset sd = bindk (enter k sd) (\<lambda>_ sd.
     let c = lfltab (snd sd) k in
     if lfstate c \<noteq> LF_USED then release k SYSERR sd
     else if offset > ld_size (entry (snd sd) (lfdirptr c)) then release k SYSERR sd
     else release k OK (fst sd, upc k (\<lambda>c. c\<lparr>lfpos := offset, lfbyte := LF_BLKSIZ\<rparr>) (snd sd)))"

definition close_flush :: "int \<Rightarrow> lfs \<Rightarrow> lfs option" where
  "close_flush k d =
    (if lf_dirdirty d \<or> lfdbdirty (lfltab d k) \<or> lfibdirty (lfltab d k) then map_option snd (lfflush k d) else Some d)"

definition lflclose :: "int \<Rightarrow> fstate \<Rightarrow> (fstate, int) step" where
  "lflclose k sd = bindk (enter k sd) (\<lambda>_ sd.
     if lfstate (lfltab (snd sd) k) \<noteq> LF_USED then release k SYSERR sd
     else bindk (onu (close_flush k) sd) (\<lambda>_ sd. release k OK (fst sd, upc k (\<lambda>c. c\<lparr>lfstate := LF_FREE\<rparr>) (snd sd))))"

section \<open>Truncation\<close>

primrec free_blocks :: "(int \<Rightarrow> int list) \<Rightarrow> int list \<Rightarrow> lfs \<Rightarrow> lfs option" where
  "free_blocks junk [] d = Some d"
| "free_blocks junk (b # bs) d = do {
     d \<leftarrow> (if b \<noteq> LF_DNULL then lfdbfree junk b d else Some d);
     free_blocks junk bs d
   }"

partial_function (option) trunc_walk :: "(int \<Rightarrow> int list) \<Rightarrow> int \<Rightarrow> int \<Rightarrow> lfs \<Rightarrow> lfs option" where
  "trunc_walk junk nextib ifree d =
    (if nextib = ifree then Some d
     else Option.bind (lfibget nextib (ram d)) (\<lambda>ib.
       Option.bind (free_blocks junk (ib_dba ib) d) (\<lambda>d.
       let nx = (if ib_next ib = LF_INULL then ifree else ib_next ib) in
       Option.bind (upram (lfibput nextib \<lparr>ib_next = nx, ib_offset = 0, ib_dba = replicate LF_IBLEN LF_DNULL\<rparr>) d)
         (trunc_walk junk nx ifree))))"

definition lftruncate :: "(int \<Rightarrow> int list) \<Rightarrow> int \<Rightarrow> lfs \<Rightarrow> (int \<times> lfs) option" where
  "lftruncate junk k d =
    (let e = lfdirptr (lfltab d k) in
     if ld_size (entry d e) = 0 then Some (OK, d)
     else do {
       d \<leftarrow> setup_flush k d;
       let d = upc k (\<lambda>c. c\<lparr>lfpos := 0, lfinum := LF_INULL, lfdnum := LF_DNULL, lfbyte := LF_BLKSIZ\<rparr>) d;
       let ifree = lfd_ifree (lf_dir d);
       let firstib = ld_ilist (entry d e);
       let d = (upent e (\<lambda>l. l\<lparr>ld_ilist := LF_INULL, ld_size := 0\<rparr>) d)\<lparr>lf_dirdirty := True\<rparr>;
       d \<leftarrow> trunc_walk junk firstib ifree d;
       Some (OK, (updir (\<lambda>r. r\<lparr>lfd_ifree := firstib\<rparr>) d)\<lparr>lf_dirdirty := True\<rparr>)
     })"

definition lflcontrol :: "(int \<Rightarrow> int list) \<Rightarrow> int \<Rightarrow> int \<Rightarrow> fstate \<Rightarrow> (fstate, int) step" where
  "lflcontrol junk k func sd = bindk (enter k sd) (\<lambda>_ sd.
     if lfstate (lfltab (snd sd) k) \<noteq> LF_USED then release k SYSERR sd
     else if func = LF_CTL_TRUNC then
       bindk (onk (wait (lf_mutex (snd sd))) sd) (\<lambda>_ sd.
       bindk (ond (lftruncate junk k) sd) (\<lambda>retval sd.
       bindk (onk (signal (lf_mutex (snd sd))) sd) (\<lambda>_. release k retval)))
     else release k SYSERR sd)"

section \<open>Opening\<close>

text \<open>Strings are given by their characters before the null byte; \<open>None\<close> stands for \<^verbatim>\<open>SYSERR\<close>.\<close>

fun mode_loop :: "int list \<Rightarrow> int \<Rightarrow> int option" where
  "mode_loop [] mbits = Some mbits"
| "mode_loop (ch # cs) mbits =
    (if ch = 114 then if mbits AND LF_MODE_R \<noteq> 0 then None else mode_loop cs (mbits OR LF_MODE_R)
     else if ch = 119 then if mbits AND LF_MODE_W \<noteq> 0 then None else mode_loop cs (mbits OR LF_MODE_W)
     else if ch = 111 then
       if mbits AND LF_MODE_O \<noteq> 0 \<or> mbits AND LF_MODE_N \<noteq> 0 then None else mode_loop cs (mbits OR LF_MODE_O)
     else if ch = 110 then
       if mbits AND LF_MODE_O \<noteq> 0 \<or> mbits AND LF_MODE_N \<noteq> 0 then None else mode_loop cs (mbits OR LF_MODE_N)
     else None)"

definition lfgetmode :: "int list \<Rightarrow> int" where
  "lfgetmode mode =
    (case mode_loop mode 0 of
       None \<Rightarrow> SYSERR
     | Some mbits \<Rightarrow> if mbits AND LF_MODE_RW = 0 then mbits OR LF_MODE_RW else mbits)"

definition lfscheck :: "lfdir \<Rightarrow> int" where
  "lfscheck r =
    (if lfd_fsysid r \<noteq> LFS_ID \<or> lfd_allzeros r \<noteq> 0 \<or> lfd_allones r \<noteq> 0xffffffff then SYSERR
     else
       let reverse = (drop_bit 24 LFS_ID AND 0xff) OR (drop_bit 8 LFS_ID AND 0xff00) OR
             (push_bit 8 LFS_ID AND 0xff0000) OR (push_bit 24 LFS_ID AND 0xff000000)
       in if lfd_revid r \<noteq> reverse then SYSERR
          else if lfd_nfiles r < 0 then SYSERR else OK)"

fun name_match :: "int list \<Rightarrow> int list \<Rightarrow> bool" where
  "name_match [] (c # cs) \<longleftrightarrow> c = 0"
| "name_match (n # ns) (c # cs) \<longleftrightarrow> n = c \<and> name_match ns cs"
| "name_match ns [] \<longleftrightarrow> False"

text \<open>The search for a free control block; \<open>None\<close> if the file is open already.\<close>

primrec open_scan :: "nat \<Rightarrow> int \<Rightarrow> int list \<Rightarrow> lfs \<Rightarrow> int \<Rightarrow> int option" where
  "open_scan 0 i name d lfnext = Some lfnext"
| "open_scan (Suc n) i name d lfnext =
    (if lfstate (lfltab d i) = LF_FREE then open_scan n (i + 1) name d (if lfnext = SYSERR then i else lfnext)
     else if name_match name (lfname (lfltab d i)) then None
     else open_scan n (i + 1) name d lfnext)"

definition load_dir :: "lfs \<Rightarrow> (int \<times> lfs) option" where
  "load_dir d =
    (if lf_dirpresent d then Some (OK, d)
     else do {
       bs \<leftarrow> ramread LF_AREA_DIR (ram d);
       let d = updir (\<lambda>_. dec_dir bs) d;
       if lfscheck (lf_dir d) = SYSERR then Some (SYSERR, d) else Some (OK, d\<lparr>lf_dirpresent := True\<rparr>)
     })"

text \<open>The index of the directory entry with the name, the number of files if there is none.\<close>

primrec dir_scan :: "nat \<Rightarrow> int \<Rightarrow> int list \<Rightarrow> lfdir \<Rightarrow> int option" where
  "dir_scan 0 i name r = Some i"
| "dir_scan (Suc n) i name r =
    (if i \<ge> LF_NUM_DIR_ENT then None
     else if name_match name (ld_name (lfd_files r i)) then Some i
     else dir_scan n (i + 1) name r)"

definition put_name :: "int list \<Rightarrow> int list \<Rightarrow> int list" where
  "put_name name old = splice 0 (name @ [0]) old"

definition find_entry :: "int list \<Rightarrow> int \<Rightarrow> lfs \<Rightarrow> (int \<times> lfs) option" where
  "find_entry name mbits d = do {
     let n = lfd_nfiles (lf_dir d);
     i \<leftarrow> dir_scan (nat n) 0 name (lf_dir d);
     if i \<ge> n then
       if mbits AND LF_MODE_O \<noteq> 0 then Some (SYSERR, d)
       else if n \<ge> LF_NUM_DIR_ENT then Some (SYSERR, d)
       else Some (n, upent n (\<lambda>l. l\<lparr>ld_size := 0, ld_name := put_name name (ld_name l), ld_ilist := LF_INULL\<rparr>)
         (updir (\<lambda>r. r\<lparr>lfd_nfiles := n + 1\<rparr>) d))
     else if mbits AND LF_MODE_N \<noteq> 0 then Some (SYSERR, d)
     else Some (i, d)
   }"

definition open_block :: "int \<Rightarrow> int \<Rightarrow> int \<Rightarrow> int list \<Rightarrow> lfs \<Rightarrow> lfs" where
  "open_block k e mbits name = upc k (\<lambda>c. c\<lparr>lfstate := LF_USED, lfdirptr := e, lfmode := mbits AND LF_MODE_RW, lfpos := 0,
     lfname := put_name name (lfname c), lfinum := LF_INULL, lfdnum := LF_DNULL, lfbyte := LF_BLKSIZ,
     lfibdirty := False, lfdbdirty := False\<rparr>)"

definition leave :: "int \<Rightarrow> fstate \<Rightarrow> (fstate, int) step" where
  "leave r sd = bindk (onk (signal (lf_mutex (snd sd))) sd) (\<lambda>_. Return r)"

definition lfsopen :: "int list \<Rightarrow> int list \<Rightarrow> fstate \<Rightarrow> (fstate, int) step" where
  "lfsopen name mode sd =
    (let mbits = lfgetmode mode in
     if int (length name) \<ge> LF_NAME_LEN then Return SYSERR sd
     else if mbits = SYSERR then Return SYSERR sd
     else case open_scan (nat Nlfl) 0 name (snd sd) SYSERR of
       None \<Rightarrow> Return SYSERR sd
     | Some k \<Rightarrow>
       if k = SYSERR then Return SYSERR sd
       else bindk (onk (wait (lf_mutex (snd sd))) sd) (\<lambda>_ sd.
         bindk (ond load_dir sd) (\<lambda>r sd.
           if r = SYSERR then leave SYSERR sd
           else bindk (ond (find_entry name mbits) sd) (\<lambda>e sd.
             if e = SYSERR then leave SYSERR sd
             else leave (lfdev (lfltab (snd sd) k)) (fst sd, open_block k e mbits name (snd sd))))))"

section \<open>Initialisation\<close>

definition lfsinit :: "fstate \<Rightarrow> (fstate, int) step" where
  "lfsinit sd = bindk (onk (semcreate 1) sd) (\<lambda>sem sd.
     Return OK (fst sd, (snd sd)\<lparr>lf_mutex := sem, lf_dir := dec_dir (replicate 512 0), lf_dirpresent := False, lf_dirdirty := False\<rparr>))"

text \<open>The null pointer \<^verbatim>\<open>lfdirptr\<close> is the index -1.\<close>

definition lflinit :: "int \<Rightarrow> int \<Rightarrow> fstate \<Rightarrow> (fstate, int) step" where
  "lflinit k dvnum sd = bindk (onk (semcreate 1) sd) (\<lambda>sem sd.
     Return OK (fst sd, upc k (\<lambda>c. c\<lparr>lfstate := LF_FREE, lfdev := dvnum, lfmutex := sem, lfdirptr := -1, lfpos := 0,
       lfname := replicate 16 0, lfinum := LF_INULL, lfiblock := dec_ib (replicate 72 0), lfdnum := 0,
       lfdblock := replicate 512 0, lfbyte := LF_BLKSIZ, lfibdirty := False, lfdbdirty := False\<rparr>) (snd sd)))"

section \<open>Making and checking a file system\<close>

primrec create_ibs :: "nat \<Rightarrow> int \<Rightarrow> store \<Rightarrow> store option" where
  "create_ibs 0 i M = Some M"
| "create_ibs (Suc n) i M = do { M \<leftarrow> lfibput i ((lfibclear 0)\<lparr>ib_next := i + 1\<rparr>) M; create_ibs n (i + 1) M }"

primrec create_dbs :: "nat \<Rightarrow> int \<Rightarrow> store \<Rightarrow> store option" where
  "create_dbs 0 b M = Some M"
| "create_dbs (Suc n) b M = do { M \<leftarrow> ramwrite b (wbytes (b + 1) @ replicate 508 0) M; create_dbs n (b + 1) M }"

definition lfscreate :: "int \<Rightarrow> int \<Rightarrow> store \<Rightarrow> (int \<times> store) option" where
  "lfscreate lfiblks dsiz M =
    (let sectors = dsiz div LF_BLKSIZ;
         ibpersector = LF_BLKSIZ div 72;
         ibsectors = u32 (lfiblks + (ibpersector - 1)) div ibpersector;
         lfiblks = i32 (ibsectors * ibpersector)
     in if ibsectors > sectors div 2 then Some (SYSERR, M)
        else do {
          let dbindex = i32 (ibsectors + 1);
          let dblks = u32 (sectors - ibsectors - 1);
          let dir = (dec_dir (replicate 512 0))\<lparr>lfd_nfiles := 0, lfd_dfree := dbindex\<rparr>;
          M \<leftarrow> ramwrite LF_AREA_DIR (enc_dir dir) M;
          M \<leftarrow> create_ibs (nat (lfiblks - 1)) 0 M;
          M \<leftarrow> lfibput (int (nat (lfiblks - 1))) ((lfibclear 0)\<lparr>ib_next := LF_INULL\<rparr>) M;
          M \<leftarrow> create_dbs (nat (u32 (dblks - 1))) dbindex M;
          M \<leftarrow> ramwrite (dbindex + int (nat (u32 (dblks - 1)))) (wbytes LF_DNULL @ replicate 508 0) M;
          Some (OK, M)
        })"

text \<open>The numbers of blocks that \<^verbatim>\<open>lfsckfmt\<close> prints are its values here.\<close>

partial_function (option) count_ibs :: "int \<Rightarrow> int \<Rightarrow> store \<Rightarrow> int option" where
  "count_ibs nextib n M =
    (if nextib = LF_INULL then Some n else Option.bind (lfibget nextib M) (\<lambda>ib. count_ibs (ib_next ib) (n + 1) M))"

partial_function (option) count_dbs :: "int \<Rightarrow> int \<Rightarrow> store \<Rightarrow> int option" where
  "count_dbs nextdb n M =
    (if nextdb = LF_DNULL then Some n else Option.bind (ramread nextdb M) (\<lambda>bs. count_dbs (i32 (wat bs 0)) (n + 1) M))"

definition lfsckfmt :: "store \<Rightarrow> (int \<times> int) option" where
  "lfsckfmt M = do {
     bs \<leftarrow> ramread LF_AREA_DIR M;
     let dir = dec_dir bs;
     if lfscheck dir = SYSERR then None
     else do {
       lfiblks \<leftarrow> count_ibs (lfd_ifree dir) 0 M;
       dblks \<leftarrow> count_dbs (lfd_dfree dir) 0 M;
       Some (lfiblks, dblks)
     }
   }"

end
