(* ===== verification/Lfs_Disk.thy ===== *)
theory Lfs_Disk
  imports Lfs
begin

text \<open>
  The disk as its blocks: \<open>ibof M i\<close> is the index block \<open>i\<close> on the disk, \<open>dbof M b\<close> the bytes of the data
  block \<open>b\<close>. Each write changes one of them and no other, as long as index blocks and data blocks lie in
  their own sectors.
\<close>

section \<open>Reading back structures\<close>

definition wf_ib :: "lfiblk \<Rightarrow> bool" where
  "wf_ib ib \<longleftrightarrow> - 2147483648 \<le> ib_next ib \<and> ib_next ib < 2147483648 \<and> 0 \<le> ib_offset ib \<and> ib_offset ib < 4294967296 \<and>
     length (ib_dba ib) = 16 \<and> (\<forall>b\<in>set (ib_dba ib). - 2147483648 \<le> b \<and> b < 2147483648)"

lemma length_wbytes [simp]: "length (wbytes x) = 4" "length (hbytes x) = 2"
  by (simp_all add: wbytes_def hbytes_def)

lemma length_concat_wbytes [simp]: "length (concat (map wbytes xs)) = 4 * length xs"
  by (induction xs) simp_all

lemma length_enc_ib: "length (ib_dba ib) = 16 \<Longrightarrow> length (enc_ib ib) = 72"
  by (simp add: enc_ib_def)

lemma wat_drop: "k + 3 < length bs \<Longrightarrow> wat bs k = wat (drop k bs) 0"
  by (simp add: wat_def hat_def add.assoc)

lemma drop_concat_wbytes:
  "j < length xs \<Longrightarrow> drop (4 * j) (concat (map wbytes xs)) = wbytes (xs ! j) @ concat (map wbytes (drop (Suc j) xs))"
proof (induction j arbitrary: xs)
  case 0
  then show ?case by (cases xs) auto
next
  case (Suc j)
  then show ?case by (cases xs) auto
qed

lemma i32_u32: "- 2147483648 \<le> x \<Longrightarrow> x < 2147483648 \<Longrightarrow> i32 (u32 x) = x"
  using i32_shift[of "u32 x" "x div 4294967296"] i32_id[of x] unfolding u32_def
  by (simp only: mod_div_mult_eq)

lemma dec_enc_ib:
  assumes "wf_ib ib"
  shows "dec_ib (enc_ib ib) = ib"
proof -
  have l: "length (ib_dba ib) = 16" using assms by (simp add: wf_ib_def)
  note len = length_enc_ib[OF l]
  have 0: "wat (enc_ib ib) 0 = u32 (ib_next ib)" by (simp add: enc_ib_def wat_wbytes)
  have "drop 4 (enc_ib ib) = wbytes (ib_offset ib) @ concat (map wbytes (ib_dba ib))" by (simp add: enc_ib_def)
  then have 4: "wat (enc_ib ib) 4 = u32 (ib_offset ib)" using wat_drop[of 4 "enc_ib ib"] len by (simp add: wat_wbytes)
  have dba: "i32 (wat (enc_ib ib) (8 + 4 * j)) = ib_dba ib ! j" if j: "j < 16" for j
  proof -
    have "drop (8 + 4 * j) (enc_ib ib) = drop (4 * j) (concat (map wbytes (ib_dba ib)))" by (simp add: enc_ib_def)
    then have "wat (enc_ib ib) (8 + 4 * j) = u32 (ib_dba ib ! j)"
      using wat_drop[of "8 + 4 * j" "enc_ib ib"] len j l drop_concat_wbytes[of j "ib_dba ib"] by (simp add: wat_wbytes)
    moreover have "ib_dba ib ! j \<in> set (ib_dba ib)" using j l by simp
    ultimately show ?thesis using assms by (simp add: wf_ib_def i32_u32)
  qed
  have "map (\<lambda>j. i32 (wat (enc_ib ib) (8 + 4 * j))) [0..<16] = ib_dba ib"
    using dba l by (intro nth_equalityI) simp_all
  then show ?thesis using assms 0 4 unfolding dec_ib_def wf_ib_def by (simp add: i32_u32)
qed

section \<open>Blocks of the disk\<close>

definition ibaddr :: "int \<Rightarrow> int" where
  "ibaddr i = 512 * (i div 7 + 1) + 72 * (i mod 7)"

definition ibof :: "store \<Rightarrow> int \<Rightarrow> lfiblk" where
  "ibof M i = dec_ib (blk M (ibaddr i) 72)"

definition dbof :: "store \<Rightarrow> int \<Rightarrow> int list" where
  "dbof M b = blk M (512 * b) 512"

text \<open>With \<open>K\<close> sectors of index blocks: the index blocks and the data blocks.\<close>

definition ivalid :: "int \<Rightarrow> int \<Rightarrow> bool" where
  "ivalid K i \<longleftrightarrow> 0 \<le> i \<and> i < 7 * K"

definition dvalid :: "int \<Rightarrow> int \<Rightarrow> bool" where
  "dvalid K b \<longleftrightarrow> K < b \<and> b < RM_BLKS"

definition isectors :: "int \<Rightarrow> bool" where
  "isectors K \<longleftrightarrow> 0 \<le> K \<and> K < RM_BLKS"

lemma ibaddr_sector: "0 \<le> i \<Longrightarrow> 512 * (i div 7 + 1) \<le> ibaddr i \<and> ibaddr i + 72 \<le> 512 * (i div 7 + 1) + 512"
  unfolding ibaddr_def by presburger

lemma ibaddr_apart:
  assumes "0 \<le> i" "0 \<le> j" "i \<noteq> j"
  shows "ibaddr i + 72 \<le> ibaddr j \<or> ibaddr j + 72 \<le> ibaddr i"
proof (cases "i div 7 = j div 7")
  case True
  then have "i mod 7 \<noteq> j mod 7" using assms(3) by (metis div_mult_mod_eq)
  then have "i mod 7 + 1 \<le> j mod 7 \<or> j mod 7 + 1 \<le> i mod 7" by linarith
  then show ?thesis using True unfolding ibaddr_def by auto
next
  case False
  define q r where "q = i div 7" and "r = j div 7"
  have "q \<noteq> r" using False by (simp add: q_def r_def)
  then have "q + 1 \<le> r \<or> r + 1 \<le> q" by linarith
  then show ?thesis using ibaddr_sector[OF assms(1)] ibaddr_sector[OF assms(2)]
    unfolding q_def[symmetric] r_def[symmetric] by auto
qed

lemma take_drop_blk: "k + n \<le> N \<Longrightarrow> take n (drop k (blk M p N)) = blk M (p + int k) n"
  by (rule nth_equalityI) (simp_all add: blk_nth algebra_simps)

lemma splice_blk:
  assumes "k + length xs \<le> N"
  shows "putb p (splice k xs (blk M p N)) M = putb (p + int k) xs M"
proof
  fix a
  show "putb p (splice k xs (blk M p N)) M a = putb (p + int k) xs M a"
  proof (cases "p \<le> a \<and> a < p + int N")
    case True
    define i where "i = nat (a - p)"
    have i: "a = p + int i" "i < N" using True by (auto simp: i_def)
    have "putb p (splice k xs (blk M p N)) M a = splice k xs (blk M p N) ! i"
      using i assms by (simp add: putb_def splice_def)
    also have "\<dots> = (if k \<le> i \<and> i < k + length xs then xs ! (i - k) else M a)"
      using i assms by (auto simp: splice_def nth_append blk_nth min_def)
    also have "\<dots> = putb (p + int k) xs M a" using i by (auto simp: putb_def nat_diff_distrib intro!: arg_cong[where f = "(!) xs"])
    finally show ?thesis .
  qed (use assms in \<open>auto simp: putb_def splice_def\<close>)
qed

lemma ivalid_sector: "ivalid K i \<Longrightarrow> isectors K \<Longrightarrow> 0 \<le> i \<and> 0 \<le> i div 7 + 1 \<and> i div 7 + 1 < 200 \<and> i div 7 + 1 \<le> K"
  unfolding ivalid_def isectors_def RM_BLKS_def by presburger

lemma ibaddr_range: "ivalid K i \<Longrightarrow> isectors K \<Longrightarrow> 512 \<le> ibaddr i \<and> ibaddr i + 72 \<le> 512 * (K + 1)"
proof -
  assume v: "ivalid K i" "isectors K"
  then have "0 \<le> i" by (simp add: ivalid_def)
  define q where "q = i div 7"
  have "0 \<le> q" using \<open>0 \<le> i\<close> by (simp add: q_def)
  then show ?thesis using ibaddr_sector[OF \<open>0 \<le> i\<close>] ivalid_sector[OF v] unfolding q_def[symmetric] by auto
qed

lemma dvalid_range: "dvalid K b \<Longrightarrow> 512 * (K + 1) \<le> 512 * b"
  by (simp add: dvalid_def)

lemma lfibget_eq: "ivalid K i \<Longrightarrow> isectors K \<Longrightarrow> lfibget i M = Some (ibof M i)"
  using ivalid_sector[of K i] take_drop_blk[of "nat (72 * (i mod 7))" 72 512 M "512 * (i div 7 + 1)"]
  by (auto simp: lfibget_def ramread_def ib2sect_def ib2disp_def ibof_def ibaddr_def mult.commute)

lemma lfibput_eq:
  assumes "ivalid K i" "isectors K" "length (ib_dba ib) = 16"
  shows "lfibput i ib M = Some (putb (ibaddr i) (enc_ib ib) M)"
proof -
  have "i mod 7 < 7" "0 \<le> i mod 7" by simp_all
  then have "nat (72 * (i mod 7)) + 72 \<le> 512" by simp
  then have "putb (512 * (i div 7 + 1)) (splice (nat (72 * (i mod 7))) (enc_ib ib) (blk M (512 * (i div 7 + 1)) 512)) M
      = putb (ibaddr i) (enc_ib ib) M"
    using splice_blk[of "nat (72 * (i mod 7))" "enc_ib ib" 512 "512 * (i div 7 + 1)" M] length_enc_ib[OF assms(3)]
    by (simp add: ibaddr_def)
  then show ?thesis
    using ivalid_sector[OF assms(1,2)] by (auto simp: lfibput_def ramread_def ramwrite_def ib2sect_def ib2disp_def mult.commute)
qed

lemma dvalid_sector: "dvalid K b \<Longrightarrow> isectors K \<Longrightarrow> 0 < b \<and> b < 200"
  by (simp add: dvalid_def isectors_def)

lemma ramread_eq: "dvalid K b \<Longrightarrow> isectors K \<Longrightarrow> ramread b M = Some (dbof M b)"
  by (simp add: dvalid_def isectors_def ramread_def dbof_def)

lemma ramwrite_eq: "dvalid K b \<Longrightarrow> isectors K \<Longrightarrow> ramwrite b bs M = Some (putb (512 * b) bs M)"
  by (simp add: dvalid_def isectors_def ramwrite_def)

lemma ramwrite_dir: "ramwrite LF_AREA_DIR bs M = Some (putb 0 bs M)"
  by (simp add: ramwrite_def)

section \<open>Writing\<close>

lemma ibof_put_ib:
  "0 \<le> i \<Longrightarrow> 0 \<le> j \<Longrightarrow> wf_ib ib \<Longrightarrow> ibof (putb (ibaddr i) (enc_ib ib) M) j = (if j = i then ib else ibof M j)"
  using ibaddr_apart[of i j] length_enc_ib[of ib] blk_putb[of "ibaddr i" "enc_ib ib" M]
    blk_putb_other[of "ibaddr j" 72 "ibaddr i" "enc_ib ib" M]
  by (auto simp: ibof_def dec_enc_ib wf_ib_def)

lemma dbof_put_ib:
  assumes "ivalid K i" "dvalid K b" "isectors K" "length (ib_dba ib) = 16"
  shows "dbof (putb (ibaddr i) (enc_ib ib) M) b = dbof M b"
proof -
  have "ibaddr i + 72 \<le> 512 * b" using ibaddr_range[OF assms(1,3)] dvalid_range[OF assms(2)] by linarith
  then show ?thesis unfolding dbof_def by (intro blk_putb_other) (simp add: length_enc_ib[OF assms(4)])
qed

lemma dbof_put_db:
  assumes "length bs = 512"
  shows "dbof (putb (512 * b) bs M) c = (if c = b then bs else dbof M c)"
proof -
  have "512 * c + 512 \<le> 512 * b \<or> 512 * b + 512 \<le> 512 * c" if "c \<noteq> b" using that by linarith
  then show ?thesis
    using blk_putb[of "512 * b" bs M] blk_putb_other[of "512 * c" 512 "512 * b" bs M] assms by (auto simp: dbof_def)
qed

lemma ibof_put_db:
  assumes "ivalid K i" "dvalid K b" "isectors K"
  shows "ibof (putb (512 * b) bs M) i = ibof M i"
proof -
  have "ibaddr i + 72 \<le> 512 * b" using ibaddr_range[OF assms(1,3)] dvalid_range[OF assms(2)] by linarith
  then show ?thesis unfolding ibof_def by (simp add: blk_putb_other)
qed

lemma length_enc_dir: "(\<And>i. 0 \<le> i \<Longrightarrow> i < 20 \<Longrightarrow> length (ld_name (lfd_files r i)) = 16) \<Longrightarrow> length (enc_dir r) = 512"
proof -
  assume n: "\<And>i. 0 \<le> i \<Longrightarrow> i < 20 \<Longrightarrow> length (ld_name (lfd_files r i)) = 16"
  have "length (concat (map (\<lambda>i. enc_ent (lfd_files r (int i))) [0..<m])) = 24 * m" if "m \<le> 20" for m
    using that by (induction m) (simp_all add: enc_ent_def n)
  from this[of 20] show ?thesis by (simp add: enc_dir_def)
qed

lemma put_dir_other:
  assumes "length bs = 512" "isectors K"
  shows "ivalid K i \<Longrightarrow> ibof (putb 0 bs M) i = ibof M i" "dvalid K b \<Longrightarrow> dbof (putb 0 bs M) b = dbof M b"
proof -
  show "ivalid K i \<Longrightarrow> ibof (putb 0 bs M) i = ibof M i"
    using ibaddr_range[OF _ assms(2), of i] assms(1)
    unfolding ibof_def by (intro arg_cong[where f = dec_ib] blk_putb_other) auto
  show "dvalid K b \<Longrightarrow> dbof (putb 0 bs M) b = dbof M b"
    using assms unfolding dbof_def by (intro blk_putb_other) (auto simp: dvalid_def isectors_def)
qed

end
