(* ===== verification/Lfs_Rep.thy ===== *)
theory Lfs_Rep
  imports Lfs_Disk
begin

text \<open>
  What the disk and the blocks in memory represent: for every entry of the directory a file, a list of
  bytes, in data blocks that its index blocks list in order. Where a block of an open file is in memory,
  that copy counts. No two files share blocks with each other or with the free lists.
\<close>

section \<open>Representation\<close>

primrec ichain :: "(int \<Rightarrow> lfiblk) \<Rightarrow> int \<Rightarrow> int list \<Rightarrow> bool" where
  "ichain iv p [] \<longleftrightarrow> p = LF_INULL"
| "ichain iv p (i # is) \<longleftrightarrow> p = i \<and> ichain iv (ib_next (iv i)) is"

primrec dchain :: "(int \<Rightarrow> int list) \<Rightarrow> int \<Rightarrow> int list \<Rightarrow> bool" where
  "dchain dv p [] \<longleftrightarrow> p = LF_DNULL"
| "dchain dv p (b # bs) \<longleftrightarrow> p = b \<and> dchain dv (i32 (wat (dv b) 0)) bs"

definition iview :: "store \<Rightarrow> lflcblk option \<Rightarrow> int \<Rightarrow> lfiblk" where
  "iview M oc i = (case oc of Some c \<Rightarrow> if i = lfinum c then lfiblock c else ibof M i | None \<Rightarrow> ibof M i)"

definition dview :: "store \<Rightarrow> lflcblk option \<Rightarrow> int \<Rightarrow> int list" where
  "dview M oc b = (case oc of Some c \<Rightarrow> if b = lfdnum c then lfdblock c else dbof M b | None \<Rightarrow> dbof M b)"

text \<open>The pointers of the \<open>n\<close>th index block of a file with the data blocks \<open>dbs\<close>.\<close>

definition dba_at :: "int list \<Rightarrow> nat \<Rightarrow> int list" where
  "dba_at dbs n = map (\<lambda>j. if 16 * n + j < length dbs then dbs ! (16 * n + j) else LF_DNULL) [0..<16]"

text \<open>
  The blocks in memory: those that have not changed are as on the disk, and a byte pointer into the data
  block is that of the position.
\<close>

definition at_pos :: "lflcblk \<Rightarrow> int list \<Rightarrow> bool" where
  "at_pos c dbs \<longleftrightarrow> nat (lfpos c) div 512 < length dbs \<and> lfdnum c = dbs ! (nat (lfpos c) div 512) \<and> lfbyte c = lfpos c mod 512"

definition cache_ok :: "store \<Rightarrow> lflcblk \<Rightarrow> int list \<Rightarrow> int list \<Rightarrow> int list \<Rightarrow> bool" where
  "cache_ok M c ibs dbs xs \<longleftrightarrow>
     (if lfinum c = LF_INULL then \<not> lfibdirty c else lfinum c \<in> set ibs \<and> (\<not> lfibdirty c \<longrightarrow> ibof M (lfinum c) = lfiblock c)) \<and>
     (if lfdnum c = LF_DNULL then \<not> lfdbdirty c else lfdnum c \<in> set dbs) \<and>
     (\<not> lfdbdirty c \<longrightarrow> (\<forall>i<length xs. dbs ! (i div 512) = lfdnum c \<longrightarrow> dbof M (lfdnum c) ! (i mod 512) = xs ! i)) \<and>
     length (lfdblock c) = 512 \<and> 0 \<le> lfpos c \<and> lfpos c \<le> int (length xs) \<and> 0 \<le> lfbyte c \<and> lfbyte c \<le> 512 \<and>
     (lfbyte c < 512 \<longrightarrow> at_pos c dbs)"

definition file_ok :: "store \<Rightarrow> ldentry \<Rightarrow> lflcblk option \<Rightarrow> int list \<Rightarrow> int list \<Rightarrow> int list \<Rightarrow> bool" where
  "file_ok M ent oc ibs dbs xs \<longleftrightarrow>
     ichain (iview M oc) (ld_ilist ent) ibs \<and>
     (\<forall>n<length ibs. ib_offset (iview M oc (ibs ! n)) = 8192 * int n \<and> ib_dba (iview M oc (ibs ! n)) = dba_at dbs n) \<and>
     length dbs \<le> 16 * length ibs \<and> length xs \<le> 512 * length dbs \<and> ld_size ent = int (length xs) \<and>
     (\<forall>i<length xs. dview M oc (dbs ! (i div 512)) ! (i mod 512) = xs ! i) \<and> (\<forall>x\<in>set xs. 0 \<le> x \<and> x < 256) \<and>
     (case oc of Some c \<Rightarrow> cache_ok M c ibs dbs xs | None \<Rightarrow> True)"

text \<open>Who has a file open, the blocks of each file, and the free ones.\<close>

record layout =
  who :: "int \<Rightarrow> int option"
  ibs :: "int \<Rightarrow> int list"
  dbs :: "int \<Rightarrow> int list"
  ifree :: "int list"
  dfree :: "int list"

definition apart_lists :: "int \<Rightarrow> (int \<Rightarrow> int list) \<Rightarrow> int list \<Rightarrow> bool" where
  "apart_lists n f free \<longleftrightarrow> distinct free \<and>
     (\<forall>e. 0 \<le> e \<and> e < n \<longrightarrow> distinct (f e) \<and> set (f e) \<inter> set free = {}) \<and>
     (\<forall>e e'. 0 \<le> e \<and> e < n \<and> 0 \<le> e' \<and> e' < n \<and> e \<noteq> e' \<longrightarrow> set (f e) \<inter> set (f e') = {})"

definition within :: "(int \<Rightarrow> bool) \<Rightarrow> int \<Rightarrow> (int \<Rightarrow> int list) \<Rightarrow> int list \<Rightarrow> bool" where
  "within P n f free \<longleftrightarrow> (\<forall>x\<in>set free. P x) \<and> (\<forall>e. 0 \<le> e \<and> e < n \<longrightarrow> (\<forall>x\<in>set (f e). P x))"

definition who_ok :: "layout \<Rightarrow> lfs \<Rightarrow> bool" where
  "who_ok lay d \<longleftrightarrow>
     (\<forall>e k. who lay e = Some k \<longrightarrow> 0 \<le> e \<and> e < lfd_nfiles (lf_dir d) \<and> 0 \<le> k \<and> k < Nlfl \<and>
        lfstate (lfltab d k) = LF_USED \<and> lfdirptr (lfltab d k) = e) \<and>
     (\<forall>k. 0 \<le> k \<and> k < Nlfl \<and> lfstate (lfltab d k) = LF_USED \<longrightarrow> who lay (lfdirptr (lfltab d k)) = Some k)"

definition fs_rep :: "int \<Rightarrow> layout \<Rightarrow> lfs \<Rightarrow> (int \<Rightarrow> int list) \<Rightarrow> bool" where
  "fs_rep K lay d files \<longleftrightarrow> isectors K \<and> lf_dirpresent d \<and> 0 \<le> lfd_nfiles (lf_dir d) \<and> lfd_nfiles (lf_dir d) \<le> 20 \<and>
     (\<forall>e. 0 \<le> e \<and> e < 20 \<longrightarrow> length (ld_name (entry d e)) = 16) \<and>
     apart_lists (lfd_nfiles (lf_dir d)) (ibs lay) (ifree lay) \<and> within (ivalid K) (lfd_nfiles (lf_dir d)) (ibs lay) (ifree lay) \<and>
     apart_lists (lfd_nfiles (lf_dir d)) (dbs lay) (dfree lay) \<and> within (dvalid K) (lfd_nfiles (lf_dir d)) (dbs lay) (dfree lay) \<and>
     ichain (ibof (ram d)) (lfd_ifree (lf_dir d)) (ifree lay) \<and> dchain (dbof (ram d)) (lfd_dfree (lf_dir d)) (dfree lay) \<and>
     who_ok lay d \<and>
     (\<forall>e. 0 \<le> e \<and> e < lfd_nfiles (lf_dir d) \<longrightarrow>
        file_ok (ram d) (entry d e) (map_option (lfltab d) (who lay e)) (ibs lay e) (dbs lay e) (files e))"

section \<open>Frames\<close>

lemma ichain_cong: "(\<And>i. i \<in> set is \<Longrightarrow> ib_next (iv' i) = ib_next (iv i)) \<Longrightarrow> ichain iv' p is = ichain iv p is"
  by (induction "is" arbitrary: p) auto

lemma dchain_cong: "(\<And>b. b \<in> set bs \<Longrightarrow> dv' b = dv b) \<Longrightarrow> dchain dv' p bs = dchain dv p bs"
  by (induction bs arbitrary: p) auto

lemma ichain_snoc: "ichain iv p (xs @ [i]) \<Longrightarrow> ib_next (iv i) = LF_INULL"
  by (induction xs arbitrary: p) auto

lemma ichain_nth: "ichain iv p is \<Longrightarrow> Suc n < length is \<Longrightarrow> ib_next (iv (is ! n)) = is ! Suc n"
proof (induction "is" arbitrary: p n)
  case (Cons i "is")
  then show ?case
  proof (cases n)
    case 0
    then show ?thesis using Cons.prems by (cases "is") auto
  qed auto
qed simp

lemma ichain_last: "ichain iv p is \<Longrightarrow> Suc n = length is \<Longrightarrow> ib_next (iv (is ! n)) = LF_INULL"
  using ichain_snoc[of iv p "butlast is" "last is"] by (cases "is" rule: rev_cases) auto

lemma ichain_hd: "ichain iv p is \<Longrightarrow> is \<noteq> [] \<Longrightarrow> p = is ! 0"
  by (cases "is") auto

lemma block_index: "i < length xs \<Longrightarrow> length xs \<le> 512 * length ds \<Longrightarrow> i div 512 < length (ds :: int list)"
  by (simp add: less_mult_imp_div_less mult.commute)

lemma file_ok_views:
  assumes f: "file_ok M ent oc is ds xs" and i: "\<forall>i\<in>set is. iview M' oc' i = iview M oc i"
    and b: "\<forall>j<length xs. dview M' oc' (ds ! (j div 512)) ! (j mod 512) = dview M oc (ds ! (j div 512)) ! (j mod 512)"
    and c: "case oc' of Some c \<Rightarrow> cache_ok M' c is ds xs | None \<Rightarrow> True"
  shows "file_ok M' ent oc' is ds xs"
proof -
  have ch: "ichain (iview M' oc') (ld_ilist ent) is = ichain (iview M oc) (ld_ilist ent) is"
    by (rule ichain_cong) (simp add: i)
  have nth: "\<forall>n<length is. iview M' oc' (is ! n) = iview M oc (is ! n)" using i by simp
  show ?thesis
    using f unfolding file_ok_def ch
    apply (elim conjE)
    apply (intro conjI)
    subgoal .
    subgoal premises p using p(2) nth by metis
    subgoal .
    subgoal .
    subgoal .
    subgoal premises p using p(6) b by metis
    subgoal .
    subgoal by (rule c)
    done
qed

lemma cache_ok_frame:
  assumes "cache_ok M c is ds xs" "length xs \<le> 512 * length ds" "\<forall>i\<in>set is. ibof M' i = ibof M i" "\<forall>b\<in>set ds. dbof M' b = dbof M b"
  shows "cache_ok M' c is ds xs"
proof -
  have "dbof M' (lfdnum c) = dbof M (lfdnum c)" if "j < length xs" "ds ! (j div 512) = lfdnum c" for j
    using assms(4) block_index[OF that(1) assms(2)] that(2) by (metis nth_mem)
  then show ?thesis using assms(1,3) unfolding cache_ok_def by (simp split: if_splits)
qed

lemma file_ok_frame:
  assumes f: "file_ok M ent oc is ds xs" and i: "\<forall>i\<in>set is. ibof M' i = ibof M i" and b: "\<forall>b\<in>set ds. dbof M' b = dbof M b"
  shows "file_ok M' ent oc is ds xs"
proof (rule file_ok_views[OF f])
  have l: "length xs \<le> 512 * length ds" and c: "\<And>c. oc = Some c \<Longrightarrow> cache_ok M c is ds xs" using f by (simp_all add: file_ok_def)
  show "\<forall>i\<in>set is. iview M' oc i = iview M oc i" using i by (simp add: iview_def split: option.split)
  show "\<forall>j<length xs. dview M' oc (ds ! (j div 512)) ! (j mod 512) = dview M oc (ds ! (j div 512)) ! (j mod 512)"
    using b block_index[OF _ l] by (simp add: dview_def split: option.split)
  show "case oc of Some c \<Rightarrow> cache_ok M' c is ds xs | None \<Rightarrow> True"
    using c cache_ok_frame[OF _ l i b] by (simp split: option.split)
qed

section \<open>One open file\<close>

text \<open>
  An open file takes its blocks from the free lists: with \<open>I\<close> the index blocks of the file followed by
  the free ones, \<open>m\<close> of them are the file's, and likewise \<open>n\<close> of the data blocks \<open>D\<close>.
\<close>

abbreviation ent_of :: "lfs \<Rightarrow> int \<Rightarrow> ldentry" where
  "ent_of d k \<equiv> entry d (lfdirptr (lfltab d k))"

definition names_ok :: "lfs \<Rightarrow> bool" where
  "names_ok d \<longleftrightarrow> (\<forall>e. 0 \<le> e \<and> e < 20 \<longrightarrow> length (ld_name (entry d e)) = 16)"

definition blocks_ok :: "int \<Rightarrow> int list \<Rightarrow> int list \<Rightarrow> nat \<Rightarrow> nat \<Rightarrow> bool" where
  "blocks_ok K I D m n \<longleftrightarrow> isectors K \<and> distinct I \<and> (\<forall>i\<in>set I. ivalid K i) \<and> distinct D \<and> (\<forall>b\<in>set D. dvalid K b) \<and>
     m \<le> length I \<and> n \<le> length D"

definition free_ok :: "int list \<Rightarrow> int list \<Rightarrow> lfs \<Rightarrow> bool" where
  "free_ok fi fd d \<longleftrightarrow> ichain (ibof (ram d)) (lfd_ifree (lf_dir d)) fi \<and> dchain (dbof (ram d)) (lfd_dfree (lf_dir d)) fd"

definition file_rep :: "int \<Rightarrow> int list \<Rightarrow> int list \<Rightarrow> nat \<Rightarrow> nat \<Rightarrow> lfs \<Rightarrow> int \<Rightarrow> int list \<Rightarrow> bool" where
  "file_rep K I D m n d k xs \<longleftrightarrow> blocks_ok K I D m n \<and> names_ok d \<and> free_ok (drop m I) (drop n D) d \<and>
     file_ok (ram d) (ent_of d k) (Some (lfltab d k)) (take m I) (take n D) xs"

text \<open>What an operation on the file of control block \<open>k\<close> leaves as it was.\<close>

definition change :: "int \<Rightarrow> int list \<Rightarrow> int list \<Rightarrow> int \<Rightarrow> lfs \<Rightarrow> lfs \<Rightarrow> bool" where
  "change K I D k d d' \<longleftrightarrow> lf_mutex d' = lf_mutex d \<and> lf_dirpresent d' = lf_dirpresent d \<and> lfd_nfiles (lf_dir d') = lfd_nfiles (lf_dir d) \<and>
     (\<forall>e. e \<noteq> lfdirptr (lfltab d k) \<longrightarrow> entry d' e = entry d e) \<and> (\<forall>k'. k' \<noteq> k \<longrightarrow> lfltab d' k' = lfltab d k') \<and>
     lfstate (lfltab d' k) = lfstate (lfltab d k) \<and> lfdirptr (lfltab d' k) = lfdirptr (lfltab d k) \<and>
     lfmutex (lfltab d' k) = lfmutex (lfltab d k) \<and> ld_name (ent_of d' k) = ld_name (ent_of d k) \<and>
     (\<forall>i. ivalid K i \<and> i \<notin> set I \<longrightarrow> ibof (ram d') i = ibof (ram d) i) \<and>
     (\<forall>b. dvalid K b \<and> b \<notin> set D \<longrightarrow> dbof (ram d') b = dbof (ram d) b)"

lemma change_refl [simp]: "change K I D k d d"
  by (simp add: change_def)

lemma change_trans: "change K I D k d d' \<Longrightarrow> change K I D k d' d'' \<Longrightarrow> change K I D k d d''"
  unfolding change_def by (elim conjE, intro conjI) simp_all

lemma change_names: "change K I D k d d' \<Longrightarrow> names_ok d \<Longrightarrow> names_ok d'"
  unfolding change_def names_ok_def by metis

section \<open>From one open file to all files\<close>

definition give :: "layout \<Rightarrow> int \<Rightarrow> int list \<Rightarrow> int list \<Rightarrow> nat \<Rightarrow> nat \<Rightarrow> layout" where
  "give lay e I D m n = lay\<lparr>ibs := (ibs lay)(e := take m I), dbs := (dbs lay)(e := take n D), ifree := drop m I, dfree := drop n D\<rparr>"

abbreviation ipool :: "layout \<Rightarrow> int \<Rightarrow> int list" where
  "ipool lay e \<equiv> ibs lay e @ ifree lay"

abbreviation dpool :: "layout \<Rightarrow> int \<Rightarrow> int list" where
  "dpool lay e \<equiv> dbs lay e @ dfree lay"

lemma who_ok_range: "who_ok lay d \<Longrightarrow> who lay e = Some k \<Longrightarrow>
  0 \<le> e \<and> e < lfd_nfiles (lf_dir d) \<and> 0 \<le> k \<and> k < Nlfl \<and> lfstate (lfltab d k) = LF_USED \<and> lfdirptr (lfltab d k) = e"
  unfolding who_ok_def by blast

lemma fs_rep_open:
  assumes r: "fs_rep K lay d files" and e: "who lay e = Some k"
  shows "file_rep K (ipool lay e) (dpool lay e) (length (ibs lay e)) (length (dbs lay e)) d k (files e)"
proof -
  have w: "0 \<le> e" "e < lfd_nfiles (lf_dir d)" "lfdirptr (lfltab d k) = e" using who_ok_range e r by (auto simp: fs_rep_def)
  then have f: "file_ok (ram d) (entry d e) (Some (lfltab d k)) (ibs lay e) (dbs lay e) (files e)" using r e by (auto simp: fs_rep_def)
  have "blocks_ok K (ipool lay e) (dpool lay e) (length (ibs lay e)) (length (dbs lay e))"
    using r w unfolding fs_rep_def blocks_ok_def apart_lists_def within_def by auto
  then show ?thesis using r w f by (simp add: file_rep_def fs_rep_def names_ok_def free_ok_def)
qed

lemma apart_give:
  assumes a: "apart_lists n f free" and e: "0 \<le> e" "e < n" and I: "distinct I" "set I = set (f e) \<union> set free"
  shows "apart_lists n (f(e := take m I)) (drop m I)"
proof -
  have sub: "set (take m I) \<subseteq> set (f e) \<union> set free" "set (drop m I) \<subseteq> set (f e) \<union> set free"
    using I(2) set_take_subset[of m I] set_drop_subset[of m I] by auto
  have "set (take m I) \<inter> set (drop m I) = {}" using I(1) by (metis append_take_drop_id distinct_append)
  moreover have "set (f e') \<inter> (set (f e) \<union> set free) = {}" if "0 \<le> e'" "e' < n" "e' \<noteq> e" for e'
    using a e that unfolding apart_lists_def by (metis Int_Un_distrib Un_empty)
  ultimately show ?thesis using a sub I(1) unfolding apart_lists_def by (auto simp: fun_upd_apply) blast+
qed

lemma within_give:
  assumes "within P n f free" "0 \<le> e" "e < n" "set I = set (f e) \<union> set free"
  shows "within P n (f(e := take m I)) (drop m I)"
  using assms set_take_subset[of m I] set_drop_subset[of m I] unfolding within_def by (auto simp: fun_upd_apply)

text \<open>An operation on one open file keeps the representation of the others.\<close>

lemma fs_rep_file:
  assumes r: "fs_rep K lay d files" and e: "who lay e = Some k" and c: "change K (ipool lay e) (dpool lay e) k d d'"
    and I: "set I = set (ipool lay e)" and D: "set D = set (dpool lay e)" and f: "file_rep K I D m n d' k xs"
  shows "fs_rep K (give lay e I D m n) d' (files(e := xs))"
proof -
  let ?n = "lfd_nfiles (lf_dir d)"
  have w: "who_ok lay d" using r by (simp add: fs_rep_def)
  note we = who_ok_range[OF w e]
  have apart: "apart_lists ?n (ibs lay) (ifree lay)" "apart_lists ?n (dbs lay) (dfree lay)"
    and inside: "within (ivalid K) ?n (ibs lay) (ifree lay)" "within (dvalid K) ?n (dbs lay) (dfree lay)" using r by (simp_all add: fs_rep_def)
  have st: "lfstate (lfltab d' k') = lfstate (lfltab d k')" "lfdirptr (lfltab d' k') = lfdirptr (lfltab d k')" for k'
    using c by (cases "k' = k"; simp add: change_def)+
  have n: "lfd_nfiles (lf_dir d') = ?n" using c by (simp add: change_def)
  have w': "who_ok (give lay e I D m n) d'" using w unfolding who_ok_def st n by (simp add: give_def)
  have other: "file_ok (ram d') (entry d' e') (map_option (lfltab d') (who lay e')) (ibs lay e') (dbs lay e') (files e')"
    if e': "0 \<le> e'" "e' < ?n" "e' \<noteq> e" for e'
  proof -
    have "map_option (lfltab d') (who lay e') = map_option (lfltab d) (who lay e')"
    proof (cases "who lay e'")
      case (Some k')
      then have "k' \<noteq> k" using who_ok_range[OF w Some] we e'(3) by auto
      then show ?thesis using Some c by (simp add: change_def)
    qed simp
    moreover have "entry d' e' = entry d e'" using c we e'(3) by (simp add: change_def)
    moreover have "file_ok (ram d) (entry d e') (map_option (lfltab d) (who lay e')) (ibs lay e') (dbs lay e') (files e')"
      using r e' by (simp add: fs_rep_def)
    moreover have "\<forall>i\<in>set (ibs lay e'). ibof (ram d') i = ibof (ram d) i"
      using c apart(1) inside(1) we e' unfolding change_def apart_lists_def within_def by (metis Un_iff disjoint_iff set_append)
    moreover have "\<forall>b\<in>set (dbs lay e'). dbof (ram d') b = dbof (ram d) b"
      using c apart(2) inside(2) we e' unfolding change_def apart_lists_def within_def by (metis Un_iff disjoint_iff set_append)
    ultimately show ?thesis using file_ok_frame by metis
  qed
  have b: "blocks_ok K I D m n" and fr: "free_ok (drop m I) (drop n D) d'" and nm: "names_ok d'"
    and fe: "file_ok (ram d') (entry d' e) (Some (lfltab d' k)) (take m I) (take n D) xs"
    using f st(2)[of k] we by (simp_all add: file_rep_def)
  have all: "file_ok (ram d') (entry d' e') (map_option (lfltab d') (who lay e')) (((ibs lay)(e := take m I)) e')
      (((dbs lay)(e := take n D)) e') ((files(e := xs)) e')" if "0 \<le> e'" "e' < ?n" for e'
    using other[OF that] fe e by (cases "e' = e") simp_all
  have sets: "set I = set (ibs lay e) \<union> set (ifree lay)" "set D = set (dbs lay e) \<union> set (dfree lay)" using I D by simp_all
  have d: "distinct I" "distinct D" using b by (simp_all add: blocks_ok_def)
  note lists = apart_give[OF apart(1) _ _ d(1) sets(1)] apart_give[OF apart(2) _ _ d(2) sets(2)]
    within_give[OF inside(1) _ _ sets(1)] within_give[OF inside(2) _ _ sets(2)]
  show ?thesis
    using r all w' lists we nm fr n c unfolding fs_rep_def
    by (simp add: give_def names_ok_def free_ok_def change_def)
qed

end
