(* ===== verification/Lfs_Setup.thy ===== *)
theory Lfs_Setup
  imports Lfs_Rep
begin

text \<open>
  The steps that bring the blocks of a position into memory: each keeps the representation of the file,
  possibly with one more block of the free lists.
\<close>

section \<open>Facts of a represented file\<close>

lemma file_rep_blocks:
  assumes "file_rep K I D m n d k xs"
  shows "isectors K" "distinct I" "distinct D" "m \<le> length I" "n \<le> length D"
    and "\<And>i. i \<in> set I \<Longrightarrow> ivalid K i" "\<And>b. b \<in> set D \<Longrightarrow> dvalid K b"
    and "\<And>j. j < m \<Longrightarrow> ivalid K (I ! j)" "\<And>j. j < n \<Longrightarrow> dvalid K (D ! j)"
  using assms by (auto simp: file_rep_def blocks_ok_def)

lemma file_rep_file:
  assumes "file_rep K I D m n d k xs"
  shows "file_ok (ram d) (ent_of d k) (Some (lfltab d k)) (take m I) (take n D) xs"
    and "length (take m I) = m" "length (take n D) = n"
  using assms by (simp_all add: file_rep_def blocks_ok_def)

lemma file_rep_cache:
  assumes "file_rep K I D m n d k xs"
  shows "cache_ok (ram d) (lfltab d k) (take m I) (take n D) xs" "n \<le> 16 * m" "length xs \<le> 512 * n"
    "ld_size (ent_of d k) = int (length xs)" "\<forall>x\<in>set xs. 0 \<le> x \<and> x < 256"
    "0 \<le> lfpos (lfltab d k)" "lfpos (lfltab d k) \<le> int (length xs)" "length (lfdblock (lfltab d k)) = 512"
  using file_rep_file(1)[OF assms] unfolding file_ok_def file_rep_file(2,3)[OF assms] by (simp_all add: cache_ok_def)

lemma file_rep_byte:
  assumes "file_rep K I D m n d k xs" "i < length xs"
  shows "i div 512 < n" "dview (ram d) (Some (lfltab d k)) (D ! (i div 512)) ! (i mod 512) = xs ! i"
proof -
  show n: "i div 512 < n" using file_rep_cache(3)[OF assms(1)] assms(2) by (simp add: less_mult_imp_div_less mult.commute)
  have "dview (ram d) (Some (lfltab d k)) (take n D ! (i div 512)) ! (i mod 512) = xs ! i"
    using file_rep_file(1)[OF assms(1)] assms(2) by (simp add: file_ok_def)
  then show "dview (ram d) (Some (lfltab d k)) (D ! (i div 512)) ! (i mod 512) = xs ! i" using n by simp
qed

lemma file_rep_count:
  assumes "file_rep K I D m n d k xs"
  shows "length I \<le> 1400"
proof -
  note B = file_rep_blocks[OF assms]
  have "set I \<subseteq> {0..<1400}" using B(1,6) by (force simp: ivalid_def isectors_def)
  then have "card (set I) \<le> card {0::int..<1400}" by (intro card_mono) simp_all
  then show ?thesis using B(2) by (simp add: distinct_card)
qed

lemma file_rep_ib:
  assumes r: "file_rep K I D m n d k xs" and j: "j < m"
  defines "ib \<equiv> iview (ram d) (Some (lfltab d k)) (I ! j)"
  shows "ib_offset ib = 8192 * int j" "ib_dba ib = dba_at (take n D) j"
    and "ib_next ib = (if Suc j < m then I ! Suc j else LF_INULL)" "wf_ib ib"
proof -
  note B = file_rep_blocks[OF r]
  have f: "file_ok (ram d) (ent_of d k) (Some (lfltab d k)) (take m I) (take n D) xs" using r by (simp add: file_rep_def)
  have ch: "ichain (iview (ram d) (Some (lfltab d k))) (ld_ilist (ent_of d k)) (take m I)" using f by (simp add: file_ok_def)
  show off: "ib_offset ib = 8192 * int j" and dba: "ib_dba ib = dba_at (take n D) j"
    using f j B(4) unfolding file_ok_def ib_def by auto
  show nx: "ib_next ib = (if Suc j < m then I ! Suc j else LF_INULL)"
    using ichain_nth[OF ch, of j] ichain_last[OF ch, of j] j B(4) by (auto simp: ib_def)
  have range: "ivalid K i \<Longrightarrow> 0 \<le> i \<and> i < 1400" "dvalid K b \<Longrightarrow> 0 \<le> b \<and> b < 200" for i b
    using B(1) by (auto simp: ivalid_def dvalid_def isectors_def)
  have "ivalid K (I ! Suc j)" if "Suc j < m" using B(8) that by simp
  then have 1: "- 2147483648 \<le> ib_next ib" "ib_next ib < 2147483648" using nx range(1)[of "I ! Suc j"] by auto
  have "m \<le> 1400" using file_rep_count[OF r] B(4) by simp
  then have 2: "0 \<le> ib_offset ib" "ib_offset ib < 4294967296" using off j by simp_all
  have "- 2147483648 \<le> b \<and> b < 2147483648" if "b \<in> set (dba_at (take n D) j)" for b
  proof -
    have "b = LF_DNULL \<or> (\<exists>x<n. b = D ! x)" using that by (auto simp: dba_at_def split: if_splits)
    then show ?thesis using range(2)[OF B(9)] by force
  qed
  then show "wf_ib ib" using 1 2 dba by (simp add: wf_ib_def dba_at_def)
qed

lemma file_rep_cong:
  assumes r: "file_rep K I D m n d k xs" and s: "lfltab d' k = lfltab d k" "lf_dir d' = lf_dir d"
    and v: "\<And>i. ivalid K i \<Longrightarrow> ibof (ram d') i = ibof (ram d) i" "\<And>b. dvalid K b \<Longrightarrow> dbof (ram d') b = dbof (ram d) b"
  shows "file_rep K I D m n d' k xs"
proof -
  note B = file_rep_blocks[OF r]
  have "ichain (ibof (ram d')) p (drop m I) = ichain (ibof (ram d)) p (drop m I)" for p
    using B(6) v(1) by (intro ichain_cong) (metis in_set_dropD)
  moreover have "dchain (dbof (ram d')) p (drop n D) = dchain (dbof (ram d)) p (drop n D)" for p
    using B(7) v(2) by (intro dchain_cong) (metis in_set_dropD)
  moreover have "file_ok (ram d') (ent_of d k) (Some (lfltab d k)) (take m I) (take n D) xs"
  proof (rule file_ok_frame[OF file_rep_file(1)[OF r]])
    show "\<forall>i\<in>set (take m I). ibof (ram d') i = ibof (ram d) i" using B(6) v(1) by (metis in_set_takeD)
    show "\<forall>b\<in>set (take n D). dbof (ram d') b = dbof (ram d) b" using B(7) v(2) by (metis in_set_takeD)
  qed
  ultimately show ?thesis using r s by (simp add: file_rep_def names_ok_def free_ok_def)
qed

section \<open>Writing back\<close>

text \<open>The directory on the disk is that in memory, or is marked as old.\<close>

definition synced :: "lfs \<Rightarrow> bool" where
  "synced d \<longleftrightarrow> blk (ram d) 0 512 = enc_dir (lf_dir d)"

definition calm :: "lfs \<Rightarrow> lfs \<Rightarrow> bool" where
  "calm d d' \<longleftrightarrow> lf_dir d' = lf_dir d \<and> (lf_dirdirty d \<or> synced d \<longrightarrow> lf_dirdirty d' \<or> synced d')"

lemma calm_refl [simp]: "calm d d"
  by (simp add: calm_def)

lemma calm_trans: "calm d d' \<Longrightarrow> calm d' d'' \<Longrightarrow> calm d d''"
  unfolding calm_def by auto

lemma calm_ram: "lf_dir d' = lf_dir d \<Longrightarrow> lf_dirdirty d' = lf_dirdirty d \<Longrightarrow> blk (ram d') 0 512 = blk (ram d) 0 512 \<Longrightarrow> calm d d'"
  by (simp add: calm_def synced_def)

lemma upc_simps [simp]:
  "lfltab (upc k f d) = (lfltab d)(k := f (lfltab d k))" "ram (upc k f d) = ram d" "lf_dir (upc k f d) = lf_dir d"
  "lf_mutex (upc k f d) = lf_mutex d" "lf_dirpresent (upc k f d) = lf_dirpresent d" "lf_dirdirty (upc k f d) = lf_dirdirty d"
  by (simp_all add: upc_def)

lemma calm_upc [simp]: "calm d (upc k f d)"
  by (simp add: calm_ram)

lemma write_dir_eq: "write_dir d = Some (d\<lparr>ram := putb 0 (enc_dir (lf_dir d)) (ram d)\<rparr>)"
  unfolding write_dir_def upram_def ramwrite_dir by simp

lemma write_dir_frame:
  assumes "names_ok d" "isectors K"
  shows "ivalid K i \<Longrightarrow> ibof (putb 0 (enc_dir (lf_dir d)) M) i = ibof M i"
    and "dvalid K b \<Longrightarrow> dbof (putb 0 (enc_dir (lf_dir d)) M) b = dbof M b"
  using put_dir_other[OF length_enc_dir assms(2)] assms(1) by (simp_all add: names_ok_def)

lemma flush_dir_rep:
  assumes "file_rep K I D m n d k xs"
  shows "\<exists>d'. flush_dir d = Some d' \<and> file_rep K I D m n d' k xs \<and> change K I D k d d' \<and> lfltab d' k = lfltab d k \<and>
    calm d d' \<and> (\<not> lf_dirdirty d' \<and> (lf_dirdirty d \<or> synced d \<longrightarrow> synced d'))"
proof -
  have f: "names_ok d" "isectors K" using assms by (simp_all add: file_rep_def blocks_ok_def)
  note w = write_dir_frame[OF this]
  show ?thesis
    using w file_rep_cong[OF assms, of "d\<lparr>ram := putb 0 (enc_dir (lf_dir d)) (ram d), lf_dirdirty := False\<rparr>"] assms
      blk_putb[of 0 "enc_dir (lf_dir d)" "ram d"] length_enc_dir f(1)
    by (auto simp: flush_dir_def write_dir_eq change_def calm_def synced_def names_ok_def)
qed

lemma free_ok_frame:
  assumes "free_ok fi fd d" "lfd_ifree (lf_dir d') = lfd_ifree (lf_dir d)" "lfd_dfree (lf_dir d') = lfd_dfree (lf_dir d)"
    and "\<And>i. i \<in> set fi \<Longrightarrow> ibof (ram d') i = ibof (ram d) i" "\<And>b. b \<in> set fd \<Longrightarrow> dbof (ram d') b = dbof (ram d) b"
  shows "free_ok fi fd d'"
  using assms ichain_cong[of fi "ibof (ram d')" "ibof (ram d)"] dchain_cong[of fd "dbof (ram d')" "dbof (ram d)"]
  by (simp add: free_ok_def)

text \<open>A change of the control block and of blocks of the file alone.\<close>

lemma file_rep_views:
  assumes r: "file_rep K I D m n d k xs" and dir: "lf_dir d' = lf_dir d" "lfdirptr (lfltab d' k) = lfdirptr (lfltab d k)"
    and free: "\<And>i. i \<in> set (drop m I) \<Longrightarrow> ibof (ram d') i = ibof (ram d) i" "\<And>b. b \<in> set (drop n D) \<Longrightarrow> dbof (ram d') b = dbof (ram d) b"
    and ib: "\<And>i. i \<in> set (take m I) \<Longrightarrow> iview (ram d') (Some (lfltab d' k)) i = iview (ram d) (Some (lfltab d k)) i"
    and db: "\<And>j. j < length xs \<Longrightarrow> dview (ram d') (Some (lfltab d' k)) (D ! (j div 512)) ! (j mod 512) =
        dview (ram d) (Some (lfltab d k)) (D ! (j div 512)) ! (j mod 512)"
    and c: "cache_ok (ram d') (lfltab d' k) (take m I) (take n D) xs"
  shows "file_rep K I D m n d' k xs"
proof -
  have "file_ok (ram d') (ent_of d k) (Some (lfltab d' k)) (take m I) (take n D) xs"
  proof (rule file_ok_views[OF file_rep_file(1)[OF r]])
    show "\<forall>j<length xs. dview (ram d') (Some (lfltab d' k)) (take n D ! (j div 512)) ! (j mod 512) =
        dview (ram d) (Some (lfltab d k)) (take n D ! (j div 512)) ! (j mod 512)"
      using db file_rep_byte(1)[OF r] by simp
  qed (use ib c in simp_all)
  moreover have "free_ok (drop m I) (drop n D) d" using r by (simp add: file_rep_def)
  then have "free_ok (drop m I) (drop n D) d'" by (rule free_ok_frame) (simp_all add: free dir(1))
  ultimately show ?thesis using r dir by (simp add: file_rep_def names_ok_def)
qed

lemma distinct_take_drop: "distinct xs \<Longrightarrow> x \<in> set (take n xs) \<Longrightarrow> x \<in> set (drop n xs) \<Longrightarrow> False"
  by (metis append_take_drop_id disjoint_iff distinct_append)

lemma flush_db_rep:
  assumes r: "file_rep K I D m n d k xs"
  shows "\<exists>d'. flush_db k d = Some d' \<and> file_rep K I D m n d' k xs \<and> change K I D k d d' \<and>
    lfltab d' k = (lfltab d k)\<lparr>lfdbdirty := False\<rparr> \<and> lf_dirdirty d' = lf_dirdirty d \<and> calm d d'"
proof (cases "lfdbdirty (lfltab d k)")
  case True
  define c where "c = lfltab d k"
  let ?b = "lfdnum c"
  let ?d' = "upc k (\<lambda>c. c\<lparr>lfdbdirty := False\<rparr>) (d\<lparr>ram := putb (512 * ?b) (lfdblock c) (ram d)\<rparr>)"
  note B = file_rep_blocks[OF r]
  note C = file_rep_cache[OF r, folded c_def]
  have b: "?b \<in> set (take n D)" using C(1) True by (simp add: cache_ok_def c_def split: if_splits)
  then have v: "dvalid K ?b" using B(7) by (meson in_set_takeD)
  have db: "dbof (ram ?d') x = (if x = ?b then lfdblock c else dbof (ram d) x)" for x using dbof_put_db[OF C(8)] by simp
  have ib: "ibof (ram ?d') i = ibof (ram d) i" if "ivalid K i" for i using ibof_put_db[OF that v B(1)] by simp
  have r': "file_rep K I D m n ?d' k xs"
  proof (rule file_rep_views[OF r])
    show "b \<in> set (drop n D) \<Longrightarrow> dbof (ram ?d') b = dbof (ram d) b" for b using db distinct_take_drop[OF B(3) b] by auto
    show "i \<in> set (drop m I) \<Longrightarrow> ibof (ram ?d') i = ibof (ram d) i" for i using ib B(6) by (meson in_set_dropD)
    show "iview (ram ?d') (Some (lfltab ?d' k)) i = iview (ram d) (Some (lfltab d k)) i" if "i \<in> set (take m I)" for i
      using ib B(6) in_set_takeD[OF that] by (simp add: iview_def)
    show "dview (ram ?d') (Some (lfltab ?d' k)) (D ! (j div 512)) ! (j mod 512) =
        dview (ram d) (Some (lfltab d k)) (D ! (j div 512)) ! (j mod 512)" for j
      using db by (simp add: dview_def c_def)
    have "lfdblock c ! (j mod 512) = xs ! j" if "j < length xs" "take n D ! (j div 512) = ?b" for j
      using file_rep_byte[OF r that(1)] that(2) by (simp add: dview_def c_def)
    moreover have "\<not> lfibdirty c \<Longrightarrow> lfinum c \<in> set (take m I) \<Longrightarrow> ibof (ram ?d') (lfinum c) = ibof (ram d) (lfinum c)"
      using ib B(6) in_set_takeD by metis
    ultimately show "cache_ok (ram ?d') (lfltab ?d' k) (take m I) (take n D) xs"
      using C(1) b db[of ?b] unfolding cache_ok_def c_def by (simp add: at_pos_def split: if_splits)
  qed simp_all
  have "512 \<le> 512 * ?b" using v B(1) by (simp add: dvalid_def isectors_def)
  then have "calm d ?d'" by (intro calm_ram) (simp_all add: blk_putb_other)
  moreover have "change K I D k d ?d'" using db ib b by (auto simp: change_def dest: in_set_takeD)
  moreover have "flush_db k d = Some ?d'" using True ramwrite_eq[OF v B(1)] by (simp add: flush_db_def upram_def c_def Let_def)
  ultimately show ?thesis using r' by (auto simp: c_def)
qed (use r in \<open>simp add: flush_db_def Let_def\<close>)

lemma flush_ib_rep:
  assumes r: "file_rep K I D m n d k xs"
  shows "\<exists>d'. flush_ib k d = Some d' \<and> file_rep K I D m n d' k xs \<and> change K I D k d d' \<and>
    lfltab d' k = (lfltab d k)\<lparr>lfibdirty := False\<rparr> \<and> lf_dirdirty d' = lf_dirdirty d \<and> calm d d'"
proof (cases "lfibdirty (lfltab d k)")
  case True
  define c where "c = lfltab d k"
  let ?i = "lfinum c"
  let ?d' = "upc k (\<lambda>c. c\<lparr>lfibdirty := False\<rparr>) (d\<lparr>ram := putb (ibaddr ?i) (enc_ib (lfiblock c)) (ram d)\<rparr>)"
  note B = file_rep_blocks[OF r]
  note C = file_rep_cache[OF r, folded c_def]
  have i: "?i \<in> set (take m I)" using C(1) True by (simp add: cache_ok_def c_def split: if_splits)
  then have v: "ivalid K ?i" using B(6) by (meson in_set_takeD)
  obtain j where j: "j < m" "?i = I ! j" using i file_rep_file(2)[OF r] by (metis in_set_conv_nth nth_take)
  have w: "wf_ib (lfiblock c)" using file_rep_ib(4)[OF r j(1)] j(2) by (simp add: iview_def c_def)
  have "0 \<le> ?i" using v by (simp add: ivalid_def)
  then have ib: "ibof (ram ?d') x = (if x = ?i then lfiblock c else ibof (ram d) x)" if "ivalid K x" for x
    using that ibof_put_ib[of ?i x "lfiblock c" "ram d"] w by (simp add: ivalid_def)
  have db: "dbof (ram ?d') b = dbof (ram d) b" if "dvalid K b" for b
    using dbof_put_ib[OF v that B(1)] w by (simp add: wf_ib_def)
  have r': "file_rep K I D m n ?d' k xs"
  proof (rule file_rep_views[OF r])
    show "b \<in> set (drop n D) \<Longrightarrow> dbof (ram ?d') b = dbof (ram d) b" for b using db B(7) by (meson in_set_dropD)
    show "x \<in> set (drop m I) \<Longrightarrow> ibof (ram ?d') x = ibof (ram d) x" for x
      using ib B(6) distinct_take_drop[OF B(2) i] in_set_dropD by metis
    show "iview (ram ?d') (Some (lfltab ?d' k)) x = iview (ram d) (Some (lfltab d k)) x" if "x \<in> set (take m I)" for x
      using ib B(6) in_set_takeD[OF that] by (simp add: iview_def c_def)
    show "dview (ram ?d') (Some (lfltab ?d' k)) (D ! (x div 512)) ! (x mod 512) =
        dview (ram d) (Some (lfltab d k)) (D ! (x div 512)) ! (x mod 512)" if "x < length xs" for x
      using db B(9) file_rep_byte(1)[OF r that] by (simp add: dview_def)
    have "dbof (ram ?d') (lfdnum c) = dbof (ram d) (lfdnum c)" if "x < length xs" "take n D ! (x div 512) = lfdnum c" for x
      using db[OF B(9)[OF file_rep_byte(1)[OF r that(1)]]] file_rep_byte(1)[OF r that(1)] that(2) by simp
    then show "cache_ok (ram ?d') (lfltab ?d' k) (take m I) (take n D) xs"
      using C(1) i ib[OF v] unfolding cache_ok_def c_def by (simp add: at_pos_def split: if_splits)
  qed simp_all
  have "calm d ?d'" using ibaddr_range[OF v B(1)] by (intro calm_ram) (simp_all add: blk_putb_other)
  moreover have "change K I D k d ?d'" using db ib i by (auto simp: change_def dest: in_set_takeD)
  moreover have "flush_ib k d = Some ?d'" using True lfibput_eq[OF v B(1)] w
    by (simp add: flush_ib_def upram_def c_def Let_def wf_ib_def)
  ultimately show ?thesis using r' by (auto simp: c_def)
qed (use r in \<open>simp add: flush_ib_def Let_def\<close>)

lemma lfflush_rep:
  assumes r: "file_rep K I D m n d k xs" and u: "lfstate (lfltab d k) = LF_USED"
  shows "\<exists>d'. lfflush k d = Some (OK, d') \<and> file_rep K I D m n d' k xs \<and> change K I D k d d' \<and>
    lfltab d' k = (lfltab d k)\<lparr>lfibdirty := False, lfdbdirty := False\<rparr> \<and> calm d d' \<and>
    \<not> lf_dirdirty d' \<and> (lf_dirdirty d \<or> synced d \<longrightarrow> synced d')"
proof -
  obtain d1 where 1: "flush_dir d = Some d1" "file_rep K I D m n d1 k xs" "change K I D k d d1" "lfltab d1 k = lfltab d k"
    "calm d d1" "\<not> lf_dirdirty d1" "lf_dirdirty d \<or> synced d \<longrightarrow> synced d1"
    using flush_dir_rep[OF r] by blast
  obtain d2 where 2: "flush_db k d1 = Some d2" "file_rep K I D m n d2 k xs" "change K I D k d1 d2"
    "lfltab d2 k = (lfltab d1 k)\<lparr>lfdbdirty := False\<rparr>" "lf_dirdirty d2 = lf_dirdirty d1" "calm d1 d2"
    using flush_db_rep[OF 1(2)] by blast
  obtain d3 where 3: "flush_ib k d2 = Some d3" "file_rep K I D m n d3 k xs" "change K I D k d2 d3"
    "lfltab d3 k = (lfltab d2 k)\<lparr>lfibdirty := False\<rparr>" "lf_dirdirty d3 = lf_dirdirty d2" "calm d2 d3"
    using flush_ib_rep[OF 2(2)] by blast
  have "lfflush k d = Some (OK, d3)" using u 1(1) 2(1) 3(1) by (simp add: lfflush_def)
  moreover have "change K I D k d d3" using change_trans 1(3) 2(3) 3(3) by metis
  moreover have "lfltab d3 k = (lfltab d k)\<lparr>lfibdirty := False, lfdbdirty := False\<rparr>" using 3(4) 2(4) 1(4) by simp
  moreover have "calm d d3" "\<not> lf_dirdirty d3" using calm_trans 1(5,6) 2(5,6) 3(5,6) by metis+
  moreover have "lf_dirdirty d \<or> synced d \<longrightarrow> synced d3" using 1(6,7) 2(5,6) 3(5,6) by (auto simp: calm_def)
  ultimately show ?thesis using 3(2) by blast
qed

lemma clean_same: "\<not> (lfibdirty c \<or> lfdbdirty c) \<Longrightarrow> c\<lparr>lfibdirty := False, lfdbdirty := False\<rparr> = c"
  by (cases c) simp

lemma setup_flush_rep:
  assumes r: "file_rep K I D m n d k xs" and u: "lfstate (lfltab d k) = LF_USED"
  shows "\<exists>d'. setup_flush k d = Some d' \<and> file_rep K I D m n d' k xs \<and> change K I D k d d' \<and>
    lfltab d' k = (lfltab d k)\<lparr>lfibdirty := False, lfdbdirty := False\<rparr> \<and> calm d d'"
proof (cases "lfibdirty (lfltab d k) \<or> lfdbdirty (lfltab d k)")
  case True
  obtain d' where "lfflush k d = Some (OK, d')" "file_rep K I D m n d' k xs" "change K I D k d d'"
    "lfltab d' k = (lfltab d k)\<lparr>lfibdirty := False, lfdbdirty := False\<rparr>" "calm d d'"
    using lfflush_rep[OF r u] by blast
  then show ?thesis using True by (simp add: setup_flush_def)
next
  case False
  then show ?thesis using r clean_same[OF False] by (simp add: setup_flush_def)
qed

section \<open>Changing the blocks in memory\<close>

lemma clean_iview:
  assumes "file_rep K I D m n d k xs" "\<not> lfibdirty (lfltab d k)" "i \<in> set (take m I)"
  shows "iview (ram d) (Some (lfltab d k)) i = ibof (ram d) i"
proof -
  have "i \<noteq> LF_INULL" using file_rep_blocks(6)[OF assms(1) in_set_takeD[OF assms(3)]] by (auto simp: ivalid_def)
  then show ?thesis using file_rep_cache(1)[OF assms(1)] assms(2) by (auto simp: iview_def cache_ok_def split: if_splits)
qed

lemma clean_dview:
  assumes "file_rep K I D m n d k xs" "\<not> lfdbdirty (lfltab d k)" "j < length xs"
  shows "dbof (ram d) (D ! (j div 512)) ! (j mod 512) = xs ! j"
proof (cases "D ! (j div 512) = lfdnum (lfltab d k)")
  case True
  then show ?thesis using file_rep_cache(1)[OF assms(1)] assms(2,3) file_rep_byte(1)[OF assms(1,3)] by (auto simp: cache_ok_def)
next
  case False
  then show ?thesis using file_rep_byte(2)[OF assms(1,3)] by (simp add: dview_def)
qed

lemma load_ib_rep:
  assumes r: "file_rep K I D m n d k xs" and clean: "\<not> lfibdirty (lfltab d k)" and j: "j < m"
  defines "d' \<equiv> upc k (\<lambda>c. c\<lparr>lfiblock := ibof (ram d) (I ! j), lfinum := I ! j\<rparr>) d"
  shows "load_ib k (I ! j) d = Some d'" "file_rep K I D m n d' k xs" "change K I D k d d'"
    "ib_offset (lfiblock (lfltab d' k)) = 8192 * int j" "ib_dba (lfiblock (lfltab d' k)) = dba_at (take n D) j"
    "ib_next (lfiblock (lfltab d' k)) = (if Suc j < m then I ! Suc j else LF_INULL)"
proof -
  note B = file_rep_blocks[OF r]
  have i: "I ! j \<in> set (take m I)" using j B(4) by (metis in_set_conv_nth length_take min.absorb2 nth_take)
  have ne: "I ! j \<noteq> LF_INULL" using B(8)[OF j] by (simp add: ivalid_def)
  show "load_ib k (I ! j) d = Some d'" using lfibget_eq[OF B(8)[OF j] B(1)] by (simp add: load_ib_def d'_def)
  show "change K I D k d d'" by (auto simp: change_def d'_def)
  show "file_rep K I D m n d' k xs"
  proof (rule file_rep_views[OF r])
    show "iview (ram d') (Some (lfltab d' k)) x = iview (ram d) (Some (lfltab d k)) x" if "x \<in> set (take m I)" for x
      using clean_iview[OF r clean that] by (simp add: iview_def d'_def)
    show "cache_ok (ram d') (lfltab d' k) (take m I) (take n D) xs"
      using file_rep_cache(1)[OF r] i ne clean by (simp add: cache_ok_def d'_def at_pos_def)
  qed (simp_all add: d'_def dview_def)
  have "lfiblock (lfltab d' k) = iview (ram d) (Some (lfltab d k)) (I ! j)"
    using clean_iview[OF r clean i] by (simp add: d'_def)
  then show "ib_offset (lfiblock (lfltab d' k)) = 8192 * int j" "ib_dba (lfiblock (lfltab d' k)) = dba_at (take n D) j"
    "ib_next (lfiblock (lfltab d' k)) = (if Suc j < m then I ! Suc j else LF_INULL)"
    using file_rep_ib[OF r j] by simp_all
qed

lemma load_db_rep:
  assumes r: "file_rep K I D m n d k xs" and clean: "\<not> lfdbdirty (lfltab d k)" and byte: "lfbyte (lfltab d k) = 512"
    and b: "b = LF_DNULL \<or> b \<in> set (take n D) \<and> bl = dbof (ram d) b" "length bl = 512"
  defines "d' \<equiv> upc k (\<lambda>c. c\<lparr>lfdblock := bl, lfdbdirty := False, lfdnum := b\<rparr>) d"
  shows "file_rep K I D m n d' k xs" "change K I D k d d'"
proof -
  note B = file_rep_blocks[OF r]
  show "change K I D k d d'" by (auto simp: change_def d'_def)
  show "file_rep K I D m n d' k xs"
  proof (rule file_rep_views[OF r])
    fix j assume j: "j < length xs"
    have "D ! (j div 512) \<noteq> LF_DNULL" using B(1) B(9)[OF file_rep_byte(1)[OF r j]] by (auto simp: dvalid_def isectors_def)
    then show "dview (ram d') (Some (lfltab d' k)) (D ! (j div 512)) ! (j mod 512) =
        dview (ram d) (Some (lfltab d k)) (D ! (j div 512)) ! (j mod 512)"
      using b clean_dview[OF r clean j] file_rep_byte(2)[OF r j] by (auto simp: dview_def d'_def)
  next
    have "dbof (ram d) b ! (j mod 512) = xs ! j" if "j < length xs" "take n D ! (j div 512) = b" for j
      using clean_dview[OF r clean that(1)] file_rep_byte(1)[OF r that(1)] that(2) by simp
    moreover have "b \<noteq> LF_DNULL \<Longrightarrow> b \<in> set (take n D)" using b(1) by blast
    ultimately show "cache_ok (ram d') (lfltab d' k) (take m I) (take n D) xs"
      using file_rep_cache(1)[OF r] b(2) byte by (simp add: cache_ok_def d'_def)
  qed (simp_all add: d'_def iview_def)
qed

lemma drop_db_rep:
  assumes "file_rep K I D m n d k xs" "\<not> lfdbdirty (lfltab d k)" "lfbyte (lfltab d k) = 512"
  shows "file_rep K I D m n (upc k (\<lambda>c. c\<lparr>lfdnum := LF_DNULL\<rparr>) d) k xs" "change K I D k d (upc k (\<lambda>c. c\<lparr>lfdnum := LF_DNULL\<rparr>) d)"
proof -
  have "upc k (\<lambda>c. c\<lparr>lfdblock := lfdblock (lfltab d k), lfdbdirty := False, lfdnum := LF_DNULL\<rparr>) d = upc k (\<lambda>c. c\<lparr>lfdnum := LF_DNULL\<rparr>) d"
    using assms(2) by (cases "lfltab d k") (simp add: upc_def)
  then show "file_rep K I D m n (upc k (\<lambda>c. c\<lparr>lfdnum := LF_DNULL\<rparr>) d) k xs"
    "change K I D k d (upc k (\<lambda>c. c\<lparr>lfdnum := LF_DNULL\<rparr>) d)"
    using load_db_rep[OF assms, of LF_DNULL "lfdblock (lfltab d k)"] file_rep_cache(8)[OF assms(1)] by simp_all
qed

section \<open>Allocation\<close>

definition same_blocks :: "int \<Rightarrow> store \<Rightarrow> store \<Rightarrow> bool" where
  "same_blocks K M M' \<longleftrightarrow> (\<forall>i. ivalid K i \<longrightarrow> ibof M' i = ibof M i) \<and> (\<forall>b. dvalid K b \<longrightarrow> dbof M' b = dbof M b)"

lemma same_blocks_dir:
  "names_ok d \<Longrightarrow> isectors K \<Longrightarrow> same_blocks K M (putb 0 (enc_dir (lf_dir d)) M)"
  by (simp add: same_blocks_def write_dir_frame)

lemma free_ok_same:
  "free_ok fi fd d \<Longrightarrow> same_blocks K (ram d) (ram d') \<Longrightarrow> (\<forall>i\<in>set fi. ivalid K i) \<Longrightarrow> (\<forall>b\<in>set fd. dvalid K b) \<Longrightarrow>
    lfd_ifree (lf_dir d') = lfd_ifree (lf_dir d) \<Longrightarrow> lfd_dfree (lf_dir d') = lfd_dfree (lf_dir d) \<Longrightarrow> free_ok fi fd d'"
  by (rule free_ok_frame[of fi fd d]) (simp_all add: same_blocks_def)

lemma file_rep_free:
  assumes "file_rep K I D m n d k xs"
  shows "free_ok (drop m I) (drop n D) d" "\<forall>i\<in>set (drop m' I). ivalid K i" "\<forall>b\<in>set (drop n' D). dvalid K b" "names_ok d"
  using assms by (auto simp: file_rep_def blocks_ok_def dest: in_set_dropD)

lemma lfiballoc_rep:
  assumes r: "file_rep K I D m n d k xs" and m: "m < length I"
  obtains d' where "lfiballoc d = Some (I ! m, d')" "names_ok d'" "free_ok (drop (Suc m) I) (drop n D) d'"
    "same_blocks K (ram d) (ram d')" "change K I D k d d'" "lfltab d' = lfltab d" "lfd_files (lf_dir d') = lfd_files (lf_dir d)"
proof -
  note B = file_rep_blocks[OF r]
  note F = file_rep_free[OF r]
  have v: "ivalid K (I ! m)" using B(6) m by simp
  have c: "drop m I = I ! m # drop (Suc m) I" using m by (simp add: Cons_nth_drop_Suc)
  have head: "lfd_ifree (lf_dir d) = I ! m" "ichain (ibof (ram d)) (ib_next (ibof (ram d) (I ! m))) (drop (Suc m) I)"
    "dchain (dbof (ram d)) (lfd_dfree (lf_dir d)) (drop n D)"
    using F(1) by (simp_all add: free_ok_def c)
  let ?u = "updir (\<lambda>r. r\<lparr>lfd_ifree := ib_next (ibof (ram d) (I ! m))\<rparr>) d"
  let ?d = "(?u\<lparr>ram := putb 0 (enc_dir (lf_dir ?u)) (ram d)\<rparr>)\<lparr>lf_dirdirty := False\<rparr>"
  have nm: "names_ok ?u" "names_ok ?d" using F(4) by (simp_all add: names_ok_def updir_def)
  have s: "same_blocks K (ram d) (ram ?d)" using same_blocks_dir[OF nm(1) B(1)] by simp
  have "free_ok (drop (Suc m) I) (drop n D) ?u" using head by (simp add: free_ok_def updir_def)
  then have fr: "free_ok (drop (Suc m) I) (drop n D) ?d"
    by (rule free_ok_same[OF _ _ F(2) F(3)]) (use s in \<open>simp_all add: updir_def\<close>)
  have "lfiballoc d = Some (I ! m, ?d)"
    using v lfibget_eq[OF v B(1), of "ram d"] head(1) by (auto simp: lfiballoc_def write_dir_eq updir_def ivalid_def Let_def)
  then show ?thesis by (rule that) (use nm fr s in \<open>auto simp: change_def updir_def same_blocks_def\<close>)
qed

lemma lfdballoc_rep:
  assumes r: "file_rep K I D m n d k xs" and n: "n < length D"
  obtains d' where "lfdballoc d = Some (D ! n, replicate 512 43, d')" "names_ok d'" "free_ok (drop m I) (drop (Suc n) D) d'"
    "same_blocks K (ram d) (ram d')" "change K I D k d d'" "lfltab d' = lfltab d" "lfd_files (lf_dir d') = lfd_files (lf_dir d)"
proof -
  note B = file_rep_blocks[OF r]
  note F = file_rep_free[OF r]
  have v: "dvalid K (D ! n)" using B(7) n by simp
  have c: "drop n D = D ! n # drop (Suc n) D" using n by (simp add: Cons_nth_drop_Suc)
  have head: "lfd_dfree (lf_dir d) = D ! n" "dchain (dbof (ram d)) (i32 (wat (dbof (ram d) (D ! n)) 0)) (drop (Suc n) D)"
    "ichain (ibof (ram d)) (lfd_ifree (lf_dir d)) (drop m I)"
    using F(1) by (simp_all add: free_ok_def c)
  let ?u = "updir (\<lambda>r. r\<lparr>lfd_dfree := i32 (wat (dbof (ram d) (D ! n)) 0)\<rparr>) d"
  let ?d = "(?u\<lparr>ram := putb 0 (enc_dir (lf_dir ?u)) (ram d)\<rparr>)\<lparr>lf_dirdirty := False\<rparr>"
  have nm: "names_ok ?u" "names_ok ?d" using F(4) by (simp_all add: names_ok_def updir_def)
  have s: "same_blocks K (ram d) (ram ?d)" using same_blocks_dir[OF nm(1) B(1)] by simp
  have "free_ok (drop m I) (drop (Suc n) D) ?u" using head by (simp add: free_ok_def updir_def)
  then have fr: "free_ok (drop m I) (drop (Suc n) D) ?d"
    by (rule free_ok_same[OF _ _ F(2) F(3)]) (use s in \<open>simp_all add: updir_def\<close>)
  have "lfdballoc d = Some (D ! n, replicate 512 43, ?d)"
    using v B(1) ramread_eq[OF v B(1), of "ram d"] head(1) by (auto simp: lfdballoc_def write_dir_eq updir_def dvalid_def isectors_def Let_def)
  then show ?thesis by (rule that) (use nm fr s in \<open>auto simp: change_def updir_def same_blocks_def\<close>)
qed

section \<open>The first index block\<close>

lemma upent_simps [simp]:
  "lfltab (upent e f d) = lfltab d" "ram (upent e f d) = ram d" "lf_mutex (upent e f d) = lf_mutex d"
  "lf_dirpresent (upent e f d) = lf_dirpresent d" "lf_dirdirty (upent e f d) = lf_dirdirty d"
  "lfd_files (lf_dir (upent e f d)) = (lfd_files (lf_dir d))(e := f (entry d e))"
  "lfd_ifree (lf_dir (upent e f d)) = lfd_ifree (lf_dir d)" "lfd_dfree (lf_dir (upent e f d)) = lfd_dfree (lf_dir d)"
  "lfd_nfiles (lf_dir (upent e f d)) = lfd_nfiles (lf_dir d)"
  by (simp_all add: upent_def updir_def)

lemma same_change: "same_blocks K (ram d) (ram d') \<Longrightarrow> lf_dir d' = lf_dir d \<Longrightarrow> lf_mutex d' = lf_mutex d \<Longrightarrow>
    lf_dirpresent d' = lf_dirpresent d \<Longrightarrow> lfltab d' = lfltab d \<Longrightarrow> change K I D k d d'"
  by (simp add: change_def same_blocks_def)

definition new_ib :: "int \<Rightarrow> int \<Rightarrow> int \<Rightarrow> lfs \<Rightarrow> lfs" where
  "new_ib k off ibnum = upc k (\<lambda>c. c\<lparr>lfiblock := lfibclear off, lfibdirty := True, lfinum := ibnum\<rparr>)"

lemma first_alloc_rep:
  assumes r: "file_rep K I D 0 n d k xs" and I: "I \<noteq> []" and clean: "\<not> lfdbdirty (lfltab d k)" and byte: "lfbyte (lfltab d k) = 512"
  defines "e \<equiv> lfdirptr (lfltab d k)"
  obtains d1 where "lfiballoc d = Some (I ! 0, d1)"
    "file_rep K I D 1 n (new_ib k 0 (I ! 0) (upent e (\<lambda>l. l\<lparr>ld_ilist := I ! 0\<rparr>) d1)) k xs"
    "change K I D k d (new_ib k 0 (I ! 0) (upent e (\<lambda>l. l\<lparr>ld_ilist := I ! 0\<rparr>) d1))" "lfltab d1 = lfltab d"
proof -
  note B = file_rep_blocks[OF r]
  note C = file_rep_cache[OF r]
  have nx: "n = 0" "xs = []" using C(2,3) by simp_all
  obtain d1 where d1: "lfiballoc d = Some (I ! 0, d1)" "names_ok d1" "free_ok (drop (Suc 0) I) (drop n D) d1"
    "same_blocks K (ram d) (ram d1)" "change K I D k d d1" "lfltab d1 = lfltab d" "lfd_files (lf_dir d1) = lfd_files (lf_dir d)"
    using lfiballoc_rep[OF r] I by auto
  let ?d' = "new_ib k 0 (I ! 0) (upent e (\<lambda>l. l\<lparr>ld_ilist := I ! 0\<rparr>) d1)"
  have t: "take (Suc 0) I = [I ! 0]" using I by (cases I) simp_all
  have v: "I ! 0 \<noteq> LF_INULL" using B(6)[of "I ! 0"] I by (auto simp: ivalid_def)
  have "cache_ok (ram ?d') (lfltab ?d' k) [I ! 0] [] []"
    using C(1) clean byte v unfolding nx by (simp add: cache_ok_def new_ib_def d1(6) split: if_splits)
  then have "file_ok (ram ?d') (ent_of ?d' k) (Some (lfltab ?d' k)) (take (Suc 0) I) (take n D) xs"
    using C(4) unfolding t nx
    by (simp add: file_ok_def new_ib_def e_def d1(6,7) iview_def lfibclear_def dba_at_def map_replicate_const)
  moreover have "names_ok ?d'" using d1(2) by (simp add: names_ok_def new_ib_def)
  moreover have "free_ok (drop (Suc 0) I) (drop n D) ?d'" using d1(3) by (simp add: free_ok_def new_ib_def)
  moreover have "blocks_ok K I D 1 n" using r I by (cases I) (simp_all add: file_rep_def blocks_ok_def)
  ultimately have "file_rep K I D 1 n ?d' k xs" by (simp add: file_rep_def)
  moreover have "change K I D k d1 ?d'" by (simp add: change_def new_ib_def e_def d1(6))
  ultimately show ?thesis using that d1(1,6) change_trans[OF d1(5)] by blast
qed

text \<open>
  After a part of the set-up: the index block \<open>j\<close> of the file is in memory, and the data block there has
  not changed.
\<close>

definition ready_at :: "int list \<Rightarrow> nat \<Rightarrow> lflcblk \<Rightarrow> lflcblk \<Rightarrow> bool" where
  "ready_at I j c c' \<longleftrightarrow> lfinum c' = I ! j \<and> \<not> lfdbdirty c' \<and> lfbyte c' = 512 \<and> lfpos c' = lfpos c"

lemma file_rep_ilist:
  assumes "file_rep K I D m n d k xs"
  shows "ld_ilist (ent_of d k) = (if m = 0 then LF_INULL else I ! 0)"
proof -
  have ch: "ichain (iview (ram d) (Some (lfltab d k))) (ld_ilist (ent_of d k)) (take m I)"
    using file_rep_file(1)[OF assms] by (simp add: file_ok_def)
  show ?thesis
  proof (cases "m = 0")
    case False
    then have "take m I \<noteq> []" using file_rep_blocks(4)[OF assms] by auto
    then show ?thesis using ichain_hd[OF ch] False by simp
  qed (use ch in simp)
qed

lemma file_rep_inum:
  assumes "file_rep K I D m n d k xs" "lfinum (lfltab d k) \<noteq> LF_INULL"
  obtains j where "j < m" "lfinum (lfltab d k) = I ! j"
proof -
  have "lfinum (lfltab d k) \<in> set (take m I)" using file_rep_cache(1)[OF assms(1)] assms(2) by (simp add: cache_ok_def)
  then show ?thesis using that file_rep_file(2)[OF assms(1)] by (metis in_set_conv_nth nth_take)
qed

lemma file_rep_cached:
  assumes "file_rep K I D m n d k xs" "j < m" "lfinum (lfltab d k) = I ! j"
  shows "ib_offset (lfiblock (lfltab d k)) = 8192 * int j" "ib_dba (lfiblock (lfltab d k)) = dba_at (take n D) j"
    "ib_next (lfiblock (lfltab d k)) = (if Suc j < m then I ! Suc j else LF_INULL)"
  using file_rep_ib(1-3)[OF assms(1,2)] assms(3) by (simp_all add: iview_def)

lemma setup_first_rep:
  assumes r: "file_rep K I D m n d k xs" and clean: "\<not> lfibdirty (lfltab d k)" "\<not> lfdbdirty (lfltab d k)"
    and byte: "lfbyte (lfltab d k) = 512" and room: "I \<noteq> []"
  shows "\<exists>d' j. setup_first k d = Some d' \<and> file_rep K I D (max m 1) n d' k xs \<and> change K I D k d d' \<and>
    ready_at I j (lfltab d k) (lfltab d' k) \<and> j < max m 1 \<and> 8192 * int j \<le> lfpos (lfltab d k) \<and>
    (lfibdirty (lfltab d' k) \<longrightarrow> lfpos (lfltab d k) < 8192) \<and> (0 < m \<longrightarrow> calm d d')"
proof -
  note C = file_rep_cache[OF r]
  define c where "c = lfltab d k"
  have pos: "0 \<le> lfpos c" using C(6) by (simp add: c_def)
  have reload: ?thesis if m: "0 < m" and s: "setup_first k d = load_ib k (I ! 0) d"
  proof -
    have "max m 1 = m" using m by simp
    then show ?thesis
      using load_ib_rep(1,2,3)[OF r clean(1) m] s m clean byte C(6)
      by (intro exI[of _ "upc k (\<lambda>c. c\<lparr>lfiblock := ibof (ram d) (I ! 0), lfinum := I ! 0\<rparr>) d"] exI[of _ 0])
        (simp add: ready_at_def)
  qed
  have il: "ld_ilist (ent_of d k) = (if m = 0 then LF_INULL else I ! 0)" by (rule file_rep_ilist[OF r])
  show ?thesis
  proof (cases "lfinum c = LF_INULL")
    case True
    show ?thesis
    proof (cases "m = 0")
      case m: True
      obtain d1 where d1: "lfiballoc d = Some (I ! 0, d1)"
        "file_rep K I D 1 n (new_ib k 0 (I ! 0) (upent (lfdirptr c) (\<lambda>l. l\<lparr>ld_ilist := I ! 0\<rparr>) d1)) k xs"
        "change K I D k d (new_ib k 0 (I ! 0) (upent (lfdirptr c) (\<lambda>l. l\<lparr>ld_ilist := I ! 0\<rparr>) d1))" "lfltab d1 = lfltab d"
        using first_alloc_rep[OF r[unfolded m] room clean(2) byte] unfolding c_def by blast
      have "setup_first k d = Some (new_ib k 0 (I ! 0) (upent (lfdirptr c) (\<lambda>l. l\<lparr>ld_ilist := I ! 0\<rparr>) d1))"
        using True il m d1(1) by (simp add: setup_first_def c_def Let_def new_ib_def)
      moreover have "lfpos c \<le> 0" using C(2,3,7) m by (simp add: c_def)
      ultimately show ?thesis using d1(2,3,4) m clean byte pos
        by (intro exI[of _ "new_ib k 0 (I ! 0) (upent (lfdirptr c) (\<lambda>l. l\<lparr>ld_ilist := I ! 0\<rparr>) d1)"] exI[of _ 0])
          (simp add: ready_at_def new_ib_def c_def)
    next
      case False
      have "I ! 0 \<noteq> LF_INULL" using file_rep_blocks(8)[OF r, of 0] False by (auto simp: ivalid_def)
      then show ?thesis using reload True il False by (simp add: setup_first_def c_def Let_def)
    qed
  next
    case False
    obtain j where j: "j < m" "lfinum c = I ! j" using file_rep_inum[OF r] False unfolding c_def by blast
    show ?thesis
    proof (cases "lfpos c < 8192 * int j")
      case True
      then show ?thesis using reload j il False file_rep_cached(1)[OF r j[unfolded c_def]]
        by (simp add: setup_first_def c_def Let_def)
    next
      case stay: False
      then have "setup_first k d = Some d" using j False file_rep_cached(1)[OF r j[unfolded c_def]]
        by (simp add: setup_first_def c_def Let_def)
      moreover have "max m 1 = m" using j by simp
      ultimately show ?thesis using r j stay clean byte by (intro exI[of _ d] exI[of _ j]) (simp add: ready_at_def c_def)
    qed
  qed
qed

section \<open>The walk\<close>

unbundle bit_operations_syntax

lemma pos_bits:
  "p AND LF_DMASK = p mod 512" "p AND LF_IMASK = p mod 8192" "p AND NOT LF_IMASK = 8192 * (p div 8192)"
  "drop_bit 9 (p AND LF_IMASK) = p mod 8192 div 512"
proof -
  have "take_bit 9 p = p AND LF_DMASK" "take_bit 13 p = p AND LF_IMASK" by (simp_all add: take_bit_eq_mask mask_eq_exp_minus_1)
  then show d: "p AND LF_DMASK = p mod 512" and i: "p AND LF_IMASK = p mod 8192" by (simp_all add: take_bit_eq_mod)
  have "p AND NOT (mask 13) = push_bit 13 (drop_bit 13 p)"
    by (rule bit_eqI) (auto simp: bit_and_iff bit_not_iff bit_mask_iff bit_push_bit_iff bit_drop_bit_eq)
  then show "p AND NOT LF_IMASK = 8192 * (p div 8192)" by (simp add: mask_eq_exp_minus_1 push_bit_eq_mult drop_bit_eq_div)
  show "drop_bit 9 (p AND LF_IMASK) = p mod 8192 div 512" unfolding i by (simp add: drop_bit_eq_div)
qed

lemma ichain_extend:
  assumes "ichain iv p is" "is \<noteq> []" "distinct is" "\<And>i. i \<in> set is \<Longrightarrow> i \<noteq> last is \<Longrightarrow> ib_next (iv' i) = ib_next (iv i)"
    and "ib_next (iv' (last is)) = x" "ib_next (iv' x) = LF_INULL"
  shows "ichain iv' p (is @ [x])"
  using assms
proof (induction "is" arbitrary: p)
  case (Cons i "is")
  show ?case
  proof (cases "is = []")
    case False
    then have "i \<noteq> last is" using Cons.prems(3) by auto
    then show ?thesis using Cons False by (auto simp: if_split)
  qed (use Cons.prems in auto)
qed simp

definition put_ib :: "int \<Rightarrow> lfiblk \<Rightarrow> lfs \<Rightarrow> lfs" where
  "put_ib i ib d = d\<lparr>ram := putb (ibaddr i) (enc_ib ib) (ram d)\<rparr>"

definition walk_new :: "int \<Rightarrow> int \<Rightarrow> int \<Rightarrow> lfs \<Rightarrow> lfs" where
  "walk_new k off ibnum = upc k (\<lambda>c. c\<lparr>lfinum := ibnum, lfiblock := lfibclear off, lfibdirty := True, lfdnum := LF_DNULL\<rparr>)"

lemma file_ok_more_ib:
  assumes f: "file_ok M ent (Some c) (take m I) ds xs" and m: "0 < m" "m < length I" "distinct I" and ds: "length ds \<le> 16 * m"
    and view: "\<And>j. j < m \<Longrightarrow> iview M' (Some c') (I ! j) =
        (if j = m - 1 then (iview M (Some c) (I ! j))\<lparr>ib_next := I ! m\<rparr> else iview M (Some c) (I ! j))"
    and new: "iview M' (Some c') (I ! m) = \<lparr>ib_next = LF_INULL, ib_offset = 8192 * int m, ib_dba = replicate 16 LF_DNULL\<rparr>"
    and bytes: "\<forall>i<length xs. dview M' (Some c') (ds ! (i div 512)) ! (i mod 512) = xs ! i"
    and c: "cache_ok M' c' (take (Suc m) I) ds xs"
  shows "file_ok M' ent (Some c') (take (Suc m) I) ds xs"
proof -
  have tk: "take (Suc m) I = take m I @ [I ! m]" using m by (simp add: take_Suc_conv_app_nth)
  have ne: "take m I \<noteq> []" using m by auto
  then have lst: "last (take m I) = I ! (m - 1)" using m by (simp add: last_conv_nth)
  have ch: "ichain (iview M' (Some c')) (ld_ilist ent) (take m I @ [I ! m])"
  proof (rule ichain_extend[of "iview M (Some c)"])
    show "ichain (iview M (Some c)) (ld_ilist ent) (take m I)" using f by (simp add: file_ok_def)
    show "ib_next (iview M' (Some c') i) = ib_next (iview M (Some c) i)" if i: "i \<in> set (take m I)" "i \<noteq> last (take m I)" for i
    proof -
      obtain j where j: "j < m" "i = I ! j" using i(1) m(2) by (auto simp: in_set_conv_nth)
      then have "j \<noteq> m - 1" using i(2) lst by auto
      then show ?thesis using view[of j] j by simp
    qed
  qed (use ne lst m view[of "m - 1"] new in simp_all)
  have "\<not> 16 * m + i < length ds" for i using ds by simp
  then have "dba_at ds m = replicate 16 LF_DNULL" by (simp add: dba_at_def map_replicate_const)
  then have "ib_offset (iview M' (Some c') (I ! j)) = 8192 * int j \<and> ib_dba (iview M' (Some c') (I ! j)) = dba_at ds j"
    if "j < Suc m" for j
    using f view[of j] new that m(2) by (cases "j = m") (auto simp: file_ok_def)
  then show ?thesis using f ch bytes c ds m(2) unfolding file_ok_def tk[symmetric] by simp
qed

lemma walk_alloc_rep:
  assumes r: "file_rep K I D m n d k xs" and m: "0 < m" "m < length I" and at: "ready_at I (m - 1) c (lfltab d k)"
  defines "q \<equiv> I ! (m - 1)" and "ib' \<equiv> (lfiblock (lfltab d k))\<lparr>ib_next := I ! m\<rparr>"
  obtains d1 where "lfiballoc d = Some (I ! m, d1)" "lfltab d1 = lfltab d"
    "lfibput q ib' (ram d1) = Some (putb (ibaddr q) (enc_ib ib') (ram d1))"
    "file_rep K I D (Suc m) n (walk_new k (8192 * int m) (I ! m) (put_ib q ib' d1)) k xs"
    "change K I D k d (walk_new k (8192 * int m) (I ! m) (put_ib q ib' d1))"
proof -
  note B = file_rep_blocks[OF r]
  note C = file_rep_cache[OF r]
  have num: "lfinum (lfltab d k) = q" and clean: "\<not> lfdbdirty (lfltab d k)" and byte: "lfbyte (lfltab d k) = 512"
    using at by (simp_all add: ready_at_def q_def)
  have m1: "m - 1 < m" using m by simp
  obtain d1 where d1: "lfiballoc d = Some (I ! m, d1)" "names_ok d1" "free_ok (drop (Suc m) I) (drop n D) d1"
    "same_blocks K (ram d) (ram d1)" "change K I D k d d1" "lfltab d1 = lfltab d" "lfd_files (lf_dir d1) = lfd_files (lf_dir d)"
    using lfiballoc_rep[OF r m(2)] by blast
  have q: "ivalid K q" and x: "ivalid K (I ! m)" "I ! m \<in> set I" "q \<in> set I" using B(4,6) m by (simp_all add: q_def)
  have old: "iview (ram d) (Some (lfltab d k)) q = lfiblock (lfltab d k)" using num by (simp add: iview_def)
  have wf: "wf_ib ib'" using file_rep_ib(4)[OF r m1] x(1) B(1) old by (auto simp: q_def ib'_def wf_ib_def ivalid_def isectors_def)
  let ?d' = "walk_new k (8192 * int m) (I ! m) (put_ib q ib' d1)"
  have ibs: "ibof (ram ?d') i = (if i = q then ib' else ibof (ram d) i)" if "ivalid K i" for i
    using that ibof_put_ib[OF _ _ wf, of q i "ram d1"] q d1(4) by (simp add: ivalid_def same_blocks_def walk_new_def put_ib_def)
  have dbs: "dbof (ram ?d') b = dbof (ram d) b" if "dvalid K b" for b
    using dbof_put_ib[OF q that B(1)] wf d1(4) that by (simp add: walk_new_def wf_ib_def same_blocks_def put_ib_def)
  have u: "u32 (8192 * int m) = 8192 * int m" using file_rep_count[OF r] m(2) by (simp add: u32_def)
  have byt: "dview (ram ?d') (Some (lfltab ?d' k)) (D ! (i div 512)) ! (i mod 512) = xs ! i \<and> D ! (i div 512) \<noteq> - 1" if "i < length xs" for i
  proof -
    have "dvalid K (D ! (i div 512))" using B(9)[OF file_rep_byte(1)[OF r that]] .
    then show ?thesis
      using clean_dview[OF r clean that] dbs B(1) by (auto simp: dview_def walk_new_def dvalid_def isectors_def)
  qed
  have "cache_ok (ram ?d') (lfltab ?d' k) (take (Suc m) I) (take n D) xs"
    using C(1) clean byte x(1) byt file_rep_byte(1)[OF r] m(2)
    by (auto simp: cache_ok_def walk_new_def d1(6) put_ib_def ivalid_def take_Suc_conv_app_nth)
  moreover have "iview (ram ?d') (Some (lfltab ?d' k)) (I ! m) = \<lparr>ib_next = LF_INULL, ib_offset = 8192 * int m, ib_dba = replicate 16 LF_DNULL\<rparr>"
    by (simp add: iview_def walk_new_def lfibclear_def u)
  moreover have "iview (ram ?d') (Some (lfltab ?d' k)) (I ! j) =
      (if j = m - 1 then (iview (ram d) (Some (lfltab d k)) (I ! j))\<lparr>ib_next := I ! m\<rparr> else iview (ram d) (Some (lfltab d k)) (I ! j))"
    if "j < m" for j
  proof -
    have "I ! j \<noteq> I ! m" "I ! j = q \<longleftrightarrow> j = m - 1" using that m B(2) by (simp_all add: q_def nth_eq_iff_index_eq)
    then show ?thesis using ibs[OF B(8)[OF that]] num old by (auto simp: iview_def walk_new_def d1(6) put_ib_def ib'_def)
  qed
  ultimately have "file_ok (ram ?d') (ent_of d k) (Some (lfltab ?d' k)) (take (Suc m) I) (take n D) xs"
    using file_ok_more_ib[OF file_rep_file(1)[OF r] m B(2)] C(2) byt file_rep_byte(1)[OF r] file_rep_file(3)[OF r] by simp
  moreover have "free_ok (drop (Suc m) I) (drop n D) ?d'"
  proof (rule free_ok_frame[OF d1(3)])
    fix i assume i: "i \<in> set (drop (Suc m) I)"
    have "q = take (Suc m) I ! (m - 1)" using m by (simp add: q_def)
    then have "q \<in> set (take (Suc m) I)" using m nth_mem[of "m - 1" "take (Suc m) I"] by simp
    then have "i \<noteq> q" using distinct_take_drop[OF B(2)] i by blast
    then show "ibof (ram ?d') i = ibof (ram d1) i" using ibs B(6)[OF in_set_dropD[OF i]] d1(4) by (simp add: same_blocks_def)
  next
    fix b assume "b \<in> set (drop n D)"
    then have "dvalid K b" using B(7) by (meson in_set_dropD)
    then show "dbof (ram ?d') b = dbof (ram d1) b" using dbs d1(4) by (simp add: same_blocks_def)
  qed (simp_all add: walk_new_def put_ib_def)
  ultimately have "file_rep K I D (Suc m) n ?d' k xs"
    using d1(2,6,7) r m(2) by (simp add: file_rep_def blocks_ok_def names_ok_def walk_new_def put_ib_def)
  moreover have "change K I D k d1 ?d'"
    using ibs dbs x d1(4,6) by (auto simp: change_def same_blocks_def walk_new_def put_ib_def)
  ultimately show ?thesis
    using that[OF d1(1,6)] lfibput_eq[OF q B(1)] wf change_trans[OF d1(5)] by (simp add: wf_ib_def)
qed

lemma setup_walk_rep:
  assumes "file_rep K I D m n d k xs" "j < m" "ready_at I j c (lfltab d k)" "j \<le> t" "lfibdirty (lfltab d k) \<longrightarrow> j = t"
    and "t = nat (lfpos (lfltab d k)) div 8192" "t < length I" "t \<le> m"
  shows "\<exists>d'. setup_walk k d = Some d' \<and> file_rep K I D (max m (Suc t)) n d' k xs \<and> change K I D k d d' \<and> ready_at I t c (lfltab d' k) \<and>
    (t < m \<longrightarrow> calm d d')"
  using assms
proof (induction "t - j" arbitrary: j d m)
  case 0
  then have "j = t" by simp
  moreover have "0 \<le> lfpos (lfltab d k)" using file_rep_cache(6)[OF 0(2)] .
  then have "lfpos (lfltab d k) AND NOT LF_IMASK = 8192 * int t" unfolding pos_bits(3) 0(7) by (simp add: zdiv_int)
  ultimately have "\<not> lfpos (lfltab d k) AND NOT LF_IMASK > ib_offset (lfiblock (lfltab d k))"
    using file_rep_cached(1)[OF 0(2,3)] 0(4) by (simp add: ready_at_def)
  then have "setup_walk k d = Some d" by (subst setup_walk.simps) (simp add: Let_def)
  moreover have "max m (Suc t) = m" using 0(3) \<open>j = t\<close> by simp
  ultimately show ?case using 0 \<open>j = t\<close> by auto
next
  case (Suc n' j d m)
  have jt: "j < t" and n: "n' = t - Suc j" using Suc.hyps(2) by simp_all
  have clean: "\<not> lfibdirty (lfltab d k)" "\<not> lfdbdirty (lfltab d k)" "lfbyte (lfltab d k) = 512" "lfinum (lfltab d k) = I ! j"
    using Suc.prems jt by (auto simp: ready_at_def)
  note cached = file_rep_cached[OF Suc.prems(1,2) clean(4)]
  have "0 \<le> lfpos (lfltab d k)" using file_rep_cache(6)[OF Suc.prems(1)] .
  then have "lfpos (lfltab d k) AND NOT LF_IMASK = 8192 * int t" unfolding pos_bits(3) Suc.prems(6) by (simp add: zdiv_int)
  then have go: "lfpos (lfltab d k) AND NOT LF_IMASK > ib_offset (lfiblock (lfltab d k))" using cached(1) jt by simp
  note step = setup_walk.simps[of k d]
  show ?case
  proof (cases "Suc j < m")
    case True
    let ?d1 = "upc k (\<lambda>c. c\<lparr>lfiblock := ibof (ram d) (I ! Suc j), lfinum := I ! Suc j\<rparr>) d"
    let ?d2 = "upc k (\<lambda>c. c\<lparr>lfdnum := LF_DNULL\<rparr>) ?d1"
    note load = load_ib_rep[OF Suc.prems(1) clean(1) True]
    have 2: "file_rep K I D m n ?d2 k xs" "change K I D k ?d1 ?d2"
      using drop_db_rep[OF load(2)] clean by simp_all
    have "ib_next (lfiblock (lfltab d k)) = I ! Suc j" "I ! Suc j \<noteq> LF_INULL"
      using cached(3) True file_rep_blocks(8)[OF Suc.prems(1) True] by (auto simp: ivalid_def)
    then have s: "setup_walk k d = setup_walk k ?d2" using step go load(1) by (simp add: Let_def)
    have "\<exists>d'. setup_walk k ?d2 = Some d' \<and> file_rep K I D (max m (Suc t)) n d' k xs \<and> change K I D k ?d2 d' \<and> ready_at I t c (lfltab d' k) \<and> (t < m \<longrightarrow> calm ?d2 d')"
      using n jt Suc.prems clean
      by (intro Suc.hyps(1)[OF _ 2(1) True]) (simp_all add: ready_at_def)
    moreover have "calm d ?d2" using calm_trans[OF calm_upc calm_upc] .
    ultimately show ?thesis using s change_trans[OF change_trans[OF load(3) 2(2)]] calm_trans[of d ?d2] by auto
  next
    case False
    then have m: "m = Suc j" "t = m" "0 < m" "m < length I" using Suc.prems(2,7,8) jt by simp_all
    define q where "q = I ! (m - 1)"
    define ib' where "ib' = (lfiblock (lfltab d k))\<lparr>ib_next := I ! m\<rparr>"
    have at: "ready_at I (m - 1) c (lfltab d k)" using Suc.prems(3) m(1) by simp
    obtain d1 where d1: "lfiballoc d = Some (I ! m, d1)" "lfltab d1 = lfltab d"
      "lfibput q ib' (ram d1) = Some (putb (ibaddr q) (enc_ib ib') (ram d1))"
      "file_rep K I D (Suc m) n (walk_new k (8192 * int m) (I ! m) (put_ib q ib' d1)) k xs"
      "change K I D k d (walk_new k (8192 * int m) (I ! m) (put_ib q ib' d1))"
      using walk_alloc_rep[OF Suc.prems(1) m(3,4) at] unfolding q_def ib'_def by blast
    let ?d2 = "walk_new k (8192 * int m) (I ! m) (put_ib q ib' d1)"
    have off: "lfibclear (u32 (ib_offset (lfiblock (lfltab d k)) + LF_IDATA)) = lfibclear (8192 * int m)"
      using cached(1) m(1) by (simp add: lfibclear_def u32_def algebra_simps)
    have "lfinum (lfltab d k) = q" using clean(4) m(1) by (simp add: q_def)
    then have s: "setup_walk k d = setup_walk k ?d2"
      using step go d1(1-3) cached(3) False off
      by (simp add: Let_def upram_def walk_new_def put_ib_def ib'_def)
    have "\<exists>d'. setup_walk k ?d2 = Some d' \<and> file_rep K I D (max (Suc m) (Suc t)) n d' k xs \<and> change K I D k ?d2 d' \<and> ready_at I t c (lfltab d' k) \<and>
        (t < Suc m \<longrightarrow> calm ?d2 d')"
      using n jt Suc.prems clean m d1(2)
      by (intro Suc.hyps(1)[OF _ d1(4), of m]) (simp_all add: ready_at_def walk_new_def put_ib_def)
    moreover have "max (Suc m) (Suc t) = max m (Suc t)" using m(2) by simp
    ultimately show ?thesis using s change_trans[OF d1(5)] m(2) by auto
  qed
qed

section \<open>The data block\<close>

lemma dba_at_nth: "i < 16 \<Longrightarrow> dba_at ds t ! i = (if 16 * t + i < length ds then ds ! (16 * t + i) else LF_DNULL)"
  by (simp add: dba_at_def)

lemma dba_at_snoc:
  assumes "length ds = 16 * t + i" "i < 16"
  shows "dba_at (ds @ [x]) j = (if j = t then (dba_at ds t)[i := x] else dba_at ds j)"
proof (rule nth_equalityI)
  show "length (dba_at (ds @ [x]) j) = length (if j = t then (dba_at ds t)[i := x] else dba_at ds j)" by (simp add: dba_at_def)
  fix y assume "y < length (dba_at (ds @ [x]) j)"
  then have y: "y < 16" by (simp add: dba_at_def)
  have "16 * j + y = 16 * t + i \<longleftrightarrow> j = t \<and> y = i" using y assms(2) by (cases j t rule: linorder_cases) auto
  then show "dba_at (ds @ [x]) j ! y = (if j = t then (dba_at ds t)[i := x] else dba_at ds j) ! y"
    using y assms by (auto simp: dba_at_nth nth_append nth_list_update dba_at_def)
qed

lemma file_ok_more_db:
  assumes f: "file_ok M ent (Some c) is ds xs" and t: "t < length is" "distinct is" and n: "length ds = 16 * t + i" "i < 16"
    and view: "\<And>x. x \<in> set is \<Longrightarrow> iview M' (Some c') x =
        (if x = is ! t then (iview M (Some c) x)\<lparr>ib_dba := (ib_dba (iview M (Some c) x))[i := b]\<rparr> else iview M (Some c) x)"
    and bytes: "\<And>x. x < length xs \<Longrightarrow> dview M' (Some c') (ds ! (x div 512)) ! (x mod 512) = xs ! x"
    and c: "cache_ok M' c' is (ds @ [b]) xs"
  shows "file_ok M' ent (Some c') is (ds @ [b]) xs"
proof -
  have l: "length xs \<le> 512 * length ds" and sz: "ld_size ent = int (length xs)" "\<forall>x\<in>set xs. 0 \<le> x \<and> x < 256"
    using f by (simp_all add: file_ok_def)
  have "ichain (iview M' (Some c')) (ld_ilist ent) is = ichain (iview M (Some c)) (ld_ilist ent) is"
    by (rule ichain_cong) (simp add: view)
  then have ch: "ichain (iview M' (Some c')) (ld_ilist ent) is" using f by (simp add: file_ok_def)
  have pts: "ib_offset (iview M' (Some c') (is ! j)) = 8192 * int j \<and> ib_dba (iview M' (Some c') (is ! j)) = dba_at (ds @ [b]) j"
    if j: "j < length is" for j
  proof -
    have "is ! j = is ! t \<longleftrightarrow> j = t" using j t by (simp add: nth_eq_iff_index_eq)
    moreover have "ib_offset (iview M (Some c) (is ! j)) = 8192 * int j" "ib_dba (iview M (Some c) (is ! j)) = dba_at ds j"
      using f j by (simp_all add: file_ok_def)
    ultimately show ?thesis using view[of "is ! j"] j dba_at_snoc[OF n, of b j] by (cases "j = t") simp_all
  qed
  have byt: "dview M' (Some c') ((ds @ [b]) ! (x div 512)) ! (x mod 512) = xs ! x" if "x < length xs" for x
    using bytes[OF that] block_index[OF that l] by (simp add: nth_append)
  have "length (ds @ [b]) \<le> 16 * length is" using n t(1) by simp
  moreover have "length xs \<le> 512 * length (ds @ [b])" using l by simp
  ultimately show ?thesis unfolding file_ok_def using ch pts byt c sz by simp
qed

definition block_new :: "int \<Rightarrow> nat \<Rightarrow> int \<Rightarrow> lfs \<Rightarrow> lfs" where
  "block_new k i b = upc k (\<lambda>c. c\<lparr>lfdblock := replicate 512 43, lfdnum := b, lfibdirty := True,
     lfiblock := (lfiblock c)\<lparr>ib_dba := (ib_dba (lfiblock c))[i := b]\<rparr>\<rparr>)"

lemma block_alloc_rep:
  assumes r: "file_rep K I D m n d k xs" and n: "n < length D" "n = 16 * t + i" "i < 16" and t: "t < m"
    and at: "ready_at I t c (lfltab d k)"
  obtains d1 where "lfdballoc d = Some (D ! n, replicate 512 43, d1)" "lfltab d1 = lfltab d"
    "file_rep K I D m (Suc n) (block_new k i (D ! n) d1) k xs" "change K I D k d (block_new k i (D ! n) d1)"
proof -
  note B = file_rep_blocks[OF r]
  note C = file_rep_cache[OF r]
  have num: "lfinum (lfltab d k) = I ! t" and clean: "\<not> lfdbdirty (lfltab d k)" and byte: "lfbyte (lfltab d k) = 512"
    using at by (simp_all add: ready_at_def)
  obtain d1 where d1: "lfdballoc d = Some (D ! n, replicate 512 43, d1)" "names_ok d1" "free_ok (drop m I) (drop (Suc n) D) d1"
    "same_blocks K (ram d) (ram d1)" "change K I D k d d1" "lfltab d1 = lfltab d" "lfd_files (lf_dir d1) = lfd_files (lf_dir d)"
    using lfdballoc_rep[OF r n(1)] by blast
  let ?d' = "block_new k i (D ! n) d1"
  let ?old = "iview (ram d) (Some (lfltab d k))"
  have ibs: "ibof (ram ?d') x = ibof (ram d) x" if "ivalid K x" for x using that d1(4) by (simp add: same_blocks_def block_new_def)
  have dbs: "dbof (ram ?d') b = dbof (ram d) b" if "dvalid K b" for b using that d1(4) by (simp add: same_blocks_def block_new_def)
  have view: "iview (ram ?d') (Some (lfltab ?d' k)) x =
      (if x = I ! t then (?old x)\<lparr>ib_dba := (ib_dba (?old x))[i := D ! n]\<rparr> else ?old x)" if "x \<in> set I" for x
    using ibs[OF B(6)[OF that]] num by (simp add: iview_def block_new_def d1(6))
  have tk: "take (Suc n) D = take n D @ [D ! n]" using n(1) by (simp add: take_Suc_conv_app_nth)
  have byt: "dview (ram ?d') (Some (lfltab ?d' k)) (D ! (x div 512)) ! (x mod 512) = xs ! x \<and> D ! (x div 512) \<noteq> D ! n \<and> x div 512 < n"
    if x: "x < length xs" for x
  proof -
    have "x div 512 < n" using file_rep_byte(1)[OF r x] .
    moreover from this have "D ! (x div 512) \<noteq> D ! n" using n(1) B(3) by (simp add: nth_eq_iff_index_eq)
    moreover have "dbof (ram ?d') (D ! (x div 512)) ! (x mod 512) = xs ! x"
      using dbs[OF B(9)[OF \<open>x div 512 < n\<close>]] clean_dview[OF r clean x] by simp
    ultimately show ?thesis by (simp add: dview_def block_new_def)
  qed
  have it: "I ! t \<in> set (take m I)" using t B(4) by (metis file_rep_file(2)[OF r] nth_mem nth_take)
  have "cache_ok (ram ?d') (lfltab ?d' k) (take m I) (take n D @ [D ! n]) xs"
    using C(1) clean byte byt num B(1) B(7)[of "D ! n"] n(1) B(8)[OF t] it
    unfolding cache_ok_def by (auto simp: block_new_def d1(6) nth_append dvalid_def isectors_def ivalid_def min_def)
  then have "file_ok (ram ?d') (ent_of d k) (Some (lfltab ?d' k)) (take m I) (take (Suc n) D) xs"
    unfolding tk using t n file_rep_file(2,3)[OF r] B(2) view byt file_rep_byte(1)[OF r]
    by (intro file_ok_more_db[OF file_rep_file(1)[OF r], of t i]) (auto dest: in_set_takeD)
  then have "file_rep K I D m (Suc n) ?d' k xs"
    using d1(2,3,6,7) r n(1) by (simp add: file_rep_def blocks_ok_def names_ok_def free_ok_def block_new_def)
  moreover have "change K I D k d1 ?d'" by (simp add: change_def block_new_def)
  ultimately show ?thesis using that[OF d1(1,6)] change_trans[OF d1(5)] by blast
qed

text \<open>The data block of the position is in memory.\<close>

definition at_block :: "int list \<Rightarrow> lflcblk \<Rightarrow> lflcblk \<Rightarrow> bool" where
  "at_block D c c' \<longleftrightarrow> lfdnum c' = D ! (nat (lfpos c) div 512) \<and> lfpos c' = lfpos c \<and> lfbyte c' = 512"

lemma pos_split:
  "nat p div 512 = 16 * (nat p div 8192) + nat p mod 8192 div 512" "nat p mod 8192 div 512 < 16"
proof -
  have e: "8192 = 16 * (512::nat)" by simp
  show "nat p div 512 = 16 * (nat p div 8192) + nat p mod 8192 div 512"
    unfolding e mult.commute[of 16 512] div_mult2_eq mod_mult2_eq by simp
  show "nat p mod 8192 div 512 < 16" by (simp add: less_mult_imp_div_less)
qed

lemma setup_block_rep:
  assumes r: "file_rep K I D m n d k xs" and p: "p = nat (lfpos (lfltab d k))" and t: "t = p div 8192" "t < m"
    and at: "ready_at I t c (lfltab d k)" and room: "p div 512 < length D"
  shows "\<exists>d'. setup_block k d = Some d' \<and> file_rep K I D m (max n (Suc (p div 512))) d' k xs \<and> change K I D k d d' \<and>
    at_block D (lfltab d k) (lfltab d' k) \<and> (p div 512 < n \<longrightarrow> calm d d')"
proof -
  note B = file_rep_blocks[OF r]
  note C = file_rep_cache[OF r]
  define i where "i = p mod 8192 div 512"
  have i: "p div 512 = 16 * t + i" "i < 16" using pos_split[of "lfpos (lfltab d k)"] by (simp_all add: p t i_def)
  have num: "lfinum (lfltab d k) = I ! t" and clean: "\<not> lfdbdirty (lfltab d k)" "lfbyte (lfltab d k) = 512"
    using at by (simp_all add: ready_at_def)
  have idx: "nat (drop_bit 9 (lfpos (lfltab d k) AND LF_IMASK)) = i"
    unfolding pos_bits(4) using C(6) by (simp add: p i_def nat_div_distrib nat_mod_distrib)
  have ptr: "ib_dba (lfiblock (lfltab d k)) ! i = (if p div 512 < n then D ! (p div 512) else LF_DNULL)"
    using file_rep_cached(2)[OF r t(2) num] dba_at_nth[OF i(2), of "take n D" t] B(5) i(1) by simp
  show ?thesis
  proof (cases "p div 512 < n")
    case True
    let ?b = "D ! (p div 512)"
    have mx: "max n (Suc (p div 512)) = n" and v: "dvalid K ?b" and ne: "?b \<noteq> LF_DNULL" and inn: "?b \<in> set (take n D)"
      using True B(1,5) B(9)[of "p div 512"] nth_mem[of "p div 512" "take n D"] by (auto simp: dvalid_def isectors_def)
    show ?thesis
    proof (cases "?b = lfdnum (lfltab d k)")
      case True
      then have "setup_block k d = Some d" using ptr ne idx \<open>p div 512 < n\<close> by (simp add: setup_block_def Let_def)
      then show ?thesis using r mx True clean by (auto simp: at_block_def p)
    next
      case False
      let ?d = "upc k (\<lambda>c. c\<lparr>lfdblock := dbof (ram d) ?b, lfdbdirty := False, lfdnum := ?b\<rparr>) d"
      have "file_rep K I D m n ?d k xs" "change K I D k d ?d"
        using load_db_rep[OF r clean, of ?b "dbof (ram d) ?b"] inn by (simp_all add: dbof_def)
      moreover have "setup_block k d = Some ?d"
        using ptr ne idx \<open>p div 512 < n\<close> False ramread_eq[OF v B(1)] by (simp add: setup_block_def Let_def)
      ultimately show ?thesis using mx clean by (intro exI[of _ ?d]) (simp add: at_block_def p)
    qed
  next
    case False
    have "p \<le> 512 * n" using C(3,7) unfolding p by linarith
    then have n: "n = p div 512" using False by (metis div_le_mono le_antisym linorder_not_less nonzero_mult_div_cancel_left zero_neq_numeral)
    obtain d1 where d1: "lfdballoc d = Some (D ! n, replicate 512 43, d1)" "lfltab d1 = lfltab d"
      "file_rep K I D m (Suc n) (block_new k i (D ! n) d1) k xs" "change K I D k d (block_new k i (D ! n) d1)"
      using block_alloc_rep[OF r _ _ i(2) t(2) at] n room i(1) by auto
    have "setup_block k d = Some (block_new k i (D ! n) d1)"
      using ptr idx False d1(1) by (simp add: setup_block_def Let_def block_new_def)
    then show ?thesis using d1 n clean by (intro exI[of _ "block_new k i (D ! n) d1"]) (simp add: at_block_def block_new_def p max_def)
  qed
qed

lemma setup_byte_rep:
  assumes r: "file_rep K I D m n d k xs" and at: "at_block D (lfltab d k) (lfltab d k)" and n: "nat (lfpos (lfltab d k)) div 512 < n"
  shows "file_rep K I D m n (setup_byte k d) k xs" "change K I D k d (setup_byte k d)"
proof -
  show "change K I D k d (setup_byte k d)" by (simp add: change_def setup_byte_def)
  show "file_rep K I D m n (setup_byte k d) k xs"
  proof (rule file_rep_views[OF r])
    have "0 \<le> lfpos (lfltab d k) mod 512" "lfpos (lfltab d k) mod 512 < 512" by simp_all
    then show "cache_ok (ram (setup_byte k d)) (lfltab (setup_byte k d) k) (take m I) (take n D) xs"
      using file_rep_cache(1)[OF r] at n file_rep_file(3)[OF r]
      unfolding cache_ok_def setup_byte_def upc_simps fun_upd_same pos_bits(1)
      by (simp add: at_pos_def at_block_def split: if_splits)
  qed (simp_all add: setup_byte_def iview_def dview_def)
qed

section \<open>The whole set-up\<close>

theorem lfs_setup_rep:
  assumes r: "file_rep K I D m n d k xs" and u: "lfstate (lfltab d k) = LF_USED" and byte: "lfbyte (lfltab d k) = 512"
    and p: "p = nat (lfpos (lfltab d k))" and room: "p div 8192 < length I" "p div 512 < length D"
  shows "\<exists>d'. lfs_setup k d = Some d' \<and> file_rep K I D (max m (Suc (p div 8192))) (max n (Suc (p div 512))) d' k xs \<and>
    change K I D k d d' \<and> lfpos (lfltab d' k) = lfpos (lfltab d k) \<and> lfbyte (lfltab d' k) = lfpos (lfltab d k) mod 512 \<and>
    lfdnum (lfltab d' k) = D ! (p div 512) \<and> (p div 512 < n \<longrightarrow> calm d d')"
proof -
  let ?t = "p div 8192"
  obtain d1 where 1: "setup_flush k d = Some d1" "file_rep K I D m n d1 k xs" "change K I D k d d1"
    "lfltab d1 k = (lfltab d k)\<lparr>lfibdirty := False, lfdbdirty := False\<rparr>" "calm d d1"
    using setup_flush_rep[OF r u] by blast
  have I: "I \<noteq> []" using room(1) by auto
  obtain d2 j where 2: "setup_first k d1 = Some d2" "file_rep K I D (max m 1) n d2 k xs" "change K I D k d1 d2"
    "ready_at I j (lfltab d1 k) (lfltab d2 k)" "j < max m 1" "8192 * int j \<le> lfpos (lfltab d k)"
    "lfibdirty (lfltab d2 k) \<longrightarrow> lfpos (lfltab d k) < 8192" "0 < m \<longrightarrow> calm d1 d2"
    using setup_first_rep[OF 1(2) _ _ _ I] 1(4) byte by auto
  have pos: "0 \<le> lfpos (lfltab d k)" "lfpos (lfltab d2 k) = lfpos (lfltab d k)" using file_rep_cache(6)[OF r] 2(4) 1(4) by (simp_all add: ready_at_def)
  have jt: "j \<le> ?t" using 2(6) pos(1) unfolding p by (simp add: less_eq_div_iff_mult_less_eq)
  have "p \<le> 8192 * m" using file_rep_cache(2,3,7)[OF r] unfolding p by linarith
  then have tm: "?t \<le> max m 1" by (simp add: div_le_mono le_max_iff_disj order_trans[OF div_le_mono])
  have dirty: "lfibdirty (lfltab d2 k) \<longrightarrow> j = ?t" using 2(7) jt pos(1) unfolding p by (auto simp: nat_less_iff)
  obtain d3 where 3: "setup_walk k d2 = Some d3" "file_rep K I D (max (max m 1) (Suc ?t)) n d3 k xs" "change K I D k d2 d3"
    "ready_at I ?t (lfltab d1 k) (lfltab d3 k)" "?t < max m 1 \<longrightarrow> calm d2 d3"
    using setup_walk_rep[OF 2(2,5,4) jt dirty _ room(1) tm] p pos(2) by auto
  have m: "max (max m 1) (Suc ?t) = max m (Suc ?t)" by simp
  have pos3: "lfpos (lfltab d3 k) = lfpos (lfltab d k)" using 3(4) 1(4) by (simp add: ready_at_def)
  have lt: "?t < max m (Suc ?t)" by (simp add: less_max_iff_disj)
  have p3: "p = nat (lfpos (lfltab d3 k))" using pos3 p by simp
  obtain d4 where 4: "setup_block k d3 = Some d4" "file_rep K I D (max m (Suc ?t)) (max n (Suc (p div 512))) d4 k xs" "change K I D k d3 d4"
    "at_block D (lfltab d3 k) (lfltab d4 k)" "p div 512 < n \<longrightarrow> calm d3 d4"
    using setup_block_rep[OF 3(2)[unfolded m] p3 refl lt 3(4) room(2)] by blast
  have at: "at_block D (lfltab d4 k) (lfltab d4 k)" and pos4: "lfpos (lfltab d4 k) = lfpos (lfltab d k)"
    using 4(4) pos3 by (simp_all add: at_block_def)
  have n4: "nat (lfpos (lfltab d4 k)) div 512 < max n (Suc (p div 512))" using pos4 p by simp
  note 5 = setup_byte_rep[OF 4(2) at n4]
  have "lfs_setup k d = Some (setup_byte k d4)" using 1(1) 2(1) 3(1) 4(1) by (simp add: lfs_setup_def)
  moreover have "change K I D k d (setup_byte k d4)" using change_trans 1(3) 2(3) 3(3) 4(3) 5(2) by metis
  moreover have "lfbyte (lfltab (setup_byte k d4) k) = lfpos (lfltab d k) mod 512"
    unfolding setup_byte_def upc_simps fun_upd_same pos_bits(1) using pos4 by simp
  moreover have "lfdnum (lfltab (setup_byte k d4) k) = D ! (p div 512)" using at pos4 p by (simp add: setup_byte_def at_block_def)
  moreover have "calm d (setup_byte k d4)" if "p div 512 < n"
  proof -
    have "16 * ?t \<le> p div 512" using pos_split(1)[of "int p"] by simp
    then have "?t < m" using that file_rep_cache(2)[OF r] by simp
    then have "calm d d4" using that 1(5) 2(8) 3(5) 4(5) calm_trans by (metis gr0I less_max_iff_disj not_less0)
    then show ?thesis using calm_trans[OF _ calm_upc] by (simp add: setup_byte_def)
  qed
  ultimately show ?thesis using 5(1) pos4 by (intro exI[of _ "setup_byte k d4"]) (simp add: setup_byte_def)
qed

end
