(* ===== verification/Lfs_Spec.thy ===== *)
theory Lfs_Spec
  imports Lfs_Setup
begin

text \<open>
  The operations on open files against lists of bytes: reading, writing and seeking at a position. The
  mutexes are free, so no call waits; a call that finds its mutex taken is the case of semaphores.
\<close>

section \<open>Mutexes\<close>

definition idle :: "kstate \<Rightarrow> int \<Rightarrow> int \<Rightarrow> bool" where
  "idle s fm gm \<longleftrightarrow> sem_has s fm 1 \<and> sem_has s gm 1 \<and> fm \<noteq> gm"

definition idle_file :: "kstate \<Rightarrow> lfs \<Rightarrow> int \<Rightarrow> bool" where
  "idle_file s d k \<longleftrightarrow> idle s (lfmutex (lfltab d k)) (lf_mutex d)"

lemma set_count_back: "sem_has s i c \<Longrightarrow> set_count i c (set_count i c' s) = s"
  using set_count_same by simp

lemma idle_change: "idle_file s d k \<Longrightarrow> change K I D k d d' \<Longrightarrow> idle_file s d' k"
  by (simp add: idle_file_def change_def)

lemma take_mutex: "sem_has s i 1 \<Longrightarrow> wait i s = Return OK (set_count i 0 s)"
  using wait_has[of s i 0] by simp

lemma give_mutex: "sem_has s i 1 \<Longrightarrow> signal i (set_count i 0 s) = Return OK s"
  using signal_has[of "set_count i 0 s" i 0] set_count_has[of s i 1 0] set_count_back[of s i 1 0] by simp

lemma enter_idle: "idle_file s d k \<Longrightarrow> enter k (s, d) = Return OK (set_count (lfmutex (lfltab d k)) 0 s, d)"
  by (simp add: enter_def onk_def take_mutex idle_file_def idle_def)

lemma release_idle:
  "idle_file s d k \<Longrightarrow> lfmutex (lfltab d' k) = lfmutex (lfltab d k) \<Longrightarrow>
    release k r (set_count (lfmutex (lfltab d k)) 0 s, d') = Return r (s, d')"
  by (simp add: release_def onk_def give_mutex idle_file_def idle_def)

lemma lfsetup_idle:
  assumes "idle_file s d k" "lfs_setup k d = Some d'" "lf_mutex d' = lf_mutex d"
  shows "lfsetup k (set_count (lfmutex (lfltab d k)) 0 s, d) = Return OK (set_count (lfmutex (lfltab d k)) 0 s, d')"
proof -
  have "sem_has (set_count (lfmutex (lfltab d k)) 0 s) (lf_mutex d) 1"
    using assms(1) by (auto simp: idle_file_def idle_def intro!: set_count_other)
  from take_mutex[OF this] give_mutex[OF this] show ?thesis
    using assms(2,3) by (simp add: lfsetup_def onk_def onu_def)
qed

section \<open>One byte\<close>

definition dir_ok :: "lfs \<Rightarrow> bool" where
  "dir_ok d \<longleftrightarrow> lf_dirdirty d \<or> synced d"

lemma calm_dir_ok: "calm d d' \<Longrightarrow> dir_ok d \<Longrightarrow> dir_ok d'"
  unfolding calm_def dir_ok_def by blast

definition overwrite :: "'a list \<Rightarrow> nat \<Rightarrow> 'a list \<Rightarrow> 'a list" where
  "overwrite xs p bs = take p xs @ bs @ drop (p + length bs) xs"

lemma length_overwrite: "p \<le> length xs \<Longrightarrow> length (overwrite xs p bs) = max (length xs) (p + length bs)"
  by (simp add: overwrite_def)

lemma nth_overwrite1: "p \<le> length xs \<Longrightarrow> i < length (overwrite xs p [b]) \<Longrightarrow> overwrite xs p [b] ! i = (if i = p then b else xs ! i)"
proof -
  assume "p \<le> length xs" "i < length (overwrite xs p [b])"
  moreover have "drop (Suc p) xs ! (i - Suc p) = xs ! i" if "p < i" "i < length xs" using that by simp
  moreover have "i - p = Suc (i - Suc p)" if "p < i" using that by simp
  ultimately show ?thesis by (cases i p rule: linorder_cases) (auto simp: overwrite_def nth_append min_def)
qed

lemma overwrite_Cons: "p \<le> length xs \<Longrightarrow> overwrite xs p (b # bs) = overwrite (overwrite xs p [b]) (Suc p) bs"
  by (auto simp: overwrite_def min_def add.commute)

lemma overwrite_Nil [simp]: "overwrite xs p [] = xs"
  by (simp add: overwrite_def)

lemma div_mod_inj: "(i::nat) div k = j div k \<Longrightarrow> i mod k = j mod k \<Longrightarrow> i = j"
  by (metis div_mult_mod_eq)

lemma byte_pos:
  assumes "file_rep K I D m n d k xs" "lfbyte (lfltab d k) < 512"
  shows "nat (lfpos (lfltab d k)) div 512 < n" "lfdnum (lfltab d k) = D ! (nat (lfpos (lfltab d k)) div 512)"
    "nat (lfbyte (lfltab d k)) = nat (lfpos (lfltab d k)) mod 512"
  using file_rep_cache(1,6)[OF assms(1)] assms(2) file_rep_file(3)[OF assms(1)]
  by (auto simp: cache_ok_def at_pos_def nat_mod_distrib)

lemma pos_bound:
  assumes "file_rep K I D m n d k xs" "nat (lfpos (lfltab d k)) div 512 < n"
  shows "lfpos (lfltab d k) < 102400" "int (length xs) \<le> 102400"
proof -
  note B = file_rep_blocks[OF assms(1)]
  have "set D \<subseteq> {0..<200}" using B(1,7) by (force simp: dvalid_def isectors_def)
  then have "card (set D) \<le> card {0::int..<200}" by (intro card_mono) simp_all
  then have n: "n \<le> 200" using B(3,5) by (simp add: distinct_card)
  then show "int (length xs) \<le> 102400" using file_rep_cache(3)[OF assms(1)] by linarith
  have "nat (lfpos (lfltab d k)) div 512 < 200" using assms(2) n by simp
  then show "lfpos (lfltab d k) < 102400" by linarith
qed

lemma next_byte_rep:
  assumes r: "file_rep K I D m n d k xs" and b: "lfbyte (lfltab d k) < 512" and p: "lfpos (lfltab d k) < int (length xs)"
  shows "file_rep K I D m n (next_byte k d) k xs" "change K I D k d (next_byte k d)"
    "lfpos (lfltab (next_byte k d) k) = lfpos (lfltab d k) + 1"
proof -
  note P = byte_pos[OF r b] pos_bound[OF r byte_pos(1)[OF r b]] file_rep_cache(6)[OF r]
  have u: "u32 (lfpos (lfltab d k) + 1) = lfpos (lfltab d k) + 1" using P by (simp add: u32_def)
  then show "lfpos (lfltab (next_byte k d) k) = lfpos (lfltab d k) + 1" by (simp add: next_byte_def)
  show "change K I D k d (next_byte k d)" by (simp add: change_def next_byte_def)
  have at: "at_pos (lfltab d k) (take n D)" "0 \<le> lfbyte (lfltab d k)"
    using file_rep_cache(1)[OF r] b by (simp_all add: cache_ok_def)
  have "at_pos ((lfltab d k)\<lparr>lfbyte := lfbyte (lfltab d k) + 1, lfpos := lfpos (lfltab d k) + 1\<rparr>) (take n D)"
    if "lfbyte (lfltab d k) + 1 < 512"
  proof -
    define q where "q = nat (lfpos (lfltab d k))"
    have q: "lfpos (lfltab d k) = int q" using P(6) by (simp add: q_def)
    have byte: "lfbyte (lfltab d k) = int (q mod 512)" using at by (simp add: at_pos_def q zmod_int)
    then have "Suc (q mod 512) \<noteq> 512" using that by simp
    then have "Suc q div 512 = q div 512" "Suc q mod 512 = Suc (q mod 512)" by (auto simp: div_Suc mod_Suc)
    moreover have "nat (int q + 1) = Suc q" "(int q + 1) mod 512 = int (Suc q mod 512)" by (simp_all add: zmod_int add.commute)
    ultimately show ?thesis using at(1) byte unfolding at_pos_def q by simp
  qed
  then show "file_rep K I D m n (next_byte k d) k xs"
    using file_rep_cache(1)[OF r] b p at(2)
    by (intro file_rep_views[OF r]) (auto simp: next_byte_def cache_ok_def iview_def dview_def u)
qed

lemma grow_store:
  fixes ch :: int
  assumes r: "file_rep K I D m n d k xs" and b: "lfbyte (lfltab d k) < 512"
  defines "c \<equiv> lfltab d k" and "d' \<equiv> store_byte k ch (grow k d)"
  shows "ram d' = ram d" "lf_mutex d' = lf_mutex d" "lf_dirpresent d' = lf_dirpresent d" "\<And>j. j \<noteq> k \<Longrightarrow> lfltab d' j = lfltab d j"
    "lfltab d' k = c\<lparr>lfdblock := (lfdblock c)[nat (lfpos c) mod 512 := ch], lfdbdirty := True\<rparr>"
    "lfd_files (lf_dir d') = (lfd_files (lf_dir d))(lfdirptr c := (ent_of d k)\<lparr>ld_size := max (ld_size (ent_of d k)) (lfpos c + 1)\<rparr>)"
    "lfd_ifree (lf_dir d') = lfd_ifree (lf_dir d)" "lfd_dfree (lf_dir d') = lfd_dfree (lf_dir d)"
    "lfd_nfiles (lf_dir d') = lfd_nfiles (lf_dir d)"
proof -
  note P = byte_pos[OF r b] pos_bound[OF r byte_pos(1)[OF r b]] file_rep_cache(6,7)[OF r]
  have sz: "ld_size (ent_of d k) = int (length xs)" using file_rep_cache(4)[OF r] .
  have same: "(ent_of d k)\<lparr>ld_size := ld_size (ent_of d k)\<rparr> = ent_of d k" by (cases "ent_of d k") simp
  have "lfpos c \<ge> ld_size (ent_of d k) \<Longrightarrow> u32 (ld_size (ent_of d k) + 1) = max (ld_size (ent_of d k)) (lfpos c + 1)"
    using P sz by (simp add: u32_def c_def)
  moreover have "\<not> lfpos c \<ge> ld_size (ent_of d k) \<Longrightarrow> max (ld_size (ent_of d k)) (lfpos c + 1) = ld_size (ent_of d k)" by simp
  ultimately show "lfd_files (lf_dir d') = (lfd_files (lf_dir d))(lfdirptr c := (ent_of d k)\<lparr>ld_size := max (ld_size (ent_of d k)) (lfpos c + 1)\<rparr>)"
    using same by (auto simp: d'_def store_byte_def grow_def c_def Let_def fun_eq_iff)
  show "lfltab d' k = c\<lparr>lfdblock := (lfdblock c)[nat (lfpos c) mod 512 := ch], lfdbdirty := True\<rparr>"
    using P(3) by (simp add: d'_def store_byte_def grow_def c_def Let_def)
qed (simp_all add: d'_def store_byte_def grow_def Let_def)

lemma store_rep:
  assumes r: "file_rep K I D m n d k xs" and b: "lfbyte (lfltab d k) < 512" and ch: "0 \<le> ch" "ch < 256"
    and p: "p = nat (lfpos (lfltab d k))"
  defines "d' \<equiv> store_byte k ch (grow k d)"
  shows "file_rep K I D m n d' k (overwrite xs p [ch])" "change K I D k d d'"
proof -
  note B = file_rep_blocks[OF r]
  note C = file_rep_cache[OF r]
  note P = byte_pos[OF r b, folded p]
  note g = grow_store[OF r b, where ch = ch, folded d'_def p]
  define xs' where "xs' = overwrite xs p [ch]"
  have pl: "p \<le> length xs" using C(7) p by simp
  have len: "length xs' = max (length xs) (Suc p)" using length_overwrite[OF pl, of "[ch]"] by (simp add: xs'_def)
  show "change K I D k d d'" using g by (simp add: change_def)
  have iv: "iview (ram d') (Some (lfltab d' k)) = iview (ram d) (Some (lfltab d k))" by (auto simp: g iview_def)
  have small: "p < 512 * n" using P(1) by (metis div_less_iff_less_mult mult.commute zero_less_numeral)
  then have n': "length xs' \<le> 512 * n" using C(3) len by simp
  have byt: "dview (ram d') (Some (lfltab d' k)) (take n D ! (i div 512)) ! (i mod 512) = xs' ! i" if i: "i < length xs'" for i
  proof -
    have id: "i div 512 < n" using i n' by (simp add: less_mult_imp_div_less mult.commute)
    have same: "D ! (i div 512) = lfdnum (lfltab d k) \<longleftrightarrow> i div 512 = p div 512"
      using id P(1,2) B(3,5) by (simp add: nth_eq_iff_index_eq)
    have "p mod 512 < length (lfdblock (lfltab d k))" using C(8) by simp
    moreover have "i \<noteq> p \<Longrightarrow> i < length xs" using i len pl by auto
    ultimately show ?thesis
      using same id nth_overwrite1[OF pl, of i ch] i file_rep_byte(2)[OF r, of i] len div_mod_inj[of i 512 p]
      by (auto simp: dview_def g(1,5) nth_list_update xs'_def split: if_splits)
  qed
  have "\<forall>x\<in>set xs'. 0 \<le> x \<and> x < 256"
    using C(5) ch unfolding xs'_def overwrite_def by (auto dest: in_set_takeD in_set_dropD)
  moreover have "ld_size (ent_of d' k) = int (length xs')" using C(4,6) len p by (simp add: g)
  moreover have "cache_ok (ram d') (lfltab d' k) (take m I) (take n D) xs'"
  proof -
    have "lfdnum (lfltab d k) \<in> set (take n D)" using P(1,2) B(5) nth_mem[of "p div 512" "take n D"] by simp
    moreover from this have "lfdnum (lfltab d k) \<noteq> LF_DNULL" using B(1) B(7)[OF in_set_takeD] by (force simp: dvalid_def isectors_def)
    moreover have "lfpos (lfltab d k) \<le> int (length xs')" using len C(7) by simp
    ultimately show ?thesis using C(1) unfolding cache_ok_def g(1,5) by (simp add: at_pos_def)
  qed
  ultimately have "file_ok (ram d') (ent_of d' k) (Some (lfltab d' k)) (take m I) (take n D) xs'"
    using file_rep_file(1)[OF r] byt n' iv file_rep_file(3)[OF r] unfolding file_ok_def iv by (simp add: g)
  moreover have "names_ok d'" using file_rep_free(4)[OF r] by (simp add: names_ok_def g)
  moreover have "free_ok (drop m I) (drop n D) d'" using file_rep_free(1)[OF r] by (simp add: free_ok_def g)
  ultimately show "file_rep K I D m n d' k (overwrite xs p [ch])" using r by (simp add: file_rep_def xs'_def)
qed

text \<open>The operations on bytes in the three cases: the end of the file, a byte in memory, a byte elsewhere.\<close>

lemma setup_if_rep:
  assumes r: "file_rep K I D m n d k xs" and u: "lfstate (lfltab d k) = LF_USED" and s: "idle_file s d k"
    and p: "p = nat (lfpos (lfltab d k))" and room: "p div 8192 < length I" "p div 512 < length D"
  shows "\<exists>d'. setup_if k (set_count (lfmutex (lfltab d k)) 0 s, d) = Return OK (set_count (lfmutex (lfltab d k)) 0 s, d') \<and>
    file_rep K I D (max m (Suc (p div 8192))) (max n (Suc (p div 512))) d' k xs \<and> change K I D k d d' \<and>
    lfpos (lfltab d' k) = lfpos (lfltab d k) \<and> lfbyte (lfltab d' k) < 512 \<and> (p div 512 < n \<longrightarrow> calm d d')"
proof (cases "lfbyte (lfltab d k) \<ge> LF_BLKSIZ")
  case True
  then have "lfbyte (lfltab d k) = 512" using file_rep_cache(1)[OF r] by (simp add: cache_ok_def)
  then obtain d' where "lfs_setup k d = Some d'" "file_rep K I D (max m (Suc (p div 8192))) (max n (Suc (p div 512))) d' k xs"
    "change K I D k d d'" "lfpos (lfltab d' k) = lfpos (lfltab d k)" "lfbyte (lfltab d' k) = lfpos (lfltab d k) mod 512"
    "p div 512 < n \<longrightarrow> calm d d'"
    using lfs_setup_rep[OF r u _ p room] by blast
  moreover from this have "lfsetup k (set_count (lfmutex (lfltab d k)) 0 s, d) = Return OK (set_count (lfmutex (lfltab d k)) 0 s, d')"
    using lfsetup_idle[OF s] by (simp add: change_def)
  ultimately show ?thesis using True by (simp add: setup_if_def)
next
  case False
  then have n: "p div 512 < n" using byte_pos(1)[OF r] p by simp
  have "16 * (p div 8192) \<le> p div 512" using pos_split(1)[of "int p"] by simp
  then have "p div 8192 < m" using n file_rep_cache(2)[OF r] by simp
  then have "max m (Suc (p div 8192)) = m" "max n (Suc (p div 512)) = n" using n by simp_all
  then show ?thesis using False r by (simp add: setup_if_def)
qed

lemma getc_end:
  assumes "file_rep K I D m n d k xs" "lfstate (lfltab d k) = LF_USED" "idle_file s d k" "lfpos (lfltab d k) = int (length xs)"
  shows "lflgetc k (s, d) = Return EOF (s, d)"
  using assms file_rep_cache(4)[OF assms(1)] enter_idle[OF assms(3)] release_idle[OF assms(3) refl] by (simp add: lflgetc_def Let_def)

lemma getc_rep:
  assumes r: "file_rep K I D m n d k xs" and u: "lfstate (lfltab d k) = LF_USED" and s: "idle_file s d k"
    and p: "lfpos (lfltab d k) < int (length xs)"
  shows "\<exists>d'. lflgetc k (s, d) = Return (xs ! nat (lfpos (lfltab d k))) (s, d') \<and> file_rep K I D m n d' k xs \<and> change K I D k d d' \<and>
    lfpos (lfltab d' k) = lfpos (lfltab d k) + 1 \<and> calm d d'"
proof -
  define q where "q = nat (lfpos (lfltab d k))"
  have q: "q < length xs" "lfpos (lfltab d k) = int q" using p file_rep_cache(6)[OF r] by (simp_all add: q_def)
  have n: "q div 512 < n" using file_rep_byte(1)[OF r q(1)] .
  have "16 * (q div 8192) \<le> q div 512" using pos_split(1)[of "int q"] by simp
  then have m: "q div 8192 < m" using n file_rep_cache(2)[OF r] by simp
  have mx: "max m (Suc (q div 8192)) = m" "max n (Suc (q div 512)) = n" using m n by simp_all
  obtain d1 where 1: "setup_if k (set_count (lfmutex (lfltab d k)) 0 s, d) = Return OK (set_count (lfmutex (lfltab d k)) 0 s, d1)"
    "file_rep K I D m n d1 k xs" "change K I D k d d1" "lfpos (lfltab d1 k) = lfpos (lfltab d k)" "lfbyte (lfltab d1 k) < 512"
    "calm d d1"
    using setup_if_rep[OF r u s q_def] m n file_rep_blocks(4,5)[OF r] unfolding mx by force
  note nb = next_byte_rep[OF 1(2,5)]
  have byte: "lfdblock (lfltab d1 k) ! nat (lfbyte (lfltab d1 k)) = xs ! q"
    using byte_pos[OF 1(2,5)] file_rep_byte(2)[OF 1(2) q(1)] 1(4) q(2) by (simp add: dview_def)
  have "0 \<le> xs ! q" "xs ! q < 256" using file_rep_cache(5)[OF r] q(1) by simp_all
  then have low: "0xff AND xs ! q = xs ! q"
    using take_bit_int_eq_self[of "xs ! q" 8] by (simp add: take_bit_eq_mask mask_eq_exp_minus_1 and.commute)
  have "lfmutex (lfltab (next_byte k d1) k) = lfmutex (lfltab d k)" using 1(3) by (simp add: next_byte_def change_def)
  then have "lflgetc k (s, d) = Return (xs ! q) (s, next_byte k d1)"
    using enter_idle[OF s] release_idle[OF s] u p file_rep_cache(4)[OF r] 1(1) byte low by (simp add: lflgetc_def Let_def)
  moreover have "calm d (next_byte k d1)" using calm_trans[OF 1(6) calm_upc] by (simp add: next_byte_def)
  ultimately show ?thesis using nb 1(4) p change_trans[OF 1(3)] by (auto simp: q_def)
qed

lemma putc_rep:
  assumes r: "file_rep K I D m n d k xs" and u: "lfstate (lfltab d k) = LF_USED" and s: "idle_file s d k"
    and ch: "0 \<le> ch" "ch < 256" and p: "p = nat (lfpos (lfltab d k))" and room: "p div 8192 < length I" "p div 512 < length D"
  shows "\<exists>d'. lflputc k ch (s, d) = Return OK (s, d') \<and>
    file_rep K I D (max m (Suc (p div 8192))) (max n (Suc (p div 512))) d' k (overwrite xs p [ch]) \<and>
    change K I D k d d' \<and> lfpos (lfltab d' k) = lfpos (lfltab d k) + 1 \<and> (dir_ok d \<longrightarrow> dir_ok d')"
proof -
  obtain d1 where 1: "setup_if k (set_count (lfmutex (lfltab d k)) 0 s, d) = Return OK (set_count (lfmutex (lfltab d k)) 0 s, d1)"
    "file_rep K I D (max m (Suc (p div 8192))) (max n (Suc (p div 512))) d1 k xs" "change K I D k d d1"
    "lfpos (lfltab d1 k) = lfpos (lfltab d k)" "lfbyte (lfltab d1 k) < 512"
    "p div 512 < n \<longrightarrow> calm d d1"
    using setup_if_rep[OF r u s p room] by blast
  have p1: "p = nat (lfpos (lfltab d1 k))" using 1(4) p by simp
  let ?d2 = "store_byte k ch (grow k d1)"
  note 2 = store_rep[OF 1(2,5) ch p1]
  have pos: "lfpos (lfltab ?d2 k) = lfpos (lfltab d k)" "lfbyte (lfltab ?d2 k) < 512" "lfmutex (lfltab ?d2 k) = lfmutex (lfltab d k)"
    using grow_store(5)[OF 1(2,5), where ch = ch] 1(3,4,5) by (simp_all add: change_def)
  have "lfpos (lfltab d k) < int (length (overwrite xs p [ch]))"
    using length_overwrite[of p xs "[ch]"] file_rep_cache(7)[OF r] file_rep_cache(6)[OF r] p by simp
  then have 3: "file_rep K I D (max m (Suc (p div 8192))) (max n (Suc (p div 512))) (next_byte k ?d2) k (overwrite xs p [ch])"
    "change K I D k ?d2 (next_byte k ?d2)" "lfpos (lfltab (next_byte k ?d2) k) = lfpos (lfltab d k) + 1"
    using next_byte_rep[OF 2(1)] pos by simp_all
  have "lfmutex (lfltab (next_byte k ?d2) k) = lfmutex (lfltab d k)" using pos(3) by (simp add: next_byte_def)
  then have "lflputc k ch (s, d) = Return OK (s, next_byte k ?d2)"
    using enter_idle[OF s] release_idle[OF s] u file_rep_cache(4,7)[OF r] 1(1) by (simp add: lflputc_def Let_def)
  moreover have "dir_ok (next_byte k ?d2)" if ok: "dir_ok d"
  proof (cases "lfpos (lfltab d1 k) \<ge> ld_size (ent_of d1 k)")
    case True
    then show ?thesis by (simp add: dir_ok_def next_byte_def store_byte_def grow_def Let_def)
  next
    case False
    then have "p < length xs" using file_rep_cache(4)[OF 1(2)] p1 file_rep_cache(6)[OF 1(2)] by simp
    then have "calm d d1" using 1(6) file_rep_byte(1)[OF r] by blast
    moreover have "calm d1 (next_byte k ?d2)"
      using False calm_trans[OF calm_upc calm_upc] by (simp add: next_byte_def store_byte_def grow_def Let_def)
    ultimately show ?thesis using calm_dir_ok calm_trans ok by blast
  qed
  ultimately show ?thesis using 3 change_trans[OF change_trans[OF 1(3) 2(2)]] by blast
qed

section \<open>Many bytes\<close>

text \<open>The number of units of \<open>u\<close> bytes for a file of \<open>b\<close> bytes.\<close>

definition need :: "nat \<Rightarrow> nat \<Rightarrow> nat" where
  "need u b = (b + u - 1) div u"

lemma need_mono: "b \<le> b' \<Longrightarrow> need u b \<le> need u b'"
  by (simp add: need_def div_le_mono)

lemma need_Suc: "0 < u \<Longrightarrow> need u (Suc p) = Suc (p div u)"
  using div_add_self2[of u p] by (simp add: need_def)

lemma need_le: "b \<le> u * m \<Longrightarrow> need u b \<le> m"
  unfolding need_def by (cases "u = 0") (simp_all add: less_Suc_eq_le[symmetric] div_less_iff_less_mult algebra_simps)

lemma file_rep_need:
  assumes "file_rep K I D m n d k xs"
  shows "need 8192 (nat (lfpos (lfltab d k))) \<le> m" "need 512 (nat (lfpos (lfltab d k))) \<le> n"
  using file_rep_cache(2,3,7)[OF assms] by (auto intro!: need_le)

lemma map_shift: "map (\<lambda>j. f (i + int j)) [0..<Suc n] = f i # map (\<lambda>j. f (i + 1 + int j)) [0..<n]"
  unfolding upt_conv_Cons[OF zero_less_Suc] list.map map_Suc_upt[symmetric] by (simp add: comp_def add.assoc)

lemma write_loop_rep:
  assumes "file_rep K I D m n d k xs" "lfstate (lfltab d k) = LF_USED" "idle_file s d k"
    and "p = nat (lfpos (lfltab d k))" "need 8192 (p + c) \<le> length I" "need 512 (p + c) \<le> length D"
    and "\<And>j. j < c \<Longrightarrow> 0 \<le> buff (i + int j) \<and> buff (i + int j) < 256"
  shows "\<exists>d'. write_loop c k buff i count (s, d) = Return count (s, d') \<and>
    file_rep K I D (max m (need 8192 (p + c))) (max n (need 512 (p + c))) d' k (overwrite xs p (map (\<lambda>j. buff (i + int j)) [0..<c])) \<and>
    change K I D k d d' \<and> lfpos (lfltab d' k) = lfpos (lfltab d k) + int c \<and> (dir_ok d \<longrightarrow> dir_ok d')"
  using assms
proof (induction c arbitrary: d m n xs p i)
  case 0
  then show ?case using file_rep_need[OF 0(1)] by (simp add: max_def)
next
  case (Suc c)
  note r = Suc.prems(1)
  have nm: "need 8192 (Suc p) \<le> need 8192 (p + Suc c)" "need 512 (Suc p) \<le> need 512 (p + Suc c)" by (simp_all add: need_mono)
  then have room: "p div 8192 < length I" "p div 512 < length D" using Suc.prems(5,6) by (simp_all add: need_Suc)
  have ch: "0 \<le> buff i" "buff i < 256" using Suc.prems(7)[of 0] by simp_all
  obtain d1 where 1: "lflputc k (buff i) (s, d) = Return OK (s, d1)"
    "file_rep K I D (max m (need 8192 (Suc p))) (max n (need 512 (Suc p))) d1 k (overwrite xs p [buff i])"
    "change K I D k d d1" "lfpos (lfltab d1 k) = lfpos (lfltab d k) + 1" "dir_ok d \<longrightarrow> dir_ok d1"
    using putc_rep[OF r Suc.prems(2,3) ch Suc.prems(4) room] by (auto simp: need_Suc)
  have p1: "Suc p = nat (lfpos (lfltab d1 k))" using 1(4) Suc.prems(4) file_rep_cache(6)[OF r] by simp
  have u1: "lfstate (lfltab d1 k) = LF_USED" using 1(3) Suc.prems(2) by (simp add: change_def)
  have pl: "p \<le> length xs" using Suc.prems(4) file_rep_cache(7)[OF r] by simp
  obtain d2 where 2: "write_loop c k buff (i + 1) count (s, d1) = Return count (s, d2)"
    "file_rep K I D (max (max m (need 8192 (Suc p))) (need 8192 (Suc p + c))) (max (max n (need 512 (Suc p))) (need 512 (Suc p + c))) d2 k
       (overwrite (overwrite xs p [buff i]) (Suc p) (map (\<lambda>j. buff (i + 1 + int j)) [0..<c]))"
    "change K I D k d1 d2" "lfpos (lfltab d2 k) = lfpos (lfltab d1 k) + int c" "dir_ok d1 \<longrightarrow> dir_ok d2"
    using Suc.IH[OF 1(2) u1 idle_change[OF Suc.prems(3) 1(3)] p1, of "i + 1"] Suc.prems(5,6) Suc.prems(7)[of "Suc _"]
    by (auto simp: add.assoc)
  have mx: "max (max m (need 8192 (Suc p))) (need 8192 (Suc p + c)) = max m (need 8192 (p + Suc c))"
    "max (max n (need 512 (Suc p))) (need 512 (Suc p + c)) = max n (need 512 (p + Suc c))"
    using nm by (auto simp: max_def)
  have "write_loop (Suc c) k buff i count (s, d) = Return count (s, d2)" using 1(1) 2(1) by simp
  moreover have "overwrite (overwrite xs p [buff i]) (Suc p) (map (\<lambda>j. buff (i + 1 + int j)) [0..<c]) =
      overwrite xs p (map (\<lambda>j. buff (i + int j)) [0..<Suc c])"
    unfolding map_shift[of buff i c] by (rule overwrite_Cons[OF pl, symmetric])
  ultimately show ?case using 2(2)[unfolded mx] 1(4,5) 2(4,5) change_trans[OF 1(3) 2(3)] by (intro exI[of _ d2]) simp
qed

lemma read_loop_rep:
  fixes c :: nat
  assumes "file_rep K I D m n d k xs" "lfstate (lfltab d k) = LF_USED" "idle_file s d k"
  defines "out \<equiv> take c (drop (nat (lfpos (lfltab d k))) xs)"
  shows "\<exists>d'. read_loop c k acc (s, d) =
      Return (if length out < c \<and> acc @ out = [] then EOF else int (length (acc @ out)), acc @ out) (s, d') \<and>
    file_rep K I D m n d' k xs \<and> change K I D k d d' \<and> lfpos (lfltab d' k) = lfpos (lfltab d k) + int (length out) \<and> calm d d'"
  using assms(1-3) unfolding out_def
proof (induction c arbitrary: d acc)
  case (Suc c)
  note r = Suc.prems(1)
  let ?p = "nat (lfpos (lfltab d k))"
  have eof: "EOF \<noteq> SYSERR" by simp
  show ?case
  proof (cases "lfpos (lfltab d k) = int (length xs)")
    case True
    then show ?thesis using getc_end[OF Suc.prems True] eof Suc.prems by (intro exI[of _ d]) simp
  next
    case False
    then have p: "lfpos (lfltab d k) < int (length xs)" "?p < length xs" "0 \<le> lfpos (lfltab d k)"
      using file_rep_cache(6,7)[OF r] by auto
    obtain d1 where 1: "lflgetc k (s, d) = Return (xs ! ?p) (s, d1)" "file_rep K I D m n d1 k xs" "change K I D k d d1"
      "lfpos (lfltab d1 k) = lfpos (lfltab d k) + 1" "calm d d1"
      using getc_rep[OF Suc.prems p(1)] by blast
    have u1: "lfstate (lfltab d1 k) = LF_USED" using 1(3) Suc.prems(2) by (simp add: change_def)
    have p1: "nat (lfpos (lfltab d1 k)) = Suc ?p" using 1(4) p(3) by simp
    have out: "take (Suc c) (drop ?p xs) = xs ! ?p # take c (drop (Suc ?p) xs)" using p(2) by (simp add: Cons_nth_drop_Suc[symmetric])
    have "0 \<le> xs ! ?p" "xs ! ?p < 256" using file_rep_cache(5)[OF r] p(2) by simp_all
    then have low: "0xff AND xs ! ?p = xs ! ?p" and ne: "xs ! ?p \<noteq> SYSERR" "xs ! ?p \<noteq> EOF"
      using take_bit_int_eq_self[of "xs ! ?p" 8] by (simp_all add: take_bit_eq_mask mask_eq_exp_minus_1 and.commute)
    have "read_loop (Suc c) k acc (s, d) = read_loop c k (acc @ [xs ! ?p]) (s, d1)" using 1(1) ne low by simp
    then show ?thesis
      using Suc.IH[OF 1(2) u1 idle_change[OF Suc.prems(3) 1(3)], of "acc @ [xs ! ?p]"] change_trans[OF 1(3)] calm_trans[OF 1(5)] 1(4)
      unfolding p1 out by force
  qed
qed simp

lemma seek_rep:
  assumes r: "file_rep K I D m n d k xs" and u: "lfstate (lfltab d k) = LF_USED" and s: "idle_file s d k"
    and p: "0 \<le> p" "p \<le> int (length xs)"
  shows "\<exists>d'. lflseek k p (s, d) = Return OK (s, d') \<and> file_rep K I D m n d' k xs \<and> change K I D k d d' \<and> lfpos (lfltab d' k) = p \<and> calm d d'"
proof -
  let ?d = "upc k (\<lambda>c. c\<lparr>lfpos := p, lfbyte := LF_BLKSIZ\<rparr>) d"
  have "cache_ok (ram ?d) (lfltab ?d k) (take m I) (take n D) xs" using file_rep_cache(1)[OF r] p by (simp add: cache_ok_def)
  then have "file_rep K I D m n ?d k xs" by (intro file_rep_views[OF r]) (simp_all add: iview_def dview_def)
  moreover have "lflseek k p (s, d) = Return OK (s, ?d)"
    using enter_idle[OF s] release_idle[OF s, of ?d] u file_rep_cache(4)[OF r] p by (simp add: lflseek_def Let_def)
  ultimately show ?thesis by (intro exI[of _ ?d]) (simp add: change_def)
qed

section \<open>Files\<close>

text \<open>A file of the directory that is open.\<close>

definition open_file :: "int \<Rightarrow> layout \<Rightarrow> lfs \<Rightarrow> (int \<Rightarrow> int list) \<Rightarrow> kstate \<Rightarrow> int \<Rightarrow> int \<Rightarrow> bool" where
  "open_file K lay d files s e k \<longleftrightarrow> fs_rep K lay d files \<and> who lay e = Some k \<and> idle_file s d k"

lemma open_file_rep:
  assumes "open_file K lay d files s e k"
  shows "file_rep K (ipool lay e) (dpool lay e) (length (ibs lay e)) (length (dbs lay e)) d k (files e)"
    "lfstate (lfltab d k) = LF_USED" "idle_file s d k"
  using assms fs_rep_open who_ok_range by (auto simp: open_file_def fs_rep_def)

lemma open_file_step:
  assumes "open_file K lay d files s e k" "file_rep K I D m n d' k xs" "change K (ipool lay e) (dpool lay e) k d d'"
    and "set I = set (ipool lay e)" "set D = set (dpool lay e)"
  shows "open_file K (give lay e I D m n) d' (files(e := xs)) s e k"
  using fs_rep_file[OF _ _ assms(3-5,2)] assms(1) idle_change[OF _ assms(3)] by (simp add: open_file_def give_def)

lemma give_same: "give lay e (ipool lay e) (dpool lay e) (length (ibs lay e)) (length (dbs lay e)) = lay"
  by (simp add: give_def)

abbreviation position :: "lfs \<Rightarrow> int \<Rightarrow> nat" where
  "position d k \<equiv> nat (lfpos (lfltab d k))"

text \<open>The layout after the file \<open>e\<close> has grown to \<open>b\<close> bytes.\<close>

definition grown :: "layout \<Rightarrow> int \<Rightarrow> nat \<Rightarrow> layout" where
  "grown lay e b = give lay e (ipool lay e) (dpool lay e) (max (length (ibs lay e)) (need 8192 b)) (max (length (dbs lay e)) (need 512 b))"

definition room_for :: "layout \<Rightarrow> int \<Rightarrow> nat \<Rightarrow> bool" where
  "room_for lay e b \<longleftrightarrow> need 8192 b \<le> length (ipool lay e) \<and> need 512 b \<le> length (dpool lay e)"

definition bytes_of :: "(int \<Rightarrow> int) \<Rightarrow> int \<Rightarrow> int list" where
  "bytes_of buff count = map (\<lambda>j. buff (int j)) [0..<nat count]"

lemma lflwrite_run:
  assumes f: "open_file K lay d files s e k" and c: "0 \<le> count" and b: "\<forall>x\<in>set (bytes_of buff count). 0 \<le> x \<and> x < 256"
    and room: "room_for lay e (position d k + nat count)"
  shows "\<exists>d'. lflwrite k buff count (s, d) = Return count (s, d') \<and>
    open_file K (grown lay e (position d k + nat count)) d' (files(e := overwrite (files e) (position d k) (bytes_of buff count))) s e k \<and>
    lfpos (lfltab d' k) = lfpos (lfltab d k) + count \<and> (dir_ok d \<longrightarrow> dir_ok d')"
proof -
  note o = open_file_rep[OF f]
  have "\<And>j. j < nat count \<Longrightarrow> 0 \<le> buff (0 + int j) \<and> buff (0 + int j) < 256" using b by (simp add: bytes_of_def)
  from write_loop_rep[OF o refl, where buff = buff and i = 0 and c = "nat count", OF _ _ this, where count = count] room
  obtain d' where "write_loop (nat count) k buff 0 count (s, d) = Return count (s, d')"
    "file_rep K (ipool lay e) (dpool lay e) (max (length (ibs lay e)) (need 8192 (position d k + nat count)))
      (max (length (dbs lay e)) (need 512 (position d k + nat count))) d' k (overwrite (files e) (position d k) (bytes_of buff count))"
    "change K (ipool lay e) (dpool lay e) k d d'" "lfpos (lfltab d' k) = lfpos (lfltab d k) + int (nat count)"
    "dir_ok d \<longrightarrow> dir_ok d'"
    by (auto simp: bytes_of_def room_for_def)
  then show ?thesis using open_file_step[OF f] c by (intro exI[of _ d']) (simp add: lflwrite_def grown_def)
qed

lemma lflread_run:
  assumes f: "open_file K lay d files s e k" and c: "0 \<le> count"
  defines "out \<equiv> take (nat count) (drop (position d k) (files e))"
  shows "\<exists>d'. lflread k count (s, d) = Return (if out = [] \<and> 0 < count then EOF else int (length out), out) (s, d') \<and>
    open_file K lay d' files s e k \<and> lfpos (lfltab d' k) = lfpos (lfltab d k) + int (length out) \<and> calm d d'"
proof -
  note o = open_file_rep[OF f]
  from read_loop_rep[OF o, where c = "nat count" and acc = "[]", unfolded append_Nil, folded out_def]
  obtain d' where d': "read_loop (nat count) k [] (s, d) = Return (if length out < nat count \<and> out = [] then EOF else int (length out), out) (s, d')"
    "file_rep K (ipool lay e) (dpool lay e) (length (ibs lay e)) (length (dbs lay e)) d' k (files e)"
    "change K (ipool lay e) (dpool lay e) k d d'" "lfpos (lfltab d' k) = lfpos (lfltab d k) + int (length out)" "calm d d'"
    by blast
  have "open_file K lay d' files s e k" using open_file_step[OF f d'(2,3) refl refl] unfolding give_same by simp
  then show ?thesis using d'(1,4,5) c by (intro exI[of _ d']) (auto simp: lflread_def)
qed

lemma lflseek_run:
  assumes f: "open_file K lay d files s e k" and p: "0 \<le> p" "p \<le> int (length (files e))"
  shows "\<exists>d'. lflseek k p (s, d) = Return OK (s, d') \<and> open_file K lay d' files s e k \<and> lfpos (lfltab d' k) = p \<and> calm d d'"
proof -
  obtain d' where d': "lflseek k p (s, d) = Return OK (s, d')"
    "file_rep K (ipool lay e) (dpool lay e) (length (ibs lay e)) (length (dbs lay e)) d' k (files e)"
    "change K (ipool lay e) (dpool lay e) k d d'" "lfpos (lfltab d' k) = p" "calm d d'"
    using seek_rep[OF open_file_rep[OF f] p] by blast
  show ?thesis using open_file_step[OF f d'(2,3) refl refl] d'(1,4,5) unfolding give_same by auto
qed

end
