(* ===== verification/Lfs_Files.thy ===== *)
theory Lfs_Files
  imports Lfs_Spec
begin

text \<open>Closing, truncating and opening files, and the directory on the disk after a restart.\<close>

section \<open>Closing\<close>

lemma file_ok_clean:
  assumes r: "file_rep K I D m n d k xs" and c: "\<not> lfibdirty (lfltab d k)" "\<not> lfdbdirty (lfltab d k)"
  shows "file_ok (ram d) (ent_of d k) None (take m I) (take n D) xs"
proof (rule file_ok_views[OF file_rep_file(1)[OF r]])
  show "\<forall>i\<in>set (take m I). iview (ram d) None i = iview (ram d) (Some (lfltab d k)) i"
    using clean_iview[OF r c(1)] by (simp add: iview_def)
  show "\<forall>j<length xs. dview (ram d) None (take n D ! (j div 512)) ! (j mod 512) =
      dview (ram d) (Some (lfltab d k)) (take n D ! (j div 512)) ! (j mod 512)"
    using clean_dview[OF r c(2)] file_rep_byte[OF r] by (simp add: dview_def)
qed simp

lemma fs_rep_cong:
  assumes "fs_rep K lay d files" "ram d' = ram d" "lf_dir d' = lf_dir d" "lf_dirpresent d'" "who_ok lay' d'"
    and "ibs lay' = ibs lay" "dbs lay' = dbs lay" "ifree lay' = ifree lay" "dfree lay' = dfree lay"
    and "\<And>e. 0 \<le> e \<Longrightarrow> e < lfd_nfiles (lf_dir d) \<Longrightarrow>
        file_ok (ram d) (entry d e) (map_option (lfltab d') (who lay' e)) (ibs lay e) (dbs lay e) (files e)"
  shows "fs_rep K lay' d' files"
  using assms unfolding fs_rep_def by simp

lemma close_step:
  assumes f: "open_file K lay d files s e k" and c: "\<not> lfibdirty (lfltab d k)" "\<not> lfdbdirty (lfltab d k)"
  shows "fs_rep K (lay\<lparr>who := (who lay)(e := None)\<rparr>) (upc k (\<lambda>c. c\<lparr>lfstate := LF_FREE\<rparr>) d) files"
proof -
  let ?d = "upc k (\<lambda>c. c\<lparr>lfstate := LF_FREE\<rparr>) d"
  have r: "fs_rep K lay d files" "who lay e = Some k" using f by (simp_all add: open_file_def)
  then have w: "who_ok lay d" by (simp add: fs_rep_def)
  note we = who_ok_range[OF w r(2)]
  have other: "k' \<noteq> k" if "who lay e' = Some k'" "e' \<noteq> e" for e' k' using who_ok_range[OF w that(1)] we that(2) by auto
  show ?thesis
  proof (rule fs_rep_cong[OF r(1)])
    show "who_ok (lay\<lparr>who := (who lay)(e := None)\<rparr>) ?d"
      unfolding who_ok_def
    proof (intro conjI allI impI)
      fix e' k' assume h: "who (lay\<lparr>who := (who lay)(e := None)\<rparr>) e' = Some k'"
      then have h': "who lay e' = Some k'" "e' \<noteq> e" by (simp_all split: if_splits)
      then show "0 \<le> e'" "e' < lfd_nfiles (lf_dir ?d)" "0 \<le> k'" "k' < Nlfl" "lfstate (lfltab ?d k') = LF_USED" "lfdirptr (lfltab ?d k') = e'"
        using who_ok_range[OF w h'(1)] other[OF h'] by auto
    next
      fix k' assume h: "0 \<le> k' \<and> k' < Nlfl \<and> lfstate (lfltab ?d k') = LF_USED"
      then have "k' \<noteq> k" "lfstate (lfltab d k') = LF_USED" by (auto split: if_splits)
      moreover from this h have "who lay (lfdirptr (lfltab d k')) = Some k'" using w by (simp add: who_ok_def)
      ultimately show "who (lay\<lparr>who := (who lay)(e := None)\<rparr>) (lfdirptr (lfltab ?d k')) = Some k'" using r(2) by auto
    qed
    show "file_ok (ram d) (entry d e') (map_option (lfltab ?d) (who (lay\<lparr>who := (who lay)(e := None)\<rparr>) e')) (ibs lay e') (dbs lay e') (files e')"
      if e': "0 \<le> e'" "e' < lfd_nfiles (lf_dir d)" for e'
    proof (cases "e' = e")
      case True
      then show ?thesis using file_ok_clean[OF open_file_rep(1)[OF f] c] we by simp
    next
      case False
      then have "map_option (lfltab ?d) (who lay e') = map_option (lfltab d) (who lay e')"
        using other[OF _ False] by (cases "who lay e'") auto
      then show ?thesis using r(1) e' False by (simp add: fs_rep_def)
    qed
  qed (use r(1) in \<open>simp_all add: fs_rep_def\<close>)
qed

lemma lflclose_run:
  assumes f: "open_file K lay d files s e k"
  shows "\<exists>d'. lflclose k (s, d) = Return OK (s, d') \<and> fs_rep K (lay\<lparr>who := (who lay)(e := None)\<rparr>) d' files \<and>
    lf_dir d' = lf_dir d \<and> (dir_ok d \<longrightarrow> synced d')"
proof -
  note o = open_file_rep[OF f]
  let ?c = "lf_dirdirty d \<or> lfdbdirty (lfltab d k) \<or> lfibdirty (lfltab d k)"
  obtain d1 where 1: "close_flush k d = Some d1" "open_file K lay d1 files s e k"
    "\<not> lfibdirty (lfltab d1 k)" "\<not> lfdbdirty (lfltab d1 k)" "lfmutex (lfltab d1 k) = lfmutex (lfltab d k)"
    "lf_dir d1 = lf_dir d" "dir_ok d \<longrightarrow> synced d1"
  proof (cases ?c)
    case True
    obtain d1 where d1: "lfflush k d = Some (OK, d1)"
      "file_rep K (ipool lay e) (dpool lay e) (length (ibs lay e)) (length (dbs lay e)) d1 k (files e)"
      "change K (ipool lay e) (dpool lay e) k d d1"
      "lfltab d1 k = (lfltab d k)\<lparr>lfibdirty := False, lfdbdirty := False\<rparr>" "calm d d1" "lf_dirdirty d \<or> synced d \<longrightarrow> synced d1"
      using lfflush_rep[OF o(1,2)] by blast
    have "open_file K lay d1 files s e k" using open_file_step[OF f d1(2,3) refl refl] unfolding give_same by simp
    then show ?thesis
      by (intro that[of d1]) (use True d1 in \<open>simp_all add: close_flush_def calm_def dir_ok_def\<close>)
  next
    case False
    then show ?thesis by (intro that[of d]) (use f in \<open>simp_all add: close_flush_def dir_ok_def\<close>)
  qed
  let ?d = "upc k (\<lambda>c. c\<lparr>lfstate := LF_FREE\<rparr>) d1"
  have "lflclose k (s, d) = Return OK (s, ?d)"
    using enter_idle[OF o(3)] release_idle[OF o(3), of ?d] o(2) 1(1,5) by (simp add: lflclose_def onu_def)
  then show ?thesis using close_step[OF 1(2,3,4)] 1(6,7) by (intro exI[of _ ?d]) (simp add: synced_def)
qed

section \<open>Truncation\<close>

text \<open>Freeing data blocks changes the directory's list and these blocks only.\<close>

definition freed :: "int \<Rightarrow> int set \<Rightarrow> lfs \<Rightarrow> lfs \<Rightarrow> bool" where
  "freed K B d d' \<longleftrightarrow> lfltab d' = lfltab d \<and> lfd_files (lf_dir d') = lfd_files (lf_dir d) \<and> lfd_ifree (lf_dir d') = lfd_ifree (lf_dir d) \<and>
     lfd_nfiles (lf_dir d') = lfd_nfiles (lf_dir d) \<and> lf_mutex d' = lf_mutex d \<and> lf_dirpresent d' = lf_dirpresent d \<and>
     (\<forall>i. ivalid K i \<longrightarrow> ibof (ram d') i = ibof (ram d) i) \<and> (\<forall>b. dvalid K b \<and> b \<notin> B \<longrightarrow> dbof (ram d') b = dbof (ram d) b)"

lemma freed_trans: "freed K B d d' \<Longrightarrow> freed K B' d' d'' \<Longrightarrow> freed K (B \<union> B') d d''"
  unfolding freed_def by (elim conjE, intro conjI) simp_all

lemma freed_names: "freed K B d d' \<Longrightarrow> names_ok d' = names_ok d"
  by (simp add: freed_def names_ok_def)

lemma lfdbfree_rep:
  assumes K: "isectors K" and nm: "names_ok d" and b: "dvalid K b" "b \<notin> set fd" and fd: "\<forall>x\<in>set fd. dvalid K x"
    and ch: "dchain (dbof (ram d)) (lfd_dfree (lf_dir d)) fd" and j: "length (junk b) = 508"
  shows "\<exists>d'. lfdbfree junk b d = Some d' \<and> dchain (dbof (ram d')) (lfd_dfree (lf_dir d')) (b # fd) \<and> freed K {b} d d'"
proof -
  let ?h = "lfd_dfree (lf_dir d)"
  let ?u = "updir (\<lambda>r. r\<lparr>lfd_dfree := b\<rparr>) d"
  let ?M = "putb (512 * b) (wbytes ?h @ junk b) (ram d)"
  let ?d = "?u\<lparr>ram := putb 0 (enc_dir (lf_dir ?u)) ?M\<rparr>"
  have nu: "names_ok ?u" using nm by (simp add: names_ok_def updir_def)
  have db: "dbof (ram ?d) x = (if x = b then wbytes ?h @ junk b else dbof (ram d) x)" if "dvalid K x" for x
    using write_dir_frame(2)[OF nu K that] dbof_put_db[of "wbytes ?h @ junk b" b "ram d" x] j by simp
  have ib: "ibof (ram ?d) i = ibof (ram d) i" if "ivalid K i" for i
    using write_dir_frame(1)[OF nu K that] ibof_put_db[OF that b(1) K] by simp
  have "?h = LF_DNULL \<or> dvalid K ?h" using ch fd by (cases fd) auto
  then have "i32 (wat (wbytes ?h @ junk b) 0) = ?h" using K by (auto simp: wat_wbytes i32_u32 dvalid_def isectors_def)
  moreover have "dchain (dbof (ram ?d)) ?h fd" using ch dchain_cong[of fd "dbof (ram ?d)" "dbof (ram d)"] db fd b(2) by fastforce
  ultimately have "dchain (dbof (ram ?d)) (lfd_dfree (lf_dir ?d)) (b # fd)" using db[OF b(1)] by (simp add: updir_def)
  moreover have "lfdbfree junk b d = Some ?d"
    using ramwrite_eq[OF b(1) K] by (simp add: lfdbfree_def upram_def write_dir_eq updir_def Let_def)
  moreover have "freed K {b} d ?d" using db ib by (simp add: freed_def updir_def)
  ultimately show ?thesis by blast
qed

lemma free_blocks_rep:
  assumes "isectors K" "names_ok d" "\<forall>b\<in>set bs. b \<noteq> LF_DNULL \<longrightarrow> dvalid K b \<and> length (junk b) = 508"
    and "distinct (filter (\<lambda>b. b \<noteq> LF_DNULL) bs @ fd)" "\<forall>x\<in>set fd. dvalid K x" "dchain (dbof (ram d)) (lfd_dfree (lf_dir d)) fd"
  shows "\<exists>d'. free_blocks junk bs d = Some d' \<and>
    dchain (dbof (ram d')) (lfd_dfree (lf_dir d')) (rev (filter (\<lambda>b. b \<noteq> LF_DNULL) bs) @ fd) \<and> freed K (set bs) d d'"
  using assms
proof (induction bs arbitrary: d fd)
  case Nil
  then show ?case by (simp add: freed_def)
next
  case (Cons b bs)
  show ?case
  proof (cases "b = LF_DNULL")
    case True
    then show ?thesis using Cons.IH[OF Cons.prems(1,2) _ _ Cons.prems(5,6)] Cons.prems(3,4) by (auto simp: freed_def)
  next
    case False
    obtain d1 where 1: "lfdbfree junk b d = Some d1" "dchain (dbof (ram d1)) (lfd_dfree (lf_dir d1)) (b # fd)" "freed K {b} d d1"
      using lfdbfree_rep[OF Cons.prems(1,2) _ _ Cons.prems(5,6), of b junk] Cons.prems(3,4) False by auto
    obtain d2 where 2: "free_blocks junk bs d1 = Some d2"
      "dchain (dbof (ram d2)) (lfd_dfree (lf_dir d2)) (rev (filter (\<lambda>b. b \<noteq> LF_DNULL) bs) @ b # fd)" "freed K (set bs) d1 d2"
      using Cons.IH[of d1 "b # fd"] 1(2) Cons.prems freed_names[OF 1(3)] False by auto
    have "freed K (set (b # bs)) d d2" using freed_trans[OF 1(3) 2(3)] by simp
    then show ?thesis using 1(1) 2(1,2) False by simp
  qed
qed

lemma dba_at_filter:
  assumes "\<forall>b\<in>set ds. b \<noteq> LF_DNULL"
  shows "filter (\<lambda>b. b \<noteq> LF_DNULL) (dba_at ds j) = take 16 (drop (16 * j) ds)"
proof -
  have "filter (\<lambda>b. b \<noteq> LF_DNULL) (map (\<lambda>i. if 16 * j + i < length ds then ds ! (16 * j + i) else LF_DNULL) [0..<c]) = take c (drop (16 * j) ds)" for c
  proof (induction c)
    case (Suc c)
    show ?case
    proof (cases "16 * j + c < length ds")
      case True
      moreover from True have "ds ! (16 * j + c) \<noteq> LF_DNULL" using assms nth_mem by blast
      ultimately show ?thesis using Suc by (simp add: take_Suc_conv_app_nth)
    qed (use Suc in simp)
  qed simp
  then show ?thesis by (simp add: dba_at_def)
qed

lemma ichain_nths:
  assumes "is \<noteq> []" "p = is ! 0" "\<And>x. x < length is \<Longrightarrow> ib_next (iv (is ! x)) = (if Suc x < length is then is ! Suc x else LF_INULL)"
  shows "ichain iv p is"
  using assms
proof (induction "is" arbitrary: p)
  case (Cons i "is")
  have nx: "ib_next (iv i) = (if is = [] then LF_INULL else is ! 0)" using Cons.prems(3)[of 0] by simp
  have "ichain iv (is ! 0) is" if "is \<noteq> []" using Cons.IH[OF that refl] Cons.prems(3)[of "Suc _"] by simp
  then show ?case using nx Cons.prems(2) by (cases "is = []") simp_all
qed simp

text \<open>The state of the walk at the \<open>j\<close>th index block.\<close>

definition trunc_inv :: "int \<Rightarrow> int list \<Rightarrow> int list \<Rightarrow> nat \<Rightarrow> nat \<Rightarrow> lfs \<Rightarrow> nat \<Rightarrow> lfs \<Rightarrow> bool" where
  "trunc_inv K I D m n d0 j d \<longleftrightarrow> lfltab d = lfltab d0 \<and> lfd_files (lf_dir d) = lfd_files (lf_dir d0) \<and>
     lfd_nfiles (lf_dir d) = lfd_nfiles (lf_dir d0) \<and> lf_mutex d = lf_mutex d0 \<and> lf_dirpresent d = lf_dirpresent d0 \<and>
     (\<forall>i. ivalid K i \<and> i \<notin> set (take j I) \<longrightarrow> ibof (ram d) i = ibof (ram d0) i) \<and>
     (\<forall>b. dvalid K b \<and> b \<notin> set D \<longrightarrow> dbof (ram d) b = dbof (ram d0) b) \<and>
     (\<forall>x<j. ib_next (ibof (ram d) (I ! x)) = (if Suc x < length I then I ! Suc x else LF_INULL)) \<and>
     dchain (dbof (ram d)) (lfd_dfree (lf_dir d)) (rev (take (16 * j) (take n D)) @ drop n D)"

lemma rev_take_step: "rev (take 16 (drop (16 * j) ds)) @ rev (take (16 * j) ds) = rev (take (16 * Suc j) ds)"
  using take_add[of "16 * j" 16 ds] by (simp add: add.commute)

lemma trunc_step:
  assumes inv: "trunc_inv K I D m n d0 j d" and b: "blocks_ok K I D m n" and nm: "names_ok d0" and j: "j < m"
    and pt: "ib_dba (ibof (ram d0) (I ! j)) = dba_at (take n D) j" and junk: "\<And>b. b \<in> set D \<Longrightarrow> length (junk b) = 508"
  defines "nx \<equiv> if Suc j < length I then I ! Suc j else LF_INULL"
  shows "\<exists>d1 d2. free_blocks junk (ib_dba (ibof (ram d) (I ! j))) d = Some d1 \<and>
    upram (lfibput (I ! j) \<lparr>ib_next = nx, ib_offset = 0, ib_dba = replicate LF_IBLEN LF_DNULL\<rparr>) d1 = Some d2 \<and>
    trunc_inv K I D m n d0 (Suc j) d2"
proof -
  let ?T = "take n D"
  have K: "isectors K" and I: "distinct I" "\<And>x. x < length I \<Longrightarrow> ivalid K (I ! x)" and D: "distinct D" "\<And>b. b \<in> set D \<Longrightarrow> dvalid K b"
    and l: "m \<le> length I" using b by (auto simp: blocks_ok_def)
  have jl: "j < length I" using j l by simp
  have nn: "\<forall>b\<in>set ?T. b \<noteq> LF_DNULL" using D(2) K by (force simp: dvalid_def isectors_def dest: in_set_takeD)
  have "I ! j \<notin> set (take j I)" using I(1) jl by (simp add: in_set_conv_nth nth_eq_iff_index_eq)
  then have dba: "ib_dba (ibof (ram d) (I ! j)) = dba_at ?T j" using inv I(2)[OF jl] pt by (simp add: trunc_inv_def)
  have in_D: "b \<in> set D" if "b \<in> set (dba_at ?T j)" "b \<noteq> LF_DNULL" for b
  proof -
    have "b \<in> set (filter (\<lambda>b. b \<noteq> LF_DNULL) (dba_at ?T j))" using that by simp
    then show ?thesis unfolding dba_at_filter[OF nn] by (meson in_set_takeD in_set_dropD)
  qed
  have "distinct (take 16 (drop (16 * j) ?T) @ rev (take (16 * j) ?T) @ drop n D)"
  proof -
    have "distinct (take (16 * Suc j) ?T @ drop n D)"
      using D(1) by (metis append_take_drop_id distinct_append distinct_take set_take_subset Int_mono subset_empty order_refl)
    then have "distinct ((take (16 * j) ?T @ take 16 (drop (16 * j) ?T)) @ drop n D)"
      unfolding take_add[symmetric] by (simp add: add.commute)
    then show ?thesis unfolding distinct_append set_append set_rev distinct_rev by blast
  qed
  moreover have "dchain (dbof (ram d)) (lfd_dfree (lf_dir d)) (rev (take (16 * j) ?T) @ drop n D)" using inv by (simp add: trunc_inv_def)
  moreover have "names_ok d" using inv nm by (simp add: trunc_inv_def names_ok_def)
  moreover have "\<forall>x\<in>set (rev (take (16 * j) ?T) @ drop n D). dvalid K x" using D(2) by (auto dest: in_set_takeD in_set_dropD)
  ultimately obtain d1 where 1: "free_blocks junk (dba_at ?T j) d = Some d1"
    "dchain (dbof (ram d1)) (lfd_dfree (lf_dir d1)) (rev (take 16 (drop (16 * j) ?T)) @ rev (take (16 * j) ?T) @ drop n D)"
    "freed K (set (dba_at ?T j)) d d1"
    using free_blocks_rep[OF K, of d "dba_at ?T j" junk "rev (take (16 * j) ?T) @ drop n D"] in_D D(2) junk
    unfolding dba_at_filter[OF nn] by blast
  let ?ib = "\<lparr>ib_next = nx, ib_offset = 0, ib_dba = replicate LF_IBLEN LF_DNULL\<rparr>"
  have v: "ivalid K (I ! j)" using I(2)[OF jl] .
  have wf: "wf_ib ?ib" using I(2)[of "Suc j"] K by (auto simp: wf_ib_def nx_def ivalid_def isectors_def)
  let ?d2 = "put_ib (I ! j) ?ib d1"
  have ibs: "ibof (ram ?d2) i = (if i = I ! j then ?ib else ibof (ram d1) i)" if "ivalid K i" for i
    using that v ibof_put_ib[OF _ _ wf, of "I ! j" i "ram d1"] by (simp add: ivalid_def put_ib_def)
  have dbs: "dbof (ram ?d2) b = dbof (ram d1) b" if "dvalid K b" for b
    using dbof_put_ib[OF v that K, of ?ib "ram d1"] by (simp add: put_ib_def)
  have "dchain (dbof (ram ?d2)) (lfd_dfree (lf_dir d1)) (rev (take (16 * Suc j) ?T) @ drop n D)"
  proof -
    have "\<forall>b\<in>set (rev (take (16 * Suc j) ?T) @ drop n D). dvalid K b" using D(2) by (auto dest: in_set_takeD in_set_dropD)
    then have "dchain (dbof (ram ?d2)) p (rev (take (16 * Suc j) ?T) @ drop n D) = dchain (dbof (ram d1)) p (rev (take (16 * Suc j) ?T) @ drop n D)" for p
      by (intro dchain_cong dbs) blast
    moreover have "rev (take (16 * Suc j) ?T) @ drop n D = rev (take 16 (drop (16 * j) ?T)) @ rev (take (16 * j) ?T) @ drop n D"
      unfolding rev_take_step[symmetric] by simp
    ultimately show ?thesis using 1(2) by metis
  qed
  moreover have "ib_next (ibof (ram ?d2) (I ! x)) = (if Suc x < length I then I ! Suc x else LF_INULL)" if "x < Suc j" for x
  proof (cases "x = j")
    case True
    then show ?thesis using ibs[OF v] by (simp add: nx_def)
  next
    case False
    then have x: "x < j" "x < length I" using that jl by simp_all
    then have "I ! x \<noteq> I ! j" using I(1) jl by (simp add: nth_eq_iff_index_eq)
    then show ?thesis using ibs[OF I(2)[OF x(2)]] inv 1(3) x I(2)[OF x(2)] by (simp add: trunc_inv_def freed_def)
  qed
  moreover have "ibof (ram ?d2) i = ibof (ram d0) i" if "ivalid K i" "i \<notin> set (take (Suc j) I)" for i
    using ibs[OF that(1)] that inv 1(3) jl by (simp add: trunc_inv_def freed_def take_Suc_conv_app_nth)
  moreover have "dbof (ram ?d2) b = dbof (ram d0) b" if "dvalid K b" "b \<notin> set D" for b
  proof -
    have "b \<noteq> LF_DNULL" using that(1) K by (auto simp: dvalid_def isectors_def)
    then have "b \<notin> set (dba_at ?T j)" using in_D that(2) by blast
    then show ?thesis using dbs[OF that(1)] inv 1(3) that by (simp add: trunc_inv_def freed_def)
  qed
  ultimately have "trunc_inv K I D m n d0 (Suc j) ?d2"
    using inv 1(3) by (simp add: trunc_inv_def freed_def put_ib_def)
  moreover have "upram (lfibput (I ! j) ?ib) d1 = Some ?d2" using lfibput_eq[OF v K, of ?ib] by (simp add: upram_def put_ib_def)
  ultimately show ?thesis using 1(1) dba by auto
qed

lemma trunc_walk_rep:
  assumes b: "blocks_ok K I D m n" and nm: "names_ok d0"
    and ibs: "\<And>j. j < m \<Longrightarrow> ib_dba (ibof (ram d0) (I ! j)) = dba_at (take n D) j \<and>
        ib_next (ibof (ram d0) (I ! j)) = (if Suc j < m then I ! Suc j else LF_INULL)"
    and junk: "\<And>b. b \<in> set D \<Longrightarrow> length (junk b) = 508"
    and fr: "fr = (if m < length I then I ! m else LF_INULL)"
  shows "j < m \<Longrightarrow> trunc_inv K I D m n d0 j d \<Longrightarrow>
    \<exists>d'. trunc_walk junk (I ! j) fr d = Some d' \<and> trunc_inv K I D m n d0 m d'"
proof (induction "m - j" arbitrary: j d)
  case (Suc x)
  have K: "isectors K" and I: "distinct I" "\<And>x. x < length I \<Longrightarrow> ivalid K (I ! x)" and l: "m \<le> length I"
    using b by (auto simp: blocks_ok_def)
  have jl: "j < length I" using Suc.prems(1) l by simp
  have v: "ivalid K (I ! j)" using I(2)[OF jl] .
  have go: "I ! j \<noteq> fr" using fr v I(1) jl Suc.prems(1) by (auto simp: nth_eq_iff_index_eq ivalid_def)
  have "I ! j \<notin> set (take j I)" using I(1) jl by (simp add: in_set_conv_nth nth_eq_iff_index_eq)
  then have ib: "ibof (ram d) (I ! j) = ibof (ram d0) (I ! j)" using Suc.prems(2) v by (simp add: trunc_inv_def)
  let ?nx = "if Suc j < length I then I ! Suc j else LF_INULL"
  have "Suc j < m \<Longrightarrow> I ! Suc j \<noteq> LF_INULL" using I(2)[of "Suc j"] l by (simp add: ivalid_def)
  then have nx: "(if ib_next (ibof (ram d) (I ! j)) = LF_INULL then fr else ib_next (ibof (ram d) (I ! j))) = ?nx"
    using ib ibs[OF Suc.prems(1)] fr l Suc.prems(1) by (cases "Suc j < m"; cases "Suc j = m") auto
  obtain d1 d2 where d2: "free_blocks junk (ib_dba (ibof (ram d) (I ! j))) d = Some d1"
    "upram (lfibput (I ! j) \<lparr>ib_next = ?nx, ib_offset = 0, ib_dba = replicate LF_IBLEN LF_DNULL\<rparr>) d1 = Some d2"
    "trunc_inv K I D m n d0 (Suc j) d2"
    using trunc_step[of K I D m n d0 j d junk, OF Suc.prems(2) b nm Suc.prems(1) _ junk] ibs[OF Suc.prems(1)] by blast
  have s: "trunc_walk junk (I ! j) fr d = trunc_walk junk ?nx fr d2"
    using go lfibget_eq[OF v K] d2(1,2) nx by (subst trunc_walk.simps) (simp add: Let_def)
  show ?case
  proof (cases "Suc j < m")
    case True
    then have "?nx = I ! Suc j" using l by simp
    then show ?thesis using s Suc.hyps(1)[of "Suc j" d2] Suc.hyps(2) d2(3) True by simp
  next
    case False
    then have m: "Suc j = m" using Suc.prems(1) by simp
    then have "?nx = fr" using fr by simp
    then have "trunc_walk junk (I ! j) fr d = Some d2" using s by (simp add: trunc_walk.simps[of junk fr fr d2])
    then show ?thesis using d2(3) m by simp
  qed
qed simp

lemma trunc_done:
  assumes inv: "trunc_inv K I D m n d0 m d" and b: "blocks_ok K I D m n" and m: "0 < m" "n \<le> 16 * m" and fr: "free_ok (drop m I) fd d0"
  shows "ichain (ibof (ram d)) (I ! 0) I" "dchain (dbof (ram d)) (lfd_dfree (lf_dir d)) (rev (take n D) @ drop n D)"
proof -
  have I: "distinct I" "\<And>i. i \<in> set I \<Longrightarrow> ivalid K i" and l: "m \<le> length I" using b by (auto simp: blocks_ok_def)
  have ch: "ichain (ibof (ram d0)) (lfd_ifree (lf_dir d0)) (drop m I)" using fr by (simp add: free_ok_def)
  show "ichain (ibof (ram d)) (I ! 0) I"
  proof (rule ichain_nths)
    fix x assume x: "x < length I"
    show "ib_next (ibof (ram d) (I ! x)) = (if Suc x < length I then I ! Suc x else LF_INULL)"
    proof (cases "x < m")
      case True
      then show ?thesis using inv by (simp add: trunc_inv_def)
    next
      case False
      have "I ! x \<notin> set (take m I)" using False I(1) x l by (auto simp: in_set_conv_nth nth_eq_iff_index_eq)
      then have "ibof (ram d) (I ! x) = ibof (ram d0) (I ! x)" using inv I(2) x by (simp add: trunc_inv_def)
      then show ?thesis using ichain_nth[OF ch, of "x - m"] ichain_last[OF ch, of "x - m"] False x l
        by (cases "Suc x < length I") (auto simp: Suc_diff_le)
    qed
  qed (use l m in auto)
  have "take (16 * m) (take n D) = take n D" using m by simp
  then show "dchain (dbof (ram d)) (lfd_dfree (lf_dir d)) (rev (take n D) @ drop n D)" using inv by (simp add: trunc_inv_def)
qed

lemma lftruncate_rep:
  assumes r: "file_rep K I D m n d k xs" and u: "lfstate (lfltab d k) = LF_USED" and ne: "xs \<noteq> []"
    and junk: "\<And>b. b \<in> set D \<Longrightarrow> length (junk b) = 508"
  shows "\<exists>d'. lftruncate junk k d = Some (OK, d') \<and> file_rep K I (rev (take n D) @ drop n D) 0 0 d' k [] \<and> change K I D k d d' \<and> dir_ok d'"
proof -
  note B = file_rep_blocks[OF r]
  note C = file_rep_cache[OF r]
  define e where "e = lfdirptr (lfltab d k)"
  have n: "0 < n" using C(3) ne by (cases n) simp_all
  then have m: "0 < m" using C(2) by simp
  obtain d1 where 1: "setup_flush k d = Some d1" "file_rep K I D m n d1 k xs" "change K I D k d d1"
    "lfltab d1 k = (lfltab d k)\<lparr>lfibdirty := False, lfdbdirty := False\<rparr>" "calm d d1"
    using setup_flush_rep[OF r u] by blast
  have dir1: "lf_dir d1 = lf_dir d" using 1(5) by (simp add: calm_def)
  have il: "ld_ilist (entry d e) = I ! 0" using file_rep_ilist[OF r] m by (simp add: e_def)
  let ?d2 = "upc k (\<lambda>c. c\<lparr>lfpos := 0, lfinum := LF_INULL, lfdnum := LF_DNULL, lfbyte := LF_BLKSIZ\<rparr>) d1"
  let ?d3 = "(upent e (\<lambda>l. l\<lparr>ld_ilist := LF_INULL, ld_size := 0\<rparr>) ?d2)\<lparr>lf_dirdirty := True\<rparr>"
  have ch0: "ichain (ibof (ram d1)) (lfd_ifree (lf_dir d1)) (drop m I)" "dchain (dbof (ram d1)) (lfd_dfree (lf_dir d1)) (drop n D)"
    using file_rep_free(1)[OF 1(2)] by (simp_all add: free_ok_def)
  have fr: "lfd_ifree (lf_dir d) = (if m < length I then I ! m else LF_INULL)"
    using ichain_hd[OF ch0(1)] ch0(1) dir1 by (cases "m < length I") auto
  have b: "blocks_ok K I D m n" using r by (simp add: file_rep_def)
  have nm: "names_ok ?d3" using file_rep_free(4)[OF 1(2)] by (simp add: names_ok_def)
  have it: "I ! j \<in> set (take m I)" if "j < m" for j using that B(4) by (metis file_rep_file(2)[OF r] nth_mem nth_take)
  have ibs: "ib_dba (ibof (ram ?d3) (I ! j)) = dba_at (take n D) j \<and>
      ib_next (ibof (ram ?d3) (I ! j)) = (if Suc j < m then I ! Suc j else LF_INULL)" if "j < m" for j
    using file_rep_ib(2,3)[OF 1(2) that] clean_iview[OF 1(2) _ it[OF that]] 1(4) by simp
  have inv: "trunc_inv K I D m n ?d3 0 ?d3" using ch0(2) by (simp add: trunc_inv_def)
  obtain d4 where 4: "trunc_walk junk (I ! 0) (lfd_ifree (lf_dir d)) ?d3 = Some d4" "trunc_inv K I D m n ?d3 m d4"
    using trunc_walk_rep[OF b nm ibs, of junk, OF _ junk fr m inv] by blast
  let ?d' = "(updir (\<lambda>r. r\<lparr>lfd_ifree := I ! 0\<rparr>) d4)\<lparr>lf_dirdirty := True\<rparr>"
  have "free_ok (drop m I) (drop n D) ?d3" using ch0 by (simp add: free_ok_def)
  note fin = trunc_done[OF 4(2) b m C(2) this]
  have tab: "lfltab d4 = lfltab ?d3" "lfd_files (lf_dir d4) = lfd_files (lf_dir ?d3)" using 4(2) by (simp_all add: trunc_inv_def)
  have "cache_ok (ram ?d') (lfltab ?d' k) [] [] []"
    using C(8) 1(4) unfolding tab by (simp add: cache_ok_def updir_def tab)
  then have "file_ok (ram ?d') (ent_of ?d' k) (Some (lfltab ?d' k)) [] [] []"
    using 1(4) by (simp add: file_ok_def updir_def tab e_def)
  moreover have "blocks_ok K I (rev (take n D) @ drop n D) 0 0"
    using b distinct_take_drop[OF B(3)] by (auto simp: blocks_ok_def dest: in_set_takeD in_set_dropD)
  moreover have "names_ok ?d'" using nm by (simp add: names_ok_def updir_def tab)
  ultimately have "file_rep K I (rev (take n D) @ drop n D) 0 0 ?d' k []"
    using fin by (simp add: file_rep_def free_ok_def updir_def)
  moreover have "lftruncate junk k d = Some (OK, ?d')"
    using 1(1,4) C(4) ne dir1 il 4(1) by (simp add: lftruncate_def Let_def e_def)
  moreover have "change K I D k d1 ?d'"
    using 4(2) 1(4) by (auto simp: change_def trunc_inv_def updir_def e_def dest: in_set_takeD)
  ultimately show ?thesis using change_trans[OF 1(3)] by (auto simp: dir_ok_def)
qed

lemma trunc_control_run:
  assumes f: "open_file K lay d files s e k" and junk: "\<And>b. dvalid K b \<Longrightarrow> length (junk b) = 508"
  shows "\<exists>lay' d'. lflcontrol junk k LF_CTL_TRUNC (s, d) = Return OK (s, d') \<and> open_file K lay' d' (files(e := [])) s e k \<and>
    (files e \<noteq> [] \<longrightarrow> lay' = give lay e (ipool lay e) (rev (dbs lay e) @ dfree lay) 0 0) \<and> (dir_ok d \<longrightarrow> dir_ok d')"
proof -
  note o = open_file_rep[OF f]
  define fm where "fm = lfmutex (lfltab d k)"
  have sem: "sem_has (set_count fm 0 s) (lf_mutex d) 1"
    using o(3) by (auto simp: idle_file_def idle_def fm_def intro!: set_count_other)
  note w = take_mutex[OF sem] give_mutex[OF sem]
  have ctl: "lflcontrol junk k LF_CTL_TRUNC (s, d) = Return OK (s, d')"
    if "lftruncate junk k d = Some (OK, d')" "lf_mutex d' = lf_mutex d" "lfmutex (lfltab d' k) = fm" for d'
    using enter_idle[OF o(3)] release_idle[OF o(3), of d'] o(2) that w by (simp add: lflcontrol_def onk_def ond_def fm_def)
  show ?thesis
  proof (cases "files e = []")
    case True
    then have "lftruncate junk k d = Some (OK, d)" using file_rep_cache(4)[OF o(1)] by (simp add: lftruncate_def Let_def)
    moreover have "files(e := []) = files" using True by auto
    ultimately show ?thesis using ctl[of d] f True by (auto simp: fm_def)
  next
    case False
    have j: "length (junk b) = 508" if "b \<in> set (dpool lay e)" for b using junk file_rep_blocks(7)[OF o(1) that] .
    obtain d' where d': "lftruncate junk k d = Some (OK, d')" "file_rep K (ipool lay e) (rev (dbs lay e) @ dfree lay) 0 0 d' k []"
      "change K (ipool lay e) (dpool lay e) k d d'" "dir_ok d'"
      using lftruncate_rep[OF o(1,2) False, of junk, OF j] by auto
    have "open_file K (give lay e (ipool lay e) (rev (dbs lay e) @ dfree lay) 0 0) d' (files(e := [])) s e k"
      using open_file_step[OF f d'(2,3)] by simp
    then show ?thesis using ctl[OF d'(1)] d'(3,4) by (auto simp: change_def fm_def)
  qed
qed

end
