(* ===== verification/Lfs_Open.thy ===== *)
theory Lfs_Open
  imports Lfs_Files
begin

text \<open>The directory: its bytes on the disk, its names, and opening files by name.\<close>

section \<open>The bytes of the directory\<close>

lemma drop_concat_map:
  assumes "\<And>x. x < m \<Longrightarrow> length (f x) = c" "i < m"
  shows "drop (c * i) (concat (map f [0..<m])) = f i @ concat (map f [Suc i..<m])"
proof -
  have "length (concat (map f [0..<j])) = c * j" if "j \<le> m" for j
    using that by (induction j) (simp_all add: assms(1))
  moreover have "[0..<m] = [0..<i] @ i # [Suc i..<m]" using assms(2) by (metis upt_add_eq_append upt_conv_Cons le_add_diff_inverse less_imp_le_nat zero_le)
  ultimately show ?thesis using assms(2) by simp
qed

lemma wat_at: "drop k bs = wbytes x @ ys \<Longrightarrow> wat bs k = u32 x"
proof -
  assume d: "drop k bs = wbytes x @ ys"
  have "length (drop k bs) = 4 + length ys" unfolding d by simp
  then have "k + 3 < length bs" by simp
  then show ?thesis using wat_drop[of k bs] d by (simp add: wat_wbytes)
qed

definition ents :: "lfdir \<Rightarrow> int list" where
  "ents r = concat (map (\<lambda>i. enc_ent (lfd_files r (int i))) [0..<20])"

lemma enc_dir_eq:
  "enc_dir r = wbytes (lfd_fsysid r) @ hbytes (lfd_vers r) @ hbytes (lfd_subvers r) @ wbytes (lfd_allzeros r) @
     wbytes (lfd_allones r) @ wbytes (lfd_dfree r) @ wbytes (lfd_ifree r) @ wbytes (lfd_nfiles r) @ ents r @ wbytes (lfd_revid r)"
  by (simp add: enc_dir_def ents_def)

lemma dec_enc_dir:
  assumes n: "\<forall>i. 0 \<le> i \<and> i < 20 \<longrightarrow> length (ld_name (lfd_files r i)) = 16"
  defines "r' \<equiv> dec_dir (enc_dir r)"
  shows "lfd_fsysid r' = u32 (lfd_fsysid r)" "lfd_allzeros r' = u32 (lfd_allzeros r)" "lfd_allones r' = u32 (lfd_allones r)"
    "lfd_dfree r' = i32 (u32 (lfd_dfree r))" "lfd_ifree r' = i32 (u32 (lfd_ifree r))" "lfd_nfiles r' = i32 (u32 (lfd_nfiles r))"
    "lfd_revid r' = u32 (lfd_revid r)"
    "\<And>e. 0 \<le> e \<Longrightarrow> e < 20 \<Longrightarrow> lfd_files r' e = \<lparr>ld_size = u32 (ld_size (lfd_files r e)), ld_ilist = i32 (u32 (ld_ilist (lfd_files r e))),
      ld_name = ld_name (lfd_files r e)\<rparr>"
proof -
  let ?b = "enc_dir r"
  have w: "wat ?b 0 = u32 (lfd_fsysid r)" "wat ?b 8 = u32 (lfd_allzeros r)" "wat ?b 12 = u32 (lfd_allones r)" "wat ?b 16 = u32 (lfd_dfree r)"
    "wat ?b 20 = u32 (lfd_ifree r)" "wat ?b 24 = u32 (lfd_nfiles r)"
    by (rule wat_at; simp add: enc_dir_eq)+
  have len: "length (enc_ent (lfd_files r (int i))) = 24" if "i < 20" for i using n that by (simp add: enc_ent_def)
  have le: "length (ents r) = 480"
  proof -
    have "length (concat (map (\<lambda>i. enc_ent (lfd_files r (int i))) [0..<m])) = 24 * m" if "m \<le> 20" for m
      using that by (induction m) (simp_all add: len)
    from this[of 20] show ?thesis by (simp add: ents_def)
  qed
  have rv: "wat ?b 508 = u32 (lfd_revid r)" by (rule wat_at[where ys = "[]"]) (simp add: enc_dir_eq le)
  show "lfd_fsysid r' = u32 (lfd_fsysid r)" "lfd_allzeros r' = u32 (lfd_allzeros r)" "lfd_allones r' = u32 (lfd_allones r)"
    "lfd_dfree r' = i32 (u32 (lfd_dfree r))" "lfd_ifree r' = i32 (u32 (lfd_ifree r))" "lfd_nfiles r' = i32 (u32 (lfd_nfiles r))"
    "lfd_revid r' = u32 (lfd_revid r)"
    by (simp_all add: r'_def dec_dir_def w rv)
  fix e :: int assume e: "0 \<le> e" "e < 20"
  define i where "i = nat e"
  have i: "i < 20" "e = int i" using e by (auto simp: i_def)
  obtain zs where zs: "drop (24 * i) (ents r) = enc_ent (lfd_files r e) @ zs"
    using drop_concat_map[of 20 "\<lambda>i. enc_ent (lfd_files r (int i))" 24 i] len i by (auto simp: ents_def)
  have d: "drop (28 + 24 * i) ?b = enc_ent (lfd_files r e) @ zs @ wbytes (lfd_revid r)"
  proof -
    have "drop (28 + 24 * i) ?b = drop (24 * i) (drop 28 ?b)" by (simp add: add.commute)
    also have "drop 28 ?b = ents r @ wbytes (lfd_revid r)" by (simp add: enc_dir_eq)
    finally show ?thesis using zs le i by simp
  qed
  have d4: "drop (28 + 24 * i + 4) ?b = drop 4 (drop (28 + 24 * i) ?b)" and d8: "drop (28 + 24 * i + 8) ?b = drop 8 (drop (28 + 24 * i) ?b)"
    by (simp_all add: add.commute)
  have "wat ?b (28 + 24 * i) = u32 (ld_size (lfd_files r e))" by (rule wat_at) (simp add: d enc_ent_def)
  moreover have "wat ?b (28 + 24 * i + 4) = u32 (ld_ilist (lfd_files r e))" by (rule wat_at, unfold d4 d) (simp add: enc_ent_def)
  moreover have "take 16 (drop (28 + 24 * i + 8) ?b) = ld_name (lfd_files r e)" unfolding d8 d using n e by (simp add: enc_ent_def)
  ultimately show "lfd_files r' e = \<lparr>ld_size = u32 (ld_size (lfd_files r e)), ld_ilist = i32 (u32 (ld_ilist (lfd_files r e))),
      ld_name = ld_name (lfd_files r e)\<rparr>"
    using i by (simp add: r'_def dec_dir_def dec_ent_def)
qed

section \<open>Restart\<close>

lemma lfscheck_fields:
  "lfscheck r = OK \<longleftrightarrow> lfd_fsysid r = LFS_ID \<and> lfd_allzeros r = 0 \<and> lfd_allones r = 0xffffffff \<and> lfd_revid r = 0x756E6958 \<and> 0 \<le> lfd_nfiles r"
  by (auto simp: lfscheck_def Let_def)

lemma restart_run:
  assumes r: "fs_rep K lay d files" and w: "who lay = Map.empty" and s: "synced d" and c: "lfscheck (lf_dir d) = OK"
    and d0: "ram d0 = ram d" "\<not> lf_dirpresent d0" "\<And>k. 0 \<le> k \<Longrightarrow> k < Nlfl \<Longrightarrow> lfstate (lfltab d0 k) = LF_FREE"
  shows "\<exists>d'. load_dir d0 = Some (OK, d') \<and> fs_rep K lay d' files \<and> lfltab d' = lfltab d0 \<and>
    lfd_nfiles (lf_dir d') = lfd_nfiles (lf_dir d) \<and> (\<forall>e. 0 \<le> e \<and> e < 20 \<longrightarrow> ld_name (entry d' e) = ld_name (entry d e))"
proof -
  let ?r = "lf_dir d"
  let ?r' = "dec_dir (enc_dir ?r)"
  have K: "isectors K" and nf: "0 \<le> lfd_nfiles ?r" "lfd_nfiles ?r \<le> 20" and nm: "\<forall>i. 0 \<le> i \<and> i < 20 \<longrightarrow> length (ld_name (entry d i)) = 16"
    using r by (auto simp: fs_rep_def)
  note D = dec_enc_dir[of ?r, OF nm]
  have ir: "i32 (u32 x) = x" if "x = - 1 \<or> ivalid K x \<or> dvalid K x" for x
    using that K by (intro i32_u32) (auto simp: ivalid_def dvalid_def isectors_def)
  have hd: "lfd_ifree ?r = - 1 \<or> ivalid K (lfd_ifree ?r)" "lfd_dfree ?r = - 1 \<or> dvalid K (lfd_dfree ?r)"
    using r by (cases "ifree lay"; auto simp: fs_rep_def within_def; cases "dfree lay"; auto simp: fs_rep_def within_def)+
  have n': "lfd_nfiles ?r' = lfd_nfiles ?r" "lfd_ifree ?r' = lfd_ifree ?r" "lfd_dfree ?r' = lfd_dfree ?r"
    using D(4,5,6) hd ir nf i32_u32[of "lfd_nfiles ?r"] by auto
  have ent: "lfd_files ?r' e = entry d e" if e: "0 \<le> e" "e < lfd_nfiles ?r" for e
  proof -
    have f: "file_ok (ram d) (entry d e) None (ibs lay e) (dbs lay e) (files e)" using r e w by (simp add: fs_rep_def)
    have v: "\<forall>i\<in>set (ibs lay e). ivalid K i" "\<forall>b\<in>set (dbs lay e). dvalid K b" "distinct (dbs lay e)"
      using r e by (simp_all add: fs_rep_def within_def apart_lists_def)
    have "ld_ilist (entry d e) = - 1 \<or> ivalid K (ld_ilist (entry d e))" using f v(1) by (cases "ibs lay e") (auto simp: file_ok_def)
    moreover have "u32 (ld_size (entry d e)) = ld_size (entry d e)"
    proof -
      have "set (dbs lay e) \<subseteq> {0..<200}" using v(2) K by (force simp: dvalid_def isectors_def)
      then have "card (set (dbs lay e)) \<le> card {0::int..<200}" by (intro card_mono) simp_all
      then have "length (dbs lay e) \<le> 200" using v(3) by (simp add: distinct_card)
      then have "ld_size (entry d e) \<le> 102400" "0 \<le> ld_size (entry d e)" using f by (auto simp: file_ok_def)
      then show ?thesis by (simp add: u32_def)
    qed
    ultimately show ?thesis using D(8)[of e] e nf ir by auto
  qed
  let ?d = "(updir (\<lambda>_. ?r') d0)\<lparr>lf_dirpresent := True\<rparr>"
  have chk: "lfscheck ?r' = OK" using c D(1,2,3,7) n'(1) unfolding lfscheck_fields by (simp add: u32_def)
  have "load_dir d0 = Some (OK, ?d)"
    using d0(1,2) s chk by (simp add: load_dir_def ramread_def synced_def updir_def)
  moreover have "fs_rep K lay ?d files"
    using r w n' ent D(8) nm d0 unfolding fs_rep_def by (simp add: updir_def who_ok_def)
  moreover have "ld_name (entry ?d e) = ld_name (entry d e)" if "0 \<le> e" "e < 20" for e using D(8)[OF that] by (simp add: updir_def)
  ultimately show ?thesis using n'(1) by (intro exI[of _ ?d]) (simp add: updir_def)
qed

section \<open>Names\<close>

lemma name_match_self: "name_match name (name @ 0 # cs)"
  by (induction name) simp_all

lemma name_match_put:
  assumes "0 \<notin> set name" "0 \<notin> set name'"
  shows "name_match name' (name @ 0 # cs) \<longleftrightarrow> name' = name"
  using assms
proof (induction name arbitrary: name')
  case Nil
  then show ?case by (cases name') auto
next
  case (Cons x name)
  then show ?case by (cases name') auto
qed

lemma put_name_eq: "put_name name old = name @ 0 # drop (Suc (length name)) old"
  by (simp add: put_name_def splice_def)

lemma length_put_name: "length old = 16 \<Longrightarrow> length name < 16 \<Longrightarrow> length (put_name name old) = 16"
  by (simp add: put_name_eq)

text \<open>The control block of an open file has the name of its directory entry.\<close>

definition named :: "lfs \<Rightarrow> bool" where
  "named d \<longleftrightarrow> (\<forall>k. 0 \<le> k \<and> k < Nlfl \<and> lfstate (lfltab d k) = LF_USED \<longrightarrow>
     (\<forall>name. 0 \<notin> set name \<longrightarrow> name_match name (lfname (lfltab d k)) = name_match name (ld_name (entry d (lfdirptr (lfltab d k))))))"

definition is_open :: "int list \<Rightarrow> lfs \<Rightarrow> int \<Rightarrow> bool" where
  "is_open name d k \<longleftrightarrow> lfstate (lfltab d k) = LF_USED \<and> name_match name (lfname (lfltab d k))"

definition in_dir :: "int list \<Rightarrow> lfdir \<Rightarrow> int \<Rightarrow> bool" where
  "in_dir name r e \<longleftrightarrow> name_match name (ld_name (lfd_files r e))"

lemma open_scan_open:
  "\<exists>k. i \<le> k \<and> k < i + int n \<and> is_open name d k \<Longrightarrow> open_scan n i name d nxt = None"
proof (induction n arbitrary: i nxt)
  case (Suc n)
  then obtain k where k: "i \<le> k" "k < i + int (Suc n)" "is_open name d k" by blast
  show ?case
  proof (cases "is_open name d i")
    case True
    then show ?thesis by (simp add: is_open_def)
  next
    case False
    then have "i + 1 \<le> k" using k by (cases "k = i") auto
    then have "\<exists>k. i + 1 \<le> k \<and> k < i + 1 + int n \<and> is_open name d k" using k by auto
    then show ?thesis using Suc.IH False by (simp add: is_open_def)
  qed
qed auto

lemma open_scan_free:
  assumes "\<forall>k. i \<le> k \<and> k < i + int n \<longrightarrow> \<not> is_open name d k" "0 \<le> i"
  shows "\<exists>k. open_scan n i name d nxt = Some k \<and>
    (if nxt \<noteq> SYSERR then k = nxt
     else if \<forall>x. i \<le> x \<and> x < i + int n \<longrightarrow> lfstate (lfltab d x) = LF_USED then k = SYSERR
     else i \<le> k \<and> k < i + int n \<and> lfstate (lfltab d k) = LF_FREE)"
  using assms
proof (induction n arbitrary: i nxt)
  case (Suc n)
  have o: "\<forall>k. i + 1 \<le> k \<and> k < i + 1 + int n \<longrightarrow> \<not> is_open name d k" using Suc.prems(1) by simp
  show ?case
  proof (cases "lfstate (lfltab d i) = LF_FREE")
    case True
    then show ?thesis using Suc.IH[OF o, of "if nxt = SYSERR then i else nxt"] Suc.prems(2) by (auto split: if_splits)
  next
    case False
    then have u: "lfstate (lfltab d i) = LF_USED" by (cases "lfstate (lfltab d i)") simp_all
    then have nm: "\<not> name_match name (lfname (lfltab d i))" using Suc.prems(1) u by (simp add: is_open_def)
    obtain k where k: "open_scan n (i + 1) name d nxt = Some k" "if nxt \<noteq> SYSERR then k = nxt
       else if \<forall>x. i + 1 \<le> x \<and> x < i + 1 + int n \<longrightarrow> lfstate (lfltab d x) = LF_USED then k = SYSERR
       else i + 1 \<le> k \<and> k < i + 1 + int n \<and> lfstate (lfltab d k) = LF_FREE"
      using Suc.IH[OF o, of nxt] Suc.prems(2) by auto
    have rng: "i \<le> x \<and> x < i + int (Suc n) \<longleftrightarrow> x = i \<or> i + 1 \<le> x \<and> x < i + 1 + int n" for x by auto
    have "(\<forall>x. i \<le> x \<and> x < i + int (Suc n) \<longrightarrow> lfstate (lfltab d x) = LF_USED) \<longleftrightarrow>
        (\<forall>x. i + 1 \<le> x \<and> x < i + 1 + int n \<longrightarrow> lfstate (lfltab d x) = LF_USED)"
      unfolding rng using u by blast
    then show ?thesis using k u nm by (auto split: if_splits)
  qed
qed auto

lemma dir_scan_spec:
  assumes "0 \<le> i" "i + int n \<le> 20"
  shows "\<exists>e. dir_scan n i name r = Some e \<and> i \<le> e \<and> e \<le> i + int n \<and> (\<forall>x. i \<le> x \<and> x < e \<longrightarrow> \<not> in_dir name r x) \<and>
    (e < i + int n \<longrightarrow> in_dir name r e)"
  using assms
proof (induction n arbitrary: i)
  case (Suc n)
  show ?case
  proof (cases "in_dir name r i")
    case True
    then show ?thesis using Suc.prems by (intro exI[of _ i]) (auto simp: in_dir_def)
  next
    case False
    obtain e where e: "dir_scan n (i + 1) name r = Some e" "i + 1 \<le> e" "e \<le> i + 1 + int n"
      "\<forall>x. i + 1 \<le> x \<and> x < e \<longrightarrow> \<not> in_dir name r x" "e < i + 1 + int n \<longrightarrow> in_dir name r e"
      using Suc.IH[of "i + 1"] Suc.prems by auto
    have "\<not> in_dir name r x" if "i \<le> x" "x < e" for x using False e(4) that by (cases "x = i") auto
    moreover have "dir_scan (Suc n) i name r = Some e" using e(1) False Suc.prems by (simp add: in_dir_def)
    ultimately show ?thesis using e(2,3,5) by (intro exI[of _ e]) auto
  qed
qed auto

section \<open>Opening\<close>

lemma open_rep:
  assumes r: "fs_rep K lay d files" and e: "0 \<le> e" "e < lfd_nfiles (lf_dir d)" "who lay e = None"
    and k: "0 \<le> k" "k < Nlfl" "lfstate (lfltab d k) = LF_FREE" "length (lfdblock (lfltab d k)) = 512"
  shows "fs_rep K (lay\<lparr>who := (who lay)(e := Some k)\<rparr>) (open_block k e mbits name d) files"
proof -
  let ?d = "open_block k e mbits name d"
  let ?c = "lfltab ?d k"
  have w: "who_ok lay d" using r by (simp add: fs_rep_def)
  have used: "lfstate (lfltab d k') = LF_USED" if "who lay e' = Some k'" for e' k' using who_ok_range[OF w that] by simp
  have ne: "k' \<noteq> k" if "who lay e' = Some k'" for e' k' using used[OF that] k(3) by auto
  have fe: "file_ok (ram d) (entry d e) None (ibs lay e) (dbs lay e) (files e)"
  proof -
    have "file_ok (ram d) (entry d e) (map_option (lfltab d) (who lay e)) (ibs lay e) (dbs lay e) (files e)" using r e(1,2) by (simp add: fs_rep_def)
    then show ?thesis using e(3) by simp
  qed
  have v: "- 1 \<notin> set (ibs lay e)" "- 1 \<notin> set (dbs lay e)"
    using r e(1,2) by (force simp: fs_rep_def within_def isectors_def ivalid_def dvalid_def)+
  have c: "lfinum ?c = - 1" "lfdnum ?c = - 1" "\<not> lfibdirty ?c" "\<not> lfdbdirty ?c" "lfpos ?c = 0" "lfbyte ?c = 512" "length (lfdblock ?c) = 512"
    using k(4) by (simp_all add: open_block_def)
  have l: "length (files e) \<le> 512 * length (dbs lay e)" using fe by (simp add: file_ok_def)
  have nth: "dbs lay e ! (j div 512) \<noteq> - 1" if "j < length (files e)" for j
    using block_index[OF that l] v(2) by (metis nth_mem)
  have fe': "file_ok (ram d) (entry d e) (Some ?c) (ibs lay e) (dbs lay e) (files e)"
  proof (rule file_ok_views[OF fe])
    show "\<forall>i\<in>set (ibs lay e). iview (ram d) (Some ?c) i = iview (ram d) None i" using v(1) c(1) by (auto simp: iview_def)
    show "\<forall>j<length (files e). dview (ram d) (Some ?c) (dbs lay e ! (j div 512)) ! (j mod 512) = dview (ram d) None (dbs lay e ! (j div 512)) ! (j mod 512)"
      using nth c(2) by (simp add: dview_def)
    show "case Some ?c of Some c \<Rightarrow> cache_ok (ram d) c (ibs lay e) (dbs lay e) (files e) | None \<Rightarrow> True"
      using c nth by (simp add: cache_ok_def)
  qed
  show ?thesis
  proof (rule fs_rep_cong[OF r])
    show "who_ok (lay\<lparr>who := (who lay)(e := Some k)\<rparr>) ?d"
      unfolding who_ok_def
    proof (intro conjI allI impI)
      fix e' k' assume h: "who (lay\<lparr>who := (who lay)(e := Some k)\<rparr>) e' = Some k'"
      show "0 \<le> e'" "e' < lfd_nfiles (lf_dir ?d)" "0 \<le> k'" "k' < Nlfl" "lfstate (lfltab ?d k') = LF_USED" "lfdirptr (lfltab ?d k') = e'"
        using h e k who_ok_range[OF w, of e' k'] ne[of e' k'] by (auto simp: open_block_def split: if_splits)
    next
      fix k' assume h: "0 \<le> k' \<and> k' < Nlfl \<and> lfstate (lfltab ?d k') = LF_USED"
      show "who (lay\<lparr>who := (who lay)(e := Some k)\<rparr>) (lfdirptr (lfltab ?d k')) = Some k'"
      proof (cases "k' = k")
        case False
        then have "who lay (lfdirptr (lfltab d k')) = Some k'" using h w by (simp add: who_ok_def open_block_def)
        then show ?thesis using False e(3) by (auto simp: open_block_def)
      qed (simp add: open_block_def)
    qed
    show "file_ok (ram d) (entry d e') (map_option (lfltab ?d) (who (lay\<lparr>who := (who lay)(e := Some k)\<rparr>) e')) (ibs lay e') (dbs lay e') (files e')"
      if e': "0 \<le> e'" "e' < lfd_nfiles (lf_dir d)" for e'
    proof (cases "e' = e")
      case True
      then show ?thesis using fe' by simp
    next
      case False
      have "map_option (lfltab ?d) (who lay e') = map_option (lfltab d) (who lay e')"
        using ne by (cases "who lay e'") (auto simp: open_block_def)
      then show ?thesis using r e' False by (simp add: fs_rep_def)
    qed
  qed (use r in \<open>simp_all add: fs_rep_def open_block_def\<close>)
qed

lemma name_unique: "0 \<notin> set name \<Longrightarrow> 0 \<notin> set name' \<Longrightarrow> name_match name cs \<Longrightarrow> name_match name' cs \<longleftrightarrow> name' = name"
proof (induction name cs arbitrary: name' rule: name_match.induct)
  case (1 c cs)
  then show ?case by (cases name') auto
next
  case (2 n ns c cs)
  have ih: "name_match ys cs \<longleftrightarrow> ys = ns" if "0 \<notin> set ys" for ys using 2(1)[of ys] 2(2,4) that by simp
  show ?case
  proof (cases name')
    case (Cons y ys)
    then show ?thesis using ih[of ys] 2(3,4) by auto
  qed (use 2(2,4) in auto)
qed simp

lemma named_open:
  assumes n: "named d" and new: "in_dir name (lf_dir d) e" "0 \<notin> set name"
  shows "named (open_block k e mbits name d)"
  unfolding named_def
proof (intro allI impI)
  fix k' and name' :: "int list" assume k': "0 \<le> k' \<and> k' < Nlfl \<and> lfstate (lfltab (open_block k e mbits name d) k') = LF_USED" and z: "0 \<notin> set name'"
  let ?d = "open_block k e mbits name d"
  show "name_match name' (lfname (lfltab ?d k')) = name_match name' (ld_name (entry ?d (lfdirptr (lfltab ?d k'))))"
  proof (cases "k' = k")
    case True
    then show ?thesis
      using name_match_put[OF new(2) z] name_unique[OF new(2) z] new(1) by (simp add: open_block_def put_name_eq in_dir_def)
  next
    case False
    then show ?thesis using n k' z by (simp add: named_def open_block_def)
  qed
qed

text \<open>A new entry of the directory, an empty file.\<close>

definition add_entry :: "int list \<Rightarrow> lfs \<Rightarrow> lfs" where
  "add_entry name d = (let n = lfd_nfiles (lf_dir d) in
     upent n (\<lambda>l. l\<lparr>ld_size := 0, ld_name := put_name name (ld_name l), ld_ilist := LF_INULL\<rparr>) (updir (\<lambda>r. r\<lparr>lfd_nfiles := n + 1\<rparr>) d))"

definition add_file :: "layout \<Rightarrow> int \<Rightarrow> layout" where
  "add_file lay n = lay\<lparr>ibs := (ibs lay)(n := []), dbs := (dbs lay)(n := [])\<rparr>"

lemma lists_add:
  "apart_lists n f free \<Longrightarrow> apart_lists (n + 1) (f(n := [])) free" "within P n f free \<Longrightarrow> within P (n + 1) (f(n := [])) free"
  by (auto simp: apart_lists_def within_def)

lemma add_rep:
  assumes r: "fs_rep K lay d files" and n: "n = lfd_nfiles (lf_dir d)" "n < 20" and name: "length name < 16"
  shows "fs_rep K (add_file lay n) (add_entry name d) (files(n := []))"
proof -
  have w: "who_ok lay d" and nm: "length (ld_name (entry d n)) = 16" and n0: "0 \<le> n" using r n by (auto simp: fs_rep_def)
  have none: "who lay n = None"
    using who_ok_range[OF w, of n] n(1) by (cases "who lay n") auto
  have ne: "entry (add_entry name d) e = entry d e" if "e \<noteq> n" for e using that n(1) by (simp add: add_entry_def updir_def Let_def)
  have en: "entry (add_entry name d) n = \<lparr>ld_size = 0, ld_ilist = LF_INULL, ld_name = put_name name (ld_name (entry d n))\<rparr>"
    using n(1) by (simp add: add_entry_def updir_def Let_def)
  have other: "file_ok (ram d) (entry (add_entry name d) e) (map_option (lfltab d) (who lay e)) (((ibs lay)(n := [])) e) (((dbs lay)(n := [])) e) ((files(n := [])) e)"
    if "0 \<le> e" "e < n + 1" for e
  proof (cases "e = n")
    case True
    then show ?thesis using none en by (simp add: file_ok_def)
  next
    case False
    then show ?thesis using ne r that n(1) by (simp add: fs_rep_def)
  qed
  have names: "length (ld_name (entry (add_entry name d) e)) = 16" if "0 \<le> e" "e < 20" for e
    using r that ne en nm name by (cases "e = n") (auto simp: fs_rep_def length_put_name)
  have parts: "ram (add_entry name d) = ram d" "lf_dirpresent (add_entry name d) = lf_dirpresent d" "lfltab (add_entry name d) = lfltab d"
    "lfd_nfiles (lf_dir (add_entry name d)) = n + 1" "lfd_ifree (lf_dir (add_entry name d)) = lfd_ifree (lf_dir d)"
    "lfd_dfree (lf_dir (add_entry name d)) = lfd_dfree (lf_dir d)"
    using n(1) by (simp_all add: add_entry_def updir_def Let_def)
  have "who_ok (add_file lay n) (add_entry name d)" using w n(1) unfolding who_ok_def by (fastforce simp: add_file_def parts)
  then show ?thesis
    using r n0 n other names lists_add unfolding fs_rep_def parts by (simp add: add_file_def)
qed

lemma find_entry_cases:
  assumes n: "n = lfd_nfiles (lf_dir d)" "0 \<le> n" "n \<le> 20"
  shows "if \<exists>e. 0 \<le> e \<and> e < n \<and> in_dir name (lf_dir d) e
    then (if mbits AND LF_MODE_N \<noteq> 0 then find_entry name mbits d = Some (SYSERR, d)
      else \<exists>e. find_entry name mbits d = Some (e, d) \<and> 0 \<le> e \<and> e < n \<and> in_dir name (lf_dir d) e)
    else find_entry name mbits d = (if mbits AND LF_MODE_O \<noteq> 0 \<or> n = 20 then Some (SYSERR, d) else Some (n, add_entry name d))"
proof -
  obtain e where e: "dir_scan (nat n) 0 name (lf_dir d) = Some e" "0 \<le> e" "e \<le> n"
    "\<forall>x. 0 \<le> x \<and> x < e \<longrightarrow> \<not> in_dir name (lf_dir d) x" "e < n \<longrightarrow> in_dir name (lf_dir d) e"
    using dir_scan_spec[of 0 "nat n" name "lf_dir d"] n by auto
  show ?thesis
  proof (cases "e < n")
    case True
    then have "\<exists>e. 0 \<le> e \<and> e < n \<and> in_dir name (lf_dir d) e" using e by blast
    then show ?thesis using True e by (auto simp: find_entry_def Let_def n(1)[symmetric])
  next
    case False
    then have "e = n" "\<not> (\<exists>e. 0 \<le> e \<and> e < n \<and> in_dir name (lf_dir d) e)" using e by auto
    then show ?thesis using e n(3) by (simp add: find_entry_def Let_def n(1)[symmetric] add_entry_def)
  qed
qed

text \<open>What a call of \<^verbatim>\<open>lfsopen\<close> needs: a good mode, a name that is not too long and not open, a free control block.\<close>

definition may_open :: "lfs \<Rightarrow> int list \<Rightarrow> int list \<Rightarrow> bool" where
  "may_open d name mode \<longleftrightarrow> lfgetmode mode \<noteq> SYSERR \<and> length name < 16 \<and> (\<forall>k. 0 \<le> k \<and> k < Nlfl \<longrightarrow> \<not> is_open name d k) \<and>
     (\<exists>k. 0 \<le> k \<and> k < Nlfl \<and> lfstate (lfltab d k) = LF_FREE)"

lemma lfsopen_not: "\<not> may_open d name mode \<Longrightarrow> lfsopen name mode (s, d) = Return SYSERR (s, d)"
proof -
  assume no: "\<not> may_open d name mode"
  have ne: "lfstate (lfltab d k) \<noteq> LF_FREE \<longleftrightarrow> lfstate (lfltab d k) = LF_USED" for k by (cases "lfstate (lfltab d k)") simp_all
  consider "lfgetmode mode = SYSERR \<or> \<not> length name < 16" | "\<exists>k. 0 \<le> k \<and> k < Nlfl \<and> is_open name d k"
    | "\<forall>k. 0 \<le> k \<and> k < Nlfl \<longrightarrow> \<not> is_open name d k" "\<forall>k. 0 \<le> k \<and> k < Nlfl \<longrightarrow> lfstate (lfltab d k) = LF_USED"
    using no ne unfolding may_open_def by blast
  then show ?thesis
  proof cases
    case 1
    then show ?thesis by (auto simp: lfsopen_def Let_def)
  next
    case 2
    then have "open_scan (nat Nlfl) 0 name d SYSERR = None" by (intro open_scan_open) simp
    then show ?thesis by (simp add: lfsopen_def Let_def)
  next
    case 3
    then have "open_scan (nat Nlfl) 0 name d SYSERR = Some SYSERR" using open_scan_free[of 0 "nat Nlfl" name d SYSERR] by auto
    then show ?thesis by (simp add: lfsopen_def Let_def)
  qed
qed

lemma lfsopen_eq:
  assumes m: "may_open d name mode" and p: "lf_dirpresent d" and g: "sem_has s (lf_mutex d) 1"
  obtains k where "0 \<le> k" "k < Nlfl" "lfstate (lfltab d k) = LF_FREE"
    and "\<And>e d1. find_entry name (lfgetmode mode) d = Some (e, d1) \<Longrightarrow> lf_mutex d1 = lf_mutex d \<Longrightarrow>
      lfsopen name mode (s, d) = (if e = SYSERR then Return SYSERR (s, d1)
        else Return (lfdev (lfltab d1 k)) (s, open_block k e (lfgetmode mode) name d1))"
proof -
  obtain k where k: "open_scan (nat Nlfl) 0 name d SYSERR = Some k" "0 \<le> k" "k < Nlfl" "lfstate (lfltab d k) = LF_FREE"
    using open_scan_free[of 0 "nat Nlfl" name d SYSERR] m unfolding may_open_def by (auto split: if_splits)
  note w = take_mutex[OF g] give_mutex[OF g]
  have "lfsopen name mode (s, d) = (if e = SYSERR then Return SYSERR (s, d1)
      else Return (lfdev (lfltab d1 k)) (s, open_block k e (lfgetmode mode) name d1))"
    if "find_entry name (lfgetmode mode) d = Some (e, d1)" "lf_mutex d1 = lf_mutex d" for e d1
    using m k p that w
    by (simp add: may_open_def lfsopen_def Let_def load_dir_def ond_def onk_def leave_def open_block_def)
  then show ?thesis using that k by blast
qed

lemma lfsopen_refused:
  assumes r: "fs_rep K lay d files" and g: "sem_has s (lf_mutex d) 1" and m: "may_open d name mode"
    and no: "if \<exists>e. 0 \<le> e \<and> e < lfd_nfiles (lf_dir d) \<and> in_dir name (lf_dir d) e then lfgetmode mode AND LF_MODE_N \<noteq> 0
      else lfgetmode mode AND LF_MODE_O \<noteq> 0 \<or> lfd_nfiles (lf_dir d) = 20"
  shows "lfsopen name mode (s, d) = Return SYSERR (s, d)"
proof -
  have p: "lf_dirpresent d" "0 \<le> lfd_nfiles (lf_dir d)" "lfd_nfiles (lf_dir d) \<le> 20" using r by (simp_all add: fs_rep_def)
  have "find_entry name (lfgetmode mode) d = Some (SYSERR, d)"
    using find_entry_cases[OF refl p(2,3), of name "lfgetmode mode"] no by (auto split: if_splits)
  then show ?thesis using lfsopen_eq[OF m p(1) g] by fastforce
qed

lemma lfsopen_found:
  assumes r: "fs_rep K lay d files" and nm: "named d" and g: "sem_has s (lf_mutex d) 1" and m: "may_open d name mode"
    and z: "0 \<notin> set name" and l: "\<And>k. 0 \<le> k \<Longrightarrow> k < Nlfl \<Longrightarrow> length (lfdblock (lfltab d k)) = 512"
    and e0: "0 \<le> e0" "e0 < lfd_nfiles (lf_dir d)" "in_dir name (lf_dir d) e0" and md: "lfgetmode mode AND LF_MODE_N = 0"
  obtains k e d' where "0 \<le> k" "k < Nlfl" "lfstate (lfltab d k) = LF_FREE" "lfsopen name mode (s, d) = Return (lfdev (lfltab d k)) (s, d')"
    "0 \<le> e" "e < lfd_nfiles (lf_dir d)" "in_dir name (lf_dir d) e" "who lay e = None"
    "fs_rep K (lay\<lparr>who := (who lay)(e := Some k)\<rparr>) d' files" "lfpos (lfltab d' k) = 0" "named d'" "calm d d'"
proof -
  have p: "lf_dirpresent d" "0 \<le> lfd_nfiles (lf_dir d)" "lfd_nfiles (lf_dir d) \<le> 20" and w: "who_ok lay d" using r by (simp_all add: fs_rep_def)
  obtain e where e: "find_entry name (lfgetmode mode) d = Some (e, d)" "0 \<le> e" "e < lfd_nfiles (lf_dir d)" "in_dir name (lf_dir d) e"
    using find_entry_cases[OF refl p(2,3), of name "lfgetmode mode"] e0 md by (auto split: if_splits)
  have none: "who lay e = None"
  proof (rule ccontr)
    assume "who lay e \<noteq> None"
    then obtain k' where "who lay e = Some k'" by blast
    then have k': "0 \<le> k'" "k' < Nlfl" "lfstate (lfltab d k') = LF_USED" "lfdirptr (lfltab d k') = e" using who_ok_range[OF w] by auto
    then have "name_match name (lfname (lfltab d k')) = name_match name (ld_name (entry d e))" using nm z unfolding named_def by blast
    then have "is_open name d k'" using k' e(4) by (simp add: is_open_def in_dir_def)
    then show False using m k' by (auto simp: may_open_def)
  qed
  obtain k where k: "0 \<le> k" "k < Nlfl" "lfstate (lfltab d k) = LF_FREE"
    and run: "lfsopen name mode (s, d) = Return (lfdev (lfltab d k)) (s, open_block k e (lfgetmode mode) name d)"
    using lfsopen_eq[OF m p(1) g] e(1,2) by (auto split: if_splits)
  show ?thesis
    by (rule that[OF k run e(2-4) none open_rep[OF r e(2,3) none k l[OF k(1,2)]] _ named_open[OF nm e(4) z]])
      (simp_all add: open_block_def)
qed

lemma named_add:
  assumes nm: "named d" and w: "who_ok lay d" and n: "n = lfd_nfiles (lf_dir d)"
  shows "named (add_entry name d)"
  unfolding named_def
proof (intro allI impI)
  let ?a = "add_entry name d"
  have tab: "lfltab ?a = lfltab d" "\<And>e. e \<noteq> n \<Longrightarrow> entry ?a e = entry d e" by (simp_all add: add_entry_def updir_def Let_def n)
  fix k' and name' :: "int list"
  assume k': "0 \<le> k' \<and> k' < Nlfl \<and> lfstate (lfltab ?a k') = LF_USED" and z': "0 \<notin> set name'"
  then have "who lay (lfdirptr (lfltab d k')) = Some k'" using w by (simp add: who_ok_def tab)
  then have "lfdirptr (lfltab d k') \<noteq> n" using who_ok_range[OF w] n by fastforce
  then show "name_match name' (lfname (lfltab ?a k')) = name_match name' (ld_name (entry ?a (lfdirptr (lfltab ?a k'))))"
    using nm k' z' tab by (simp add: named_def)
qed

lemma lfsopen_new:
  assumes r: "fs_rep K lay d files" and nm: "named d" and g: "sem_has s (lf_mutex d) 1" and m: "may_open d name mode"
    and z: "0 \<notin> set name" and l: "\<And>k. 0 \<le> k \<Longrightarrow> k < Nlfl \<Longrightarrow> length (lfdblock (lfltab d k)) = 512"
    and n: "n = lfd_nfiles (lf_dir d)" "n < 20" and new: "\<And>e. 0 \<le> e \<Longrightarrow> e < n \<Longrightarrow> \<not> in_dir name (lf_dir d) e"
    and md: "lfgetmode mode AND LF_MODE_O = 0"
  obtains k d' where "0 \<le> k" "k < Nlfl" "lfstate (lfltab d k) = LF_FREE" "lfsopen name mode (s, d) = Return (lfdev (lfltab d k)) (s, d')"
    "fs_rep K (add_file lay n\<lparr>who := (who lay)(n := Some k)\<rparr>) d' (files(n := []))" "lfd_nfiles (lf_dir d') = n + 1"
    "in_dir name (lf_dir d') n" "lfpos (lfltab d' k) = 0" "named d'" "lf_dirdirty d' = lf_dirdirty d" "ram d' = ram d"
proof -
  have p: "lf_dirpresent d" "0 \<le> lfd_nfiles (lf_dir d)" "lfd_nfiles (lf_dir d) \<le> 20" and w: "who_ok lay d" using r by (simp_all add: fs_rep_def)
  let ?a = "add_entry name d"
  have tab: "lfltab ?a = lfltab d" "lf_mutex ?a = lf_mutex d" "lfd_nfiles (lf_dir ?a) = n + 1" "lf_dirdirty ?a = lf_dirdirty d" "ram ?a = ram d"
    "ld_name (entry ?a n) = put_name name (ld_name (entry d n))"
    by (simp_all add: add_entry_def updir_def Let_def n)
  have f: "find_entry name (lfgetmode mode) d = Some (n, ?a)"
    using find_entry_cases[OF refl p(2,3), of name "lfgetmode mode"] new n md by (auto split: if_splits)
  obtain k where k: "0 \<le> k" "k < Nlfl" "lfstate (lfltab d k) = LF_FREE"
    and run: "lfsopen name mode (s, d) = Return (lfdev (lfltab d k)) (s, open_block k n (lfgetmode mode) name ?a)"
    using lfsopen_eq[OF m p(1) g] f tab(1,2) p(2) n(1) by (auto split: if_splits)
  have short: "length name < 16" using m by (simp add: may_open_def)
  have ra: "fs_rep K (add_file lay n) ?a (files(n := []))" using add_rep[OF r n short] .
  have none: "who (add_file lay n) n = None"
    using who_ok_range[OF w, of n] n by (cases "who lay n") (auto simp: add_file_def)
  have inn: "in_dir name (lf_dir ?a) n" using name_match_self by (simp add: in_dir_def tab put_name_eq)
  have "fs_rep K (add_file lay n\<lparr>who := (who (add_file lay n))(n := Some k)\<rparr>) (open_block k n (lfgetmode mode) name ?a) (files(n := []))"
    by (rule open_rep[OF ra _ _ none k(1,2)]) (use k l[OF k(1,2)] p n in \<open>simp_all add: tab\<close>)
  then have rep: "fs_rep K (add_file lay n\<lparr>who := (who lay)(n := Some k)\<rparr>) (open_block k n (lfgetmode mode) name ?a) (files(n := []))"
    by (simp add: add_file_def)
  show ?thesis
    by (rule that[OF k run rep _ _ _ named_open[OF named_add[OF nm w n(1)] inn z]])
      (use inn in \<open>simp_all add: open_block_def tab\<close>)
qed

section \<open>Modes\<close>

unbundle bit_operations_syntax

text \<open>The letters are \<^verbatim>\<open>r\<close>, \<^verbatim>\<open>w\<close>, \<^verbatim>\<open>o\<close> and \<^verbatim>\<open>n\<close>.\<close>

definition bits4 :: "bool \<Rightarrow> bool \<Rightarrow> bool \<Rightarrow> bool \<Rightarrow> int" where
  "bits4 r w n x = of_bool r + 2 * of_bool w + 4 * of_bool n + 8 * of_bool x"

definition mode_letters :: "int list \<Rightarrow> bool" where
  "mode_letters cs \<longleftrightarrow> set cs \<subseteq> {114, 119, 111, 110} \<and> distinct cs \<and> \<not> (111 \<in> set cs \<and> 110 \<in> set cs)"

lemma bits4_and:
  "bits4 r w n x AND 1 \<noteq> 0 \<longleftrightarrow> r" "bits4 r w n x AND 2 \<noteq> 0 \<longleftrightarrow> w"
  "bits4 r w n x AND 4 \<noteq> 0 \<longleftrightarrow> n" "bits4 r w n x AND 8 \<noteq> 0 \<longleftrightarrow> x"
  "bits4 r w n x AND 3 = 0 \<longleftrightarrow> \<not> r \<and> \<not> w"
  by (cases r; cases w; cases n; cases x; simp add: bits4_def)+

lemma bits4_or:
  "bits4 r w n x OR 1 = bits4 True w n x" "bits4 r w n x OR 2 = bits4 r True n x"
  "bits4 r w n x OR 4 = bits4 r w True x" "bits4 r w n x OR 8 = bits4 r w n True"
  "bits4 r w n x OR 3 = bits4 True True n x"
  by (cases r; cases w; cases n; cases x; simp add: bits4_def)+

lemma mode_loop_bits:
  "mode_loop cs (bits4 r w n x) =
    (if mode_letters cs \<and> \<not> (r \<and> 114 \<in> set cs) \<and> \<not> (w \<and> 119 \<in> set cs) \<and> \<not> ((n \<or> x) \<and> (111 \<in> set cs \<or> 110 \<in> set cs))
     then Some (bits4 (r \<or> 114 \<in> set cs) (w \<or> 119 \<in> set cs) (n \<or> 110 \<in> set cs) (x \<or> 111 \<in> set cs)) else None)"
proof (induction cs arbitrary: r w n x)
  case (Cons c cs)
  consider "c = 114" | "c = 119" | "c = 111" | "c = 110" | "c \<notin> {114, 119, 111, 110}" by blast
  then show ?case
  proof cases
    case 1
    then show ?thesis using Cons by (auto simp: mode_letters_def bits4_and bits4_or)
  next
    case 2
    then show ?thesis using Cons by (auto simp: mode_letters_def bits4_and bits4_or)
  next
    case 3
    then show ?thesis using Cons by (auto simp: mode_letters_def bits4_and bits4_or)
  next
    case 4
    then show ?thesis using Cons by (auto simp: mode_letters_def bits4_and bits4_or)
  next
    case 5
    then show ?thesis by (auto simp: mode_letters_def)
  qed
qed (simp add: mode_letters_def)

lemma lfgetmode_bits:
  "lfgetmode mode =
    (if mode_letters mode
     then bits4 (114 \<in> set mode \<or> 119 \<notin> set mode) (119 \<in> set mode \<or> 114 \<notin> set mode) (110 \<in> set mode) (111 \<in> set mode)
     else SYSERR)"
proof -
  have "bits4 False False False False = 0" by (simp add: bits4_def)
  from mode_loop_bits[of mode False False False False, unfolded this]
  show ?thesis by (auto simp: lfgetmode_def bits4_and bits4_or)
qed

end
