(* ===== verification/Lfs_Correct.thy ===== *)
theory Lfs_Correct
  imports Lfs_Open
begin

text \<open>The properties of the local file system.\<close>

section \<open>Reading and writing\<close>

text \<open>C13: 
  Writing. On an open file at a position up to its end, with enough free blocks, \<^verbatim>\<open>lflwrite\<close> returns
  the number of bytes and the file is the old one with the bytes put over those from the position on;
  the position has moved behind them. The file has taken index blocks and data blocks off the free lists
  as its new length needs, and every other file is as it was. Where the blocks are in memory or on the
  disk does not matter.
\<close>

theorem lflwrite_correct:
  assumes "open_file K lay d files s e k" "0 \<le> count" "\<forall>x\<in>set (bytes_of buff count). 0 \<le> x \<and> x < 256"
    and "room_for lay e (position d k + nat count)"
  shows "\<exists>d'. lflwrite k buff count (s, d) = Return count (s, d') \<and>
    open_file K (grown lay e (position d k + nat count)) d' (files(e := overwrite (files e) (position d k) (bytes_of buff count))) s e k \<and>
    lfpos (lfltab d' k) = lfpos (lfltab d k) + count"
  using lflwrite_run[OF assms] by blast

text \<open>C21: 
  Reading. \<^verbatim>\<open>lflread\<close> delivers the bytes of the file from the position on, as many as there are up to the
  number asked for, and \<^verbatim>\<open>EOF\<close> at the end of the file. The position moves behind them; no file changes and
  no block is allocated.
\<close>

theorem lflread_correct:
  assumes "open_file K lay d files s e k" "0 \<le> count"
  shows "\<exists>d'. lflread k count (s, d) =
      (let out = take (nat count) (drop (position d k) (files e))
       in Return (if out = [] \<and> 0 < count then EOF else int (length out), out) (s, d')) \<and>
    open_file K lay d' files s e k \<and>
    lfpos (lfltab d' k) = min (lfpos (lfltab d k) + count) (int (length (files e)))"
proof -
  have "0 \<le> lfpos (lfltab d k)" "lfpos (lfltab d k) \<le> int (length (files e))"
    using file_rep_cache(6,7)[OF open_file_rep(1)[OF assms(1)]] by simp_all
  then show ?thesis using lflread_run[OF assms] assms(2) by (auto simp: Let_def min_def)
qed

text \<open>C20: 
  What has been written can be read: writing, seeking back to the old position and reading as many bytes
  gives the bytes that were written.
\<close>

theorem lfs_write_seek_read:
  assumes f: "open_file K lay d files s e k" and c: "0 \<le> count" and b: "\<forall>x\<in>set (bytes_of buff count). 0 \<le> x \<and> x < 256"
    and room: "room_for lay e (position d k + nat count)"
  shows "\<exists>d'. bindk (lflwrite k buff count (s, d)) (\<lambda>_ sd. bindk (lflseek k (lfpos (lfltab d k)) sd) (\<lambda>_ sd. lflread k count sd)) =
      Return (count, bytes_of buff count) (s, d') \<and>
    open_file K (grown lay e (position d k + nat count)) d' (files(e := overwrite (files e) (position d k) (bytes_of buff count))) s e k"
proof -
  let ?p = "position d k" and ?bs = "bytes_of buff count"
  let ?xs = "overwrite (files e) ?p ?bs"
  have p: "0 \<le> lfpos (lfltab d k)" "?p \<le> length (files e)" using file_rep_cache(6,7)[OF open_file_rep(1)[OF f]] by simp_all
  have l: "length ?bs = nat count" by (simp add: bytes_of_def)
  obtain d1 where 1: "lflwrite k buff count (s, d) = Return count (s, d1)" "open_file K (grown lay e (?p + nat count)) d1 (files(e := ?xs)) s e k"
    using lflwrite_run[OF f c b room] by blast
  have "lfpos (lfltab d k) \<le> int (length ((files(e := ?xs)) e))" using length_overwrite[OF p(2), of ?bs] p(1) by simp
  then obtain d2 where 2: "lflseek k (lfpos (lfltab d k)) (s, d1) = Return OK (s, d2)"
    "open_file K (grown lay e (?p + nat count)) d2 (files(e := ?xs)) s e k" "lfpos (lfltab d2 k) = lfpos (lfltab d k)"
    using lflseek_run[OF 1(2) p(1)] by blast
  have out: "take (nat count) (drop ?p ?xs) = ?bs" using p(2) l by (simp add: overwrite_def)
  obtain d3 where 3: "lflread k count (s, d2) = Return (if ?bs = [] \<and> 0 < count then EOF else int (length ?bs), ?bs) (s, d3)"
    "open_file K (grown lay e (?p + nat count)) d3 (files(e := ?xs)) s e k"
    using lflread_run[OF 2(2) c] 2(3) out by auto
  have "(if ?bs = [] \<and> 0 < count then EOF else int (length ?bs)) = count" using l c by auto
  then show ?thesis using 1(1) 2(1) 3 by auto
qed

text \<open>C19: 
  Truncation. The file is empty, its index blocks and its data blocks, these in reverse, are in front of
  the free lists, and every other file is as it was. The bytes that \<^verbatim>\<open>lfdbfree\<close> writes from the stack may
  be any.
\<close>

theorem lfs_truncate_correct:
  assumes "open_file K lay d files s e k" "\<forall>b. dvalid K b \<longrightarrow> length (junk b) = 508"
  shows "\<exists>lay' d'. lflcontrol junk k LF_CTL_TRUNC (s, d) = Return OK (s, d') \<and> open_file K lay' d' (files(e := [])) s e k \<and>
    (files e \<noteq> [] \<longrightarrow> lay' = lay\<lparr>ibs := (ibs lay)(e := []), dbs := (dbs lay)(e := []),
       ifree := ibs lay e @ ifree lay, dfree := rev (dbs lay e) @ dfree lay\<rparr>)"
  using trunc_control_run[OF assms(1), of junk] assms(2) by (auto simp: give_def)

section \<open>Opening and closing\<close>

definition has_entry :: "int list \<Rightarrow> lfdir \<Rightarrow> bool" where
  "has_entry name r \<longleftrightarrow> (\<exists>e. 0 \<le> e \<and> e < lfd_nfiles r \<and> in_dir name r e)"

definition refused :: "lfdir \<Rightarrow> int list \<Rightarrow> int list \<Rightarrow> bool" where
  "refused r name mode \<longleftrightarrow> (if has_entry name r then 110 \<in> set mode else 111 \<in> set mode \<or> lfd_nfiles r = 20)"

lemma mode_bits:
  assumes "lfgetmode mode \<noteq> SYSERR"
  shows "lfgetmode mode AND LF_MODE_N \<noteq> 0 \<longleftrightarrow> 110 \<in> set mode" "lfgetmode mode AND LF_MODE_O \<noteq> 0 \<longleftrightarrow> 111 \<in> set mode"
  using assms lfgetmode_bits[of mode] by (auto simp: bits4_and split: if_splits)

text \<open>
  \<^verbatim>\<open>lfgetmode\<close> accepts a string of the letters \<^verbatim>\<open>r\<close>, \<^verbatim>\<open>w\<close>, \<^verbatim>\<open>o\<close>, \<^verbatim>\<open>n\<close> without repetition and without both \<^verbatim>\<open>o\<close>
  and \<^verbatim>\<open>n\<close>, and gives the sum of the bits; reading and writing if neither is named.
\<close>

theorem lfgetmode_correct:
  "lfgetmode mode =
    (if mode_letters mode
     then (if 114 \<in> set mode \<or> 119 \<notin> set mode then LF_MODE_R else 0) + (if 119 \<in> set mode \<or> 114 \<notin> set mode then LF_MODE_W else 0) +
       (if 110 \<in> set mode then LF_MODE_N else 0) + (if 111 \<in> set mode then LF_MODE_O else 0)
     else SYSERR)"
  unfolding lfgetmode_bits bits4_def by simp

text \<open>C18: 
  Opening. \<^verbatim>\<open>lfsopen\<close> fails, without any change, for a bad mode, a name that is too long or open already,
  when no control block is free, when the file must be new and is there, and when it is not there and
  must be or the directory is full. Otherwise it returns the device of a free control block, which is the
  file's from now on, at position 0: the entry of the directory with that name, or a new empty file.
\<close>

theorem lfsopen_correct:
  assumes r: "fs_rep K lay d files" and nm: "named d" and g: "sem_has s (lf_mutex d) 1" and z: "0 \<notin> set name"
    and l: "\<forall>k. 0 \<le> k \<and> k < Nlfl \<longrightarrow> length (lfdblock (lfltab d k)) = 512"
  shows "if \<not> may_open d name mode \<or> refused (lf_dir d) name mode
    then lfsopen name mode (s, d) = Return SYSERR (s, d)
    else \<exists>k e d'. 0 \<le> k \<and> k < Nlfl \<and> lfstate (lfltab d k) = LF_FREE \<and> who lay e = None \<and>
      lfsopen name mode (s, d) = Return (lfdev (lfltab d k)) (s, d') \<and> in_dir name (lf_dir d') e \<and> lfpos (lfltab d' k) = 0 \<and> named d' \<and>
      (if has_entry name (lf_dir d) then fs_rep K (lay\<lparr>who := (who lay)(e := Some k)\<rparr>) d' files \<and> lf_dir d' = lf_dir d
       else e = lfd_nfiles (lf_dir d) \<and> lfd_nfiles (lf_dir d') = e + 1 \<and>
         fs_rep K (add_file lay e\<lparr>who := (who lay)(e := Some k)\<rparr>) d' (files(e := [])))"
proof (cases "\<not> may_open d name mode \<or> refused (lf_dir d) name mode")
  case True
  show ?thesis
  proof (cases "may_open d name mode")
    case m: True
    then have md: "lfgetmode mode \<noteq> SYSERR" by (simp add: may_open_def)
    have "lfsopen name mode (s, d) = Return SYSERR (s, d)"
      by (rule lfsopen_refused[OF r g m]) (use True m mode_bits[OF md] in \<open>auto simp: refused_def has_entry_def split: if_splits\<close>)
    then show ?thesis using True by simp
  next
    case False
    then show ?thesis using lfsopen_not by simp
  qed
next
  case False
  then have m: "may_open d name mode" and nr: "\<not> refused (lf_dir d) name mode" by simp_all
  then have md: "lfgetmode mode \<noteq> SYSERR" by (simp add: may_open_def)
  have l': "\<And>k. 0 \<le> k \<Longrightarrow> k < Nlfl \<Longrightarrow> length (lfdblock (lfltab d k)) = 512" using l by blast
  show ?thesis
  proof (cases "has_entry name (lf_dir d)")
    case True
    then obtain e0 where e0: "0 \<le> e0" "e0 < lfd_nfiles (lf_dir d)" "in_dir name (lf_dir d) e0" by (auto simp: has_entry_def)
    have n: "lfgetmode mode AND LF_MODE_N = 0" using nr True mode_bits(1)[OF md] by (simp add: refused_def)
    obtain k e d' where "0 \<le> k" "k < Nlfl" "lfstate (lfltab d k) = LF_FREE" "lfsopen name mode (s, d) = Return (lfdev (lfltab d k)) (s, d')"
      "in_dir name (lf_dir d) e" "who lay e = None" "fs_rep K (lay\<lparr>who := (who lay)(e := Some k)\<rparr>) d' files" "lfpos (lfltab d' k) = 0"
      "named d'" "calm d d'"
      using lfsopen_found[OF r nm g m z l' e0 n] by blast
    moreover from this have "lf_dir d' = lf_dir d" by (simp add: calm_def)
    ultimately show ?thesis using False True by (simp, intro exI[of _ k] conjI exI[of _ e] exI[of _ d']) simp_all
  next
    case new: False
    have n: "lfgetmode mode AND LF_MODE_O = 0" using nr new mode_bits(2)[OF md] by (simp add: refused_def)
    have lt: "lfd_nfiles (lf_dir d) < 20" using nr new r by (auto simp: refused_def fs_rep_def)
    have ne: "\<And>e. 0 \<le> e \<Longrightarrow> e < lfd_nfiles (lf_dir d) \<Longrightarrow> \<not> in_dir name (lf_dir d) e" using new by (auto simp: has_entry_def)
    have w: "who lay (lfd_nfiles (lf_dir d)) = None"
      using who_ok_range[of lay d "lfd_nfiles (lf_dir d)"] r by (cases "who lay (lfd_nfiles (lf_dir d))") (auto simp: fs_rep_def)
    obtain k d' where "0 \<le> k" "k < Nlfl" "lfstate (lfltab d k) = LF_FREE" "lfsopen name mode (s, d) = Return (lfdev (lfltab d k)) (s, d')"
      "fs_rep K (add_file lay (lfd_nfiles (lf_dir d))\<lparr>who := (who lay)(lfd_nfiles (lf_dir d) := Some k)\<rparr>) d' (files(lfd_nfiles (lf_dir d) := []))"
      "lfd_nfiles (lf_dir d') = lfd_nfiles (lf_dir d) + 1" "in_dir name (lf_dir d') (lfd_nfiles (lf_dir d))" "lfpos (lfltab d' k) = 0" "named d'"
      using lfsopen_new[OF r nm g m z l' refl lt ne n] by blast
    then show ?thesis using False new w
      by (simp, intro exI[of _ k] conjI exI[of _ "lfd_nfiles (lf_dir d)"] exI[of _ d']) simp_all
  qed
qed

text \<open>C14: 
  Closing the only open file, if the directory in memory is the one on the disk or is marked as old (a file
  that was created and not written to yet makes neither true). Then \<^verbatim>\<open>lflclose\<close> brings everything onto the
  disk: a system that starts with the same disk, nothing of it in memory, loads the directory, passes its
  check, and represents the same files under the same names.
\<close>

theorem lfs_close_durable:
  assumes f: "open_file K lay d files s e k" and one: "who lay = [e \<mapsto> k]" and dir: "lf_dirdirty d \<or> synced d" and c: "lfscheck (lf_dir d) = OK"
  shows "\<exists>d1. lflclose k (s, d) = Return OK (s, d1) \<and>
    (\<forall>d0 :: lfs. ram d0 = ram d1 \<and> \<not> lf_dirpresent d0 \<and> (\<forall>k. 0 \<le> k \<and> k < Nlfl \<longrightarrow> lfstate (lfltab d0 k) = LF_FREE) \<longrightarrow>
      (\<exists>d'. load_dir d0 = Some (OK, d') \<and> fs_rep K (lay\<lparr>who := Map.empty\<rparr>) d' files \<and> lfd_nfiles (lf_dir d') = lfd_nfiles (lf_dir d) \<and>
        (\<forall>e. 0 \<le> e \<and> e < 20 \<longrightarrow> ld_name (entry d' e) = ld_name (entry d e))))"
proof -
  obtain d1 where 1: "lflclose k (s, d) = Return OK (s, d1)" "fs_rep K (lay\<lparr>who := (who lay)(e := None)\<rparr>) d1 files"
    "lf_dir d1 = lf_dir d" "synced d1"
    using lflclose_run[OF f] dir by (auto simp: dir_ok_def)
  have w: "(who lay)(e := None) = Map.empty" using one by auto
  show ?thesis
  proof (rule exI[of _ d1], intro conjI allI impI)
    show "lflclose k (s, d) = Return OK (s, d1)" by (rule 1(1))
    fix d0 :: lfs assume "ram d0 = ram d1 \<and> \<not> lf_dirpresent d0 \<and> (\<forall>k. 0 \<le> k \<and> k < Nlfl \<longrightarrow> lfstate (lfltab d0 k) = LF_FREE)"
    then show "\<exists>d'. load_dir d0 = Some (OK, d') \<and> fs_rep K (lay\<lparr>who := Map.empty\<rparr>) d' files \<and> lfd_nfiles (lf_dir d') = lfd_nfiles (lf_dir d) \<and>
        (\<forall>e. 0 \<le> e \<and> e < 20 \<longrightarrow> ld_name (entry d' e) = ld_name (entry d e))"
      using restart_run[OF 1(2)[unfolded w] _ 1(4), of d0] c 1(3) by auto
  qed
qed

section \<open>Defects\<close>

text \<open>C37: 
  If the directory is not marked as old when a new file is opened, and the file is closed before anything is
  written to it or to another file, the file is in the directory in memory, but not on the disk: \<^verbatim>\<open>lfsopen\<close>
  does not mark the directory, and \<^verbatim>\<open>lflclose\<close> writes nothing. (If it is marked already, because another file
  has just grown, \<^verbatim>\<open>lflclose\<close> writes the directory with the new entry.)
\<close>

theorem lfs_new_file_lost:
  assumes r: "fs_rep K lay d files" and nm: "named d" and g: "sem_has s (lf_mutex d) 1" and z: "0 \<notin> set name"
    and l: "\<forall>k. 0 \<le> k \<and> k < Nlfl \<longrightarrow> length (lfdblock (lfltab d k)) = 512 \<and> idle_file s d k"
    and m: "may_open d name mode" "\<not> refused (lf_dir d) name mode" "\<not> has_entry name (lf_dir d)" and dir: "\<not> lf_dirdirty d"
  shows "\<exists>k d1 d2. lfsopen name mode (s, d) = Return (lfdev (lfltab d k)) (s, d1) \<and> lflclose k (s, d1) = Return OK (s, d2) \<and>
    has_entry name (lf_dir d2) \<and> ram d2 = ram d"
proof -
  let ?n = "lfd_nfiles (lf_dir d)"
  have md: "lfgetmode mode \<noteq> SYSERR" using m(1) by (simp add: may_open_def)
  have n: "lfgetmode mode AND LF_MODE_O = 0" using m(2,3) mode_bits(2)[OF md] by (simp add: refused_def)
  have lt: "0 \<le> ?n" "?n \<le> 20" "?n \<noteq> 20" using m(2,3) r by (auto simp: refused_def fs_rep_def)
  have f: "find_entry name (lfgetmode mode) d = Some (?n, add_entry name d)"
    using find_entry_cases[OF refl lt(1,2), of name "lfgetmode mode"] m(3) lt n by (auto simp: has_entry_def split: if_splits)
  have p: "lf_dirpresent d" using r by (simp add: fs_rep_def)
  have tab: "lf_mutex (add_entry name d) = lf_mutex d" "lfltab (add_entry name d) = lfltab d" "lfd_nfiles (lf_dir (add_entry name d)) = ?n + 1"
    "ld_name (entry (add_entry name d) ?n) = put_name name (ld_name (entry d ?n))" "ram (add_entry name d) = ram d"
    "lf_dirdirty (add_entry name d) = lf_dirdirty d"
    by (simp_all add: add_entry_def updir_def Let_def)
  obtain k where k: "0 \<le> k" "k < Nlfl"
    "lfsopen name mode (s, d) = Return (lfdev (lfltab d k)) (s, open_block k ?n (lfgetmode mode) name (add_entry name d))"
    using lfsopen_eq[OF m(1) p g] f tab(1,2) lt by (auto split: if_splits)
  let ?d1 = "open_block k ?n (lfgetmode mode) name (add_entry name d)"
  let ?d2 = "upc k (\<lambda>c. c\<lparr>lfstate := LF_FREE\<rparr>) ?d1"
  have idle: "idle_file s ?d1 k" using l k tab by (simp add: idle_file_def open_block_def)
  have "close_flush k ?d1 = Some ?d1" "lfstate (lfltab ?d1 k) = LF_USED" "lfmutex (lfltab ?d2 k) = lfmutex (lfltab ?d1 k)"
    using dir tab(6) by (simp_all add: close_flush_def open_block_def)
  then have "lflclose k (s, ?d1) = Return OK (s, ?d2)"
    using enter_idle[OF idle] release_idle[OF idle, of ?d2] by (simp add: lflclose_def onu_def)
  moreover have "has_entry name (lf_dir ?d2)"
    unfolding has_entry_def using lt tab name_match_self by (intro exI[of _ ?n]) (simp add: open_block_def in_dir_def put_name_eq)
  ultimately show ?thesis using k(3) tab(5) by (intro exI[of _ k] exI[of _ ?d1] exI[of _ ?d2]) (simp add: open_block_def)
qed

text \<open>\<^verbatim>\<open>lfscreate\<close> does not store the identification that \<^verbatim>\<open>lfscheck\<close> looks for.\<close>

lemma ramwrite_keeps: "ramwrite b bs M = Some M' \<Longrightarrow> 1 \<le> b \<Longrightarrow> blk M' 0 512 = blk M 0 512"
  by (auto simp: ramwrite_def blk_putb_other split: if_splits)

lemma lfibput_keeps: "lfibput i ib M = Some M' \<Longrightarrow> 0 \<le> i \<Longrightarrow> blk M' 0 512 = blk M 0 512"
  by (auto simp: lfibput_def ib2sect_def Option.bind_eq_Some_conv split: if_splits intro: ramwrite_keeps)

lemma create_ibs_keeps: "create_ibs n i M = Some M' \<Longrightarrow> 0 \<le> i \<Longrightarrow> blk M' 0 512 = blk M 0 512"
proof (induction n arbitrary: i M)
  case (Suc n)
  then obtain M1 where "lfibput i ((lfibclear 0)\<lparr>ib_next := i + 1\<rparr>) M = Some M1" "create_ibs n (i + 1) M1 = Some M'"
    by (auto simp: Option.bind_eq_Some_conv)
  then show ?case using Suc.IH[of "i + 1" M1] lfibput_keeps Suc.prems(2) by fastforce
qed simp

lemma create_dbs_keeps: "create_dbs n b M = Some M' \<Longrightarrow> 1 \<le> b \<Longrightarrow> blk M' 0 512 = blk M 0 512"
proof (induction n arbitrary: b M)
  case (Suc n)
  then obtain M1 where "ramwrite b (wbytes (b + 1) @ replicate 508 0) M = Some M1" "create_dbs n (b + 1) M1 = Some M'"
    by (auto simp: Option.bind_eq_Some_conv)
  then show ?case using Suc.IH[of "b + 1" M1] ramwrite_keeps Suc.prems(2) by fastforce
qed simp

lemma create_dbs_start: "create_dbs n b M = Some M1 \<Longrightarrow> ramwrite (b + int n) bs M1 = Some M' \<Longrightarrow> 0 \<le> b"
  by (cases n) (auto simp: ramwrite_def Option.bind_eq_Some_conv split: if_splits)

lemma lfscreate_dir:
  assumes "lfscreate lfiblks dsiz M = Some (OK, M')"
  shows "lfd_fsysid (dec_dir (blk M' 0 512)) = 0"
proof -
  define ibs where "ibs = u32 (lfiblks + (LF_BLKSIZ div 72 - 1)) div (LF_BLKSIZ div 72)"
  define db where "db = i32 (ibs + 1)"
  let ?dir = "(dec_dir (replicate 512 0))\<lparr>lfd_nfiles := 0, lfd_dfree := db\<rparr>"
  have ne: "SYSERR \<noteq> OK" by simp
  obtain M1 M2 M3 M4 n n' where s: "ramwrite LF_AREA_DIR (enc_dir ?dir) M = Some M1" "create_ibs n 0 M1 = Some M2"
    "lfibput (int n) ((lfibclear 0)\<lparr>ib_next := LF_INULL\<rparr>) M2 = Some M3" "create_dbs n' db M3 = Some M4"
    "ramwrite (db + int n') (wbytes LF_DNULL @ replicate 508 0) M4 = Some M'"
    using assms ne unfolding lfscreate_def ibs_def db_def Let_def
    by (auto simp only: Option.bind_eq_Some_conv option.inject prod.inject split: if_split_asm)
  have nm: "\<forall>i. 0 \<le> i \<and> i < 20 \<longrightarrow> length (ld_name (lfd_files ?dir i)) = 16" by (auto simp: dec_dir_def dec_ent_def min_def)
  have "0 \<le> db" using create_dbs_start[OF s(4,5)] .
  moreover have "db \<noteq> 0"
  proof
    assume "db = 0"
    moreover have "0 \<le> ibs" "ibs < 1000000000" by (auto simp: ibs_def u32_def)
    ultimately show False by (simp add: db_def i32_id)
  qed
  ultimately have db: "1 \<le> db" "1 \<le> db + int n'" by simp_all
  have "blk M' 0 512 = blk M1 0 512"
    using create_ibs_keeps[OF s(2)] lfibput_keeps[OF s(3)] create_dbs_keeps[OF s(4) db(1)] ramwrite_keeps[OF s(5) db(2)] by simp
  also have "\<dots> = enc_dir ?dir"
    using s(1) blk_putb[of 0 "enc_dir ?dir" M] length_enc_dir[of ?dir] nm by (auto simp: ramwrite_def split: if_splits)
  finally show ?thesis using dec_enc_dir(1)[OF nm] by (simp add: dec_dir_def wat_def hat_def u32_def)
qed

text \<open>C36: 
  A file system that \<^verbatim>\<open>lfscreate\<close> has made cannot be used: with nothing in memory yet, \<^verbatim>\<open>lfsopen\<close> returns
  \<^verbatim>\<open>SYSERR\<close> for every name and mode, and \<^verbatim>\<open>lfsckfmt\<close> panics.
\<close>

theorem lfscreate_unusable:
  assumes "lfscreate lfiblks dsiz M = Some (OK, M')" "ram d = M'" "\<not> lf_dirpresent d" "sem_has s (lf_mutex d) 1"
  shows "(\<exists>d'. lfsopen name mode (s, d) = Return SYSERR (s, d')) \<and> lfsckfmt M' = None"
proof -
  let ?r = "dec_dir (blk M' 0 512)"
  have chk: "lfscheck ?r = SYSERR" using lfscreate_dir[OF assms(1)] by (simp add: lfscheck_def)
  then have ck: "lfsckfmt M' = None" by (simp add: lfsckfmt_def ramread_def Let_def)
  let ?d = "updir (\<lambda>_. ?r) d"
  have l: "load_dir d = Some (SYSERR, ?d)" using assms(2,3) chk by (simp add: load_dir_def ramread_def updir_def)
  note w = take_mutex[OF assms(4)] give_mutex[OF assms(4)]
  have "open_scan (nat Nlfl) 0 name d SYSERR = None \<or> (\<exists>k. open_scan (nat Nlfl) 0 name d SYSERR = Some k)"
    by (cases "open_scan (nat Nlfl) 0 name d SYSERR") simp_all
  then have "\<exists>d'. lfsopen name mode (s, d) = Return SYSERR (s, d')"
    using l w by (auto simp: lfsopen_def Let_def ond_def onk_def leave_def updir_def)
  then show ?thesis using ck by blast
qed

end
