(* ===== verification/Lfs_Examples.thy ===== *)
theory Lfs_Examples
  imports Tty_Examples Lfs_Correct
begin

text \<open>A small disk for the properties of the local file system: two free index blocks and two free data blocks.\<close>

section \<open>The disk\<close>

definition free_ib :: "int \<Rightarrow> lfiblk" where
  "free_ib nx = (lfibclear 0)\<lparr>ib_next := nx\<rparr>"

definition free_db :: "int \<Rightarrow> int list" where
  "free_db nx = wbytes nx @ replicate 508 0"

definition bytes0 :: store where
  "bytes0 = putb (512 * 2) (free_db 3) (putb (512 * 3) (free_db (-1))
     (putb (ibaddr 0) (enc_ib (free_ib 1)) (putb (ibaddr 1) (enc_ib (free_ib (-1))) (\<lambda>_. 0))))"

definition name_a :: "int list" where
  "name_a = 97 # replicate 15 0"

definition cblk :: lflcblk where
  "cblk = \<lparr>lfstate = LF_USED, lfdev = 20, lfmutex = 5, lfdirptr = 0, lfmode = 3, lfpos = 0, lfname = name_a, lfinum = -1,
     lfiblock = lfibclear 0, lfdnum = -1, lfdblock = replicate 512 0, lfbyte = 512, lfibdirty = False, lfdbdirty = False\<rparr>"

definition dir0 :: lfdir where
  "dir0 = \<lparr>lfd_fsysid = LFS_ID, lfd_vers = 0, lfd_subvers = 0, lfd_allzeros = 0, lfd_allones = 0xffffffff, lfd_dfree = 2, lfd_ifree = 0,
     lfd_nfiles = 1, lfd_files = (\<lambda>_. \<lparr>ld_size = 0, ld_ilist = -1, ld_name = name_a\<rparr>), lfd_revid = 0x756E6958\<rparr>"

definition disk0 :: "bool \<Rightarrow> lfs" where
  "disk0 old = \<lparr>lf_mutex = 6, lf_dir = dir0, lf_dirpresent = True, lf_dirdirty = old,
     lfltab = (\<lambda>k. if k = 0 then cblk else cblk\<lparr>lfstate := LF_FREE\<rparr>), ram = bytes0\<rparr>"

definition lay0 :: layout where
  "lay0 = \<lparr>who = [0 \<mapsto> 0], ibs = (\<lambda>_. []), dbs = (\<lambda>_. []), ifree = [0, 1], dfree = [2, 3]\<rparr>"

definition no_files :: "int \<Rightarrow> int list" where
  "no_files = (\<lambda>_. [])"

lemma wf_free_ib: "- 1 \<le> nx \<Longrightarrow> nx < 1400 \<Longrightarrow> wf_ib (free_ib nx)"
  by (simp add: wf_ib_def free_ib_def lfibclear_def)

lemma bytes0:
  "ibof bytes0 0 = free_ib 1" "ibof bytes0 1 = free_ib (-1)" "dbof bytes0 2 = free_db 3" "dbof bytes0 3 = free_db (-1)"
proof -
  have K: "isectors 1" "dvalid 1 2" "dvalid 1 3" "ivalid 1 0" "ivalid 1 1" by (simp_all add: isectors_def dvalid_def ivalid_def)
  have l: "length (free_db nx) = 512" for nx by (simp add: free_db_def)
  have w: "wf_ib (free_ib 1)" "wf_ib (free_ib (-1))" by (simp_all add: wf_free_ib)
  show "ibof bytes0 0 = free_ib 1" "ibof bytes0 1 = free_ib (-1)"
    unfolding bytes0_def ibof_put_db[OF K(4,2,1)] ibof_put_db[OF K(4,3,1)] ibof_put_db[OF K(5,2,1)] ibof_put_db[OF K(5,3,1)]
    using w by (simp_all add: ibof_put_ib)
  show "dbof bytes0 2 = free_db 3" "dbof bytes0 3 = free_db (-1)" unfolding bytes0_def dbof_put_db[OF l] by simp_all
qed

lemma rep0: "fs_rep 1 lay0 (disk0 b) no_files"
proof -
  have 1: "apart_lists 1 (\<lambda>_. []) [0, 1 :: int]" "apart_lists 1 (\<lambda>_. []) [2, 3 :: int]" by (simp_all add: apart_lists_def)
  have 2: "within (ivalid 1) 1 (\<lambda>_. []) [0, 1]" "within (dvalid 1) 1 (\<lambda>_. []) [2, 3]" by (simp_all add: within_def ivalid_def dvalid_def)
  have 3: "ichain (ibof bytes0) 0 [0, 1]" "dchain (dbof bytes0) 2 [2, 3]"
    using wat_wbytes[of 3 "replicate 508 0"] wat_wbytes[of "-1" "replicate 508 0"]
    by (simp_all add: bytes0 free_ib_def free_db_def u32_def i32_def)
  have 4: "who_ok lay0 (disk0 b)" by (auto simp: who_ok_def lay0_def disk0_def cblk_def dir0_def split: if_splits)
  have 5: "file_ok bytes0 (entry (disk0 b) 0) (Some cblk) [] [] []"
    by (simp add: file_ok_def cache_ok_def cblk_def disk0_def dir0_def)
  have 6: "e = 0" if "0 \<le> e" "e < 1" for e :: int using that by simp
  show ?thesis
    using 1 2 3 4 5 6 by (auto simp: fs_rep_def isectors_def disk0_def dir0_def lay0_def no_files_def name_a_def)
qed

lemma idle0: "idle_file (tk 1 1) (disk0 b) k"
  using tk(1,2)[of 1 1] by (simp add: idle_file_def idle_def disk0_def cblk_def)

lemma open0: "open_file 1 lay0 (disk0 b) no_files (tk 1 1) 0 0"
  using rep0 idle0 by (simp add: open_file_def lay0_def)

lemma pos0: "lfpos (lfltab (disk0 b) 0) = 0"
  by (simp add: disk0_def cblk_def)

lemma room0: "room_for lay0 0 3"
  by (simp add: room_for_def lay0_def need_def)

lemma abc: "bytes_of (\<lambda>j. 65 + j) 3 = [65, 66, 67]"
  by (simp add: bytes_of_def upt_rec)

lemma overwrite_abc: "overwrite [] 0 [65, 66, 67 :: int] = [65, 66, 67]"
  by (simp add: overwrite_def)

section \<open>The properties on this disk\<close>

theorem lflwrite_correct_witness:
  "\<exists>d'. lflwrite 0 (\<lambda>j. 65 + j) 3 (tk 1 1, disk0 True) = Return 3 (tk 1 1, d') \<and>
    open_file 1 (grown lay0 0 3) d' (no_files(0 := [65, 66, 67])) (tk 1 1) 0 0 \<and> lfpos (lfltab d' 0) = 3"
  using lflwrite_correct[OF open0[of True], where count = 3 and buff = "\<lambda>j. 65 + j"] room0
  by (simp add: abc pos0 no_files_def overwrite_abc)

lemma written:
  obtains d where "open_file 1 (grown lay0 0 3) d (no_files(0 := [65, 66, 67])) (tk 1 1) 0 0" "lfpos (lfltab d 0) = 1"
proof -
  obtain d1 where 1: "open_file 1 (grown lay0 0 3) d1 (no_files(0 := [65, 66, 67])) (tk 1 1) 0 0"
    using lflwrite_run[OF open0[of True], where count = 3 and buff = "\<lambda>j. 65 + j"] room0
    by (auto simp: abc pos0 no_files_def overwrite_abc)
  show ?thesis using lflseek_run[OF 1, of 1] that by auto
qed

theorem lflread_correct_witness:
  "\<exists>lay d d'. open_file 1 lay d (no_files(0 := [65, 66, 67])) (tk 1 1) 0 0 \<and>
    lflread 0 5 (tk 1 1, d) = Return (2, [66, 67]) (tk 1 1, d') \<and> lfpos (lfltab d' 0) = 3"
proof -
  obtain d where d: "open_file 1 (grown lay0 0 3) d (no_files(0 := [65, 66, 67])) (tk 1 1) 0 0" "lfpos (lfltab d 0) = 1" by (rule written)
  then show ?thesis using lflread_correct[OF d(1), of 5] by (auto simp: Let_def)
qed

theorem lfs_write_seek_read_witness:
  "\<exists>d'. bindk (lflwrite 0 (\<lambda>j. 65 + j) 3 (tk 1 1, disk0 True))
      (\<lambda>_ sd. bindk (lflseek 0 0 sd) (\<lambda>_ sd. lflread 0 3 sd)) = Return (3, [65, 66, 67]) (tk 1 1, d') \<and>
    open_file 1 (grown lay0 0 3) d' (no_files(0 := [65, 66, 67])) (tk 1 1) 0 0"
  using lfs_write_seek_read[OF open0[of True], where count = 3 and buff = "\<lambda>j. 65 + j"] room0
  by (simp add: abc pos0 no_files_def overwrite_abc)

theorem lfs_truncate_correct_witness:
  "\<exists>lay d lay' d'. open_file 1 lay d (no_files(0 := [65, 66, 67])) (tk 1 1) 0 0 \<and>
    lflcontrol (\<lambda>_. replicate 508 0) 0 LF_CTL_TRUNC (tk 1 1, d) = Return OK (tk 1 1, d') \<and>
    open_file 1 lay' d' (no_files(0 := [])) (tk 1 1) 0 0 \<and> ifree lay' = [0, 1] \<and> dfree lay' = [2, 3]"
proof -
  obtain d where d: "open_file 1 (grown lay0 0 3) d (no_files(0 := [65, 66, 67])) (tk 1 1) 0 0" by (rule written)
  have g: "ibs (grown lay0 0 3) 0 = [0]" "ifree (grown lay0 0 3) = [1]" "dbs (grown lay0 0 3) 0 = [2]" "dfree (grown lay0 0 3) = [3]"
    by (simp_all add: grown_def give_def lay0_def need_def)
  obtain lay' d' where "lflcontrol (\<lambda>_. replicate 508 0) 0 LF_CTL_TRUNC (tk 1 1, d) = Return OK (tk 1 1, d')"
    "open_file 1 lay' d' ((no_files(0 := [65, 66, 67]))(0 := [])) (tk 1 1) 0 0"
    "lay' = (grown lay0 0 3)\<lparr>ibs := (ibs (grown lay0 0 3))(0 := []), dbs := (dbs (grown lay0 0 3))(0 := []),
       ifree := ibs (grown lay0 0 3) 0 @ ifree (grown lay0 0 3), dfree := rev (dbs (grown lay0 0 3) 0) @ dfree (grown lay0 0 3)\<rparr>"
    using lfs_truncate_correct[OF d, of "\<lambda>_. replicate 508 0"] by auto
  then show ?thesis using d g by (intro exI conjI) (assumption | simp)+
qed

lemma named0: "named (disk0 b)"
  by (auto simp: named_def disk0_def dir0_def cblk_def split: if_splits)

lemma may0: "may_open (disk0 b) [98] []"
  by (auto simp: may_open_def is_open_def disk0_def cblk_def name_a_def lfgetmode_def intro!: exI[of _ 1])

lemma new0: "\<not> has_entry [98] (lf_dir (disk0 b))" "\<not> refused (lf_dir (disk0 b)) [98] []"
  by (auto simp: has_entry_def refused_def in_dir_def disk0_def dir0_def name_a_def)

lemma blocks0: "\<forall>k. 0 \<le> k \<and> k < Nlfl \<longrightarrow> length (lfdblock (lfltab (disk0 b) k)) = 512"
  by (simp add: disk0_def cblk_def)

theorem lfsopen_correct_witness:
  "\<exists>k d'. lfsopen [98] [] (tk 1 1, disk0 True) = Return 20 (tk 1 1, d') \<and>
    fs_rep 1 (add_file lay0 1\<lparr>who := [0 \<mapsto> 0, 1 \<mapsto> k]\<rparr>) d' (no_files(1 := [])) \<and> in_dir [98] (lf_dir d') 1"
proof -
  have dev: "lfdev (lfltab (disk0 True) k) = 20" "lfd_nfiles (lf_dir (disk0 True)) = 1" for k by (simp_all add: disk0_def cblk_def dir0_def)
  have g: "sem_has (tk 1 1) (lf_mutex (disk0 True)) 1" using tk(2)[of 1 1] by (simp add: disk0_def)
  have w: "who lay0 = [0 \<mapsto> 0]" by (simp add: lay0_def)
  show ?thesis
    using lfsopen_correct[OF rep0 named0 g _ blocks0, of "[98]" "[]"] may0[of True] new0[of True] unfolding dev w by auto
qed

theorem lfs_close_durable_witness:
  "\<exists>d1. lflclose 0 (tk 1 1, disk0 True) = Return OK (tk 1 1, d1) \<and>
    (\<exists>d'. load_dir (d1\<lparr>lf_dirpresent := False, lfltab := \<lambda>_. cblk\<lparr>lfstate := LF_FREE\<rparr>\<rparr>) = Some (OK, d') \<and>
      fs_rep 1 (lay0\<lparr>who := Map.empty\<rparr>) d' no_files)"
proof -
  have "who lay0 = [0 \<mapsto> 0]" "lf_dirdirty (disk0 True)" by (simp_all add: lay0_def disk0_def)
  moreover have "lfscheck (lf_dir (disk0 True)) = OK" unfolding lfscheck_fields by (simp add: disk0_def dir0_def)
  ultimately obtain d1 where d1: "lflclose 0 (tk 1 1, disk0 True) = Return OK (tk 1 1, d1)"
    "\<forall>d0 :: lfs. ram d0 = ram d1 \<and> \<not> lf_dirpresent d0 \<and> (\<forall>k. 0 \<le> k \<and> k < Nlfl \<longrightarrow> lfstate (lfltab d0 k) = LF_FREE) \<longrightarrow>
      (\<exists>d'. load_dir d0 = Some (OK, d') \<and> fs_rep 1 (lay0\<lparr>who := Map.empty\<rparr>) d' no_files \<and>
        lfd_nfiles (lf_dir d') = lfd_nfiles (lf_dir (disk0 True)) \<and>
        (\<forall>e. 0 \<le> e \<and> e < 20 \<longrightarrow> ld_name (entry d' e) = ld_name (entry (disk0 True) e)))"
    using lfs_close_durable[OF open0, of True] by blast
  let ?d0 = "d1\<lparr>lf_dirpresent := False, lfltab := \<lambda>_. cblk\<lparr>lfstate := LF_FREE\<rparr>\<rparr>"
  have "ram ?d0 = ram d1 \<and> \<not> lf_dirpresent ?d0 \<and> (\<forall>k. 0 \<le> k \<and> k < Nlfl \<longrightarrow> lfstate (lfltab ?d0 k) = LF_FREE)" by simp
  then show ?thesis using d1 by blast
qed

theorem lfs_new_file_lost_witness:
  "\<exists>k d1 d2. lfsopen [98] [] (tk 1 1, disk0 False) = Return 20 (tk 1 1, d1) \<and> lflclose k (tk 1 1, d1) = Return OK (tk 1 1, d2) \<and>
    has_entry [98] (lf_dir d2) \<and> ram d2 = bytes0"
proof -
  have dev: "lfdev (lfltab (disk0 False) k) = 20" "ram (disk0 False) = bytes0" "\<not> lf_dirdirty (disk0 False)" for k by (simp_all add: disk0_def cblk_def)
  have g: "sem_has (tk 1 1) (lf_mutex (disk0 False)) 1" using tk(2)[of 1 1] by (simp add: disk0_def)
  have l: "\<forall>k. 0 \<le> k \<and> k < Nlfl \<longrightarrow> length (lfdblock (lfltab (disk0 False) k)) = 512 \<and> idle_file (tk 1 1) (disk0 False) k"
    using blocks0 idle0 by blast
  show ?thesis
    using lfs_new_file_lost[OF rep0 named0 g _ l may0 new0(2,1) dev(3)] unfolding dev(1,2) by simp
qed

section \<open>A new file system\<close>

lemma lfibput_total: "0 \<le> i \<Longrightarrow> i < 1000 \<Longrightarrow> \<exists>M'. lfibput i ib M = Some M'"
  by (auto simp: lfibput_def ramread_def ramwrite_def ib2sect_def)

lemma create_ibs_total: "0 \<le> i \<Longrightarrow> i + int n \<le> 1000 \<Longrightarrow> \<exists>M'. create_ibs n i M = Some M'"
proof (induction n arbitrary: i M)
  case (Suc n)
  obtain M1 where "lfibput i ((lfibclear 0)\<lparr>ib_next := i + 1\<rparr>) M = Some M1" using lfibput_total[of i] Suc.prems by fastforce
  then show ?case using Suc.IH[of "i + 1" M1] Suc.prems by simp
qed simp

lemma created: "\<exists>M'. lfscreate 7 2048 (\<lambda>_. 0) = Some (OK, M')"
proof -
  let ?dir = "(dec_dir (replicate 512 0))\<lparr>lfd_nfiles := 0, lfd_dfree := 2\<rparr>"
  obtain M1 where 1: "ramwrite 0 (enc_dir ?dir) (\<lambda>_. 0) = Some M1" by (simp add: ramwrite_def)
  obtain M2 where 2: "create_ibs 6 0 M1 = Some M2" using create_ibs_total[of 0 6 M1] by auto
  obtain M3 where 3: "lfibput 6 ((lfibclear 0)\<lparr>ib_next := LF_INULL\<rparr>) M2 = Some M3" using lfibput_total[of 6] by fastforce
  obtain M4 where 4: "create_dbs 1 2 M3 = Some M4" by (simp add: ramwrite_def)
  obtain M5 where 5: "ramwrite (2 + int (nat 1)) (wbytes LF_DNULL @ replicate 508 0) M4 = Some M5" by (simp add: ramwrite_def)
  have u: "u32 (7 + 6) = 13" "i32 2 = 2" "u32 2 = 2" "u32 1 = 1" by (simp_all add: u32_def)
  have e: "LF_BLKSIZ div 72 = 7" "(2048 :: int) div LF_BLKSIZ = 4" "u32 (7 + (7 - 1)) div 7 = (1 :: int)" "\<not> (1 :: int) > 4 div 2" "i32 (1 * 7) = 7"
    "nat (7 - 1) = 6" "int (6 :: nat) = 6" "i32 (1 + 1) = 2" "u32 (4 - 1 - 1) = 2" "nat (u32 (2 - 1)) = 1" "int (1 :: nat) = 1"
    by (simp_all add: u32_def)
  show ?thesis
    unfolding lfscreate_def Let_def e if_False LF_AREA_DIR_def using 1 2 3 4 5 by (simp del: One_nat_def)
qed

theorem lfscreate_unusable_witness:
  "\<exists>M' d'. lfscreate 7 2048 (\<lambda>_. 0) = Some (OK, M') \<and>
    lfsopen [98] [] (tk 1 1, (disk0 False)\<lparr>lf_dirpresent := False, ram := M'\<rparr>) = Return SYSERR (tk 1 1, d') \<and> lfsckfmt M' = None"
proof -
  obtain M' where M': "lfscreate 7 2048 (\<lambda>_. 0) = Some (OK, M')" using created by blast
  have g: "sem_has (tk 1 1) (lf_mutex ((disk0 False)\<lparr>lf_dirpresent := False, ram := M'\<rparr>)) 1" using tk(2)[of 1 1] by (simp add: disk0_def)
  show ?thesis using lfscreate_unusable[OF M' _ _ g, of "[98]" "[]"] M' by auto
qed

end
