(* ===== verification/Nam.thy ===== *)
theory Nam
  imports Devices
begin

text \<open>
  The namespace of \<^verbatim>\<open>device/nam\<close>: a table of prefixes, each with a replacement and a device. Strings are
  given by their characters before the null byte; a buffer of \<^verbatim>\<open>NM_MAXLEN\<close> bytes by its bytes.
\<close>

section \<open>The table\<close>

definition NM_PRELEN :: nat where [simp]: "NM_PRELEN = 64"
definition NM_REPLLEN :: nat where [simp]: "NM_REPLLEN = 96"
definition NM_MAXLEN :: nat where [simp]: "NM_MAXLEN = 256"
definition NNAMES :: nat where [simp]: "NNAMES = 40"
definition NAMESPACE :: int where [simp]: "NAMESPACE = 3"

record nmentry =
  nprefix :: "int list"
  nreplace :: "int list"
  ndevice :: int

definition namlen :: "int list \<Rightarrow> nat \<Rightarrow> int" where
  "namlen name maxlen = (if length name < maxlen then int (length name) + 1 else SYSERR)"

text \<open>The table of \<^verbatim>\<open>nnames\<close> entries is a list.\<close>

definition mount :: "int list \<Rightarrow> int list \<Rightarrow> int \<Rightarrow> nmentry list \<Rightarrow> int \<times> nmentry list" where
  "mount prefix replace device names =
    (if namlen prefix NM_PRELEN = SYSERR \<or> namlen replace NM_REPLLEN = SYSERR \<or> isbaddev device \<or> length names \<ge> NNAMES
     then (SYSERR, names)
     else (OK, names @ [\<lparr>nprefix = prefix, nreplace = replace, ndevice = device\<rparr>]))"

section \<open>Mapping names\<close>

text \<open>The rest of the name behind the prefix.\<close>

fun match_prefix :: "int list \<Rightarrow> int list \<Rightarrow> int list option" where
  "match_prefix [] optr = Some optr"
| "match_prefix (p # ps) (c # cs) = (if p = c then match_prefix ps cs else None)"
| "match_prefix (p # ps) [] = None"

text \<open>
  \<^verbatim>\<open>namrepl\<close> gives the device and the new contents of the buffer. The length of the name is kept in an
  unsigned byte, \<^verbatim>\<open>olen\<close>.
\<close>

definition store_name :: "int list \<Rightarrow> int list \<Rightarrow> int list" where
  "store_name bs buf = bs @ drop (length bs) buf"

primrec namrepl :: "nmentry list \<Rightarrow> int list \<Rightarrow> int list \<Rightarrow> int \<times> int list" where
  "namrepl [] name newname = (SYSERR, newname)"
| "namrepl (n # ns) name newname =
    (case match_prefix (nprefix n) name of
       None \<Rightarrow> namrepl ns name newname
     | Some optr \<Rightarrow>
         let olen = namlen name NM_MAXLEN mod 256;
             rlen = namlen (nreplace n) NM_MAXLEN - 1;
             remain = olen - int (length (nprefix n))
         in if rlen + remain > int NM_MAXLEN then (SYSERR, newname)
            else (ndevice n, store_name (take (nat rlen) (nreplace n) @ take (nat remain) (optr @ [0])) newname))"

primrec map_loop :: "nat \<Rightarrow> nmentry list \<Rightarrow> int \<Rightarrow> int list \<Rightarrow> int list \<Rightarrow> int \<times> int list" where
  "map_loop 0 names namdev tmpname newname = (SYSERR, newname)"
| "map_loop (Suc i) names namdev tmpname newname =
    (let (newdev, newname) = namrepl names tmpname newname
     in if newdev \<noteq> namdev then (newdev, newname) else map_loop i names namdev tmpname newname)"

definition nammap :: "nmentry list \<Rightarrow> int list \<Rightarrow> int list \<Rightarrow> int \<Rightarrow> int \<times> int list" where
  "nammap names name newname namdev =
    (if length name < NM_MAXLEN then map_loop (length names) names namdev name newname else (SYSERR, newname))"

text \<open>The string in a buffer, and \<^verbatim>\<open>open\<close> with its name as a string.\<close>

definition cstring :: "int list \<Rightarrow> int list" where
  "cstring bs = takeWhile (\<lambda>c. c \<noteq> 0) bs"

type_synonym opener = "string \<Rightarrow> int \<Rightarrow> int list \<Rightarrow> int list \<Rightarrow> kstate \<Rightarrow> (kstate, int) step"

definition open_named :: "opener \<Rightarrow> int \<Rightarrow> int list \<Rightarrow> int list \<Rightarrow> kstate \<Rightarrow> (kstate, int) step" where
  "open_named drv descrp name mode s =
    (if isbaddev descrp then Return SYSERR s
     else case dvopen (devtab ! nat descrp) of
       Ionull \<Rightarrow> ionull s
     | Ioerr \<Rightarrow> ioerr s
     | Drv fn \<Rightarrow> drv fn descrp name mode s)"

definition namopen :: "opener \<Rightarrow> nmentry list \<Rightarrow> int list \<Rightarrow> int \<Rightarrow> int list \<Rightarrow> int list \<Rightarrow> kstate \<Rightarrow> (kstate, int) step" where
  "namopen drv names newname dev name mode s =
    (let (newdev, newname) = nammap names name newname dev
     in if newdev = SYSERR then Return SYSERR s else open_named drv newdev (cstring newname) mode s)"

section \<open>Initialisation\<close>

definition chars :: "string \<Rightarrow> int list" where
  "chars s = map (\<lambda>c. of_char c) s"

definition lower :: "int \<Rightarrow> int" where
  "lower ch = (if 65 \<le> ch \<and> ch \<le> 90 then ch + 32 else ch)"

text \<open>No device name is as long as \<^verbatim>\<open>tmpstr\<close>, so the tests on \<^verbatim>\<open>len\<close> never end the loop; a failing \<^verbatim>\<open>mount\<close> only prints.\<close>

definition mount_devs :: "dentry list \<Rightarrow> nmentry list \<Rightarrow> nmentry list" where
  "mount_devs ds names = fold (\<lambda>d ns. snd (mount (chars ''/dev/'' @ map lower (chars (dvname d))) [] (dvnum d) ns)) ds names"

definition naminit :: "nmentry list" where
  "naminit =
    (let names = mount_devs devtab [];
         names = snd (mount (chars ''/dev/null'') [] 1 names);
         names = snd (mount (chars ''/remote/'') (chars ''remote:'') 7 names);
         names = snd (mount (chars ''/local/'') [] 18 names);
         names = snd (mount (chars ''/dev/'') [] SYSERR names);
         names = snd (mount (chars ''~/'') [] 18 names);
         names = snd (mount (chars ''/'') (chars ''root:'') 7 names);
         names = snd (mount [] [] 18 names)
     in names)"

section \<open>Properties\<close>

lemma match_prefix_iff: "match_prefix ps name = Some rest \<longleftrightarrow> name = ps @ rest"
  by (induction ps name rule: match_prefix.induct) auto

lemma match_prefix_none: "match_prefix ps name = None \<longleftrightarrow> (\<forall>rest. name \<noteq> ps @ rest)"
  using match_prefix_iff[of ps name] by (metis not_None_eq)

text \<open>The first entry whose prefix the name has.\<close>

definition first_match :: "nmentry list \<Rightarrow> int list \<Rightarrow> nmentry option" where
  "first_match names name = List.find (\<lambda>n. \<exists>rest. name = nprefix n @ rest) names"

lemma namrepl_first:
  assumes name: "length name < 255" and r: "\<forall>n\<in>set names. length (nreplace n) < 96"
  shows "namrepl names name buf =
    (case first_match names name of
       None \<Rightarrow> (SYSERR, buf)
     | Some n \<Rightarrow> (let new = nreplace n @ drop (length (nprefix n)) name
                 in if length new < 256 then (ndevice n, store_name (new @ [0]) buf) else (SYSERR, buf)))"
  using r
proof (induction names)
  case (Cons n ns)
  show ?case
  proof (cases "match_prefix (nprefix n) name")
    case None
    then have "\<nexists>rest. name = nprefix n @ rest" by (simp add: match_prefix_none)
    then show ?thesis using None Cons by (simp add: first_match_def)
  next
    case (Some rest)
    then have e: "name = nprefix n @ rest" by (simp add: match_prefix_iff)
    have f: "first_match (n # ns) name = Some n" using e by (auto simp: first_match_def)
    have l: "namlen name 256 mod 256 = int (length name) + 1" "namlen (nreplace n) 256 = int (length (nreplace n)) + 1"
      using name Cons.prems by (simp_all add: namlen_def)
    have rem: "nat (int (length name) + 1 - int (length (nprefix n))) = Suc (length rest)" using e by simp
    show ?thesis using Some f l rem e by (auto simp: Let_def)
  qed
qed (simp add: first_match_def)

lemma store_name_idem [simp]: "store_name bs (store_name bs buf) = store_name bs buf"
  by (simp add: store_name_def)

lemma map_loop_stuck:
  "namrepl names name buf = (dev, buf') \<Longrightarrow> namrepl names name buf' = (dev, buf') \<Longrightarrow> map_loop i names dev name buf' = (SYSERR, buf')"
  by (induction i) simp_all

text \<open>
  \<^verbatim>\<open>nammap\<close> is one lookup: the first entry whose prefix the name has gives the device, and its replacement
  instead of the prefix the new name. An entry for the namespace itself is not followed: the loop tries
  the same name again.
\<close>

theorem nammap_correct:
  assumes name: "length name < 255" and r: "\<forall>n\<in>set names. length (nreplace n) < 96"
  shows "nammap names name buf dev =
    (case first_match names name of
       None \<Rightarrow> (SYSERR, buf)
     | Some n \<Rightarrow> (let new = nreplace n @ drop (length (nprefix n)) name
                 in if length new \<ge> 256 then (SYSERR, buf)
                    else (if ndevice n = dev then SYSERR else ndevice n, store_name (new @ [0]) buf)))"
proof (cases "first_match names name")
  case None
  then have "namrepl names name b = (SYSERR, b)" for b using namrepl_first[OF assms] by simp
  moreover from this have "map_loop i names dev name buf = (SYSERR, buf)" for i by (induction i) simp_all
  ultimately show ?thesis using None name by (simp add: nammap_def)
next
  case (Some n)
  then have ne: "names \<noteq> []" by (auto simp: first_match_def)
  then obtain i where i: "length names = Suc i" by (cases names) simp_all
  let ?new = "nreplace n @ drop (length (nprefix n)) name"
  have rep: "namrepl names name b = (if length ?new < 256 then (ndevice n, store_name (?new @ [0]) b) else (SYSERR, b))" for b
    using namrepl_first[OF assms] Some by (simp add: Let_def)
  show ?thesis
  proof (cases "length ?new < 256")
    case True
    then have "map_loop j names (ndevice n) name (store_name (?new @ [0]) buf) = (SYSERR, store_name (?new @ [0]) buf)" for j
      using rep by (induction j) simp_all
    then show ?thesis using True rep Some name i by (cases "ndevice n = dev") (simp_all add: nammap_def Let_def)
  next
    case False
    then have "map_loop j names dev name buf = (SYSERR, buf)" for j using rep by (induction j) simp_all
    then show ?thesis using False Some name by (simp add: nammap_def Let_def)
  qed
qed

text \<open>
  A name of 255 characters fits its buffer, but its length with the null byte is 0 in \<^verbatim>\<open>olen\<close>: only
  the replacement is stored, without a null byte, and the rest of the name is lost.
\<close>

lemma nammap_longest:
  assumes "length name = 255" "match_prefix (nprefix n) name \<noteq> None" "ndevice n \<noteq> dev" "length (nreplace n) < 96"
  shows "nammap (n # names) name buf dev = (ndevice n, store_name (nreplace n) buf)"
  using assms by (auto simp: nammap_def namlen_def Let_def)

lemma cstring_stored: "0 \<notin> set new \<Longrightarrow> cstring (store_name (new @ [0]) buf) = new"
proof -
  assume "0 \<notin> set new"
  then have "takeWhile (\<lambda>c. c \<noteq> 0) (new @ 0 # ys) = new" for ys by (subst takeWhile_append2) auto
  then show ?thesis by (simp add: cstring_def store_name_def)
qed

lemma naminit_entries:
  "map (\<lambda>n. (nprefix n, nreplace n, ndevice n)) naminit =
     map (\<lambda>d. (chars ''/dev/'' @ map lower (chars (dvname d)), [], dvnum d)) devtab @
     [(chars ''/dev/null'', [], 1), (chars ''/remote/'', chars ''remote:'', 7), (chars ''/local/'', [], 18), (chars ''~/'', [], 18),
      (chars ''/'', chars ''root:'', 7), ([], [], 18)]"
  by code_simp

lemma naminit_short: "\<forall>n\<in>set naminit. length (nreplace n) < 96"
proof -
  have "\<forall>x\<in>set (map (\<lambda>n. (nprefix n, nreplace n, ndevice n)) naminit). length (fst (snd x)) < 96"
    unfolding naminit_entries by code_simp
  then show ?thesis by simp
qed

lemma first_match_code: "first_match names name = List.find (\<lambda>n. match_prefix (nprefix n) name \<noteq> None) names"
proof -
  have "(\<exists>rest. name = p @ rest) \<longleftrightarrow> match_prefix p name \<noteq> None" for p
    using match_prefix_none[of p name] by (cases "match_prefix p name") (simp_all del: not_None_eq)
  then show ?thesis unfolding first_match_def by (simp only:)
qed

definition resolve :: "int list \<Rightarrow> (int list \<times> int list \<times> int) option" where
  "resolve name = map_option (\<lambda>n. (nprefix n, nreplace n, ndevice n)) (first_match naminit name)"

lemma find_map_entries:
  "map_option f (List.find (\<lambda>n. P (nprefix n)) ns) = List.find (\<lambda>x. P (fst x)) (map f ns)"
  if "\<And>n. fst (f n) = nprefix n"
  by (induction ns) (simp_all add: that)

definition name_map :: "(int list \<times> int list \<times> int) list" where
  "name_map = map (\<lambda>d. (chars ''/dev/'' @ map lower (chars (dvname d)), [], dvnum d)) devtab @
     [(chars ''/dev/null'', [], 1), (chars ''/remote/'', chars ''remote:'', 7), (chars ''/local/'', [], 18), (chars ''~/'', [], 18),
      (chars ''/'', chars ''root:'', 7), ([], [], 18)]"

lemma resolve_find: "resolve name = List.find (\<lambda>x. match_prefix (fst x) name \<noteq> None) name_map"
  unfolding resolve_def first_match_code name_map_def naminit_entries[symmetric]
  by (rule find_map_entries) simp

lemma nammap_resolve:
  assumes "resolve name = Some (p, rep, d)" "length name < 255" "length rep + length (drop (length p) name) < 256"
  shows "nammap naminit name buf NAMESPACE = (if d = NAMESPACE then SYSERR else d, store_name (rep @ drop (length p) name @ [0]) buf)"
  using assms nammap_correct[OF assms(2) naminit_short, of buf NAMESPACE] by (auto simp: resolve_def Let_def)

lemma devices_resolve:
  "list_all (\<lambda>d. let name = chars ''/dev/'' @ map lower (chars (dvname d)) in resolve name = Some (name, [], dvnum d) \<and> length name < 255) devtab"
  unfolding resolve_find by code_simp

text \<open>Every device is reached by its name in lower case under \<^verbatim>\<open>/dev/\<close>, except the namespace itself.\<close>

theorem naminit_devices:
  assumes "d \<in> set devtab"
  shows "nammap naminit (chars ''/dev/'' @ map lower (chars (dvname d))) buf NAMESPACE =
    (if dvnum d = NAMESPACE then SYSERR else dvnum d, store_name [0] buf)"
  using devices_resolve assms nammap_resolve[of "chars ''/dev/'' @ map lower (chars (dvname d))" "chars ''/dev/'' @ map lower (chars (dvname d))" "[]"]
  by (auto simp: list_all_iff Let_def)

text \<open>
  The entry that should keep other names under \<^verbatim>\<open>/dev/\<close> from being files is not there, because \<^verbatim>\<open>mount\<close>
  does not accept the device \<^verbatim>\<open>SYSERR\<close>: such a name is one of the remote file system.
\<close>

lemma chars_lits:
  "chars ''/dev/'' = [47, 100, 101, 118, 47]" "chars ''/dev/null'' = [47, 100, 101, 118, 47, 110, 117, 108, 108]"
  "chars ''/remote/'' = [47, 114, 101, 109, 111, 116, 101, 47]" "chars ''/local/'' = [47, 108, 111, 99, 97, 108, 47]"
  "chars ''~/'' = [126, 47]" "chars ''/'' = [47]" "chars ''root:'' = [114, 111, 111, 116, 58]"
  "chars ''null'' = [110, 117, 108, 108]" "chars ''root:dev/'' = [114, 111, 111, 116, 58, 100, 101, 118, 47]"
  by code_simp+

lemma match_prefix_append [simp]: "match_prefix (ps @ qs) (ps @ name) = match_prefix qs name"
  by (induction ps) simp_all

lemma find_append: "List.find P (xs @ ys) = (case List.find P xs of None \<Rightarrow> List.find P ys | Some x \<Rightarrow> Some x)"
  by (induction xs) simp_all

lemma resolve_dev:
  assumes "\<forall>d\<in>set devtab. match_prefix (map lower (chars (dvname d))) name = None" "match_prefix (chars ''null'') name = None"
  shows "resolve (chars ''/dev/'' @ name) = Some (chars ''/'', chars ''root:'', 7)"
proof -
  let ?P = "\<lambda>x :: int list \<times> int list \<times> int. match_prefix (fst x) (chars ''/dev/'' @ name) \<noteq> None"
  have "List.find ?P (map (\<lambda>d. (chars ''/dev/'' @ map lower (chars (dvname d)), [], dvnum d)) ds) = None" if "set ds \<subseteq> set devtab" for ds
    using that assms(1) by (induction ds) auto
  from this[OF order_refl] have d: "List.find ?P (map (\<lambda>d. (chars ''/dev/'' @ map lower (chars (dvname d)), [], dvnum d)) devtab) = None" .
  have n: "match_prefix (chars ''/dev/null'') (chars ''/dev/'' @ name) = None"
    using assms(2) by (simp add: chars_lits)
  show ?thesis unfolding resolve_find name_map_def find_append d using n by (simp add: chars_lits)
qed

theorem dev_prefix_missing:
  assumes "length name < 200" "\<forall>d\<in>set devtab. match_prefix (map lower (chars (dvname d))) name = None" "match_prefix (chars ''null'') name = None"
  shows "fst (mount (chars ''/dev/'') [] SYSERR names) = SYSERR \<and>
    nammap naminit (chars ''/dev/'' @ name) buf NAMESPACE = (7, store_name (chars ''root:dev/'' @ name @ [0]) buf)"
proof
  show "fst (mount (chars ''/dev/'') [] SYSERR names) = SYSERR" by (simp add: mount_def isbaddev_def)
  show "nammap naminit (chars ''/dev/'' @ name) buf NAMESPACE = (7, store_name (chars ''root:dev/'' @ name @ [0]) buf)"
    using nammap_resolve[OF resolve_dev[OF assms(2,3)], of buf] assms(1) by (simp add: chars_lits)
qed

end
