(* ===== verification/Spec2Isabelle.thy ===== *)
theory Spec2Isabelle
  imports Net_Examples Lib_Examples Lfs_Examples Nam
begin

text \<open>
  This development models the embedded operating system in \<^verbatim>\<open>src/Xinu\<close>: its kernel, its drivers, its network
  code, its file systems on the RAM disk and its library, as far as they are C code of the repository
  that runs on the board. File names below are relative to that directory.

  \<^bold>\<open>The program.\<close> A fixed table of processes shares one processor. Every process that does not run is in at
  most one queue of \<^verbatim>\<open>queuetab\<close>: the ready list by priority, the delta list of sleepers, or the queue of a
  semaphore. All system calls disable interrupts, change these tables, and may end in \<^verbatim>\<open>resched\<close>, which
  switches to the first ready process by \<^verbatim>\<open>ctxsw\<close>. Drivers consist of calls that processes make and of
  interrupt handlers, and synchronise by semaphores; the network processes \<^verbatim>\<open>netin\<close> and \<^verbatim>\<open>ipout\<close> pass
  packets, which are buffers of a pool, between the Ethernet driver and the tables of UDP, ICMP and ARP.

  \<^bold>\<open>How operations are modelled.\<close> The kernel's variables are the fields of one record \<open>kstate\<close>
  (\<open>Kernel_State\<close>); memory is a map from addresses to 32-bit words. A call is a function from the state to
  a value of the type \<open>step\<close> (\<open>Xinu_Prelude\<close>): \<open>Return\<close> with the result and the new state, \<open>Switch\<close>
  where the code calls \<^verbatim>\<open>ctxsw\<close>, with the state handed to the next process and the rest of the call as
  a function of the state in which the caller runs again, or \<open>Fault\<close> where the code would index outside a
  table, panic or not end. Between \<^verbatim>\<open>ctxsw\<close> and its return anything may have happened, so the theorems
  about a call that blocks either speak of the state in which it calls \<^verbatim>\<open>resched\<close> or of all states
  in which it may be resumed. Drivers and the network work on pairs of \<open>kstate\<close> and their own data
  (\<open>Device_State\<close>). Integers are \<open>int\<close>, converted by \<open>i32\<close>, \<open>u32\<close>, \<open>i16\<close>, \<open>u16\<close> wherever the C code stores
  an arithmetic result that may not fit.

  \<^bold>\<open>The theories, from the bottom up.\<close>
  \<^item> \<open>Xinu_Prelude\<close>, \<open>Kernel_State\<close>: shared vocabulary; the structures and constants of \<^verbatim>\<open>include/process.h\<close>,
    \<^verbatim>\<open>queue.h\<close>, \<^verbatim>\<open>semaphore.h\<close>, \<^verbatim>\<open>memory.h\<close>, \<^verbatim>\<open>bufpool.h\<close>, \<^verbatim>\<open>ports.h\<close>, \<^verbatim>\<open>mark.h\<close>.
  \<^item> \<open>Queues\<close>: \<^verbatim>\<open>queue.c\<close>, \<^verbatim>\<open>getitem.c\<close>, \<^verbatim>\<open>insert.c\<close>, \<^verbatim>\<open>insertd.c\<close>, \<^verbatim>\<open>newqueue.c\<close>. \<open>Queue_Lists\<close> shows that
    they act on the linked table as operations on lists (\<open>wfq\<close>, \<open>wfqs\<close>).
  \<^item> \<open>Sched\<close>: \<^verbatim>\<open>resched.c\<close>, \<^verbatim>\<open>ready.c\<close>, \<^verbatim>\<open>yield.c\<close>, \<^verbatim>\<open>suspend.c\<close>, \<^verbatim>\<open>resume.c\<close>, \<^verbatim>\<open>chprio.c\<close> and so on.
    \<open>Kernel_Inv\<close> states the invariant \<open>kinv\<close> of the kernel and \<open>Sched_Inv\<close> that the scheduler keeps it,
    and which process it chooses.
  \<^item> \<open>Memory\<close>: \<^verbatim>\<open>getmem.c\<close>, \<^verbatim>\<open>freemem.c\<close>, \<^verbatim>\<open>getstk.c\<close> on the linked list of free blocks, against the list
    of the blocks (\<open>heap_rep\<close>) and the set of their bytes.
  \<^item> \<open>Semaphores\<close> and \<open>Sem_Spec\<close>: the code, and its refinement of a count with a queue of processes.
  \<^item> \<open>Clock\<close>: \<^verbatim>\<open>sleep.c\<close>, \<^verbatim>\<open>unsleep.c\<close>, \<^verbatim>\<open>wakeup.c\<close>, \<^verbatim>\<open>clkhandler.c\<close>; the delta list against the time that each
    sleeper has left (\<open>sleepers\<close>).
  \<^item> \<open>Messages\<close>, \<open>Devices\<close>, \<open>Process\<close>, \<open>Boot\<close>: message passing; the device switch with the table of
    \<^verbatim>\<open>conf.c\<close>; \<^verbatim>\<open>create.c\<close>, \<^verbatim>\<open>kill.c\<close>, \<^verbatim>\<open>exit.c\<close>, \<^verbatim>\<open>userret.c\<close>; the static initial values and \<^verbatim>\<open>initialize.c\<close>.
  \<^item> \<open>System\<close>: the step relation of the whole kernel (calls, clock interrupts, resumed calls) and its
    reachable configurations.
  \<^item> \<open>Bufpool\<close>, \<open>Fifo\<close>, \<open>Ports\<close>: buffer pools and marks; the contract of a queue; the ports of \<^verbatim>\<open>pt*.c\<close>.
  \<^item> \<open>Cstring\<close>, \<open>Doprnt\<close>, \<open>Doprnt_Correct\<close>, \<open>Shell_Lex\<close>, \<open>Dot2ip\<close>: strings and numbers of \<^verbatim>\<open>lib\<close>, formatted
    output, the shell's \<^verbatim>\<open>lexan.c\<close>, \<^verbatim>\<open>net/dot2ip.c\<close>.
  \<^item> \<open>Device_State\<close>, \<open>Tty\<close>, \<open>Tty_Spec\<close>: \<^verbatim>\<open>evec.c\<close> and the terminal driver of \<^verbatim>\<open>device/tty\<close>, whose input
    interrupts are a line editor on lists.
  \<^item> \<open>Bytes\<close>, \<open>Net_Bytes\<close>, \<open>Net_State\<close>, \<open>Net_Cksum\<close>: bytes of memory, the layout of packets and the network's
    tables, byte order, checksums.
  \<^item> \<open>Ether\<close>, \<open>Ether_Spec\<close>: \<^verbatim>\<open>device/eth\<close> on descriptor rings in memory. \<open>Arp\<close>, \<open>Arp_Spec\<close>: \<^verbatim>\<open>net/arp.c\<close>. \<open>Net_Stack\<close>
    with \<open>Udp_Spec\<close>, \<open>Icmp_Spec\<close>, \<open>Ip_Spec\<close>: \<^verbatim>\<open>net/udp.c\<close>, \<^verbatim>\<open>icmp.c\<close>, \<^verbatim>\<open>ip.c\<close>, \<^verbatim>\<open>net.c\<close>.
  \<^item> \<open>Lfs_State\<close>, \<open>Lfs\<close>: \<^verbatim>\<open>device/ram\<close> and \<^verbatim>\<open>device/lfs\<close>. \<open>Lfs_Disk\<close> reads the disk as blocks; \<open>Lfs_Rep\<close> says
    which files (lists of bytes) the disk and the blocks in memory represent (\<open>fs_rep\<close>); \<open>Lfs_Setup\<close>,
    \<open>Lfs_Spec\<close>, \<open>Lfs_Files\<close>, \<open>Lfs_Open\<close> take the operations through it one by one; \<open>Lfs_Correct\<close> has the
    resulting theorems.
  \<^item> \<open>Nam\<close>: the namespace, \<^verbatim>\<open>device/nam\<close>.
  \<^item> \<open>Examples\<close>, \<open>Port_Examples\<close>, \<open>Tty_Examples\<close>, \<open>Net_Examples\<close>, \<open>Lib_Examples\<close>, \<open>Lfs_Examples\<close>: concrete states,
    most of them reached by running the model from its start, to which the theorems are applied.
\<close>

text \<open>
  \<^bold>\<open>Interfaces.\<close> \<open>fifo\<close> is a bounded first-in-first-out queue and \<open>item_queue\<close>, of which it is a case, a queue of
  places in memory that must not overlap; both prove once that what is put in comes out in order. They
  are interpreted on the code's models: the list of message nodes of a port (\<open>pt_nodes\<close>), \<^verbatim>\<open>ptsend\<close> and
  \<^verbatim>\<open>ptrecv\<close> (\<open>pt_calls\<close>), the two ring buffers of a terminal (\<open>tty_in\<close>, \<open>tty_out\<close>), the rings of packets of UDP
  and of IP output (\<open>udp_q\<close>, \<open>ip_q\<close>), and \<^verbatim>\<open>udp_in\<close> with \<^verbatim>\<open>udp_recv\<close> (\<open>udp_ep\<close>). \<open>kernel_calls\<close> is a family of
  calls that keep \<open>kinv\<close> up to every switch and return; it is interpreted on all system calls
  (\<open>syscalls\<close>).

  \<^bold>\<open>What is shown.\<close> For the kernel: every reachable configuration satisfies \<open>kinv\<close>, no admissible call
  faults, and the queues agree with the process table and the counts of the semaphores. For each
  component, its operations do what their abstract specification says, on error paths too: who runs next,
  which bytes are free, which process a semaphore releases, how long each sleeper still sleeps, the edited
  lines of the terminal, the order of messages, datagrams and frames, replies to echo and ARP requests, the
  bytes of files through caches and free lists, and what of them is on the disk after closing. For
  formats, that what is written is read back: packets on the wire, numerals, words of a command line.
  Where the code does not do what it means to, the theorem states what it does instead.

  \<^bold>\<open>Bounds and fuel.\<close> Loops over a table are structural recursions on the number of its entries. \<open>wakeup_loop\<close>,
  \<open>semdelete_loop\<close> and the loops that empty a port are given one round more than there can be processes or
  messages, which is proved to be enough (running out is \<open>Fault\<close>); every round of the loops of the
  Ethernet handler raises the count of the semaphore that ends them, so they have as many rounds as the
  ring has descriptors beyond that count. Loops over linked lists, strings and index blocks that end only
  if the data is well formed are \<open>partial_function (option)\<close>, and the theorems show the result they
  return. The infinite loops of \<^verbatim>\<open>netin\<close> and \<^verbatim>\<open>ipout\<close> are modelled by one round. The theorems on the kernel
  assume that semaphore counts stay below \<^verbatim>\<open>2^31\<close>, that the null process does not block and that the last
  user process does not end (\<open>admissible\<close>). Those on the file system hold for every number of blocks of the
  index area and for files up to what index blocks can address, and assume that nobody else holds the
  mutexes.

  \<^bold>\<open>Not modelled.\<close> Assembly (\<^verbatim>\<open>ctxsw.S\<close>, \<^verbatim>\<open>intr.S\<close>, \<^verbatim>\<open>start.S\<close>) and accesses to device registers whose meaning is
  the hardware's: \<^verbatim>\<open>ethinit.c\<close>, \<^verbatim>\<open>initintc\<close>, \<^verbatim>\<open>platinit.c\<close>, ADC, GPIO, SPI and PWM; that the timer or a
  UART has an interrupt pending, and what it received, are arguments. Clients of servers outside the
  repository (remote disk and files, DHCP, DNS, TFTP, time): what they do depends on these servers' answers, while
  the UDP calls they consist of are modelled. The main loop and the commands of the shell, console output
  and packet dumps only format and print. \<^verbatim>\<open>qsort\<close> and the scanning functions of \<^verbatim>\<open>lib\<close> are called by nothing in
  the system. The configuration tool is a host program whose output, \<^verbatim>\<open>conf.c\<close>, is modelled; the cross
  compiler, the boot image tool and \<^verbatim>\<open>webapp\<close> are not part of the operating system. Processes that are
  interrupted at arbitrary instructions outside the system calls appear only as the order of the steps in
  \<open>System\<close>.
\<close>

end
